(* ===== verification/Opensmt_Prelude.thy ===== *)
theory Opensmt_Prelude
  imports Complex_Main "HOL-Library.Signed_Division"
begin

text \<open>
  What the component theories share: the machine integer types of the sources
  (\<open>int32_t\<close>, \<open>uint32_t\<close>, \<open>int64_t\<close>, \<open>uint64_t\<close>) as
  conversions on \<open>int\<close>, C++ failures as values, and the generic lemmas about
  lists and integers the components use.

  A machine integer is an \<open>int\<close> that lies in the range of its type. Every
  arithmetic operation of the sources is followed by the conversion to its result type,
  \<open>s32\<close>, \<open>u32\<close>, \<open>s64\<close> or \<open>u64\<close>: reduction modulo
  \<open>2 ^ 32\<close> or \<open>2 ^ 64\<close> into the signed or the unsigned range. Signed
  overflow is read as two's complement wrap-around, which the unit test
  \<open>test_abs_val_int32min\<close> of the repository relies on.
\<close>

named_theorems width_simps "conversions that are the identity on values in range"

section \<open>Failures as values\<close>

text \<open>
  A failed \<open>assert\<close>, a call of \<open>abort()\<close> or \<open>exit(1)\<close>, a division by zero, a signed
  division whose quotient does not fit (\<open>INT_MIN / -1\<close> and \<open>INT_MIN % -1\<close>, undefined in C++ and
  a trap on most machines), a read of memory that was never initialised or lies out of range, and a loop that does not end.
\<close>

datatype c_error =
  Assertion_Failed | Aborted | Division_By_Zero | Signed_Overflow | Uninitialised_Read | Diverges

type_synonym 'a result = "c_error + 'a"

definition rbind :: "'a result \<Rightarrow> ('a \<Rightarrow> 'b result) \<Rightarrow> 'b result" where
  "rbind r f = (case r of Inl e \<Rightarrow> Inl e | Inr x \<Rightarrow> f x)"

lemma rbind_Inl [simp]: "rbind (Inl e) f = Inl e"
  by (simp add: rbind_def)

lemma rbind_Inr [simp]: "rbind (Inr x) f = f x"
  by (simp add: rbind_def)

lemma rbind_eq_Inr_iff: "rbind r f = Inr y \<longleftrightarrow> (\<exists>x. r = Inr x \<and> f x = Inr y)"
  by (cases r) auto

definition require :: "bool \<Rightarrow> 'a result \<Rightarrow> 'a result" where
  "require b r = (if b then r else Inl Assertion_Failed)"

lemma require_True [simp]: "require True r = r"
  by (simp add: require_def)

lemma require_False [simp]: "require False r = Inl Assertion_Failed"
  by (simp add: require_def)

text \<open>A loop modelled as a partial function, used by code that waits for it.\<close>

definition returns :: "'a option \<Rightarrow> 'a result" where
  "returns r = (case r of None \<Rightarrow> Inl Diverges | Some x \<Rightarrow> Inr x)"

lemma returns_Some [simp]: "returns (Some x) = Inr x"
  by (simp add: returns_def)

text \<open>The same for a loop whose body can fail.\<close>

definition runs :: "'a result option \<Rightarrow> 'a result" where
  "runs r = (case r of None \<Rightarrow> Inl Diverges | Some x \<Rightarrow> x)"

lemma runs_Some [simp]: "runs (Some x) = x"
  by (simp add: runs_def)

section \<open>Machine integers\<close>

definition s32 :: "int \<Rightarrow> int" where
  "s32 x = signed_take_bit 31 x"

definition u32 :: "int \<Rightarrow> int" where
  "u32 x = take_bit 32 x"

definition s64 :: "int \<Rightarrow> int" where
  "s64 x = signed_take_bit 63 x"

definition u64 :: "int \<Rightarrow> int" where
  "u64 x = take_bit 64 x"

definition in_s32 :: "int \<Rightarrow> bool" where
  "in_s32 x \<longleftrightarrow> - 2147483648 \<le> x \<and> x \<le> 2147483647"

definition in_u32 :: "int \<Rightarrow> bool" where
  "in_u32 x \<longleftrightarrow> 0 \<le> x \<and> x \<le> 4294967295"

definition in_s64 :: "int \<Rightarrow> bool" where
  "in_s64 x \<longleftrightarrow> - 9223372036854775808 \<le> x \<and> x \<le> 9223372036854775807"

definition in_u64 :: "int \<Rightarrow> bool" where
  "in_u64 x \<longleftrightarrow> 0 \<le> x \<and> x \<le> 18446744073709551615"

lemma s32_id [width_simps]: "in_s32 x \<Longrightarrow> s32 x = x"
  by (simp add: s32_def in_s32_def signed_take_bit_int_eq_self_iff)

lemma u32_id [width_simps]: "in_u32 x \<Longrightarrow> u32 x = x"
  by (simp add: u32_def in_u32_def take_bit_int_eq_self_iff)

lemma s64_id [width_simps]: "in_s64 x \<Longrightarrow> s64 x = x"
  by (simp add: s64_def in_s64_def signed_take_bit_int_eq_self_iff)

lemma u64_id [width_simps]: "in_u64 x \<Longrightarrow> u64 x = x"
  by (simp add: u64_def in_u64_def take_bit_int_eq_self_iff)

lemma in_s32_s32: "in_s32 (s32 x)"
  using signed_take_bit_int_greater_eq_minus_exp [of 31 x] signed_take_bit_int_less_exp [of 31 x]
  by (simp add: s32_def in_s32_def)

lemma in_u32_u32: "in_u32 (u32 x)"
  using take_bit_int_less_exp [of 32 x] take_bit_nonnegative [of 32 x]
  by (simp add: u32_def in_u32_def)

lemma in_s64_s64: "in_s64 (s64 x)"
  using signed_take_bit_int_greater_eq_minus_exp [of 63 x] signed_take_bit_int_less_exp [of 63 x]
  by (simp add: s64_def in_s64_def)

lemma in_u64_u64: "in_u64 (u64 x)"
  using take_bit_int_less_exp [of 64 x] take_bit_nonnegative [of 64 x]
  by (simp add: u64_def in_u64_def)

lemma in_s32_imp_in_s64: "in_s32 x \<Longrightarrow> in_s64 x"
  by (simp add: in_s32_def in_s64_def)

lemma in_u32_imp_in_s64: "in_u32 x \<Longrightarrow> in_s64 x"
  by (simp add: in_u32_def in_s64_def)

text \<open>The product of a numerator and a denominator of word size fits in 64 bits.\<close>

lemma abs_word_mult_le:
  assumes "in_s32 n" and "in_u32 d"
  shows "\<bar>n * d\<bar> \<le> 9223372034707292160"
proof -
  have "\<bar>n\<bar> \<le> 2147483648" "\<bar>d\<bar> \<le> 4294967295"
    using assms by (auto simp: in_s32_def in_u32_def)
  then have "\<bar>n\<bar> * \<bar>d\<bar> \<le> 2147483648 * 4294967295"
    by (intro mult_mono) auto
  then show ?thesis
    by (simp add: abs_mult)
qed

lemma word_mult_bounds:
  assumes "in_s32 n" and "in_u32 d"
  shows "- 9223372034707292160 \<le> n * d" "n * d \<le> 9223372030412324865"
proof -
  show "- 9223372034707292160 \<le> n * d"
    using abs_word_mult_le [OF assms] by linarith
  have "n * d \<le> 2147483647 * 4294967295" if "0 \<le> n"
    using assms that by (intro mult_mono) (auto simp: in_s32_def in_u32_def)
  moreover have "n * d \<le> 0" if "n \<le> 0"
    using assms that by (simp add: mult_nonpos_nonneg in_u32_def)
  ultimately show "n * d \<le> 9223372030412324865"
    by linarith
qed

lemma in_s64_word_mult [width_simps]: "in_s32 n \<Longrightarrow> in_u32 d \<Longrightarrow> in_s64 (n * d)"
  using abs_word_mult_le [of n d] unfolding in_s64_def by linarith

lemma in_u64_uword_mult [width_simps]:
  assumes "in_u32 c" and "in_u32 d"
  shows "in_u64 (c * d)"
proof -
  have "c * d \<le> 4294967295 * 4294967295"
    using assms by (intro mult_mono) (auto simp: in_u32_def)
  then show ?thesis
    using assms by (simp add: in_u32_def in_u64_def)
qed

section \<open>Truncating division\<close>

text \<open>
  C++ division and remainder are \<open>sdiv\<close> and \<open>smod\<close> of the library; on
  non-negative operands they agree with \<open>div\<close> and \<open>mod\<close>, and where the divisor
  divides the dividend with \<open>div\<close>.
\<close>

lemma sdiv_nonneg: "0 \<le> (a::int) \<Longrightarrow> 0 \<le> b \<Longrightarrow> a sdiv b = a div b"
  by (cases "a = 0"; cases "b = 0") (auto simp: signed_divide_int_def sgn_if)

lemma smod_nonneg: "0 \<le> (a::int) \<Longrightarrow> 0 \<le> b \<Longrightarrow> a smod b = a mod b"
  by (cases "a = 0") (auto simp: signed_modulo_int_def sgn_if)

lemma sdiv_dvd: "(b::int) dvd a \<Longrightarrow> a sdiv b = a div b"
  by (simp add: signed_divide_int_eq_divide_int)

lemma abs_smod_less: "(b::int) \<noteq> 0 \<Longrightarrow> \<bar>a smod b\<bar> < \<bar>b\<bar>"
  by (cases "a = 0") (auto simp: signed_modulo_int_def abs_mult)

end
