(* ===== verification/Gmp.thy ===== *)
theory Gmp
  imports Opensmt_Prelude
begin

text \<open>
  The GMP interface that \<open>FastRational\<close> calls. GMP is not part of the repository, so
  its operations are a parameter of the model: the record \<open>gmp\<close> of the operations
  the code calls, over an abstract type \<open>'q\<close> for \<open>mpq_t\<close>. An \<open>mpz_t\<close> is read as the
  integer it denotes. The locale \<open>gmp_iface\<close> states the documented laws the code
  relies on: canonical operands give a canonical result with the exact value. The
  interpretation on pairs of integers shows that the laws can be met.
\<close>

section \<open>The operations\<close>

record 'q gmp =
  mpq_init :: 'q
  mpq_numref :: "'q \<Rightarrow> int"
  mpq_denref :: "'q \<Rightarrow> int"
  mpq_set_num :: "'q \<Rightarrow> int \<Rightarrow> 'q"
  mpq_set_den :: "'q \<Rightarrow> int \<Rightarrow> 'q"
  mpq_set_str :: "string \<Rightarrow> int \<Rightarrow> 'q"
  mpq_canonicalize :: "'q \<Rightarrow> 'q"
  mpq_add :: "'q \<Rightarrow> 'q \<Rightarrow> 'q"
  mpq_sub :: "'q \<Rightarrow> 'q \<Rightarrow> 'q"
  mpq_mul :: "'q \<Rightarrow> 'q \<Rightarrow> 'q"
  mpq_div :: "'q \<Rightarrow> 'q \<Rightarrow> 'q option"
  mpq_neg :: "'q \<Rightarrow> 'q"
  mpq_inv :: "'q \<Rightarrow> 'q option"
  mpq_cmp :: "'q \<Rightarrow> 'q \<Rightarrow> int"
  mpq_equal :: "'q \<Rightarrow> 'q \<Rightarrow> bool"
  mpq_sgn :: "'q \<Rightarrow> int"
  mpz_fits_sint_p :: "int \<Rightarrow> bool"
  mpz_fits_uint_p :: "int \<Rightarrow> bool"
  mpz_get_si :: "int \<Rightarrow> int"
  mpz_get_ui :: "int \<Rightarrow> int"
  mpz_cdiv_q :: "int \<Rightarrow> int \<Rightarrow> int option"
  mpz_fdiv_q :: "int \<Rightarrow> int \<Rightarrow> int option"
  mpz_gcd :: "int \<Rightarrow> int \<Rightarrow> int"
  mpz_lcm :: "int \<Rightarrow> int \<Rightarrow> int"
  mpz_divexact :: "int \<Rightarrow> int \<Rightarrow> int option"
  mpz_limbs :: "int \<Rightarrow> int list"

text \<open>
  \<open>mpq_div\<close>, \<open>mpq_inv\<close> and the integer divisions trap on a zero divisor: \<open>None\<close>.
  \<open>mpz_limbs z\<close> are the limbs \<open>_mp_d[0 .. _mp_size - 1]\<close> that a loop from 0
  below \<open>_mp_size\<close> reads; \<open>_mp_size\<close> is negative for a negative number.
\<close>

text \<open>\<open>mpq_t\<close> in canonical form, and the rational number it denotes.\<close>

definition canonical :: "'q gmp \<Rightarrow> 'q \<Rightarrow> bool" where
  "canonical G q \<longleftrightarrow> 0 < mpq_denref G q \<and> coprime (mpq_numref G q) (mpq_denref G q)"

definition qval :: "'q gmp \<Rightarrow> 'q \<Rightarrow> rat" where
  "qval G q = of_int (mpq_numref G q) / of_int (mpq_denref G q)"

section \<open>The laws\<close>

locale gmp_iface =
  fixes G :: "'q gmp"
  assumes numref_set_num: "mpq_numref G (mpq_set_num G q z) = z"
    and denref_set_num: "mpq_denref G (mpq_set_num G q z) = mpq_denref G q"
    and numref_set_den: "mpq_numref G (mpq_set_den G q z) = mpq_numref G q"
    and denref_set_den: "mpq_denref G (mpq_set_den G q z) = z"
    and canonicalize: "mpq_denref G q \<noteq> 0 \<Longrightarrow>
      canonical G (mpq_canonicalize G q) \<and> qval G (mpq_canonicalize G q) = qval G q"
    and add: "canonical G p \<Longrightarrow> canonical G q \<Longrightarrow>
      canonical G (mpq_add G p q) \<and> qval G (mpq_add G p q) = qval G p + qval G q"
    and sub: "canonical G p \<Longrightarrow> canonical G q \<Longrightarrow>
      canonical G (mpq_sub G p q) \<and> qval G (mpq_sub G p q) = qval G p - qval G q"
    and mul: "canonical G p \<Longrightarrow> canonical G q \<Longrightarrow>
      canonical G (mpq_mul G p q) \<and> qval G (mpq_mul G p q) = qval G p * qval G q"
    and div: "canonical G p \<Longrightarrow> canonical G q \<Longrightarrow> mpq_numref G q \<noteq> 0 \<Longrightarrow>
      \<exists>r. mpq_div G p q = Some r \<and> canonical G r \<and> qval G r = qval G p / qval G q"
    and div_zero: "canonical G p \<Longrightarrow> canonical G q \<Longrightarrow> mpq_numref G q = 0 \<Longrightarrow>
      mpq_div G p q = None"
    and neg: "canonical G p \<Longrightarrow>
      canonical G (mpq_neg G p) \<and> qval G (mpq_neg G p) = - qval G p"
    and inv: "canonical G p \<Longrightarrow> mpq_numref G p \<noteq> 0 \<Longrightarrow>
      \<exists>r. mpq_inv G p = Some r \<and> canonical G r \<and> qval G r = 1 / qval G p"
    and cmp: "canonical G p \<Longrightarrow> canonical G q \<Longrightarrow>
      sgn (mpq_cmp G p q) = (if qval G p < qval G q then -1 else if qval G q < qval G p then 1 else 0)"
    and equal: "canonical G p \<Longrightarrow> canonical G q \<Longrightarrow> mpq_equal G p q \<longleftrightarrow> qval G p = qval G q"
    and sgn: "canonical G p \<Longrightarrow> mpq_sgn G p = sgn (mpq_numref G p)"
    and fits_sint: "mpz_fits_sint_p G z \<longleftrightarrow> in_s32 z"
    and fits_uint: "mpz_fits_uint_p G z \<longleftrightarrow> in_u32 z"
    and get_si: "in_s32 z \<Longrightarrow> mpz_get_si G z = z"
    and get_ui: "in_u32 z \<Longrightarrow> mpz_get_ui G z = z"
    and cdiv_q: "d \<noteq> 0 \<Longrightarrow> mpz_cdiv_q G n d = Some \<lceil>of_int n / of_int d :: rat\<rceil>"
    and fdiv_q: "d \<noteq> 0 \<Longrightarrow> mpz_fdiv_q G n d = Some (n div d)"
    and z_gcd: "mpz_gcd G m n = gcd m n"
    and z_lcm: "mpz_lcm G m n = lcm m n"
    and divexact: "d \<noteq> 0 \<Longrightarrow> d dvd n \<Longrightarrow> mpz_divexact G n d = Some (n div d)"
begin

lemma canonical_of_word:
  assumes "0 < d" and "coprime n d"
  shows "canonical G (mpq_set_den G (mpq_set_num G q n) d)"
    and "qval G (mpq_set_den G (mpq_set_num G q n) d) = of_int n / of_int d"
  using assms
  by (simp_all add: canonical_def qval_def numref_set_num denref_set_num numref_set_den denref_set_den)

lemma qval_eq_iff:
  assumes "canonical G p" and "canonical G q"
  shows "qval G p = qval G q \<longleftrightarrow>
    mpq_numref G p = mpq_numref G q \<and> mpq_denref G p = mpq_denref G q"
proof -
  have "quotient_of (qval G r) = (mpq_numref G r, mpq_denref G r)" if "canonical G r" for r
    using that by (simp add: canonical_def qval_def quotient_of_Fract normalize_stable
        flip: Fract_of_int_quotient)
  with assms show ?thesis
    by (metis fst_conv qval_def snd_conv)
qed

end

section \<open>An implementation on pairs of integers\<close>

text \<open>
  Pairs of numerator and denominator, normalised by \<open>Rat.normalize\<close> after every
  operation: it satisfies the laws and evaluates, so it serves the witnesses.
\<close>

definition pair_gmp :: "(int \<times> int) gmp" where
  "pair_gmp = \<lparr>
     mpq_init = (0, 1),
     mpq_numref = fst,
     mpq_denref = snd,
     mpq_set_num = (\<lambda>q z. (z, snd q)),
     mpq_set_den = (\<lambda>q z. (fst q, z)),
     mpq_set_str = (\<lambda>s b. (0, 1)),
     mpq_canonicalize = Rat.normalize,
     mpq_add = (\<lambda>p q. Rat.normalize (fst p * snd q + fst q * snd p, snd p * snd q)),
     mpq_sub = (\<lambda>p q. Rat.normalize (fst p * snd q - fst q * snd p, snd p * snd q)),
     mpq_mul = (\<lambda>p q. Rat.normalize (fst p * fst q, snd p * snd q)),
     mpq_div = (\<lambda>p q. if fst q = 0 then None else Some (Rat.normalize (fst p * snd q, snd p * fst q))),
     mpq_neg = (\<lambda>p. (- fst p, snd p)),
     mpq_inv = (\<lambda>p. if fst p = 0 then None else Some (Rat.normalize (snd p, fst p))),
     mpq_cmp = (\<lambda>p q. sgn (fst p * snd q - fst q * snd p)),
     mpq_equal = (\<lambda>p q. p = q),
     mpq_sgn = (\<lambda>p. sgn (fst p)),
     mpz_fits_sint_p = in_s32,
     mpz_fits_uint_p = in_u32,
     mpz_get_si = (\<lambda>z. z),
     mpz_get_ui = (\<lambda>z. z),
     mpz_cdiv_q = (\<lambda>n d. if d = 0 then None else Some (- ((- n) div d))),
     mpz_fdiv_q = (\<lambda>n d. if d = 0 then None else Some (n div d)),
     mpz_gcd = gcd,
     mpz_lcm = lcm,
     mpz_divexact = (\<lambda>n d. if d = 0 then None else Some (n div d)),
     mpz_limbs = (\<lambda>z. if z \<le> 0 then [] else if z < 18446744073709551616 then [z]
       else [z mod 18446744073709551616, z div 18446744073709551616])\<rparr>"

lemma pair_gmp_sel [simp]:
  "mpq_init pair_gmp = (0, 1)"
  "mpq_numref pair_gmp = fst"
  "mpq_denref pair_gmp = snd"
  "mpq_set_num pair_gmp q z = (z, snd q)"
  "mpq_set_den pair_gmp q z = (fst q, z)"
  "mpq_canonicalize pair_gmp = Rat.normalize"
  "mpq_add pair_gmp p q = Rat.normalize (fst p * snd q + fst q * snd p, snd p * snd q)"
  "mpq_sub pair_gmp p q = Rat.normalize (fst p * snd q - fst q * snd p, snd p * snd q)"
  "mpq_mul pair_gmp p q = Rat.normalize (fst p * fst q, snd p * snd q)"
  "mpq_div pair_gmp p q =
     (if fst q = 0 then None else Some (Rat.normalize (fst p * snd q, snd p * fst q)))"
  "mpq_neg pair_gmp p = (- fst p, snd p)"
  "mpq_inv pair_gmp p = (if fst p = 0 then None else Some (Rat.normalize (snd p, fst p)))"
  "mpq_cmp pair_gmp p q = sgn (fst p * snd q - fst q * snd p)"
  "mpq_equal pair_gmp p q \<longleftrightarrow> p = q"
  "mpq_sgn pair_gmp p = sgn (fst p)"
  "mpz_fits_sint_p pair_gmp = in_s32"
  "mpz_fits_uint_p pair_gmp = in_u32"
  "mpz_get_si pair_gmp z = z"
  "mpz_get_ui pair_gmp z = z"
  "mpz_cdiv_q pair_gmp n d = (if d = 0 then None else Some (- ((- n) div d)))"
  "mpz_fdiv_q pair_gmp n d = (if d = 0 then None else Some (n div d))"
  "mpz_gcd pair_gmp = gcd"
  "mpz_lcm pair_gmp = lcm"
  "mpz_divexact pair_gmp n d = (if d = 0 then None else Some (n div d))"
  "mpz_limbs pair_gmp z = (if z \<le> 0 then [] else if z < 18446744073709551616 then [z]
     else [z mod 18446744073709551616, z div 18446744073709551616])"
  by (simp_all add: pair_gmp_def)

lemma normalize_canonical: "canonical pair_gmp (Rat.normalize p)"
  using normalize_denom_pos [of p "fst (Rat.normalize p)" "snd (Rat.normalize p)"]
    normalize_coprime [of p "fst (Rat.normalize p)" "snd (Rat.normalize p)"]
  by (simp add: canonical_def)

lemma normalize_value:
  assumes "d \<noteq> 0"
  shows "qval pair_gmp (Rat.normalize (n, d)) = of_int n / of_int d"
proof -
  obtain m e where me: "Rat.normalize (n, d) = (m, e)"
    by fastforce
  have "e > 0"
    using normalize_denom_pos [OF me] .
  then have "Rat.normalize (n, d) = Rat.normalize (m, e)"
    using me normalize_coprime [OF me] by (simp add: normalize_stable)
  then have "Fract n d = Fract m e"
    by (simp flip: quotient_of_Fract) (metis Fract_quotient_of)
  then show ?thesis
    using me by (simp add: qval_def Fract_of_int_quotient)
qed

lemma pair_canonical_pos: "canonical pair_gmp p \<Longrightarrow> 0 < snd p"
  by (simp add: canonical_def)

lemma pair_value_less:
  assumes "canonical pair_gmp p" and "canonical pair_gmp q"
  shows "qval pair_gmp p < qval pair_gmp q \<longleftrightarrow> fst p * snd q < fst q * snd p"
proof -
  have "qval pair_gmp p < qval pair_gmp q \<longleftrightarrow>
      (of_int (fst p * snd q) :: rat) < of_int (fst q * snd p)"
    using assms [THEN pair_canonical_pos] by (simp add: qval_def field_simps)
  then show ?thesis
    by (simp only: of_int_less_iff)
qed

lemma pair_value_eq:
  assumes "canonical pair_gmp p" and "canonical pair_gmp q"
  shows "p = q \<longleftrightarrow> qval pair_gmp p = qval pair_gmp q"
proof -
  have "quotient_of (qval pair_gmp r) = r" if "canonical pair_gmp r" for r
    using that by (cases r) (simp add: canonical_def qval_def quotient_of_Fract normalize_stable
        flip: Fract_of_int_quotient)
  with assms show ?thesis
    by metis
qed

lemma pair_ceiling:
  assumes "d \<noteq> 0"
  shows "- ((- n) div d) = \<lceil>of_int n / of_int d :: rat\<rceil>"
proof -
  have "\<lfloor>- (of_int n / of_int d :: rat)\<rfloor> = (- n) div d"
    using floor_divide_of_int_eq [of "- n" d, where 'a = rat] by simp
  then show ?thesis
    by (simp add: ceiling_def)
qed

lemmas pair_rules = normalize_canonical normalize_value pair_canonical_pos pair_value_less

interpretation pair_gmp: gmp_iface pair_gmp
proof
  fix p q :: "int \<times> int"
  assume p: "canonical pair_gmp p" and q: "canonical pair_gmp q"
  note pos = pair_canonical_pos [OF p] pair_canonical_pos [OF q]
  show "canonical pair_gmp (mpq_add pair_gmp p q) \<and>
      qval pair_gmp (mpq_add pair_gmp p q) = qval pair_gmp p + qval pair_gmp q"
    and "canonical pair_gmp (mpq_sub pair_gmp p q) \<and>
      qval pair_gmp (mpq_sub pair_gmp p q) = qval pair_gmp p - qval pair_gmp q"
    and "canonical pair_gmp (mpq_mul pair_gmp p q) \<and>
      qval pair_gmp (mpq_mul pair_gmp p q) = qval pair_gmp p * qval pair_gmp q"
    using pos by (auto simp: pair_rules qval_def [where q = p] qval_def [where q = q] field_simps)
  show "\<exists>r. mpq_div pair_gmp p q = Some r \<and> canonical pair_gmp r \<and>
      qval pair_gmp r = qval pair_gmp p / qval pair_gmp q" if "mpq_numref pair_gmp q \<noteq> 0"
    using pos that by (auto simp: pair_rules qval_def [where q = p] qval_def [where q = q] field_simps)
  show "mpq_div pair_gmp p q = None" if "mpq_numref pair_gmp q = 0"
    using that by simp
  show "sgn (mpq_cmp pair_gmp p q) = (if qval pair_gmp p < qval pair_gmp q then -1
      else if qval pair_gmp q < qval pair_gmp p then 1 else 0)"
    using pair_value_less [OF p q] pair_value_less [OF q p] by (simp add: sgn_if)
  show "mpq_equal pair_gmp p q \<longleftrightarrow> qval pair_gmp p = qval pair_gmp q"
    using pair_value_eq [OF p q] by simp
next
  fix p :: "int \<times> int"
  assume p: "canonical pair_gmp p"
  show "canonical pair_gmp (mpq_neg pair_gmp p) \<and> qval pair_gmp (mpq_neg pair_gmp p) = - qval pair_gmp p"
    using p by (simp add: canonical_def qval_def)
  show "\<exists>r. mpq_inv pair_gmp p = Some r \<and> canonical pair_gmp r \<and> qval pair_gmp r = 1 / qval pair_gmp p"
    if "mpq_numref pair_gmp p \<noteq> 0"
    using that by (auto simp: pair_rules qval_def [where q = p])
  show "mpq_sgn pair_gmp p = sgn (mpq_numref pair_gmp p)"
    by simp
next
  fix q :: "int \<times> int"
  assume "mpq_denref pair_gmp q \<noteq> 0"
  then show "canonical pair_gmp (mpq_canonicalize pair_gmp q) \<and>
      qval pair_gmp (mpq_canonicalize pair_gmp q) = qval pair_gmp q"
    by (cases q) (simp add: normalize_canonical normalize_value, simp add: qval_def)
next
  fix n d :: int
  assume "d \<noteq> 0"
  then show "mpz_cdiv_q pair_gmp n d = Some \<lceil>of_int n / of_int d :: rat\<rceil>"
    by (simp add: pair_ceiling)
qed simp_all

end
