(* ===== verification/Fast_Rational.thy ===== *)
theory Fast_Rational
  imports Gmp "HOL-Library.Word"
begin

unbundle bit_operations_syntax

text \<open>
  The class \<open>FastRational\<close> of \<open>src/src/common/FastRational.h\<close>: its state, its
  constructors and its queries. A rational is kept as a 32-bit numerator and denominator
  when it fits and as a GMP rational otherwise; the state byte tells which part is valid.
  Comparisons and the arithmetic of \<^theory_text>\<open>Fast_Rational_Arith\<close> fill in the GMP part of
  their constant operands (\<open>force_ensure_mpq_valid\<close>), so they return the operands too.
\<close>

section \<open>The state byte\<close>

type_synonym state_t = "8 word"

definition WORD_VALID :: state_t where "WORD_VALID = 1"
definition MPQ_MEMORY_ALLOCATED :: state_t where "MPQ_MEMORY_ALLOCATED = 2"
definition WORD_PLUS_MPQ_INITIALIZED :: state_t where
  "WORD_PLUS_MPQ_INITIALIZED = WORD_VALID OR MPQ_MEMORY_ALLOCATED"
definition MPQ_VALID :: state_t where "MPQ_VALID = 4"
definition MPQ_ALLOCATED_AND_VALID :: state_t where
  "MPQ_ALLOCATED_AND_VALID = MPQ_MEMORY_ALLOCATED OR MPQ_VALID"
definition WORD_AND_MPQ :: state_t where
  "WORD_AND_MPQ = WORD_VALID OR MPQ_ALLOCATED_AND_VALID"

lemmas state_defs = WORD_VALID_def MPQ_MEMORY_ALLOCATED_def WORD_PLUS_MPQ_INITIALIZED_def
  MPQ_VALID_def MPQ_ALLOCATED_AND_VALID_def WORD_AND_MPQ_def

text \<open>
  \<open>fr_num\<close> is an \<open>int32_t\<close>, \<open>fr_den\<close> a \<open>uint32_t\<close>. \<open>fr_mpq\<close> is
  \<open>None\<close> while the memory of the \<open>mpq_t\<close> is not initialised.
\<close>

record 'q frat =
  fr_state :: state_t
  fr_num :: int
  fr_den :: int
  fr_mpq :: "'q option"

definition wordPartValid :: "'q frat \<Rightarrow> bool" where
  "wordPartValid f \<longleftrightarrow> fr_state f AND 1 \<noteq> 0"

definition mpqMemoryAllocated :: "'q frat \<Rightarrow> bool" where
  "mpqMemoryAllocated f \<longleftrightarrow> fr_state f AND 2 \<noteq> 0"

definition mpqPartValid :: "'q frat \<Rightarrow> bool" where
  "mpqPartValid f \<longleftrightarrow> fr_state f AND 4 \<noteq> 0"

lemma and_mask_bit:
  fixes w :: "8 word"
  shows "w AND 1 \<noteq> 0 \<longleftrightarrow> bit w 0" "w AND 2 \<noteq> 0 \<longleftrightarrow> bit w 1" "w AND 4 \<noteq> 0 \<longleftrightarrow> bit w 2"
  using and_exp_eq_0_iff_not_bit [of w 0] and_exp_eq_0_iff_not_bit [of w 1]
    and_exp_eq_0_iff_not_bit [of w 2]
  by simp_all

lemma state_bits [simp]:
  "bit WORD_VALID 0" "\<not> bit WORD_VALID (Suc 0)" "\<not> bit WORD_VALID 2"
  "bit WORD_PLUS_MPQ_INITIALIZED 0" "bit WORD_PLUS_MPQ_INITIALIZED (Suc 0)"
  "\<not> bit WORD_PLUS_MPQ_INITIALIZED 2"
  "\<not> bit MPQ_ALLOCATED_AND_VALID 0" "bit MPQ_ALLOCATED_AND_VALID (Suc 0)" "bit MPQ_ALLOCATED_AND_VALID 2"
  "\<not> bit MPQ_MEMORY_ALLOCATED 0" "bit MPQ_MEMORY_ALLOCATED (Suc 0)" "\<not> bit MPQ_MEMORY_ALLOCATED 2"
  by (simp_all add: state_defs)

lemma valid_bits:
  "wordPartValid f \<longleftrightarrow> bit (fr_state f) 0"
  "mpqMemoryAllocated f \<longleftrightarrow> bit (fr_state f) 1"
  "mpqPartValid f \<longleftrightarrow> bit (fr_state f) 2"
  unfolding wordPartValid_def mpqMemoryAllocated_def mpqPartValid_def by (simp_all only: and_mask_bit)

definition setWordPartValid :: "'q frat \<Rightarrow> 'q frat" where
  "setWordPartValid f = f\<lparr>fr_state := fr_state f OR WORD_VALID\<rparr>"

definition setMpqMemoryAllocated :: "'q frat \<Rightarrow> 'q frat" where
  "setMpqMemoryAllocated f = f\<lparr>fr_state := fr_state f OR MPQ_MEMORY_ALLOCATED\<rparr>"

definition setMpqAllocatedAndValid :: "'q frat \<Rightarrow> 'q frat" where
  "setMpqAllocatedAndValid f = f\<lparr>fr_state := fr_state f OR MPQ_ALLOCATED_AND_VALID\<rparr>"

definition setWordPartInvalid :: "'q frat \<Rightarrow> 'q frat result" where
  "setWordPartInvalid f = require (mpqPartValid f) (Inr (f\<lparr>fr_state := MPQ_ALLOCATED_AND_VALID\<rparr>))"

definition setMpqPartInvalid :: "'q frat \<Rightarrow> 'q frat result" where
  "setMpqPartInvalid f = require (wordPartValid f)
     (Inr (f\<lparr>fr_state := if mpqMemoryAllocated f then WORD_PLUS_MPQ_INITIALIZED else WORD_VALID\<rparr>))"

section \<open>Memory and conversion between the two parts\<close>

definition read_mpq :: "'q frat \<Rightarrow> 'q result" where
  "read_mpq f = (case fr_mpq f of None \<Rightarrow> Inl Uninitialised_Read | Some q \<Rightarrow> Inr q)"

definition kill_mpq :: "'q frat \<Rightarrow> 'q frat" where
  "kill_mpq f =
     (if mpqMemoryAllocated f then f\<lparr>fr_mpq := None, fr_state := WORD_VALID\<rparr> else f)"

definition ensure_mpq_valid :: "'q gmp \<Rightarrow> 'q frat \<Rightarrow> 'q frat result" where
  "ensure_mpq_valid G f =
     (if \<not> mpqPartValid f then
        require (wordPartValid f)
          (let f1 = (if \<not> mpqMemoryAllocated f then f\<lparr>fr_mpq := Some (mpq_init G)\<rparr> else f) in
           rbind (read_mpq f1) (\<lambda>q.
           Inr (setMpqAllocatedAndValid
             (f1\<lparr>fr_mpq := Some (mpq_set_den G (mpq_set_num G q (fr_num f)) (fr_den f))\<rparr>))))
      else Inr f)"

definition ensure_mpq_memory_allocated :: "'q gmp \<Rightarrow> 'q frat \<Rightarrow> 'q frat" where
  "ensure_mpq_memory_allocated G f =
     (if \<not> mpqMemoryAllocated f then setMpqMemoryAllocated (f\<lparr>fr_mpq := Some (mpq_init G)\<rparr>) else f)"

definition try_fit_word :: "'q gmp \<Rightarrow> 'q frat \<Rightarrow> 'q frat result" where
  "try_fit_word G f =
     require (mpqPartValid f) (require (\<not> wordPartValid f)
       (rbind (read_mpq f) (\<lambda>q.
        if mpz_fits_sint_p G (mpq_numref G q) \<and> mpz_fits_uint_p G (mpq_denref G q)
        then Inr (setWordPartValid
          (f\<lparr>fr_num := mpz_get_si G (mpq_numref G q), fr_den := mpz_get_ui G (mpq_denref G q)\<rparr>))
        else Inr f)))"

section \<open>Greatest common divisor\<close>

text \<open>The \<open>absVal\<close> overloads, the first from \<open>word\<close>, the second from \<open>lword\<close>.\<close>

definition absVal32 :: "int \<Rightarrow> int" where
  "absVal32 x = u32 (if 0 \<le> x then x else s32 (- x))"

definition absVal64 :: "int \<Rightarrow> int" where
  "absVal64 x = u64 (if 0 \<le> x then x else s64 (- x))"

text \<open>
  The template \<open>gcd\<close>: Euclid's loop on one machine type. The remainder is
  \<open>smod\<close>, which is \<open>mod\<close> for the unsigned instances.
\<close>

function gcd_loop :: "int \<Rightarrow> int \<Rightarrow> int" where
  "gcd_loop a b =
     (if b = 0 then 0 else if a smod b = 0 then b else gcd_loop b (a smod b))"
  by pat_completeness auto
termination
  by (relation "measure (\<lambda>(a, b). nat \<bar>b\<bar>)") (auto simp: abs_smod_less)

declare gcd_loop.simps [simp del]

definition gcd_t :: "int \<Rightarrow> int \<Rightarrow> int" where
  "gcd_t a b =
     (if a = 0 then b else if b = 0 then a
      else if b > a then gcd_loop b a else gcd_loop a b)"

section \<open>Constructors and assignment\<close>

definition FastRational_default :: "'q frat" where
  "FastRational_default = \<lparr>fr_state = WORD_VALID, fr_num = 0, fr_den = 1, fr_mpq = None\<rparr>"

definition FastRational_word :: "int \<Rightarrow> 'q frat" where
  "FastRational_word x = \<lparr>fr_state = WORD_VALID, fr_num = x, fr_den = 1, fr_mpq = None\<rparr>"

definition FastRational_word_word :: "int \<Rightarrow> int \<Rightarrow> 'q frat" where
  "FastRational_word_word n d = \<lparr>fr_state = WORD_VALID, fr_num = n, fr_den = u32 d, fr_mpq = None\<rparr>"

definition FastRational_uint32 :: "'q gmp \<Rightarrow> int \<Rightarrow> 'q frat" where
  "FastRational_uint32 G x =
     (if x > 2147483647 then
        \<lparr>fr_state = MPQ_ALLOCATED_AND_VALID, fr_num = 0, fr_den = 0,
         fr_mpq = Some (mpq_set_den G (mpq_set_num G (mpq_init G) x) 1)\<rparr>
      else \<lparr>fr_state = WORD_VALID, fr_num = x, fr_den = 1, fr_mpq = None\<rparr>)"

text \<open>
  A constructor that leaves \<open>num\<close> and \<open>den\<close> unset fills them with 0 here; nothing
  reads them while the word part is not valid.
\<close>

definition FastRational_mpz :: "'q gmp \<Rightarrow> int \<Rightarrow> 'q frat" where
  "FastRational_mpz G z =
     (if mpz_fits_sint_p G z then
        \<lparr>fr_state = WORD_VALID, fr_num = mpz_get_si G z, fr_den = 1, fr_mpq = None\<rparr>
      else
        \<lparr>fr_state = MPQ_ALLOCATED_AND_VALID, fr_num = 0, fr_den = 0,
         fr_mpq = Some (mpq_set_den G (mpq_set_num G (mpq_init G) z) 1)\<rparr>)"

definition isWellFormed :: "'q gmp \<Rightarrow> 'q frat \<Rightarrow> bool" where
  "isWellFormed G f \<longleftrightarrow>
     (wordPartValid f \<or> mpqPartValid f) \<and>
     (wordPartValid f \<longrightarrow> fr_den f \<noteq> 0 \<and> gcd_t (absVal32 (fr_num f)) (fr_den f) = 1) \<and>
     (mpqPartValid f \<longrightarrow> (case fr_mpq f of None \<Rightarrow> False | Some q \<Rightarrow> mpq_denref G q \<noteq> 0))"

definition FastRational_str :: "'q gmp \<Rightarrow> string \<Rightarrow> int \<Rightarrow> 'q frat result" where
  "FastRational_str G s base =
     (let q = mpq_canonicalize G (mpq_set_str G s base) in
      rbind (try_fit_word G
        \<lparr>fr_state = MPQ_ALLOCATED_AND_VALID, fr_num = 0, fr_den = 0, fr_mpq = Some q\<rparr>) (\<lambda>f.
      let f1 = (if wordPartValid f then kill_mpq f else f) in
      require (isWellFormed G f1) (Inr f1)))"

definition FastRational_word_uword :: "int \<Rightarrow> int \<Rightarrow> 'q frat result" where
  "FastRational_word_uword n d =
     require (d > 0)
       (if n = 0 then Inr \<lparr>fr_state = WORD_VALID, fr_num = 0, fr_den = 1, fr_mpq = None\<rparr>
        else
          let common = s32 (gcd_t (u32 (if n > 0 then n else s32 (- n))) d) in
          Inr \<lparr>fr_state = WORD_VALID, fr_num = s32 (n sdiv common), fr_den = d div u32 common,
               fr_mpq = None\<rparr>)"

definition FastRational_copy :: "'q gmp \<Rightarrow> 'q frat \<Rightarrow> 'q frat result" where
  "FastRational_copy G x =
     (if wordPartValid x then
        Inr \<lparr>fr_state = WORD_VALID, fr_num = fr_num x, fr_den = fr_den x, fr_mpq = None\<rparr>
      else require (mpqPartValid x) (rbind (read_mpq x) (\<lambda>q.
        Inr \<lparr>fr_state = MPQ_ALLOCATED_AND_VALID, fr_num = 0, fr_den = 0, fr_mpq = Some q\<rparr>)))"

text \<open>The move constructor returns the new object and what is left of the old one.\<close>

definition FastRational_move :: "'q frat \<Rightarrow> 'q frat \<times> 'q frat" where
  "FastRational_move other =
     (let this = \<lparr>fr_state = fr_state other, fr_num = fr_num other, fr_den = fr_den other,
                  fr_mpq = None\<rparr> in
      if mpqMemoryAllocated other
      then (this\<lparr>fr_mpq := fr_mpq other\<rparr>, other\<lparr>fr_mpq := None, fr_state := WORD_VALID\<rparr>)
      else (this, other))"

definition assign_copy :: "'q gmp \<Rightarrow> 'q frat \<Rightarrow> 'q frat \<Rightarrow> 'q frat result" where
  "assign_copy G this x =
     (if wordPartValid x then
        setMpqPartInvalid (setWordPartValid (this\<lparr>fr_num := fr_num x, fr_den := fr_den x\<rparr>))
      else require (mpqPartValid x) (rbind (read_mpq x) (\<lambda>q.
        Inr (this\<lparr>fr_mpq := Some q, fr_state := MPQ_ALLOCATED_AND_VALID\<rparr>))))"

definition assign_move :: "'q frat \<Rightarrow> 'q frat \<Rightarrow> 'q frat \<times> 'q frat" where
  "assign_move this other = (other, this)"

definition fr_reset :: "'q frat \<Rightarrow> 'q frat" where
  "fr_reset f = (kill_mpq f)\<lparr>fr_state := WORD_VALID, fr_num := 0, fr_den := 1\<rparr>"

section \<open>Comparison and sign\<close>

definition force2 :: "'q gmp \<Rightarrow> 'q frat \<Rightarrow> 'q frat \<Rightarrow> ('q frat \<times> 'q \<times> 'q frat \<times> 'q) result" where
  "force2 G a b =
     rbind (ensure_mpq_valid G a) (\<lambda>a'. rbind (ensure_mpq_valid G b) (\<lambda>b'.
     rbind (read_mpq a') (\<lambda>p. rbind (read_mpq b') (\<lambda>q. Inr (a', p, b', q)))))"

definition op_eq :: "'q gmp \<Rightarrow> 'q frat \<Rightarrow> 'q frat \<Rightarrow> (bool \<times> 'q frat \<times> 'q frat) result" where
  "op_eq G a b =
     (if wordPartValid a \<and> wordPartValid b
      then Inr (fr_num a = fr_num b \<and> fr_den a = fr_den b, a, b)
      else rbind (force2 G a b) (\<lambda>(a', p, b', q). Inr (mpq_equal G p q, a', b')))"

definition compare_lword :: "int \<Rightarrow> int \<Rightarrow> int" where
  "compare_lword a b = (if a < b then -1 else if a > b then 1 else 0)"

definition compare :: "'q gmp \<Rightarrow> 'q frat \<Rightarrow> 'q frat \<Rightarrow> (int \<times> 'q frat \<times> 'q frat) result" where
  "compare G a b =
     (if wordPartValid a \<and> wordPartValid b then
        if fr_den b = fr_den a then Inr (compare_lword (fr_num a) (fr_num b), a, b)
        else Inr (compare_lword (s64 (fr_num a * fr_den b)) (s64 (fr_num b * fr_den a)), a, b)
      else rbind (force2 G a b) (\<lambda>(a', p, b', q). Inr (mpq_cmp G p q, a', b')))"

definition op_less :: "'q gmp \<Rightarrow> 'q frat \<Rightarrow> 'q frat \<Rightarrow> (bool \<times> 'q frat \<times> 'q frat) result" where
  "op_less G a b = rbind (compare G a b) (\<lambda>(c, a', b'). Inr (c < 0, a', b'))"

definition op_greater :: "'q gmp \<Rightarrow> 'q frat \<Rightarrow> 'q frat \<Rightarrow> (bool \<times> 'q frat \<times> 'q frat) result" where
  "op_greater G a b = rbind (compare G a b) (\<lambda>(c, a', b'). Inr (c > 0, a', b'))"

definition op_leq :: "'q gmp \<Rightarrow> 'q frat \<Rightarrow> 'q frat \<Rightarrow> (bool \<times> 'q frat \<times> 'q frat) result" where
  "op_leq G a b = rbind (compare G a b) (\<lambda>(c, a', b'). Inr (c \<le> 0, a', b'))"

definition op_geq :: "'q gmp \<Rightarrow> 'q frat \<Rightarrow> 'q frat \<Rightarrow> (bool \<times> 'q frat \<times> 'q frat) result" where
  "op_geq G a b = rbind (compare G a b) (\<lambda>(c, a', b'). Inr (c \<ge> 0, a', b'))"

definition op_neq :: "'q gmp \<Rightarrow> 'q frat \<Rightarrow> 'q frat \<Rightarrow> (bool \<times> 'q frat \<times> 'q frat) result" where
  "op_neq G a b = rbind (op_eq G a b) (\<lambda>(c, a', b'). Inr (\<not> c, a', b'))"

definition fr_sign :: "'q gmp \<Rightarrow> 'q frat \<Rightarrow> int result" where
  "fr_sign G f =
     (if wordPartValid f then Inr (if fr_num f < 0 then -1 else if fr_num f > 0 then 1 else 0)
      else require (mpqPartValid f) (rbind (read_mpq f) (\<lambda>q. Inr (mpq_sgn G q))))"

definition isZero :: "'q gmp \<Rightarrow> 'q frat \<Rightarrow> bool result" where
  "isZero G f =
     (if wordPartValid f then Inr (fr_num f = 0)
      else rbind (read_mpq f) (\<lambda>q. Inr (mpq_sgn G q = 0)))"

definition isInteger :: "'q gmp \<Rightarrow> 'q frat \<Rightarrow> bool result" where
  "isInteger G f =
     (if wordPartValid f then Inr (fr_den f = 1)
      else require (mpqPartValid f) (rbind (read_mpq f) (\<lambda>q.
        Inr (mpz_fits_uint_p G (mpq_denref G q) \<and> mpz_get_ui G (mpq_denref G q) = 1))))"

section \<open>Negation, numerator and denominator, hash\<close>

text \<open>\<open>operator-\<close> returns the result and the operand, whose GMP part it may fill in.\<close>

definition op_neg :: "'q gmp \<Rightarrow> 'q frat \<Rightarrow> ('q frat \<times> 'q frat) result" where
  "op_neg G f =
     (if wordPartValid f \<and> fr_num f > - 2147483648
      then rbind (FastRational_word_uword (s32 (- fr_num f)) (fr_den f)) (\<lambda>x. Inr (x, f))
      else rbind (ensure_mpq_valid G f) (\<lambda>f'. rbind (read_mpq f') (\<lambda>q.
        Inr (\<lparr>fr_state = MPQ_ALLOCATED_AND_VALID, fr_num = 0, fr_den = 1,
              fr_mpq = Some (mpq_neg G q)\<rparr>, f'))))"

definition fr_negate :: "'q gmp \<Rightarrow> 'q frat \<Rightarrow> 'q frat result" where
  "fr_negate G f =
     (if wordPartValid f \<and> fr_num f > - 2147483648
      then setMpqPartInvalid (f\<lparr>fr_num := s32 (- fr_num f)\<rparr>)
      else rbind (ensure_mpq_valid G f) (\<lambda>f'. rbind (read_mpq f') (\<lambda>q.
        setWordPartInvalid (f'\<lparr>fr_mpq := Some (mpq_neg G q)\<rparr>))))"

definition get_den :: "'q gmp \<Rightarrow> 'q frat \<Rightarrow> 'q frat result" where
  "get_den G f =
     (if wordPartValid f \<and> fr_den f \<le> 2147483647 then Inr (FastRational_uint32 G (fr_den f))
      else rbind (read_mpq f) (\<lambda>q. Inr (FastRational_mpz G (mpq_denref G q))))"

definition get_num :: "'q gmp \<Rightarrow> 'q frat \<Rightarrow> 'q frat result" where
  "get_num G f =
     (if wordPartValid f then Inr (FastRational_word (fr_num f))
      else rbind (read_mpq f) (\<lambda>q. Inr (FastRational_mpz G (mpq_numref G q))))"

text \<open>The FNV loop over the limbs; a limb is truncated to 32 bits by the exclusive or.\<close>

definition hash_limbs :: "int list \<Rightarrow> int" where
  "hash_limbs = foldl (\<lambda>h l. u32 (u32 (h * 16777619) XOR l)) 2166136261"

definition getHashValue :: "'q gmp \<Rightarrow> 'q frat \<Rightarrow> int result" where
  "getHashValue G f =
     (if wordPartValid f then Inr (u32 (u32 (37 * u32 (fr_num f)) + u32 (13 * fr_den f)))
      else rbind (read_mpq f) (\<lambda>q.
        Inr (u32 (hash_limbs (mpz_limbs G (mpq_numref G q)) + hash_limbs (mpz_limbs G (mpq_denref G q))))))"

definition fr_abs :: "'q gmp \<Rightarrow> 'q frat \<Rightarrow> ('q frat \<times> 'q frat) result" where
  "fr_abs G x =
     rbind (fr_sign G x) (\<lambda>s.
     if s \<ge> 0 then rbind (FastRational_copy G x) (\<lambda>y. Inr (y, x)) else op_neg G x)"

text \<open>The operands of \<open>cmpabs\<close> are passed by value, so only the result is returned.\<close>

definition cmpabs :: "'q gmp \<Rightarrow> 'q frat \<Rightarrow> 'q frat \<Rightarrow> int result" where
  "cmpabs G op1 op2 =
     rbind (fr_sign G op1) (\<lambda>s1.
     rbind (if s1 = -1 then rbind (op_neg G op1) (\<lambda>(r, _). Inr r) else Inr op1) (\<lambda>x1.
     rbind (fr_sign G op2) (\<lambda>s2.
     rbind (if s2 = -1 then rbind (op_neg G op2) (\<lambda>(r, _). Inr r) else Inr op2) (\<lambda>x2.
     rbind (compare G x1 x2) (\<lambda>(c, _, _). Inr c)))))"

end
