(* ===== verification/Fast_Rational_Arith.thy ===== *)
theory Fast_Rational_Arith
  imports Fast_Rational
begin

text \<open>
  The arithmetic of \<open>FastRational\<close>: the free functions \<open>addition\<close>,
  \<open>substraction\<close>, \<open>multiplication\<close>, \<open>division\<close> and their assigning forms,
  the operators built on them, rounding, remainder and the integer functions of
  \<open>FastRational.C\<close>. Each function first tries the word path, and its
  \<open>goto overflow\<close> falls back to GMP. The word path is a value of type \<open>path\<close>:
  \<open>Fits\<close> the result, \<open>Overflow\<close> for the jump, \<open>Stuck\<close> for an abort or a trap.
\<close>

section \<open>The word path\<close>

datatype 'a path = Fits 'a | Overflow | Stuck c_error

primrec pbind :: "'a path \<Rightarrow> ('a \<Rightarrow> 'b path) \<Rightarrow> 'b path" where
  "pbind (Fits x) f = f x"
| "pbind Overflow f = Overflow"
| "pbind (Stuck e) f = Stuck e"

text \<open>The macros \<open>CHECK_WORD\<close>, \<open>CHECK_SUM_OVERFLOWS_LWORD\<close> and \<open>CHECK_UWORD\<close>.\<close>

definition CHECK_WORD :: "int \<Rightarrow> int path" where
  "CHECK_WORD v = (if v < - 1073741824 \<or> v > 1073741823 then Overflow else Fits v)"

definition CHECK_SUM_OVERFLOWS_LWORD :: "int \<Rightarrow> int \<Rightarrow> int path" where
  "CHECK_SUM_OVERFLOWS_LWORD s1 s2 =
     (if (s1 > 4611686018427387903 \<or> s2 > 4611686018427387903) \<or>
         (s1 < - 4611686018427387904 \<or> s2 < - 4611686018427387904)
      then Overflow else Fits (s64 (s1 + s2)))"

definition CHECK_UWORD :: "int \<Rightarrow> int path" where
  "CHECK_UWORD v =
     (if v < 1 then Stuck Aborted else if u64 v > 4294967295 then Overflow else Fits (u64 v))"

text \<open>A division of two machine integers, which traps on a zero divisor.\<close>

definition div_path :: "int \<Rightarrow> int \<Rightarrow> int path" where
  "div_path a b = (if b = 0 then Stuck Division_By_Zero else Fits (a sdiv b))"

text \<open>
  The end shared by addition and subtraction: reduce \<open>n / d\<close> by their greatest common
  divisor. \<open>common\<close> is an \<open>lword\<close>, so a divisor of 2^63 or more turns negative and is
  not used.
\<close>

definition reduce_sum :: "int \<Rightarrow> int \<Rightarrow> (int \<times> int) path" where
  "reduce_sum n d =
     (let common = s64 (gcd_t (absVal64 n) d) in
      if common > 1 then
        pbind (CHECK_WORD (n sdiv common)) (\<lambda>zn.
        pbind (CHECK_UWORD (d div u64 common)) (\<lambda>zd. Fits (zn, zd)))
      else
        pbind (CHECK_WORD n) (\<lambda>zn. pbind (CHECK_UWORD d) (\<lambda>zd. Fits (zn, zd))))"

definition addition_word :: "'q frat \<Rightarrow> 'q frat \<Rightarrow> (int \<times> int) path" where
  "addition_word a b =
     (if fr_num b = 0 then Fits (fr_num a, fr_den a)
      else if fr_num a = 0 then Fits (fr_num b, fr_den b)
      else if fr_den b = 1 then
        pbind (CHECK_WORD (s64 (fr_num a + s64 (fr_num b * fr_den a)))) (\<lambda>n. Fits (n, fr_den a))
      else if fr_den a = 1 then
        pbind (CHECK_WORD (s64 (fr_num b + s64 (fr_num a * fr_den b)))) (\<lambda>n. Fits (n, fr_den b))
      else
        pbind (CHECK_SUM_OVERFLOWS_LWORD (s64 (fr_num a * fr_den b)) (s64 (fr_num b * fr_den a))) (\<lambda>n.
        reduce_sum n (u64 (fr_den a * fr_den b))))"

definition substraction_word :: "'q frat \<Rightarrow> 'q frat \<Rightarrow> (int \<times> int) path" where
  "substraction_word a b =
     (if fr_num b = 0 then Fits (fr_num a, fr_den a)
      else if fr_num a = 0 then
        (if fr_num b = - 2147483648 then Overflow else Fits (s32 (- fr_num b), fr_den b))
      else if fr_den b = 1 then
        pbind (CHECK_WORD (s64 (fr_num a - s64 (fr_num b * fr_den a)))) (\<lambda>n. Fits (n, fr_den a))
      else if fr_den a = 1 then
        pbind (CHECK_WORD (s64 (s64 (- fr_num b) + s64 (fr_num a * fr_den b)))) (\<lambda>n. Fits (n, fr_den b))
      else
        reduce_sum (s64 (s64 (fr_num a * fr_den b) - s64 (fr_num b * fr_den a)))
          (u64 (fr_den a * fr_den b)))"

text \<open>
  In \<open>multiplication\<close> the divisors are \<open>word\<close>s: a divisor of 2^31 turns negative and
  is not used.
\<close>

definition multiplication_word :: "'q frat \<Rightarrow> 'q frat \<Rightarrow> (int \<times> int) path" where
  "multiplication_word a b =
     (let common1 = s32 (gcd_t (absVal32 (fr_num a)) (fr_den b));
          common2 = s32 (gcd_t (fr_den a) (absVal32 (fr_num b)));
          (k1, k4) = (if common1 > 1 then (fr_num a sdiv common1, fr_den b div u64 common1)
                      else (fr_num a, fr_den b));
          (k2, k3) = (if common2 > 1 then (fr_num b sdiv common2, fr_den a div u64 common2)
                      else (fr_num b, fr_den a))
      in pbind (CHECK_WORD (s64 (k1 * k2))) (\<lambda>zn.
         pbind (CHECK_UWORD (u64 (k3 * k4))) (\<lambda>zd. Fits (zn, zd))))"

definition division_word :: "'q frat \<Rightarrow> 'q frat \<Rightarrow> (int \<times> int) path" where
  "division_word a b =
     (let common1 = gcd_t (absVal32 (fr_num a)) (absVal32 (fr_num b));
          common2 = gcd_t (fr_den a) (fr_den b)
      in pbind (div_path (fr_num a) common1) (\<lambda>qa.
         pbind (div_path (fr_den b) common2) (\<lambda>qb.
         pbind (CHECK_WORD (s64 (qa * qb))) (\<lambda>zn.
         pbind (div_path (absVal32 (fr_num b)) common1) (\<lambda>qc.
         pbind (div_path (fr_den a) common2) (\<lambda>qd.
         pbind (CHECK_UWORD (u64 (qc * qd))) (\<lambda>zd.
         let n1 = (if (fr_num b < 0 \<and> fr_num a \<ge> 0) \<or> (fr_num b > 0 \<and> fr_num a \<le> 0)
                   then s32 (u32 (- absVal32 zn)) else zn);
             n2 = (if (fr_num b > 0 \<and> fr_num a \<ge> 0) \<or> (fr_num b < 0 \<and> fr_num a \<le> 0)
                   then s32 (absVal32 n1) else n1)
         in Fits (n2, zd))))))))"

text \<open>The assigning forms do not share these word paths.\<close>

definition additionAssign_word :: "'q frat \<Rightarrow> 'q frat \<Rightarrow> (int \<times> int) path" where
  "additionAssign_word a b =
     (if fr_den b = 1 then
        pbind (CHECK_WORD (s64 (fr_num a + s64 (fr_num b * fr_den a)))) (\<lambda>n. Fits (n, fr_den a))
      else if fr_num a = 0 then Fits (fr_num b, fr_den b)
      else
        pbind (CHECK_SUM_OVERFLOWS_LWORD (s64 (fr_num a * fr_den b)) (s64 (fr_num b * fr_den a))) (\<lambda>n.
        reduce_sum n (u64 (fr_den a * fr_den b))))"

definition substractionAssign_word :: "'q frat \<Rightarrow> 'q frat \<Rightarrow> (int \<times> int) path" where
  "substractionAssign_word a b =
     (let common = gcd_t (fr_den a) (fr_den b) in
      pbind (div_path (fr_den b) common) (\<lambda>db.
      pbind (CHECK_WORD (s64 (fr_num a * db))) (\<lambda>n1.
      pbind (div_path (fr_den a) common) (\<lambda>da.
      pbind (CHECK_WORD (s64 (fr_num b * da))) (\<lambda>n2.
      let n = s64 (n1 - n2);
          d = u64 (fr_den a * db);
          common' = u32 (gcd_t (absVal64 n) d)
      in pbind (div_path n common') (\<lambda>qn.
         pbind (CHECK_WORD qn) (\<lambda>zn.
         pbind (div_path d common') (\<lambda>qd.
         pbind (CHECK_UWORD qd) (\<lambda>zd. Fits (zn, zd))))))))))"

definition multiplicationAssign_word :: "'q frat \<Rightarrow> 'q frat \<Rightarrow> (int \<times> int) path" where
  "multiplicationAssign_word a b =
     (let common1 = gcd_t (absVal32 (fr_num a)) (fr_den b);
          common2 = gcd_t (fr_den a) (absVal32 (fr_num b))
      in pbind (div_path (fr_num a) common1) (\<lambda>qa.
         pbind (div_path (fr_num b) common2) (\<lambda>qb.
         pbind (CHECK_WORD (s64 (qa * qb))) (\<lambda>zn.
         pbind (div_path (fr_den a) common2) (\<lambda>qc.
         pbind (div_path (fr_den b) common1) (\<lambda>qd.
         pbind (CHECK_UWORD (u64 (qc * qd))) (\<lambda>zd. Fits (zn, zd))))))))"

definition divisionAssign_word :: "'q frat \<Rightarrow> 'q frat \<Rightarrow> (int \<times> int) path" where
  "divisionAssign_word a b =
     (let common1 = gcd_t (absVal32 (fr_num a)) (absVal32 (fr_num b));
          common2 = gcd_t (fr_den a) (fr_den b)
      in if common1 = 0 \<or> common2 = 0 then Stuck Assertion_Failed
      else
        let qa = fr_num a sdiv common1; qb = fr_den b sdiv common2 in
        pbind (if fr_num b < 0 then CHECK_WORD (s64 (s64 (- qa) * qb))
               else CHECK_WORD (s64 (qa * qb))) (\<lambda>zn.
        pbind (CHECK_UWORD (u64 ((absVal32 (fr_num b) sdiv common1) * (fr_den a sdiv common2)))) (\<lambda>zd.
        Fits (zn, zd))))"

section \<open>The functions\<close>

text \<open>
  The code after the label \<open>overflow\<close>: both operands get their GMP part, the result is
  computed there and goes back to a word when it fits. The three functions return the
  destination and the two operands.
\<close>

definition mpq_path ::
  "'q gmp \<Rightarrow> ('q \<Rightarrow> 'q \<Rightarrow> 'q option) \<Rightarrow> 'q frat \<Rightarrow> 'q frat \<Rightarrow> 'q frat \<Rightarrow>
   ('q frat \<times> 'q frat \<times> 'q frat) result" where
  "mpq_path G f dst a b =
     rbind (force2 G a b) (\<lambda>(a', p, b', q).
     case f p q of None \<Rightarrow> Inl Division_By_Zero
     | Some r \<Rightarrow>
       rbind (try_fit_word G ((ensure_mpq_memory_allocated G dst)
         \<lparr>fr_mpq := Some r, fr_state := MPQ_ALLOCATED_AND_VALID\<rparr>)) (\<lambda>dst'. Inr (dst', a', b')))"

text \<open>The word result \<open>(n, d)\<close> is stored and the GMP part of the destination dropped.\<close>

definition store_word :: "'q frat \<Rightarrow> int \<times> int \<Rightarrow> 'q frat" where
  "store_word dst nd = kill_mpq (dst\<lparr>fr_num := fst nd, fr_den := snd nd\<rparr>)"

definition run_path ::
  "(int \<times> int) path \<Rightarrow> (int \<times> int \<Rightarrow> 'a result) \<Rightarrow> 'a result \<Rightarrow> 'a result" where
  "run_path p k overflow =
     (case p of Fits nd \<Rightarrow> k nd | Overflow \<Rightarrow> overflow | Stuck e \<Rightarrow> Inl e)"

definition addition ::
  "'q gmp \<Rightarrow> 'q frat \<Rightarrow> 'q frat \<Rightarrow> 'q frat \<Rightarrow> ('q frat \<times> 'q frat \<times> 'q frat) result" where
  "addition G dst a b =
     (let overflow = mpq_path G (\<lambda>p q. Some (mpq_add G p q)) dst a b in
      if wordPartValid a \<and> wordPartValid b
      then run_path (addition_word a b) (\<lambda>nd. Inr (store_word dst nd, a, b)) overflow
      else overflow)"

definition substraction ::
  "'q gmp \<Rightarrow> 'q frat \<Rightarrow> 'q frat \<Rightarrow> 'q frat \<Rightarrow> ('q frat \<times> 'q frat \<times> 'q frat) result" where
  "substraction G dst a b =
     (let overflow = mpq_path G (\<lambda>p q. Some (mpq_sub G p q)) dst a b in
      if wordPartValid a \<and> wordPartValid b
      then run_path (substraction_word a b) (\<lambda>nd. Inr (store_word dst nd, a, b)) overflow
      else overflow)"

definition multiplication ::
  "'q gmp \<Rightarrow> 'q frat \<Rightarrow> 'q frat \<Rightarrow> 'q frat \<Rightarrow> ('q frat \<times> 'q frat \<times> 'q frat) result" where
  "multiplication G dst a b =
     (let overflow = mpq_path G (\<lambda>p q. Some (mpq_mul G p q)) dst a b in
      if (wordPartValid a \<and> fr_num a = 0) \<or> (wordPartValid b \<and> fr_num b = 0)
      then Inr (kill_mpq (setWordPartValid (dst\<lparr>fr_num := 0, fr_den := 1\<rparr>)), a, b)
      else if wordPartValid a \<and> fr_num a = 1 \<and> fr_den a = 1
      then rbind (assign_copy G dst b) (\<lambda>d. Inr (d, a, b))
      else if wordPartValid b \<and> fr_num b = 1 \<and> fr_den b = 1
      then rbind (assign_copy G dst a) (\<lambda>d. Inr (d, a, b))
      else if wordPartValid a \<and> wordPartValid b
      then run_path (multiplication_word a b)
        (\<lambda>nd. Inr (kill_mpq (setWordPartValid (dst\<lparr>fr_num := fst nd, fr_den := snd nd\<rparr>)), a, b))
        overflow
      else overflow)"

definition division ::
  "'q gmp \<Rightarrow> 'q frat \<Rightarrow> 'q frat \<Rightarrow> 'q frat \<Rightarrow> ('q frat \<times> 'q frat \<times> 'q frat) result" where
  "division G dst a b =
     (let overflow = mpq_path G (mpq_div G) dst a b in
      if wordPartValid a \<and> wordPartValid b
      then run_path (division_word a b)
        (\<lambda>nd. Inr (kill_mpq (setWordPartValid (dst\<lparr>fr_num := fst nd, fr_den := snd nd\<rparr>)), a, b))
        overflow
      else overflow)"

text \<open>The assigning forms: the destination is the first operand.\<close>

definition mpq_assign_path ::
  "'q gmp \<Rightarrow> ('q \<Rightarrow> 'q \<Rightarrow> 'q option) \<Rightarrow> 'q frat \<Rightarrow> 'q frat \<Rightarrow> ('q frat \<times> 'q frat) result" where
  "mpq_assign_path G f a b =
     rbind (force2 G a b) (\<lambda>(a', p, b', q).
     case f p q of None \<Rightarrow> Inl Division_By_Zero
     | Some r \<Rightarrow>
       rbind (try_fit_word G (a'\<lparr>fr_mpq := Some r, fr_state := MPQ_ALLOCATED_AND_VALID\<rparr>))
         (\<lambda>a''. Inr (a'', b')))"

definition additionAssign :: "'q gmp \<Rightarrow> 'q frat \<Rightarrow> 'q frat \<Rightarrow> ('q frat \<times> 'q frat) result" where
  "additionAssign G a b =
     (let overflow = mpq_assign_path G (\<lambda>p q. Some (mpq_add G p q)) a b in
      if wordPartValid b then
        if fr_num b = 0 then Inr (a, b)
        else if wordPartValid a
        then run_path (additionAssign_word a b) (\<lambda>nd. Inr (store_word a nd, b)) overflow
        else overflow
      else overflow)"

definition substractionAssign :: "'q gmp \<Rightarrow> 'q frat \<Rightarrow> 'q frat \<Rightarrow> ('q frat \<times> 'q frat) result" where
  "substractionAssign G a b =
     (let overflow = mpq_assign_path G (\<lambda>p q. Some (mpq_sub G p q)) a b in
      if wordPartValid a \<and> wordPartValid b
      then run_path (substractionAssign_word a b) (\<lambda>nd. Inr (store_word a nd, b)) overflow
      else overflow)"

definition multiplicationAssign :: "'q gmp \<Rightarrow> 'q frat \<Rightarrow> 'q frat \<Rightarrow> ('q frat \<times> 'q frat) result" where
  "multiplicationAssign G a b =
     (let overflow = mpq_assign_path G (\<lambda>p q. Some (mpq_mul G p q)) a b in
      if wordPartValid a \<and> wordPartValid b
      then run_path (multiplicationAssign_word a b) (\<lambda>nd. Inr (store_word a nd, b)) overflow
      else overflow)"

definition divisionAssign :: "'q gmp \<Rightarrow> 'q frat \<Rightarrow> 'q frat \<Rightarrow> ('q frat \<times> 'q frat) result" where
  "divisionAssign G a b =
     (let overflow = mpq_assign_path G (mpq_div G) a b in
      if wordPartValid a \<and> wordPartValid b
      then run_path (divisionAssign_word a b) (\<lambda>nd. Inr (store_word a nd, b)) overflow
      else overflow)"

definition fr_inverse :: "'q gmp \<Rightarrow> 'q frat \<Rightarrow> ('q frat \<times> 'q frat) result" where
  "fr_inverse G f =
     (let overflow =
        rbind (ensure_mpq_valid G f) (\<lambda>f'. rbind (read_mpq f') (\<lambda>q.
        case mpq_inv G q of None \<Rightarrow> Inl Division_By_Zero
        | Some r \<Rightarrow> Inr ((ensure_mpq_memory_allocated G FastRational_default)
            \<lparr>fr_mpq := Some r, fr_state := MPQ_ALLOCATED_AND_VALID\<rparr>, f')))
      in if wordPartValid f then
        require (fr_num f \<noteq> 0)
          (run_path
            (if fr_num f > 0
             then pbind (CHECK_WORD (fr_den f)) (\<lambda>zn. pbind (CHECK_UWORD (fr_num f)) (\<lambda>zd. Fits (zn, zd)))
             else pbind (CHECK_WORD (s64 (- fr_den f))) (\<lambda>zn.
               pbind (CHECK_UWORD (s64 (- fr_num f))) (\<lambda>zd. Fits (zn, zd))))
            (\<lambda>nd. Inr (FastRational_default\<lparr>fr_num := fst nd, fr_den := snd nd\<rparr>, f))
            overflow)
      else overflow)"

section \<open>The operators\<close>

definition checked_op ::
  "'q gmp \<Rightarrow> ('q frat \<Rightarrow> 'q frat \<Rightarrow> 'q frat \<Rightarrow> ('q frat \<times> 'q frat \<times> 'q frat) result) \<Rightarrow>
   'q frat \<Rightarrow> 'q frat \<Rightarrow> ('q frat \<times> 'q frat \<times> 'q frat) result" where
  "checked_op G f a b =
     require (isWellFormed G a) (require (isWellFormed G b)
       (rbind (f FastRational_default a b) (\<lambda>(d, a', b').
        require (isWellFormed G d) (Inr (d, a', b')))))"

definition op_plus where "op_plus G = checked_op G (addition G)"
definition op_minus where "op_minus G = checked_op G (substraction G)"
definition op_times where "op_times G = checked_op G (multiplication G)"
definition op_divide where "op_divide G = checked_op G (division G)"

definition checked_assign ::
  "'q gmp \<Rightarrow> ('q frat \<Rightarrow> 'q frat \<Rightarrow> ('q frat \<times> 'q frat) result) \<Rightarrow>
   'q frat \<Rightarrow> 'q frat \<Rightarrow> ('q frat \<times> 'q frat) result" where
  "checked_assign G f a b =
     require (isWellFormed G a) (require (isWellFormed G b)
       (rbind (f a b) (\<lambda>(a', b'). require (isWellFormed G a') (Inr (a', b')))))"

definition op_plus_assign where "op_plus_assign G = checked_assign G (additionAssign G)"
definition op_minus_assign where "op_minus_assign G = checked_assign G (substractionAssign G)"
definition op_times_assign where "op_times_assign G = checked_assign G (multiplicationAssign G)"
definition op_divide_assign where "op_divide_assign G = checked_assign G (divisionAssign G)"

section \<open>Rounding and remainder\<close>

definition fr_ceil :: "'q gmp \<Rightarrow> 'q frat \<Rightarrow> 'q frat result" where
  "fr_ceil G f =
     rbind (isInteger G f) (\<lambda>i.
     if i then FastRational_copy G f
     else if wordPartValid f then
       (if fr_den f = 0 then Inl Division_By_Zero
        else
          let ret = s32 ((if fr_num f > 0 then fr_num f else u32 (s32 (- fr_num f))) div fr_den f);
              ret' = (if fr_num f < 0 then s32 (- ret) else s32 (ret + 1))
          in Inr (FastRational_word ret'))
     else rbind (read_mpq f) (\<lambda>q.
       case mpz_cdiv_q G (mpq_numref G q) (mpq_denref G q) of
         None \<Rightarrow> Inl Division_By_Zero
       | Some z \<Rightarrow> Inr (FastRational_mpz G z)))"

definition fr_floor :: "'q gmp \<Rightarrow> 'q frat \<Rightarrow> 'q frat result" where
  "fr_floor G f =
     rbind (isInteger G f) (\<lambda>i.
     if i then FastRational_copy G f
     else rbind (fr_ceil G f) (\<lambda>c.
          rbind (op_minus G c (FastRational_word 1)) (\<lambda>(r, _, _). Inr r)))"

text \<open>
  Division and remainder of two \<open>word\<close>s: both trap on a zero divisor and on the one
  quotient that does not fit.
\<close>

definition trap32 :: "int \<Rightarrow> int \<Rightarrow> 'a \<Rightarrow> 'a result" where
  "trap32 a b r =
     (if b = 0 then Inl Division_By_Zero
      else if a = - 2147483648 \<and> b = - 1 then Inl Signed_Overflow else Inr r)"

definition sdiv32 :: "int \<Rightarrow> int \<Rightarrow> int result" where
  "sdiv32 a b = trap32 a b (a sdiv b)"

definition smod32 :: "int \<Rightarrow> int \<Rightarrow> int result" where
  "smod32 a b = trap32 a b (a smod b)"

text \<open>\<open>operator%\<close> returns the remainder and the two operands.\<close>

definition op_mod :: "'q gmp \<Rightarrow> 'q frat \<Rightarrow> 'q frat \<Rightarrow> ('q frat \<times> 'q frat \<times> 'q frat) result" where
  "op_mod G a d =
     rbind (isInteger G a) (\<lambda>ia. rbind (isInteger G d) (\<lambda>id.
     require (ia \<and> id)
       (if \<not> mpqPartValid a \<and> \<not> mpqPartValid d then
          rbind (smod32 (fr_num a) (fr_num d)) (\<lambda>m.
          let w = absVal32 m
          in Inr (FastRational_word (s32 (if fr_num d > 0 then w else - w)), a, d))
        else
          rbind (op_divide G a d) (\<lambda>(r, a1, d1).
          rbind (fr_floor G r) (\<lambda>r1.
          rbind (op_times G r1 d1) (\<lambda>(t, _, d2).
          rbind (op_minus G a1 t) (\<lambda>(r2, a2, _). Inr (r2, a2, d2))))))))"

section \<open>Integer functions of FastRational.C\<close>

text \<open>
  \<open>gcd\<close> calls \<open>try_fit_word\<close> on both operands after filling in their GMP parts,
  \<open>lcm\<close> only on an operand whose word part is not valid.
\<close>

text \<open>The instance of the template \<open>gcd\<close> on \<open>word\<close>s, whose remainder may trap.\<close>

function gcd_loop32 :: "int \<Rightarrow> int \<Rightarrow> int result" where
  "gcd_loop32 a b =
     (if b = 0 then Inl Division_By_Zero
      else if a = - 2147483648 \<and> b = - 1 then Inl Signed_Overflow
      else if a smod b = 0 then Inr b else gcd_loop32 b (a smod b))"
  by pat_completeness auto
termination
  by (relation "measure (\<lambda>(a, b). nat \<bar>b\<bar>)")
    (auto simp: abs_smod_less)

declare gcd_loop32.simps [simp del]

definition gcd_t32 :: "int \<Rightarrow> int \<Rightarrow> int result" where
  "gcd_t32 a b =
     (if a = 0 then Inr b else if b = 0 then Inr a
      else if b > a then gcd_loop32 b a else gcd_loop32 a b)"

definition fr_gcd :: "'q gmp \<Rightarrow> 'q frat \<Rightarrow> 'q frat \<Rightarrow> ('q frat \<times> 'q frat \<times> 'q frat) result" where
  "fr_gcd G a b =
     rbind (isInteger G a) (\<lambda>ia. rbind (isInteger G b) (\<lambda>ib.
     require (ia \<and> ib)
       (if wordPartValid a \<and> wordPartValid b
        then rbind (gcd_t32 (fr_num a) (fr_num b)) (\<lambda>g. Inr (FastRational_word g, a, b))
        else rbind (force2 G a b) (\<lambda>(a', p, b', q).
          let z = mpz_gcd G (mpq_numref G p) (mpq_numref G q) in
          rbind (try_fit_word G a') (\<lambda>a''.
          rbind (try_fit_word G b') (\<lambda>b''. Inr (FastRational_mpz G z, a'', b'')))))))"

definition lcm_word :: "'q gmp \<Rightarrow> int \<Rightarrow> int \<Rightarrow> 'q frat result" where
  "lcm_word G a b =
     (if a = 0 then Inr (FastRational_word 0)
      else if b = 0 then Inr (FastRational_word 0)
      else if b > a
      then rbind (gcd_t32 a b) (\<lambda>g. rbind (sdiv32 b g) (\<lambda>q.
        rbind (op_times G (FastRational_word q) (FastRational_word a)) (\<lambda>(r, _, _). Inr r)))
      else rbind (gcd_t32 a b) (\<lambda>g. rbind (sdiv32 a g) (\<lambda>q.
        rbind (op_times G (FastRational_word q) (FastRational_word b)) (\<lambda>(r, _, _). Inr r))))"

definition fr_lcm :: "'q gmp \<Rightarrow> 'q frat \<Rightarrow> 'q frat \<Rightarrow> ('q frat \<times> 'q frat \<times> 'q frat) result" where
  "fr_lcm G a b =
     rbind (isInteger G a) (\<lambda>ia. rbind (isInteger G b) (\<lambda>ib.
     require (ia \<and> ib)
       (if wordPartValid a \<and> wordPartValid b
        then rbind (lcm_word G (fr_num a) (fr_num b)) (\<lambda>r. Inr (r, a, b))
        else rbind (force2 G a b) (\<lambda>(a', p, b', q).
          let z = mpz_lcm G (mpq_numref G p) (mpq_numref G q) in
          rbind (if \<not> wordPartValid a' then try_fit_word G a' else Inr a') (\<lambda>a''.
          rbind (if \<not> wordPartValid b' then try_fit_word G b' else Inr b') (\<lambda>b''.
          Inr (FastRational_mpz G z, a'', b'')))))))"

text \<open>
  \<open>fastrat_fdiv_q\<close>: the word path of both overloads, then the overload on rvalues and
  the overload on lvalues, which puts its operands back to words.
\<close>

definition fdiv_q_word :: "int \<Rightarrow> int \<Rightarrow> int path" where
  "fdiv_q_word num den =
     (if num = - 2147483648 then Overflow
      else pbind (div_path num den) (\<lambda>quo.
        Fits (if num smod den \<noteq> 0 \<and> ((num < 0 \<and> den \<ge> 0) \<or> (den < 0 \<and> num \<ge> 0))
              then s32 (s32 quo - 1) else s32 quo)))"

definition fastrat_fdiv_q_rvalue :: "'q gmp \<Rightarrow> 'q frat \<Rightarrow> 'q frat \<Rightarrow> 'q frat result" where
  "fastrat_fdiv_q_rvalue G n d =
     rbind (isInteger G n) (\<lambda>i. rbind (isInteger G d) (\<lambda>j. require (i \<and> j)
       (let overflow =
          rbind (force2 G n d) (\<lambda>(n', p, d', q).
          case mpz_fdiv_q G (mpq_numref G p) (mpq_numref G q) of
            None \<Rightarrow> Inl Division_By_Zero | Some z \<Rightarrow> Inr (FastRational_mpz G z))
        in if wordPartValid n \<and> wordPartValid d
           then (case fdiv_q_word (fr_num n) (fr_num d) of
               Fits quo \<Rightarrow> Inr (FastRational_word quo) | Overflow \<Rightarrow> overflow | Stuck e \<Rightarrow> Inl e)
           else overflow)))"

definition fastrat_fdiv_q :: "'q gmp \<Rightarrow> 'q frat \<Rightarrow> 'q frat \<Rightarrow> ('q frat \<times> 'q frat \<times> 'q frat) result" where
  "fastrat_fdiv_q G n d =
     rbind (isInteger G n) (\<lambda>i. rbind (isInteger G d) (\<lambda>j. require (i \<and> j)
       (let overflow =
          rbind (force2 G n d) (\<lambda>(n', p, d', q).
          case mpz_fdiv_q G (mpq_numref G p) (mpq_numref G q) of
            None \<Rightarrow> Inl Division_By_Zero
          | Some z \<Rightarrow>
            rbind (try_fit_word G n') (\<lambda>n''. rbind (try_fit_word G d') (\<lambda>d''.
            Inr (FastRational_mpz G z, n'', d''))))
        in if wordPartValid n \<and> wordPartValid d
           then (case fdiv_q_word (fr_num n) (fr_num d) of
               Fits quo \<Rightarrow> Inr (FastRational_word quo, n, d) | Overflow \<Rightarrow> overflow | Stuck e \<Rightarrow> Inl e)
           else overflow)))"

definition fastrat_round_to_int :: "'q gmp \<Rightarrow> 'q frat \<Rightarrow> 'q frat result" where
  "fastrat_round_to_int G n =
     rbind (op_plus G n (FastRational_word_word 1 2)) (\<lambda>(res, _, _).
     rbind (get_num G res) (\<lambda>rn. rbind (get_den G res) (\<lambda>rd. fastrat_fdiv_q_rvalue G rn rd)))"

definition divexact :: "'q gmp \<Rightarrow> 'q frat \<Rightarrow> 'q frat \<Rightarrow> ('q frat \<times> 'q frat \<times> 'q frat) result" where
  "divexact G n d =
     rbind (op_neq G d (FastRational_word 0)) (\<lambda>(nz, d, _). require nz
     (rbind (isInteger G n) (\<lambda>i. rbind (isInteger G d) (\<lambda>j. require (i \<and> j)
       (if \<not> mpqPartValid n \<and> \<not> mpqPartValid d then
          (if fr_num d \<noteq> 0
           then rbind (sdiv32 (fr_num n) (fr_num d)) (\<lambda>quo. Inr (FastRational_word quo, n, d))
           else Inl Assertion_Failed)
        else rbind (force2 G n d) (\<lambda>(n', p, d', q).
          case mpz_divexact G (mpq_numref G p) (mpq_numref G q) of
            None \<Rightarrow> Inl Division_By_Zero
          | Some z \<Rightarrow>
            rbind (try_fit_word G n') (\<lambda>n''. rbind (try_fit_word G d') (\<lambda>d''.
            Inr (FastRational_mpz G z, n'', d'')))))))))"

end
