(* ===== verification/Fast_Rational_Inv.thy ===== *)
theory Fast_Rational_Inv
  imports Fast_Rational_Arith
begin

text \<open>
  The invariant of a \<open>FastRational\<close> and the value it denotes, and the lemmas on the
  operations of \<^theory_text>\<open>Fast_Rational\<close>: the template \<open>gcd\<close>, filling in and
  dropping the GMP part, going back to a word.
\<close>

named_theorems frat_simps "state changes and projections of a FastRational"

section \<open>Invariant and value\<close>

definition word_ok :: "int \<Rightarrow> int \<Rightarrow> bool" where
  "word_ok n d \<longleftrightarrow> in_s32 n \<and> in_u32 d \<and> 0 < d \<and> coprime n d"

text \<open>
  One part is valid; a valid GMP part is in allocated memory; a valid word part is a
  normalised fraction in range, a valid GMP part is canonical; if both are valid, they are
  the same (the invariant stated at \<open>enum class State\<close>).
\<close>

definition fr_inv :: "'q gmp \<Rightarrow> 'q frat \<Rightarrow> bool" where
  "fr_inv G f \<longleftrightarrow>
     (wordPartValid f \<or> mpqPartValid f) \<and>
     (mpqPartValid f \<longrightarrow> mpqMemoryAllocated f) \<and>
     (mpqMemoryAllocated f \<longleftrightarrow> fr_mpq f \<noteq> None) \<and>
     (wordPartValid f \<longrightarrow> word_ok (fr_num f) (fr_den f)) \<and>
     (mpqPartValid f \<longrightarrow> canonical G (the (fr_mpq f))) \<and>
     (wordPartValid f \<and> mpqPartValid f \<longrightarrow>
        mpq_numref G (the (fr_mpq f)) = fr_num f \<and> mpq_denref G (the (fr_mpq f)) = fr_den f)"

definition fr_val :: "'q gmp \<Rightarrow> 'q frat \<Rightarrow> rat" where
  "fr_val G f =
     (if wordPartValid f then of_int (fr_num f) / of_int (fr_den f) else qval G (the (fr_mpq f)))"

text \<open>\<open>f'\<close> is \<open>f\<close> with its GMP part possibly filled in: the same number, the same word.\<close>

definition cached :: "'q gmp \<Rightarrow> 'q frat \<Rightarrow> 'q frat \<Rightarrow> bool" where
  "cached G f f' \<longleftrightarrow> fr_inv G f' \<and> fr_val G f' = fr_val G f \<and>
     (wordPartValid f' \<longleftrightarrow> wordPartValid f) \<and> fr_num f' = fr_num f \<and> fr_den f' = fr_den f"

lemma cached_refl: "fr_inv G f \<Longrightarrow> cached G f f"
  by (simp add: cached_def)

lemma cached_trans: "cached G f g \<Longrightarrow> cached G g h \<Longrightarrow> cached G f h"
  by (simp add: cached_def)

lemma word_okD:
  assumes "word_ok n d"
  shows "in_s32 n" "in_u32 d" "0 < d" "coprime n d"
  using assms by (simp_all add: word_ok_def)

lemma fr_inv_word_ok: "fr_inv G f \<Longrightarrow> wordPartValid f \<Longrightarrow> word_ok (fr_num f) (fr_den f)"
  by (simp add: fr_inv_def)

lemma fr_val_word:
  "wordPartValid f \<Longrightarrow> fr_val G f = of_int (fr_num f) / of_int (fr_den f)"
  by (simp add: fr_val_def)

section \<open>State bits under the operations\<close>

lemma valid_update [frat_simps]:
  "wordPartValid (f\<lparr>fr_num := n\<rparr>) = wordPartValid f"
  "wordPartValid (f\<lparr>fr_den := d\<rparr>) = wordPartValid f"
  "wordPartValid (f\<lparr>fr_mpq := q\<rparr>) = wordPartValid f"
  "mpqPartValid (f\<lparr>fr_num := n\<rparr>) = mpqPartValid f"
  "mpqPartValid (f\<lparr>fr_den := d\<rparr>) = mpqPartValid f"
  "mpqPartValid (f\<lparr>fr_mpq := q\<rparr>) = mpqPartValid f"
  "mpqMemoryAllocated (f\<lparr>fr_num := n\<rparr>) = mpqMemoryAllocated f"
  "mpqMemoryAllocated (f\<lparr>fr_den := d\<rparr>) = mpqMemoryAllocated f"
  "mpqMemoryAllocated (f\<lparr>fr_mpq := q\<rparr>) = mpqMemoryAllocated f"
  by (simp_all add: valid_bits)

lemma valid_state_update [frat_simps]:
  "wordPartValid (f\<lparr>fr_state := s\<rparr>) \<longleftrightarrow> bit s 0"
  "mpqMemoryAllocated (f\<lparr>fr_state := s\<rparr>) \<longleftrightarrow> bit s 1"
  "mpqPartValid (f\<lparr>fr_state := s\<rparr>) \<longleftrightarrow> bit s 2"
  by (simp_all add: valid_bits)

lemma valid_make [frat_simps]:
  "wordPartValid \<lparr>fr_state = s, fr_num = n, fr_den = d, fr_mpq = q\<rparr> \<longleftrightarrow> bit s 0"
  "mpqMemoryAllocated \<lparr>fr_state = s, fr_num = n, fr_den = d, fr_mpq = q\<rparr> \<longleftrightarrow> bit s 1"
  "mpqPartValid \<lparr>fr_state = s, fr_num = n, fr_den = d, fr_mpq = q\<rparr> \<longleftrightarrow> bit s 2"
  by (simp_all add: valid_bits)

lemma valid_setters [frat_simps]:
  "wordPartValid (setWordPartValid f)"
  "mpqMemoryAllocated (setWordPartValid f) = mpqMemoryAllocated f"
  "mpqPartValid (setWordPartValid f) = mpqPartValid f"
  "wordPartValid (setMpqMemoryAllocated f) = wordPartValid f"
  "mpqMemoryAllocated (setMpqMemoryAllocated f)"
  "mpqPartValid (setMpqMemoryAllocated f) = mpqPartValid f"
  "wordPartValid (setMpqAllocatedAndValid f) = wordPartValid f"
  "mpqMemoryAllocated (setMpqAllocatedAndValid f)"
  "mpqPartValid (setMpqAllocatedAndValid f)"
  by (simp_all add: valid_bits setWordPartValid_def setMpqMemoryAllocated_def
      setMpqAllocatedAndValid_def bit_or_iff)

lemma fields_setters [frat_simps]:
  "fr_num (setWordPartValid f) = fr_num f" "fr_den (setWordPartValid f) = fr_den f"
  "fr_mpq (setWordPartValid f) = fr_mpq f"
  "fr_num (setMpqMemoryAllocated f) = fr_num f" "fr_den (setMpqMemoryAllocated f) = fr_den f"
  "fr_mpq (setMpqMemoryAllocated f) = fr_mpq f"
  "fr_num (setMpqAllocatedAndValid f) = fr_num f" "fr_den (setMpqAllocatedAndValid f) = fr_den f"
  "fr_mpq (setMpqAllocatedAndValid f) = fr_mpq f"
  by (simp_all add: setWordPartValid_def setMpqMemoryAllocated_def setMpqAllocatedAndValid_def)

lemma kill_mpq_fields [frat_simps]:
  "fr_num (kill_mpq f) = fr_num f" "fr_den (kill_mpq f) = fr_den f"
  by (simp_all add: kill_mpq_def)

lemma fr_inv_kill_mpq:
  assumes "word_ok (fr_num f) (fr_den f)"
    and "mpqMemoryAllocated f \<or> (wordPartValid f \<and> \<not> mpqPartValid f \<and> fr_mpq f = None)"
  shows "fr_inv G (kill_mpq f)" "wordPartValid (kill_mpq f)" "\<not> mpqPartValid (kill_mpq f)"
    "fr_val G (kill_mpq f) = of_int (fr_num f) / of_int (fr_den f)"
  using assms by (auto simp: kill_mpq_def fr_inv_def fr_val_def frat_simps)

section \<open>Absolute value and gcd\<close>

lemma absVal32_eq: "in_s32 x \<Longrightarrow> absVal32 x = \<bar>x\<bar>"
proof (cases "x = - 2147483648")
  case False
  assume "in_s32 x"
  with False have "in_s32 (- x)" "in_u32 \<bar>x\<bar>"
    by (auto simp: in_s32_def in_u32_def)
  then show ?thesis
    by (auto simp: absVal32_def width_simps abs_if split: if_splits)
qed (simp add: absVal32_def s32_def u32_def)

lemma absVal64_eq: "in_s64 x \<Longrightarrow> absVal64 x = \<bar>x\<bar>"
proof (cases "x = - 9223372036854775808")
  case False
  assume "in_s64 x"
  with False have "in_s64 (- x)" "in_u64 \<bar>x\<bar>"
    by (auto simp: in_s64_def in_u64_def)
  then show ?thesis
    by (auto simp: absVal64_def width_simps abs_if split: if_splits)
qed (simp add: absVal64_def s64_def u64_def)

lemma gcd_loop_eq: "0 \<le> a \<Longrightarrow> 0 < b \<Longrightarrow> gcd_loop a b = gcd a b"
proof (induction a b rule: gcd_loop.induct)
  case (1 a b)
  then have r: "a smod b = a mod b"
    by (simp add: smod_nonneg)
  show ?case
  proof (cases "a mod b = 0")
    case True
    with 1 r show ?thesis
      by (subst gcd_loop.simps) (simp add: gcd_red_int [of a b])
  next
    case False
    with 1 r have "gcd_loop b (a mod b) = gcd b (a mod b)"
      by (auto simp: order_less_le)
    with 1 r False show ?thesis
      by (subst gcd_loop.simps) (simp add: gcd_red_int [of a b])
  qed
qed

lemma gcd_t_eq: "0 \<le> a \<Longrightarrow> 0 \<le> b \<Longrightarrow> gcd_t a b = gcd a b"
  by (auto simp: gcd_t_def gcd_loop_eq gcd.commute)

lemma gcd_t_pos: "0 \<le> a \<Longrightarrow> 0 < b \<Longrightarrow> 0 < gcd_t a b"
  by (simp add: gcd_t_eq)

section \<open>Filling in the GMP part and going back to a word\<close>

context gmp_iface
begin

lemma isWellFormed_inv: "fr_inv G f \<Longrightarrow> isWellFormed G f"
  by (auto simp: fr_inv_def isWellFormed_def word_ok_def absVal32_eq gcd_t_eq canonical_def
      split: option.splits)

lemma ensure_mpq_valid_ok:
  assumes inv: "fr_inv G f"
  obtains f' q where "ensure_mpq_valid G f = Inr f'" "read_mpq f' = Inr q" "cached G f f'"
    "canonical G q" "qval G q = fr_val G f" "mpqPartValid f'" "mpqMemoryAllocated f'"
proof (cases "mpqPartValid f")
  case True
  with inv obtain q where q: "fr_mpq f = Some q"
    by (auto simp: fr_inv_def)
  show ?thesis
    by (rule that [of f q])
      (use True inv q in \<open>auto simp: ensure_mpq_valid_def read_mpq_def cached_refl fr_inv_def
          fr_val_def qval_def split: if_splits\<close>)
next
  case False
  with inv have w: "wordPartValid f" and ok: "word_ok (fr_num f) (fr_den f)"
    by (auto simp: fr_inv_def)
  define q0 where "q0 = (case fr_mpq f of None \<Rightarrow> mpq_init G | Some q \<Rightarrow> q)"
  define q where "q = mpq_set_den G (mpq_set_num G q0 (fr_num f)) (fr_den f)"
  define f' where "f' = setMpqAllocatedAndValid (f\<lparr>fr_mpq := Some q\<rparr>)"
  have e: "ensure_mpq_valid G f = Inr f'"
    using False w inv
    by (auto simp: ensure_mpq_valid_def read_mpq_def f'_def q_def q0_def fr_inv_def Let_def
        split: option.splits)
  have q: "canonical G q" "qval G q = of_int (fr_num f) / of_int (fr_den f)"
    using canonical_of_word ok by (simp_all add: q_def word_ok_def)
  have "fr_inv G f'"
    using w ok q
    by (auto simp: fr_inv_def f'_def frat_simps) (simp_all add: q_def numref_set_num denref_set_num
        numref_set_den denref_set_den)
  then have "cached G f f'"
    using w q by (simp add: cached_def fr_val_def f'_def frat_simps)
  with e q w show ?thesis
    by (intro that [of f' q]) (auto simp: f'_def read_mpq_def fr_val_def frat_simps)
qed

lemma force2_ok:
  assumes "fr_inv G a" and "fr_inv G b"
  obtains a' p b' q where "force2 G a b = Inr (a', p, b', q)" "cached G a a'" "cached G b b'"
    "canonical G p" "canonical G q" "qval G p = fr_val G a" "qval G q = fr_val G b"
    "mpqPartValid a'" "mpqMemoryAllocated a'" "mpqPartValid b'" "mpqMemoryAllocated b'"
proof -
  obtain a' p where "ensure_mpq_valid G a = Inr a'" "read_mpq a' = Inr p" "cached G a a'"
      "canonical G p" "qval G p = fr_val G a" "mpqPartValid a'" "mpqMemoryAllocated a'"
    using ensure_mpq_valid_ok [OF assms(1)] .
  moreover obtain b' q where "ensure_mpq_valid G b = Inr b'" "read_mpq b' = Inr q" "cached G b b'"
      "canonical G q" "qval G q = fr_val G b" "mpqPartValid b'" "mpqMemoryAllocated b'"
    using ensure_mpq_valid_ok [OF assms(2)] .
  ultimately show ?thesis
    by (intro that [of a' p b' q]) (auto simp: force2_def)
qed

lemma try_fit_word_ok:
  assumes "mpqPartValid f" "mpqMemoryAllocated f" "\<not> wordPartValid f"
    and "fr_mpq f = Some q" "canonical G q"
  obtains f' where "try_fit_word G f = Inr f'" "fr_inv G f'" "fr_val G f' = qval G q"
    "wordPartValid f' \<longleftrightarrow> in_s32 (mpq_numref G q) \<and> in_u32 (mpq_denref G q)"
    "mpqPartValid f'" "mpqMemoryAllocated f'"
proof (cases "in_s32 (mpq_numref G q) \<and> in_u32 (mpq_denref G q)")
  case True
  with assms show ?thesis
    by (intro that [of "setWordPartValid (f\<lparr>fr_num := mpq_numref G q, fr_den := mpq_denref G q\<rparr>)"])
      (auto simp: try_fit_word_def read_mpq_def fits_sint fits_uint get_si get_ui fr_inv_def
        fr_val_def frat_simps word_ok_def canonical_def qval_def)
next
  case False
  with assms show ?thesis
    by (intro that [of f])
      (auto simp: try_fit_word_def read_mpq_def fits_sint fits_uint fr_inv_def fr_val_def)
qed

lemma fr_inv_mpz: "fr_inv G (FastRational_mpz G z)"
  by (auto simp: FastRational_mpz_def fr_inv_def frat_simps word_ok_def in_u32_def fits_sint get_si
      canonical_def numref_set_num denref_set_num numref_set_den denref_set_den)

lemma fr_val_mpz: "fr_val G (FastRational_mpz G z) = of_int z"
  by (auto simp: FastRational_mpz_def fr_val_def frat_simps fits_sint get_si
      qval_def numref_set_num denref_set_num numref_set_den denref_set_den)

lemma fr_inv_uint32: "0 \<le> x \<Longrightarrow> fr_inv G (FastRational_uint32 G x)"
  by (auto simp: FastRational_uint32_def fr_inv_def frat_simps word_ok_def in_u32_def in_s32_def
      canonical_def numref_set_num denref_set_num numref_set_den denref_set_den)

lemma fr_val_uint32: "fr_val G (FastRational_uint32 G x) = of_int x"
  by (auto simp: FastRational_uint32_def fr_val_def frat_simps
      qval_def numref_set_num denref_set_num numref_set_den denref_set_den)

lemma fr_inv_word: "in_s32 x \<Longrightarrow> fr_inv G (FastRational_word x)"
  by (auto simp: FastRational_word_def fr_inv_def frat_simps word_ok_def in_u32_def)

lemma fr_val_word_ctor: "fr_val G (FastRational_word x) = of_int x"
  by (simp add: FastRational_word_def fr_val_def frat_simps)

lemma fr_inv_default: "fr_inv G FastRational_default"
  by (auto simp: FastRational_default_def fr_inv_def frat_simps word_ok_def in_u32_def in_s32_def)

lemma copy_ok:
  assumes "fr_inv G x"
  obtains y where "FastRational_copy G x = Inr y" "fr_inv G y" "fr_val G y = fr_val G x"
proof (cases "wordPartValid x")
  case True
  with assms show ?thesis
    by (intro that [of "\<lparr>fr_state = WORD_VALID, fr_num = fr_num x, fr_den = fr_den x, fr_mpq = None\<rparr>"])
      (auto simp: FastRational_copy_def fr_inv_def fr_val_def frat_simps)
next
  case False
  with assms obtain q where q: "fr_mpq x = Some q" "canonical G q" "mpqPartValid x"
    by (auto simp: fr_inv_def)
  with False show ?thesis
    by (intro that [of "\<lparr>fr_state = MPQ_ALLOCATED_AND_VALID, fr_num = 0, fr_den = 0, fr_mpq = Some q\<rparr>"])
      (auto simp: FastRational_copy_def fr_inv_def fr_val_def frat_simps read_mpq_def)
qed

lemma assign_copy_ok:
  assumes "fr_inv G this" and "fr_inv G x"
  obtains y where "assign_copy G this x = Inr y" "fr_inv G y" "fr_val G y = fr_val G x"
proof (cases "wordPartValid x")
  case True
  define y where "y = (setWordPartValid (this\<lparr>fr_num := fr_num x, fr_den := fr_den x\<rparr>))
    \<lparr>fr_state := if mpqMemoryAllocated this then WORD_PLUS_MPQ_INITIALIZED else WORD_VALID\<rparr>"
  have "assign_copy G this x = Inr y"
    using True by (simp add: assign_copy_def setMpqPartInvalid_def y_def frat_simps)
  moreover have y: "wordPartValid y" "\<not> mpqPartValid y" "fr_num y = fr_num x" "fr_den y = fr_den x"
      "mpqMemoryAllocated y \<longleftrightarrow> mpqMemoryAllocated this" "fr_mpq y = fr_mpq this"
    by (simp_all add: y_def frat_simps)
  moreover have "fr_inv G y"
    using assms True y by (auto simp: fr_inv_def)
  ultimately show ?thesis
    using True that by (simp add: fr_val_def)
next
  case False
  with assms obtain q where q: "fr_mpq x = Some q" "canonical G q" "mpqPartValid x"
    by (auto simp: fr_inv_def)
  with False show ?thesis
    by (intro that [of "this\<lparr>fr_mpq := Some q, fr_state := MPQ_ALLOCATED_AND_VALID\<rparr>"])
      (auto simp: assign_copy_def fr_inv_def fr_val_def frat_simps read_mpq_def)
qed

end

end
