(* ===== verification/Fast_Rational_Correct.thy ===== *)
theory Fast_Rational_Correct
  imports Fast_Rational_Inv
begin

text \<open>
  The arithmetic of \<open>FastRational\<close> is exact: first the word paths, as facts about
  numerators and denominators, then the functions with their GMP fallback, inside the
  locale of the GMP laws.
\<close>

section \<open>Word paths\<close>

text \<open>\<open>path_all P p\<close>: the path does not get stuck and a result satisfies \<open>P\<close>.\<close>

primrec path_all :: "('a \<Rightarrow> bool) \<Rightarrow> 'a path \<Rightarrow> bool" where
  "path_all P (Fits x) = P x"
| "path_all P Overflow = True"
| "path_all P (Stuck e) = False"

lemma path_all_CHECK_WORD:
  "(in_s32 v \<Longrightarrow> - 1073741824 \<le> v \<Longrightarrow> v \<le> 1073741823 \<Longrightarrow> path_all P (f v)) \<Longrightarrow>
   path_all P (pbind (CHECK_WORD v) f)"
  by (auto simp: CHECK_WORD_def in_s32_def)

lemma path_all_CHECK_UWORD:
  "0 < v \<Longrightarrow> in_u64 v \<Longrightarrow> (in_u32 v \<Longrightarrow> path_all P (f v)) \<Longrightarrow>
   path_all P (pbind (CHECK_UWORD v) f)"
  by (auto simp: CHECK_UWORD_def u64_id in_u32_def)

lemma path_all_div_path:
  "b \<noteq> 0 \<Longrightarrow> path_all P (f (a sdiv b)) \<Longrightarrow> path_all P (pbind (div_path a b) f)"
  by (simp add: div_path_def)

lemmas path_rules = path_all_CHECK_WORD path_all_CHECK_UWORD path_all_div_path

text \<open>The pair is a normalised fraction of word size with the value \<open>r\<close>.\<close>

definition frac_is :: "rat \<Rightarrow> int \<times> int \<Rightarrow> bool" where
  "frac_is r nd \<longleftrightarrow> word_ok (fst nd) (snd nd) \<and> of_int (fst nd) / of_int (snd nd) = r"

lemma frac_isI:
  "in_s32 n \<Longrightarrow> in_u32 d \<Longrightarrow> 0 < d \<Longrightarrow> coprime n d \<Longrightarrow> of_int n / of_int d = r \<Longrightarrow>
   frac_is r (n, d)"
  by (simp add: frac_is_def word_ok_def)

lemma s64_big: "9223372036854775808 \<le> g \<Longrightarrow> g \<le> 18446744073709551615 \<Longrightarrow> s64 g \<le> 1"
proof -
  assume g: "9223372036854775808 \<le> g" "g \<le> 18446744073709551615"
  have "s64 g = s64 (g - 18446744073709551616)"
    by (simp add: s64_def signed_take_bit_eq_iff_take_bit_eq take_bit_eq_mod)
  also have "\<dots> = g - 18446744073709551616"
    using g by (intro s64_id) (simp add: in_s64_def)
  finally show ?thesis
    using g by simp
qed

lemma s32_big: "2147483648 \<le> g \<Longrightarrow> g \<le> 4294967295 \<Longrightarrow> s32 g \<le> 1"
proof -
  assume g: "2147483648 \<le> g" "g \<le> 4294967295"
  have "s32 g = s32 (g - 4294967296)"
    by (simp add: s32_def signed_take_bit_eq_iff_take_bit_eq take_bit_eq_mod)
  also have "\<dots> = g - 4294967296"
    using g by (intro s32_id) (simp add: in_s32_def)
  finally show ?thesis
    using g by simp
qed

lemma reduced_value:
  assumes "(0::int) < d" and "g dvd n" and "g dvd d"
  shows "(of_int (n div g) / of_int (d div g) :: rat) = of_int n / of_int d"
proof -
  have "g \<noteq> 0"
    using assms by auto
  with assms show ?thesis
    by (auto elim!: dvdE simp: nonzero_mult_div_cancel_left)
qed

lemma div_pos_le: "(0::int) < d \<Longrightarrow> 0 < g \<Longrightarrow> g dvd d \<Longrightarrow> 0 < d div g \<and> d div g \<le> d"
  using pos_imp_zdiv_pos_iff [of g d] zdvd_imp_le [of g d] int_div_less_self [of d g]
  by (cases "g = 1") auto

lemma reduce_sum_ok:
  assumes n: "in_s64 n" and d: "in_u64 d" "0 < d"
  shows "path_all (frac_is (of_int n / of_int d)) (reduce_sum n d)"
proof -
  define g where "g = gcd n d"
  have g: "gcd_t (absVal64 n) d = g" "0 < g" "g \<le> d" "g dvd n" "g dvd d"
    using assms by (simp_all add: g_def absVal64_eq gcd_t_eq zdvd_imp_le)
  have cop: "coprime (n div g) (d div g)"
    using d by (simp add: g_def div_gcd_coprime)
  show ?thesis
  proof (cases "g \<le> 9223372036854775807")
    case small: True
    then have s: "s64 g = g" "u64 g = g"
      using g by (simp_all add: s64_id u64_id in_s64_def in_u64_def)
    have dg: "0 < d div g" "d div g \<le> d"
      using div_pos_le [OF d(2) g(2,5)] by auto
    then have "in_u64 (d div g)"
      using d by (simp add: in_u64_def)
    then have "path_all (frac_is (of_int n / of_int d))
        (pbind (CHECK_WORD (n div g)) (\<lambda>zn. pbind (CHECK_UWORD (d div g)) (\<lambda>zd. Fits (zn, zd))))"
      using dg cop reduced_value [OF d(2) g(4,5)]
      by (intro path_rules) (auto intro!: frac_isI)
    then show ?thesis
      using g s by (cases "g = 1") (auto simp: reduce_sum_def Let_def sdiv_dvd)
  next
    case False
    then have "s64 g \<le> 1"
      using s64_big [of g] g d by (simp add: in_u64_def)
    moreover have "n = 0 \<or> \<not> (- 1073741824 \<le> n \<and> n \<le> 1073741823)"
      using False g zdvd_imp_le [of g n] zdvd_imp_le [of g "- n"] by force
    moreover have "\<not> in_u32 d"
      using False g by (simp add: in_u32_def)
    ultimately show ?thesis
      using g d by (auto simp: reduce_sum_def Let_def intro!: path_rules)
  qed
qed

lemma coprime_add_mult: "coprime (n::int) d \<Longrightarrow> coprime (n + m * d) d"
  using gcd_add_mult [of d m n] by (simp add: coprime_iff_gcd_eq_1 ac_simps)

lemma in_s64_sum_word:
  assumes "in_s32 m" and "in_s32 n" and "in_u32 d"
  shows "in_s64 (m + n * d)" "in_s64 (m - n * d)" "in_s64 (- m + n * d)"
  using assms(1) word_mult_bounds [OF assms(2,3)] by (auto simp: in_s32_def in_s64_def)

text \<open>The branches that \<open>addition\<close> and \<open>additionAssign\<close> share.\<close>

lemma sum_general_ok:
  assumes a: "word_ok (fr_num a) (fr_den a)" and b: "word_ok (fr_num b) (fr_den b)"
  shows "path_all (frac_is (of_int (fr_num a) / of_int (fr_den a) + of_int (fr_num b) / of_int (fr_den b)))
      (pbind (CHECK_SUM_OVERFLOWS_LWORD (s64 (fr_num a * fr_den b)) (s64 (fr_num b * fr_den a))) (\<lambda>n.
        reduce_sum n (u64 (fr_den a * fr_den b))))"
proof (cases "CHECK_SUM_OVERFLOWS_LWORD (fr_num a * fr_den b) (fr_num b * fr_den a)")
  note a' = word_okD [OF a] and b' = word_okD [OF b]
  case (Fits n)
  then have "in_s64 (fr_num a * fr_den b + fr_num b * fr_den a)"
    by (auto simp: CHECK_SUM_OVERFLOWS_LWORD_def in_s64_def split: if_splits)
  with Fits have n: "n = fr_num a * fr_den b + fr_num b * fr_den a" "in_s64 n"
    by (auto simp: CHECK_SUM_OVERFLOWS_LWORD_def s64_id split: if_splits)
  then have "(of_int n / of_int (fr_den a * fr_den b) :: rat) =
      of_int (fr_num a) / of_int (fr_den a) + of_int (fr_num b) / of_int (fr_den b)"
    using a' b' by (simp add: field_simps)
  then show ?thesis
    using Fits n a' b' reduce_sum_ok [of n "fr_den a * fr_den b"] by (simp add: width_simps)
qed (use word_okD [OF a] word_okD [OF b] in
    \<open>auto simp: CHECK_SUM_OVERFLOWS_LWORD_def width_simps split: if_splits\<close>)

lemma sum_integer_ok:
  assumes a: "word_ok na da" and b: "word_ok nb 1"
  shows "path_all (frac_is (of_int na / of_int da + of_int nb))
    (pbind (CHECK_WORD (s64 (na + s64 (nb * da)))) (\<lambda>n. Fits (n, da)))"
proof -
  note a' = word_okD [OF a] and b' = word_okD [OF b]
  have "s64 (na + s64 (nb * da)) = na + nb * da"
    using a' b' by (simp add: width_simps in_s64_sum_word)
  then show ?thesis
    using a' coprime_add_mult [OF a'(4), of nb]
    by (auto simp: add_divide_distrib intro!: path_rules frac_isI)
qed

lemma addition_word_ok:
  assumes a: "word_ok (fr_num a) (fr_den a)" and b: "word_ok (fr_num b) (fr_den b)"
  shows "path_all (frac_is (of_int (fr_num a) / of_int (fr_den a) + of_int (fr_num b) / of_int (fr_den b)))
    (addition_word a b)"
  using a b sum_general_ok [OF a b] sum_integer_ok [of "fr_num a" "fr_den a" "fr_num b"]
    sum_integer_ok [of "fr_num b" "fr_den b" "fr_num a"]
  by (auto simp: addition_word_def frac_is_def [of _ "(fr_num a, fr_den a)"]
      frac_is_def [of _ "(fr_num b, fr_den b)"] add.commute)

lemma additionAssign_word_ok:
  assumes a: "word_ok (fr_num a) (fr_den a)" and b: "word_ok (fr_num b) (fr_den b)"
  shows "path_all (frac_is (of_int (fr_num a) / of_int (fr_den a) + of_int (fr_num b) / of_int (fr_den b)))
    (additionAssign_word a b)"
  using a b sum_general_ok [OF a b] sum_integer_ok [of "fr_num a" "fr_den a" "fr_num b"]
  by (auto simp: additionAssign_word_def frac_is_def [of _ "(fr_num b, fr_den b)"])

text \<open>
  \<open>substraction\<close> computes the difference of the two products without the check that
  \<open>addition\<close> has, so it is exact where that difference fits in 64 bits.
\<close>

definition no_lword_overflow :: "'q frat \<Rightarrow> 'q frat \<Rightarrow> bool" where
  "no_lword_overflow a b \<longleftrightarrow> in_s64 (fr_num a * fr_den b - fr_num b * fr_den a)"

lemma coprime_diff_mult: "coprime (n::int) d \<Longrightarrow> coprime (n - m * d) d"
  using coprime_add_mult [of n d "- m"] by simp

lemma substraction_word_ok:
  assumes a: "word_ok (fr_num a) (fr_den a)" and b: "word_ok (fr_num b) (fr_den b)"
    and no: "no_lword_overflow a b"
  shows "path_all (frac_is (of_int (fr_num a) / of_int (fr_den a) - of_int (fr_num b) / of_int (fr_den b)))
    (substraction_word a b)"
proof -
  note a' = word_okD [OF a] and b' = word_okD [OF b]
  have "in_s64 (- fr_num b)"
    using b' by (auto simp: in_s32_def in_s64_def)
  then have sum: "s64 (fr_num a - s64 (fr_num b * fr_den a)) = fr_num a - fr_num b * fr_den a"
      "s64 (s64 (- fr_num b) + s64 (fr_num a * fr_den b)) = - fr_num b + fr_num a * fr_den b"
      "s64 (s64 (fr_num a * fr_den b) - s64 (fr_num b * fr_den a)) =
        fr_num a * fr_den b - fr_num b * fr_den a"
      "u64 (fr_den a * fr_den b) = fr_den a * fr_den b"
    using a' b' no in_s64_sum_word(3) [OF b'(1) a'(1) b'(2)]
    by (simp_all add: width_simps in_s64_sum_word no_lword_overflow_def)
  consider "fr_num b = 0" | "fr_num b \<noteq> 0" "fr_num a = 0"
    | "fr_num b \<noteq> 0" "fr_num a \<noteq> 0" "fr_den b = 1"
    | "fr_num b \<noteq> 0" "fr_num a \<noteq> 0" "fr_den b \<noteq> 1" "fr_den a = 1"
    | "fr_num b \<noteq> 0" "fr_num a \<noteq> 0" "fr_den b \<noteq> 1" "fr_den a \<noteq> 1"
    by blast
  then show ?thesis
  proof cases
    case 1
    then show ?thesis
      using a by (simp add: substraction_word_def frac_is_def)
  next
    case 2
    then have "in_s32 (- fr_num b)" if "fr_num b \<noteq> - 2147483648"
      using b' that by (auto simp: in_s32_def)
    then show ?thesis
      using 2 b' by (auto simp: substraction_word_def s32_id intro!: frac_isI)
  next
    case 3
    then show ?thesis
      using a' sum(1) coprime_diff_mult [OF a'(4), of "fr_num b"]
      by (auto simp: substraction_word_def diff_divide_distrib intro!: path_rules frac_isI)
  next
    case 4
    have "coprime (- fr_num b + fr_num a * fr_den b) (fr_den b)"
      using coprime_add_mult [of "- fr_num b" "fr_den b" "fr_num a"] b' by simp
    then show ?thesis
      using 4 b' sum(2)
      by (auto simp: substraction_word_def diff_divide_distrib intro!: path_rules frac_isI)
  next
    case 5
    have "(of_int (fr_num a * fr_den b - fr_num b * fr_den a) / of_int (fr_den a * fr_den b) :: rat) =
        of_int (fr_num a) / of_int (fr_den a) - of_int (fr_num b) / of_int (fr_den b)"
      using a' b' by (simp add: field_simps)
    then show ?thesis
      using 5 a' b' sum no reduce_sum_ok [of "fr_num a * fr_den b - fr_num b * fr_den a" "fr_den a * fr_den b"]
      by (simp add: substraction_word_def width_simps no_lword_overflow_def)
  qed
qed

text \<open>Cross-cancelling two normalised fractions leaves a normalised product.\<close>

lemma cross_cancel:
  fixes n1 d1 n2 d2 :: int
  assumes "coprime n1 d1" and "coprime n2 d2" and "0 < d1" and "0 < d2"
    and g: "g = gcd n1 d2" and h: "h = gcd d1 n2"
  shows "coprime ((n1 div g) * (n2 div h)) ((d1 div h) * (d2 div g))"
    and "(of_int ((n1 div g) * (n2 div h)) / of_int ((d1 div h) * (d2 div g)) :: rat) =
      (of_int n1 / of_int d1) * (of_int n2 / of_int d2)"
    and "0 < (d1 div h) * (d2 div g)"
proof -
  have nz: "0 < g" "0 < h"
    using assms by (simp_all add: g h)
  have dvd: "g dvd n1" "g dvd d2" "h dvd d1" "h dvd n2"
    by (simp_all add: g h)
  have c1: "coprime (n1 div g) (d2 div g)" and c2: "coprime (n2 div h) (d1 div h)"
    using assms div_gcd_coprime [of n1 d2] div_gcd_coprime [of d1 n2]
    by (auto simp: g h coprime_commute)
  have "(n1 div g) dvd n1" "(n2 div h) dvd n2" "(d1 div h) dvd d1" "(d2 div g) dvd d2"
    using dvd by (auto elim!: dvdE)
  then have c3: "coprime (n1 div g) (d1 div h)" and c4: "coprime (n2 div h) (d2 div g)"
    using assms(1,2) by (auto intro: coprime_divisors)
  show "coprime ((n1 div g) * (n2 div h)) ((d1 div h) * (d2 div g))"
    using c1 c2 c3 c4 by simp
  show "0 < (d1 div h) * (d2 div g)"
    using dvd nz assms(3,4) by (simp add: pos_imp_zdiv_pos_iff zdvd_imp_le)
  obtain x where x: "n1 = g * x" using dvd(1) by blast
  obtain y where y: "d2 = g * y" using dvd(2) by blast
  obtain z where z: "d1 = h * z" using dvd(3) by blast
  obtain w where w: "n2 = h * w" using dvd(4) by blast
  have "y \<noteq> 0" "z \<noteq> 0"
    using assms(3,4) y z by auto
  then show "(of_int ((n1 div g) * (n2 div h)) / of_int ((d1 div h) * (d2 div g)) :: rat) =
      (of_int n1 / of_int d1) * (of_int n2 / of_int d2)"
    using nz by (simp add: x y z w field_simps)
qed

lemma in_s32_div: "in_s32 n \<Longrightarrow> 0 < g \<Longrightarrow> g dvd n \<Longrightarrow> in_s32 (n div g)"
  by (auto simp: in_s32_def elim!: dvdE)
    (smt (verit) mult_less_cancel_right1 mult_minus_right mult_le_cancel_right1 zmult_zless_mono2)+

lemma in_u32_div: "in_u32 n \<Longrightarrow> 0 < g \<Longrightarrow> in_u32 (n div g)"
  using zdiv_mono2 [of n 1 g] by (auto simp: in_u32_def pos_imp_zdiv_nonneg_iff)

lemma in_s64_mult_words:
  assumes "in_s32 m" and "in_s32 n"
  shows "in_s64 (m * n)"
proof -
  have "\<bar>m\<bar> * \<bar>n\<bar> \<le> 2147483648 * 2147483648"
    using assms by (intro mult_mono) (auto simp: in_s32_def)
  then have "\<bar>m * n\<bar> \<le> 4611686018427387904"
    by (simp add: abs_mult)
  then show ?thesis
    unfolding in_s64_def by linarith
qed

text \<open>
  The end of the multiplications and divisions: a product of two 32-bit integers over a
  product of two denominators, already cross-cancelled.
\<close>

lemma check_product:
  assumes "in_s64 (k1 * k2)" "in_u32 k3" "in_u32 k4"
    and "0 < k3 * k4" "coprime (k1 * k2) (k3 * k4)" "of_int (k1 * k2) / of_int (k3 * k4) = r"
  shows "path_all (frac_is r) (pbind (CHECK_WORD (s64 (k1 * k2))) (\<lambda>zn.
    pbind (CHECK_UWORD (u64 (k3 * k4))) (\<lambda>zd. Fits (zn, zd))))"
  using assms
  by (auto simp: s64_id u64_id in_u64_uword_mult intro!: path_rules frac_isI)

lemma gcd_in_u32:
  assumes "0 < d" "in_u32 d" and g: "g = gcd n d"
  shows "0 < g" "in_u32 g"
proof -
  have "gcd n d \<le> d"
    using assms(1) by (simp add: zdvd_imp_le)
  moreover have "0 < gcd n d"
    using assms(1) by simp
  ultimately show "0 < g" "in_u32 g"
    using assms(2) by (simp_all add: in_u32_def g)
qed

lemma check_big_product:
  assumes "in_s32 k" "in_s32 m" "2147483648 \<le> \<bar>k\<bar>" "m \<noteq> 0"
  shows "CHECK_WORD (s64 (k * m)) = Overflow" "CHECK_WORD (s64 (m * k)) = Overflow"
proof -
  have "\<bar>k\<bar> * 1 \<le> \<bar>k\<bar> * \<bar>m\<bar>"
    using assms by (intro mult_left_mono) auto
  then have "2147483648 \<le> \<bar>k * m\<bar>"
    using assms by (simp add: abs_mult)
  then show "CHECK_WORD (s64 (k * m)) = Overflow"
    using assms by (auto simp: CHECK_WORD_def s64_id in_s64_mult_words)
  then show "CHECK_WORD (s64 (m * k)) = Overflow"
    by (simp add: mult.commute)
qed

lemma div_dvd_nonzero: "(g::int) dvd n \<Longrightarrow> n \<noteq> 0 \<Longrightarrow> n div g \<noteq> 0"
  by (auto elim!: dvdE)

lemma multiplicationAssign_word_ok:
  assumes a: "word_ok (fr_num a) (fr_den a)" and b: "word_ok (fr_num b) (fr_den b)"
  shows "path_all (frac_is ((of_int (fr_num a) / of_int (fr_den a)) * (of_int (fr_num b) / of_int (fr_den b))))
    (multiplicationAssign_word a b)"
proof -
  note a' = word_okD [OF a] and b' = word_okD [OF b]
  define g where "g = gcd (fr_num a) (fr_den b)"
  define h where "h = gcd (fr_den a) (fr_num b)"
  have gcds: "gcd_t (absVal32 (fr_num a)) (fr_den b) = g" "gcd_t (fr_den a) (absVal32 (fr_num b)) = h"
    using a' b' by (simp_all add: gcd_t_eq absVal32_eq g_def h_def)
  have pos: "0 < g" "0 < h"
    using a' b' by (simp_all add: g_def h_def)
  have dvd: "g dvd fr_num a" "g dvd fr_den b" "h dvd fr_den a" "h dvd fr_num b"
    by (simp_all add: g_def h_def)
  show ?thesis
    unfolding multiplicationAssign_word_def Let_def gcds
    using pos dvd a' b' cross_cancel [OF a'(4) b'(4) a'(3) b'(3) g_def h_def]
    by (simp add: div_path_def sdiv_dvd check_product in_s64_mult_words in_s32_div in_u32_div)
qed

lemma multiplication_word_ok:
  assumes a: "word_ok (fr_num a) (fr_den a)" and b: "word_ok (fr_num b) (fr_den b)"
    and nz: "fr_num a \<noteq> 0" "fr_num b \<noteq> 0"
  shows "path_all (frac_is ((of_int (fr_num a) / of_int (fr_den a)) * (of_int (fr_num b) / of_int (fr_den b))))
    (multiplication_word a b)"
proof -
  note a' = word_okD [OF a] and b' = word_okD [OF b]
  define g where "g = gcd (fr_num a) (fr_den b)"
  define h where "h = gcd (fr_den a) (fr_num b)"
  have gcds: "gcd_t (absVal32 (fr_num a)) (fr_den b) = g" "gcd_t (fr_den a) (absVal32 (fr_num b)) = h"
    using a' b' by (simp_all add: gcd_t_eq absVal32_eq g_def h_def)
  have pos: "0 < g" "0 < h"
    using a' b' by (simp_all add: g_def h_def)
  have dvd: "g dvd fr_num a" "g dvd fr_den b" "h dvd fr_den a" "h dvd fr_num b"
    by (simp_all add: g_def h_def)
  have le: "g \<le> \<bar>fr_num a\<bar>" "h \<le> \<bar>fr_num b\<bar>"
    using dvd nz by (auto intro: zdvd_imp_le)
  have le': "g \<le> 2147483648" "h \<le> 2147483648"
    using le a'(1) b'(1) by (auto simp: in_s32_def)
  show ?thesis
  proof (cases "g < 2147483648 \<and> h < 2147483648")
    case True
    then have s: "s32 g = g" "s32 h = h" "u64 g = g" "u64 h = h"
      using pos by (simp_all add: s32_id u64_id in_s32_def in_u64_def)
    have "(if g > 1 then (fr_num a sdiv g, fr_den b div g) else (fr_num a, fr_den b)) =
        (fr_num a div g, fr_den b div g)"
      "(if h > 1 then (fr_num b sdiv h, fr_den a div h) else (fr_num b, fr_den a)) =
        (fr_num b div h, fr_den a div h)"
      using pos dvd by (auto simp: sdiv_dvd)
    then show ?thesis
      unfolding multiplication_word_def Let_def gcds s
      using pos dvd a' b' cross_cancel [OF a'(4) b'(4) a'(3) b'(3) g_def h_def]
      by (simp add: check_product in_s64_mult_words in_s32_div in_u32_div)
  next
    case False
    then consider "g = 2147483648" | "g < 2147483648" "h = 2147483648"
      using le' by linarith
    then show ?thesis
    proof cases
      case 1
      then have "2147483648 \<le> \<bar>fr_num a\<bar>" "\<not> s32 g > 1"
        using le s32_big [of g] by auto
      moreover have "1 < s32 h \<Longrightarrow> s32 h = h"
        using le' pos s32_big [of h] by (cases "h = 2147483648") (auto simp: s32_id in_s32_def)
      ultimately show ?thesis
        using nz a' b' pos dvd check_big_product [of "fr_num a"]
        by (auto simp: multiplication_word_def Let_def gcds sdiv_dvd in_s32_div div_dvd_nonzero)
    next
      case 2
      then have "2147483648 \<le> \<bar>fr_num b\<bar>" "\<not> s32 h > 1" "s32 g = g"
        using le pos s32_big [of h] by (auto simp: s32_id in_s32_def)
      then show ?thesis
        using nz a' b' pos dvd check_big_product [of "fr_num b"]
        by (auto simp: multiplication_word_def Let_def gcds sdiv_dvd in_s32_div div_dvd_nonzero)
    qed
  qed
qed

text \<open>
  Division cross-cancels with the second operand inverted and puts the sign right at the
  end. By a zero divisor the code aborts or traps.
\<close>

lemma neg_absVal32:
  assumes "- 1073741824 \<le> z" "z \<le> 1073741823"
  shows "s32 (u32 (- absVal32 z)) = - \<bar>z\<bar>" "s32 (absVal32 z) = \<bar>z\<bar>"
proof -
  have z: "in_s32 z" "in_s32 \<bar>z\<bar>" "in_s32 (- \<bar>z\<bar>)"
    using assms by (auto simp: in_s32_def)
  have "s32 (u32 (- \<bar>z\<bar>)) = s32 (- \<bar>z\<bar>)"
    by (simp add: s32_def u32_def signed_take_bit_eq_iff_take_bit_eq)
  with z show "s32 (u32 (- absVal32 z)) = - \<bar>z\<bar>" "s32 (absVal32 z) = \<bar>z\<bar>"
    by (simp_all add: absVal32_eq s32_id)
qed

lemma division_common:
  assumes a: "word_ok na da" and b: "word_ok nb db" and nz: "nb \<noteq> 0"
    and g: "g = gcd na nb" and h: "h = gcd da db"
  shows "0 < g" "0 < h" "g dvd na" "g dvd nb" "h dvd da" "h dvd db"
    "coprime ((na div g) * (db div h)) ((\<bar>nb\<bar> div g) * (da div h))"
    "(of_int ((na div g) * (db div h)) / of_int ((\<bar>nb\<bar> div g) * (da div h)) :: rat) =
      (of_int na / of_int da) * (of_int db / of_int \<bar>nb\<bar>)"
    "0 < (\<bar>nb\<bar> div g) * (da div h)"
    "in_s64 ((na div g) * (db div h))" "in_u32 (\<bar>nb\<bar> div g)" "in_u32 (da div h)"
proof -
  note a' = word_okD [OF a] and b' = word_okD [OF b]
  have "in_u32 \<bar>nb\<bar>"
    using b' by (auto simp: in_s32_def in_u32_def)
  moreover have gh: "0 < g" "0 < h" "g dvd na" "g dvd nb" "h dvd da" "h dvd db"
    using nz a' by (simp_all add: g h)
  ultimately show "in_s64 ((na div g) * (db div h))" "in_u32 (\<bar>nb\<bar> div g)" "in_u32 (da div h)"
    using a' b' by (simp_all add: in_s32_div in_u32_div width_simps)
  show "0 < g" "0 < h" "g dvd na" "g dvd nb" "h dvd da" "h dvd db"
    by (fact gh)+
  have "g = gcd na \<bar>nb\<bar>" "coprime db \<bar>nb\<bar>"
    using b' by (simp_all add: g coprime_commute)
  note cross_cancel [OF a'(4) this(2) a'(3) _ this(1) h]
  then show "coprime ((na div g) * (db div h)) ((\<bar>nb\<bar> div g) * (da div h))"
    "(of_int ((na div g) * (db div h)) / of_int ((\<bar>nb\<bar> div g) * (da div h)) :: rat) =
      (of_int na / of_int da) * (of_int db / of_int \<bar>nb\<bar>)"
    "0 < (\<bar>nb\<bar> div g) * (da div h)"
    using nz by (simp_all add: mult.commute [of "\<bar>nb\<bar> div g"])
qed

lemma division_word_ok:
  assumes a: "word_ok (fr_num a) (fr_den a)" and b: "word_ok (fr_num b) (fr_den b)"
    and nz: "fr_num b \<noteq> 0"
  shows "path_all (frac_is ((of_int (fr_num a) / of_int (fr_den a)) / (of_int (fr_num b) / of_int (fr_den b))))
    (division_word a b)"
proof -
  note a' = word_okD [OF a] and b' = word_okD [OF b]
  define g where "g = gcd (fr_num a) (fr_num b)"
  define h where "h = gcd (fr_den a) (fr_den b)"
  note c = division_common [OF a b nz g_def h_def]
  define n where "n = (fr_num a div g) * (fr_den b div h)"
  define d where "d = (\<bar>fr_num b\<bar> div g) * (fr_den a div h)"
  have gcds: "gcd_t (absVal32 (fr_num a)) (absVal32 (fr_num b)) = g" "gcd_t (fr_den a) (fr_den b) = h"
      "absVal32 (fr_num b) = \<bar>fr_num b\<bar>"
    using a' b' by (simp_all add: gcd_t_eq absVal32_eq g_def h_def)
  have sgn_n: "(n \<le> 0 \<longleftrightarrow> fr_num a \<le> 0) \<and> (0 \<le> n \<longleftrightarrow> 0 \<le> fr_num a)"
  proof -
    have "0 < fr_den b div h"
      using div_pos_le [of "fr_den b" h] b' c by simp
    moreover obtain x where "fr_num a = g * x"
      using c(3) by blast
    ultimately show ?thesis
      using c(1) by (simp add: n_def mult_le_0_iff zero_le_mult_iff)
  qed
  have steps: "path_all (frac_is ((of_int (fr_num a) / of_int (fr_den a)) / (of_int (fr_num b) / of_int (fr_den b))))
      (pbind (CHECK_WORD (s64 n)) (\<lambda>zn. pbind (CHECK_UWORD (u64 d)) (\<lambda>zd.
       let n1 = (if (fr_num b < 0 \<and> fr_num a \<ge> 0) \<or> (fr_num b > 0 \<and> fr_num a \<le> 0)
                   then s32 (u32 (- absVal32 zn)) else zn);
             n2 = (if (fr_num b > 0 \<and> fr_num a \<ge> 0) \<or> (fr_num b < 0 \<and> fr_num a \<le> 0)
                   then s32 (absVal32 n1) else n1)
         in Fits (n2, zd))))" (is "path_all _ (pbind _ (\<lambda>zn. pbind _ (?k zn)))")
  proof (rule path_all_CHECK_WORD, rule path_all_CHECK_UWORD)
    have un: "s64 n = n" "u64 d = d"
      using c by (simp_all add: n_def d_def s64_id u64_id in_u64_uword_mult)
    show "0 < u64 d" "in_u64 (u64 d)"
      using c un by (simp_all add: d_def in_u64_uword_mult)
    assume r: "- 1073741824 \<le> s64 n" "s64 n \<le> 1073741823" and ud: "in_u32 (u64 d)"
    have k: "?k (s64 n) (u64 d) = Fits (sgn (fr_num b) * n, d)"
      using neg_absVal32 [of n] neg_absVal32 [of "- \<bar>n\<bar>"] r un sgn_n nz
      by (auto simp: Let_def sgn_if)
    have "in_s32 (sgn (fr_num b) * n)"
      using r un by (auto simp: in_s32_def sgn_if)
    moreover have "coprime (sgn (fr_num b) * n) d"
      using c nz by (simp add: n_def d_def sgn_if)
    moreover have "(of_int (sgn (fr_num b) * n) / of_int d :: rat) =
        (of_int (fr_num a) / of_int (fr_den a)) / (of_int (fr_num b) / of_int (fr_den b))"
      using c(8) [folded n_def d_def] nz by (simp add: sgn_if abs_if split: if_splits)
    ultimately show "path_all (frac_is ((of_int (fr_num a) / of_int (fr_den a)) / (of_int (fr_num b) / of_int (fr_den b))))
        (?k (s64 n) (u64 d))"
      unfolding k using ud un c by (auto simp: d_def intro!: frac_isI)
  qed
  have "division_word a b = pbind (CHECK_WORD (s64 n)) (\<lambda>zn. pbind (CHECK_UWORD (u64 d)) (?k zn))"
    unfolding division_word_def Let_def gcds(1,2) unfolding gcds(3) n_def d_def using c by (simp add: div_path_def sdiv_dvd)
  with steps show ?thesis
    by (simp only:)
qed

lemma divisionAssign_word_ok:
  assumes a: "word_ok (fr_num a) (fr_den a)" and b: "word_ok (fr_num b) (fr_den b)"
    and nz: "fr_num b \<noteq> 0"
  shows "path_all (frac_is ((of_int (fr_num a) / of_int (fr_den a)) / (of_int (fr_num b) / of_int (fr_den b))))
    (divisionAssign_word a b)"
proof -
  note a' = word_okD [OF a] and b' = word_okD [OF b]
  define g where "g = gcd (fr_num a) (fr_num b)"
  define h where "h = gcd (fr_den a) (fr_den b)"
  note c = division_common [OF a b nz g_def h_def]
  define n where "n = (fr_num a div g) * (fr_den b div h)"
  define d where "d = (\<bar>fr_num b\<bar> div g) * (fr_den a div h)"
  have gcds: "gcd_t (absVal32 (fr_num a)) (absVal32 (fr_num b)) = g" "gcd_t (fr_den a) (fr_den b) = h"
      "absVal32 (fr_num b) = \<bar>fr_num b\<bar>"
    using a' b' by (simp_all add: gcd_t_eq absVal32_eq g_def h_def)
  have "in_s32 (fr_num a div g)" "in_u32 (fr_den b div h)"
    using a' b' c by (simp_all add: in_s32_div in_u32_div)
  then have range: "in_s64 (- (fr_num a div g))" "in_s64 (- n)" "in_s64 n"
    using word_mult_bounds [of "fr_num a div g" "fr_den b div h"] c
    by (auto simp: n_def in_s32_def in_s64_def)
  define v where "v = (of_int (fr_num a) / of_int (fr_den a) :: rat) / (of_int (fr_num b) / of_int (fr_den b))"
  have v: "(of_int (sgn (fr_num b) * n) / of_int d :: rat) = v"
    using c(8) [folded n_def d_def] nz by (simp add: v_def sgn_if abs_if split: if_splits)
  have "path_all (frac_is v) (pbind (CHECK_WORD (sgn (fr_num b) * n)) (\<lambda>zn.
      pbind (CHECK_UWORD d) (\<lambda>zd. Fits (zn, zd))))"
    using c v nz by (intro path_rules) (auto intro!: frac_isI simp: d_def n_def in_u64_uword_mult sgn_if)
  moreover have "divisionAssign_word a b = pbind (CHECK_WORD (sgn (fr_num b) * n)) (\<lambda>zn.
      pbind (CHECK_UWORD d) (\<lambda>zd. Fits (zn, zd)))"
    using c nz range dvd_neg_div [of g "fr_num b"]
      in_u64_uword_mult [of "- (fr_num b div g)" "fr_den a div h"] unfolding divisionAssign_word_def Let_def gcds(1,2) unfolding gcds(3) n_def d_def
    by (cases "fr_num b < 0") (simp_all add: sdiv_dvd s64_id u64_id in_u64_uword_mult)
  ultimately show ?thesis
    by (simp add: v_def)
qed

lemma normalised_eq:
  assumes a: "word_ok na da" and b: "word_ok nb db" and eq: "na * db = nb * da"
  shows "na = nb \<and> da = db"
proof -
  note a' = word_okD [OF a] and b' = word_okD [OF b]
  have "da dvd na * db" "db dvd nb * da"
    using eq by (metis dvd_triv_right)+
  then have "da dvd db" "db dvd da"
    using a' b' by (simp_all add: coprime_dvd_mult_right_iff coprime_commute)
  then have "da = db"
    using a' b' by (simp add: zdvd_antisym_nonneg)
  with eq a' show ?thesis
    by simp
qed

lemma substractionAssign_word_ok:
  assumes a: "word_ok (fr_num a) (fr_den a)" and b: "word_ok (fr_num b) (fr_den b)"
  shows "path_all (frac_is (of_int (fr_num a) / of_int (fr_den a) - of_int (fr_num b) / of_int (fr_den b)))
    (substractionAssign_word a b)"
proof -
  note a' = word_okD [OF a] and b' = word_okD [OF b]
  define h where "h = gcd (fr_den a) (fr_den b)"
  have h: "gcd_t (fr_den a) (fr_den b) = h" "0 < h" "h dvd fr_den a" "h dvd fr_den b"
    using a' b' by (simp_all add: gcd_t_eq h_def)
  define da db where "da = fr_den a div h" and "db = fr_den b div h"
  have den: "fr_den a = h * da" "fr_den b = h * db" "0 < da" "0 < db" "in_u32 da" "in_u32 db"
    using h a' b' div_pos_le [of "fr_den a" h] div_pos_le [of "fr_den b" h]
    by (simp_all add: da_def db_def in_u32_div)
  define n d where "n = fr_num a * db - fr_num b * da" and "d = fr_den a * db"
  have d: "0 < d" "in_u64 d" "u64 d = d"
    using den a' by (simp_all add: d_def width_simps)
  have vl: "(of_int n / of_int d :: rat) =
      of_int (fr_num a) / of_int (fr_den a) - of_int (fr_num b) / of_int (fr_den b)"
    using den h(2) by (simp add: n_def d_def field_simps)
  define k where "k = gcd n d"
  have k: "0 < k" "k dvd n" "k dvd d" "k \<le> d"
    using d by (simp_all add: k_def zdvd_imp_le)
  have cop: "coprime (n div k) (d div k)"
    using d by (simp add: k_def div_gcd_coprime)
  show ?thesis
    unfolding substractionAssign_word_def Let_def h(1)
  proof (rule path_all_div_path, use h in simp, rule path_all_CHECK_WORD,
      rule path_all_div_path, use h in simp, rule path_all_CHECK_WORD)
    assume "- 1073741824 \<le> s64 (fr_num a * (fr_den b sdiv h))" "s64 (fr_num a * (fr_den b sdiv h)) \<le> 1073741823"
      and "- 1073741824 \<le> s64 (fr_num b * (fr_den a sdiv h))" "s64 (fr_num b * (fr_den a sdiv h)) \<le> 1073741823"
    moreover have s: "fr_den b sdiv h = db" "fr_den a sdiv h = da"
        "s64 (fr_num a * db) = fr_num a * db" "s64 (fr_num b * da) = fr_num b * da"
      using h den a' b' by (simp_all add: sdiv_dvd width_simps flip: da_def db_def)
    ultimately have n: "in_s64 n" "\<bar>n\<bar> \<le> 2147483647"
      unfolding s by (auto simp: n_def in_s64_def)
    have "k \<le> 4294967295"
    proof (cases "n = 0")
      case True
      then have "fr_num a * fr_den b = fr_num b * fr_den a"
        using den by (simp add: n_def)
      then have "fr_den a = fr_den b"
        using normalised_eq [OF a b] by simp
      then have "d = fr_den a"
        using h(2) a' by (simp add: d_def db_def h_def)
      then show ?thesis
        using k a' by (simp add: in_u32_def)
    next
      case False
      then have "k \<le> \<bar>n\<bar>"
        using k by (intro zdvd_imp_le) auto
      then show ?thesis
        using n by simp
    qed
    then have uk: "u32 (gcd_t (absVal64 n) d) = k"
      using n d k by (simp add: absVal64_eq gcd_t_eq u32_id in_u32_def flip: k_def)
    have dk: "0 < d div k" "d div k \<le> d"
      using div_pos_le [OF d(1) k(1,3)] by auto
    then have "path_all (frac_is (of_int n / of_int d)) (pbind (div_path n k) (\<lambda>qn.
        pbind (CHECK_WORD qn) (\<lambda>zn. pbind (div_path d k) (\<lambda>qd. pbind (CHECK_UWORD qd) (\<lambda>zd. Fits (zn, zd))))))"
      using k d cop reduced_value [OF d(1) k(2,3)]
      by (intro path_rules) (auto simp: sdiv_dvd in_u64_def intro!: frac_isI)
    then show "path_all (frac_is (of_int (fr_num a) / of_int (fr_den a) - of_int (fr_num b) / of_int (fr_den b)))
        (pbind (div_path (s64 (s64 (fr_num a * (fr_den b sdiv h)) - s64 (fr_num b * (fr_den a sdiv h))))
           (u32 (gcd_t (absVal64 (s64 (s64 (fr_num a * (fr_den b sdiv h)) - s64 (fr_num b * (fr_den a sdiv h)))))
             (u64 (fr_den a * (fr_den b sdiv h)))))) (\<lambda>qn.
         pbind (CHECK_WORD qn) (\<lambda>zn.
         pbind (div_path (u64 (fr_den a * (fr_den b sdiv h)))
           (u32 (gcd_t (absVal64 (s64 (s64 (fr_num a * (fr_den b sdiv h)) - s64 (fr_num b * (fr_den a sdiv h)))))
             (u64 (fr_den a * (fr_den b sdiv h)))))) (\<lambda>qd.
         pbind (CHECK_UWORD qd) (\<lambda>zd. Fits (zn, zd))))))"
      unfolding s n_def [symmetric] d_def [symmetric] s64_id [OF n(1)] d(3) uk vl .
  qed
qed

end
