(* ===== verification/Fast_Rational_Exact.thy ===== *)
theory Fast_Rational_Exact
  imports Fast_Rational_Correct
begin

text \<open>
  The functions of \<open>FastRational\<close> with their GMP fallback, under the GMP laws: the
  arithmetic is exact, the comparisons decide the order of the values, every operation
  keeps the invariant, and an operand changes only by having its GMP part filled in.
\<close>

section \<open>What an operation promises\<close>

text \<open>
  \<open>exact1\<close>: a result with the value \<open>v\<close>. \<open>exact3\<close>: the result and the two
  operands. \<open>exact2\<close>: the destination and the second operand. \<open>decides\<close>: a
  decision \<open>c\<close> and the two operands.
\<close>

definition exact1 :: "'q gmp \<Rightarrow> rat \<Rightarrow> 'q frat result \<Rightarrow> bool" where
  "exact1 G v r \<longleftrightarrow> (case r of Inl e \<Rightarrow> False | Inr x \<Rightarrow> fr_inv G x \<and> fr_val G x = v)"

definition exact3 ::
  "'q gmp \<Rightarrow> rat \<Rightarrow> 'q frat \<Rightarrow> 'q frat \<Rightarrow> ('q frat \<times> 'q frat \<times> 'q frat) result \<Rightarrow> bool" where
  "exact3 G v a b r \<longleftrightarrow> (case r of Inl e \<Rightarrow> False
     | Inr (d, a', b') \<Rightarrow> fr_inv G d \<and> fr_val G d = v \<and> cached G a a' \<and> cached G b b')"

definition exact2 ::
  "'q gmp \<Rightarrow> rat \<Rightarrow> 'q frat \<Rightarrow> ('q frat \<times> 'q frat) result \<Rightarrow> bool" where
  "exact2 G v b r \<longleftrightarrow> (case r of Inl e \<Rightarrow> False
     | Inr (d, b') \<Rightarrow> fr_inv G d \<and> fr_val G d = v \<and> cached G b b')"

definition decides ::
  "'q gmp \<Rightarrow> 'c \<Rightarrow> 'q frat \<Rightarrow> 'q frat \<Rightarrow> ('c \<times> 'q frat \<times> 'q frat) result \<Rightarrow> bool" where
  "decides G c a b r \<longleftrightarrow> (case r of Inl e \<Rightarrow> False
     | Inr (x, a', b') \<Rightarrow> x = c \<and> cached G a a' \<and> cached G b b')"

lemma exact3E:
  assumes "exact3 G v a b r"
  obtains d a' b' where "r = Inr (d, a', b')" "fr_inv G d" "fr_val G d = v" "cached G a a'" "cached G b b'"
  using assms by (auto simp: exact3_def split: sum.splits prod.splits)

lemma exact1E:
  assumes "exact1 G v r"
  obtains d where "r = Inr d" "fr_inv G d" "fr_val G d = v"
  using assms by (auto simp: exact1_def split: sum.splits)

lemma decidesE:
  assumes "decides G c a b r"
  obtains a' b' where "r = Inr (c, a', b')" "cached G a a'" "cached G b b'"
  using assms by (auto simp: decides_def split: sum.splits prod.splits)

lemma cached_inv: "cached G a a' \<Longrightarrow> fr_inv G a'"
  by (simp add: cached_def)

lemma cached_val: "cached G a a' \<Longrightarrow> fr_val G a' = fr_val G a"
  by (simp add: cached_def)

lemma fr_inv_memory:
  "fr_inv G f \<Longrightarrow>
   mpqMemoryAllocated f \<or> (wordPartValid f \<and> \<not> mpqPartValid f \<and> fr_mpq f = None)"
  by (auto simp: fr_inv_def)

lemma run_path_all:
  "path_all P p \<Longrightarrow> (\<And>nd. P nd \<Longrightarrow> Q (k nd)) \<Longrightarrow> Q overflow \<Longrightarrow> Q (run_path p k overflow)"
  by (cases p) (auto simp: run_path_def)

lemma store_word_ok:
  assumes "fr_inv G dst" and "frac_is v nd"
  shows "fr_inv G (store_word dst nd)" "fr_val G (store_word dst nd) = v"
  using assms fr_inv_kill_mpq [of "dst\<lparr>fr_num := fst nd, fr_den := snd nd\<rparr>"] fr_inv_memory [OF assms(1)]
  by (simp_all add: store_word_def frac_is_def frat_simps)

lemma store_word_set_ok:
  assumes "fr_inv G dst" and "frac_is v nd"
  shows "fr_inv G (kill_mpq (setWordPartValid (dst\<lparr>fr_num := fst nd, fr_den := snd nd\<rparr>)))"
    "fr_val G (kill_mpq (setWordPartValid (dst\<lparr>fr_num := fst nd, fr_den := snd nd\<rparr>))) = v"
  using assms fr_inv_kill_mpq [of "setWordPartValid (dst\<lparr>fr_num := fst nd, fr_den := snd nd\<rparr>)"]
    fr_inv_memory [OF assms(1)]
  by (auto simp: frac_is_def frat_simps)

context gmp_iface
begin

section \<open>The GMP fallback\<close>

lemma mpq_path_ok:
  assumes a: "fr_inv G a" and b: "fr_inv G b"
    and f: "\<And>p q. canonical G p \<Longrightarrow> canonical G q \<Longrightarrow> qval G p = fr_val G a \<Longrightarrow> qval G q = fr_val G b \<Longrightarrow>
      \<exists>r. f p q = Some r \<and> canonical G r \<and> qval G r = v"
  shows "exact3 G v a b (mpq_path G f dst a b)"
proof -
  obtain a' p b' q where F: "force2 G a b = Inr (a', p, b', q)" "cached G a a'" "cached G b b'"
      "canonical G p" "canonical G q" "qval G p = fr_val G a" "qval G q = fr_val G b"
    using force2_ok [OF a b] .
  obtain r where r: "f p q = Some r" "canonical G r" "qval G r = v"
    using f F by blast
  let ?d = "(ensure_mpq_memory_allocated G dst)\<lparr>fr_mpq := Some r, fr_state := MPQ_ALLOCATED_AND_VALID\<rparr>"
  have "mpqPartValid ?d" "mpqMemoryAllocated ?d" "\<not> wordPartValid ?d" "fr_mpq ?d = Some r"
    by (simp_all add: frat_simps)
  then obtain d where "try_fit_word G ?d = Inr d" "fr_inv G d" "fr_val G d = v"
    using try_fit_word_ok [of ?d r] r by metis
  with F r show ?thesis
    by (simp add: mpq_path_def exact3_def)
qed

lemma mpq_assign_path_ok:
  assumes a: "fr_inv G a" and b: "fr_inv G b"
    and f: "\<And>p q. canonical G p \<Longrightarrow> canonical G q \<Longrightarrow> qval G p = fr_val G a \<Longrightarrow> qval G q = fr_val G b \<Longrightarrow>
      \<exists>r. f p q = Some r \<and> canonical G r \<and> qval G r = v"
  shows "exact2 G v b (mpq_assign_path G f a b)"
proof -
  obtain a' p b' q where F: "force2 G a b = Inr (a', p, b', q)" "cached G a a'" "cached G b b'"
      "canonical G p" "canonical G q" "qval G p = fr_val G a" "qval G q = fr_val G b"
    using force2_ok [OF a b] .
  obtain r where r: "f p q = Some r" "canonical G r" "qval G r = v"
    using f F by blast
  let ?d = "a'\<lparr>fr_mpq := Some r, fr_state := MPQ_ALLOCATED_AND_VALID\<rparr>"
  have "mpqPartValid ?d" "mpqMemoryAllocated ?d" "\<not> wordPartValid ?d" "fr_mpq ?d = Some r"
    by (simp_all add: frat_simps)
  then obtain d where "try_fit_word G ?d = Inr d" "fr_inv G d" "fr_val G d = v"
    using try_fit_word_ok [of ?d r] r by metis
  with F r show ?thesis
    by (simp add: mpq_assign_path_def exact2_def)
qed

lemma canonical_nonzero:
  "canonical G p \<Longrightarrow> mpq_numref G p = 0 \<longleftrightarrow> qval G p = 0"
  by (auto simp: canonical_def qval_def)

lemma word_val_zero:
  "fr_inv G f \<Longrightarrow> wordPartValid f \<Longrightarrow> fr_num f = 0 \<longleftrightarrow> fr_val G f = 0"
  by (auto simp: fr_inv_def fr_val_def word_ok_def)

lemma exact3_word:
  assumes "fr_inv G a" "fr_inv G b" "fr_inv G d" "fr_val G d = v"
  shows "exact3 G v a b (Inr (d, a, b))"
  using assms by (simp add: exact3_def cached_refl)

lemma exact2_word:
  assumes "fr_inv G b" "fr_inv G d" "fr_val G d = v"
  shows "exact2 G v b (Inr (d, b))"
  using assms by (simp add: exact2_def cached_refl)

section \<open>Sum, difference, product, quotient\<close>

lemma addition_ok:
  assumes "fr_inv G dst" "fr_inv G a" "fr_inv G b"
  shows "exact3 G (fr_val G a + fr_val G b) a b (addition G dst a b)"
proof -
  have over: "exact3 G (fr_val G a + fr_val G b) a b (mpq_path G (\<lambda>p q. Some (mpq_add G p q)) dst a b)"
    using assms add by (intro mpq_path_ok) auto
  show ?thesis
  proof (cases "wordPartValid a \<and> wordPartValid b")
    case True
    have "path_all (frac_is (fr_val G a + fr_val G b)) (addition_word a b)"
      using addition_word_ok [of a b] assms True by (simp add: fr_inv_word_ok fr_val_word)
    then have "exact3 G (fr_val G a + fr_val G b) a b (run_path (addition_word a b)
        (\<lambda>nd. Inr (store_word dst nd, a, b)) (mpq_path G (\<lambda>p q. Some (mpq_add G p q)) dst a b))"
      by (rule run_path_all) (use assms over in \<open>auto intro: exact3_word store_word_ok\<close>)
    then show ?thesis
      using True by (simp add: addition_def)
  qed (use over in \<open>auto simp: addition_def Let_def\<close>)
qed

lemma substraction_ok:
  assumes "fr_inv G dst" "fr_inv G a" "fr_inv G b"
    and no: "wordPartValid a \<Longrightarrow> wordPartValid b \<Longrightarrow> no_lword_overflow a b"
  shows "exact3 G (fr_val G a - fr_val G b) a b (substraction G dst a b)"
proof -
  have over: "exact3 G (fr_val G a - fr_val G b) a b (mpq_path G (\<lambda>p q. Some (mpq_sub G p q)) dst a b)"
    using assms sub by (intro mpq_path_ok) auto
  show ?thesis
  proof (cases "wordPartValid a \<and> wordPartValid b")
    case True
    have "path_all (frac_is (fr_val G a - fr_val G b)) (substraction_word a b)"
      using substraction_word_ok [of a b] assms True by (simp add: fr_inv_word_ok fr_val_word)
    then have "exact3 G (fr_val G a - fr_val G b) a b (run_path (substraction_word a b)
        (\<lambda>nd. Inr (store_word dst nd, a, b)) (mpq_path G (\<lambda>p q. Some (mpq_sub G p q)) dst a b))"
      by (rule run_path_all) (use assms over in \<open>auto intro: exact3_word store_word_ok\<close>)
    then show ?thesis
      using True by (simp add: substraction_def)
  qed (use over in \<open>auto simp: substraction_def Let_def\<close>)
qed

lemma multiplication_ok:
  assumes "fr_inv G dst" "fr_inv G a" "fr_inv G b"
  shows "exact3 G (fr_val G a * fr_val G b) a b (multiplication G dst a b)"
proof -
  let ?v = "fr_val G a * fr_val G b"
  have over: "exact3 G ?v a b (mpq_path G (\<lambda>p q. Some (mpq_mul G p q)) dst a b)"
    using assms mul by (intro mpq_path_ok) auto
  obtain da where da: "assign_copy G dst a = Inr da" "fr_inv G da" "fr_val G da = fr_val G a"
    using assign_copy_ok [of dst a] assms by metis
  obtain db where db: "assign_copy G dst b = Inr db" "fr_inv G db" "fr_val G db = fr_val G b"
    using assign_copy_ok [of dst b] assms by metis
  consider (zero) "(wordPartValid a \<and> fr_num a = 0) \<or> (wordPartValid b \<and> fr_num b = 0)"
    | (one_a) "\<not> ((wordPartValid a \<and> fr_num a = 0) \<or> (wordPartValid b \<and> fr_num b = 0))"
      "wordPartValid a \<and> fr_num a = 1 \<and> fr_den a = 1"
    | (one_b) "\<not> ((wordPartValid a \<and> fr_num a = 0) \<or> (wordPartValid b \<and> fr_num b = 0))"
      "\<not> (wordPartValid a \<and> fr_num a = 1 \<and> fr_den a = 1)"
      "wordPartValid b \<and> fr_num b = 1 \<and> fr_den b = 1"
    | (other) "\<not> ((wordPartValid a \<and> fr_num a = 0) \<or> (wordPartValid b \<and> fr_num b = 0))"
      "\<not> (wordPartValid a \<and> fr_num a = 1 \<and> fr_den a = 1)"
      "\<not> (wordPartValid b \<and> fr_num b = 1 \<and> fr_den b = 1)"
    by blast
  then show ?thesis
  proof cases
    case zero
    then have "?v = 0"
      using word_val_zero [OF assms(2)] word_val_zero [OF assms(3)] by (elim disjE) simp_all
    moreover have "frac_is 0 (0, 1)"
      by (auto simp: frac_is_def word_ok_def in_s32_def in_u32_def)
    ultimately show ?thesis
      using zero assms store_word_set_ok [of G dst 0 "(0, 1)"]
      by (simp add: multiplication_def Let_def exact3_word)
  next
    case one_a
    then have v: "?v = fr_val G b"
      by (simp add: fr_val_def)
    have "multiplication G dst a b = rbind (assign_copy G dst b) (\<lambda>d. Inr (d, a, b))"
      unfolding multiplication_def Let_def if_not_P [OF one_a(1)] if_P [OF one_a(2)] ..
    then show ?thesis
      using v db assms by (simp add: exact3_word)
  next
    case one_b
    then have v: "?v = fr_val G a"
      by (simp add: fr_val_def)
    have "multiplication G dst a b = rbind (assign_copy G dst a) (\<lambda>d. Inr (d, a, b))"
      unfolding multiplication_def Let_def if_not_P [OF one_b(1)] if_not_P [OF one_b(2)]
        if_P [OF one_b(3)] ..
    then show ?thesis
      using v da assms by (simp add: exact3_word)
  next
    case other
    show ?thesis
    proof (cases "wordPartValid a \<and> wordPartValid b")
      case True
      then have "fr_num a \<noteq> 0" "fr_num b \<noteq> 0"
        using other(1) by auto
      then have "path_all (frac_is ?v) (multiplication_word a b)"
        using multiplication_word_ok [of a b] assms True by (simp add: fr_inv_word_ok fr_val_word)
      then have "exact3 G ?v a b (run_path (multiplication_word a b)
          (\<lambda>nd. Inr (kill_mpq (setWordPartValid (dst\<lparr>fr_num := fst nd, fr_den := snd nd\<rparr>)), a, b))
          (mpq_path G (\<lambda>p q. Some (mpq_mul G p q)) dst a b))"
        by (rule run_path_all) (use assms over in \<open>auto intro: exact3_word store_word_set_ok\<close>)
      then show ?thesis
        using True unfolding multiplication_def Let_def if_not_P [OF other(1)] if_not_P [OF other(2)]
          if_not_P [OF other(3)] by simp
    next
      case False
      then show ?thesis
        using over unfolding multiplication_def Let_def if_not_P [OF other(1)] if_not_P [OF other(2)]
          if_not_P [OF other(3)] by auto
    qed
  qed
qed

lemma division_ok:
  assumes "fr_inv G dst" "fr_inv G a" "fr_inv G b" and nz: "fr_val G b \<noteq> 0"
  shows "exact3 G (fr_val G a / fr_val G b) a b (division G dst a b)"
proof -
  let ?v = "fr_val G a / fr_val G b"
  have over: "exact3 G ?v a b (mpq_path G (mpq_div G) dst a b)"
    using assms div canonical_nonzero by (intro mpq_path_ok) metis+
  show ?thesis
  proof (cases "wordPartValid a \<and> wordPartValid b")
    case True
    then have "fr_num b \<noteq> 0"
      using word_val_zero [of b] assms by auto
    then have "path_all (frac_is ?v) (division_word a b)"
      using division_word_ok [of a b] assms True by (simp add: fr_inv_word_ok fr_val_word)
    then have "exact3 G ?v a b (run_path (division_word a b)
        (\<lambda>nd. Inr (kill_mpq (setWordPartValid (dst\<lparr>fr_num := fst nd, fr_den := snd nd\<rparr>)), a, b))
        (mpq_path G (mpq_div G) dst a b))"
      by (rule run_path_all) (use assms over in \<open>auto intro: exact3_word store_word_set_ok\<close>)
    then show ?thesis
      using True by (simp add: division_def)
  qed (use over in \<open>auto simp: division_def Let_def\<close>)
qed

text \<open>The assigning forms.\<close>

lemma additionAssign_ok:
  assumes a: "fr_inv G a" and b: "fr_inv G b"
  shows "exact2 G (fr_val G a + fr_val G b) b (additionAssign G a b)"
proof -
  let ?v = "fr_val G a + fr_val G b"
  have over: "exact2 G ?v b (mpq_assign_path G (\<lambda>p q. Some (mpq_add G p q)) a b)"
    using a b add by (intro mpq_assign_path_ok) auto
  show ?thesis
  proof (cases "wordPartValid b \<and> fr_num b \<noteq> 0 \<and> wordPartValid a")
    case True
    have "path_all (frac_is ?v) (additionAssign_word a b)"
      using additionAssign_word_ok [of a b] a b True by (simp add: fr_inv_word_ok fr_val_word)
    then have "exact2 G ?v b (run_path (additionAssign_word a b)
        (\<lambda>nd. Inr (store_word a nd, b)) (mpq_assign_path G (\<lambda>p q. Some (mpq_add G p q)) a b))"
      by (rule run_path_all) (use a b over in \<open>auto intro: exact2_word store_word_ok\<close>)
    then show ?thesis
      using True by (simp add: additionAssign_def)
  next
    case False
    then show ?thesis
      using over exact2_word [OF b a] word_val_zero [OF b] by (auto simp: additionAssign_def Let_def)
  qed
qed

lemma assign_ok:
  assumes "fr_inv G a" "fr_inv G b"
    and "exact2 G v b overflow"
    and "wordPartValid a \<Longrightarrow> wordPartValid b \<Longrightarrow> path_all (frac_is v) p"
  shows "exact2 G v b (if wordPartValid a \<and> wordPartValid b
    then run_path p (\<lambda>nd. Inr (store_word a nd, b)) overflow else overflow)"
proof (cases "wordPartValid a \<and> wordPartValid b")
  case True
  with assms(4) have "path_all (frac_is v) p"
    by simp
  then have "exact2 G v b (run_path p (\<lambda>nd. Inr (store_word a nd, b)) overflow)"
    by (rule run_path_all) (use assms(1-3) in \<open>auto intro: exact2_word store_word_ok\<close>)
  with True show ?thesis
    by simp
qed (use assms(3) in auto)

lemma substractionAssign_ok:
  assumes a: "fr_inv G a" and b: "fr_inv G b"
  shows "exact2 G (fr_val G a - fr_val G b) b (substractionAssign G a b)"
  unfolding substractionAssign_def Let_def
  using a b sub substractionAssign_word_ok [of a b]
  by (intro assign_ok mpq_assign_path_ok) (auto simp: fr_inv_word_ok fr_val_word)

lemma multiplicationAssign_ok:
  assumes a: "fr_inv G a" and b: "fr_inv G b"
  shows "exact2 G (fr_val G a * fr_val G b) b (multiplicationAssign G a b)"
  unfolding multiplicationAssign_def Let_def
  using a b mul multiplicationAssign_word_ok [of a b]
  by (intro assign_ok mpq_assign_path_ok) (auto simp: fr_inv_word_ok fr_val_word)

lemma divisionAssign_ok:
  assumes a: "fr_inv G a" and b: "fr_inv G b" and nz: "fr_val G b \<noteq> 0"
  shows "exact2 G (fr_val G a / fr_val G b) b (divisionAssign G a b)"
  unfolding divisionAssign_def Let_def
proof (intro assign_ok mpq_assign_path_ok a b)
  show "path_all (frac_is (fr_val G a / fr_val G b)) (divisionAssign_word a b)"
    if "wordPartValid a" "wordPartValid b"
  proof -
    have "fr_num b \<noteq> 0"
      using word_val_zero [OF b that(2)] nz by simp
    then show ?thesis
      using divisionAssign_word_ok [of a b] that a b by (simp add: fr_inv_word_ok fr_val_word)
  qed
next
  fix p q
  assume pq: "canonical G p" "canonical G q" "qval G p = fr_val G a" "qval G q = fr_val G b"
  then show "\<exists>r. mpq_div G p q = Some r \<and> canonical G r \<and> qval G r = fr_val G a / fr_val G b"
    using div [OF pq(1,2)] canonical_nonzero [OF pq(2)] nz by simp
qed

section \<open>The checked operators\<close>

lemma checked_op_ok:
  assumes "fr_inv G a" "fr_inv G b" "exact3 G v a b (f FastRational_default a b)"
  shows "exact3 G v a b (checked_op G f a b)"
  using assms by (auto simp: checked_op_def exact3_def isWellFormed_inv split: sum.splits)

lemma checked_assign_ok:
  assumes "fr_inv G a" "fr_inv G b" "exact2 G v b (f a b)"
  shows "exact2 G v b (checked_assign G f a b)"
  using assms by (auto simp: checked_assign_def exact2_def isWellFormed_inv split: sum.splits)

lemma op_plus_ok:
  assumes "fr_inv G a" "fr_inv G b"
  shows "exact3 G (fr_val G a + fr_val G b) a b (op_plus G a b)"
  unfolding op_plus_def using assms by (intro checked_op_ok addition_ok fr_inv_default)

lemma op_minus_ok:
  assumes "fr_inv G a" "fr_inv G b"
    and "wordPartValid a \<Longrightarrow> wordPartValid b \<Longrightarrow> no_lword_overflow a b"
  shows "exact3 G (fr_val G a - fr_val G b) a b (op_minus G a b)"
  unfolding op_minus_def using assms by (intro checked_op_ok substraction_ok fr_inv_default)

lemma op_times_ok:
  assumes "fr_inv G a" "fr_inv G b"
  shows "exact3 G (fr_val G a * fr_val G b) a b (op_times G a b)"
  unfolding op_times_def using assms by (intro checked_op_ok multiplication_ok fr_inv_default)

lemma op_divide_ok:
  assumes "fr_inv G a" "fr_inv G b" "fr_val G b \<noteq> 0"
  shows "exact3 G (fr_val G a / fr_val G b) a b (op_divide G a b)"
  unfolding op_divide_def using assms by (intro checked_op_ok division_ok fr_inv_default)

end

end
