(* ===== verification/Fast_Rational_Query.thy ===== *)
theory Fast_Rational_Query
  imports Fast_Rational_Exact
begin

text \<open>
  The comparisons, the sign and integrality tests, negation, inverse, numerator and
  denominator, rounding and the integer functions of \<open>FastRational\<close>, under the GMP
  laws.
\<close>

section \<open>Facts on words\<close>

lemma compare_words:
  assumes "word_ok na da" and "word_ok nb db"
  shows "(of_int na / of_int da :: rat) < of_int nb / of_int db \<longleftrightarrow> na * db < nb * da"
    and "(of_int na / of_int da :: rat) = of_int nb / of_int db \<longleftrightarrow> na * db = nb * da"
proof -
  have pos: "(0::rat) < of_int da" "(0::rat) < of_int db"
    using assms by (simp_all add: word_ok_def)
  have "(of_int na / of_int da :: rat) < of_int nb / of_int db \<longleftrightarrow>
      (of_int (na * db) :: rat) < of_int (nb * da)"
    using pos by (simp add: field_simps)
  then show "(of_int na / of_int da :: rat) < of_int nb / of_int db \<longleftrightarrow> na * db < nb * da"
    by (simp only: of_int_less_iff)
  have "(of_int na / of_int da :: rat) = of_int nb / of_int db \<longleftrightarrow>
      (of_int (na * db) :: rat) = of_int (nb * da)"
    using pos by (simp add: field_simps)
  then show "(of_int na / of_int da :: rat) = of_int nb / of_int db \<longleftrightarrow> na * db = nb * da"
    by (simp only: of_int_eq_iff)
qed

lemma word_values_eq:
  assumes "word_ok na da" and "word_ok nb db"
  shows "(of_int na / of_int da :: rat) = of_int nb / of_int db \<longleftrightarrow> na = nb \<and> da = db"
  using compare_words(2) [OF assms] normalised_eq [OF assms] by auto

lemma fraction_int:
  assumes "0 < d" and "coprime n d"
  shows "(of_int n / of_int d :: rat) \<in> \<int> \<longleftrightarrow> d = 1"
proof
  assume "(of_int n / of_int d :: rat) \<in> \<int>"
  then obtain k where "(of_int n / of_int d :: rat) = of_int k"
    by (auto elim: Ints_cases)
  then have "(of_int n :: rat) = of_int (k * d)"
    using assms by (simp add: field_simps)
  then have "d dvd n"
    by (simp only: of_int_eq_iff) simp
  then show "d = 1"
    using assms coprime_common_divisor [of n d d] by auto
qed simp

lemma fraction_parts:
  assumes "0 < d" and "coprime n d"
  shows "quotient_of (of_int n / of_int d :: rat) = (n, d)"
  using assms by (simp add: quotient_of_Fract normalize_stable flip: Fract_of_int_quotient)

lemma s64_word_product: "in_s32 n \<Longrightarrow> in_u32 d \<Longrightarrow> s64 (n * d) = n * d"
  by (simp add: s64_id in_s64_word_mult)

lemma compare_lword_sgn: "compare_lword a b = sgn (a - b)"
  by (simp add: compare_lword_def sgn_if)

context gmp_iface
begin

lemma mpq_only:
  assumes "fr_inv G f" and "\<not> wordPartValid f"
  obtains q where "mpqPartValid f" "fr_mpq f = Some q" "read_mpq f = Inr q" "canonical G q"
    "fr_val G f = qval G q"
  using assms by (auto simp: fr_inv_def fr_val_def read_mpq_def)

section \<open>Comparisons\<close>

lemma op_eq_ok:
  assumes a: "fr_inv G a" and b: "fr_inv G b"
  shows "decides G (fr_val G a = fr_val G b) a b (op_eq G a b)"
proof (cases "wordPartValid a \<and> wordPartValid b")
  case True
  then show ?thesis
    using a b word_values_eq [OF fr_inv_word_ok [OF a] fr_inv_word_ok [OF b]]
    by (auto simp: op_eq_def decides_def cached_refl fr_val_word)
next
  case False
  obtain a' p b' q where "force2 G a b = Inr (a', p, b', q)" "cached G a a'" "cached G b b'"
      "canonical G p" "canonical G q" "qval G p = fr_val G a" "qval G q = fr_val G b"
    using force2_ok [OF a b] .
  with False show ?thesis
    using equal [of p q] by (auto simp: op_eq_def decides_def)
qed

text \<open>The sign of the result of \<open>compare\<close> is that of the difference of the values.\<close>

lemma compare_ok:
  assumes a: "fr_inv G a" and b: "fr_inv G b"
  obtains c where "decides G c a b (compare G a b)"
    "sgn c = (if fr_val G a < fr_val G b then -1 else if fr_val G b < fr_val G a then 1 else 0)"
proof (cases "wordPartValid a \<and> wordPartValid b")
  case True
  define c where "c = (if fr_den b = fr_den a then compare_lword (fr_num a) (fr_num b)
      else compare_lword (s64 (fr_num a * fr_den b)) (s64 (fr_num b * fr_den a)))"
  have w: "word_ok (fr_num a) (fr_den a)" "word_ok (fr_num b) (fr_den b)"
    using True a b by (simp_all add: fr_inv_word_ok)
  have "c = sgn (fr_num a * fr_den b - fr_num b * fr_den a)"
    using word_okD [OF w(1)] word_okD [OF w(2)]
    by (simp add: c_def compare_lword_sgn s64_word_product sgn_mult flip: left_diff_distrib)
  then have s: "sgn c = (if fr_val G a < fr_val G b then -1 else if fr_val G b < fr_val G a then 1 else 0)"
    using compare_words(1) [OF w] compare_words(1) [OF w(2,1)] True
    by (simp add: fr_val_word)
  moreover have "decides G c a b (compare G a b)"
    using True a b by (simp add: c_def compare_def decides_def cached_refl)
  ultimately show ?thesis
    using that by blast
next
  case False
  obtain a' p b' q where "force2 G a b = Inr (a', p, b', q)" "cached G a a'" "cached G b b'"
      "canonical G p" "canonical G q" "qval G p = fr_val G a" "qval G q = fr_val G b"
    using force2_ok [OF a b] .
  with False show ?thesis
    using cmp [of p q] by (intro that [of "mpq_cmp G p q"]) (auto simp: compare_def decides_def)
qed

lemma order_ok:
  assumes a: "fr_inv G a" and b: "fr_inv G b"
  shows "decides G (fr_val G a < fr_val G b) a b (op_less G a b)"
    and "decides G (fr_val G a \<le> fr_val G b) a b (op_leq G a b)"
    and "decides G (fr_val G a > fr_val G b) a b (op_greater G a b)"
    and "decides G (fr_val G a \<ge> fr_val G b) a b (op_geq G a b)"
    and "decides G (fr_val G a \<noteq> fr_val G b) a b (op_neq G a b)"
proof -
  obtain c where c: "decides G c a b (compare G a b)"
    "sgn c = (if fr_val G a < fr_val G b then -1 else if fr_val G b < fr_val G a then 1 else 0)"
    using compare_ok [OF a b] .
  have s: "c < 0 \<longleftrightarrow> fr_val G a < fr_val G b" "c > 0 \<longleftrightarrow> fr_val G a > fr_val G b"
    using c(2) by (auto simp: sgn_if split: if_splits)
  have "c \<le> 0 \<longleftrightarrow> fr_val G a \<le> fr_val G b" "c \<ge> 0 \<longleftrightarrow> fr_val G a \<ge> fr_val G b"
    using s by (simp_all flip: not_less)
  with s c(1) show "decides G (fr_val G a < fr_val G b) a b (op_less G a b)"
    and "decides G (fr_val G a \<le> fr_val G b) a b (op_leq G a b)"
    and "decides G (fr_val G a > fr_val G b) a b (op_greater G a b)"
    and "decides G (fr_val G a \<ge> fr_val G b) a b (op_geq G a b)"
    by (auto simp: op_less_def op_leq_def op_greater_def op_geq_def decides_def split: sum.splits)
  show "decides G (fr_val G a \<noteq> fr_val G b) a b (op_neq G a b)"
    using op_eq_ok [OF a b] by (auto simp: op_neq_def decides_def split: sum.splits)
qed

section \<open>Sign, zero, integrality\<close>

lemma fr_sign_ok:
  assumes "fr_inv G f"
  shows "fr_sign G f = Inr (if fr_val G f < 0 then -1 else if fr_val G f > 0 then 1 else 0)"
proof (cases "wordPartValid f")
  case True
  then show ?thesis
    using fr_inv_word_ok [OF assms True]
    by (simp add: fr_sign_def fr_val_word word_ok_def divide_less_0_iff zero_less_divide_iff)
next
  case False
  obtain q where "mpqPartValid f" "read_mpq f = Inr q" "canonical G q" "fr_val G f = qval G q"
    using mpq_only [OF assms False] .
  with False show ?thesis
    by (simp add: fr_sign_def sgn qval_def canonical_def divide_less_0_iff zero_less_divide_iff sgn_if)
qed

lemma isZero_ok:
  assumes "fr_inv G f"
  shows "isZero G f = Inr (fr_val G f = 0)"
proof (cases "wordPartValid f")
  case True
  then show ?thesis
    using word_val_zero [OF assms True] by (simp add: isZero_def)
next
  case False
  obtain q where "read_mpq f = Inr q" "canonical G q" "fr_val G f = qval G q"
    using mpq_only [OF assms False] .
  with False show ?thesis
    using canonical_nonzero [of q] by (simp add: isZero_def sgn sgn_0_0)
qed

lemma isInteger_ok:
  assumes "fr_inv G f"
  shows "isInteger G f = Inr (fr_val G f \<in> \<int>)"
proof (cases "wordPartValid f")
  case True
  then show ?thesis
    using fr_inv_word_ok [OF assms True] by (simp add: isInteger_def fr_val_word word_ok_def fraction_int)
next
  case False
  obtain q where q: "mpqPartValid f" "read_mpq f = Inr q" "canonical G q" "fr_val G f = qval G q"
    using mpq_only [OF assms False] .
  have "mpz_fits_uint_p G d \<and> mpz_get_ui G d = 1 \<longleftrightarrow> d = 1" for d
    using get_ui [of d] by (auto simp: fits_uint in_u32_def)
  with False q show ?thesis
    by (simp add: isInteger_def qval_def canonical_def fraction_int)
qed

section \<open>Negation, absolute value, inverse\<close>

lemma word_uword_coprime:
  assumes "word_ok n d" and "in_s32 (- n)"
  shows "FastRational_word_uword (- n) d =
    Inr \<lparr>fr_state = WORD_VALID, fr_num = - n, fr_den = if n = 0 then 1 else d, fr_mpq = None\<rparr>"
proof -
  note w = word_okD [OF assms(1)]
  have "in_u32 \<bar>n\<bar>"
    using assms w by (auto simp: in_s32_def in_u32_def)
  then have "u32 (if - n > 0 then - n else s32 (- (- n))) = \<bar>n\<bar>"
    using w by (auto simp: width_simps)
  moreover have "s32 1 = 1" "u32 1 = 1"
    by (simp_all add: width_simps in_s32_def in_u32_def)
  ultimately show ?thesis
    using w assms(2) by (simp add: FastRational_word_uword_def Let_def gcd_t_eq s32_id coprime_iff_gcd_eq_1)
qed

lemma negated_mpq:
  assumes "canonical G q"
  shows "fr_inv G \<lparr>fr_state = MPQ_ALLOCATED_AND_VALID, fr_num = n, fr_den = d, fr_mpq = Some (mpq_neg G q)\<rparr>"
    "fr_val G \<lparr>fr_state = MPQ_ALLOCATED_AND_VALID, fr_num = n, fr_den = d, fr_mpq = Some (mpq_neg G q)\<rparr> =
      - qval G q"
  using neg [OF assms] by (auto simp: fr_inv_def fr_val_def frat_simps)

lemma negated_mpq_update:
  assumes "canonical G q"
  shows "fr_inv G (g\<lparr>fr_mpq := Some (mpq_neg G q), fr_state := MPQ_ALLOCATED_AND_VALID\<rparr>)"
    "fr_val G (g\<lparr>fr_mpq := Some (mpq_neg G q), fr_state := MPQ_ALLOCATED_AND_VALID\<rparr>) = - qval G q"
  using neg [OF assms] by (auto simp: fr_inv_def fr_val_def frat_simps)

lemma op_neg_ok:
  assumes "fr_inv G f"
  shows "exact2 G (- fr_val G f) f (op_neg G f)"
proof (cases "wordPartValid f \<and> fr_num f > - 2147483648")
  case True
  then have w: "word_ok (fr_num f) (fr_den f)"
    using assms by (simp add: fr_inv_word_ok)
  then have "in_s32 (- fr_num f)"
    using True by (auto simp: word_ok_def in_s32_def)
  moreover have "fr_num f = 0 \<Longrightarrow> fr_den f = 1"
    using w by (auto simp: word_ok_def)
  ultimately show ?thesis
    using True w assms word_okD [OF w]
    by (auto simp: op_neg_def s32_id word_uword_coprime exact2_def cached_refl fr_inv_def fr_val_def
        frat_simps word_ok_def)
next
  case False
  obtain f' q where "ensure_mpq_valid G f = Inr f'" "read_mpq f' = Inr q" "cached G f f'"
      "canonical G q" "qval G q = fr_val G f"
    using ensure_mpq_valid_ok [OF assms] by metis
  with False show ?thesis
    using negated_mpq [of q] by (auto simp: op_neg_def exact2_def)
qed

lemma fr_negate_ok:
  assumes "fr_inv G f"
  shows "exact1 G (- fr_val G f) (fr_negate G f)"
proof (cases "wordPartValid f \<and> fr_num f > - 2147483648")
  case True
  then have w: "word_ok (fr_num f) (fr_den f)"
    using assms by (simp add: fr_inv_word_ok)
  then have "in_s32 (- fr_num f)"
    using True by (auto simp: word_ok_def in_s32_def)
  then show ?thesis
    using True w assms word_okD [OF w]
    by (auto simp: fr_negate_def s32_id exact1_def fr_inv_def fr_val_def setMpqPartInvalid_def
        frat_simps word_ok_def)
next
  case False
  obtain f' q where f': "ensure_mpq_valid G f = Inr f'" "read_mpq f' = Inr q" "cached G f f'"
      "canonical G q" "qval G q = fr_val G f" "mpqPartValid f'"
    using ensure_mpq_valid_ok [OF assms] by metis
  with False f' show ?thesis
    using negated_mpq_update [of q] by (auto simp: fr_negate_def exact1_def setWordPartInvalid_def frat_simps)
qed

lemma fr_abs_ok:
  assumes "fr_inv G f"
  shows "exact2 G \<bar>fr_val G f\<bar> f (fr_abs G f)"
proof (cases "fr_val G f < 0")
  case True
  then show ?thesis
    using op_neg_ok [OF assms] by (simp add: fr_abs_def fr_sign_ok [OF assms])
next
  case False
  obtain y where "FastRational_copy G f = Inr y" "fr_inv G y" "fr_val G y = fr_val G f"
    using copy_ok [OF assms] .
  with False show ?thesis
    by (simp add: fr_abs_def fr_sign_ok [OF assms] exact2_word assms)
qed

lemma fr_val_parts:
  assumes "fr_inv G f"
  shows "wordPartValid f \<Longrightarrow> quotient_of (fr_val G f) = (fr_num f, fr_den f)"
    and "\<not> wordPartValid f \<Longrightarrow> quotient_of (fr_val G f) =
      (mpq_numref G (the (fr_mpq f)), mpq_denref G (the (fr_mpq f)))"
  using assms by (auto simp: fr_inv_def fr_val_def word_ok_def fraction_parts qval_def canonical_def)

lemma exact1_num: "exact1 G (of_int z) (Inr (FastRational_mpz G z))"
  by (simp add: exact1_def fr_inv_mpz fr_val_mpz)

lemma get_num_ok:
  assumes "fr_inv G f"
  shows "exact1 G (of_int (fst (quotient_of (fr_val G f)))) (get_num G f)"
proof (cases "wordPartValid f")
  case True
  then show ?thesis
    using fr_inv_word_ok [OF assms True] fr_val_parts(1) [OF assms True]
    by (simp add: get_num_def exact1_def fr_inv_word fr_val_word_ctor word_ok_def)
next
  case False
  obtain q where "fr_mpq f = Some q" "read_mpq f = Inr q"
    using mpq_only [OF assms False] .
  with False show ?thesis
    using fr_val_parts(2) [OF assms False] exact1_num by (simp add: get_num_def)
qed

text \<open>
  \<open>get_den\<close> needs a denominator below 2^31 or a valid GMP part: otherwise it reads a
  GMP part that does not exist.
\<close>

lemma get_den_ok:
  assumes "fr_inv G f" and den: "wordPartValid f \<Longrightarrow> fr_den f \<le> 2147483647 \<or> mpqPartValid f"
  shows "exact1 G (of_int (snd (quotient_of (fr_val G f)))) (get_den G f)"
proof (cases "wordPartValid f \<and> fr_den f \<le> 2147483647")
  case True
  then show ?thesis
    using fr_inv_word_ok [OF assms(1)] fr_val_parts(1) [OF assms(1)]
    by (auto simp: get_den_def exact1_def fr_inv_uint32 fr_val_uint32 word_ok_def)
next
  case False
  then have "mpqPartValid f"
    using assms by (auto simp: fr_inv_def)
  then obtain q where q: "fr_mpq f = Some q" "read_mpq f = Inr q" "wordPartValid f \<Longrightarrow> mpq_denref G q = fr_den f"
    using assms(1) by (auto simp: fr_inv_def read_mpq_def)
  then have "snd (quotient_of (fr_val G f)) = mpq_denref G q"
    using fr_val_parts [OF assms(1)] by (cases "wordPartValid f") simp_all
  with False q show ?thesis
    using exact1_num by (auto simp: get_den_def)
qed

lemma default_word_ok:
  assumes "frac_is v nd"
  shows "fr_inv G (FastRational_default\<lparr>fr_num := fst nd, fr_den := snd nd\<rparr>)"
    "fr_val G (FastRational_default\<lparr>fr_num := fst nd, fr_den := snd nd\<rparr>) = v"
  using assms by (auto simp: fr_inv_def fr_val_def frac_is_def FastRational_default_def frat_simps)

lemma fr_inverse_ok:
  assumes f: "fr_inv G f" and nz: "fr_val G f \<noteq> 0"
  shows "exact2 G (1 / fr_val G f) f (fr_inverse G f)"
proof -
  define over where "over = rbind (ensure_mpq_valid G f) (\<lambda>f'. rbind (read_mpq f') (\<lambda>q.
        case mpq_inv G q of None \<Rightarrow> Inl Division_By_Zero
        | Some r \<Rightarrow> Inr ((ensure_mpq_memory_allocated G FastRational_default)
            \<lparr>fr_mpq := Some r, fr_state := MPQ_ALLOCATED_AND_VALID\<rparr>, f')))"
  obtain f' q where f': "ensure_mpq_valid G f = Inr f'" "read_mpq f' = Inr q" "cached G f f'"
      "canonical G q" "qval G q = fr_val G f"
    using ensure_mpq_valid_ok [OF f] by metis
  obtain r where r: "mpq_inv G q = Some r" "canonical G r" "qval G r = 1 / fr_val G f"
    using inv [OF f'(4)] canonical_nonzero [OF f'(4)] f'(5) nz by auto
  with f' have over: "exact2 G (1 / fr_val G f) f over"
    by (simp add: over_def exact2_def) (simp add: fr_inv_def fr_val_def frat_simps)
  show ?thesis
  proof (cases "wordPartValid f")
    case True
    note w = word_okD [OF fr_inv_word_ok [OF assms(1) True]]
    have nz': "fr_num f \<noteq> 0"
      using word_val_zero [OF assms(1) True] nz by simp
    have s: "s64 (- fr_den f) = - fr_den f" "s64 (- fr_num f) = - fr_num f"
      using w by (simp_all add: s64_id in_s64_def in_s32_def in_u32_def)
    have "path_all (frac_is (1 / fr_val G f)) (if fr_num f > 0
        then pbind (CHECK_WORD (fr_den f)) (\<lambda>zn. pbind (CHECK_UWORD (fr_num f)) (\<lambda>zd. Fits (zn, zd)))
        else pbind (CHECK_WORD (s64 (- fr_den f))) (\<lambda>zn.
          pbind (CHECK_UWORD (s64 (- fr_num f))) (\<lambda>zd. Fits (zn, zd))))"
      unfolding s using w nz' True
      by (auto intro!: path_rules frac_isI simp: in_u64_def in_s32_def coprime_commute fr_val_word)
    then have "exact2 G (1 / fr_val G f) f (run_path (if fr_num f > 0
        then pbind (CHECK_WORD (fr_den f)) (\<lambda>zn. pbind (CHECK_UWORD (fr_num f)) (\<lambda>zd. Fits (zn, zd)))
        else pbind (CHECK_WORD (s64 (- fr_den f))) (\<lambda>zn.
          pbind (CHECK_UWORD (s64 (- fr_num f))) (\<lambda>zd. Fits (zn, zd))))
        (\<lambda>nd. Inr (FastRational_default\<lparr>fr_num := fst nd, fr_den := snd nd\<rparr>, f)) over)"
      by (rule run_path_all)
        (use f over in \<open>auto intro: exact2_word default_word_ok\<close>)
    then show ?thesis
      using True nz' by (simp add: fr_inverse_def over_def Let_def)
  qed (use over in \<open>simp add: fr_inverse_def over_def Let_def\<close>)
qed

section \<open>Rounding\<close>

lemma ceil_word:
  assumes "word_ok n d" and "d \<noteq> 1"
  shows "(let r = s32 ((if n > 0 then n else u32 (s32 (- n))) div d)
          in if n < 0 then s32 (- r) else s32 (r + 1)) = \<lceil>of_int n / of_int d :: rat\<rceil>"
    and "in_s32 \<lceil>of_int n / of_int d :: rat\<rceil>"
proof -
  note w = word_okD [OF assms(1)]
  have d: "2 \<le> d"
    using w assms by simp
  have nz: "n \<noteq> 0"
    using w d by auto
  have "u32 (s32 (- n)) = - n" if "n < 0"
    using absVal32_eq [OF w(1)] that by (simp add: absVal32_def)
  then have m: "(if n > 0 then n else u32 (s32 (- n))) = \<bar>n\<bar>"
    using nz by simp
  have "\<bar>n\<bar> \<le> 2147483648"
    using w by (auto simp: in_s32_def)
  then have "\<bar>n\<bar> div d \<le> 2147483648 div d"
    using d by (simp add: zdiv_mono1)
  also have "\<dots> \<le> 2147483648 div 2"
    using d by (intro zdiv_mono2) auto
  finally have q: "0 \<le> \<bar>n\<bar> div d" "\<bar>n\<bar> div d \<le> 1073741824"
    using d by (simp_all add: pos_imp_zdiv_nonneg_iff)
  have ceil: "\<lceil>of_int n / of_int d :: rat\<rceil> = (if n < 0 then - (\<bar>n\<bar> div d) else n div d + 1)"
  proof (cases "n < 0")
    case True
    have "\<lfloor>- (of_int n / of_int d :: rat)\<rfloor> = (- n) div d"
      using floor_divide_of_int_eq [of "- n" d, where 'a = rat] by simp
    with True show ?thesis
      by (simp add: ceiling_def)
  next
    case False
    have "\<not> d dvd n"
      using w d coprime_common_divisor [of n d d] by auto
    then have "(- n) div d = - (n div d) - 1"
      using w by (simp add: zdiv_zminus1_eq_if dvd_eq_mod_eq_0)
    moreover have "\<lfloor>- (of_int n / of_int d :: rat)\<rfloor> = (- n) div d"
      using floor_divide_of_int_eq [of "- n" d, where 'a = rat] by simp
    ultimately show ?thesis
      using False by (simp add: ceiling_def)
  qed
  show "in_s32 \<lceil>of_int n / of_int d :: rat\<rceil>"
    using q ceil by (auto simp: in_s32_def)
  show "(let r = s32 ((if n > 0 then n else u32 (s32 (- n))) div d)
          in if n < 0 then s32 (- r) else s32 (r + 1)) = \<lceil>of_int n / of_int d :: rat\<rceil>"
    unfolding m ceil using q nz by (auto simp: Let_def s32_id in_s32_def)
qed

lemma fr_ceil_ok:
  assumes f: "fr_inv G f"
  shows "exact1 G (of_int \<lceil>fr_val G f\<rceil>) (fr_ceil G f)"
proof (cases "fr_val G f \<in> \<int>")
  case True
  obtain y where "FastRational_copy G f = Inr y" "fr_inv G y" "fr_val G y = fr_val G f"
    using copy_ok [OF f] .
  moreover have "of_int \<lceil>fr_val G f\<rceil> = fr_val G f"
    using True by (auto elim: Ints_cases)
  ultimately show ?thesis
    using True by (simp add: fr_ceil_def isInteger_ok [OF f] exact1_def)
next
  case int: False
  show ?thesis
  proof (cases "wordPartValid f")
    case True
    note w = fr_inv_word_ok [OF f True]
    have d: "fr_den f \<noteq> 1" "fr_den f \<noteq> 0"
      using int True w by (auto simp: fr_val_word word_ok_def)
    then show ?thesis
      using ceil_word [OF w d(1)] int True
      by (auto simp: fr_ceil_def isInteger_ok [OF f] exact1_def Let_def fr_val_word fr_inv_word
          fr_val_word_ctor split: if_splits)
  next
    case False
    obtain q where q: "read_mpq f = Inr q" "canonical G q" "fr_val G f = qval G q"
      using mpq_only [OF f False] .
    then have "mpz_cdiv_q G (mpq_numref G q) (mpq_denref G q) = Some \<lceil>fr_val G f\<rceil>"
      by (simp add: cdiv_q canonical_def qval_def)
    with False q int show ?thesis
      using exact1_num by (simp add: fr_ceil_def isInteger_ok [OF f])
  qed
qed

lemma fr_ceil_den:
  assumes f: "fr_inv G f" and "fr_val G f \<notin> \<int>" and "fr_ceil G f = Inr c" and "wordPartValid c"
  shows "fr_den c = 1"
proof -
  have "fr_inv G c" "fr_val G c = of_int \<lceil>fr_val G f\<rceil>"
    using fr_ceil_ok [OF f] assms(3) by (simp_all add: exact1_def)
  then show ?thesis
    using fr_val_parts(1) [of c] assms(4) by simp
qed

lemma no_lword_overflow_int:
  assumes "fr_inv G c" "wordPartValid c" "fr_den c = 1"
  shows "no_lword_overflow c (FastRational_word 1)"
  using assms by (auto simp: no_lword_overflow_def fr_inv_def word_ok_def FastRational_word_def
      in_s32_def in_s64_def)

lemma fr_floor_ok:
  assumes f: "fr_inv G f"
  shows "exact1 G (of_int \<lfloor>fr_val G f\<rfloor>) (fr_floor G f)"
proof (cases "fr_val G f \<in> \<int>")
  case True
  obtain y where "FastRational_copy G f = Inr y" "fr_inv G y" "fr_val G y = fr_val G f"
    using copy_ok [OF f] .
  moreover have "of_int \<lfloor>fr_val G f\<rfloor> = fr_val G f"
    using True by (auto elim: Ints_cases)
  ultimately show ?thesis
    using True by (simp add: fr_floor_def isInteger_ok [OF f] exact1_def)
next
  case False
  obtain c where c: "fr_ceil G f = Inr c" "fr_inv G c" "fr_val G c = of_int \<lceil>fr_val G f\<rceil>"
    using fr_ceil_ok [OF f] by (rule exact1E)
  have one: "fr_inv G (FastRational_word 1)" "fr_val G (FastRational_word 1) = 1"
    by (simp_all add: fr_inv_word fr_val_word_ctor in_s32_def)
  have "exact3 G (fr_val G c - fr_val G (FastRational_word 1)) c (FastRational_word 1)
      (op_minus G c (FastRational_word 1))"
    using c one no_lword_overflow_int [OF c(2)] fr_ceil_den [OF f False c(1)]
    by (intro op_minus_ok) auto
  moreover have "\<lceil>fr_val G f\<rceil> = \<lfloor>fr_val G f\<rfloor> + 1"
    using False by (auto simp: ceiling_altdef) (metis Ints_of_int)
  ultimately show ?thesis
    using False c one by (auto simp: fr_floor_def isInteger_ok [OF f] exact1_def elim!: exact3E)
qed

section \<open>Integer functions\<close>

text \<open>The floor division of two words in the code, with its correction of the quotient.\<close>

lemma sdiv_floor:
  fixes n d :: int
  assumes "d \<noteq> 0"
  shows "(if n smod d \<noteq> 0 \<and> ((n < 0 \<and> d \<ge> 0) \<or> (d < 0 \<and> n \<ge> 0)) then n sdiv d - 1 else n sdiv d) =
    n div d"
proof (cases "d dvd n")
  case True
  then have "n smod d = 0"
    by (simp add: smod_int_alt_def)
  with True show ?thesis
    by (simp add: sdiv_dvd)
next
  case False
  then have nz: "n smod d \<noteq> 0" "n \<noteq> 0"
    using sdiv_mult_smod_eq [of n d] by (metis add_0_right dvd_triv_right, metis dvd_0_right)
  define c where "c \<longleftrightarrow> (n < 0 \<and> d \<ge> 0) \<or> (d < 0 \<and> n \<ge> 0)"
  have "sgn n \<noteq> sgn d \<longleftrightarrow> c"
    using nz assms by (auto simp: sgn_if c_def)
  then have "n div d = n sdiv d - of_bool c"
    using False assms by (simp only: divide_int_eq_signed_divide_int) simp
  then show ?thesis
    unfolding c_def [symmetric] using nz by (cases c) simp_all
qed

lemma fdiv_q_word_ok:
  assumes "in_s32 n" and "in_s32 d" and "d \<noteq> 0"
  shows "path_all (\<lambda>z. z = n div d \<and> in_s32 z) (fdiv_q_word n d)"
proof (cases "n = - 2147483648")
  case False
  then have "\<bar>n\<bar> \<le> 2147483647"
    using assms by (auto simp: in_s32_def)
  then have "- 2147483647 \<le> n sdiv d" "n sdiv d \<le> 2147483647"
    using sdiv_int_range [of n d] by auto
  then have "s32 (n sdiv d) = n sdiv d" "s32 (n sdiv d - 1) = n sdiv d - 1"
      "in_s32 (n sdiv d)" "in_s32 (n sdiv d - 1)"
    by (simp_all add: s32_id in_s32_def)
  moreover note sdiv_floor [OF assms(3), of n]
  ultimately show ?thesis
    using False assms by (auto simp: fdiv_q_word_def div_path_def split: if_splits)
qed (simp add: fdiv_q_word_def)

lemma integer_parts:
  assumes "fr_inv G f" and "fr_val G f \<in> \<int>"
  shows "fr_val G f = of_int \<lfloor>fr_val G f\<rfloor>"
    and "wordPartValid f \<Longrightarrow> fr_num f = \<lfloor>fr_val G f\<rfloor> \<and> fr_den f = 1 \<and> in_s32 (fr_num f)"
proof -
  show v: "fr_val G f = of_int \<lfloor>fr_val G f\<rfloor>"
    using assms(2) by (auto elim: Ints_cases)
  then have "quotient_of (fr_val G f) = (\<lfloor>fr_val G f\<rfloor>, 1)"
    using fraction_parts [of 1 "\<lfloor>fr_val G f\<rfloor>"] by simp
  then show "wordPartValid f \<Longrightarrow> fr_num f = \<lfloor>fr_val G f\<rfloor> \<and> fr_den f = 1 \<and> in_s32 (fr_num f)"
    using fr_val_parts(1) [OF assms(1)] fr_inv_word_ok [OF assms(1)] by (simp add: word_ok_def)
qed

lemma numref_integer:
  assumes "canonical G q" and "qval G q \<in> \<int>"
  shows "mpq_numref G q = \<lfloor>qval G q\<rfloor>"
  using assms fraction_int [of "mpq_denref G q" "mpq_numref G q"] by (simp add: canonical_def qval_def)

lemma force2_integers:
  assumes "fr_inv G a" "fr_inv G b" "fr_val G a \<in> \<int>" "fr_val G b \<in> \<int>"
  obtains a' p b' q where "force2 G a b = Inr (a', p, b', q)" "cached G a a'" "cached G b b'"
    "mpq_numref G p = \<lfloor>fr_val G a\<rfloor>" "mpq_numref G q = \<lfloor>fr_val G b\<rfloor>"
    "mpqPartValid a'" "mpqMemoryAllocated a'" "mpqPartValid b'" "mpqMemoryAllocated b'"
  using force2_ok [OF assms(1,2)] assms(3,4) numref_integer by metis

lemma fastrat_fdiv_q_rvalue_ok:
  assumes n: "fr_inv G n" "fr_val G n \<in> \<int>" and d: "fr_inv G d" "fr_val G d \<in> \<int>" "fr_val G d \<noteq> 0"
  shows "exact1 G (of_int (\<lfloor>fr_val G n\<rfloor> div \<lfloor>fr_val G d\<rfloor>)) (fastrat_fdiv_q_rvalue G n d)"
proof -
  obtain n' p d' q where F: "force2 G n d = Inr (n', p, d', q)"
      "mpq_numref G p = \<lfloor>fr_val G n\<rfloor>" "mpq_numref G q = \<lfloor>fr_val G d\<rfloor>"
    using force2_integers [OF n(1) d(1) n(2) d(2)] by metis
  have nz: "\<lfloor>fr_val G d\<rfloor> \<noteq> 0"
    using integer_parts(1) [OF d(1,2)] d(3) by auto
  note start = isInteger_ok [OF n(1)] isInteger_ok [OF d(1)] n(2) d(2)
  show ?thesis
  proof (cases "wordPartValid n \<and> wordPartValid d")
    case True
    then have "path_all (\<lambda>z. z = \<lfloor>fr_val G n\<rfloor> div \<lfloor>fr_val G d\<rfloor> \<and> in_s32 z)
        (fdiv_q_word (fr_num n) (fr_num d))"
      using integer_parts(2) [OF n] integer_parts(2) [OF d(1,2)] fdiv_q_word_ok [of "fr_num n" "fr_num d"] nz
      by metis
    with True F show ?thesis
      using exact1_num
      by (cases "fdiv_q_word (fr_num n) (fr_num d)")
        (auto simp: fastrat_fdiv_q_rvalue_def start fdiv_q nz exact1_def fr_inv_word fr_val_word_ctor)
  next
    case False
    with F show ?thesis
      using exact1_num by (auto simp: fastrat_fdiv_q_rvalue_def start fdiv_q nz)
  qed
qed

text \<open>
  \<open>gcd\<close>: two non-negative words, or two operands without a valid word part. One word
  and one GMP operand trip an assertion of \<open>try_fit_word\<close>.
\<close>

lemma in_s32_gcd:
  assumes "in_s32 m" "in_s32 n" "0 \<le> m" "0 \<le> n"
  shows "in_s32 (gcd m n)"
proof (cases "m = 0")
  case False
  then have "gcd m n \<le> m"
    using assms by (intro zdvd_imp_le) auto
  then show ?thesis
    using assms gcd_ge_0_int [of m n] unfolding in_s32_def by linarith
qed (use assms in simp)

lemma try_fit_word_cached:
  assumes "fr_inv G f" "\<not> wordPartValid f"
  shows "\<exists>f'. try_fit_word G f = Inr f' \<and> fr_inv G f' \<and> fr_val G f' = fr_val G f"
proof -
  obtain q where q: "mpqPartValid f" "fr_mpq f = Some q" "canonical G q" "fr_val G f = qval G q"
    using mpq_only [OF assms] .
  then have "mpqMemoryAllocated f"
    using assms by (simp add: fr_inv_def)
  then show ?thesis
    using try_fit_word_ok [of f q] q assms(2) by metis
qed

lemma gcd_loop32_eq: "0 \<le> a \<Longrightarrow> 0 < b \<Longrightarrow> gcd_loop32 a b = Inr (gcd a b)"
proof (induction a b rule: gcd_loop32.induct)
  case (1 a b)
  then have r: "a smod b = a mod b"
    by (simp add: smod_nonneg)
  show ?case
  proof (cases "a mod b = 0")
    case True
    with 1 r show ?thesis
      by (subst gcd_loop32.simps) (simp add: gcd_red_int [of a b])
  next
    case False
    with 1 r have "gcd_loop32 b (a mod b) = Inr (gcd b (a mod b))"
      by (auto simp: order_less_le)
    with 1 r False show ?thesis
      by (subst gcd_loop32.simps) (simp add: gcd_red_int [of a b])
  qed
qed

lemma gcd_t32_eq: "0 \<le> a \<Longrightarrow> 0 \<le> b \<Longrightarrow> gcd_t32 a b = Inr (gcd a b)"
  by (auto simp: gcd_t32_def gcd_loop32_eq gcd.commute)

lemma fr_gcd_ok:
  assumes a: "fr_inv G a" "fr_val G a \<in> \<int>" and b: "fr_inv G b" "fr_val G b \<in> \<int>"
    and ok: "(wordPartValid a \<and> wordPartValid b \<and> 0 \<le> fr_val G a \<and> 0 \<le> fr_val G b) \<or>
      (\<not> wordPartValid a \<and> \<not> wordPartValid b)"
  shows "\<exists>d a' b'. fr_gcd G a b = Inr (d, a', b') \<and> fr_inv G d \<and>
    fr_val G d = of_int (gcd \<lfloor>fr_val G a\<rfloor> \<lfloor>fr_val G b\<rfloor>) \<and> fr_val G a' = fr_val G a \<and> fr_val G b' = fr_val G b"
proof -
  note start = isInteger_ok [OF a(1)] isInteger_ok [OF b(1)] a(2) b(2)
  from ok show ?thesis
  proof
    assume w: "wordPartValid a \<and> wordPartValid b \<and> 0 \<le> fr_val G a \<and> 0 \<le> fr_val G b"
    let ?m = "\<lfloor>fr_val G a\<rfloor>" and ?n = "\<lfloor>fr_val G b\<rfloor>"
    have i: "fr_num a = ?m" "fr_num b = ?n" "in_s32 ?m" "in_s32 ?n" "0 \<le> ?m" "0 \<le> ?n"
      using integer_parts(2) [OF a] integer_parts(2) [OF b] w by auto
    have "in_s32 (gcd ?m ?n)"
      using i(3-6) by (rule in_s32_gcd)
    then show ?thesis
      using w i by (auto simp: fr_gcd_def start gcd_t32_eq fr_inv_word fr_val_word_ctor)
  next
    assume w: "\<not> wordPartValid a \<and> \<not> wordPartValid b"
    obtain a' p b' q where F: "force2 G a b = Inr (a', p, b', q)" "cached G a a'" "cached G b b'"
        "mpq_numref G p = \<lfloor>fr_val G a\<rfloor>" "mpq_numref G q = \<lfloor>fr_val G b\<rfloor>"
      using force2_integers [OF a(1) b(1) a(2) b(2)] by metis
    obtain a'' where "try_fit_word G a' = Inr a''" "fr_val G a'' = fr_val G a"
      using try_fit_word_cached [of a'] F w by (auto simp: cached_def)
    moreover obtain b'' where "try_fit_word G b' = Inr b''" "fr_val G b'' = fr_val G b"
      using try_fit_word_cached [of b'] F w by (auto simp: cached_def)
    ultimately show ?thesis
      using F w by (auto simp: fr_gcd_def start z_gcd fr_inv_mpz fr_val_mpz)
  qed
qed

text \<open>\<open>operator%\<close> with a GMP part: the remainder of floor division.\<close>

lemma no_lword_overflow_ints:
  assumes "fr_inv G a" "fr_val G a \<in> \<int>" "fr_inv G b" "fr_val G b \<in> \<int>"
    and "wordPartValid a" "wordPartValid b"
  shows "no_lword_overflow a b"
  using integer_parts(2) [OF assms(1,2,5)] integer_parts(2) [OF assms(3,4,6)]
  by (auto simp: no_lword_overflow_def in_s32_def in_s64_def)

lemma op_mod_mpq_ok:
  assumes a: "fr_inv G a" "fr_val G a = of_int i" and d: "fr_inv G d" "fr_val G d = of_int j" "j \<noteq> 0"
    and cache: "mpqPartValid a \<or> mpqPartValid d"
  shows "exact3 G (of_int (i mod j)) a d (op_mod G a d)"
proof -
  have "exact3 G (fr_val G a / fr_val G d) a d (op_divide G a d)"
    using d by (intro op_divide_ok a d) simp
  then obtain r a1 d1 where r: "op_divide G a d = Inr (r, a1, d1)" "fr_inv G r"
      "fr_val G r = of_int i / of_int j" "cached G a a1" "cached G d d1"
    using a(2) d(2) by (metis exact3E)
  obtain q where q: "fr_floor G r = Inr q" "fr_inv G q" "fr_val G q = of_int (i div j)"
    using fr_floor_ok [OF r(2)] r(3) by (auto simp: floor_divide_of_int_eq elim: exact1E)
  have d1: "fr_inv G d1" "fr_val G d1 = of_int j" and a1: "fr_inv G a1" "fr_val G a1 = of_int i"
    using r a d by (simp_all add: cached_def)
  obtain t q' d2 where t: "op_times G q d1 = Inr (t, q', d2)" "fr_inv G t" "fr_val G t = of_int (i div j * j)"
      "cached G d1 d2"
    using op_times_ok [OF q(2) d1(1)] q(3) d1(2) by (auto elim: exact3E)
  have "exact3 G (fr_val G a1 - fr_val G t) a1 t (op_minus G a1 t)"
    using t a1 by (intro op_minus_ok no_lword_overflow_ints) simp_all
  moreover have "fr_val G a1 - fr_val G t = of_int (i mod j)"
    using a1 t by (simp add: minus_div_mult_eq_mod flip: of_int_mult of_int_diff)
  ultimately obtain r2 a2 t' where "op_minus G a1 t = Inr (r2, a2, t')" "fr_inv G r2"
      "fr_val G r2 = of_int (i mod j)" "cached G a1 a2"
    by (metis exact3E)
  with cache r q t show ?thesis
    using a d by (auto simp: op_mod_def isInteger_ok exact3_def intro: cached_trans)
qed

section \<open>Hash values\<close>

lemma getHashValue_cong:
  assumes "fr_inv G a" "fr_inv G b" "fr_val G a = fr_val G b" "wordPartValid a \<longleftrightarrow> wordPartValid b"
  shows "getHashValue G a = getHashValue G b"
proof (cases "wordPartValid a")
  case True
  then show ?thesis
    using assms fr_val_parts(1) [OF assms(1)] fr_val_parts(1) [OF assms(2)] by (simp add: getHashValue_def)
next
  case False
  then obtain p q where "read_mpq a = Inr p" "fr_mpq a = Some p" "read_mpq b = Inr q" "fr_mpq b = Some q"
    using mpq_only [OF assms(1)] mpq_only [OF assms(2)] assms(4) by metis
  with False show ?thesis
    using assms fr_val_parts(2) [OF assms(1)] fr_val_parts(2) [OF assms(2)] by (simp add: getHashValue_def)
qed

end

end
