(* ===== verification/Fast_Rational_Props.thy ===== *)
theory Fast_Rational_Props
  imports Fast_Rational_Query
begin

text \<open>
  The properties of \<open>FastRational\<close>, for every GMP implementation that meets the laws,
  with witnesses on the implementation by pairs of integers, and the inputs on which the
  code does not do what it means to.
\<close>

lemmas pair_laws = pair_gmp.gmp_iface_axioms

section \<open>Sample numbers\<close>

lemma fr_inv_sample:
  "in_s32 n \<Longrightarrow> in_u32 d \<Longrightarrow> 0 < d \<Longrightarrow> coprime n d \<Longrightarrow>
   fr_inv G \<lparr>fr_state = WORD_VALID, fr_num = n, fr_den = d, fr_mpq = None\<rparr>"
  by (auto simp: fr_inv_def frat_simps word_ok_def)

lemma fr_val_sample:
  "fr_val G \<lparr>fr_state = WORD_VALID, fr_num = n, fr_den = d, fr_mpq = None\<rparr> = of_int n / of_int d"
  by (simp add: fr_val_def frat_simps)

lemma fr_inv_sample_mpq:
  "0 < snd q \<Longrightarrow> coprime (fst q) (snd q) \<Longrightarrow>
   fr_inv pair_gmp \<lparr>fr_state = MPQ_ALLOCATED_AND_VALID, fr_num = n, fr_den = d, fr_mpq = Some q\<rparr>"
  by (auto simp: fr_inv_def frat_simps canonical_def)

lemma fr_val_sample_mpq:
  "fr_val pair_gmp \<lparr>fr_state = MPQ_ALLOCATED_AND_VALID, fr_num = n, fr_den = d, fr_mpq = Some q\<rparr> =
   of_int (fst q) / of_int (snd q)"
  by (simp add: fr_val_def frat_simps qval_def)

lemmas samples = fr_inv_sample fr_val_sample fr_inv_sample_mpq fr_val_sample_mpq

definition half :: "(int \<times> int) frat" where
  "half = \<lparr>fr_state = WORD_VALID, fr_num = 1, fr_den = 2, fr_mpq = None\<rparr>"

definition minus_seven_thirds :: "(int \<times> int) frat" where
  "minus_seven_thirds = \<lparr>fr_state = WORD_VALID, fr_num = - 7, fr_den = 3, fr_mpq = None\<rparr>"

definition big :: "(int \<times> int) frat" where
  "big = \<lparr>fr_state = MPQ_ALLOCATED_AND_VALID, fr_num = 0, fr_den = 0, fr_mpq = Some (1099511627776, 1)\<rparr>"

definition six :: "(int \<times> int) frat" where
  "six = FastRational_word 6"

lemma sample_facts:
  "fr_inv pair_gmp half" "fr_val pair_gmp half = 1 / 2"
  "fr_inv pair_gmp minus_seven_thirds" "fr_val pair_gmp minus_seven_thirds = - 7 / 3"
  "fr_inv pair_gmp big" "fr_val pair_gmp big = 1099511627776"
  "fr_inv pair_gmp six" "fr_val pair_gmp six = 6"
  by (simp_all add: half_def minus_seven_thirds_def big_def six_def FastRational_word_def samples
      in_s32_def in_u32_def coprime_iff_gcd_eq_1 gcd_non_0_int)

lemmas eval_frat = frat_simps isWellFormed_def checked_op_def Let_def gcd_t_eq gcd_non_0_int
  absVal32_eq absVal64_eq width_simps in_s32_def in_u32_def in_s64_def in_u64_def pbind.simps run_path_def
  CHECK_WORD_def CHECK_UWORD_def FastRational_default_def

section \<open>Exact arithmetic\<close>

text \<open>
  C4. \<open>operator+\<close> is exact: on two numbers that satisfy the class invariant it
  returns a number that satisfies the invariant and whose value is the sum, whether the word
  path or the GMP path computes it, and changes the operands at most by filling in their GMP
  part. No assertion or abort of the code is reached.
\<close>

theorem op_plus_exact:
  assumes "gmp_iface G" and "fr_inv G a" and "fr_inv G b"
  shows "exact3 G (fr_val G a + fr_val G b) a b (op_plus G a b)"
  using gmp_iface.op_plus_ok [OF assms(1)] assms by simp

theorem op_plus_exact_witness:
  "exact3 pair_gmp (- 11 / 6) half minus_seven_thirds (op_plus pair_gmp half minus_seven_thirds)"
  using op_plus_exact [OF pair_laws sample_facts(1,3)] by (simp add: sample_facts)

text \<open>
  C5. \<open>operator*\<close> is exact in the same sense, through its short cuts for 0 and 1, the
  cross-cancelling word path and the GMP path.
\<close>

theorem op_times_exact:
  assumes "gmp_iface G" and "fr_inv G a" and "fr_inv G b"
  shows "exact3 G (fr_val G a * fr_val G b) a b (op_times G a b)"
  using gmp_iface.op_times_ok [OF assms(1)] assms by simp

theorem op_times_exact_witness:
  "exact3 pair_gmp (- 7 / 6) half minus_seven_thirds (op_times pair_gmp half minus_seven_thirds)"
  using op_times_exact [OF pair_laws sample_facts(1,3)] by (simp add: sample_facts)

text \<open>
  C6. \<open>operator/\<close> is exact for every divisor other than zero.
\<close>

theorem op_divide_exact:
  assumes "gmp_iface G" and "fr_inv G a" and "fr_inv G b" and "fr_val G b \<noteq> 0"
  shows "exact3 G (fr_val G a / fr_val G b) a b (op_divide G a b)"
  using gmp_iface.op_divide_ok [OF assms(1)] assms by simp

theorem op_divide_exact_witness:
  "exact3 pair_gmp (- 3 / 14) half minus_seven_thirds (op_divide pair_gmp half minus_seven_thirds)"
  using op_divide_exact [OF pair_laws sample_facts(1,3)] by (simp add: sample_facts)

text \<open>
  C7. \<open>operator-\<close> is exact whenever the difference of the cross products fits into
  64 bits; on operands with a GMP part always.
\<close>

theorem op_minus_exact:
  assumes "gmp_iface G" and "fr_inv G a" and "fr_inv G b"
    and "wordPartValid a \<Longrightarrow> wordPartValid b \<Longrightarrow> no_lword_overflow a b"
  shows "exact3 G (fr_val G a - fr_val G b) a b (op_minus G a b)"
  using gmp_iface.op_minus_ok [OF assms(1)] assms by simp

theorem op_minus_exact_witness:
  "exact3 pair_gmp (17 / 6) half minus_seven_thirds (op_minus pair_gmp half minus_seven_thirds)"
proof -
  have "no_lword_overflow half minus_seven_thirds"
    by (simp add: no_lword_overflow_def half_def minus_seven_thirds_def in_s64_def)
  then show ?thesis
    using op_minus_exact [OF pair_laws sample_facts(1,3)] by (simp add: sample_facts)
qed

text \<open>
  Two numbers whose cross products differ by more than a 64-bit integer holds, and what
  \<open>operator-\<close> makes of them.
\<close>

definition wrap_left :: "(int \<times> int) frat" where
  "wrap_left = \<lparr>fr_state = WORD_VALID, fr_num = 2147483647, fr_den = 3221225472, fr_mpq = None\<rparr>"

definition wrap_right :: "(int \<times> int) frat" where
  "wrap_right = \<lparr>fr_state = WORD_VALID, fr_num = - 1852516361, fr_den = 3221225472, fr_mpq = None\<rparr>"

definition wrap_difference :: "(int \<times> int) frat" where
  "wrap_difference = \<lparr>fr_state = WORD_VALID, fr_num = - 647483645, fr_den = 1207959552, fr_mpq = None\<rparr>"

lemma wrap_facts:
  "fr_inv pair_gmp wrap_left" "fr_val pair_gmp wrap_left = 2147483647 / 3221225472"
  "fr_inv pair_gmp wrap_right" "fr_val pair_gmp wrap_right = - 1852516361 / 3221225472"
  "fr_val pair_gmp wrap_difference = - 647483645 / 1207959552"
  by (simp_all add: wrap_left_def wrap_right_def wrap_difference_def samples in_s32_def in_u32_def
      coprime_iff_gcd_eq_1 gcd_non_0_int)

lemma op_minus_wraps: "op_minus pair_gmp wrap_left wrap_right = Inr (wrap_difference, wrap_left, wrap_right)"
proof -
  have w: "s64 12884901913769803776 = -5561842159939747840"
    by (simp add: s64_def signed_take_bit_eq_take_bit_minus take_bit_eq_mod bit_iff_odd)
  have r: "reduce_sum (-5561842159939747840) 10376293541461622784 = Fits (- 647483645, 1207959552)"
    by (simp add: reduce_sum_def eval_frat)
  have s: "substraction_word wrap_left wrap_right = Fits (- 647483645, 1207959552)"
    by (simp add: wrap_left_def wrap_right_def substraction_word_def width_simps in_s64_def in_u64_def w r)
  have f: "wordPartValid wrap_left" "wordPartValid wrap_right" "isWellFormed pair_gmp wrap_left"
      "isWellFormed pair_gmp wrap_right" "isWellFormed pair_gmp wrap_difference"
      "store_word FastRational_default (- 647483645, 1207959552) = wrap_difference"
    by (simp_all add: wrap_left_def wrap_right_def wrap_difference_def isWellFormed_def frat_simps
        absVal32_eq in_s32_def gcd_t_eq gcd_non_0_int store_word_def kill_mpq_def FastRational_default_def)
  show ?thesis
    by (simp add: op_minus_def checked_op_def substraction_def run_path_def s f)
qed

text \<open>
  C8. Outside that range \<open>operator-\<close> is wrong: \<open>substraction\<close> has no
  \<open>CHECK_SUM_OVERFLOWS_LWORD\<close>, unlike \<open>addition\<close>, so the difference of the
  cross products wraps around and the code returns a negative number for a positive
  difference, here 2147483647/3221225472 minus -1852516361/3221225472.
\<close>

theorem op_minus_wrong_sign:
  "\<exists>a b d. fr_inv pair_gmp a \<and> fr_inv pair_gmp b \<and>
    op_minus pair_gmp a b = Inr (d, a, b) \<and>
    fr_val pair_gmp d < 0 \<and> 0 < fr_val pair_gmp a - fr_val pair_gmp b"
  by (intro exI [of _ wrap_left] exI [of _ wrap_right] exI [of _ wrap_difference])
    (simp add: op_minus_wraps wrap_facts)

text \<open>
  The assigning operators \<open>+=\<close>, \<open>-=\<close>, \<open>*=\<close> and \<open>/=\<close>
  are exact, \<open>-=\<close> without the restriction of \<open>operator-\<close>, because each cross
  product is checked against the word range before they are subtracted.
\<close>

theorem op_assign_exact:
  assumes "gmp_iface G" and "fr_inv G a" and "fr_inv G b"
  shows "exact2 G (fr_val G a + fr_val G b) b (op_plus_assign G a b) \<and>
    exact2 G (fr_val G a - fr_val G b) b (op_minus_assign G a b) \<and>
    exact2 G (fr_val G a * fr_val G b) b (op_times_assign G a b) \<and>
    (fr_val G b \<noteq> 0 \<longrightarrow> exact2 G (fr_val G a / fr_val G b) b (op_divide_assign G a b))"
  unfolding op_plus_assign_def op_minus_assign_def op_times_assign_def op_divide_assign_def
  by (intro conjI impI gmp_iface.checked_assign_ok gmp_iface.additionAssign_ok
      gmp_iface.substractionAssign_ok gmp_iface.multiplicationAssign_ok gmp_iface.divisionAssign_ok assms)

theorem op_assign_exact_witness:
  "exact2 pair_gmp (17 / 6) minus_seven_thirds (op_minus_assign pair_gmp half minus_seven_thirds) \<and>
   exact2 pair_gmp (- 3 / 14) minus_seven_thirds (op_divide_assign pair_gmp half minus_seven_thirds)"
  using op_assign_exact [OF pair_laws sample_facts(1,3)] by (simp add: sample_facts)

section \<open>Comparison and hashing\<close>

text \<open>
  C9. The five comparison operators decide the order and the equality of the values, on
  words by the cross products, which fit into 64 bits, and otherwise by GMP.
\<close>

theorem comparisons_decide:
  assumes "gmp_iface G" and "fr_inv G a" and "fr_inv G b"
  shows "decides G (fr_val G a < fr_val G b) a b (op_less G a b) \<and>
    decides G (fr_val G a \<le> fr_val G b) a b (op_leq G a b) \<and>
    decides G (fr_val G a > fr_val G b) a b (op_greater G a b) \<and>
    decides G (fr_val G a \<ge> fr_val G b) a b (op_geq G a b) \<and>
    decides G (fr_val G a = fr_val G b) a b (op_eq G a b) \<and>
    decides G (fr_val G a \<noteq> fr_val G b) a b (op_neq G a b)"
  by (intro conjI gmp_iface.order_ok gmp_iface.op_eq_ok assms)

theorem comparisons_decide_witness:
  "decides pair_gmp True minus_seven_thirds big (op_less pair_gmp minus_seven_thirds big) \<and>
   decides pair_gmp False half big (op_eq pair_gmp half big)"
  using comparisons_decide [OF pair_laws sample_facts(3,5)] comparisons_decide [OF pair_laws sample_facts(1,5)]
  by (simp add: sample_facts)

text \<open>
  Equal numbers hash alike when both have a word part or neither has: the contract of
  \<open>FastRationalHash\<close> in a hash map keyed by \<open>operator==\<close>.
\<close>

theorem hash_respects_equality:
  assumes "gmp_iface G" and "fr_inv G a" and "fr_inv G b"
    and "op_eq G a b = Inr (True, a', b')" and "wordPartValid a \<longleftrightarrow> wordPartValid b"
  shows "getHashValue G a = getHashValue G b"
proof -
  have "fr_val G a = fr_val G b"
    using gmp_iface.op_eq_ok [OF assms(1-3)] assms(4) by (simp add: decides_def)
  then show ?thesis
    using gmp_iface.getHashValue_cong [OF assms(1-3)] assms(5) by simp
qed

theorem hash_respects_equality_witness:
  "getHashValue pair_gmp half = getHashValue pair_gmp (setMpqAllocatedAndValid (half\<lparr>fr_mpq := Some (1, 2)\<rparr>))"
  by (rule hash_respects_equality [OF pair_laws sample_facts(1)])
    (auto simp: half_def op_eq_def frat_simps fr_inv_def word_ok_def in_s32_def in_u32_def canonical_def
      setMpqAllocatedAndValid_def bit_or_iff)

text \<open>
  The restriction matters: \<open>inverse\<close> leaves its GMP result out of the word form
  even where it fits, so the inverse of 2/2000000001 is equal by \<open>operator==\<close> to the
  number 2000000001/2 built as a word, but hashes differently.
\<close>

theorem inverse_breaks_hash:
  "\<exists>x f' y w. fr_inv pair_gmp x \<and> fr_inverse pair_gmp x = Inr (y, f') \<and>
    fr_inv pair_gmp y \<and> fr_inv pair_gmp w \<and> fr_val pair_gmp y = fr_val pair_gmp w \<and>
    getHashValue pair_gmp y = Inr 2001086011 \<and> getHashValue pair_gmp w = Inr 985556031"
proof -
  let ?x = "\<lparr>fr_state = WORD_VALID, fr_num = 2, fr_den = 2000000001, fr_mpq = None\<rparr> :: (int \<times> int) frat"
  let ?f = "\<lparr>fr_state = WORD_VALID OR MPQ_ALLOCATED_AND_VALID, fr_num = 2, fr_den = 2000000001,
    fr_mpq = Some (2, 2000000001)\<rparr> :: (int \<times> int) frat"
  let ?y = "\<lparr>fr_state = MPQ_ALLOCATED_AND_VALID, fr_num = 0, fr_den = 1, fr_mpq = Some (2000000001, 2)\<rparr>
    :: (int \<times> int) frat"
  let ?w = "\<lparr>fr_state = WORD_VALID, fr_num = 2000000001, fr_den = 2, fr_mpq = None\<rparr> :: (int \<times> int) frat"
  have inv: "fr_inv pair_gmp ?x" "fr_inv pair_gmp ?y" "fr_inv pair_gmp ?w" "fr_val pair_gmp ?y = fr_val pair_gmp ?w"
    by (simp_all add: samples in_s32_def in_u32_def coprime_iff_gcd_eq_1 gcd_non_0_int)
  have "ensure_mpq_valid pair_gmp ?x = Inr ?f"
    by (simp add: ensure_mpq_valid_def frat_simps read_mpq_def setMpqAllocatedAndValid_def)
  moreover have "mpq_inv pair_gmp (2, 2000000001) = Some (2000000001, 2)"
    by (simp add: Rat.normalize_def gcd_non_0_int Let_def)
  ultimately have "fr_inverse pair_gmp ?x = Inr (?y, ?f)"
    by (simp add: fr_inverse_def frat_simps CHECK_WORD_def run_path_def read_mpq_def
        FastRational_default_def ensure_mpq_memory_allocated_def setMpqMemoryAllocated_def)
  moreover have "getHashValue pair_gmp ?y = Inr 2001086011"
  proof -
    have "u32 (2166136261 * 16777619) = 84696351"
      by (simp add: u32_def take_bit_eq_mod)
    then have "hash_limbs [2000000001] = 1916389662" "hash_limbs [2] = 84696349"
      by (simp_all add: hash_limbs_def u32_id in_u32_def)
    then show ?thesis
      by (simp add: getHashValue_def frat_simps read_mpq_def u32_id in_u32_def)
  qed
  moreover have "getHashValue pair_gmp ?w = Inr 985556031"
    by (simp add: getHashValue_def frat_simps u32_def take_bit_eq_mod)
  ultimately show ?thesis
    using inv by blast
qed

section \<open>Negation, inverse, rounding\<close>

text \<open>
  Negation, absolute value and inverse are exact, \<open>INT_MIN\<close> included: its
  negation goes through the GMP part.
\<close>

theorem unary_exact:
  assumes "gmp_iface G" and "fr_inv G f"
  shows "exact2 G (- fr_val G f) f (op_neg G f) \<and> exact1 G (- fr_val G f) (fr_negate G f) \<and>
    exact2 G \<bar>fr_val G f\<bar> f (fr_abs G f) \<and>
    (fr_val G f \<noteq> 0 \<longrightarrow> exact2 G (1 / fr_val G f) f (fr_inverse G f))"
  by (intro conjI impI gmp_iface.op_neg_ok gmp_iface.fr_negate_ok gmp_iface.fr_abs_ok
      gmp_iface.fr_inverse_ok assms)

theorem unary_exact_witness:
  "exact2 pair_gmp (7 / 3) minus_seven_thirds (op_neg pair_gmp minus_seven_thirds) \<and>
   exact2 pair_gmp (- 3 / 7) minus_seven_thirds (fr_inverse pair_gmp minus_seven_thirds)"
  using unary_exact [OF pair_laws sample_facts(3)] by (simp add: sample_facts)

text \<open>
  \<open>floor\<close> and \<open>ceil\<close> round down and up, for every number.
\<close>

theorem rounding_exact:
  assumes "gmp_iface G" and "fr_inv G f"
  shows "exact1 G (of_int \<lfloor>fr_val G f\<rfloor>) (fr_floor G f) \<and> exact1 G (of_int \<lceil>fr_val G f\<rceil>) (fr_ceil G f)"
  by (intro conjI gmp_iface.fr_floor_ok gmp_iface.fr_ceil_ok assms)

theorem rounding_exact_witness:
  "exact1 pair_gmp (- 3) (fr_floor pair_gmp minus_seven_thirds) \<and>
   exact1 pair_gmp (- 2) (fr_ceil pair_gmp minus_seven_thirds)"
proof -
  have "\<lfloor>- 7 / 3 :: rat\<rfloor> = - 3" "\<lceil>- 7 / 3 :: rat\<rceil> = - 2"
    by (simp_all add: floor_eq_iff ceiling_eq_iff)
  then show ?thesis
    using rounding_exact [OF pair_laws sample_facts(3)] by (simp add: sample_facts)
qed

text \<open>
  \<open>fastrat_fdiv_q\<close> on temporaries is floor division of integers, for every
  divisor other than zero; the correction of the truncated quotient is right for each
  combination of signs, and \<open>INT_MIN\<close> goes to GMP.
\<close>

theorem fdiv_q_floor:
  assumes "gmp_iface G" and "fr_inv G n" and "fr_inv G d"
    and "fr_val G n = of_int i" and "fr_val G d = of_int j" and "j \<noteq> 0"
  shows "exact1 G (of_int (i div j)) (fastrat_fdiv_q_rvalue G n d)"
  using gmp_iface.fastrat_fdiv_q_rvalue_ok [OF assms(1,2) _ assms(3)] assms(4-6) by simp

theorem fdiv_q_floor_witness:
  "exact1 pair_gmp (of_int (- 7 div 2)) (fastrat_fdiv_q_rvalue pair_gmp (FastRational_word (- 7)) (FastRational_word 2))"
  by (rule fdiv_q_floor [OF pair_laws])
    (simp_all add: pair_gmp.fr_inv_word pair_gmp.fr_val_word_ctor in_s32_def)

text \<open>
  \<open>gcd\<close> of two non-negative words, or of two numbers without a word part, is
  the greatest common divisor of their values.
\<close>

theorem gcd_exact:
  assumes "gmp_iface G" and "fr_inv G a" and "fr_inv G b"
    and "fr_val G a = of_int i" and "fr_val G b = of_int j"
    and "(wordPartValid a \<and> wordPartValid b \<and> 0 \<le> i \<and> 0 \<le> j) \<or>
      (\<not> wordPartValid a \<and> \<not> wordPartValid b)"
  shows "\<exists>d a' b'. fr_gcd G a b = Inr (d, a', b') \<and> fr_inv G d \<and> fr_val G d = of_int (gcd i j) \<and>
    fr_val G a' = of_int i \<and> fr_val G b' = of_int j"
  using gmp_iface.fr_gcd_ok [OF assms(1,2) _ assms(3)] assms(4-6) by simp

theorem gcd_exact_witness:
  "\<exists>d a' b'. fr_gcd pair_gmp six six = Inr (d, a', b') \<and> fr_inv pair_gmp d \<and>
    fr_val pair_gmp d = of_int (gcd 6 6) \<and> fr_val pair_gmp a' = of_int 6 \<and> fr_val pair_gmp b' = of_int 6"
  by (rule gcd_exact [OF pair_laws sample_facts(7,7)])
    (simp_all add: sample_facts)

section \<open>Where the state of a number shows\<close>

text \<open>
  \<open>gcd\<close> of a word and a larger number fails: it calls \<open>try_fit_word\<close> on
  both operands, and on the word it trips the assertion that the word part is not valid.
  \<open>lcm\<close> guards the same calls. The result is right with the guards.
\<close>

theorem gcd_mixed_fails:
  assumes "gmp_iface G" and "fr_inv G a" and "fr_inv G b"
    and "fr_val G a \<in> \<int>" and "fr_val G b \<in> \<int>"
    and "wordPartValid a" and "\<not> wordPartValid b"
  shows "fr_gcd G a b = Inl Assertion_Failed"
proof -
  obtain a' p b' q where F: "force2 G a b = Inr (a', p, b', q)" "cached G a a'" "mpqPartValid a'"
    using gmp_iface.force2_ok [OF assms(1-3)] by metis
  then have "wordPartValid a'"
    using assms(6) by (simp add: cached_def)
  then show ?thesis
    using F assms by (simp add: fr_gcd_def gmp_iface.isInteger_ok try_fit_word_def)
qed

theorem gcd_mixed_fails_witness:
  "fr_gcd pair_gmp six big = Inl Assertion_Failed"
  by (rule gcd_mixed_fails [OF pair_laws sample_facts(7,5)])
    (simp_all add: sample_facts, simp_all add: six_def big_def FastRational_word_def frat_simps)

text \<open>
  C10. \<open>get_num\<close> gives the numerator of the value in lowest terms for every number, and
  \<open>get_den\<close> the denominator when the word part is not valid, the word denominator is below
  2^31 or the GMP part is valid. The remaining states are a valid word with a denominator of 2^31
  or more and a GMP part that is not valid: without GMP memory \<open>get_den\<close> reads a GMP number
  that was never initialised; with memory, which an assignment from a word leaves behind, it
  gives the denominator of the number that was stored there before.
\<close>

theorem num_den_exact:
  assumes "gmp_iface G" and "fr_inv G f"
  shows "exact1 G (of_int (fst (quotient_of (fr_val G f)))) (get_num G f) \<and>
    (\<not> wordPartValid f \<or> fr_den f \<le> 2147483647 \<or> mpqPartValid f \<longrightarrow>
      exact1 G (of_int (snd (quotient_of (fr_val G f)))) (get_den G f)) \<and>
    (wordPartValid f \<and> 2147483647 < fr_den f \<and> \<not> mpqPartValid f \<and> \<not> mpqMemoryAllocated f \<longrightarrow>
      get_den G f = Inl Uninitialised_Read) \<and>
    (wordPartValid f \<and> 2147483647 < fr_den f \<and> \<not> mpqPartValid f \<and> mpqMemoryAllocated f \<longrightarrow>
      (\<exists>q. fr_mpq f = Some q \<and> exact1 G (of_int (mpq_denref G q)) (get_den G f)))"
proof -
  have "get_den G f = Inl Uninitialised_Read"
    if "wordPartValid f" "2147483647 < fr_den f" "\<not> mpqMemoryAllocated f"
    using that assms(2) by (simp add: get_den_def read_mpq_def fr_inv_def)
  moreover have "\<exists>q. fr_mpq f = Some q \<and> exact1 G (of_int (mpq_denref G q)) (get_den G f)"
    if w: "wordPartValid f" "2147483647 < fr_den f" "mpqMemoryAllocated f"
  proof -
    obtain q where "fr_mpq f = Some q"
      using w(3) assms(2) by (auto simp: fr_inv_def)
    with w show ?thesis
      by (simp add: get_den_def read_mpq_def exact1_def gmp_iface.fr_inv_mpz [OF assms(1)]
          gmp_iface.fr_val_mpz [OF assms(1)])
  qed
  ultimately show ?thesis
    using gmp_iface.get_num_ok [OF assms] gmp_iface.get_den_ok [OF assms] by auto
qed

text \<open>
  The last state is reached by assigning 1/3000000000 to a number with a GMP part: the
  denominator that comes back is 1, that of the old value 2^40.
\<close>

theorem num_den_exact_witness:
  "exact1 pair_gmp (- 7) (get_num pair_gmp minus_seven_thirds) \<and>
   get_den pair_gmp \<lparr>fr_state = WORD_VALID, fr_num = 1, fr_den = 3000000000, fr_mpq = None\<rparr> =
     Inl Uninitialised_Read \<and>
   (\<exists>f. assign_copy pair_gmp big \<lparr>fr_state = WORD_VALID, fr_num = 1, fr_den = 3000000000, fr_mpq = None\<rparr> = Inr f \<and>
     fr_val pair_gmp f = 1 / 3000000000 \<and> exact1 pair_gmp 1 (get_den pair_gmp f))"
proof -
  let ?w = "\<lparr>fr_state = WORD_VALID, fr_num = 1, fr_den = 3000000000, fr_mpq = None\<rparr> :: (int \<times> int) frat"
  have w: "fr_inv pair_gmp ?w" "fr_val pair_gmp ?w = 1 / 3000000000"
    by (simp_all add: samples in_s32_def in_u32_def)
  obtain f where f: "assign_copy pair_gmp big ?w = Inr f" "fr_inv pair_gmp f"
      "fr_val pair_gmp f = fr_val pair_gmp ?w"
    using pair_gmp.assign_copy_ok [OF sample_facts(5) w(1)] by metis
  have s: "wordPartValid f" "\<not> mpqPartValid f" "mpqMemoryAllocated f" "fr_den f = 3000000000"
      "fr_mpq f = Some (1099511627776, 1)"
    using f(1) by (auto simp: assign_copy_def big_def frat_simps setMpqPartInvalid_def setWordPartValid_def
        require_def state_defs)
  show ?thesis
    using num_den_exact [OF pair_laws w(1)] num_den_exact [OF pair_laws sample_facts(3)]
      num_den_exact [OF pair_laws f(2)] pair_gmp.fr_val_parts(1) [OF sample_facts(3)] f(1,3) w(2) s
    by (auto simp: minus_seven_thirds_def frat_simps)
qed

text \<open>
  C11. \<open>operator%\<close> promises a remainder with the sign of the divisor. With a GMP part
  on either side it is the remainder of floor division; on two words it is the absolute value
  of the truncated remainder with the sign of the divisor, which differs: -7 % 3 is 1 on words
  and 2 once a comparison or a sum has filled in a GMP part. On two words \<open>INT_MIN % -1\<close> is the
  undefined division of C++, which traps.
\<close>

theorem mod_depends_on_cache:
  assumes "gmp_iface G" and "fr_inv G a" and "fr_inv G d"
    and "fr_val G a = of_int i" and "fr_val G d = of_int j" and "j \<noteq> 0"
  shows "if mpqPartValid a \<or> mpqPartValid d
    then exact3 G (of_int (i mod j)) a d (op_mod G a d)
    else if i = - 2147483648 \<and> j = - 1 then op_mod G a d = Inl Signed_Overflow
    else op_mod G a d = Inr (FastRational_word (if j > 0 then \<bar>i smod j\<bar> else - \<bar>i smod j\<bar>), a, d)"
proof (cases "mpqPartValid a \<or> mpqPartValid d")
  case True
  then show ?thesis
    using gmp_iface.op_mod_mpq_ok [OF assms(1,2,4,3,5,6)] by simp
next
  case False
  then have w: "wordPartValid a" "wordPartValid d"
    using assms by (auto simp: fr_inv_def)
  have i: "fr_num a = i" "fr_num d = j" "in_s32 i" "in_s32 j"
    using gmp_iface.integer_parts(2) [OF assms(1,2) _ w(1)] gmp_iface.integer_parts(2) [OF assms(1,3) _ w(2)]
      assms(4,5) by auto
  have "\<bar>i smod j\<bar> < 2147483648"
    using abs_smod_less [OF assms(6), of i] i(4) by (auto simp: in_s32_def)
  then have "in_s32 (i smod j)" "in_s32 \<bar>i smod j\<bar>" "in_s32 (- \<bar>i smod j\<bar>)"
    by (auto simp: in_s32_def)
  then show ?thesis
    using False w i assms 
    by (simp add: op_mod_def gmp_iface.isInteger_ok absVal32_eq s32_id Let_def smod32_def trap32_def)
qed

theorem mod_depends_on_cache_witness:
  "op_mod pair_gmp (FastRational_word (- 7)) (FastRational_word 3) =
     Inr (FastRational_word 1, FastRational_word (- 7), FastRational_word 3) \<and>
   exact3 pair_gmp 2 \<lparr>fr_state = WORD_AND_MPQ, fr_num = - 7, fr_den = 1, fr_mpq = Some (- 7, 1)\<rparr> (FastRational_word 3)
     (op_mod pair_gmp \<lparr>fr_state = WORD_AND_MPQ, fr_num = - 7, fr_den = 1, fr_mpq = Some (- 7, 1)\<rparr> (FastRational_word 3)) \<and>
   op_mod pair_gmp (FastRational_word (- 2147483648)) (FastRational_word (- 1)) = Inl Signed_Overflow"
proof (intro conjI)
  note three = pair_gmp.fr_inv_word [of 3] pair_gmp.fr_val_word_ctor [of 3]
  show "op_mod pair_gmp (FastRational_word (- 7)) (FastRational_word 3) =
     Inr (FastRational_word 1, FastRational_word (- 7), FastRational_word 3)"
    using mod_depends_on_cache [OF pair_laws pair_gmp.fr_inv_word [of "- 7"] three(1), of "- 7" 3]
    by (simp add: in_s32_def FastRational_word_def fr_val_sample frat_simps)
  let ?a = "\<lparr>fr_state = WORD_AND_MPQ, fr_num = - 7, fr_den = 1, fr_mpq = Some (- 7, 1)\<rparr> :: (int \<times> int) frat"
  have bits: "bit WORD_AND_MPQ 0" "bit WORD_AND_MPQ (Suc 0)" "bit WORD_AND_MPQ 2"
    by (simp_all add: state_defs)
  then have "fr_inv pair_gmp ?a" "fr_val pair_gmp ?a = of_int (- 7)" "mpqPartValid ?a"
    by (auto simp: fr_inv_def fr_val_def frat_simps word_ok_def in_s32_def in_u32_def canonical_def)
  then show "exact3 pair_gmp 2 ?a (FastRational_word 3) (op_mod pair_gmp ?a (FastRational_word 3))"
    using mod_depends_on_cache [OF pair_laws _ three(1), of ?a "- 7" 3]
    by (simp add: in_s32_def three(2))
  show "op_mod pair_gmp (FastRational_word (- 2147483648)) (FastRational_word (- 1)) = Inl Signed_Overflow"
    using mod_depends_on_cache [OF pair_laws pair_gmp.fr_inv_word [of "- 2147483648"]
        pair_gmp.fr_inv_word [of "- 1"], of "- 2147483648" "- 1"]
    by (simp add: in_s32_def FastRational_word_def fr_val_sample frat_simps)
qed

end
