(* ===== verification/Delta_Rational.thy ===== *)
theory Delta_Rational
  imports Fast_Rational_Props
begin

text \<open>
  The class \<open>Delta\<close> of \<open>src/src/tsolvers/lasolver/Delta.h\<close>: the values and
  bounds of the simplex solver, a number \<open>r + d * delta\<close> for an infinitely small
  \<open>delta\<close>, or plus or minus infinity. The two numbers are \<open>Real\<close>s, that is
  \<open>FastRational\<close>s: everything that stores or computes them calls the operations of
  \<^theory_text>\<open>Fast_Rational\<close> and \<^theory_text>\<open>Fast_Rational_Arith\<close>, with
  their GMP fallback and the operands whose GMP part they fill in. The comparisons only ask
  \<open><\<close> and \<open>==\<close> of two numbers, which decide the order of the values
  (\<open>comparisons_decide\<close>); they are written over a \<open>delta\<close> of rational numbers,
  the values of the two fields.
\<close>

section \<open>The class\<close>

record 'r delta =
  infinite :: bool
  positive :: bool
  dr :: 'r
  dd :: 'r

datatype deltaType = UPPER | LOWER | ZERO

definition Delta_default :: "'q frat delta" where
  "Delta_default =
     \<lparr>infinite = False, positive = False, dr = FastRational_word 0, dd = FastRational_word 0\<rparr>"

definition Delta_type :: "deltaType \<Rightarrow> 'q frat delta" where
  "Delta_type p =
     \<lparr>infinite = (p \<noteq> ZERO), positive = (p = UPPER), dr = FastRational_word 0, dd = FastRational_word 0\<rparr>"

text \<open>The two constructors from numbers, on values and on the numbers of the code.\<close>

definition Delta_real :: "rat \<Rightarrow> rat delta" where
  "Delta_real v = \<lparr>infinite = False, positive = False, dr = v, dd = 0\<rparr>"

definition Delta_strict :: "'r \<Rightarrow> 'r \<Rightarrow> 'r delta" where
  "Delta_strict v_r v_d = \<lparr>infinite = False, positive = False, dr = v_r, dd = v_d\<rparr>"

definition Delta_of_real :: "'q gmp \<Rightarrow> 'q frat \<Rightarrow> 'q frat delta result" where
  "Delta_of_real G v =
     rbind (FastRational_copy G v) (\<lambda>r. Inr (Delta_strict r (FastRational_word 0)))"

definition Delta_of_parts :: "'q gmp \<Rightarrow> 'q frat \<Rightarrow> 'q frat \<Rightarrow> 'q frat delta result" where
  "Delta_of_parts G v_r v_d =
     rbind (FastRational_copy G v_r) (\<lambda>r. rbind (FastRational_copy G v_d) (\<lambda>d. Inr (Delta_strict r d)))"

definition Delta_copy :: "'q gmp \<Rightarrow> 'q frat delta \<Rightarrow> 'q frat delta result" where
  "Delta_copy G a =
     rbind (FastRational_copy G (dr a)) (\<lambda>r. rbind (FastRational_copy G (dd a)) (\<lambda>d.
       Inr \<lparr>infinite = infinite a, positive = positive a, dr = r, dd = d\<rparr>))"

definition Delta_reset :: "'q frat delta \<Rightarrow> 'q frat delta" where
  "Delta_reset a =
     a\<lparr>infinite := False, positive := True, dr := fr_reset (dr a), dd := fr_reset (dd a)\<rparr>"

text \<open>\<open>operator=\<close> leaves the two numbers of the destination alone for an infinite source.\<close>

definition Delta_assign :: "'q gmp \<Rightarrow> 'q frat delta \<Rightarrow> 'q frat delta \<Rightarrow> 'q frat delta result" where
  "Delta_assign G this a =
     (let t = this\<lparr>infinite := infinite a, positive := positive a\<rparr> in
      if \<not> infinite t
      then rbind (assign_copy G (dr t) (dr a)) (\<lambda>r. rbind (assign_copy G (dd t) (dd a)) (\<lambda>d.
        Inr (t\<lparr>dr := r, dd := d\<rparr>)))
      else Inr t)"

text \<open>
  The move assignment swaps all four fields; the move constructors return the new object and
  what is left of the old one.
\<close>

definition Delta_move_assign :: "'q frat delta \<Rightarrow> 'q frat delta \<Rightarrow> 'q frat delta \<times> 'q frat delta" where
  "Delta_move_assign this other =
     (let (r, r') = assign_move (dr this) (dr other); (d, d') = assign_move (dd this) (dd other)
      in (\<lparr>infinite = infinite other, positive = positive other, dr = r, dd = d\<rparr>,
          \<lparr>infinite = infinite this, positive = positive this, dr = r', dd = d'\<rparr>))"

definition Delta_move :: "'q frat delta \<Rightarrow> 'q frat delta \<times> 'q frat delta" where
  "Delta_move other =
     (let (r, r') = FastRational_move (dr other); (d, d') = FastRational_move (dd other)
      in (other\<lparr>dr := r, dd := d\<rparr>, other\<lparr>dr := r', dd := d'\<rparr>))"

definition Delta_move_real :: "'q frat \<Rightarrow> 'q frat delta \<times> 'q frat" where
  "Delta_move_real other =
     (let (r, r') = FastRational_move other in (Delta_strict r (FastRational_word 0), r'))"

definition Delta_PlusInf :: "'q frat delta" where "Delta_PlusInf = Delta_type UPPER"
definition Delta_MinusInf :: "'q frat delta" where "Delta_MinusInf = Delta_type LOWER"

definition isPlusInf :: "'r delta \<Rightarrow> bool" where
  "isPlusInf a \<longleftrightarrow> infinite a \<and> positive a"

definition isMinusInf :: "'r delta \<Rightarrow> bool" where
  "isMinusInf a \<longleftrightarrow> infinite a \<and> \<not> positive a"

definition isInf :: "'r delta \<Rightarrow> bool" where
  "isInf a \<longleftrightarrow> infinite a"

text \<open>The two accessors assert a finite number.\<close>

definition delta_R :: "'r delta \<Rightarrow> 'r result" where
  "delta_R a = require (\<not> infinite a) (Inr (dr a))"

definition delta_D :: "'r delta \<Rightarrow> 'r result" where
  "delta_D a = require (\<not> infinite a) (Inr (dd a))"

definition hasDelta :: "'q gmp \<Rightarrow> 'q frat delta \<Rightarrow> bool result" where
  "hasDelta G a =
     (if infinite a then Inr False
      else rbind (delta_D a) (\<lambda>d. rbind (isZero G d) (\<lambda>z. Inr (\<not> z))))"

definition delta_negate :: "'q gmp \<Rightarrow> 'q frat delta \<Rightarrow> 'q frat delta result" where
  "delta_negate G a =
     (if \<not> isInf a
      then rbind (fr_negate G (dr a)) (\<lambda>r. rbind (fr_negate G (dd a)) (\<lambda>d. Inr (a\<lparr>dr := r, dd := d\<rparr>)))
      else Inr (a\<lparr>positive := \<not> positive a\<rparr>))"

section \<open>Arithmetic\<close>

text \<open>
  An operator of \<open>Real\<close> on the main values and then on the multiples of \<open>delta\<close> of two
  operands. The operator returns its operands as well, and so does the function.
\<close>

definition on_parts ::
  "'q gmp \<Rightarrow> ('q frat \<Rightarrow> 'q frat \<Rightarrow> ('q frat \<times> 'q frat \<times> 'q frat) result) \<Rightarrow>
   'q frat delta \<Rightarrow> 'q frat delta \<Rightarrow> ('q frat delta \<times> 'q frat delta \<times> 'q frat delta) result" where
  "on_parts G f a b =
     rbind (delta_R a) (\<lambda>ra. rbind (delta_R b) (\<lambda>rb. rbind (f ra rb) (\<lambda>(r, ra', rb').
     rbind (delta_D a) (\<lambda>da. rbind (delta_D b) (\<lambda>db. rbind (f da db) (\<lambda>(d, da', db').
     rbind (Delta_of_parts G r d) (\<lambda>s.
       Inr (s, a\<lparr>dr := ra', dd := da'\<rparr>, b\<lparr>dr := rb', dd := db'\<rparr>))))))))"

definition delta_minus ::
  "'q gmp \<Rightarrow> 'q frat delta \<Rightarrow> 'q frat delta \<Rightarrow> ('q frat delta \<times> 'q frat delta \<times> 'q frat delta) result" where
  "delta_minus G a b =
     (if \<not> (isInf a \<or> isInf b) then on_parts G (op_minus G) a b
      else rbind (Delta_copy G a) (\<lambda>s. Inr (s, a, b)))"

definition delta_plus ::
  "'q gmp \<Rightarrow> 'q frat delta \<Rightarrow> 'q frat delta \<Rightarrow> ('q frat delta \<times> 'q frat delta \<times> 'q frat delta) result" where
  "delta_plus G a b =
     (if \<not> (isInf a \<or> isInf b) then on_parts G (op_plus G) a b
      else rbind (Delta_copy G a) (\<lambda>s. Inr (s, a, b)))"

text \<open>The assigning forms return a copy of the changed operand, that operand and the other one.\<close>

definition assign_parts ::
  "'q gmp \<Rightarrow> ('q frat \<Rightarrow> 'q frat \<Rightarrow> ('q frat \<times> 'q frat) result) \<Rightarrow>
   'q frat delta \<Rightarrow> 'q frat delta \<Rightarrow> ('q frat delta \<times> 'q frat delta \<times> 'q frat delta) result" where
  "assign_parts G f a b =
     require (\<not> isInf a) (require (\<not> isInf b)
       (rbind (delta_R b) (\<lambda>rb. rbind (f (dr a) rb) (\<lambda>(r, rb').
        rbind (delta_D b) (\<lambda>db. rbind (f (dd a) db) (\<lambda>(d, db').
        let a' = a\<lparr>dr := r, dd := d\<rparr> in
        rbind (Delta_copy G a') (\<lambda>s. Inr (s, a', b\<lparr>dr := rb', dd := db'\<rparr>))))))))"

definition delta_plus_assign ::
  "'q gmp \<Rightarrow> 'q frat delta \<Rightarrow> 'q frat delta \<Rightarrow> ('q frat delta \<times> 'q frat delta \<times> 'q frat delta) result" where
  "delta_plus_assign G = assign_parts G (op_plus_assign G)"

definition delta_minus_assign ::
  "'q gmp \<Rightarrow> 'q frat delta \<Rightarrow> 'q frat delta \<Rightarrow> ('q frat delta \<times> 'q frat delta \<times> 'q frat delta) result" where
  "delta_minus_assign G = assign_parts G (op_minus_assign G)"

definition delta_scale ::
  "'q gmp \<Rightarrow> 'q frat \<Rightarrow> 'q frat delta \<Rightarrow> ('q frat delta \<times> 'q frat \<times> 'q frat delta) result" where
  "delta_scale G c a =
     (if \<not> isInf a
      then rbind (delta_R a) (\<lambda>r. rbind (op_times G c r) (\<lambda>(cr, c', r').
           rbind (delta_D a) (\<lambda>d. rbind (op_times G c' d) (\<lambda>(cd, c'', d').
           rbind (Delta_of_parts G cr cd) (\<lambda>s. Inr (s, c'', a\<lparr>dr := r', dd := d'\<rparr>))))))
      else rbind (Delta_copy G a) (\<lambda>s. Inr (s, c, a)))"

definition delta_div ::
  "'q gmp \<Rightarrow> 'q frat delta \<Rightarrow> 'q frat \<Rightarrow> ('q frat delta \<times> 'q frat delta \<times> 'q frat) result" where
  "delta_div G a c =
     (if \<not> isInf a
      then rbind (delta_R a) (\<lambda>r. rbind (op_divide G r c) (\<lambda>(rc, r', c').
           rbind (delta_D a) (\<lambda>d. rbind (op_divide G d c') (\<lambda>(dc, d', c'').
           rbind (Delta_of_parts G rc dc) (\<lambda>s. Inr (s, a\<lparr>dr := r', dd := d'\<rparr>, c''))))))
      else rbind (Delta_copy G a) (\<lambda>s. Inr (s, a, c)))"

section \<open>Comparisons\<close>

definition delta_less :: "rat delta \<Rightarrow> rat delta \<Rightarrow> bool result" where
  "delta_less a b =
     (if isPlusInf a \<or> isMinusInf b then Inr False
      else if isMinusInf a \<or> isPlusInf b then Inr True
      else rbind (delta_R a) (\<lambda>ra. rbind (delta_R b) (\<lambda>rb.
        if ra < rb then Inr True
        else if ra = rb then rbind (delta_D a) (\<lambda>da. rbind (delta_D b) (\<lambda>db. Inr (da < db)))
        else Inr False)))"

definition rnot :: "bool result \<Rightarrow> bool result" where
  "rnot r = rbind r (\<lambda>b. Inr (\<not> b))"

definition delta_leq :: "rat delta \<Rightarrow> rat delta \<Rightarrow> bool result" where
  "delta_leq a b = rnot (delta_less b a)"

definition delta_greater :: "rat delta \<Rightarrow> rat delta \<Rightarrow> bool result" where
  "delta_greater a b = delta_less b a"

definition delta_geq :: "rat delta \<Rightarrow> rat delta \<Rightarrow> bool result" where
  "delta_geq a b = rnot (delta_less a b)"

definition delta_eq :: "rat delta \<Rightarrow> rat delta \<Rightarrow> bool result" where
  "delta_eq a b =
     (if (isInf a \<noteq> isInf b) \<or> (isPlusInf a \<and> isMinusInf b) \<or> (isPlusInf b \<and> isMinusInf a) then Inr False
      else if (isPlusInf a \<and> isPlusInf b) \<or> (isMinusInf a \<and> isMinusInf b) then Inr True
      else rbind (delta_R a) (\<lambda>ra. rbind (delta_R b) (\<lambda>rb.
        if ra = rb then rbind (delta_D a) (\<lambda>da. rbind (delta_D b) (\<lambda>db. Inr (da = db)))
        else Inr False)))"

definition delta_neq :: "rat delta \<Rightarrow> rat delta \<Rightarrow> bool result" where
  "delta_neq a b = rnot (delta_eq a b)"

definition isLess :: "rat delta \<Rightarrow> rat \<Rightarrow> bool result" where
  "isLess a c =
     (if isPlusInf a then Inr False
      else if isMinusInf a then Inr True
      else rbind (delta_R a) (\<lambda>r.
        if r < c then Inr True
        else if r = c then rbind (delta_D a) (\<lambda>d. Inr (d < 0))
        else Inr False))"

definition isGreater :: "rat delta \<Rightarrow> rat \<Rightarrow> bool result" where
  "isGreater a c =
     (if isMinusInf a then Inr False
      else if isPlusInf a then Inr True
      else rbind (delta_R a) (\<lambda>r.
        if r > c then Inr True
        else if r = c then rbind (delta_D a) (\<lambda>d. Inr (d > 0))
        else Inr False))"

definition delta_less_real :: "rat delta \<Rightarrow> rat \<Rightarrow> bool result" where
  "delta_less_real a c = isLess a c"

definition delta_greater_real :: "rat delta \<Rightarrow> rat \<Rightarrow> bool result" where
  "delta_greater_real a c = isGreater a c"

definition delta_leq_real :: "rat delta \<Rightarrow> rat \<Rightarrow> bool result" where
  "delta_leq_real a c = rnot (delta_greater_real a c)"

definition delta_geq_real :: "rat delta \<Rightarrow> rat \<Rightarrow> bool result" where
  "delta_geq_real a c = rnot (delta_less_real a c)"

definition real_less_delta :: "rat \<Rightarrow> rat delta \<Rightarrow> bool result" where
  "real_less_delta c a = delta_greater_real a c"

definition real_leq_delta :: "rat \<Rightarrow> rat delta \<Rightarrow> bool result" where
  "real_leq_delta c a = delta_geq_real a c"

definition real_greater_delta :: "rat \<Rightarrow> rat delta \<Rightarrow> bool result" where
  "real_greater_delta c a = delta_less_real a c"

definition real_geq_delta :: "rat \<Rightarrow> rat delta \<Rightarrow> bool result" where
  "real_geq_delta c a = delta_leq_real a c"

section \<open>Abstract values\<close>

text \<open>
  The extended order the class implements: minus infinity, the pairs in lexicographic
  order, plus infinity.
\<close>

datatype ext = Minus_Inf | Fin rat rat | Plus_Inf

definition ext_of :: "rat delta \<Rightarrow> ext" where
  "ext_of a = (if isPlusInf a then Plus_Inf else if isMinusInf a then Minus_Inf else Fin (dr a) (dd a))"

instantiation ext :: linorder
begin

fun less_eq_ext :: "ext \<Rightarrow> ext \<Rightarrow> bool" where
  "Minus_Inf \<le> _ \<longleftrightarrow> True"
| "_ \<le> Plus_Inf \<longleftrightarrow> True"
| "Fin r d \<le> Fin s e \<longleftrightarrow> r < s \<or> r = s \<and> d \<le> e"
| "_ \<le> (_ :: ext) \<longleftrightarrow> False"

definition less_ext :: "ext \<Rightarrow> ext \<Rightarrow> bool" where
  "x < y \<longleftrightarrow> x \<le> y \<and> \<not> y \<le> (x :: ext)"

instance
proof
  fix x y z :: ext
  show "x < y \<longleftrightarrow> x \<le> y \<and> \<not> y \<le> x"
    by (rule less_ext_def)
  show "x \<le> x"
    by (cases x) simp_all
  show "x \<le> y \<Longrightarrow> y \<le> z \<Longrightarrow> x \<le> z"
    by (cases x; cases y; cases z) auto
  show "x \<le> y \<Longrightarrow> y \<le> x \<Longrightarrow> x = y"
    by (cases x; cases y) auto
  show "x \<le> y \<or> y \<le> x"
    by (cases x; cases y) auto
qed

end

lemma less_ext_simps [simp]:
  "\<not> x < Minus_Inf" "\<not> Plus_Inf < x" "Minus_Inf < Fin r d" "Fin r d < Plus_Inf" "Minus_Inf < Plus_Inf"
  "Fin r d < Fin s e \<longleftrightarrow> r < s \<or> r = s \<and> d < e"
  by (cases x; auto simp: less_ext_def)+

lemmas delta_cases = isPlusInf_def isMinusInf_def isInf_def ext_of_def delta_R_def delta_D_def

text \<open>The value of a finite number at a concrete \<open>delta\<close>.\<close>

definition concrete :: "rat \<Rightarrow> rat delta \<Rightarrow> rat" where
  "concrete eps a = dr a + dd a * eps"

section \<open>Properties\<close>

text \<open>
  The comparison operators of \<open>Delta\<close> never trip an accessor's assertion and
  decide the linear order of extended values: minus infinity, the pairs in lexicographic
  order, plus infinity, whatever the unused fields hold.
\<close>

theorem delta_comparisons:
  "delta_less a b = Inr (ext_of a < ext_of b) \<and> delta_leq a b = Inr (ext_of a \<le> ext_of b) \<and>
   delta_greater a b = Inr (ext_of a > ext_of b) \<and> delta_geq a b = Inr (ext_of a \<ge> ext_of b) \<and>
   delta_eq a b = Inr (ext_of a = ext_of b) \<and> delta_neq a b = Inr (ext_of a \<noteq> ext_of b)"
proof -
  have less: "delta_less a b = Inr (ext_of a < ext_of b)" for a b
    by (cases "infinite a"; cases "infinite b"; cases "positive a"; cases "positive b")
      (auto simp: delta_less_def delta_cases)
  have "delta_eq a b = Inr (ext_of a = ext_of b)"
    by (cases "infinite a"; cases "infinite b"; cases "positive a"; cases "positive b")
      (auto simp: delta_eq_def delta_cases)
  with less show ?thesis
    by (auto simp: delta_leq_def delta_greater_def delta_geq_def delta_neq_def rnot_def not_less)
qed

text \<open>
  The comparisons with a \<open>Real\<close>, in both directions, agree with the comparison of
  the \<open>Delta\<close> built from that \<open>Real\<close>.
\<close>

theorem delta_real_comparisons:
  "delta_less_real a c = delta_less a (Delta_real c) \<and> delta_leq_real a c = delta_leq a (Delta_real c) \<and>
   delta_greater_real a c = delta_greater a (Delta_real c) \<and> delta_geq_real a c = delta_geq a (Delta_real c) \<and>
   real_less_delta c a = delta_less (Delta_real c) a \<and> real_leq_delta c a = delta_leq (Delta_real c) a \<and>
   real_greater_delta c a = delta_greater (Delta_real c) a \<and> real_geq_delta c a = delta_geq (Delta_real c) a"
proof -
  have l: "isLess a c = delta_less a (Delta_real c)" and g: "isGreater a c = delta_less (Delta_real c) a"
    by (cases "infinite a"; cases "positive a";
        auto simp: isLess_def isGreater_def delta_less_def delta_cases Delta_real_def)+
  show ?thesis
    by (simp add: l g delta_less_real_def delta_greater_real_def delta_leq_real_def delta_geq_real_def
        real_less_delta_def real_leq_delta_def real_greater_delta_def real_geq_delta_def
        delta_leq_def delta_greater_def delta_geq_def)
qed

text \<open>
  C12. A strict comparison of two finite numbers is the comparison of their concrete values
  for every small enough positive \<open>delta\<close>: what the simplex solver relies on when it
  represents a strict bound by a multiple of \<open>delta\<close>.
\<close>

theorem delta_less_concrete:
  assumes "\<not> infinite a" and "\<not> infinite b"
  shows "delta_less a b = Inr True \<longleftrightarrow>
    (\<exists>e0 > 0. \<forall>e. 0 < e \<and> e \<le> e0 \<longrightarrow> concrete e a < concrete e b)"
proof -
  have "(dr a < dr b \<or> dr a = dr b \<and> dd a < dd b) \<longleftrightarrow>
      (\<exists>e0 > 0. \<forall>e. 0 < e \<and> e \<le> e0 \<longrightarrow> concrete e a < concrete e b)" (is "?L \<longleftrightarrow> ?R")
  proof
    assume ?L
    then show ?R
    proof
      assume lt: "dr a < dr b"
      define k where "k = max 1 (dd a - dd b)"
      define e0 where "e0 = (dr b - dr a) / (2 * k)"
      have k: "0 < k" "dd a - dd b \<le> k"
        by (simp_all add: k_def)
      have "concrete e a < concrete e b" if e: "0 < e" "e \<le> e0" for e
      proof -
        have "(dd a - dd b) * e \<le> k * e0"
          using e k lt by (intro mult_mono) (auto simp: e0_def)
        also have "k * e0 < dr b - dr a"
          using k lt by (simp add: e0_def)
        finally show ?thesis
          by (simp add: concrete_def algebra_simps)
      qed
      moreover have "0 < e0"
        using k lt by (simp add: e0_def)
      ultimately show ?R
        by blast
    next
      assume "dr a = dr b \<and> dd a < dd b"
      then have "concrete e a < concrete e b" if "0 < e" for e
        using that by (simp add: concrete_def)
      then show ?R
        by (intro exI [of _ 1]) simp
    qed
  next
    assume ?R
    then obtain e0 where e0: "0 < e0" "\<And>e. 0 < e \<Longrightarrow> e \<le> e0 \<Longrightarrow> concrete e a < concrete e b"
      by blast
    show ?L
    proof (rule ccontr)
      assume n: "\<not> ?L"
      then consider "dr a = dr b" "dd b \<le> dd a" | "dr b < dr a"
        by fastforce
      then show False
      proof cases
        case 1
        then show False
          using e0(2) [of e0] e0(1) mult_right_mono [of "dd b" "dd a" e0] by (simp add: concrete_def)
      next
        case 2
        define k where "k = max 1 (dd b - dd a)"
        define e where "e = min e0 ((dr a - dr b) / k)"
        have k: "0 < k" "dd b - dd a \<le> k"
          by (simp_all add: k_def)
        have e: "0 < e" "e \<le> e0" "k * e \<le> dr a - dr b"
          using e0(1) 2 k by (auto simp: e_def min_def field_simps)
        have "(dd b - dd a) * e \<le> k * e"
          using e k by (intro mult_right_mono) auto
        then have "concrete e b \<le> concrete e a"
          using e(3) by (simp add: concrete_def algebra_simps)
        then show False
          using e0(2) [OF e(1,2)] by simp
      qed
    qed
  qed
  moreover have "delta_less a b = Inr (dr a < dr b \<or> dr a = dr b \<and> dd a < dd b)"
    using assms by (auto simp: delta_less_def delta_cases)
  ultimately show ?thesis
    by simp
qed

theorem delta_less_concrete_witness:
  "\<exists>e0 > 0. \<forall>e. 0 < e \<and> e \<le> e0 \<longrightarrow> concrete e (Delta_strict 3 (- 1)) < concrete e (Delta_real 3)"
  by (rule delta_less_concrete [THEN iffD1])
    (simp_all add: Delta_strict_def Delta_real_def delta_less_def delta_cases)

text \<open>
  The numbers a \<open>Delta\<close> of the code stands for. An operand may come back with GMP parts
  filled in.
\<close>

definition delta_inv :: "'q gmp \<Rightarrow> 'q frat delta \<Rightarrow> bool" where
  "delta_inv G a \<longleftrightarrow> fr_inv G (dr a) \<and> fr_inv G (dd a)"

definition delta_val :: "'q gmp \<Rightarrow> 'q frat delta \<Rightarrow> rat delta" where
  "delta_val G a =
     \<lparr>infinite = infinite a, positive = positive a, dr = fr_val G (dr a), dd = fr_val G (dd a)\<rparr>"

definition delta_is :: "'q gmp \<Rightarrow> (rat \<Rightarrow> rat) \<Rightarrow> 'q frat delta \<Rightarrow> bool" where
  "delta_is G v s \<longleftrightarrow> delta_inv G s \<and> \<not> infinite s \<and> (\<forall>e. concrete e (delta_val G s) = v e)"

definition delta_cached :: "'q gmp \<Rightarrow> 'q frat delta \<Rightarrow> 'q frat delta \<Rightarrow> bool" where
  "delta_cached G a a' \<longleftrightarrow> infinite a' = infinite a \<and> positive a' = positive a \<and>
     cached G (dr a) (dr a') \<and> cached G (dd a) (dd a')"

text \<open>No wrap-around in \<open>operator-\<close>: the condition under which it is exact.\<close>

definition minus_fits :: "'q frat \<Rightarrow> 'q frat \<Rightarrow> bool" where
  "minus_fits x y \<longleftrightarrow> (wordPartValid x \<and> wordPartValid y \<longrightarrow> no_lword_overflow x y)"

lemma concrete_parts: "concrete e (delta_val G a) = fr_val G (dr a) + fr_val G (dd a) * e"
  by (simp add: concrete_def delta_val_def)

context gmp_iface
begin

lemma of_parts_ok:
  assumes "fr_inv G r" and "fr_inv G d"
  obtains s where "Delta_of_parts G r d = Inr s" "delta_is G (\<lambda>e. fr_val G r + fr_val G d * e) s"
proof -
  obtain r' where r: "FastRational_copy G r = Inr r'" "fr_inv G r'" "fr_val G r' = fr_val G r"
    using copy_ok [OF assms(1)] .
  obtain d' where d: "FastRational_copy G d = Inr d'" "fr_inv G d'" "fr_val G d' = fr_val G d"
    using copy_ok [OF assms(2)] .
  show ?thesis
    by (rule that [of "Delta_strict r' d'"])
      (simp_all add: r d Delta_of_parts_def delta_is_def delta_inv_def concrete_parts Delta_strict_def)
qed

lemma delta_copy_ok:
  assumes "delta_is G v a"
  obtains s where "Delta_copy G a = Inr s" "delta_is G v s"
proof -
  have i: "fr_inv G (dr a)" "fr_inv G (dd a)"
    using assms by (simp_all add: delta_is_def delta_inv_def)
  obtain r' where r: "FastRational_copy G (dr a) = Inr r'" "fr_inv G r'" "fr_val G r' = fr_val G (dr a)"
    using copy_ok [OF i(1)] .
  obtain d' where d: "FastRational_copy G (dd a) = Inr d'" "fr_inv G d'" "fr_val G d' = fr_val G (dd a)"
    using copy_ok [OF i(2)] .
  show ?thesis
    by (rule that [of "\<lparr>infinite = infinite a, positive = positive a, dr = r', dd = d'\<rparr>"])
      (use assms in \<open>simp_all add: r d Delta_copy_def delta_is_def delta_inv_def concrete_parts\<close>)
qed

lemma on_parts_ok:
  assumes fin: "\<not> infinite a" "\<not> infinite b"
    and r: "exact3 G vr (dr a) (dr b) (f (dr a) (dr b))" and d: "exact3 G vd (dd a) (dd b) (f (dd a) (dd b))"
  shows "\<exists>s a' b'. on_parts G f a b = Inr (s, a', b') \<and> delta_is G (\<lambda>e. vr + vd * e) s \<and>
    delta_cached G a a' \<and> delta_cached G b b'"
proof -
  obtain r0 ra rb where R: "f (dr a) (dr b) = Inr (r0, ra, rb)" "fr_inv G r0" "fr_val G r0 = vr"
      "cached G (dr a) ra" "cached G (dr b) rb"
    using exact3E [OF r] .
  obtain d0 da db where D: "f (dd a) (dd b) = Inr (d0, da, db)" "fr_inv G d0" "fr_val G d0 = vd"
      "cached G (dd a) da" "cached G (dd b) db"
    using exact3E [OF d] .
  obtain s where "Delta_of_parts G r0 d0 = Inr s" "delta_is G (\<lambda>e. vr + vd * e) s"
    using of_parts_ok [OF R(2) D(2)] unfolding R(3) D(3) .
  with fin R D show ?thesis
    by (simp add: on_parts_def delta_R_def delta_D_def delta_cached_def)
qed

lemma assign_parts_ok:
  assumes fin: "\<not> infinite a" "\<not> infinite b"
    and r: "exact2 G vr (dr b) (f (dr a) (dr b))" and d: "exact2 G vd (dd b) (f (dd a) (dd b))"
  shows "\<exists>s a' b'. assign_parts G f a b = Inr (s, a', b') \<and> delta_is G (\<lambda>e. vr + vd * e) s \<and>
    delta_is G (\<lambda>e. vr + vd * e) a' \<and> delta_cached G b b'"
proof -
  obtain r0 rb where R: "f (dr a) (dr b) = Inr (r0, rb)" "fr_inv G r0" "fr_val G r0 = vr" "cached G (dr b) rb"
    using r by (auto simp: exact2_def split: sum.splits prod.splits)
  obtain d0 db where D: "f (dd a) (dd b) = Inr (d0, db)" "fr_inv G d0" "fr_val G d0 = vd" "cached G (dd b) db"
    using d by (auto simp: exact2_def split: sum.splits prod.splits)
  have i: "delta_is G (\<lambda>e. vr + vd * e) (a\<lparr>dr := r0, dd := d0\<rparr>)"
    using fin R D by (simp add: delta_is_def delta_inv_def concrete_parts)
  then obtain s where "Delta_copy G (a\<lparr>dr := r0, dd := d0\<rparr>) = Inr s" "delta_is G (\<lambda>e. vr + vd * e) s"
    by (rule delta_copy_ok)
  with fin R D i show ?thesis
    by (simp add: assign_parts_def delta_R_def delta_D_def isInf_def delta_cached_def)
qed

lemma scale_ok:
  assumes "delta_inv G a" "\<not> infinite a" "fr_inv G c"
  shows "\<exists>s c' a'. delta_scale G c a = Inr (s, c', a') \<and>
    delta_is G (\<lambda>e. fr_val G c * concrete e (delta_val G a)) s \<and> cached G c c' \<and> delta_cached G a a'"
proof -
  have i: "fr_inv G (dr a)" "fr_inv G (dd a)"
    using assms(1) by (simp_all add: delta_inv_def)
  obtain r c1 r' where R: "op_times G c (dr a) = Inr (r, c1, r')" "fr_inv G r"
      "fr_val G r = fr_val G c * fr_val G (dr a)" "cached G c c1" "cached G (dr a) r'"
    using exact3E [OF op_times_ok [OF assms(3) i(1)]] .
  then have c1: "fr_inv G c1" "fr_val G c1 = fr_val G c"
    by (simp_all add: cached_def)
  obtain d c2 d' where D: "op_times G c1 (dd a) = Inr (d, c2, d')" "fr_inv G d"
      "fr_val G d = fr_val G c * fr_val G (dd a)" "cached G c1 c2" "cached G (dd a) d'"
    using exact3E [OF op_times_ok [OF c1(1) i(2)]] unfolding c1(2) .
  obtain s where s: "Delta_of_parts G r d = Inr s" "delta_is G (\<lambda>e. fr_val G r + fr_val G d * e) s"
    using of_parts_ok [OF R(2) D(2)] .
  have "(\<lambda>e. fr_val G r + fr_val G d * e) = (\<lambda>e. fr_val G c * concrete e (delta_val G a))"
    by (simp add: R(3) D(3) concrete_parts algebra_simps)
  with s assms(2) R D cached_trans [OF R(4) D(4)] show ?thesis
    by (simp add: delta_scale_def delta_R_def delta_D_def isInf_def delta_cached_def)
qed

lemma div_ok:
  assumes "delta_inv G a" "\<not> infinite a" "fr_inv G c" "fr_val G c \<noteq> 0"
  shows "\<exists>s a' c'. delta_div G a c = Inr (s, a', c') \<and>
    delta_is G (\<lambda>e. concrete e (delta_val G a) / fr_val G c) s \<and> delta_cached G a a' \<and> cached G c c'"
proof -
  have i: "fr_inv G (dr a)" "fr_inv G (dd a)"
    using assms(1) by (simp_all add: delta_inv_def)
  obtain r r' c1 where R: "op_divide G (dr a) c = Inr (r, r', c1)" "fr_inv G r"
      "fr_val G r = fr_val G (dr a) / fr_val G c" "cached G (dr a) r'" "cached G c c1"
    using exact3E [OF op_divide_ok [OF i(1) assms(3,4)]] .
  then have c1: "fr_inv G c1" "fr_val G c1 = fr_val G c"
    by (simp_all add: cached_def)
  have "exact3 G (fr_val G (dd a) / fr_val G c1) (dd a) c1 (op_divide G (dd a) c1)"
    using op_divide_ok [OF i(2) c1(1)] c1(2) assms(4) by simp
  then obtain d d' c2 where D: "op_divide G (dd a) c1 = Inr (d, d', c2)" "fr_inv G d"
      "fr_val G d = fr_val G (dd a) / fr_val G c" "cached G (dd a) d'" "cached G c1 c2"
    unfolding c1(2) by (rule exact3E)
  obtain s where s: "Delta_of_parts G r d = Inr s" "delta_is G (\<lambda>e. fr_val G r + fr_val G d * e) s"
    using of_parts_ok [OF R(2) D(2)] .
  have "(\<lambda>e. fr_val G r + fr_val G d * e) = (\<lambda>e. concrete e (delta_val G a) / fr_val G c)"
    by (simp add: R(3) D(3) concrete_parts add_divide_distrib)
  with s assms(2) R D cached_trans [OF R(5) D(5)] show ?thesis
    by (simp add: delta_div_def delta_R_def delta_D_def isInf_def delta_cached_def)
qed

end

text \<open>
  C13. On finite operands with well-formed numbers \<open>+\<close>, \<open>+=\<close>, \<open>-=\<close>,
  multiplication by a number and division by a number other than zero return a finite
  \<open>Delta\<close> whose concrete value at every \<open>delta\<close> is the sum, difference, product or
  quotient of the concrete values, and change the other operands at most by filling in GMP
  parts. The binary \<open>-\<close> does so when neither of its two subtractions of \<open>Real\<close>
  wraps around in 64 bits.
\<close>

theorem delta_arithmetic:
  assumes "gmp_iface G" and "delta_inv G a" and "delta_inv G b"
    and "\<not> infinite a" and "\<not> infinite b" and "fr_inv G c"
  defines "va \<equiv> \<lambda>e. concrete e (delta_val G a)" and "vb \<equiv> \<lambda>e. concrete e (delta_val G b)"
  shows "(\<exists>s a' b'. delta_plus G a b = Inr (s, a', b') \<and> delta_is G (\<lambda>e. va e + vb e) s \<and>
      delta_cached G a a' \<and> delta_cached G b b') \<and>
    (minus_fits (dr a) (dr b) \<and> minus_fits (dd a) (dd b) \<longrightarrow>
      (\<exists>s a' b'. delta_minus G a b = Inr (s, a', b') \<and> delta_is G (\<lambda>e. va e - vb e) s \<and>
        delta_cached G a a' \<and> delta_cached G b b')) \<and>
    (\<exists>s a' b'. delta_plus_assign G a b = Inr (s, a', b') \<and> delta_is G (\<lambda>e. va e + vb e) s \<and>
      delta_is G (\<lambda>e. va e + vb e) a' \<and> delta_cached G b b') \<and>
    (\<exists>s a' b'. delta_minus_assign G a b = Inr (s, a', b') \<and> delta_is G (\<lambda>e. va e - vb e) s \<and>
      delta_is G (\<lambda>e. va e - vb e) a' \<and> delta_cached G b b') \<and>
    (\<exists>s c' a'. delta_scale G c a = Inr (s, c', a') \<and> delta_is G (\<lambda>e. fr_val G c * va e) s \<and>
      cached G c c' \<and> delta_cached G a a') \<and>
    (fr_val G c \<noteq> 0 \<longrightarrow> (\<exists>s a' c'. delta_div G a c = Inr (s, a', c') \<and>
      delta_is G (\<lambda>e. va e / fr_val G c) s \<and> delta_cached G a a' \<and> cached G c c'))"
proof -
  have i: "fr_inv G (dr a)" "fr_inv G (dd a)" "fr_inv G (dr b)" "fr_inv G (dd b)"
    using assms(2,3) by (simp_all add: delta_inv_def)
  have sum: "(\<lambda>e. va e + vb e) = (\<lambda>e. fr_val G (dr a) + fr_val G (dr b) + (fr_val G (dd a) + fr_val G (dd b)) * e)"
    and diff: "(\<lambda>e. va e - vb e) = (\<lambda>e. fr_val G (dr a) - fr_val G (dr b) + (fr_val G (dd a) - fr_val G (dd b)) * e)"
    by (simp_all add: va_def vb_def concrete_parts algebra_simps)
  have no: "\<not> (isInf a \<or> isInf b)"
    using assms(4,5) by (simp add: isInf_def)
  note g = assms(1)
  have plus: "delta_plus G a b = on_parts G (op_plus G) a b"
    and minus: "delta_minus G a b = on_parts G (op_minus G) a b"
    using no by (simp_all add: delta_plus_def delta_minus_def)
  have p2: "minus_fits (dr a) (dr b) \<and> minus_fits (dd a) (dd b) \<longrightarrow>
      (\<exists>s a' b'. delta_minus G a b = Inr (s, a', b') \<and> delta_is G (\<lambda>e. va e - vb e) s \<and>
        delta_cached G a a' \<and> delta_cached G b b')"
    unfolding minus diff
    by (intro impI gmp_iface.on_parts_ok [OF g assms(4,5)] gmp_iface.op_minus_ok [OF g] i)
      (simp_all add: minus_fits_def)
  have p1: "\<exists>s a' b'. delta_plus G a b = Inr (s, a', b') \<and> delta_is G (\<lambda>e. va e + vb e) s \<and>
      delta_cached G a a' \<and> delta_cached G b b'"
    unfolding plus sum
    by (intro gmp_iface.on_parts_ok [OF g assms(4,5)] gmp_iface.op_plus_ok [OF g] i)
  have p3: "\<exists>s a' b'. delta_plus_assign G a b = Inr (s, a', b') \<and> delta_is G (\<lambda>e. va e + vb e) s \<and>
      delta_is G (\<lambda>e. va e + vb e) a' \<and> delta_cached G b b'"
    unfolding delta_plus_assign_def op_plus_assign_def sum
    by (intro gmp_iface.assign_parts_ok [OF g assms(4,5)] gmp_iface.checked_assign_ok [OF g]
        gmp_iface.additionAssign_ok [OF g] i)
  have p4: "\<exists>s a' b'. delta_minus_assign G a b = Inr (s, a', b') \<and> delta_is G (\<lambda>e. va e - vb e) s \<and>
      delta_is G (\<lambda>e. va e - vb e) a' \<and> delta_cached G b b'"
    unfolding delta_minus_assign_def op_minus_assign_def diff
    by (intro gmp_iface.assign_parts_ok [OF g assms(4,5)] gmp_iface.checked_assign_ok [OF g]
        gmp_iface.substractionAssign_ok [OF g] i)
  have p6: "fr_val G c \<noteq> 0 \<longrightarrow> (\<exists>s a' c'. delta_div G a c = Inr (s, a', c') \<and>
      delta_is G (\<lambda>e. va e / fr_val G c) s \<and> delta_cached G a a' \<and> cached G c c')"
    unfolding va_def by (intro impI gmp_iface.div_ok [OF g assms(2,4,6)])
  show ?thesis
    by (intro conjI p1 p2 p3 p4 p6) (unfold va_def, rule gmp_iface.scale_ok [OF g assms(2,4,6)])
qed

text \<open>The hypotheses hold for 1/2 - 7/3 delta and 6 + 2^40 delta.\<close>

theorem delta_arithmetic_witness:
  "(\<exists>s a' b'. delta_minus pair_gmp (Delta_strict half minus_seven_thirds) (Delta_strict six big) = Inr (s, a', b') \<and>
      concrete 1 (delta_val pair_gmp s) = - 11 / 6 - 1099511627782) \<and>
   (\<exists>s a' c'. delta_div pair_gmp (Delta_strict half minus_seven_thirds) six = Inr (s, a', c') \<and>
      concrete 3 (delta_val pair_gmp s) = - 13 / 12)"
proof -
  have "minus_fits half six" "minus_fits minus_seven_thirds big"
    by (simp_all add: minus_fits_def no_lword_overflow_def half_def six_def big_def FastRational_word_def
        in_s64_def frat_simps)
  then have f: "minus_fits (dr (Delta_strict half minus_seven_thirds)) (dr (Delta_strict six big)) \<and>
      minus_fits (dd (Delta_strict half minus_seven_thirds)) (dd (Delta_strict six big))"
    by (simp add: Delta_strict_def)
  have i: "delta_inv pair_gmp (Delta_strict half minus_seven_thirds)" "delta_inv pair_gmp (Delta_strict six big)"
      "\<not> infinite (Delta_strict half minus_seven_thirds)" "\<not> infinite (Delta_strict six big)"
    by (simp_all add: delta_inv_def Delta_strict_def sample_facts)
  have v: "concrete e (delta_val pair_gmp (Delta_strict half minus_seven_thirds)) = 1 / 2 - 7 / 3 * e"
      "concrete e (delta_val pair_gmp (Delta_strict six big)) = 6 + 1099511627776 * e" for e
    by (simp_all add: concrete_parts Delta_strict_def sample_facts)
  note d = delta_arithmetic [OF pair_laws i sample_facts(7), unfolded v sample_facts(8)]
  from mp [OF conjunct1 [OF conjunct2 [OF d]] f] obtain s a' b' where
      m: "delta_minus pair_gmp (Delta_strict half minus_seven_thirds) (Delta_strict six big) = Inr (s, a', b')"
      "concrete 1 (delta_val pair_gmp s) = 1 / 2 - 7 / 3 * 1 - (6 + 1099511627776 * 1)"
    unfolding delta_is_def by blast
  have "(6::rat) \<noteq> 0"
    by simp
  from mp [OF conjunct2 [OF conjunct2 [OF conjunct2 [OF conjunct2 [OF conjunct2 [OF d]]]]] this]
  obtain t a'' c' where
      q: "delta_div pair_gmp (Delta_strict half minus_seven_thirds) six = Inr (t, a'', c')"
      "concrete 3 (delta_val pair_gmp t) = (1 / 2 - 7 / 3 * 3) / 6"
    unfolding delta_is_def by blast
  show ?thesis
    using m q by simp
qed

text \<open>
  Outside that range the binary \<open>-\<close> inherits the wrap-around of \<open>substraction\<close>: the
  difference of a positive and a negative number comes out negative.
\<close>

theorem delta_minus_wraps:
  "\<exists>a b s. delta_inv pair_gmp a \<and> delta_inv pair_gmp b \<and> \<not> infinite a \<and> \<not> infinite b \<and>
    delta_minus pair_gmp a b = Inr (s, a, b) \<and>
    concrete 0 (delta_val pair_gmp s) < 0 \<and>
    0 < concrete 0 (delta_val pair_gmp a) - concrete 0 (delta_val pair_gmp b)"
proof -
  let ?z = "FastRational_word 0 :: (int \<times> int) frat"
  have z: "op_minus pair_gmp ?z ?z = Inr (?z, ?z, ?z)"
    by (simp add: op_minus_def checked_op_def substraction_def substraction_word_def store_word_def kill_mpq_def
        eval_frat FastRational_word_def)
  have c: "FastRational_copy pair_gmp wrap_difference = Inr wrap_difference" "FastRational_copy pair_gmp ?z = Inr ?z"
    by (simp_all add: FastRational_copy_def wrap_difference_def FastRational_word_def frat_simps)
  have i: "fr_inv pair_gmp ?z" "fr_val pair_gmp ?z = 0"
    by (simp_all add: pair_gmp.fr_inv_word pair_gmp.fr_val_word_ctor in_s32_def)
  show ?thesis
    by (intro exI [of _ "Delta_strict wrap_left ?z"] exI [of _ "Delta_strict wrap_right ?z"]
        exI [of _ "Delta_strict wrap_difference ?z"])
      (simp add: delta_minus_def on_parts_def delta_cases Delta_strict_def op_minus_wraps z Delta_of_parts_def
        c concrete_parts delta_inv_def wrap_facts i)
qed

end
