(* ===== verification/Symbols.thy ===== *)
theory Symbols
  imports Opensmt_Prelude
begin

text \<open>
  The symbol table: \<open>Symbol\<close> of \<open>src/src/symbols/Symbol.h\<close> and
  \<open>SymStore\<close> of \<open>src/src/symbols/SymStore.h\<close> and \<open>SymStore.C\<close>. A
  \<open>SymRef\<close> is the position of the symbol in the order of allocation, which is also its
  \<open>SymId\<close>; offsets into the allocator's region grow in the same order. A
  \<open>SRef\<close> is a number given by the sort store, which is not modelled.
\<close>

type_synonym sref = nat
type_synonym symref = nat

section \<open>Symbols\<close>

text \<open>
  \<open>sy_type\<close> is 0, or 1 to 4 for left associative, right associative, chainable and
  pairwise. \<open>sy_sorts\<close> are the sorts, the return sort first; \<open>sy_size\<close> is their number
  in the 23 bits that the header has for it.
\<close>

record symbol =
  sy_type :: nat
  sy_commutes :: bool
  sy_noscoping :: bool
  sy_interpreted :: bool
  sy_size :: nat
  sy_sorts :: "sref list"

definition Symbol_ctor :: "sref list \<Rightarrow> symbol" where
  "Symbol_ctor ps = \<lparr>sy_type = 0, sy_commutes = False, sy_noscoping = False,
     sy_interpreted = False, sy_size = length ps mod 2 ^ 23, sy_sorts = ps\<rparr>"

text \<open>
  The return sort of a symbol without sorts (\<open>sym_ANON\<close>) is whatever follows it in
  memory: \<open>None\<close>. \<open>nargs\<close> is unsigned, so it wraps for a symbol of size 0.
\<close>

definition rsort :: "symbol \<Rightarrow> sref option" where
  "rsort s = (case sy_sorts s of [] \<Rightarrow> None | r # _ \<Rightarrow> Some r)"

definition arg_sort :: "symbol \<Rightarrow> nat \<Rightarrow> sref" where
  "arg_sort s i = sy_sorts s ! (i + 1)"

definition nargs :: "symbol \<Rightarrow> nat" where
  "nargs s = (if sy_size s = 0 then 4294967295 else sy_size s - 1)"

definition left_assoc :: "symbol \<Rightarrow> bool" where "left_assoc s \<longleftrightarrow> sy_type s = 1"
definition right_assoc :: "symbol \<Rightarrow> bool" where "right_assoc s \<longleftrightarrow> sy_type s = 2"
definition chainable :: "symbol \<Rightarrow> bool" where "chainable s \<longleftrightarrow> sy_type s = 3"
definition pairwise_sym :: "symbol \<Rightarrow> bool" where "pairwise_sym s \<longleftrightarrow> sy_type s = 4"
definition noScoping :: "symbol \<Rightarrow> bool" where "noScoping s \<longleftrightarrow> sy_noscoping s"
definition isInterpreted :: "symbol \<Rightarrow> bool" where "isInterpreted s \<longleftrightarrow> sy_interpreted s"

text \<open>The setters of the type succeed once.\<close>

definition set_type :: "nat \<Rightarrow> symbol \<Rightarrow> bool \<times> symbol" where
  "set_type m s = (if sy_type s \<noteq> 0 then (False, s) else (m \<noteq> 0, s\<lparr>sy_type := m\<rparr>))"

definition setLeftAssoc :: "symbol \<Rightarrow> bool \<times> symbol" where "setLeftAssoc = set_type 1"
definition setRightAssoc :: "symbol \<Rightarrow> bool \<times> symbol" where "setRightAssoc = set_type 2"
definition setChainable :: "symbol \<Rightarrow> bool \<times> symbol" where "setChainable = set_type 3"
definition setPairwise :: "symbol \<Rightarrow> bool \<times> symbol" where "setPairwise = set_type 4"
definition setNoScoping :: "symbol \<Rightarrow> symbol" where "setNoScoping s = s\<lparr>sy_noscoping := True\<rparr>"
definition setCommutes :: "symbol \<Rightarrow> symbol" where "setCommutes s = s\<lparr>sy_commutes := True\<rparr>"

section \<open>The symbol store\<close>

text \<open>\<open>ss_table\<close> maps a name to its symbols, oldest first; \<open>ss_names\<close> is \<open>idToName\<close>.\<close>

record symstore =
  ss_table :: "string \<Rightarrow> symref list option"
  ss_symbols :: "symbol list"
  ss_names :: "string list"

definition SymStore_empty :: symstore where
  "SymStore_empty = \<lparr>ss_table = Map.empty, ss_symbols = [], ss_names = []\<rparr>"

definition sym_at :: "symstore \<Rightarrow> symref \<Rightarrow> symbol" where
  "sym_at st r = ss_symbols st ! r"

definition getName :: "symstore \<Rightarrow> symref \<Rightarrow> string" where
  "getName st r = ss_names st ! r"

definition contains_name :: "symstore \<Rightarrow> string \<Rightarrow> bool" where
  "contains_name st n \<longleftrightarrow> ss_table st n \<noteq> None"

definition getRefOrNull :: "symstore \<Rightarrow> string \<Rightarrow> symref list option" where
  "getRefOrNull st n = ss_table st n"

definition setInterpreted :: "symref \<Rightarrow> symstore \<Rightarrow> symstore" where
  "setInterpreted r st =
     st\<lparr>ss_symbols := (ss_symbols st)[r := (sym_at st r)\<lparr>sy_interpreted := True\<rparr>]\<rparr>"

definition upd_symbol :: "symref \<Rightarrow> (symbol \<Rightarrow> symbol) \<Rightarrow> symstore \<Rightarrow> symstore" where
  "upd_symbol r f st = st\<lparr>ss_symbols := (ss_symbols st)[r := f (sym_at st r)]\<rparr>"

text \<open>
  The test of \<open>newSymb\<close>: same return sort, same number of arguments, same argument sorts. It
  reads \<open>args[0]\<close>, so it is asked for a non-empty list only. The return sort of a symbol
  without sorts does not matter, since its number of arguments is never that of a list.
\<close>

definition same_signature :: "symbol \<Rightarrow> sref list \<Rightarrow> bool" where
  "same_signature s args \<longleftrightarrow>
     rsort s = Some (args ! 0) \<and> nargs s = length args - 1 \<and>
     (\<forall>j < nargs s. arg_sort s j = args ! (j + 1))"

text \<open>
  With an empty list and a name that is in the table, the first comparison reads
  \<open>args[0]\<close> out of range.
\<close>

definition newSymb :: "symstore \<Rightarrow> string \<Rightarrow> sref list \<Rightarrow> (symref \<times> symstore) result" where
  "newSymb st fname args =
     (let symrefs = getRefOrNull st fname in
      rbind (case symrefs of None \<Rightarrow> Inr None
             | Some trs \<Rightarrow>
                 if args = [] \<and> trs \<noteq> [] then Inl Uninitialised_Read
                 else Inr (List.find (\<lambda>tr. same_signature (sym_at st tr) args) trs)) (\<lambda>found.
      case found of
        Some tr \<Rightarrow> Inr (tr, st)
      | None \<Rightarrow>
          let tr = length (ss_symbols st) in
          Inr (tr, st\<lparr>ss_symbols := ss_symbols st @ [Symbol_ctor args],
                 ss_names := ss_names st @ [fname],
                 ss_table := (ss_table st)(fname \<mapsto>
                   (case symrefs of None \<Rightarrow> [tr] | Some trs \<Rightarrow> trs @ [tr]))\<rparr>)))"

section \<open>Quoting of names\<close>

text \<open>
  \<open>Logic::hasQuotableChars\<close> and \<open>Logic::protectName\<close>: the set entries of the
  table, by character code. A name with a code of 128 or more indexes the table with a
  negative number on platforms with signed characters; names are ASCII here.
\<close>

definition quotable :: "char \<Rightarrow> bool" where
  "quotable c \<longleftrightarrow> of_char c \<in> {32, 34, 35, 39, 40, 41, 44, 58, 59, 91, 93, 96, 123, 125 :: nat}"

definition hasQuotableChars :: "string \<Rightarrow> bool" where
  "hasQuotableChars name \<longleftrightarrow>
     (let escape = (\<exists>c \<in> set name. quotable c);
          quoted = (name \<noteq> [] \<and> hd name = CHR 0x7C \<and> last name = CHR 0x7C)
      in \<not> quoted \<and> escape)"

definition protectName :: "string \<Rightarrow> string" where
  "protectName name = (if hasQuotableChars name then [CHR 0x7C] @ name @ [CHR 0x7C] else name)"

text \<open>
  A protected name needs no more quoting, so protecting twice is protecting once; a name
  without special characters is printed as it is.
\<close>

theorem protectName_stable:
  "\<not> hasQuotableChars (protectName n) \<and> protectName (protectName n) = protectName n"
  by (simp add: protectName_def hasQuotableChars_def)

section \<open>The invariant of the store\<close>

text \<open>
  Every name of the table has at least one symbol, the symbols listed under a name are those
  stored with it, once each, no two symbols share name and signature, and every number of
  sorts fits into its 23 bits.
\<close>

definition symstore_inv :: "symstore \<Rightarrow> bool" where
  "symstore_inv st \<longleftrightarrow>
     length (ss_names st) = length (ss_symbols st) \<and>
     (\<forall>n trs. ss_table st n = Some trs \<longrightarrow> trs \<noteq> [] \<and> distinct trs) \<and>
     (\<forall>n r. (\<exists>trs. ss_table st n = Some trs \<and> r \<in> set trs) \<longleftrightarrow>
        r < length (ss_symbols st) \<and> ss_names st ! r = n) \<and>
     (\<forall>q r. q < length (ss_symbols st) \<longrightarrow> r < length (ss_symbols st) \<longrightarrow>
        ss_names st ! q = ss_names st ! r \<longrightarrow>
        sy_sorts (ss_symbols st ! q) = sy_sorts (ss_symbols st ! r) \<longrightarrow> q = r) \<and>
     (\<forall>s \<in> set (ss_symbols st). sy_size s = length (sy_sorts s) \<and> length (sy_sorts s) < 2 ^ 23)"

lemma symstore_uniqueD:
  assumes "symstore_inv st" "q < length (ss_symbols st)" "r < length (ss_symbols st)"
    and "ss_names st ! q = ss_names st ! r" "sy_sorts (ss_symbols st ! q) = sy_sorts (ss_symbols st ! r)"
  shows "q = r"
proof -
  have "\<forall>q r. q < length (ss_symbols st) \<longrightarrow> r < length (ss_symbols st) \<longrightarrow>
      ss_names st ! q = ss_names st ! r \<longrightarrow> sy_sorts (ss_symbols st ! q) = sy_sorts (ss_symbols st ! r) \<longrightarrow> q = r"
    using assms(1) unfolding symstore_inv_def by (elim conjE)
  with assms(2-5) show ?thesis
    by metis
qed

lemma symstore_inv_empty: "symstore_inv SymStore_empty"
  by (simp add: symstore_inv_def SymStore_empty_def)

lemma symstore_size:
  assumes "symstore_inv st" "r < length (ss_symbols st)"
  shows "sy_size (ss_symbols st ! r) = length (sy_sorts (ss_symbols st ! r))"
    "length (sy_sorts (ss_symbols st ! r)) < 2 ^ 23"
  using assms nth_mem [OF assms(2)] unfolding symstore_inv_def by blast+

lemma same_signature_iff:
  assumes "args \<noteq> []" "length args < 2 ^ 23" "sy_size s = length (sy_sorts s)"
  shows "same_signature s args \<longleftrightarrow> sy_sorts s = args"
proof
  assume same: "same_signature s args"
  obtain r as where args: "args = r # as"
    using assms(1) by (cases args) auto
  obtain ss where ss: "sy_sorts s = r # ss"
    using same args by (cases "sy_sorts s") (auto simp: same_signature_def rsort_def)
  have "length ss = length as" "\<And>j. j < length ss \<Longrightarrow> ss ! j = as ! j"
    using same args ss assms(3) by (auto simp: same_signature_def nargs_def arg_sort_def)
  then show "sy_sorts s = args"
    using args ss by (auto intro: nth_equalityI)
next
  assume "sy_sorts s = args"
  with assms show "same_signature s args"
    by (cases args) (auto simp: same_signature_def rsort_def nargs_def arg_sort_def)
qed

text \<open>What \<open>newSymb\<close> leaves alone: the symbols that exist already.\<close>

definition symstore_ext :: "symstore \<Rightarrow> symstore \<Rightarrow> bool" where
  "symstore_ext st st' \<longleftrightarrow>
     (\<exists>syms names. ss_symbols st' = ss_symbols st @ syms \<and> ss_names st' = ss_names st @ names)"

lemma symstore_ext_refl: "symstore_ext st st"
  by (simp add: symstore_ext_def)

lemma symstore_ext_trans: "symstore_ext a b \<Longrightarrow> symstore_ext b c \<Longrightarrow> symstore_ext a c"
  by (auto simp: symstore_ext_def)

lemma symstore_table:
  "symstore_inv st \<Longrightarrow> (\<exists>trs. ss_table st n = Some trs \<and> r \<in> set trs) \<longleftrightarrow>
     r < length (ss_symbols st) \<and> ss_names st ! r = n"
  by (simp add: symstore_inv_def)

lemma newSymb_empty:
  assumes "symstore_inv st"
  shows "newSymb st n [] =
    (if contains_name st n then Inl Uninitialised_Read
     else Inr (length (ss_symbols st), st\<lparr>ss_symbols := ss_symbols st @ [Symbol_ctor []],
       ss_names := ss_names st @ [n], ss_table := (ss_table st)(n \<mapsto> [length (ss_symbols st)])\<rparr>))"
proof -
  have "trs \<noteq> []" if "ss_table st n = Some trs" for trs
    using assms that unfolding symstore_inv_def by blast
  then show ?thesis
    by (auto simp: newSymb_def contains_name_def getRefOrNull_def Let_def split: option.splits)
qed

lemma newSymb_nonempty:
  assumes "args \<noteq> []"
  shows "newSymb st n args =
    Inr (case (case ss_table st n of None \<Rightarrow> None
           | Some trs \<Rightarrow> List.find (\<lambda>tr. same_signature (sym_at st tr) args) trs) of
      Some tr \<Rightarrow> (tr, st)
    | None \<Rightarrow> (length (ss_symbols st), st\<lparr>ss_symbols := ss_symbols st @ [Symbol_ctor args],
        ss_names := ss_names st @ [n], ss_table := (ss_table st)(n \<mapsto>
          (case ss_table st n of None \<Rightarrow> [] | Some trs \<Rightarrow> trs) @ [length (ss_symbols st)])\<rparr>))"
  using assms by (simp add: newSymb_def getRefOrNull_def Let_def split: option.splits)

lemma newSymb_cases:
  assumes inv: "symstore_inv st" and small: "length args < 2 ^ 23"
    and new: "newSymb st n args = Inr (r, st')"
  obtains (old) "st' = st" "args \<noteq> []" "r < length (ss_symbols st)" "ss_names st ! r = n" "sy_sorts (ss_symbols st ! r) = args"
  | (fresh) trs where "r = length (ss_symbols st)" "ss_symbols st' = ss_symbols st @ [Symbol_ctor args]"
      "ss_names st' = ss_names st @ [n]" "ss_table st' = (ss_table st)(n \<mapsto> trs @ [r])"
      "trs = (case ss_table st n of None \<Rightarrow> [] | Some trs \<Rightarrow> trs)"
      "\<And>q. q < length (ss_symbols st) \<Longrightarrow> ss_names st ! q = n \<Longrightarrow> sy_sorts (ss_symbols st ! q) \<noteq> args"
proof -
  have table: "q < length (ss_symbols st) \<and> ss_names st ! q = m"
    if "ss_table st m = Some trs" "q \<in> set trs" for m trs q
    using that symstore_table [OF inv] by blast
  show ?thesis
  proof (cases "args = []")
    case True
    have e: "(if contains_name st n then Inl Uninitialised_Read
       else Inr (length (ss_symbols st), st\<lparr>ss_symbols := ss_symbols st @ [Symbol_ctor []],
         ss_names := ss_names st @ [n], ss_table := (ss_table st)(n \<mapsto> [length (ss_symbols st)])\<rparr>)) = Inr (r, st')"
      using new unfolding True newSymb_empty [OF inv] .
    then have c: "ss_table st n = None"
      by (simp add: contains_name_def split: if_splits)
    have no: "ss_names st ! q \<noteq> n" if "q < length (ss_symbols st)" for q
    proof -
      show ?thesis
        using symstore_table [OF inv, of n q] c that by simp
    qed
    have "r = length (ss_symbols st)" "st' = st\<lparr>ss_symbols := ss_symbols st @ [Symbol_ctor []],
         ss_names := ss_names st @ [n], ss_table := (ss_table st)(n \<mapsto> [length (ss_symbols st)])\<rparr>"
      using e c by (auto simp: contains_name_def)
    with c no show ?thesis
      by (intro fresh [of "[]"]) (simp_all add: True)
  next
    case ne: False
    have sig: "same_signature (sym_at st q) args \<longleftrightarrow> sy_sorts (ss_symbols st ! q) = args"
      if "q < length (ss_symbols st)" for q
      using same_signature_iff [OF ne small] symstore_size [OF inv that] by (simp add: sym_at_def)
    define found where "found = (case ss_table st n of None \<Rightarrow> None
      | Some trs \<Rightarrow> List.find (\<lambda>tr. same_signature (sym_at st tr) args) trs)"
    note eq = newSymb_nonempty [OF ne, of st n, folded found_def]
    show ?thesis
    proof (cases found)
      case (Some q)
      then obtain trs where "ss_table st n = Some trs" "q \<in> set trs" "same_signature (sym_at st q) args"
        by (auto simp: found_def find_Some_iff split: option.splits)
      moreover from this have "q < length (ss_symbols st) \<and> ss_names st ! q = n"
        using table by simp
      moreover have "r = q" "st' = st"
        using new Some by (simp_all add: eq)
      ultimately show ?thesis
        using old ne sig [of q] by blast
    next
      case None
      have no: "sy_sorts (ss_symbols st ! q) \<noteq> args" if q: "q < length (ss_symbols st)" "ss_names st ! q = n" for q
      proof -
        obtain trs where "ss_table st n = Some trs" "q \<in> set trs"
          using symstore_table [OF inv] q by blast
        with None show ?thesis
          using sig [OF q(1)] by (auto simp: found_def find_None_iff)
      qed
      show ?thesis
        by (rule fresh [of "case ss_table st n of None \<Rightarrow> [] | Some trs \<Rightarrow> trs"])
          (use new None no in \<open>auto simp: eq split: option.splits\<close>)
    qed
  qed
qed

lemma newSymb_ok:
  assumes inv: "symstore_inv st" and small: "length args < 2 ^ 23"
    and new: "newSymb st n args = Inr (r, st')"
  shows "symstore_inv st' \<and> symstore_ext st st' \<and> r < length (ss_symbols st') \<and>
    getName st' r = n \<and> sy_sorts (sym_at st' r) = args \<and>
    (if \<exists>q < length (ss_symbols st). getName st q = n \<and> sy_sorts (sym_at st q) = args
     then st' = st else ss_symbols st' = ss_symbols st @ [Symbol_ctor args])"
proof -
  have res: "symstore_inv st' \<and> symstore_ext st st' \<and> r < length (ss_symbols st') \<and>
    ss_names st' ! r = n \<and> sy_sorts (ss_symbols st' ! r) = args"
    using inv small new
  proof (cases rule: newSymb_cases)
    case old
    then show ?thesis
      using inv by (simp add: symstore_ext_refl)
  next
    case (fresh trs)
    let ?N = "length (ss_symbols st)"
    have len: "length (ss_names st) = ?N"
      using inv by (simp add: symstore_inv_def)
    have table: "(\<exists>trs. ss_table st m = Some trs \<and> q \<in> set trs) \<longleftrightarrow> q < ?N \<and> ss_names st ! q = m" for m q
      using inv by (simp add: symstore_inv_def)
    have trs: "q \<in> set trs \<longleftrightarrow> q < ?N \<and> ss_names st ! q = n" for q
      using table [of n q] fresh(5) by (auto split: option.splits)
    have "distinct trs"
      using inv fresh(5) by (auto simp: symstore_inv_def split: option.splits)
    then have "distinct (trs @ [r])"
      using trs fresh(1) by auto
    moreover have "(\<exists>ts. ss_table st' m = Some ts \<and> q \<in> set ts) \<longleftrightarrow>
        q < length (ss_symbols st') \<and> ss_names st' ! q = m" for m q
      using table [of m q] trs [of q] fresh(1-4) len by (auto simp: nth_append less_Suc_eq)
    moreover have "q = p" if "q < length (ss_symbols st')" "p < length (ss_symbols st')"
        "ss_names st' ! q = ss_names st' ! p" "sy_sorts (ss_symbols st' ! q) = sy_sorts (ss_symbols st' ! p)" for p q
    proof -
      have uniq: "q < ?N \<Longrightarrow> p < ?N \<Longrightarrow> ss_names st ! q = ss_names st ! p \<Longrightarrow>
          sy_sorts (ss_symbols st ! q) = sy_sorts (ss_symbols st ! p) \<Longrightarrow> q = p"
        using symstore_uniqueD [OF inv] by simp
      show ?thesis
        using that uniq fresh(2,3) fresh(6) [of p] fresh(6) [of q] len
        by (auto simp: nth_append less_Suc_eq Symbol_ctor_def split: if_splits)
    qed
    moreover have "ts \<noteq> [] \<and> distinct ts" if "ss_table st' m = Some ts" for m ts
      using that inv fresh(4) \<open>distinct (trs @ [r])\<close> by (auto simp: symstore_inv_def split: if_splits)
    ultimately have "symstore_inv st'"
      using inv fresh(2,3) len small unfolding symstore_inv_def by (auto simp: Symbol_ctor_def)
    then show ?thesis
      using fresh len by (simp add: symstore_ext_def nth_append Symbol_ctor_def)
  qed
  moreover have "if \<exists>q < length (ss_symbols st). ss_names st ! q = n \<and> sy_sorts (ss_symbols st ! q) = args
      then st' = st else ss_symbols st' = ss_symbols st @ [Symbol_ctor args]"
    using inv small new
  proof (cases rule: newSymb_cases)
    case old
    then show ?thesis
      by auto
  next
    case (fresh trs)
    then show ?thesis
      by auto
  qed
  ultimately show ?thesis
    by (simp add: getName_def sym_at_def)
qed

lemma newSymb_returns:
  assumes "symstore_inv st" "args \<noteq> [] \<or> \<not> contains_name st n"
  obtains r st' where "newSymb st n args = Inr (r, st')"
proof (cases "args = []")
  case True
  then show ?thesis
    using assms that newSymb_empty [OF assms(1), of n] by simp
next
  case False
  then show ?thesis
    using that newSymb_nonempty [OF False, of st n] by (metis prod.exhaust)
qed

lemma newSymb_again:
  assumes inv: "symstore_inv st" and small: "length args < 2 ^ 23" and ne: "args \<noteq> []"
    and new: "newSymb st n args = Inr (r, st')"
  shows "newSymb st' n args = Inr (r, st')"
proof -
  note res = newSymb_ok [OF inv small new]
  then have inv': "symstore_inv st'" and r: "r < length (ss_symbols st')" "ss_names st' ! r = n"
      "sy_sorts (ss_symbols st' ! r) = args"
    by (simp_all add: getName_def sym_at_def)
  obtain q st'' where q: "newSymb st' n args = Inr (q, st'')"
    using newSymb_returns [OF inv', of args n] ne by blast
  from inv' small q have "q < length (ss_symbols st') \<and> ss_names st' ! q = n \<and>
      sy_sorts (ss_symbols st' ! q) = args \<and> st'' = st'"
    by (cases rule: newSymb_cases) (use r in auto)
  moreover from this r have "q = r"
    by (intro symstore_uniqueD [OF inv']) simp_all
  ultimately show ?thesis
    using q by simp
qed

text \<open>
  C14. \<open>SymStore::newSymb\<close> with fewer than 2^23 sorts returns a symbol with the requested
  name and signature, creates one exactly when there is none yet, keeps every existing symbol,
  and keeps the table consistent: no two symbols share name and signature, and asking again
  gives the same symbol. Without any sort it creates a symbol for a new name and reads out of
  range for a known one.
\<close>

theorem newSymb_unique:
  assumes "symstore_inv st" and "length args < 2 ^ 23"
  shows "if args = [] \<and> contains_name st n then newSymb st n args = Inl Uninitialised_Read
    else \<exists>r st'. newSymb st n args = Inr (r, st') \<and> symstore_inv st' \<and> symstore_ext st st' \<and>
      r < length (ss_symbols st') \<and> getName st' r = n \<and> sy_sorts (sym_at st' r) = args \<and>
      (if \<exists>q < length (ss_symbols st). getName st q = n \<and> sy_sorts (sym_at st q) = args
       then st' = st else ss_symbols st' = ss_symbols st @ [Symbol_ctor args]) \<and>
      (args \<noteq> [] \<longrightarrow> newSymb st' n args = Inr (r, st'))"
proof (cases "args = [] \<and> contains_name st n")
  case True
  then show ?thesis
    using newSymb_empty [OF assms(1), of n] by simp
next
  case False
  then obtain r st' where new: "newSymb st n args = Inr (r, st')"
    using newSymb_returns [OF assms(1)] by metis
  with False newSymb_ok [OF assms new] newSymb_again [OF assms _ new] show ?thesis
    by (auto simp: if_bool_eq_conj)
qed

theorem newSymb_unique_witness:
  "(\<exists>r st'. newSymb SymStore_empty ''x'' [0] = Inr (r, st') \<and> symstore_inv st' \<and>
      newSymb st' ''x'' [0] = Inr (r, st'))"
proof -
  from newSymb_unique [OF symstore_inv_empty, of "[0]" "''x''"] show ?thesis
    by auto
qed

end
