(* ===== verification/Solver_Types.thy ===== *)
theory Solver_Types
  imports Opensmt_Prelude "HOL-Library.Word"
begin

unbundle bit_operations_syntax

text \<open>
  Literals and lifted booleans of \<open>src/src/minisat/core/SolverTypes.h\<close>. A variable is
  a natural number here (\<open>var_Undef\<close> is the absence of one); a literal is the code's
  integer, twice the variable plus the sign.
\<close>

section \<open>Literals\<close>

type_synonym lit = int

definition mkLit :: "nat \<Rightarrow> bool \<Rightarrow> lit" where
  "mkLit v s = int v + int v + (if s then 1 else 0)"

definition lit_not :: "lit \<Rightarrow> lit" where
  "lit_not p = p XOR 1"

definition lit_xor :: "lit \<Rightarrow> bool \<Rightarrow> lit" where
  "lit_xor p b = p XOR (if b then 1 else 0)"

definition lit_sign :: "lit \<Rightarrow> bool" where
  "lit_sign p \<longleftrightarrow> p AND 1 \<noteq> 0"

definition lit_var :: "lit \<Rightarrow> nat" where
  "lit_var p = nat (drop_bit 1 p)"

definition lit_less :: "lit \<Rightarrow> lit \<Rightarrow> bool" where
  "lit_less p q \<longleftrightarrow> p < q"

definition lit_Undef :: lit where "lit_Undef = - 2"
definition lit_Error :: lit where "lit_Error = - 1"

lemma mkLit_shape: "mkLit v s = 2 * int v + of_bool s"
  by (simp add: mkLit_def)

lemma lit_var_mkLit [simp]: "lit_var (mkLit v s) = v"
  by (simp add: lit_var_def mkLit_shape drop_bit_eq_div)

lemma lit_sign_mkLit [simp]: "lit_sign (mkLit v s) = s"
  by (simp add: lit_sign_def mkLit_shape and_one_eq)

lemma lit_not_mkLit [simp]: "lit_not (mkLit v s) = mkLit v (\<not> s)"
  by (simp add: lit_not_def mkLit_shape xor_one_eq)

lemma lit_xor_mkLit [simp]: "lit_xor (mkLit v s) b = mkLit v (s \<noteq> b)"
  using lit_not_mkLit [of v s] by (auto simp: lit_xor_def lit_not_def)

lemma mkLit_eq_iff [simp]: "mkLit v s = mkLit w t \<longleftrightarrow> v = w \<and> s = t"
  by (cases s; cases t; simp add: mkLit_shape; presburger?)

lemma lit_not_not [simp]: "lit_not (lit_not p) = p"
  by (simp add: lit_not_def xor.assoc)

section \<open>Satisfaction\<close>

text \<open>Truth of a literal, a clause and a list of clauses under an assignment of the variables.\<close>

definition lsat :: "(nat \<Rightarrow> bool) \<Rightarrow> lit \<Rightarrow> bool" where
  "lsat \<sigma> l \<longleftrightarrow> \<sigma> (lit_var l) \<noteq> lit_sign l"

definition csat :: "(nat \<Rightarrow> bool) \<Rightarrow> lit list \<Rightarrow> bool" where
  "csat \<sigma> c \<longleftrightarrow> (\<exists>l \<in> set c. lsat \<sigma> l)"

definition sat :: "(nat \<Rightarrow> bool) \<Rightarrow> lit list list \<Rightarrow> bool" where
  "sat \<sigma> cs \<longleftrightarrow> (\<forall>c \<in> set cs. csat \<sigma> c)"

lemma lsat_mkLit [simp]: "lsat \<sigma> (mkLit v s) = (\<sigma> v \<noteq> s)"
  by (simp add: lsat_def)

lemma lit_var_not [simp]: "lit_var (lit_not l) = lit_var l"
  by (simp add: lit_var_def lit_not_def drop_bit_xor)

lemma lsat_not [simp]: "lsat \<sigma> (lit_not l) = (\<not> lsat \<sigma> l)"
proof -
  have "lit_sign (lit_not l) = (\<not> lit_sign l)"
    by (cases "even l") (simp_all add: lit_sign_def lit_not_def and_one_eq xor_one_eq mod2_eq_if)
  then show ?thesis
    by (auto simp: lsat_def)
qed

lemma sat_append [simp]: "sat \<sigma> (cs @ ds) \<longleftrightarrow> sat \<sigma> cs \<and> sat \<sigma> ds"
  by (auto simp: sat_def)

section \<open>Literals in range\<close>

definition lit_ok :: "nat \<Rightarrow> lit \<Rightarrow> bool" where
  "lit_ok n p \<longleftrightarrow> 0 \<le> p \<and> lit_var p < n"

lemma lit_shape: "0 \<le> p \<Longrightarrow> p = mkLit (lit_var p) (lit_sign p)"
  by (cases "even p") (auto simp: mkLit_shape lit_var_def lit_sign_def drop_bit_eq_div and_one_eq mod2_eq_if)

lemma lit_ok_cases:
  assumes "lit_ok n p"
  obtains v b where "p = mkLit v b" "v < n"
  using assms lit_shape [of p] by (metis lit_ok_def)

lemma lit_ok_mkLit [simp]: "lit_ok n (mkLit v b) \<longleftrightarrow> v < n"
  unfolding lit_ok_def lit_var_mkLit by (simp add: mkLit_shape)

lemma lit_ok_not [simp]: "lit_ok n (lit_not p) \<longleftrightarrow> lit_ok n p"
  by (simp add: lit_ok_def lit_not_def)
    (metis (no_types) lit_not_def lit_var_not)

lemma lit_ok_mono: "lit_ok n p \<Longrightarrow> n \<le> m \<Longrightarrow> lit_ok m p"
  by (simp add: lit_ok_def)

lemma lit_ok_bound: "lit_ok n p \<Longrightarrow> nat p < 2 * n"
  by (elim lit_ok_cases) (auto simp: mkLit_shape nat_add_distrib nat_mult_distrib)

lemma nat_lit_eq: "lit_ok n p \<Longrightarrow> lit_ok n q \<Longrightarrow> nat p = nat q \<longleftrightarrow> p = q"
  by (auto simp: lit_ok_def)

section \<open>Lifted booleans\<close>

type_synonym lbool = "8 word"

definition l_True :: lbool where "l_True = 0"
definition l_False :: lbool where "l_False = 1"
definition l_Undef :: lbool where "l_Undef = 2"

definition lbool_of :: "bool \<Rightarrow> lbool" where
  "lbool_of x = (if x then 0 else 1)"

definition lbool_eq :: "lbool \<Rightarrow> lbool \<Rightarrow> bool" where
  "lbool_eq a b \<longleftrightarrow>
     ((b AND 2) AND (a AND 2)) OR ((if b AND 2 = 0 then 1 else 0) AND (if a = b then 1 else 0)) \<noteq> 0"

definition lbool_xor :: "lbool \<Rightarrow> bool \<Rightarrow> lbool" where
  "lbool_xor a b = a XOR (if b then 1 else 0)"

text \<open>The tables are 32-bit constants indexed by the two values; only two bits are kept.\<close>

definition lbool_and :: "lbool \<Rightarrow> lbool \<Rightarrow> lbool" where
  "lbool_and a b =
     ucast (drop_bit (unat (push_bit 1 a OR push_bit 3 b)) (0xF7F755F4 :: 32 word) AND 3)"

definition lbool_or :: "lbool \<Rightarrow> lbool \<Rightarrow> lbool" where
  "lbool_or a b =
     ucast (drop_bit (unat (push_bit 1 a OR push_bit 3 b)) (0xFCFCF400 :: 32 word) AND 3)"

lemma lbool_distinct [simp]:
  "l_True \<noteq> l_False" "l_False \<noteq> l_True" "l_True \<noteq> l_Undef" "l_Undef \<noteq> l_True"
  "l_False \<noteq> l_Undef" "l_Undef \<noteq> l_False"
  by (simp_all add: l_True_def l_False_def l_Undef_def)

lemma lbool_eq_defined [simp]:
  "lbool_eq l_True l_True" "lbool_eq l_False l_False" "\<not> lbool_eq l_True l_False"
  "\<not> lbool_eq l_False l_True" "lbool_eq l_Undef l_Undef" "\<not> lbool_eq l_Undef l_True"
  "\<not> lbool_eq l_Undef l_False" "\<not> lbool_eq l_True l_Undef" "\<not> lbool_eq l_False l_Undef"
  by (simp_all add: lbool_eq_def l_True_def l_False_def l_Undef_def)

text \<open>What a lifted boolean stands for: nothing, or a truth value.\<close>

definition lbool_sem :: "lbool \<Rightarrow> bool option" where
  "lbool_sem a = (if a AND 2 \<noteq> 0 then None else Some (a = 0))"

definition and3 :: "bool option \<Rightarrow> bool option \<Rightarrow> bool option" where
  "and3 p q = (if p = Some False \<or> q = Some False then Some False
     else if p = Some True \<and> q = Some True then Some True else None)"

definition or3 :: "bool option \<Rightarrow> bool option \<Rightarrow> bool option" where
  "or3 p q = (if p = Some True \<or> q = Some True then Some True
     else if p = Some False \<and> q = Some False then Some False else None)"

text \<open>
  The table-driven connectives of \<open>lbool\<close> are the three-valued conjunction and
  disjunction, and the comparison identifies all undefined values.
\<close>

theorem lbool_tables:
  assumes "a \<in> {0, 1, 2, 3}" and "b \<in> {0, 1, 2, 3}"
  shows "lbool_sem (lbool_and a b) = and3 (lbool_sem a) (lbool_sem b) \<and>
    lbool_sem (lbool_or a b) = or3 (lbool_sem a) (lbool_sem b) \<and>
    (lbool_eq a b \<longleftrightarrow> lbool_sem a = lbool_sem b)"
  using assms
  by (elim insertE emptyE)
    (simp_all add: lbool_and_def lbool_or_def lbool_eq_def lbool_sem_def and3_def or3_def)

theorem lbool_tables_witness:
  "lbool_sem (lbool_and 1 2) = Some False"
  using lbool_tables [of 1 2] by (simp add: lbool_sem_def and3_def)

end
