(* ===== verification/Terms.thy ===== *)
theory Terms
  imports Symbols Solver_Types
begin

text \<open>
  The term table: \<open>Pterm\<close> of \<open>src/src/pterms/Pterm.h\<close>, \<open>PtAsgn\<close> and the
  orders of \<open>PtStructs.h\<close>, and \<open>PtStore\<close> of \<open>PtStore.h\<close> and
  \<open>PtStore.C\<close>. A \<open>PTRef\<close> is the position of the term in the order of allocation,
  which is also its \<open>PTId\<close>; \<open>PTRef_Undef\<close> is \<open>None\<close>. Terms are never
  released or moved (\<open>free\<close> and \<open>reloc\<close> of the allocator have no callers that
  matter here), so a position stands for the same term for ever.
\<close>

type_synonym ptref = nat

section \<open>Terms and keys\<close>

record pterm =
  pt_sym :: symref
  pt_var :: "nat option"
  pt_args :: "ptref list"

definition Pterm_ctor :: "symref \<Rightarrow> ptref list \<Rightarrow> pterm" where
  "Pterm_ctor f ps = \<lparr>pt_sym = f, pt_var = None, pt_args = ps\<rparr>"

type_synonym ptlkey = "symref \<times> ptref list"

definition PTLKey_eq :: "ptlkey \<Rightarrow> ptlkey \<Rightarrow> bool" where
  "PTLKey_eq k1 k2 \<longleftrightarrow> fst k1 = fst k2 \<and> length (snd k1) = length (snd k2) \<and>
     (\<forall>i < length (snd k1). snd k1 ! i = snd k2 ! i)"

lemma PTLKey_eq_iff: "PTLKey_eq k1 k2 \<longleftrightarrow> k1 = k2"
  by (auto simp: PTLKey_eq_def prod_eq_iff intro: nth_equalityI)

text \<open>
  A term with a sign. \<open>PtAsgn_Undef\<close> has no term; its sign is \<open>l_Undef\<close>.
  \<open>operator<\<close> on \<open>PTRef\<close> compares the offsets the other way round, while
  \<open>LessThan_PTRef\<close> and \<open>LessThan_PtAsgn\<close> compare them as they are.
\<close>

type_synonym ptasgn = "ptref \<times> lbool"

definition PTRef_less :: "ptref \<Rightarrow> ptref \<Rightarrow> bool" where
  "PTRef_less a1 a2 \<longleftrightarrow> a1 > a2"

definition LessThan_PTRef :: "ptref \<Rightarrow> ptref \<Rightarrow> bool" where
  "LessThan_PTRef x y \<longleftrightarrow> x < y"

definition LessThan_PtAsgn :: "ptasgn \<Rightarrow> ptasgn \<Rightarrow> bool" where
  "LessThan_PtAsgn x y \<longleftrightarrow> fst x < fst y"

text \<open>
  Sorting of a vector by \<open>LessThan_PTRef\<close>, by \<open>operator<\<close> and by
  \<open>LessThan_PtAsgn\<close>. The result of a comparison sort by a total order does not depend on
  the algorithm of \<open>Sort.h\<close>; where two elements tie (the same term twice in
  \<open>LessThan_PtAsgn\<close>) the stable order is taken.
\<close>

definition termSort :: "ptref list \<Rightarrow> ptref list" where
  "termSort v = sort v"

definition sort_PTRef :: "ptref list \<Rightarrow> ptref list" where
  "sort_PTRef v = rev (sort v)"

definition sort_PtAsgn :: "ptasgn list \<Rightarrow> ptasgn list" where
  "sort_PtAsgn v = sort_key fst v"

fun isSorted :: "ptref list \<Rightarrow> bool" where
  "isSorted [] = True"
| "isSorted [c] = True"
| "isSorted (c # d # xs) = (LessThan_PTRef c d \<and> isSorted (d # xs))"

section \<open>The term store\<close>

record ptstore =
  ps_terms :: "pterm list"
  cterm_map :: "symref \<Rightarrow> ptref option"
  cplx_map :: "ptlkey \<Rightarrow> ptref option"
  bool_map :: "ptlkey \<Rightarrow> ptref option"

definition PtStore_empty :: ptstore where
  "PtStore_empty = \<lparr>ps_terms = [], cterm_map = Map.empty, cplx_map = Map.empty, bool_map = Map.empty\<rparr>"

definition term_at :: "ptstore \<Rightarrow> ptref \<Rightarrow> pterm" where
  "term_at ps t = ps_terms ps ! t"

definition newTerm :: "symref \<Rightarrow> ptref list \<Rightarrow> ptstore \<Rightarrow> ptref \<times> ptstore" where
  "newTerm f args ps = (length (ps_terms ps), ps\<lparr>ps_terms := ps_terms ps @ [Pterm_ctor f args]\<rparr>)"

definition hasCtermKey :: "symref \<Rightarrow> ptstore \<Rightarrow> bool" where
  "hasCtermKey k ps \<longleftrightarrow> cterm_map ps k \<noteq> None"
definition addToCtermMap :: "symref \<Rightarrow> ptref \<Rightarrow> ptstore \<Rightarrow> ptstore" where
  "addToCtermMap k tr ps = ps\<lparr>cterm_map := (cterm_map ps)(k \<mapsto> tr)\<rparr>"
definition getFromCtermMap :: "symref \<Rightarrow> ptstore \<Rightarrow> ptref" where
  "getFromCtermMap k ps = the (cterm_map ps k)"

definition hasBoolKey :: "ptlkey \<Rightarrow> ptstore \<Rightarrow> bool" where
  "hasBoolKey k ps \<longleftrightarrow> bool_map ps k \<noteq> None"
definition addToBoolMap :: "ptlkey \<Rightarrow> ptref \<Rightarrow> ptstore \<Rightarrow> ptstore" where
  "addToBoolMap k tr ps = ps\<lparr>bool_map := (bool_map ps)(k \<mapsto> tr)\<rparr>"
definition getFromBoolMap :: "ptlkey \<Rightarrow> ptstore \<Rightarrow> ptref" where
  "getFromBoolMap k ps = the (bool_map ps k)"

definition hasCplxKey :: "ptlkey \<Rightarrow> ptstore \<Rightarrow> bool" where
  "hasCplxKey k ps \<longleftrightarrow> cplx_map ps k \<noteq> None"
definition addToCplxMap :: "ptlkey \<Rightarrow> ptref \<Rightarrow> ptstore \<Rightarrow> ptstore" where
  "addToCplxMap k tr ps = ps\<lparr>cplx_map := (cplx_map ps)(k \<mapsto> tr)\<rparr>"
definition getFromCplxMap :: "ptlkey \<Rightarrow> ptstore \<Rightarrow> ptref" where
  "getFromCplxMap k ps = the (cplx_map ps k)"

text \<open>The iterator over all terms returns \<open>PTRef_Undef\<close> past the end.\<close>

definition PtermIter_deref :: "ptstore \<Rightarrow> nat \<Rightarrow> ptref option" where
  "PtermIter_deref ps i = (if i < length (ps_terms ps) then Some i else None)"

section \<open>Symbol lookup\<close>

text \<open>
  \<open>PtStore::lookupSymbol\<close>. The first loop runs only when the first symbol of the name is
  not scoped; it ends with a symbol, with \<open>SymRef_Undef\<close> on the first symbol that cannot
  match, by exiting on a right associative symbol, or falls through to the second loop. On a
  left associative symbol it reads \<open>args[0]\<close> without a check that there is one.
\<close>

datatype lookup = Lk_Return "symref option" | Lk_Error c_error | Lk_Fall

definition arg_rsort :: "symstore \<Rightarrow> ptstore \<Rightarrow> ptref \<Rightarrow> sref option" where
  "arg_rsort ss ps a = rsort (sym_at ss (pt_sym (term_at ps a)))"

definition args_match :: "symstore \<Rightarrow> ptstore \<Rightarrow> symbol \<Rightarrow> ptref list \<Rightarrow> bool" where
  "args_match ss ps t args \<longleftrightarrow>
     (\<forall>j < length args. arg_rsort ss ps (args ! j) = Some (arg_sort t j))"

fun lookup_noscoping :: "symstore \<Rightarrow> ptstore \<Rightarrow> ptref list \<Rightarrow> symref list \<Rightarrow> lookup" where
  "lookup_noscoping ss ps args [] = Lk_Fall"
| "lookup_noscoping ss ps args (ctr # rest) =
     (let t = sym_at ss ctr in
      if nargs t = length args then
        (if args_match ss ps t args then Lk_Return (Some ctr) else lookup_noscoping ss ps args rest)
      else if left_assoc t \<and> args = [] then Lk_Error Uninitialised_Read
      else if left_assoc t \<and> arg_rsort ss ps (hd args) = rsort t then
        (if \<forall>a \<in> set (tl args). arg_rsort ss ps a = Some (arg_sort t 1)
         then Lk_Return (Some ctr) else lookup_noscoping ss ps args rest)
      else if right_assoc t then Lk_Error Aborted
      else if nargs t < length args \<and> chainable t then
        (if \<forall>a \<in> set args. arg_rsort ss ps a = Some (arg_sort t 0)
         then Lk_Return (Some ctr) else lookup_noscoping ss ps args rest)
      else if nargs t < length args \<and> pairwise_sym t then
        (if \<forall>a \<in> set args. arg_rsort ss ps a = Some (arg_sort t 0)
         then Lk_Return (Some ctr) else lookup_noscoping ss ps args rest)
      else Lk_Return None)"

definition lookup_exact :: "symstore \<Rightarrow> ptstore \<Rightarrow> ptref list \<Rightarrow> symref list \<Rightarrow> symref option" where
  "lookup_exact ss ps args trefs =
     List.find (\<lambda>ctr. nargs (sym_at ss ctr) = length args \<and> args_match ss ps (sym_at ss ctr) args) trefs"

definition lookupSymbol :: "symstore \<Rightarrow> ptstore \<Rightarrow> string \<Rightarrow> ptref list \<Rightarrow> symref option result" where
  "lookupSymbol ss ps s args =
     (case getRefOrNull ss s of
        None \<Rightarrow> Inr None
      | Some trefs \<Rightarrow>
          (case (if noScoping (sym_at ss (hd trefs)) then lookup_noscoping ss ps args trefs else Lk_Fall) of
             Lk_Return r \<Rightarrow> Inr r
           | Lk_Error e \<Rightarrow> Inl e
           | Lk_Fall \<Rightarrow> Inr (lookup_exact ss ps args trefs)))"

text \<open>The shapes of argument lists a symbol takes.\<close>

definition accepts :: "symstore \<Rightarrow> ptstore \<Rightarrow> symbol \<Rightarrow> ptref list \<Rightarrow> bool" where
  "accepts ss ps t args \<longleftrightarrow>
     nargs t = length args \<and> args_match ss ps t args \<or>
     left_assoc t \<and> args \<noteq> [] \<and> arg_rsort ss ps (hd args) = rsort t \<and>
       (\<forall>a \<in> set (tl args). arg_rsort ss ps a = Some (arg_sort t 1)) \<or>
     nargs t < length args \<and> (chainable t \<or> pairwise_sym t) \<and>
       (\<forall>a \<in> set args. arg_rsort ss ps a = Some (arg_sort t 0))"

lemma lookup_noscoping_sound:
  "lookup_noscoping ss ps args trefs = Lk_Return (Some r) \<Longrightarrow>
   r \<in> set trefs \<and> accepts ss ps (sym_at ss r) args"
  by (induction trefs) (auto simp: accepts_def Let_def split: if_splits)

text \<open>
  A symbol that \<open>lookupSymbol\<close> returns has the name that was looked up and takes
  the given arguments: exactly, or as a left associative, chainable or pairwise symbol.
\<close>

theorem lookupSymbol_sound:
  assumes "symstore_inv ss" and "lookupSymbol ss ps s args = Inr (Some r)"
  shows "r < length (ss_symbols ss) \<and> getName ss r = s \<and> accepts ss ps (sym_at ss r) args"
proof -
  obtain trefs where t: "ss_table ss s = Some trefs"
    using assms(2) by (auto simp: lookupSymbol_def getRefOrNull_def split: option.splits)
  have "r \<in> set trefs \<and> accepts ss ps (sym_at ss r) args"
    using assms(2) t lookup_noscoping_sound [of ss ps args trefs r]
    by (auto simp: lookupSymbol_def getRefOrNull_def lookup_exact_def find_Some_iff accepts_def
        split: option.splits lookup.splits if_splits)
  moreover have "q \<in> set trefs \<Longrightarrow> q < length (ss_symbols ss) \<and> ss_names ss ! q = s" for q
    using assms(1) t unfolding symstore_inv_def by blast
  ultimately show ?thesis
    by (simp add: getName_def)
qed

definition sample_syms :: symstore where
  "sample_syms = (case newSymb SymStore_empty ''x'' [0] of Inl e \<Rightarrow> SymStore_empty | Inr r \<Rightarrow> snd r)"

theorem lookupSymbol_sound_witness:
  "getName sample_syms 0 = ''x'' \<and> accepts sample_syms PtStore_empty (sym_at sample_syms 0) []"
proof -
  have s: "sample_syms = \<lparr>ss_table = [''x'' \<mapsto> [0]], ss_symbols = [Symbol_ctor [0]], ss_names = [''x'']\<rparr>"
    by (simp add: sample_syms_def newSymb_def SymStore_empty_def getRefOrNull_def)
  have "symstore_inv sample_syms"
    by (auto simp: s symstore_inv_def Symbol_ctor_def)
  moreover have "lookupSymbol sample_syms PtStore_empty ''x'' [] = Inr (Some 0)"
    by (simp add: s lookupSymbol_def getRefOrNull_def sym_at_def noScoping_def Symbol_ctor_def
        lookup_exact_def nargs_def args_match_def)
  ultimately show ?thesis
    using lookupSymbol_sound by blast
qed

end
