(* ===== verification/Logic_Core.thy ===== *)
theory Logic_Core
  imports Terms
begin

text \<open>
  The class \<open>Logic\<close> of \<open>src/src/logics/Logic.h\<close> and \<open>Logic.C\<close>: the
  Boolean core with equality, disequality, if-then-else and uninterpreted functions. The
  state is the record \<open>logic\<close>, threaded through every operation that creates a term. An
  operation that returns a \<open>PTRef\<close> returns an option, \<open>None\<close> for
  \<open>PTRef_Undef\<close>; a failed assertion is an error. The argument vector that an operation
  sorts in place is not returned: no caller modelled here reads it again.
\<close>

section \<open>State\<close>

record ite =
  ite_i :: ptref
  ite_t :: ptref
  ite_e :: ptref
  ite_repr :: ptref

record logic =
  lg_syms :: symstore
  lg_terms :: ptstore
  equalities :: "symref set"
  disequalities :: "symref set"
  ites :: "symref set"
  ufsorts :: "sref set"
  constants :: "bool list"
  interpreted_functions :: "bool list"
  appears_in_uf :: "bool list"
  propFormulasAppearingInUF :: "ptref list"
  top_level_ites :: "ptref \<Rightarrow> ite option"
  ite_counter :: nat
  sym_TRUE :: symref
  sym_FALSE :: symref
  sym_ANON :: symref
  sym_AND :: symref
  sym_OR :: symref
  sym_XOR :: symref
  sym_NOT :: symref
  sym_UF_NOT :: symref
  sym_EQ :: symref
  sym_IMPLIES :: symref
  sym_DISTINCT :: symref
  sym_ITE :: symref
  sort_BOOL :: sref
  term_TRUE :: ptref
  term_FALSE :: ptref

type_synonym mk_result = "(ptref option \<times> logic) result"

definition getSym :: "logic \<Rightarrow> symref \<Rightarrow> symbol" where
  "getSym L f = sym_at (lg_syms L) f"

definition getPterm :: "logic \<Rightarrow> ptref \<Rightarrow> pterm" where
  "getPterm L t = term_at (lg_terms L) t"

text \<open>The use of a \<open>PTRef\<close> that must not be \<open>PTRef_Undef\<close>.\<close>

definition deref :: "mk_result \<Rightarrow> (ptref \<times> logic) result" where
  "deref r = rbind r (\<lambda>(t, L). case t of None \<Rightarrow> Inl Uninitialised_Read | Some t \<Rightarrow> Inr (t, L))"

section \<open>Queries\<close>

definition getSymRef :: "logic \<Rightarrow> ptref \<Rightarrow> symref" where
  "getSymRef L t = pt_sym (getPterm L t)"

definition getSortRef :: "logic \<Rightarrow> ptref \<Rightarrow> sref option" where
  "getSortRef L t = rsort (getSym L (getSymRef L t))"

definition hasSortBool_sym :: "logic \<Rightarrow> symref \<Rightarrow> bool" where
  "hasSortBool_sym L f \<longleftrightarrow> rsort (getSym L f) = Some (sort_BOOL L)"

definition hasSortBool :: "logic \<Rightarrow> ptref \<Rightarrow> bool" where
  "hasSortBool L t \<longleftrightarrow> rsort (getSym L (getSymRef L t)) = Some (sort_BOOL L)"

definition isEquality_sym :: "logic \<Rightarrow> symref \<Rightarrow> bool" where "isEquality_sym L f \<longleftrightarrow> f \<in> equalities L"
definition isEquality :: "logic \<Rightarrow> ptref \<Rightarrow> bool" where "isEquality L t \<longleftrightarrow> getSymRef L t \<in> equalities L"
definition isDisequality_sym :: "logic \<Rightarrow> symref \<Rightarrow> bool" where "isDisequality_sym L f \<longleftrightarrow> f \<in> disequalities L"
definition isDisequality :: "logic \<Rightarrow> ptref \<Rightarrow> bool" where "isDisequality L t \<longleftrightarrow> getSymRef L t \<in> disequalities L"
definition isIte_sym :: "logic \<Rightarrow> symref \<Rightarrow> bool" where "isIte_sym L f \<longleftrightarrow> f \<in> ites L"
definition isIte :: "logic \<Rightarrow> ptref \<Rightarrow> bool" where "isIte L t \<longleftrightarrow> getSymRef L t \<in> ites L"
definition isAnd :: "logic \<Rightarrow> ptref \<Rightarrow> bool" where "isAnd L t \<longleftrightarrow> getSymRef L t = sym_AND L"
definition isOr :: "logic \<Rightarrow> ptref \<Rightarrow> bool" where "isOr L t \<longleftrightarrow> getSymRef L t = sym_OR L"
definition isNot :: "logic \<Rightarrow> ptref \<Rightarrow> bool" where "isNot L t \<longleftrightarrow> getSymRef L t = sym_NOT L"
definition isXor :: "logic \<Rightarrow> ptref \<Rightarrow> bool" where "isXor L t \<longleftrightarrow> getSymRef L t = sym_XOR L"
definition isImplies :: "logic \<Rightarrow> ptref \<Rightarrow> bool" where "isImplies L t \<longleftrightarrow> getSymRef L t = sym_IMPLIES L"
definition isTrue :: "logic \<Rightarrow> ptref \<Rightarrow> bool" where "isTrue L t \<longleftrightarrow> getSymRef L t = sym_TRUE L"
definition isFalse :: "logic \<Rightarrow> ptref \<Rightarrow> bool" where "isFalse L t \<longleftrightarrow> getSymRef L t = sym_FALSE L"
definition isDistinct :: "logic \<Rightarrow> ptref \<Rightarrow> bool" where "isDistinct L t \<longleftrightarrow> getSymRef L t = sym_DISTINCT L"
definition isIff :: "logic \<Rightarrow> ptref \<Rightarrow> bool" where "isIff L t \<longleftrightarrow> getSymRef L t = sym_EQ L"

definition isUFEquality :: "logic \<Rightarrow> ptref \<Rightarrow> bool" where
  "isUFEquality L t \<longleftrightarrow> isEquality L t \<and> \<not> hasSortBool L (pt_args (getPterm L t) ! 0)"

definition isBooleanOperator_sym :: "logic \<Rightarrow> symref \<Rightarrow> bool" where
  "isBooleanOperator_sym L f \<longleftrightarrow>
     f = sym_AND L \<or> f = sym_OR L \<or> f = sym_NOT L \<or> f = sym_EQ L \<or> f = sym_XOR L \<or> f = sym_ITE L \<or>
     f = sym_IMPLIES L \<or> f = sym_DISTINCT L"

definition isBooleanOperator :: "logic \<Rightarrow> ptref \<Rightarrow> bool" where
  "isBooleanOperator L t \<longleftrightarrow> isBooleanOperator_sym L (getSymRef L t)"

definition isBuiltinFunction :: "logic \<Rightarrow> symref \<Rightarrow> bool" where
  "isBuiltinFunction L f \<longleftrightarrow>
     f = sym_TRUE L \<or> f = sym_FALSE L \<or> f = sym_AND L \<or> f = sym_OR L \<or> f = sym_XOR L \<or> f = sym_NOT L \<or>
     f = sym_EQ L \<or> f = sym_IMPLIES L \<or> f = sym_DISTINCT L \<or> f = sym_ITE L \<or>
     isEquality_sym L f \<or> isDisequality_sym L f"

definition isConstant_sym :: "logic \<Rightarrow> symref \<Rightarrow> bool" where
  "isConstant_sym L f \<longleftrightarrow> f < length (constants L) \<and> constants L ! f"

definition isConstant :: "logic \<Rightarrow> ptref \<Rightarrow> bool" where
  "isConstant L t \<longleftrightarrow> isConstant_sym L (getSymRef L t)"

definition isVar_sym :: "logic \<Rightarrow> symref \<Rightarrow> bool" where
  "isVar_sym L f \<longleftrightarrow> nargs (getSym L f) = 0 \<and> \<not> isConstant_sym L f"

definition isVar :: "logic \<Rightarrow> ptref \<Rightarrow> bool" where
  "isVar L t \<longleftrightarrow> isVar_sym L (getSymRef L t)"

definition isBoolAtom :: "logic \<Rightarrow> ptref \<Rightarrow> bool" where
  "isBoolAtom L t \<longleftrightarrow> hasSortBool L t \<and> isVar L t"

definition isUFSort :: "logic \<Rightarrow> sref option \<Rightarrow> bool" where
  "isUFSort L s \<longleftrightarrow> (\<exists>r. s = Some r \<and> r \<in> ufsorts L)"

definition isUFTerm :: "logic \<Rightarrow> ptref \<Rightarrow> bool" where
  "isUFTerm L t \<longleftrightarrow> isUFSort L (getSortRef L t)"

definition isUF_sym :: "logic \<Rightarrow> symref \<Rightarrow> bool" where
  "isUF_sym L f \<longleftrightarrow> nargs (getSym L f) > 0 \<and> \<not> interpreted_functions L ! f"

definition isIF_sym :: "logic \<Rightarrow> symref \<Rightarrow> bool" where
  "isIF_sym L f \<longleftrightarrow> nargs (getSym L f) > 0 \<and> interpreted_functions L ! f"

definition isUP :: "logic \<Rightarrow> ptref \<Rightarrow> bool" where
  "isUP L t \<longleftrightarrow>
     (let f = getSymRef L t in
      if isEquality_sym L f \<or> isDisequality_sym L f then False
      else if isInterpreted (getSym L f) then False
      else if nargs (getSym L f) = 0 then False
      else if rsort (getSym L f) \<noteq> Some (sort_BOOL L) then False
      else if isBooleanOperator_sym L f then False
      else True)"

definition isAtom :: "logic \<Rightarrow> ptref \<Rightarrow> bool" where
  "isAtom L r \<longleftrightarrow>
     (if rsort (getSym L (getSymRef L r)) = Some (sort_BOOL L) then
        if length (pt_args (getPterm L r)) = 0 then True
        else if getSymRef L r = sym_NOT L then False
        else if isEquality_sym L (getSymRef L r) \<and>
          rsort (getSym L (getSymRef L (pt_args (getPterm L r) ! 0))) \<noteq> Some (sort_BOOL L) then True
        else if isUP L r then True
        else if isDisequality L r then True
        else False
      else False)"

text \<open>\<open>isLit\<close> recurs through negations.\<close>

partial_function (option) isLit :: "logic \<Rightarrow> ptref \<Rightarrow> bool option" where
  "isLit L tr =
     (if rsort (getSym L (getSymRef L tr)) = Some (sort_BOOL L) then
        if length (pt_args (getPterm L tr)) = 0 then Some True
        else if getSymRef L tr = sym_NOT L then isLit L (pt_args (getPterm L tr) ! 0)
        else if isEquality L tr \<and>
          rsort (getSym L (getSymRef L (pt_args (getPterm L tr) ! 0))) \<noteq> Some (sort_BOOL L) then Some True
        else if isBooleanOperator L tr then Some False
        else Some True
      else Some False)"

text \<open>\<open>purify\<close>: the term under its negations, and its sign.\<close>

partial_function (option) purify_loop :: "logic \<Rightarrow> ptref \<Rightarrow> lbool \<Rightarrow> (ptref \<times> lbool) option" where
  "purify_loop L p sg =
     (if isNot L p then purify_loop L (pt_args (getPterm L p) ! 0) (lbool_xor sg True)
      else Some (p, sg))"

definition purify :: "logic \<Rightarrow> ptref \<Rightarrow> (ptref \<times> lbool) option" where
  "purify L r = purify_loop L r l_True"

definition appearsInUF :: "logic \<Rightarrow> ptref \<Rightarrow> bool" where
  "appearsInUF L t \<longleftrightarrow> t < length (appears_in_uf L) \<and> appears_in_uf L ! t"

definition setAppearsInUF :: "ptref \<Rightarrow> logic \<Rightarrow> logic" where
  "setAppearsInUF t L =
     (let L1 = (if length (appears_in_uf L) \<le> t \<or> \<not> appears_in_uf L ! t
          then L\<lparr>propFormulasAppearingInUF := propFormulasAppearingInUF L @ [t]\<rparr> else L);
          fl = appears_in_uf L1 @ replicate (t + 1 - length (appears_in_uf L1)) False
      in L1\<lparr>appears_in_uf := fl[t := True]\<rparr>)"

definition isTheorySymbol :: "logic \<Rightarrow> symref \<Rightarrow> bool" where
  "isTheorySymbol L f \<longleftrightarrow>
     (if f = sym_TRUE L \<or> f = sym_FALSE L then True
      else if rsort (getSym L f) = Some (sort_BOOL L) \<and> nargs (getSym L f) = 0 then False
      else \<not> isBooleanOperator_sym L f)"

definition isTheoryTerm :: "logic \<Rightarrow> ptref \<Rightarrow> bool result" where
  "isTheoryTerm L t =
     (let f = getSymRef L t in
      if f = sym_EQ L then require (length (pt_args (getPterm L t)) = 2) (Inr False)
      else if hasSortBool L t \<and> appearsInUF L t then Inr True
      else Inr (isTheorySymbol L f))"

section \<open>Inserting terms\<close>

definition insertTermHash :: "logic \<Rightarrow> symref \<Rightarrow> ptref list \<Rightarrow> ptref option \<times> logic" where
  "insertTermHash L f ts =
     (let ps = lg_terms L; s = getSym L f in
      if length ts = 0 then
        (if hasCtermKey f ps then (Some (getFromCtermMap f ps), L)
         else let (res, ps1) = newTerm f ts ps in (Some res, L\<lparr>lg_terms := addToCtermMap f res ps1\<rparr>))
      else if \<not> isBooleanOperator_sym L f then
        (if \<not> left_assoc s \<and> \<not> right_assoc s \<and> \<not> chainable s \<and> \<not> pairwise_sym s \<and>
            nargs s \<noteq> length ts
         then (None, L)
         else let k = (f, if sy_commutes s then termSort ts else ts) in
           if hasCplxKey k ps then (Some (getFromCplxMap k ps), L)
           else let (res, ps1) = newTerm f (snd k) ps in (Some res, L\<lparr>lg_terms := addToCplxMap k res ps1\<rparr>))
      else let k = (f, ts) in
        if hasBoolKey k ps then (Some (getFromBoolMap k ps), L)
        else let (res, ps1) = newTerm f ts ps in (Some res, L\<lparr>lg_terms := addToBoolMap k res ps1\<rparr>))"

definition mkFun :: "logic \<Rightarrow> symref option \<Rightarrow> ptref list \<Rightarrow> ptref option \<times> logic" where
  "mkFun L f args = (case f of None \<Rightarrow> (None, L) | Some f \<Rightarrow> insertTermHash L f args)"

text \<open>The check at the end of the operations: the term exists.\<close>

definition checked_term :: "ptref option \<times> logic \<Rightarrow> mk_result" where
  "checked_term r = require (fst r \<noteq> None) (Inr r)"

section \<open>Connectives\<close>

definition mkNot :: "logic \<Rightarrow> ptref \<Rightarrow> mk_result" where
  "mkNot L arg =
     (if \<not> hasSortBool L arg then Inr (None, L)
      else if isNot L arg then Inr (Some (pt_args (getPterm L arg) ! 0), L)
      else if isTrue L arg then Inr (Some (term_FALSE L), L)
      else if isFalse L arg then Inr (Some (term_TRUE L), L)
      else checked_term (mkFun L (Some (sym_NOT L)) [arg]))"

definition mkAnd :: "logic \<Rightarrow> ptref list \<Rightarrow> mk_result" where
  "mkAnd L args =
     (if \<exists>a \<in> set args. \<not> hasSortBool L a then Inr (None, L)
      else if length args = 0 then Inr (Some (term_TRUE L), L)
      else
        let ds = remdups_adj (termSort args) in
        if \<exists>a \<in> set ds. isFalse L a then Inr (Some (term_FALSE L), L)
        else case filter (\<lambda>a. \<not> isTrue L a) ds of
          [] \<Rightarrow> Inr (Some (term_TRUE L), L)
        | [a] \<Rightarrow> Inr (Some a, L)
        | newargs \<Rightarrow> checked_term (mkFun L (Some (sym_AND L)) newargs))"

text \<open>
  The loop of \<open>mkOr\<close> over the sorted signed arguments: \<open>None\<close> when it returns
  \<open>term_TRUE\<close>, otherwise the arguments that stay.
\<close>

fun or_loop :: "logic \<Rightarrow> ptref option \<times> lbool \<Rightarrow> ptasgn list \<Rightarrow> ptasgn list option result" where
  "or_loop L p [] = Inr (Some [])"
| "or_loop L p (x # xs) =
     (if isTrue L (fst x) then require (lbool_eq (snd x) l_True) (Inr None)
      else if isFalse L (fst x) then require (lbool_eq (snd x) l_True) (or_loop L p xs)
      else if fst p = Some (fst x) \<and> lbool_eq (snd p) (snd x) then or_loop L p xs
      else if fst p = Some (fst x) \<and> \<not> lbool_eq (snd p) (snd x) then Inr None
      else rbind (or_loop L (Some (fst x), snd x) xs) (\<lambda>r. Inr (map_option ((#) x) r)))"

definition or_sign :: "logic \<Rightarrow> ptref \<Rightarrow> ptasgn" where
  "or_sign L a = (if isNot L a then (pt_args (getPterm L a) ! 0, l_False) else (a, l_True))"

definition unsign :: "logic \<Rightarrow> ptasgn \<Rightarrow> (ptref \<times> logic) result" where
  "unsign L x = (if lbool_eq (snd x) l_True then Inr (fst x, L) else deref (mkNot L (fst x)))"

fun unsign_all :: "logic \<Rightarrow> ptasgn list \<Rightarrow> (ptref list \<times> logic) result" where
  "unsign_all L [] = Inr ([], L)"
| "unsign_all L (x # xs) =
     rbind (unsign L x) (\<lambda>(t, L1). rbind (unsign_all L1 xs) (\<lambda>(ts, L2). Inr (t # ts, L2)))"

definition mkOr :: "logic \<Rightarrow> ptref list \<Rightarrow> mk_result" where
  "mkOr L args =
     (if \<exists>a \<in> set args. \<not> hasSortBool L a then Inr (None, L)
      else if length args = 0 then Inr (Some (term_FALSE L), L)
      else rbind (or_loop L (None, l_Undef) (sort_PtAsgn (map (or_sign L) args))) (\<lambda>r.
        case r of
          None \<Rightarrow> Inr (Some (term_TRUE L), L)
        | Some [] \<Rightarrow> Inr (Some (term_FALSE L), L)
        | Some [x] \<Rightarrow> rbind (unsign L x) (\<lambda>(t, L1). Inr (Some t, L1))
        | Some xs \<Rightarrow> rbind (unsign_all L xs) (\<lambda>(newargs, L1).
            checked_term (mkFun L1 (Some (sym_OR L1)) newargs))))"

definition mkXor :: "logic \<Rightarrow> ptref list \<Rightarrow> mk_result" where
  "mkXor L args =
     (if \<exists>a \<in> set args. \<not> hasSortBool L a then Inr (None, L)
      else if length args \<noteq> 2 then Inr (None, L)
      else
        let a0 = args ! 0; a1 = args ! 1 in
        if a0 = a1 then Inr (Some (term_FALSE L), L)
        else rbind (mkNot L a1) (\<lambda>(n1, L1).
          if Some a0 = n1 then Inr (Some (term_TRUE L1), L1)
          else if a0 = term_TRUE L1 \<or> a1 = term_TRUE L1 then
            (if a0 = term_TRUE L1 then mkNot L1 a1 else mkNot L1 a0)
          else if a0 = term_FALSE L1 \<or> a1 = term_FALSE L1 then
            Inr (Some (if a0 = term_FALSE L1 then a1 else a0), L1)
          else checked_term (mkFun L1 (Some (sym_XOR L1)) (sort_PTRef args))))"

definition mkImpl :: "logic \<Rightarrow> ptref list \<Rightarrow> mk_result" where
  "mkImpl L args =
     (if \<exists>a \<in> set args. \<not> hasSortBool L a then Inr (None, L)
      else require (length args = 2)
        (let a0 = args ! 0; a1 = args ! 1 in
         if isFalse L a0 then Inr (Some (term_TRUE L), L)
         else if isTrue L a1 then Inr (Some (term_TRUE L), L)
         else if isTrue L a0 \<and> isFalse L a1 then Inr (Some (term_FALSE L), L)
         else rbind (deref (mkNot L a0)) (\<lambda>(n0, L1). rbind (mkOr L1 [n0, a1]) checked_term)))"

definition mkEq :: "logic \<Rightarrow> ptref list \<Rightarrow> mk_result" where
  "mkEq L args =
     require (length args = 2)
       (let a0 = args ! 0; a1 = args ! 1 in
        if isConstant L a0 \<and> isConstant L a1 then
          Inr (Some (if a0 = a1 then term_TRUE L else term_FALSE L), L)
        else if a0 = a1 then Inr (Some (term_TRUE L), L)
        else rbind (lookupSymbol (lg_syms L) (lg_terms L) ''='' args) (\<lambda>s.
          case s of
            None \<Rightarrow> Inl Uninitialised_Read
          | Some eq_sym \<Rightarrow>
            if hasSortBool_sym L eq_sym then
              rbind (mkNot L a1) (\<lambda>(n1, L1).
                if Some a0 = n1 then Inr (Some (term_FALSE L1), L1)
                else if a0 = term_TRUE L1 \<or> a1 = term_TRUE L1 then
                  Inr (Some (if a0 = term_TRUE L1 then a1 else a0), L1)
                else if a0 = term_FALSE L1 \<or> a1 = term_FALSE L1 then
                  (if a0 = term_FALSE L1 then mkNot L1 a1 else mkNot L1 a0)
                else Inr (mkFun L1 (Some eq_sym) args))
            else Inr (mkFun L (Some eq_sym) args)))"

section \<open>Symbols, variables, constants\<close>

definition newSymb_logic :: "logic \<Rightarrow> string \<Rightarrow> sref list \<Rightarrow> (symref \<times> logic) result" where
  "newSymb_logic L name sorts =
     rbind (newSymb (lg_syms L) name sorts) (\<lambda>(sr, ss). Inr (sr, L\<lparr>lg_syms := ss\<rparr>))"

definition mkVar :: "logic \<Rightarrow> sref \<Rightarrow> string \<Rightarrow> (ptref \<times> logic) result" where
  "mkVar L s name =
     rbind (newSymb_logic L name [s]) (\<lambda>(sr, L1).
     let (ptr, L2) = mkFun L1 (Some sr) []
     in case ptr of None \<Rightarrow> Inl Assertion_Failed | Some t \<Rightarrow> Inr (t, L2))"

definition markConstant :: "symref \<Rightarrow> logic \<Rightarrow> logic" where
  "markConstant i L =
     L\<lparr>constants := (constants L @ replicate (i + 1 - length (constants L)) False)[i := True]\<rparr>"

text \<open>
  \<open>mkConst\<close> of a sort. For \<open>Bool\<close> and a name other than the two constants the code
  prepares an error message, and then creates the constant all the same.
\<close>

definition mkConst :: "logic \<Rightarrow> sref \<Rightarrow> string \<Rightarrow> (ptref \<times> logic) result" where
  "mkConst L s name =
     require (name \<noteq> '''')
       (rbind (mkVar L s name) (\<lambda>(ptr, L1). Inr (ptr, markConstant (getSymRef L1 ptr) L1)))"

definition declareFun :: "logic \<Rightarrow> string \<Rightarrow> sref \<Rightarrow> sref list \<Rightarrow> bool \<Rightarrow> (symref \<times> logic) result" where
  "declareFun L fname rs args interpreted =
     rbind (newSymb_logic L fname (rs # args)) (\<lambda>(sr, L1).
     let fl = interpreted_functions L1 @ replicate (sr + 1 - length (interpreted_functions L1)) False
     in Inr (sr, L1\<lparr>interpreted_functions := fl[sr := interpreted]\<rparr>))"

definition mkBoolVar :: "logic \<Rightarrow> string \<Rightarrow> mk_result" where
  "mkBoolVar L name =
     rbind (declareFun L name (sort_BOOL L) [] False) (\<lambda>(sr, L1). Inr (mkFun L1 (Some sr) []))"

definition upd_sym :: "symref \<Rightarrow> (symbol \<Rightarrow> symbol) \<Rightarrow> logic \<Rightarrow> logic" where
  "upd_sym r f L = L\<lparr>lg_syms := upd_symbol r f (lg_syms L)\<rparr>"

definition set_interpreted :: "symref \<Rightarrow> logic \<Rightarrow> logic" where
  "set_interpreted r L = L\<lparr>lg_syms := setInterpreted r (lg_syms L)\<rparr>"

definition declare_sort_hook :: "logic \<Rightarrow> sref \<Rightarrow> (bool \<times> logic) result" where
  "declare_sort_hook L sr =
     rbind (declareFun L ''='' (sort_BOOL L) [sr, sr] True) (\<lambda>(tr, L1).
     let L2 = upd_sym tr (\<lambda>s. snd (setChainable (setCommutes (setNoScoping s)))) L1;
         L3 = L2\<lparr>equalities := insert tr (equalities L2)\<rparr> in
     rbind (declareFun L3 ''distinct'' (sort_BOOL L3) [sr, sr] True) (\<lambda>(td, L4).
     if \<not> fst (setPairwise (getSym L4 td)) then Inr (False, L4)
     else
       let L5 = upd_sym td (\<lambda>s. setCommutes (setNoScoping (snd (setPairwise s)))) L4;
           L6 = L5\<lparr>disequalities := insert td (disequalities L5)\<rparr> in
       rbind (declareFun L6 ''ite'' sr [sort_BOOL L6, sr, sr] True) (\<lambda>(ti, L7).
       let L8 = upd_sym ti setNoScoping L7
       in Inr (True, L8\<lparr>ites := insert ti (ites L8)\<rparr>))))"

text \<open>\<open>declareSort\<close> once the sort store has given the new sort its reference.\<close>

definition declareSort :: "logic \<Rightarrow> sref \<Rightarrow> logic result" where
  "declareSort L sr =
     rbind (declare_sort_hook L sr) (\<lambda>(_, L1). Inr (L1\<lparr>ufsorts := insert sr (ufsorts L1)\<rparr>))"

section \<open>If-then-else\<close>

fun nat_str :: "nat \<Rightarrow> string" where
  "nat_str n = (if n < 10 then [char_of (48 + n)] else nat_str (n div 10) @ [char_of (48 + n mod 10)])"

declare nat_str.simps [simp del]

text \<open>
  The counter of the names is a static \<open>unsigned\<close>, shared by all logics of a process and printed with
  \<open>%d\<close>. Here it is a number of the logic without a bound, so that runs of 2^31 calls are not covered.
\<close>

definition mkIte :: "logic \<Rightarrow> ptref list \<Rightarrow> mk_result" where
  "mkIte L args =
     (if \<not> hasSortBool L (args ! 0) then Inr (None, L)
      else require (length args = 3)
        (let c = args ! 0; t = args ! 1; e = args ! 2 in
         if isTrue L c then Inr (Some t, L)
         else if isFalse L c then Inr (Some e, L)
         else if t = e then Inr (Some t, L)
         else require (getSortRef L t = getSortRef L e)
          (case getSortRef L t of
             None \<Rightarrow> Inl Uninitialised_Read
           | Some sr \<Rightarrow>
             rbind (mkVar (L\<lparr>ite_counter := ite_counter L + 1\<rparr>) sr (''.oite'' @ nat_str (ite_counter L)))
               (\<lambda>(o_ite, L1).
             rbind (deref (mkEq L1 [o_ite, t])) (\<lambda>(eq1, L2).
             rbind (deref (mkImpl L2 [c, eq1])) (\<lambda>(if_term, L3).
             rbind (deref (mkEq L3 [o_ite, e])) (\<lambda>(eq2, L4).
             rbind (deref (mkNot L4 c)) (\<lambda>(nc, L5).
             rbind (deref (mkImpl L5 [nc, eq2])) (\<lambda>(else_term, L6).
             rbind (mkAnd L6 [if_term, else_term]) (\<lambda>(repr, L7).
             require (repr \<noteq> None) (require (top_level_ites L7 o_ite = None)
               (Inr (Some o_ite, L7\<lparr>top_level_ites := (top_level_ites L7)(o_ite \<mapsto>
                 \<lparr>ite_i = c, ite_t = t, ite_e = e, ite_repr = the repr\<rparr>)\<rparr>)))))))))))))"

section \<open>insertTerm\<close>

fun mark_uf_args :: "logic \<Rightarrow> ptref list \<Rightarrow> logic result" where
  "mark_uf_args L [] = Inr L"
| "mark_uf_args L (a # as) =
     (if hasSortBool L a
      then rbind (deref (mkNot (setAppearsInUF a L) a)) (\<lambda>(n, L1). mark_uf_args (setAppearsInUF n L1) as)
      else mark_uf_args L as)"

definition mkUninterpFun :: "logic \<Rightarrow> symref \<Rightarrow> ptref list \<Rightarrow> mk_result" where
  "mkUninterpFun L f args =
     rbind (deref (Inr (mkFun L (Some f) args))) (\<lambda>(tr, L1).
     require (isUFTerm L1 tr \<or> isUP L1 tr)
       (rbind (mark_uf_args L1 args) (\<lambda>L2. Inr (Some tr, L2))))"

definition insertTerm :: "logic \<Rightarrow> symref \<Rightarrow> ptref list \<Rightarrow> mk_result" where
  "insertTerm L f ts =
     (if f = sym_AND L then mkAnd L ts
      else if f = sym_OR L then mkOr L ts
      else if f = sym_XOR L then mkXor L ts
      else if f = sym_NOT L then mkNot L (ts ! 0)
      else if isEquality_sym L f then mkEq L ts
      else if isDisequality_sym L f then Inr (mkFun L (Some f) ts)
      else if isIte_sym L f then mkIte L ts
      else if f = sym_IMPLIES L then mkImpl L ts
      else if f = sym_TRUE L then Inr (Some (term_TRUE L), L)
      else if f = sym_FALSE L then Inr (Some (term_FALSE L), L)
      else if isVar_sym L f then require (length ts = 0) (Inr (mkFun L (Some f) ts))
      else mkUninterpFun L f ts)"

definition lookupUPEq :: "logic \<Rightarrow> ptref \<Rightarrow> mk_result" where
  "lookupUPEq L ptr =
     require (isUP L ptr)
       (if isEquality L ptr \<or> isDisequality L ptr then Inr (Some ptr, L)
        else mkEq L [ptr, term_TRUE L])"

definition hasEquality :: "logic \<Rightarrow> ptref list \<Rightarrow> ptref option result" where
  "hasEquality L args =
     rbind (lookupSymbol (lg_syms L) (lg_terms L) ''='' args) (\<lambda>s.
     case s of None \<Rightarrow> Inl Assertion_Failed
     | Some f \<Rightarrow>
         let k = (f, termSort args) in
         Inr (if hasCplxKey k (lg_terms L) then Some (getFromCplxMap k (lg_terms L)) else None))"

end
