(* ===== verification/Logic_Init.thy ===== *)
theory Logic_Init
  imports Logic_Core
begin

text \<open>
  The constructor of \<open>Logic\<close>: the Boolean constants and the predefined symbols, in the
  order in which the code creates them. The sort store gives the reference of \<open>Bool\<close>.
\<close>

definition SymRef_Undef :: symref where "SymRef_Undef = 2147483647"
definition PTRef_Undef :: ptref where "PTRef_Undef = 2147483647"

definition Logic_blank :: "sref \<Rightarrow> logic" where
  "Logic_blank b = \<lparr>lg_syms = SymStore_empty, lg_terms = PtStore_empty, equalities = {}, disequalities = {},
     ites = {}, ufsorts = {}, constants = [], interpreted_functions = [], appears_in_uf = [],
     propFormulasAppearingInUF = [], top_level_ites = Map.empty, ite_counter = 0,
     sym_TRUE = SymRef_Undef, sym_FALSE = SymRef_Undef, sym_ANON = SymRef_Undef, sym_AND = SymRef_Undef,
     sym_OR = SymRef_Undef, sym_XOR = SymRef_Undef, sym_NOT = SymRef_Undef, sym_UF_NOT = SymRef_Undef,
     sym_EQ = SymRef_Undef, sym_IMPLIES = SymRef_Undef, sym_DISTINCT = SymRef_Undef, sym_ITE = SymRef_Undef,
     sort_BOOL = b, term_TRUE = PTRef_Undef, term_FALSE = PTRef_Undef\<rparr>"

definition nameToRef0 :: "logic \<Rightarrow> string \<Rightarrow> symref" where
  "nameToRef0 L n = hd (the (ss_table (lg_syms L) n))"

text \<open>A Boolean constant: the term, its symbol, and the flags of the symbol.\<close>

definition init_const :: "logic \<Rightarrow> string \<Rightarrow> (ptref \<times> symref \<times> logic) result" where
  "init_const L n =
     rbind (mkConst L (sort_BOOL L) n) (\<lambda>(t, L1).
     let f = nameToRef0 L1 n in
     Inr (t, f, set_interpreted f (upd_sym f setNoScoping L1)))"

text \<open>
  A predefined function: declared as interpreted, its type set if it has one (an assertion
  fails if it had one before), not scoped, commuting or not.
\<close>

definition init_fun ::
  "logic \<Rightarrow> string \<Rightarrow> sref list \<Rightarrow> (symbol \<Rightarrow> bool \<times> symbol) option \<Rightarrow> bool \<Rightarrow> (symref \<times> logic) result" where
  "init_fun L n params typ comm =
     rbind (declareFun L n (sort_BOOL L) params True) (\<lambda>(f, L1).
     let r = (case typ of None \<Rightarrow> (True, getSym L1 f) | Some st \<Rightarrow> st (getSym L1 f))
     in require (fst r)
        (let L2 = upd_sym f (\<lambda>_. snd r) L1;
             L3 = upd_sym f setNoScoping L2;
             L4 = (if comm then upd_sym f setCommutes L3 else L3)
         in Inr (f, L4)))"

definition Logic_ctor :: "sref \<Rightarrow> logic result" where
  "Logic_ctor b =
     (let L = Logic_blank b; bool1 = [b]; bool2 = [b, b] in
      rbind (init_const L ''true'') (\<lambda>(t, f, L). let L = L\<lparr>term_TRUE := t, sym_TRUE := f\<rparr> in
      rbind (init_const L ''false'') (\<lambda>(t, f, L). let L = L\<lparr>term_FALSE := t, sym_FALSE := f\<rparr> in
      rbind (newSymb_logic L ''.anon'' []) (\<lambda>(f, L). let L = L\<lparr>sym_ANON := f\<rparr> in
      rbind (newSymb_logic L ''.uf-not'' bool1) (\<lambda>(f, L). let L = L\<lparr>sym_UF_NOT := f\<rparr> in
      rbind (init_fun L ''not'' bool1 None False) (\<lambda>(f, L).
        let L = set_interpreted f (L\<lparr>sym_NOT := f\<rparr>) in
      rbind (init_fun L ''='' bool2 (Some setChainable) True) (\<lambda>(f, L).
        let L = set_interpreted f (L\<lparr>sym_EQ := f, equalities := insert f (equalities L)\<rparr>) in
      rbind (init_fun L ''=>'' bool2 (Some setRightAssoc) False) (\<lambda>(f, L).
        let L = set_interpreted f (L\<lparr>sym_IMPLIES := f\<rparr>) in
      rbind (init_fun L ''and'' bool2 (Some setLeftAssoc) True) (\<lambda>(f, L).
        let L = set_interpreted f (L\<lparr>sym_AND := f\<rparr>) in
      rbind (init_fun L ''or'' bool2 (Some setLeftAssoc) True) (\<lambda>(f, L).
        let L = set_interpreted f (L\<lparr>sym_OR := f\<rparr>) in
      rbind (init_fun L ''xor'' bool2 (Some setLeftAssoc) True) (\<lambda>(f, L).
        let L = set_interpreted (sym_OR L) (L\<lparr>sym_XOR := f\<rparr>) in
      rbind (init_fun L ''distinct'' bool2 (Some setPairwise) True) (\<lambda>(f, L).
        let L = set_interpreted f (L\<lparr>sym_DISTINCT := f, disequalities := insert f (disequalities L)\<rparr>) in
      rbind (init_fun L ''ite'' bool2 (Some setLeftAssoc) False) (\<lambda>(f, L).
        let L = set_interpreted f (L\<lparr>sym_ITE := f\<rparr>) in
      Inr (L\<lparr>ites := insert f (ites L)\<rparr>))))))))))))))"

end
