(* ===== verification/Logic_Inv.thy ===== *)
theory Logic_Inv
  imports Logic_Init
begin

text \<open>
  The meaning of terms and the invariant of \<open>Logic\<close>: what the symbols of the core stand
  for, the value of a term under an interpretation of the other symbols, hash consing, and
  that inserting a term keeps all of it.
\<close>

section \<open>Values and interpretations\<close>

text \<open>
  A value is a Boolean or an element of some other sort; an interpretation gives a value to
  the application of a symbol that the core does not fix.
\<close>

datatype 'u val = VB bool | VU 'u

type_synonym 'u interp = "symref \<Rightarrow> 'u val list \<Rightarrow> 'u val"

definition tv :: "'u val \<Rightarrow> bool" where
  "tv v \<longleftrightarrow> v = VB True"

lemma tv_VB [simp]: "tv (VB b) = b"
  by (simp add: tv_def)

definition app_sym :: "logic \<Rightarrow> 'u interp \<Rightarrow> symref \<Rightarrow> 'u val list \<Rightarrow> 'u val" where
  "app_sym L I f vs =
     (if f = sym_TRUE L then VB True
      else if f = sym_FALSE L then VB False
      else if f = sym_NOT L then VB (\<not> tv (hd vs))
      else if f = sym_AND L then VB (\<forall>v \<in> set vs. tv v)
      else if f = sym_OR L then VB (\<exists>v \<in> set vs. tv v)
      else if f = sym_XOR L then VB (foldl (\<lambda>b v. b \<noteq> tv v) False vs)
      else if f = sym_IMPLIES L then VB (tv (vs ! 0) \<longrightarrow> tv (vs ! 1))
      else if f \<in> equalities L then VB (\<exists>v. set vs \<subseteq> {v})
      else if f \<in> disequalities L then VB (distinct vs)
      else if f \<in> ites L then (if tv (vs ! 0) then vs ! 1 else vs ! 2)
      else I f vs)"

text \<open>Every argument of a term was created before it; the guard makes the recursion end.\<close>

function eval :: "logic \<Rightarrow> 'u interp \<Rightarrow> ptref \<Rightarrow> 'u val" where
  "eval L I t = app_sym L I (getSymRef L t)
     (map (\<lambda>a. if a < t then eval L I a else VB False) (pt_args (getPterm L t)))"
  by pat_completeness auto
termination
  by (relation "measure (\<lambda>(L, I, t). t)") auto

declare eval.simps [simp del]

abbreviation nterms :: "logic \<Rightarrow> nat" where "nterms L \<equiv> length (ps_terms (lg_terms L))"
abbreviation nsyms :: "logic \<Rightarrow> nat" where "nsyms L \<equiv> length (ss_symbols (lg_syms L))"
abbreviation targs :: "logic \<Rightarrow> ptref \<Rightarrow> ptref list" where "targs L t \<equiv> pt_args (getPterm L t)"

section \<open>The invariant\<close>

definition core_syms :: "logic \<Rightarrow> symref list" where
  "core_syms L = [sym_TRUE L, sym_FALSE L, sym_AND L, sym_OR L, sym_XOR L, sym_NOT L, sym_IMPLIES L]"

text \<open>
  The predefined symbols are different and of sort \<open>Bool\<close>; the sets of equality,
  disequality and if-then-else symbols do not overlap; only equalities and disequalities
  commute outside the Boolean operators; constants take no arguments; the symbols named
  \<open>=\<close> are the equalities, one for each argument sort.
\<close>

definition syms_ok :: "logic \<Rightarrow> bool" where
  "syms_ok L \<longleftrightarrow>
     symstore_inv (lg_syms L) \<and>
     distinct (core_syms L @ [sym_EQ L, sym_DISTINCT L, sym_ITE L]) \<and>
     (\<forall>f \<in> set (core_syms L @ [sym_ITE L]). f < nsyms L \<and> hasSortBool_sym L f) \<and>
     sym_EQ L \<in> equalities L \<and> sym_DISTINCT L \<in> disequalities L \<and> sym_ITE L \<in> ites L \<and>
     equalities L \<inter> disequalities L = {} \<and> equalities L \<inter> ites L = {} \<and> disequalities L \<inter> ites L = {} \<and>
     (\<forall>f \<in> equalities L \<union> disequalities L. f < nsyms L \<and> hasSortBool_sym L f \<and> f \<notin> set (core_syms L)) \<and>
     (\<forall>f \<in> ites L. f < nsyms L \<and> f \<notin> set (core_syms L)) \<and>
     (\<forall>f < nsyms L. sy_commutes (getSym L f) \<longrightarrow> \<not> isBooleanOperator_sym L f \<longrightarrow>
        f \<in> equalities L \<union> disequalities L) \<and>
     isConstant_sym L (sym_TRUE L) \<and> isConstant_sym L (sym_FALSE L) \<and>
     (\<forall>f. isConstant_sym L f \<longrightarrow> f < nsyms L \<and> nargs (getSym L f) = 0 \<and>
        f \<notin> {sym_AND L, sym_OR L, sym_XOR L, sym_NOT L, sym_IMPLIES L} \<union> equalities L \<union> disequalities L \<union> ites L) \<and>
     (\<forall>f \<in> equalities L. getName (lg_syms L) f = ''='' \<and> chainable (getSym L f) \<and> noScoping (getSym L f)) \<and>
     (\<forall>f < nsyms L. getName (lg_syms L) f = ''='' \<longrightarrow> f \<in> equalities L \<and>
        (\<exists>s. sy_sorts (getSym L f) = [sort_BOOL L, s, s] \<and> (s = sort_BOOL L \<longleftrightarrow> f = sym_EQ L)))"

text \<open>The argument lists a symbol has in a term of the store.\<close>

definition shape_ok :: "logic \<Rightarrow> symref \<Rightarrow> ptref list \<Rightarrow> bool" where
  "shape_ok L f as \<longleftrightarrow>
     f < nsyms L \<and> f \<notin> ites L \<and>
     (isConstant_sym L f \<longrightarrow> as = []) \<and>
     (isBooleanOperator_sym L f \<longrightarrow> as \<noteq> [] \<and> (\<forall>a \<in> set as. hasSortBool L a)) \<and>
     (f = sym_NOT L \<longrightarrow> length as = 1 \<and> getSymRef L (as ! 0) \<notin> {sym_NOT L, sym_TRUE L, sym_FALSE L}) \<and>
     (f = sym_XOR L \<or> f = sym_IMPLIES L \<or> f \<in> equalities L \<longrightarrow> length as = 2) \<and>
     (f \<in> equalities L \<longrightarrow> getSortRef L (as ! 0) = getSortRef L (as ! 1))"

definition hash_ok :: "logic \<Rightarrow> bool" where
  "hash_ok L \<longleftrightarrow>
     (\<forall>f t. cterm_map (lg_terms L) f = Some t \<longleftrightarrow> t < nterms L \<and> getSymRef L t = f \<and> targs L t = []) \<and>
     (\<forall>f as t. bool_map (lg_terms L) (f, as) = Some t \<longleftrightarrow>
        t < nterms L \<and> getSymRef L t = f \<and> targs L t = as \<and> as \<noteq> [] \<and> isBooleanOperator_sym L f) \<and>
     (\<forall>f as t. cplx_map (lg_terms L) (f, as) = Some t \<longleftrightarrow>
        t < nterms L \<and> getSymRef L t = f \<and> targs L t = as \<and> as \<noteq> [] \<and> \<not> isBooleanOperator_sym L f)"

definition terms_ok :: "logic \<Rightarrow> bool" where
  "terms_ok L \<longleftrightarrow>
     (\<forall>t < nterms L. (\<forall>a \<in> set (targs L t). a < t) \<and> shape_ok L (getSymRef L t) (targs L t)) \<and>
     term_TRUE L < nterms L \<and> getSymRef L (term_TRUE L) = sym_TRUE L \<and>
     term_FALSE L < nterms L \<and> getSymRef L (term_FALSE L) = sym_FALSE L"

definition linv :: "logic \<Rightarrow> bool" where
  "linv L \<longleftrightarrow> syms_ok L \<and> hash_ok L \<and> terms_ok L"

text \<open>What an operation leaves alone.\<close>

definition frame where
  "frame L = (equalities L, disequalities L, ites L, ufsorts L, constants L,
     (sym_TRUE L, sym_FALSE L, sym_AND L, sym_OR L, sym_XOR L, sym_NOT L, sym_EQ L, sym_IMPLIES L,
      sym_DISTINCT L, sym_ITE L), sort_BOOL L, term_TRUE L, term_FALSE L)"

definition extends :: "logic \<Rightarrow> logic \<Rightarrow> bool" where
  "extends L L' \<longleftrightarrow> frame L' = frame L \<and> symstore_ext (lg_syms L) (lg_syms L') \<and>
     (\<exists>ts. ps_terms (lg_terms L') = ps_terms (lg_terms L) @ ts)"

lemma ext_refl [simp]: "extends L L"
  by (simp add: extends_def symstore_ext_refl)

lemma ext_trans: "extends A B \<Longrightarrow> extends B C \<Longrightarrow> extends A C"
  by (auto simp: extends_def intro: symstore_ext_trans)

lemma ext_nterms: "extends L L' \<Longrightarrow> nterms L \<le> nterms L'"
  by (auto simp: extends_def)

lemma ext_nsyms: "extends L L' \<Longrightarrow> nsyms L \<le> nsyms L'"
  by (auto simp: extends_def symstore_ext_def)

lemma ext_frame:
  assumes "extends L L'"
  shows "equalities L' = equalities L" "disequalities L' = disequalities L" "ites L' = ites L"
    "ufsorts L' = ufsorts L" "constants L' = constants L" "sym_TRUE L' = sym_TRUE L" "sym_FALSE L' = sym_FALSE L"
    "sym_AND L' = sym_AND L" "sym_OR L' = sym_OR L" "sym_XOR L' = sym_XOR L" "sym_NOT L' = sym_NOT L"
    "sym_EQ L' = sym_EQ L" "sym_IMPLIES L' = sym_IMPLIES L" "sym_DISTINCT L' = sym_DISTINCT L"
    "sym_ITE L' = sym_ITE L" "sort_BOOL L' = sort_BOOL L" "term_TRUE L' = term_TRUE L"
    "term_FALSE L' = term_FALSE L"
  using assms by (simp_all add: extends_def frame_def)

lemma ext_term: "extends L L' \<Longrightarrow> t < nterms L \<Longrightarrow> getPterm L' t = getPterm L t"
  by (auto simp: extends_def getPterm_def term_at_def nth_append)

lemma ext_symref: "extends L L' \<Longrightarrow> t < nterms L \<Longrightarrow> getSymRef L' t = getSymRef L t"
  by (simp add: getSymRef_def ext_term)

lemma ext_sym: "extends L L' \<Longrightarrow> f < nsyms L \<Longrightarrow> getSym L' f = getSym L f"
  by (auto simp: extends_def symstore_ext_def getSym_def sym_at_def nth_append)

lemma ext_boolop: "extends L L' \<Longrightarrow> isBooleanOperator_sym L' f = isBooleanOperator_sym L f"
  by (simp add: isBooleanOperator_sym_def ext_frame)

lemma ext_constant_sym: "extends L L' \<Longrightarrow> isConstant_sym L' f = isConstant_sym L f"
  by (simp add: isConstant_sym_def ext_frame)

lemma linv_parts:
  assumes "linv L"
  shows "syms_ok L" "hash_ok L" "terms_ok L"
  using assms by (simp_all add: linv_def)

lemma syms_okD:
  assumes "syms_ok L"
  shows "symstore_inv (lg_syms L)"
    "distinct (core_syms L @ [sym_EQ L, sym_DISTINCT L, sym_ITE L])"
    "\<forall>f \<in> set (core_syms L @ [sym_ITE L]). f < nsyms L \<and> hasSortBool_sym L f"
    "sym_EQ L \<in> equalities L" "sym_DISTINCT L \<in> disequalities L" "sym_ITE L \<in> ites L"
    "equalities L \<inter> disequalities L = {}" "equalities L \<inter> ites L = {}" "disequalities L \<inter> ites L = {}"
    "\<forall>f \<in> equalities L \<union> disequalities L. f < nsyms L \<and> hasSortBool_sym L f \<and> f \<notin> set (core_syms L)"
    "\<forall>f \<in> ites L. f < nsyms L \<and> f \<notin> set (core_syms L)"
    "\<forall>f < nsyms L. sy_commutes (getSym L f) \<longrightarrow> \<not> isBooleanOperator_sym L f \<longrightarrow>
       f \<in> equalities L \<union> disequalities L"
    "isConstant_sym L (sym_TRUE L)" "isConstant_sym L (sym_FALSE L)"
    "\<forall>f. isConstant_sym L f \<longrightarrow> f < nsyms L \<and> nargs (getSym L f) = 0 \<and>
       f \<notin> {sym_AND L, sym_OR L, sym_XOR L, sym_NOT L, sym_IMPLIES L} \<union> equalities L \<union> disequalities L \<union> ites L"
    "\<forall>f \<in> equalities L. getName (lg_syms L) f = ''='' \<and> chainable (getSym L f) \<and> noScoping (getSym L f)"
    "\<forall>f < nsyms L. getName (lg_syms L) f = ''='' \<longrightarrow> f \<in> equalities L \<and>
       (\<exists>s. sy_sorts (getSym L f) = [sort_BOOL L, s, s] \<and> (s = sort_BOOL L \<longleftrightarrow> f = sym_EQ L))"
  using assms unfolding syms_ok_def by - (elim conjE, assumption)+

lemma term_parts:
  assumes "linv L" and "t < nterms L"
  shows "\<And>a. a \<in> set (targs L t) \<Longrightarrow> a < t" "shape_ok L (getSymRef L t) (targs L t)" "getSymRef L t < nsyms L"
  using assms by (simp_all add: linv_def terms_ok_def shape_ok_def)

lemma term_arg: "linv L \<Longrightarrow> t < nterms L \<Longrightarrow> a \<in> set (targs L t) \<Longrightarrow> a < nterms L"
  using term_parts(1) by (metis order_less_trans)

lemma ext_sort:
  assumes "extends L L'" "linv L" "t < nterms L"
  shows "getSortRef L' t = getSortRef L t" "hasSortBool L' t = hasSortBool L t"
  using assms term_parts(3) [OF assms(2,3)]
  by (simp_all add: getSortRef_def hasSortBool_def ext_symref ext_sym ext_frame)

lemma ext_shape:
  assumes "extends L L'" "linv L" "shape_ok L f as" "\<forall>a \<in> set as. a < nterms L"
  shows "shape_ok L' f as"
proof -
  have i: "as ! i < nterms L" if "i < length as" for i
    using assms(4) that by simp
  have "f = sym_NOT L \<Longrightarrow> getSymRef L' (as ! 0) = getSymRef L (as ! 0)"
    using assms(1,3) i [of 0] by (simp add: shape_ok_def ext_symref)
  moreover have "f \<in> equalities L \<Longrightarrow> getSortRef L' (as ! 0) = getSortRef L (as ! 0) \<and>
      getSortRef L' (as ! 1) = getSortRef L (as ! 1)"
    using assms(1-3) i [of 0] i [of 1] by (simp add: shape_ok_def ext_sort)
  ultimately show ?thesis
    using assms ext_nsyms [OF assms(1)]
    by (auto simp: shape_ok_def ext_boolop ext_constant_sym ext_frame ext_sort)
qed

lemma app_sym_ext: "extends L L' \<Longrightarrow> app_sym L' I f vs = app_sym L I f vs"
  by (simp add: app_sym_def ext_frame)

section \<open>Evaluation\<close>

lemma eval_term:
  assumes "linv L" and "t < nterms L"
  shows "eval L I t = app_sym L I (getSymRef L t) (map (eval L I) (targs L t))"
  using term_parts(1) [OF assms] by (subst eval.simps) (simp cong: map_cong)

lemma eval_ext:
  assumes "extends L L'" "linv L"
  shows "t < nterms L \<Longrightarrow> eval L' I t = eval L I t"
proof (induction t rule: less_induct)
  case (less t)
  have args: "a < t \<and> a < nterms L" if "a \<in> set (targs L t)" for a
    using that term_parts(1) [OF assms(2) less.prems] less.prems by fastforce
  have "eval L' I t = app_sym L' I (getSymRef L' t)
      (map (\<lambda>a. if a < t then eval L' I a else VB False) (targs L' t))"
    by (rule eval.simps)
  also have "\<dots> = app_sym L I (getSymRef L t) (map (\<lambda>a. if a < t then eval L I a else VB False) (targs L t))"
    using args less.IH less.prems
    by (simp add: app_sym_ext [OF assms(1)] ext_symref [OF assms(1)] ext_term [OF assms(1)] cong: map_cong)
  also have "\<dots> = eval L I t"
    by (rule eval.simps [symmetric])
  finally show ?case .
qed

text \<open>
  An interpretation respects the sorts, and different constants have different values, as
  the code assumes when it compares them.
\<close>

definition good_int :: "logic \<Rightarrow> 'u interp \<Rightarrow> bool" where
  "good_int L I \<longleftrightarrow>
     (\<forall>f < nsyms L. \<forall>vs. hasSortBool_sym L f \<longleftrightarrow> (\<exists>b. I f vs = VB b)) \<and>
     (\<forall>c d. isConstant_sym L c \<longrightarrow> isConstant_sym L d \<longrightarrow> c \<noteq> d \<longrightarrow> app_sym L I c [] \<noteq> app_sym L I d [])"

lemma hasSortBool_sym_ref: "hasSortBool L t \<longleftrightarrow> hasSortBool_sym L (getSymRef L t)"
  by (simp add: hasSortBool_def hasSortBool_sym_def)

lemma good_int_sort:
  assumes "good_int L I" "f < nsyms L"
  shows "hasSortBool_sym L f \<longleftrightarrow> (\<exists>b. I f vs = VB b)"
proof -
  have "\<forall>f < nsyms L. \<forall>vs. hasSortBool_sym L f \<longleftrightarrow> (\<exists>b. I f vs = VB b)"
    using assms(1) unfolding good_int_def by (rule conjunct1)
  with assms(2) show ?thesis
    by (elim allE impE) assumption+
qed

definition is_VB :: "'u val \<Rightarrow> bool" where
  "is_VB v \<longleftrightarrow> v = VB (tv v)"

lemma is_VB_simps [simp]: "is_VB (VB b)"
  "is_VB (if c then v else w) \<longleftrightarrow> (if c then is_VB v else is_VB w)"
  by (simp_all add: is_VB_def)

lemma app_sym_bool: "f \<notin> ites L \<Longrightarrow> is_VB (I f vs) \<Longrightarrow> is_VB (app_sym L I f vs)"
  by (simp add: app_sym_def)

lemma eval_bool:
  assumes "linv L" "t < nterms L" "hasSortBool L t" "good_int L I"
  shows "eval L I t = VB (tv (eval L I t))"
proof -
  have "getSymRef L t \<notin> ites L" "getSymRef L t < nsyms L"
    using term_parts(2) [OF assms(1,2)] by (simp_all add: shape_ok_def)
  moreover have "\<exists>b. I (getSymRef L t) (map (eval L I) (targs L t)) = VB b"
    using assms(3) good_int_sort [OF assms(4) \<open>getSymRef L t < nsyms L\<close>] by (simp add: hasSortBool_sym_ref)
  then obtain b where "I (getSymRef L t) (map (eval L I) (targs L t)) = VB b"
    ..
  ultimately have "is_VB (eval L I t)"
    unfolding eval_term [OF assms(1,2)] by (simp add: app_sym_bool)
  then show ?thesis
    by (simp add: is_VB_def)
qed

section \<open>Hash consing\<close>

text \<open>Two terms with the same symbol and arguments are the same term.\<close>

lemma terms_unique:
  assumes "linv L" "s < nterms L" "t < nterms L"
    and "getSymRef L s = getSymRef L t" "targs L s = targs L t"
  shows "s = t"
proof -
  let ?f = "getSymRef L t" and ?as = "targs L t"
  have h: "hash_ok L"
    using assms(1) by (rule linv_parts)
  show ?thesis
  proof (cases "?as = []")
    case True
    then have "cterm_map (lg_terms L) ?f = Some s" "cterm_map (lg_terms L) ?f = Some t"
      using h assms unfolding hash_ok_def by simp_all
    then show ?thesis
      by simp
  next
    case False
    then have "bool_map (lg_terms L) (?f, ?as) = Some s \<and> bool_map (lg_terms L) (?f, ?as) = Some t \<or>
        cplx_map (lg_terms L) (?f, ?as) = Some s \<and> cplx_map (lg_terms L) (?f, ?as) = Some t"
      using h assms unfolding hash_ok_def by (cases "isBooleanOperator_sym L ?f") simp_all
    then show ?thesis
      by auto
  qed
qed

end
