(* ===== verification/Logic_Insert.thy ===== *)
theory Logic_Insert
  imports Logic_Inv
begin

text \<open>
  Hash consing: \<open>insertTermHash\<close> keeps the invariant of \<open>Logic\<close>, leaves the existing
  terms alone and returns the one term with the given symbol and arguments.
\<close>

section \<open>Arguments as stored\<close>

text \<open>The arguments with which a term is stored: sorted for a commuting function symbol.\<close>

definition canon :: "logic \<Rightarrow> symref \<Rightarrow> ptref list \<Rightarrow> ptref list" where
  "canon L f ts = (if \<not> isBooleanOperator_sym L f \<and> sy_commutes (getSym L f) then termSort ts else ts)"

definition arity_ok :: "logic \<Rightarrow> symref \<Rightarrow> ptref list \<Rightarrow> bool" where
  "arity_ok L f ts \<longleftrightarrow> ts = [] \<or> isBooleanOperator_sym L f \<or>
     (let s = getSym L f in left_assoc s \<or> right_assoc s \<or> chainable s \<or> pairwise_sym s \<or> nargs s = length ts)"

lemma set_canon [simp]: "set (canon L f ts) = set ts"
  by (simp add: canon_def termSort_def)

lemma canon_Nil_iff [simp]: "canon L f ts = [] \<longleftrightarrow> ts = []"
  using set_canon [of L f ts] by (metis set_empty)

lemma canon_Nil [simp]: "canon L f [] = []"
  by simp

lemma canon_boolop: "isBooleanOperator_sym L f \<Longrightarrow> canon L f ts = ts"
  by (simp add: canon_def)

lemma syms_ok_commutes:
  assumes "syms_ok L" "f < nsyms L" "sy_commutes (getSym L f)" "\<not> isBooleanOperator_sym L f"
  shows "f \<in> equalities L \<union> disequalities L"
  using syms_okD(12) [OF assms(1)] assms(2-4) by (elim allE impE) assumption+

lemma canon_cases:
  assumes "syms_ok L" "f < nsyms L"
  obtains "canon L f ts = ts"
  | "canon L f ts = sort ts" "f \<in> equalities L \<union> disequalities L" "\<not> isBooleanOperator_sym L f"
proof (cases "isBooleanOperator_sym L f \<or> \<not> sy_commutes (getSym L f)")
  case True
  then have "canon L f ts = ts"
    by (auto simp: canon_def)
  then show ?thesis
    by (rule that(1))
next
  case False
  then show ?thesis
    using that(2) syms_ok_commutes [OF assms] by (simp add: canon_def termSort_def)
qed

lemma syms_ok_core:
  assumes "syms_ok L" "f \<in> equalities L \<union> disequalities L"
  shows "f \<notin> set (core_syms L)" "f \<notin> ites L" "hasSortBool_sym L f" "f < nsyms L"
  using bspec [OF syms_okD(10) [OF assms(1)] assms(2)] syms_okD(8,9) [OF assms(1)] assms(2) by auto

lemma length2_sort: "length ts = 2 \<Longrightarrow> sort ts = ts \<or> sort ts = [ts ! 1, ts ! 0]" for ts :: "nat list"
  by (cases ts; cases "tl ts") (auto split: if_splits)

lemma shape_canon:
  assumes "syms_ok L" "shape_ok L f ts"
  shows "shape_ok L f (canon L f ts)"
proof -
  have "f < nsyms L"
    using assms(2) by (simp add: shape_ok_def)
  with assms(1) show ?thesis
  proof (cases rule: canon_cases [of L f ts])
    case 2
    note core = syms_ok_core [OF assms(1) 2(2)]
    have eq: "getSortRef L (sort ts ! 0) = getSortRef L (sort ts ! 1)" "length (sort ts) = 2"
      if "f \<in> equalities L"
      using that assms(2) length2_sort [of ts] unfolding shape_ok_def by auto
    show ?thesis
      using assms(2) core 2 eq by (auto simp: shape_ok_def core_syms_def)
  qed (use assms in simp)
qed

lemma distinct_map_sort: "distinct (map g (sort xs)) \<longleftrightarrow> distinct (map g xs)"
  by (simp add: distinct_map)

lemma app_sym_canon:
  assumes "syms_ok L" "shape_ok L f ts"
  shows "app_sym L I f (map g (canon L f ts)) = app_sym L I f (map g ts)"
proof -
  have "f < nsyms L"
    using assms(2) by (simp add: shape_ok_def)
  with assms(1) show ?thesis
  proof (cases rule: canon_cases [of L f ts])
    case 2
    then show ?thesis
      using syms_ok_core [OF assms(1) 2(2)]
      by (auto simp: app_sym_def core_syms_def distinct_map_sort)
  qed simp
qed

section \<open>Adding a term\<close>

definition added :: "logic \<Rightarrow> symref \<Rightarrow> ptref list \<Rightarrow> logic \<Rightarrow> bool" where
  "added L f as L' \<longleftrightarrow> (\<exists>P. L' = L\<lparr>lg_terms := P\<rparr> \<and>
     ps_terms P = ps_terms (lg_terms L) @ [Pterm_ctor f as] \<and>
     cterm_map P = (if as = [] then (cterm_map (lg_terms L))(f \<mapsto> nterms L) else cterm_map (lg_terms L)) \<and>
     bool_map P = (if as \<noteq> [] \<and> isBooleanOperator_sym L f then (bool_map (lg_terms L))((f, as) \<mapsto> nterms L)
       else bool_map (lg_terms L)) \<and>
     cplx_map P = (if as \<noteq> [] \<and> \<not> isBooleanOperator_sym L f then (cplx_map (lg_terms L))((f, as) \<mapsto> nterms L)
       else cplx_map (lg_terms L)))"

lemma added_updI:
  assumes "ps_terms P = ps_terms (lg_terms L) @ [Pterm_ctor f as]"
    and "cterm_map P = (if as = [] then (cterm_map (lg_terms L))(f \<mapsto> nterms L) else cterm_map (lg_terms L))"
    and "bool_map P = (if as \<noteq> [] \<and> isBooleanOperator_sym L f then (bool_map (lg_terms L))((f, as) \<mapsto> nterms L)
       else bool_map (lg_terms L))"
    and "cplx_map P = (if as \<noteq> [] \<and> \<not> isBooleanOperator_sym L f then (cplx_map (lg_terms L))((f, as) \<mapsto> nterms L)
       else cplx_map (lg_terms L))"
  shows "added L f as (L\<lparr>lg_terms := P\<rparr>)"
  using assms unfolding added_def by blast

lemma added_extends: "added L f as L' \<Longrightarrow> extends L L' \<and> nterms L' = Suc (nterms L)"
  by (auto simp: added_def extends_def frame_def symstore_ext_refl)

lemma added_syms: "added L f as L' \<Longrightarrow> lg_syms L' = lg_syms L \<and>
    top_level_ites L' = top_level_ites L \<and> ite_counter L' = ite_counter L"
  by (auto simp: added_def)

lemma added_new: "added L f as L' \<Longrightarrow> getSymRef L' (nterms L) = f \<and> targs L' (nterms L) = as"
  by (auto simp: added_def getSymRef_def getPterm_def term_at_def Pterm_ctor_def)

lemma syms_ok_terms [simp]: "syms_ok (L\<lparr>lg_terms := P\<rparr>) = syms_ok L"
  by (simp add: syms_ok_def core_syms_def hasSortBool_sym_def getSym_def isBooleanOperator_sym_def
      isConstant_sym_def)

lemma boolop_terms [simp]: "isBooleanOperator_sym (L\<lparr>lg_terms := P\<rparr>) f = isBooleanOperator_sym L f"
  by (simp add: isBooleanOperator_sym_def)

lemma added_hash:
  assumes h: "hash_ok L" and a: "added L f as L'"
    and fresh: "\<not> (\<exists>t < nterms L. getSymRef L t = f \<and> targs L t = as)"
  shows "hash_ok L'"
proof -
  obtain P where L': "L' = L\<lparr>lg_terms := P\<rparr>"
    and P: "ps_terms P = ps_terms (lg_terms L) @ [Pterm_ctor f as]"
     "cterm_map P = (if as = [] then (cterm_map (lg_terms L))(f \<mapsto> nterms L) else cterm_map (lg_terms L))"
     "bool_map P = (if as \<noteq> [] \<and> isBooleanOperator_sym L f then (bool_map (lg_terms L))((f, as) \<mapsto> nterms L)
       else bool_map (lg_terms L))"
     "cplx_map P = (if as \<noteq> [] \<and> \<not> isBooleanOperator_sym L f then (cplx_map (lg_terms L))((f, as) \<mapsto> nterms L)
       else cplx_map (lg_terms L))"
    using a unfolding added_def by blast
  have ext: "extends L L'" and n: "nterms L' = Suc (nterms L)"
    using added_extends [OF a] by simp_all
  have at: "(t < nterms L' \<and> getSymRef L' t = g \<and> targs L' t = bs) \<longleftrightarrow>
      (t < nterms L \<and> getSymRef L t = g \<and> targs L t = bs) \<or> (t = nterms L \<and> g = f \<and> bs = as)" for t g bs
    using added_new [OF a] ext_symref [OF ext, of t] ext_term [OF ext, of t]
    by (cases "t < nterms L") (auto simp: n less_Suc_eq)
  have c: "cterm_map (lg_terms L) g = Some t \<longleftrightarrow> t < nterms L \<and> getSymRef L t = g \<and> targs L t = []"
    and b: "bool_map (lg_terms L) (g, bs) = Some t \<longleftrightarrow>
      (t < nterms L \<and> getSymRef L t = g \<and> targs L t = bs) \<and> bs \<noteq> [] \<and> isBooleanOperator_sym L g"
    and x: "cplx_map (lg_terms L) (g, bs) = Some t \<longleftrightarrow>
      (t < nterms L \<and> getSymRef L t = g \<and> targs L t = bs) \<and> bs \<noteq> [] \<and> \<not> isBooleanOperator_sym L g"
    for t g bs
    using h unfolding hash_ok_def by simp_all
  have "cterm_map P g = Some t \<longleftrightarrow> (t < nterms L' \<and> getSymRef L' t = g \<and> targs L' t = [])" for g t
    unfolding at P(2) using c [of g t] fresh by auto
  moreover have "bool_map P (g, bs) = Some t \<longleftrightarrow>
      (t < nterms L' \<and> getSymRef L' t = g \<and> targs L' t = bs) \<and> bs \<noteq> [] \<and> isBooleanOperator_sym L g" for g bs t
    unfolding at P(3) using b [of g bs t] fresh by auto
  moreover have "cplx_map P (g, bs) = Some t \<longleftrightarrow>
      (t < nterms L' \<and> getSymRef L' t = g \<and> targs L' t = bs) \<and> bs \<noteq> [] \<and> \<not> isBooleanOperator_sym L g" for g bs t
    unfolding at P(4) using x [of g bs t] fresh by auto
  ultimately show ?thesis
    unfolding hash_ok_def L' by (simp add: conj_assoc)
qed

lemma added_terms:
  assumes inv: "linv L" and a: "added L f as L'" and s: "shape_ok L f as" and as: "\<forall>x \<in> set as. x < nterms L"
  shows "terms_ok L'"
proof -
  have ext: "extends L L'" and n: "nterms L' = Suc (nterms L)"
    using added_extends [OF a] by simp_all
  have "(\<forall>x \<in> set (targs L' t). x < t) \<and> shape_ok L' (getSymRef L' t) (targs L' t)" if t: "t < nterms L'" for t
  proof (cases "t < nterms L")
    case True
    then show ?thesis
      using term_parts [OF inv True] ext_shape [OF ext inv] term_arg [OF inv True]
      by (simp add: ext_symref [OF ext] ext_term [OF ext])
  next
    case False
    then have "t = nterms L"
      using t n by simp
    then show ?thesis
      using added_new [OF a] as ext_shape [OF ext inv s as] by simp
  qed
  then show ?thesis
    using linv_parts(3) [OF inv] n unfolding terms_ok_def
    by (simp add: ext_frame [OF ext] ext_symref [OF ext])
qed

lemma added_linv:
  assumes "linv L" "added L f as L'" "shape_ok L f as" "\<forall>x \<in> set as. x < nterms L"
    and "\<not> (\<exists>t < nterms L. getSymRef L t = f \<and> targs L t = as)"
  shows "linv L'"
proof -
  have "syms_ok L'"
    using assms(1,2) by (auto simp: linv_def added_def)
  then show ?thesis
    using added_hash [OF linv_parts(2) [OF assms(1)] assms(2,5)] added_terms [OF assms(1-4)]
    by (simp add: linv_def)
qed

section \<open>insertTermHash\<close>

text \<open>What the operations that make a term from existing symbols promise of the result.\<close>

definition grows :: "logic \<Rightarrow> logic \<Rightarrow> bool" where
  "grows L L' \<longleftrightarrow> linv L' \<and> extends L L' \<and> lg_syms L' = lg_syms L \<and>
     top_level_ites L' = top_level_ites L \<and> ite_counter L' = ite_counter L"

definition made :: "logic \<Rightarrow> ptref \<Rightarrow> logic \<Rightarrow> bool" where
  "made L t L' \<longleftrightarrow> grows L L' \<and> t < nterms L'"

lemma insertTermHash_spec:
  assumes inv: "linv L" and s: "shape_ok L f ts" and ts: "\<forall>a \<in> set ts. a < nterms L"
    and ar: "arity_ok L f ts"
  obtains (known) t where "insertTermHash L f ts = (Some t, L)" "t < nterms L"
      "getSymRef L t = f" "targs L t = canon L f ts"
  | (added) L' where "insertTermHash L f ts = (Some (nterms L), L')" "added L f (canon L f ts) L'"
      "\<not> (\<exists>t < nterms L. getSymRef L t = f \<and> targs L t = canon L f ts)"
proof -
  have h: "hash_ok L"
    using inv by (rule linv_parts)
  have c: "cterm_map (lg_terms L) g = Some t \<longleftrightarrow> t < nterms L \<and> getSymRef L t = g \<and> targs L t = []"
    and b: "bool_map (lg_terms L) (g, bs) = Some t \<longleftrightarrow>
      t < nterms L \<and> getSymRef L t = g \<and> targs L t = bs \<and> bs \<noteq> [] \<and> isBooleanOperator_sym L g"
    and x: "cplx_map (lg_terms L) (g, bs) = Some t \<longleftrightarrow>
      t < nterms L \<and> getSymRef L t = g \<and> targs L t = bs \<and> bs \<noteq> [] \<and> \<not> isBooleanOperator_sym L g"
    for t g bs
    using h unfolding hash_ok_def by simp_all
  define m where "m = (if ts = [] then cterm_map (lg_terms L) f
    else if isBooleanOperator_sym L f then bool_map (lg_terms L) (f, ts)
    else cplx_map (lg_terms L) (f, canon L f ts))"
  have m: "m = Some t \<longleftrightarrow> t < nterms L \<and> getSymRef L t = f \<and> targs L t = canon L f ts" for t
    using c [of f t] b [of f ts t] x [of f "canon L f ts" t]
    by (cases "ts = []"; cases "isBooleanOperator_sym L f") (simp_all add: m_def canon_boolop)
  show ?thesis
  proof (cases m)
    case (Some t)
    then have "insertTermHash L f ts = (Some t, L)"
      using ar by (cases "ts = []"; cases "isBooleanOperator_sym L f")
        (auto simp: m_def insertTermHash_def Let_def hasCtermKey_def getFromCtermMap_def hasBoolKey_def
          getFromBoolMap_def hasCplxKey_def getFromCplxMap_def canon_def arity_ok_def)
    then show ?thesis
      using known m Some by blast
  next
    case None
    then have r: "fst (insertTermHash L f ts) = Some (nterms L) \<and>
        added L f (canon L f ts) (snd (insertTermHash L f ts))"
    proof (cases "ts = []")
      case True
      then show ?thesis
        using None by (simp add: m_def insertTermHash_def Let_def hasCtermKey_def addToCtermMap_def newTerm_def
            added_updI)
    next
      case False
      moreover have "canon L f ts \<noteq> []"
        using False by simp
      moreover have "\<not> isBooleanOperator_sym L f \<Longrightarrow> (if sy_commutes (getSym L f) then termSort ts else ts) = canon L f ts"
        by (simp add: canon_def)
      ultimately show ?thesis
        using None ar by (cases "isBooleanOperator_sym L f")
          (simp_all add: m_def insertTermHash_def Let_def hasBoolKey_def addToBoolMap_def hasCplxKey_def
            addToCplxMap_def newTerm_def arity_ok_def canon_boolop added_updI)
    qed
    then show ?thesis
      using added [of "snd (insertTermHash L f ts)"] m None by (simp add: prod_eq_iff)
  qed
qed

lemma insertTermHash_ok:
  assumes inv: "linv L" and s: "shape_ok L f ts" and ts: "\<forall>a \<in> set ts. a < nterms L"
    and ar: "arity_ok L f ts"
  obtains t L' where "insertTermHash L f ts = (Some t, L')" "made L t L'"
    "getSymRef L' t = f" "targs L' t = canon L f ts"
    "\<And>I. eval L' I t = app_sym L I f (map (eval L I) ts)"
proof -
  obtain t L' where r: "insertTermHash L f ts = (Some t, L')" "made L t L'"
      "getSymRef L' t = f" "targs L' t = canon L f ts"
    using inv s ts ar
  proof (cases rule: insertTermHash_spec)
    case (known t)
    then show ?thesis
      using that [of t L] inv by (simp add: made_def grows_def)
  next
    case (added L')
    have "linv L'"
      using added_linv [OF inv added(2) shape_canon [OF linv_parts(1) [OF inv] s] _ added(3)] ts by simp
    then show ?thesis
      using that [of "nterms L" L'] added added_extends [OF added(2)] added_new [OF added(2)]
        added_syms [OF added(2)] by (simp add: made_def grows_def)
  qed
  have m: "linv L'" "extends L L'" "t < nterms L'"
    using r(2) by (simp_all add: made_def grows_def)
  have "eval L' I t = app_sym L I f (map (eval L I) ts)" for I :: "'a interp"
  proof -
    have "eval L' I t = app_sym L I f (map (eval L' I) (canon L f ts))"
      using eval_term [OF m(1,3), of I] r(3,4) by (simp add: app_sym_ext [OF m(2)])
    also have "map (eval L' I) (canon L f ts) = map (eval L I) (canon L f ts)"
      using ts eval_ext [OF m(2) inv, of _ I] by simp
    finally show ?thesis
      by (simp add: app_sym_canon [OF linv_parts(1) [OF inv] s])
  qed
  then show ?thesis
    using that r by blast
qed

end
