(* ===== verification/Logic_Connectives.thy ===== *)
theory Logic_Connectives
  imports Logic_Insert
begin

text \<open>
  The connectives of \<open>Logic\<close> on terms of sort \<open>Bool\<close>: each returns a term whose value,
  under every interpretation that respects the sorts, is the connective of the values of the
  arguments, whatever the code simplifies.
\<close>

section \<open>Growing states\<close>

lemma grows_refl: "linv L \<Longrightarrow> grows L L"
  by (simp add: grows_def)

lemma grows_trans: "grows A B \<Longrightarrow> grows B C \<Longrightarrow> grows A C"
  by (auto simp: grows_def intro: ext_trans)

lemma growsD:
  assumes "grows L L'"
  shows "linv L'" "extends L L'" "lg_syms L' = lg_syms L"
    "top_level_ites L' = top_level_ites L" "ite_counter L' = ite_counter L"
  using assms by (simp_all add: grows_def)

lemma grows_less: "grows L L' \<Longrightarrow> t < nterms L \<Longrightarrow> t < nterms L'"
  using ext_nterms [OF growsD(2)] by fastforce

lemma good_int_same: "extends L L' \<Longrightarrow> lg_syms L' = lg_syms L \<Longrightarrow> good_int L' I = good_int L I"
  by (simp add: good_int_def hasSortBool_sym_def getSym_def ext_frame ext_constant_sym app_sym_ext)

lemma grows_good: "grows L L' \<Longrightarrow> good_int L' I = good_int L I"
  using growsD(2,3) [of L L'] by (rule good_int_same)

lemma grows_bool: "grows L L' \<Longrightarrow> linv L \<Longrightarrow> t < nterms L \<Longrightarrow> hasSortBool L' t = hasSortBool L t"
  using growsD(2) ext_sort(2) by blast

lemma grows_eval: "grows L L' \<Longrightarrow> linv L \<Longrightarrow> t < nterms L \<Longrightarrow> eval L' I t = eval L I t"
  using growsD(2) eval_ext by blast

text \<open>A Boolean term with a given truth value, and the result of an operation that makes one.\<close>

definition bterm :: "logic \<Rightarrow> ptref \<Rightarrow> bool" where
  "bterm L t \<longleftrightarrow> t < nterms L \<and> hasSortBool L t"

definition denotes :: "logic \<Rightarrow> ptref \<Rightarrow> ('u interp \<Rightarrow> bool) \<Rightarrow> bool" where
  "denotes L t \<phi> \<longleftrightarrow> bterm L t \<and> (\<forall>I. good_int L I \<longrightarrow> tv (eval L I t) = \<phi> I)"

definition makes :: "logic \<Rightarrow> mk_result \<Rightarrow> ('u interp \<Rightarrow> bool) \<Rightarrow> bool" where
  "makes L r \<phi> \<longleftrightarrow> (\<exists>t L'. r = Inr (Some t, L') \<and> grows L L' \<and> denotes L' t \<phi>)"

abbreviation truth :: "logic \<Rightarrow> ptref \<Rightarrow> 'u interp \<Rightarrow> bool" where
  "truth L t \<equiv> (\<lambda>I. tv (eval L I t))"

lemma denotes_truth: "bterm L t \<Longrightarrow> denotes L t (truth L t)"
  by (simp add: denotes_def)

lemma grows_denotes: "grows L L' \<Longrightarrow> linv L \<Longrightarrow> denotes L t \<phi> \<Longrightarrow> denotes L' t \<phi>"
  by (simp add: denotes_def bterm_def grows_less grows_good grows_bool grows_eval)

lemma grows_bterm: "grows L L' \<Longrightarrow> linv L \<Longrightarrow> bterm L t \<Longrightarrow> bterm L' t"
  by (simp add: bterm_def grows_less grows_bool)

lemma makes_same: "linv L \<Longrightarrow> denotes L t \<phi> \<Longrightarrow> makes L (Inr (Some t, L)) \<phi>"
  by (auto simp: makes_def intro: grows_refl)

lemma denotes_cong: "denotes L t \<phi> \<Longrightarrow> (\<And>I. good_int L I \<Longrightarrow> \<phi> I = \<psi> I) \<Longrightarrow> denotes L t \<psi>"
  by (simp add: denotes_def)

lemma makes_cong:
  assumes "makes L r \<phi>" "\<And>I. good_int L I \<Longrightarrow> \<phi> I = \<psi> I"
  shows "makes L r \<psi>"
  using assms by (fastforce simp: makes_def grows_good intro: denotes_cong)

lemma makes_trans:
  assumes "grows L L1" "makes L1 r \<phi>"
  shows "makes L r \<phi>"
  using assms grows_trans by (fastforce simp: makes_def)

lemma makes_checked: "makes L (Inr r) \<phi> \<Longrightarrow> makes L (checked_term r) \<phi>"
  by (auto simp: makes_def checked_term_def)

lemma makes_deref:
  assumes "makes L r \<phi>"
  obtains t L' where "r = Inr (Some t, L')" "deref r = Inr (t, L')" "grows L L'" "denotes L' t \<phi>"
  using assms by (auto simp: makes_def deref_def)

lemma linv_core:
  assumes "linv L" "f \<in> set (core_syms L @ [sym_ITE L])"
  shows "f < nsyms L" "hasSortBool_sym L f"
  using bspec [OF syms_okD(3) [OF linv_parts(1) [OF assms(1)]] assms(2)] by simp_all

lemma linv_distinct: "linv L \<Longrightarrow> distinct (core_syms L @ [sym_EQ L, sym_DISTINCT L, sym_ITE L])"
  by (rule syms_okD(2) [OF linv_parts(1)])

lemma linv_neq:
  assumes "linv L"
  shows
    "sym_TRUE L \<noteq> sym_FALSE L" "sym_TRUE L \<noteq> sym_AND L" "sym_TRUE L \<noteq> sym_OR L"
    "sym_TRUE L \<noteq> sym_XOR L" "sym_TRUE L \<noteq> sym_NOT L" "sym_TRUE L \<noteq> sym_IMPLIES L"
    "sym_TRUE L \<noteq> sym_EQ L" "sym_TRUE L \<noteq> sym_DISTINCT L" "sym_TRUE L \<noteq> sym_ITE L"
    "sym_FALSE L \<noteq> sym_TRUE L" "sym_FALSE L \<noteq> sym_AND L" "sym_FALSE L \<noteq> sym_OR L"
    "sym_FALSE L \<noteq> sym_XOR L" "sym_FALSE L \<noteq> sym_NOT L" "sym_FALSE L \<noteq> sym_IMPLIES L"
    "sym_FALSE L \<noteq> sym_EQ L" "sym_FALSE L \<noteq> sym_DISTINCT L" "sym_FALSE L \<noteq> sym_ITE L"
    "sym_AND L \<noteq> sym_TRUE L" "sym_AND L \<noteq> sym_FALSE L" "sym_AND L \<noteq> sym_OR L"
    "sym_AND L \<noteq> sym_XOR L" "sym_AND L \<noteq> sym_NOT L" "sym_AND L \<noteq> sym_IMPLIES L"
    "sym_AND L \<noteq> sym_EQ L" "sym_AND L \<noteq> sym_DISTINCT L" "sym_AND L \<noteq> sym_ITE L"
    "sym_OR L \<noteq> sym_TRUE L" "sym_OR L \<noteq> sym_FALSE L" "sym_OR L \<noteq> sym_AND L"
    "sym_OR L \<noteq> sym_XOR L" "sym_OR L \<noteq> sym_NOT L" "sym_OR L \<noteq> sym_IMPLIES L"
    "sym_OR L \<noteq> sym_EQ L" "sym_OR L \<noteq> sym_DISTINCT L" "sym_OR L \<noteq> sym_ITE L"
    "sym_XOR L \<noteq> sym_TRUE L" "sym_XOR L \<noteq> sym_FALSE L" "sym_XOR L \<noteq> sym_AND L"
    "sym_XOR L \<noteq> sym_OR L" "sym_XOR L \<noteq> sym_NOT L" "sym_XOR L \<noteq> sym_IMPLIES L"
    "sym_XOR L \<noteq> sym_EQ L" "sym_XOR L \<noteq> sym_DISTINCT L" "sym_XOR L \<noteq> sym_ITE L"
    "sym_NOT L \<noteq> sym_TRUE L" "sym_NOT L \<noteq> sym_FALSE L" "sym_NOT L \<noteq> sym_AND L"
    "sym_NOT L \<noteq> sym_OR L" "sym_NOT L \<noteq> sym_XOR L" "sym_NOT L \<noteq> sym_IMPLIES L"
    "sym_NOT L \<noteq> sym_EQ L" "sym_NOT L \<noteq> sym_DISTINCT L" "sym_NOT L \<noteq> sym_ITE L"
    "sym_IMPLIES L \<noteq> sym_TRUE L" "sym_IMPLIES L \<noteq> sym_FALSE L"
    "sym_IMPLIES L \<noteq> sym_AND L" "sym_IMPLIES L \<noteq> sym_OR L" "sym_IMPLIES L \<noteq> sym_XOR L"
    "sym_IMPLIES L \<noteq> sym_NOT L" "sym_IMPLIES L \<noteq> sym_EQ L"
    "sym_IMPLIES L \<noteq> sym_DISTINCT L" "sym_IMPLIES L \<noteq> sym_ITE L"
    "sym_EQ L \<noteq> sym_TRUE L" "sym_EQ L \<noteq> sym_FALSE L" "sym_EQ L \<noteq> sym_AND L"
    "sym_EQ L \<noteq> sym_OR L" "sym_EQ L \<noteq> sym_XOR L" "sym_EQ L \<noteq> sym_NOT L"
    "sym_EQ L \<noteq> sym_IMPLIES L" "sym_EQ L \<noteq> sym_DISTINCT L" "sym_EQ L \<noteq> sym_ITE L"
    "sym_DISTINCT L \<noteq> sym_TRUE L" "sym_DISTINCT L \<noteq> sym_FALSE L"
    "sym_DISTINCT L \<noteq> sym_AND L" "sym_DISTINCT L \<noteq> sym_OR L"
    "sym_DISTINCT L \<noteq> sym_XOR L" "sym_DISTINCT L \<noteq> sym_NOT L"
    "sym_DISTINCT L \<noteq> sym_IMPLIES L" "sym_DISTINCT L \<noteq> sym_EQ L"
    "sym_DISTINCT L \<noteq> sym_ITE L"
    "sym_ITE L \<noteq> sym_TRUE L" "sym_ITE L \<noteq> sym_FALSE L" "sym_ITE L \<noteq> sym_AND L"
    "sym_ITE L \<noteq> sym_OR L" "sym_ITE L \<noteq> sym_XOR L" "sym_ITE L \<noteq> sym_NOT L"
    "sym_ITE L \<noteq> sym_IMPLIES L" "sym_ITE L \<noteq> sym_EQ L" "sym_ITE L \<noteq> sym_DISTINCT L"
  using linv_distinct [OF assms] by (auto simp: core_syms_def)

lemma linv_core_ites:
  assumes "linv L" "f \<in> set (core_syms L)"
  shows "f \<notin> ites L" "f \<notin> equalities L" "f \<notin> disequalities L"
  using syms_okD(10,11) [OF linv_parts(1) [OF assms(1)]] assms(2) by blast+

section \<open>Constants\<close>

lemma linv_constants:
  assumes "linv L"
  shows "term_TRUE L < nterms L" "getSymRef L (term_TRUE L) = sym_TRUE L"
    "term_FALSE L < nterms L" "getSymRef L (term_FALSE L) = sym_FALSE L"
  using linv_parts(3) [OF assms] unfolding terms_ok_def by simp_all

lemma bterm_sym: "linv L \<Longrightarrow> t < nterms L \<Longrightarrow> getSymRef L t \<in> set (core_syms L) \<Longrightarrow> bterm L t"
  using linv_core(2) by (simp add: bterm_def hasSortBool_sym_ref)

lemma eval_true: "linv L \<Longrightarrow> t < nterms L \<Longrightarrow> isTrue L t \<Longrightarrow> eval L I t = VB True"
  by (simp add: eval_term isTrue_def app_sym_def)

lemma eval_false: "linv L \<Longrightarrow> t < nterms L \<Longrightarrow> isFalse L t \<Longrightarrow> eval L I t = VB False"
  by (simp add: eval_term isFalse_def app_sym_def linv_neq)

lemma denotes_TRUE: "linv L \<Longrightarrow> denotes L (term_TRUE L) (\<lambda>_. True)"
  using linv_constants [of L] bterm_sym [of L "term_TRUE L"]
  by (simp add: denotes_def eval_true isTrue_def core_syms_def)

lemma denotes_FALSE: "linv L \<Longrightarrow> denotes L (term_FALSE L) (\<lambda>_. False)"
  using linv_constants [of L] bterm_sym [of L "term_FALSE L"]
  by (simp add: denotes_def eval_false isFalse_def core_syms_def)

lemma linv_isConst:
  assumes "linv L"
  shows "isTrue L (term_TRUE L)" "isFalse L (term_FALSE L)"
  using linv_constants [OF assms] by (simp_all add: isTrue_def isFalse_def)

section \<open>A new application\<close>

lemma mkFun_makes:
  fixes \<phi> :: "'u interp \<Rightarrow> bool"
  assumes inv: "linv L" and s: "shape_ok L f ts" and ts: "\<forall>a \<in> set ts. a < nterms L"
    and ar: "arity_ok L f ts" and b: "hasSortBool_sym L f"
    and v: "\<And>I. good_int L I \<Longrightarrow> tv (app_sym L I f (map (eval L I) ts)) = \<phi> I"
  shows "makes L (Inr (mkFun L (Some f) ts)) \<phi>"
proof -
  obtain t L' where r: "insertTermHash L f ts = (Some t, L')" "made L t L'"
      "getSymRef L' t = f" "targs L' t = canon L f ts" "\<And>I :: 'u interp. eval L' I t = app_sym L I f (map (eval L I) ts)"
    using inv s ts ar by (rule insertTermHash_ok) (rule that)
  have g: "grows L L'" and t: "t < nterms L'"
    using r(2) by (simp_all add: made_def)
  have "hasSortBool_sym L' f = hasSortBool_sym L f"
    using growsD(3) [OF g] ext_frame [OF growsD(2) [OF g]] by (simp add: hasSortBool_sym_def getSym_def)
  then have "denotes L' t \<phi>"
    using t r(3,5) b v by (simp add: denotes_def bterm_def hasSortBool_sym_ref grows_good [OF g])
  then show ?thesis
    using r(1) g by (auto simp: makes_def mkFun_def)
qed

lemma mkFun_core:
  assumes inv: "linv L" and f: "f \<in> {sym_AND L, sym_OR L, sym_NOT L, sym_XOR L}"
    and s: "ts \<noteq> []" "f = sym_NOT L \<longrightarrow> length ts = 1 \<and> getSymRef L (ts ! 0) \<notin> {sym_NOT L, sym_TRUE L, sym_FALSE L}"
      "f = sym_XOR L \<longrightarrow> length ts = 2"
    and ts: "\<forall>a \<in> set ts. bterm L a"
    and v: "\<And>I. good_int L I \<Longrightarrow> tv (app_sym L I f (map (eval L I) ts)) = \<phi> I"
  shows "makes L (Inr (mkFun L (Some f) ts)) \<phi>"
proof (rule mkFun_makes [OF inv])
  have core: "f \<in> set (core_syms L)"
    using f by (auto simp: core_syms_def)
  have b: "isBooleanOperator_sym L f"
    using f by (auto simp: isBooleanOperator_sym_def)
  have nc: "\<not> isConstant_sym L f"
    using syms_okD(15) [OF linv_parts(1) [OF inv]] f by blast
  show "shape_ok L f ts"
    using s ts linv_core(1) [OF inv, of f] core linv_core_ites [OF inv core] f nc
    by (auto simp: shape_ok_def bterm_def linv_neq [OF inv])
  show "arity_ok L f ts"
    using b by (simp add: arity_ok_def)
  show "hasSortBool_sym L f"
    using linv_core(2) [OF inv, of f] core by simp
qed (use ts v in \<open>auto simp: bterm_def\<close>)

section \<open>mkNot\<close>

lemma isNot_arg:
  assumes inv: "linv L" and t: "bterm L t" and n: "isNot L t"
  shows "bterm L (targs L t ! 0)" "\<not> isNot L (targs L t ! 0)" "\<not> isTrue L (targs L t ! 0)"
    "\<not> isFalse L (targs L t ! 0)" "tv (eval L I t) = (\<not> tv (eval L I (targs L t ! 0)))"
proof -
  have tn: "t < nterms L"
    using t by (simp add: bterm_def)
  have s: "shape_ok L (sym_NOT L) (targs L t)"
    using term_parts(2) [OF inv tn] n by (simp add: isNot_def)
  then have "length (targs L t) = 1" and c: "getSymRef L (targs L t ! 0) \<notin> {sym_NOT L, sym_TRUE L, sym_FALSE L}"
    and "\<forall>a \<in> set (targs L t). hasSortBool L a"
    by (simp_all add: shape_ok_def isBooleanOperator_sym_def)
  then obtain a where a: "targs L t = [a]" "hasSortBool L a"
    by (cases "targs L t") auto
  then show "bterm L (targs L t ! 0)"
    using term_arg [OF inv tn, of a] by (simp add: bterm_def)
  show "\<not> isNot L (targs L t ! 0)" "\<not> isTrue L (targs L t ! 0)" "\<not> isFalse L (targs L t ! 0)"
    using c by (simp_all add: isNot_def isTrue_def isFalse_def)
  show "tv (eval L I t) = (\<not> tv (eval L I (targs L t ! 0)))"
    using n a by (simp add: eval_term [OF inv tn] isNot_def app_sym_def linv_neq [OF inv])
qed

lemma mkNot_makes:
  assumes inv: "linv L" and a: "bterm L a"
  shows "makes L (mkNot L a) (\<lambda>I :: 'u interp. \<not> truth L a I)"
proof -
  have an: "a < nterms L" and ab: "hasSortBool L a"
    using a by (simp_all add: bterm_def)
  consider "isNot L a" | "\<not> isNot L a" "isTrue L a" | "\<not> isNot L a" "isFalse L a" "\<not> isTrue L a"
    | "\<not> isNot L a" "\<not> isFalse L a" "\<not> isTrue L a"
    by blast
  then show ?thesis
  proof cases
    case 1
    then show ?thesis
      using isNot_arg [OF inv a 1] ab
      by (auto simp: mkNot_def intro!: makes_same inv denotes_cong [OF denotes_truth])
  next
    case 2
    then show ?thesis
      using ab by (auto simp: mkNot_def eval_true [OF inv an] intro!: makes_same inv denotes_cong [OF denotes_FALSE])
  next
    case 3
    then show ?thesis
      using ab by (auto simp: mkNot_def eval_false [OF inv an] intro!: makes_same inv denotes_cong [OF denotes_TRUE])
  next
    case 4
    have "makes L (Inr (mkFun L (Some (sym_NOT L)) [a])) (\<lambda>I :: 'u interp. \<not> truth L a I)"
      using 4 a by (intro mkFun_core [OF inv])
        (auto simp: isNot_def isTrue_def isFalse_def app_sym_def linv_neq [OF inv])
    then show ?thesis
      using 4 ab by (simp add: mkNot_def makes_checked)
  qed
qed

section \<open>mkAnd\<close>

lemma mkAnd_makes:
  assumes inv: "linv L" and as: "\<forall>a \<in> set as. bterm L a"
  shows "makes L (mkAnd L as) (\<lambda>I :: 'u interp. \<forall>a \<in> set as. truth L a I)"
proof (cases "as = []")
  case True
  then show ?thesis
    by (auto simp: mkAnd_def intro!: makes_same inv denotes_cong [OF denotes_TRUE])
next
  case False
  define ds where "ds = remdups_adj (termSort as)"
  define ns where "ns = filter (\<lambda>a. \<not> isTrue L a) ds"
  have ds: "set ds = set as"
    by (simp add: ds_def termSort_def)
  have bool: "\<not> (\<exists>a \<in> set as. \<not> hasSortBool L a)"
    using as by (simp add: bterm_def)
  show ?thesis
  proof (cases "\<exists>a \<in> set ds. isFalse L a")
    case True
    then obtain a where a: "a \<in> set as" "isFalse L a"
      using ds by auto
    have e: "eval L I a = VB False" for I :: "'u interp"
      using a as inv by (simp add: eval_false bterm_def)
    have "makes L (Inr (Some (term_FALSE L), L)) (\<lambda>I :: 'u interp. \<forall>a \<in> set as. truth L a I)"
      by (intro makes_same inv denotes_cong [OF denotes_FALSE]) (auto simp: e intro!: bexI [OF _ a(1)])
    then show ?thesis
      using True False bool by (auto simp: mkAnd_def ds_def Let_def)
  next
    case noF: False
    have ns: "set ns \<subseteq> set as" "\<forall>a \<in> set ns. bterm L a"
      using ds as by (auto simp: ns_def)
    have v: "(\<forall>a \<in> set as. truth L a I) = (\<forall>a \<in> set ns. truth L a I)" for I :: "'u interp"
    proof -
      have "truth L a I" if "a \<in> set as" "a \<notin> set ns" for a
        using that as inv ds by (simp add: ns_def bterm_def eval_true)
      with ns(1) show ?thesis
        by blast
    qed
    have m: "mkAnd L as = (case ns of [] \<Rightarrow> Inr (Some (term_TRUE L), L) | [a] \<Rightarrow> Inr (Some a, L)
        | newargs \<Rightarrow> checked_term (mkFun L (Some (sym_AND L)) newargs))"
      using False noF bool by (simp add: mkAnd_def ds_def ns_def Let_def)
    consider "ns = []" | a where "ns = [a]" | a b cs where "ns = a # b # cs"
      by (metis list.exhaust)
    then show ?thesis
    proof cases
      case 1
      then show ?thesis
        using v m by (auto intro!: makes_same inv denotes_cong [OF denotes_TRUE])
    next
      case (2 a)
      then show ?thesis
        using v m ns(2) by (auto intro!: makes_same inv denotes_cong [OF denotes_truth])
    next
      case (3 a b cs)
      have "makes L (Inr (mkFun L (Some (sym_AND L)) ns)) (\<lambda>I :: 'u interp. \<forall>a \<in> set as. truth L a I)"
        using ns(2) 3 v by (intro mkFun_core [OF inv]) (auto simp: app_sym_def linv_neq [OF inv])
      then show ?thesis
        using m 3 by (simp add: makes_checked)
    qed
  qed
qed

end
