(* ===== verification/Logic_Or.thy ===== *)
theory Logic_Or
  imports Logic_Connectives
begin

text \<open>
  Disjunction, exclusive or and implication: \<open>mkOr\<close> sorts the arguments by the term under
  their negations, so that a literal and its complement meet.
\<close>

section \<open>Signed arguments\<close>

definition sval :: "logic \<Rightarrow> 'u interp \<Rightarrow> ptasgn \<Rightarrow> bool" where
  "sval L I x \<longleftrightarrow> truth L (fst x) I = (snd x = l_True)"

definition signed_ok :: "logic \<Rightarrow> ptasgn \<Rightarrow> bool" where
  "signed_ok L x \<longleftrightarrow> bterm L (fst x) \<and> snd x \<in> {l_True, l_False} \<and>
     (snd x = l_False \<longrightarrow> \<not> isTrue L (fst x) \<and> \<not> isFalse L (fst x))"

lemma or_sign_ok:
  assumes "linv L" "bterm L a"
  shows "signed_ok L (or_sign L a)" "sval L I (or_sign L a) = truth L a I"
  using isNot_arg [OF assms] assms(2) by (auto simp: or_sign_def signed_ok_def sval_def)

lemma signed_ok_grows:
  assumes "grows L L'" "linv L" "signed_ok L x"
  shows "signed_ok L' x" "sval L' I x = sval L I x"
proof -
  have "fst x < nterms L"
    using assms(3) by (simp add: signed_ok_def bterm_def)
  moreover from this have "isTrue L' (fst x) = isTrue L (fst x)" "isFalse L' (fst x) = isFalse L (fst x)"
    using ext_symref [OF growsD(2) [OF assms(1)]] ext_frame [OF growsD(2) [OF assms(1)]]
    by (simp_all add: isTrue_def isFalse_def)
  ultimately show "signed_ok L' x" "sval L' I x = sval L I x"
    using assms by (simp_all add: signed_ok_def sval_def grows_bterm grows_eval)
qed

lemma lbool_eq_signs:
  assumes "s \<in> {l_True, l_False}" "t \<in> {l_True, l_False}"
  shows "lbool_eq s t = (s = t)"
  using assms by auto

lemma sval_complement:
  "signed_ok L x \<Longrightarrow> signed_ok L y \<Longrightarrow> fst x = fst y \<Longrightarrow> snd x \<noteq> snd y \<Longrightarrow> sval L I y = (\<not> sval L I x)"
  by (auto simp: signed_ok_def sval_def)

lemma sval_const:
  assumes "linv L" "signed_ok L x"
  shows "isTrue L (fst x) \<Longrightarrow> snd x = l_True \<and> sval L I x" "isFalse L (fst x) \<Longrightarrow> snd x = l_True \<and> \<not> sval L I x"
  using assms by (auto simp: signed_ok_def sval_def bterm_def eval_true eval_false)

section \<open>The loop of \<open>mkOr\<close>\<close>

text \<open>What the argument kept last contributes; at the start nothing.\<close>

definition prev_val :: "logic \<Rightarrow> 'u interp \<Rightarrow> ptref option \<times> lbool \<Rightarrow> bool" where
  "prev_val L I p \<longleftrightarrow> (\<exists>t. fst p = Some t \<and> sval L I (t, snd p))"

definition prev_ok :: "logic \<Rightarrow> ptref option \<times> lbool \<Rightarrow> bool" where
  "prev_ok L p \<longleftrightarrow> (\<forall>t. fst p = Some t \<longrightarrow> signed_ok L (t, snd p))"

lemma or_loop_ok:
  assumes inv: "linv L" and "\<forall>x \<in> set xs. signed_ok L x" and "prev_ok L p"
  obtains (taut) "or_loop L p xs = Inr None" "\<And>I :: 'u interp. prev_val L I p \<or> (\<exists>x \<in> set xs. sval L I x)"
  | (kept) ys where "or_loop L p xs = Inr (Some ys)" "set ys \<subseteq> set xs"
      "\<And>I :: 'u interp. (prev_val L I p \<or> (\<exists>x \<in> set xs. sval L I x)) = (prev_val L I p \<or> (\<exists>x \<in> set ys. sval L I x))"
proof -
  have "(or_loop L p xs = Inr None \<and> (\<forall>I :: 'u interp. prev_val L I p \<or> (\<exists>x \<in> set xs. sval L I x))) \<or>
    (\<exists>ys. or_loop L p xs = Inr (Some ys) \<and> set ys \<subseteq> set xs \<and> (\<forall>I :: 'u interp.
      (prev_val L I p \<or> (\<exists>x \<in> set xs. sval L I x)) = (prev_val L I p \<or> (\<exists>x \<in> set ys. sval L I x))))"
    using assms(2,3)
  proof (induction xs arbitrary: p)
    case Nil
    then show ?case
      by simp
  next
    case (Cons x xs)
    have x: "signed_ok L x" and xs: "\<forall>y \<in> set xs. signed_ok L y"
      using Cons.prems(1) by simp_all
    note rest = Cons.IH [OF xs Cons.prems(2)]
    note const = sval_const [OF inv x, where ?'a = 'u]
    have sx: "snd x \<in> {l_True, l_False}"
      using x by (simp add: signed_ok_def)
    consider "isTrue L (fst x)" | "\<not> isTrue L (fst x)" "isFalse L (fst x)"
      | "\<not> isTrue L (fst x)" "\<not> isFalse L (fst x)" "fst p = Some (fst x)" "snd p = snd x"
      | "\<not> isTrue L (fst x)" "\<not> isFalse L (fst x)" "fst p = Some (fst x)" "snd p \<noteq> snd x"
      | "\<not> isTrue L (fst x)" "\<not> isFalse L (fst x)" "fst p \<noteq> Some (fst x)"
      by blast
    then show ?case
    proof cases
      case 1
      then show ?thesis
        using const(1) by auto
    next
      case 2
      then have "\<not> sval L I x" for I :: "'u interp"
        using const(2) by blast
      then show ?thesis
        using 2 const(2) rest by auto
    next
      case 3
      then have e: "or_loop L p (x # xs) = or_loop L p xs"
        using sx by (simp add: lbool_eq_signs)
      have "prev_val L I p" if "sval L I x" for I :: "'u interp"
        using 3 that by (auto simp: prev_val_def sval_def)
      then have v: "(prev_val L I p \<or> (\<exists>y \<in> set (x # xs). sval L I y)) = (prev_val L I p \<or> (\<exists>y \<in> set xs. sval L I y))"
        for I :: "'u interp"
        by auto
      show ?thesis
        using rest unfolding e v by auto
    next
      case 4
      have p: "signed_ok L (fst x, snd p)"
        using Cons.prems(2) 4 by (simp add: prev_ok_def)
      then have "prev_val L I p \<or> sval L I x" for I :: "'u interp"
        using sval_complement [OF p x, of I] 4 by (auto simp: prev_val_def)
      moreover have "\<not> lbool_eq (snd p) (snd x)"
        using p x 4 by (simp add: signed_ok_def lbool_eq_signs)
      ultimately show ?thesis
        using 4 by auto
    next
      case 5
      have "prev_ok L (Some (fst x), snd x)" "prev_val L I (Some (fst x), snd x) = sval L I x" for I :: "'u interp"
        using x by (simp_all add: prev_ok_def prev_val_def)
      note ih = Cons.IH [OF xs this(1), unfolded this(2)]
      then show ?thesis
      proof (elim disjE exE conjE)
        fix ys
        assume "or_loop L (Some (fst x), snd x) xs = Inr (Some ys)" "set ys \<subseteq> set xs"
          "\<forall>I :: 'u interp. (sval L I x \<or> (\<exists>x \<in> set xs. sval L I x)) = (sval L I x \<or> (\<exists>x \<in> set ys. sval L I x))"
        then show ?thesis
          using 5 by (intro disjI2 exI [of _ "x # ys"]) auto
      qed (use 5 in auto)
    qed
  qed
  then show ?thesis
    using that by blast
qed

section \<open>Signed arguments back to terms\<close>

lemma unsign_ok:
  assumes inv: "linv L" and x: "signed_ok L x"
  obtains t L' where "unsign L x = Inr (t, L')" "grows L L'" "denotes L' t (\<lambda>I :: 'u interp. sval L I x)"
proof (cases "snd x = l_True")
  case True
  then show ?thesis
    using x by (intro that [of "fst x" L])
      (auto simp: unsign_def signed_ok_def sval_def grows_refl [OF inv] intro: denotes_cong [OF denotes_truth])
next
  case False
  then have f: "snd x = l_False" and b: "bterm L (fst x)"
    using x by (auto simp: signed_ok_def)
  obtain t L' where "deref (mkNot L (fst x)) = Inr (t, L')" "grows L L'" "denotes L' t (\<lambda>I :: 'u interp. \<not> truth L (fst x) I)"
    using mkNot_makes [OF inv b, where ?'u = 'u] by (rule makes_deref)
  then show ?thesis
    using f by (intro that [of t L']) (auto simp: unsign_def sval_def intro: denotes_cong)
qed

lemma unsign_all_ok:
  assumes "linv L" and "\<forall>x \<in> set xs. signed_ok L x"
  shows "\<exists>ts L'. unsign_all L xs = Inr (ts, L') \<and> grows L L' \<and> length ts = length xs \<and>
    (\<forall>i < length xs. denotes L' (ts ! i) (\<lambda>I :: 'u interp. sval L I (xs ! i)))"
  using assms
proof (induction xs arbitrary: L)
  case Nil
  then show ?case
    by (simp add: grows_refl)
next
  case (Cons x xs)
  have x: "signed_ok L x"
    using Cons.prems(2) by simp
  obtain t L1 where 1: "unsign L x = Inr (t, L1)" "grows L L1" "denotes L1 t (\<lambda>I :: 'u interp. sval L I x)"
    using unsign_ok [OF Cons.prems(1) x, where ?'u = 'u] by blast
  have L1: "linv L1" "\<forall>x \<in> set xs. signed_ok L1 x"
    using growsD(1) [OF 1(2)] signed_ok_grows(1) [OF 1(2) Cons.prems(1)] Cons.prems(2) by simp_all
  obtain ts L2 where 2: "unsign_all L1 xs = Inr (ts, L2)" "grows L1 L2" "length ts = length xs"
      "\<forall>i < length xs. denotes L2 (ts ! i) (\<lambda>I :: 'u interp. sval L1 I (xs ! i))"
    using Cons.IH [OF L1] by blast
  have s: "sval L1 I (xs ! i) = sval L I (xs ! i)" if "i < length xs" for i and I :: "'u interp"
    using Cons.prems(2) that by (simp add: signed_ok_grows(2) [OF 1(2) Cons.prems(1)])
  have "denotes L2 ((t # ts) ! i) (\<lambda>I :: 'u interp. sval L I ((x # xs) ! i))" if "i < length (x # xs)" for i
    using that 2(4) s grows_denotes [OF 2(2) L1(1) 1(3)] by (cases i) simp_all
  then show ?case
    using 1 2 grows_trans [OF 1(2) 2(2)] by auto
qed

section \<open>mkOr\<close>

lemma mkOr_makes:
  assumes inv: "linv L" and as: "\<forall>a \<in> set as. bterm L a"
  shows "makes L (mkOr L as) (\<lambda>I :: 'u interp. \<exists>a \<in> set as. truth L a I)"
proof (cases "as = []")
  case True
  then show ?thesis
    by (auto simp: mkOr_def intro!: makes_same inv denotes_cong [OF denotes_FALSE])
next
  case False
  define xs where "xs = sort_PtAsgn (map (or_sign L) as)"
  have set_xs: "set xs = or_sign L ` set as"
    by (simp add: xs_def sort_PtAsgn_def)
  have xs: "\<forall>x \<in> set xs. signed_ok L x"
    using or_sign_ok(1) [OF inv] as by (auto simp: set_xs)
  have v: "(\<exists>x \<in> set xs. sval L I x) = (\<exists>a \<in> set as. truth L a I)" for I :: "'u interp"
    using or_sign_ok(2) [OF inv, of _ I] as by (simp add: set_xs)
  have bool: "\<not> (\<exists>a \<in> set as. \<not> hasSortBool L a)"
    using as by (simp add: bterm_def)
  have p: "prev_ok L (None, l_Undef)" "\<not> prev_val L I (None, l_Undef)" for I :: "'u interp"
    by (simp_all add: prev_ok_def prev_val_def)
  have m: "mkOr L as = rbind (or_loop L (None, l_Undef) xs) (\<lambda>r. case r of
        None \<Rightarrow> Inr (Some (term_TRUE L), L)
      | Some [] \<Rightarrow> Inr (Some (term_FALSE L), L)
      | Some [x] \<Rightarrow> rbind (unsign L x) (\<lambda>(t, L1). Inr (Some t, L1))
      | Some ys \<Rightarrow> rbind (unsign_all L ys) (\<lambda>(newargs, L1). checked_term (mkFun L1 (Some (sym_OR L1)) newargs)))"
    using False bool by (simp add: mkOr_def xs_def del: unsign_all.simps)
  show ?thesis
    using inv xs p(1)
  proof (cases rule: or_loop_ok [where ?'u = 'u])
    case taut
    then show ?thesis
      using m p(2) v by (auto intro!: makes_same inv denotes_cong [OF denotes_TRUE])
  next
    case (kept ys)
    have ys: "\<forall>y \<in> set ys. signed_ok L y"
      using kept(2) xs by blast
    have vy: "(\<exists>y \<in> set ys. sval L I y) = (\<exists>a \<in> set as. truth L a I)" for I :: "'u interp"
      using kept(3) [of I] p(2) v by simp
    consider "ys = []" | y where "ys = [y]" | y z zs where "ys = y # z # zs"
      by (metis list.exhaust)
    then show ?thesis
    proof cases
      case 1
      then show ?thesis
        using m kept(1) vy by (auto intro!: makes_same inv denotes_cong [OF denotes_FALSE])
    next
      case (2 y)
      obtain t L' where t: "unsign L y = Inr (t, L')" "grows L L'" "denotes L' t (\<lambda>I :: 'u interp. sval L I y)"
        using unsign_ok [OF inv, of y, where ?'u = 'u] ys 2 by auto
      have "denotes L' t (\<lambda>I :: 'u interp. \<exists>a \<in> set as. truth L a I)"
        using t(3) vy 2 by simp
      then show ?thesis
        using m kept(1) 2 t by (auto simp: makes_def)
    next
      case (3 y z zs)
      obtain ts L1 where ts: "unsign_all L ys = Inr (ts, L1)" "grows L L1" "length ts = length ys"
          "\<forall>i < length ys. denotes L1 (ts ! i) (\<lambda>I :: 'u interp. sval L I (ys ! i))"
        using unsign_all_ok [OF inv ys, where ?'u = 'u] by blast
      have bts: "\<forall>t \<in> set ts. bterm L1 t"
        using ts(3,4) by (auto simp: denotes_def in_set_conv_nth)
      have vt: "(\<exists>t \<in> set ts. truth L1 t I) = (\<exists>y \<in> set ys. sval L I y)" if "good_int L1 I" for I :: "'u interp"
        using ts(3,4) that by (fastforce simp: denotes_def in_set_conv_nth)
      have inv1: "linv L1"
        using growsD(1) [OF ts(2)] .
      have "makes L1 (Inr (mkFun L1 (Some (sym_OR L1)) ts)) (\<lambda>I :: 'u interp. \<exists>a \<in> set as. truth L a I)"
        using bts 3 ts(3) vt vy by (intro mkFun_core [OF inv1]) (auto simp: app_sym_def linv_neq [OF inv1])
      then show ?thesis
        using m kept(1) 3 ts(1) makes_trans [OF ts(2) makes_checked] by simp
    qed
  qed
qed

section \<open>mkXor and mkImpl\<close>

lemma mkXor_makes:
  assumes inv: "linv L" and a: "bterm L a" and b: "bterm L b"
  shows "makes L (mkXor L [a, b]) (\<lambda>I :: 'u interp. truth L a I \<noteq> truth L b I)"
proof (cases "a = b")
  case True
  then show ?thesis
    using a by (auto simp: mkXor_def bterm_def intro!: makes_same inv denotes_cong [OF denotes_FALSE])
next
  case False
  obtain n L1 where n: "mkNot L b = Inr (Some n, L1)" "grows L L1" "denotes L1 n (\<lambda>I :: 'u interp. \<not> truth L b I)"
    using mkNot_makes [OF inv b, where ?'u = 'u] by (auto simp: makes_def)
  have inv1: "linv L1" and ab1: "bterm L1 a" "bterm L1 b"
    using growsD(1) [OF n(2)] grows_bterm [OF n(2) inv] a b by simp_all
  have t: "truth L1 a I = truth L a I" "truth L1 b I = truth L b I" for I :: "'u interp"
    using a b by (simp_all add: bterm_def grows_eval [OF n(2) inv])
  have c: "truth L1 (term_TRUE L1) I" "\<not> truth L1 (term_FALSE L1) I" if "good_int L1 I" for I :: "'u interp"
    using denotes_TRUE [OF inv1, where ?'a = 'u] denotes_FALSE [OF inv1, where ?'a = 'u] that by (simp_all add: denotes_def)
  define r where "r = (if a = n then Inr (Some (term_TRUE L1), L1)
      else if a = term_TRUE L1 \<or> b = term_TRUE L1 then (if a = term_TRUE L1 then mkNot L1 b else mkNot L1 a)
      else if a = term_FALSE L1 \<or> b = term_FALSE L1 then Inr (Some (if a = term_FALSE L1 then b else a), L1)
      else checked_term (mkFun L1 (Some (sym_XOR L1)) (sort_PTRef [a, b])))"
  have m: "mkXor L [a, b] = r"
    using False a b n(1) by (simp add: mkXor_def r_def Let_def bterm_def)
  have "makes L1 r (\<lambda>I :: 'u interp. truth L1 a I \<noteq> truth L1 b I)"
  proof -
    consider "a = n" | "a \<noteq> n" "a = term_TRUE L1" | "a \<noteq> n" "a \<noteq> term_TRUE L1" "b = term_TRUE L1"
      | "a \<noteq> n" "a \<noteq> term_TRUE L1" "b \<noteq> term_TRUE L1" "a = term_FALSE L1"
      | "a \<noteq> n" "a \<noteq> term_TRUE L1" "b \<noteq> term_TRUE L1" "a \<noteq> term_FALSE L1" "b = term_FALSE L1"
      | "a \<noteq> n" "a \<noteq> term_TRUE L1" "b \<noteq> term_TRUE L1" "a \<noteq> term_FALSE L1" "b \<noteq> term_FALSE L1"
      by blast
    then show ?thesis
    proof cases
      case 1
      then show ?thesis
        using n(3) t by (auto simp: r_def denotes_def intro!: makes_same inv1 denotes_cong [OF denotes_TRUE])
    next
      case 2
      then show ?thesis
        using c by (auto simp: r_def intro!: makes_cong [OF mkNot_makes] inv1 ab1)
    next
      case 3
      then show ?thesis
        using c by (auto simp: r_def intro!: makes_cong [OF mkNot_makes] inv1 ab1)
    next
      case 4
      then show ?thesis
        using c by (auto simp: r_def intro!: makes_same inv1 denotes_cong [OF denotes_truth] ab1)
    next
      case 5
      then show ?thesis
        using c by (auto simp: r_def intro!: makes_same inv1 denotes_cong [OF denotes_truth] ab1)
    next
      case 6
      have s: "sort_PTRef [a, b] = [a, b] \<or> sort_PTRef [a, b] = [b, a]"
        by (auto simp: sort_PTRef_def)
      have "makes L1 (Inr (mkFun L1 (Some (sym_XOR L1)) (sort_PTRef [a, b]))) (\<lambda>I :: 'u interp. truth L1 a I \<noteq> truth L1 b I)"
        using s ab1 by (intro mkFun_core [OF inv1]) (auto simp: app_sym_def linv_neq [OF inv1])
      then show ?thesis
        using 6 by (simp add: r_def makes_checked)
    qed
  qed
  then show ?thesis
    unfolding m t by (rule makes_trans [OF n(2)])
qed

lemma mkImpl_makes:
  assumes inv: "linv L" and a: "bterm L a" and b: "bterm L b"
  shows "makes L (mkImpl L [a, b]) (\<lambda>I :: 'u interp. truth L a I \<longrightarrow> truth L b I)"
proof -
  have less: "a < nterms L" "b < nterms L" and bool: "hasSortBool L a" "hasSortBool L b"
    using a b by (simp_all add: bterm_def)
  consider "isFalse L a" | "\<not> isFalse L a" "isTrue L b" | "\<not> isFalse L a" "\<not> isTrue L b" "isTrue L a" "isFalse L b"
    | "\<not> isFalse L a" "\<not> isTrue L b" "\<not> (isTrue L a \<and> isFalse L b)"
    by blast
  then show ?thesis
  proof cases
    case 4
    obtain n L1 where n: "deref (mkNot L a) = Inr (n, L1)" "grows L L1" "denotes L1 n (\<lambda>I :: 'u interp. \<not> truth L a I)"
      using mkNot_makes [OF inv a, where ?'u = 'u] by (rule makes_deref)
    have inv1: "linv L1" and nb: "\<forall>x \<in> set [n, b]. bterm L1 x"
      using growsD(1) [OF n(2)] grows_bterm [OF n(2) inv b] n(3) by (simp_all add: denotes_def)
    have "makes L1 (mkOr L1 [n, b]) (\<lambda>I :: 'u interp. truth L a I \<longrightarrow> truth L b I)"
      using n(3) by (intro makes_cong [OF mkOr_makes [OF inv1 nb]])
        (auto simp: denotes_def grows_eval [OF n(2) inv less(2)])
    then have "makes L1 (rbind (mkOr L1 [n, b]) checked_term) (\<lambda>I :: 'u interp. truth L a I \<longrightarrow> truth L b I)"
      by (auto simp: makes_def checked_term_def)
    then show ?thesis
      using 4 bool n(1) makes_trans [OF n(2)] by (auto simp: mkImpl_def Let_def)
  qed (use bool in \<open>auto simp: mkImpl_def Let_def eval_true [OF inv less(1)] eval_true [OF inv less(2)]
      eval_false [OF inv less(1)] eval_false [OF inv less(2)]
      intro!: makes_same inv denotes_cong [OF denotes_TRUE] denotes_cong [OF denotes_FALSE]\<close>)
qed

end
