(* ===== verification/Logic_Eq.thy ===== *)
theory Logic_Eq
  imports Logic_Or
begin

text \<open>
  Equality: \<open>mkEq\<close> finds the equality symbol of the sort of its arguments in the symbol
  table, decides equalities of constants and simplifies equivalences of formulas.
\<close>

section \<open>The equality symbol of a sort\<close>

definition eq_declared :: "logic \<Rightarrow> sref \<Rightarrow> bool" where
  "eq_declared L s \<longleftrightarrow> (\<exists>f < nsyms L. getName (lg_syms L) f = ''='' \<and> sy_sorts (getSym L f) = [sort_BOOL L, s, s])"

lemma lookup_noscoping_exact:
  "(\<forall>r \<in> set trefs. nargs (sym_at ss r) = length args) \<Longrightarrow>
   lookup_noscoping ss ps args trefs =
     (case List.find (\<lambda>r. args_match ss ps (sym_at ss r) args) trefs of None \<Rightarrow> Lk_Fall | Some r \<Rightarrow> Lk_Return (Some r))"
  by (induction trefs) (simp_all add: Let_def)

lemma arg_rsort_getSortRef: "arg_rsort (lg_syms L) (lg_terms L) a = getSortRef L a"
  by (simp add: arg_rsort_def getSortRef_def getSym_def getSymRef_def getPterm_def)

lemma linv_eq_syms:
  assumes "linv L" "f < nsyms L" "getName (lg_syms L) f = ''=''"
  shows "f \<in> equalities L" "\<exists>s. sy_sorts (getSym L f) = [sort_BOOL L, s, s] \<and> (s = sort_BOOL L \<longleftrightarrow> f = sym_EQ L)"
  using syms_okD(17) [OF linv_parts(1) [OF assms(1)]] assms(2,3) by simp_all

lemma eq_declared_bool: "linv L \<Longrightarrow> eq_declared L (sort_BOOL L)"
proof -
  assume inv: "linv L"
  have e: "sym_EQ L \<in> equalities L"
    using syms_okD(4) [OF linv_parts(1) [OF inv]] .
  then have n: "sym_EQ L < nsyms L" "getName (lg_syms L) (sym_EQ L) = ''=''"
    using syms_okD(10,16) [OF linv_parts(1) [OF inv]] by blast+
  then obtain s where "sy_sorts (getSym L (sym_EQ L)) = [sort_BOOL L, s, s]" "s = sort_BOOL L"
    using linv_eq_syms(2) [OF inv, of "sym_EQ L"] by auto
  with n show ?thesis
    by (auto simp: eq_declared_def)
qed

lemma lookup_eq:
  assumes inv: "linv L" and s: "getSortRef L a = Some s" "getSortRef L b = Some s" and d: "eq_declared L s"
  obtains f where "lookupSymbol (lg_syms L) (lg_terms L) ''='' [a, b] = Inr (Some f)" "f < nsyms L"
    "f \<in> equalities L" "s = sort_BOOL L \<longleftrightarrow> f = sym_EQ L" "hasSortBool_sym L f"
proof -
  let ?ss = "lg_syms L"
  have st: "symstore_inv ?ss"
    using syms_okD(1) [OF linv_parts(1) [OF inv]] .
  then have table: "(\<exists>trs. ss_table ?ss n = Some trs \<and> r \<in> set trs) \<longleftrightarrow> r < nsyms L \<and> ss_names ?ss ! r = n" for n r
    by (simp add: symstore_inv_def)
  obtain g where g: "g < nsyms L" "ss_names ?ss ! g = ''=''" "sy_sorts (getSym L g) = [sort_BOOL L, s, s]"
    using d by (auto simp: eq_declared_def getName_def)
  then obtain trs where trs: "ss_table ?ss ''='' = Some trs" "g \<in> set trs"
    using table [of "''=''" g] by auto
  have r: "r < nsyms L \<and> r \<in> equalities L \<and> (\<exists>s. sy_sorts (getSym L r) = [sort_BOOL L, s, s] \<and> (s = sort_BOOL L \<longleftrightarrow> r = sym_EQ L))"
    if "r \<in> set trs" for r
    using table [of "''=''" r] trs(1) that linv_eq_syms [OF inv, of r] by (auto simp: getName_def)
  have n: "\<forall>r \<in> set trs. nargs (sym_at ?ss r) = length [a, b]"
    using r symstore_size(1) [OF st] by (fastforce simp: nargs_def getSym_def sym_at_def)
  have m: "args_match ?ss (lg_terms L) (sym_at ?ss r) [a, b] \<longleftrightarrow> sy_sorts (getSym L r) = [sort_BOOL L, s, s]"
    if "r \<in> set trs" for r
    using r [OF that] s by (auto simp: args_match_def arg_rsort_getSortRef arg_sort_def getSym_def less_Suc_eq numeral_2_eq_2)
  have "hd trs \<in> set trs"
    using trs(2) by (cases trs) auto
  then have ns: "noScoping (sym_at ?ss (hd trs))"
    using r syms_okD(16) [OF linv_parts(1) [OF inv]] by (auto simp: getSym_def)
  obtain f where f: "List.find (\<lambda>r. args_match ?ss (lg_terms L) (sym_at ?ss r) [a, b]) trs = Some f"
    using trs(2) m g(3) by (fastforce simp: find_None_iff)
  then have fm: "f \<in> set trs" "args_match ?ss (lg_terms L) (sym_at ?ss f) [a, b]"
    by (auto simp: find_Some_iff)
  show ?thesis
  proof (rule that)
    show "lookupSymbol ?ss (lg_terms L) ''='' [a, b] = Inr (Some f)"
      using trs(1) ns f by (simp add: lookupSymbol_def getRefOrNull_def lookup_noscoping_exact [OF n])
    show "s = sort_BOOL L \<longleftrightarrow> f = sym_EQ L"
      using r [OF fm(1)] m [OF fm(1)] fm(2) by auto
    show "hasSortBool_sym L f"
      using r [OF fm(1)] by (auto simp: hasSortBool_sym_def rsort_def)
  qed (use r [OF fm(1)] in simp_all)
qed

section \<open>Constants\<close>

lemma isConstant_eval:
  assumes "linv L" "t < nterms L" "isConstant L t"
  shows "targs L t = []" "eval L I t = app_sym L I (getSymRef L t) []"
proof -
  show "targs L t = []"
    using term_parts(2) [OF assms(1,2)] assms(3) by (simp add: shape_ok_def isConstant_def)
  then show "eval L I t = app_sym L I (getSymRef L t) []"
    by (simp add: eval_term [OF assms(1,2)])
qed

lemma good_int_constants:
  assumes "good_int L I" "isConstant_sym L c" "isConstant_sym L d" "c \<noteq> d"
  shows "app_sym L I c [] \<noteq> app_sym L I d []"
  using assms unfolding good_int_def by blast

lemma constants_differ:
  assumes "linv L" "a < nterms L" "b < nterms L" "isConstant L a" "isConstant L b" "a \<noteq> b" "good_int L I"
  shows "eval L I a \<noteq> eval L I b"
proof -
  have "getSymRef L a \<noteq> getSymRef L b"
    using terms_unique [OF assms(1-3)] isConstant_eval(1) [OF assms(1)] assms(2-6) by auto
  then show ?thesis
    using good_int_constants [OF assms(7)] assms(4,5)
    by (simp add: isConstant_eval(2) [OF assms(1,2,4)] isConstant_eval(2) [OF assms(1,3,5)] isConstant_def)
qed

section \<open>mkEq\<close>

lemma mkFun_eq:
  assumes inv: "linv L" and ab: "a < nterms L" "b < nterms L"
    and s: "getSortRef L a = Some s" "getSortRef L b = Some s"
    and f: "f < nsyms L" "f \<in> equalities L" "s = sort_BOOL L \<longleftrightarrow> f = sym_EQ L" "hasSortBool_sym L f"
  shows "makes L (Inr (mkFun L (Some f) [a, b])) (\<lambda>I :: 'u interp. eval L I a = eval L I b)"
proof (rule mkFun_makes [OF inv])
  note ok = linv_parts(1) [OF inv]
  have not: "f \<notin> set (core_syms L)" "f \<notin> ites L" "f \<notin> disequalities L" "\<not> isConstant_sym L f"
    using syms_ok_core [OF ok, of f] syms_okD(7,15) [OF ok] f(2) by auto
  have bool: "hasSortBool L a \<and> hasSortBool L b" if "isBooleanOperator_sym L f"
  proof -
    have "f = sym_EQ L"
      using that not syms_okD(5,6) [OF ok] by (auto simp: isBooleanOperator_sym_def core_syms_def)
    then show ?thesis
      using s f(3) by (simp add: hasSortBool_def getSortRef_def)
  qed
  show "shape_ok L f [a, b]"
    using f not bool s by (auto simp: shape_ok_def core_syms_def)
  show "arity_ok L f [a, b]"
    using syms_okD(16) [OF ok] f(2) by (auto simp: arity_ok_def Let_def)
  show "tv (app_sym L I f (map (eval L I) [a, b])) = (eval L I a = eval L I b)" for I :: "'u interp"
    using not f(2) by (auto simp: app_sym_def core_syms_def)
qed (use ab f in auto)

lemma bool_eval_eq:
  assumes "linv L" "bterm L a" "bterm L b" "good_int L I"
  shows "eval L I a = eval L I b \<longleftrightarrow> truth L a I = truth L b I"
proof -
  have "eval L I a = VB (truth L a I)" "eval L I b = VB (truth L b I)"
    using assms(2,3) eval_bool [OF assms(1) _ _ assms(4)] by (simp_all add: bterm_def)
  then show ?thesis
    by (metis val.inject(1))
qed

lemma mkEq_makes:
  assumes inv: "linv L" and ab: "a < nterms L" "b < nterms L"
    and s: "getSortRef L a = Some s" "getSortRef L b = Some s" and d: "eq_declared L s"
  shows "makes L (mkEq L [a, b]) (\<lambda>I :: 'u interp. eval L I a = eval L I b)"
proof -
  consider "isConstant L a \<and> isConstant L b" | "\<not> (isConstant L a \<and> isConstant L b)" "a = b"
    | "\<not> (isConstant L a \<and> isConstant L b)" "a \<noteq> b"
    by blast
  then show ?thesis
  proof cases
    case 1
    then show ?thesis
      using constants_differ [OF inv ab]
      by (auto simp: mkEq_def Let_def intro!: makes_same inv denotes_cong [OF denotes_TRUE] denotes_cong [OF denotes_FALSE])
  next
    case 2
    then show ?thesis
      by (auto simp: mkEq_def Let_def intro!: makes_same inv denotes_cong [OF denotes_TRUE])
  next
    case 3
    obtain f where f: "lookupSymbol (lg_syms L) (lg_terms L) ''='' [a, b] = Inr (Some f)" "f < nsyms L"
        "f \<in> equalities L" "s = sort_BOOL L \<longleftrightarrow> f = sym_EQ L" "hasSortBool_sym L f"
      using inv s d by (rule lookup_eq) (rule that)
    define r where "r = rbind (mkNot L b) (\<lambda>(n1, L1).
        if Some a = n1 then Inr (Some (term_FALSE L1), L1)
        else if a = term_TRUE L1 \<or> b = term_TRUE L1 then Inr (Some (if a = term_TRUE L1 then b else a), L1)
        else if a = term_FALSE L1 \<or> b = term_FALSE L1 then (if a = term_FALSE L1 then mkNot L1 b else mkNot L1 a)
        else Inr (mkFun L1 (Some f) [a, b]))"
    have m: "mkEq L [a, b] = r"
      using 3 f by (auto simp: mkEq_def Let_def r_def)
    show ?thesis
    proof (cases "s = sort_BOOL L")
      case False
      then have nb: "\<not> hasSortBool L a" "\<not> hasSortBool L b"
        using s by (simp_all add: hasSortBool_def getSortRef_def)
      moreover have "hasSortBool L (term_TRUE L)" "hasSortBool L (term_FALSE L)"
        using denotes_TRUE [OF inv, where ?'a = 'u] denotes_FALSE [OF inv, where ?'a = 'u]
        by (simp_all only: denotes_def bterm_def)
      ultimately have "a \<noteq> term_TRUE L \<and> b \<noteq> term_TRUE L \<and> a \<noteq> term_FALSE L \<and> b \<noteq> term_FALSE L"
        by auto
      then show ?thesis
        using mkFun_eq [OF inv ab s f(2-5)] nb m by (simp add: r_def mkNot_def)
    next
      case True
      then have bab: "bterm L a" "bterm L b"
        using s ab by (simp_all add: bterm_def hasSortBool_def getSortRef_def)
      obtain n L1 where n: "mkNot L b = Inr (Some n, L1)" "grows L L1" "denotes L1 n (\<lambda>I :: 'u interp. \<not> truth L b I)"
        using mkNot_makes [OF inv bab(2), where ?'u = 'u] by (auto simp: makes_def)
      have inv1: "linv L1" and ab1: "bterm L1 a" "bterm L1 b"
        using growsD(1) [OF n(2)] grows_bterm [OF n(2) inv] bab by simp_all
      note ev = grows_eval [OF n(2) inv ab(1)] grows_eval [OF n(2) inv ab(2)]
      have c: "truth L1 (term_TRUE L1) I" "\<not> truth L1 (term_FALSE L1) I" if "good_int L1 I" for I :: "'u interp"
        using denotes_TRUE [OF inv1, where ?'a = 'u] denotes_FALSE [OF inv1, where ?'a = 'u] that
        by (simp_all add: denotes_def)
      consider "a = n" | "a \<noteq> n" "a = term_TRUE L1" | "a \<noteq> n" "a \<noteq> term_TRUE L1" "b = term_TRUE L1"
        | "a \<noteq> n" "a \<noteq> term_TRUE L1" "b \<noteq> term_TRUE L1" "a = term_FALSE L1"
        | "a \<noteq> n" "a \<noteq> term_TRUE L1" "b \<noteq> term_TRUE L1" "a \<noteq> term_FALSE L1" "b = term_FALSE L1"
        | "a \<noteq> n" "a \<noteq> term_TRUE L1" "b \<noteq> term_TRUE L1" "a \<noteq> term_FALSE L1" "b \<noteq> term_FALSE L1"
        by blast
      then have "makes L1 r (\<lambda>I :: 'u interp. truth L1 a I = truth L1 b I)"
      proof cases
        case 1
        then show ?thesis
          using n by (auto simp: r_def denotes_def ev intro!: makes_same inv1 denotes_cong [OF denotes_FALSE])
      next
        case 2
        then show ?thesis
          using c n(1) by (auto simp: r_def intro!: makes_same inv1 denotes_cong [OF denotes_truth] ab1)
      next
        case 3
        then show ?thesis
          using c n(1) by (auto simp: r_def intro!: makes_same inv1 denotes_cong [OF denotes_truth] ab1)
      next
        case 4
        then show ?thesis
          using c n(1) by (auto simp: r_def intro!: makes_cong [OF mkNot_makes] inv1 ab1)
      next
        case 5
        then show ?thesis
          using c n(1) by (auto simp: r_def intro!: makes_cong [OF mkNot_makes] inv1 ab1)
      next
        case 6
        have "getSym L1 g = getSym L g" for g
          using growsD(3) [OF n(2)] by (simp add: getSym_def)
        then have "getSortRef L1 a = Some s" "getSortRef L1 b = Some s" "f < nsyms L1" "hasSortBool_sym L1 f"
          using s f ab growsD(3) [OF n(2)] ext_symref [OF growsD(2) [OF n(2)]] ext_frame [OF growsD(2) [OF n(2)]]
          by (simp_all add: getSortRef_def hasSortBool_sym_def)
        moreover have "f \<in> equalities L1" "s = sort_BOOL L1 \<longleftrightarrow> f = sym_EQ L1"
          using f ext_frame [OF growsD(2) [OF n(2)]] by simp_all
        ultimately have "makes L1 (Inr (mkFun L1 (Some f) [a, b])) (\<lambda>I :: 'u interp. eval L1 I a = eval L1 I b)"
          using ab1 by (intro mkFun_eq [OF inv1]) (simp_all add: bterm_def)
        then show ?thesis
          using 6 n(1) bool_eval_eq [OF inv1 ab1] by (auto simp: r_def intro: makes_cong)
      qed
      then have "makes L1 r (\<lambda>I :: 'u interp. eval L I a = eval L I b)"
        by (rule makes_cong) (metis ev bool_eval_eq [OF inv1 ab1])
      then show ?thesis
        unfolding m by (rule makes_trans [OF n(2)])
    qed
  qed
qed

end
