(* ===== verification/Logic_Ite.thy ===== *)
theory Logic_Ite
  imports Logic_Eq
begin

text \<open>
  New variables and if-then-else: \<open>mkIte\<close> replaces the term by a fresh variable and
  records a formula that defines it, to be conjoined to the problem later.
\<close>

section \<open>A new symbol\<close>

definition fresh_name :: "logic \<Rightarrow> string \<Rightarrow> bool" where
  "fresh_name L n \<longleftrightarrow> (\<forall>f < nsyms L. getName (lg_syms L) f \<noteq> n)"

definition new_symbol :: "logic \<Rightarrow> string \<Rightarrow> sref list \<Rightarrow> logic \<Rightarrow> bool" where
  "new_symbol L n sorts L' \<longleftrightarrow>
     (\<exists>ss. L' = L\<lparr>lg_syms := ss\<rparr> \<and> symstore_inv ss \<and> ss_symbols ss = ss_symbols (lg_syms L) @ [Symbol_ctor sorts] \<and>
       ss_names ss = ss_names (lg_syms L) @ [n])"

lemma new_symbol_ites:
  "new_symbol L n sorts L' \<Longrightarrow> top_level_ites L' = top_level_ites L \<and> ite_counter L' = ite_counter L"
  by (auto simp: new_symbol_def)

lemma new_symbolI:
  "symstore_inv ss \<Longrightarrow> ss_symbols ss = ss_symbols (lg_syms L) @ [Symbol_ctor sorts] \<Longrightarrow>
   ss_names ss = ss_names (lg_syms L) @ [n] \<Longrightarrow> new_symbol L n sorts (L\<lparr>lg_syms := ss\<rparr>)"
  unfolding new_symbol_def by blast

lemma newSymb_logic_fresh:
  assumes inv: "symstore_inv (lg_syms L)" and small: "length sorts < 2 ^ 23" and ne: "sorts \<noteq> []"
    and fresh: "fresh_name L n"
  obtains L' where "newSymb_logic L n sorts = Inr (nsyms L, L')" "new_symbol L n sorts L'"
proof -
  obtain r ss where Pair: "newSymb (lg_syms L) n sorts = Inr (r, ss)"
    using newSymb_returns [OF inv, of sorts n] ne by blast
  have "r = nsyms L \<and> ss_symbols ss = ss_symbols (lg_syms L) @ [Symbol_ctor sorts] \<and> ss_names ss = ss_names (lg_syms L) @ [n]"
    using inv small Pair
  proof (cases rule: newSymb_cases)
    case old
    then show ?thesis
      using fresh by (auto simp: fresh_name_def getName_def)
  qed simp
  moreover have "symstore_inv ss"
    using newSymb_ok [OF inv small Pair] by simp
  ultimately show ?thesis
    using that [of "L\<lparr>lg_syms := ss\<rparr>"] Pair by (simp add: newSymb_logic_def new_symbolI)
qed

lemma new_symbol_facts:
  assumes "new_symbol L n sorts L'"
  shows "extends L L'" "nsyms L' = Suc (nsyms L)" "getSym L' (nsyms L) = Symbol_ctor sorts" "lg_terms L' = lg_terms L"
  using assms
  by (auto simp: new_symbol_def extends_def frame_def symstore_ext_def getSym_def sym_at_def)

lemma new_symbol_name:
  assumes "new_symbol L n sorts L'" "symstore_inv (lg_syms L)"
  shows "f < nsyms L \<Longrightarrow> getName (lg_syms L') f = getName (lg_syms L) f" "getName (lg_syms L') (nsyms L) = n"
  using assms by (auto simp: new_symbol_def getName_def symstore_inv_def nth_append)

lemma new_symbol_syms_ok:
  assumes ok: "syms_ok L" and new: "new_symbol L n sorts L'" and n: "n \<noteq> ''=''"
  shows "syms_ok L'"
proof -
  note ext = new_symbol_facts(1) [OF new] and len = new_symbol_facts(2) [OF new]
  note D = syms_okD [OF ok]
  have name: "getName (lg_syms L') f = getName (lg_syms L) f" if "f < nsyms L" for f
    using that by (rule new_symbol_name(1) [OF new D(1)])
  have last: "getName (lg_syms L') (nsyms L) = n" "\<not> sy_commutes (getSym L' (nsyms L))"
    using new_symbol_name(2) [OF new D(1)] new_symbol_facts(3) [OF new] by (simp_all add: Symbol_ctor_def)
  have b: "f < nsyms L \<Longrightarrow> hasSortBool_sym L' f = hasSortBool_sym L f" for f
    by (simp add: hasSortBool_sym_def ext_sym [OF ext] ext_frame [OF ext])
  have core: "core_syms L' = core_syms L"
    by (simp add: core_syms_def ext_frame [OF ext])
  have ss: "symstore_inv (lg_syms L')"
    using new by (auto simp: new_symbol_def)
  have 12: "\<forall>f < nsyms L'. sy_commutes (getSym L' f) \<longrightarrow> \<not> isBooleanOperator_sym L' f \<longrightarrow> f \<in> equalities L' \<union> disequalities L'"
    using D(12) last(2) len by (auto simp: less_Suc_eq ext_sym [OF ext] ext_boolop [OF ext] ext_frame [OF ext])
  have 17: "\<forall>f < nsyms L'. getName (lg_syms L') f = ''='' \<longrightarrow> f \<in> equalities L' \<and>
      (\<exists>s. sy_sorts (getSym L' f) = [sort_BOOL L', s, s] \<and> (s = sort_BOOL L' \<longleftrightarrow> f = sym_EQ L'))"
    using D(17) last(1) n len by (auto simp: less_Suc_eq ext_sym [OF ext] name ext_frame [OF ext])
  have 3: "\<forall>f \<in> set (core_syms L' @ [sym_ITE L']). f < nsyms L' \<and> hasSortBool_sym L' f"
    using D(3) b len unfolding core by (auto simp: ext_frame [OF ext])
  have 10: "\<forall>f \<in> equalities L' \<union> disequalities L'. f < nsyms L' \<and> hasSortBool_sym L' f \<and> f \<notin> set (core_syms L')"
  proof
    fix f
    assume "f \<in> equalities L' \<union> disequalities L'"
    then show "f < nsyms L' \<and> hasSortBool_sym L' f \<and> f \<notin> set (core_syms L')"
      using bspec [OF D(10), of f] b [of f] len unfolding core by (simp add: ext_frame [OF ext])
  qed
  have 11: "\<forall>f \<in> ites L'. f < nsyms L' \<and> f \<notin> set (core_syms L')"
    using D(11) len unfolding core by (auto simp: ext_frame [OF ext])
  have 15: "\<forall>f. isConstant_sym L' f \<longrightarrow> f < nsyms L' \<and> nargs (getSym L' f) = 0 \<and>
      f \<notin> {sym_AND L', sym_OR L', sym_XOR L', sym_NOT L', sym_IMPLIES L'} \<union> equalities L' \<union> disequalities L' \<union> ites L'"
    using D(15) len by (auto simp: ext_sym [OF ext] ext_constant_sym [OF ext] ext_frame [OF ext])
  have 16: "\<forall>f \<in> equalities L'. getName (lg_syms L') f = ''='' \<and> chainable (getSym L' f) \<and> noScoping (getSym L' f)"
    using D(16) D(10) by (auto simp: ext_sym [OF ext] name ext_frame [OF ext])
  show ?thesis
    unfolding syms_ok_def
    by (intro conjI ss 3 10 11 12 15 16 17)
      (use D(2,4-9,13,14) in \<open>simp_all only: core ext_frame [OF ext] ext_constant_sym [OF ext]\<close>)
qed

lemma new_symbol_linv:
  assumes inv: "linv L" and new: "new_symbol L n sorts L'" and n: "n \<noteq> ''=''"
  shows "linv L'"
proof -
  note ext = new_symbol_facts(1) [OF new] and tm = new_symbol_facts(4) [OF new]
  have t: "getSymRef L' t = getSymRef L t" "targs L' t = targs L t" for t
    by (simp_all add: getSymRef_def getPterm_def tm)
  have "hash_ok L'"
    using linv_parts(2) [OF inv] by (simp add: hash_ok_def tm t ext_boolop [OF ext])
  moreover have "terms_ok L'"
    using linv_parts(3) [OF inv] ext_shape [OF ext inv] term_arg [OF inv]
    by (simp add: terms_ok_def tm t ext_frame [OF ext])
  ultimately show ?thesis
    using new_symbol_syms_ok [OF linv_parts(1) [OF inv] new n] by (simp add: linv_def)
qed

section \<open>mkVar\<close>

lemma mkVar_fresh:
  assumes inv: "linv L" and fresh: "fresh_name L n" and n: "n \<noteq> ''=''"
  obtains L1 L' where "mkVar L s n = Inr (nterms L, L')" "new_symbol L n [s] L1" "made L1 (nterms L) L'"
    "getSymRef L' (nterms L) = nsyms L" "targs L' (nterms L) = []" "linv L'" "extends L L'" "nterms L' = Suc (nterms L)"
    "lg_syms L' = lg_syms L1"
proof -
  note ok = linv_parts(1) [OF inv]
  have "length [s] < 2 ^ 23" "[s] \<noteq> []"
    by simp_all
  then obtain L1 where L1: "newSymb_logic L n [s] = Inr (nsyms L, L1)" "new_symbol L n [s] L1"
    using newSymb_logic_fresh [OF syms_okD(1) [OF ok] _ _ fresh] by metis
  note ext = new_symbol_facts(1) [OF L1(2)] and tm = new_symbol_facts(4) [OF L1(2)]
  have inv1: "linv L1"
    using new_symbol_linv [OF inv L1(2) n] .
  have old: "f < nsyms L" if "f \<in> set (core_syms L @ [sym_ITE L]) \<union> equalities L \<union> disequalities L \<union> ites L" for f
    using that syms_okD(3,10,11) [OF ok] by blast
  have "sym_EQ L < nsyms L" "sym_DISTINCT L < nsyms L"
    using old syms_okD(4,5) [OF ok] by simp_all
  then have not: "nsyms L \<notin> ites L1" "\<not> isBooleanOperator_sym L1 (nsyms L)"
      "nsyms L \<noteq> sym_NOT L1" "nsyms L \<noteq> sym_XOR L1" "nsyms L \<noteq> sym_IMPLIES L1" "nsyms L \<notin> equalities L1"
    using old [of "nsyms L"] old [of "sym_ITE L"]
    by (auto simp: ext_boolop [OF ext] ext_frame [OF ext] isBooleanOperator_sym_def core_syms_def)
  have sh: "shape_ok L1 (nsyms L) []"
    using not new_symbol_facts(2) [OF L1(2)] by (simp add: shape_ok_def)
  have ar: "arity_ok L1 (nsyms L) []"
    by (simp add: arity_ok_def)
  have em: "\<forall>a \<in> set []. a < nterms L1"
    by simp
  have no: "\<not> (\<exists>t < nterms L1. getSymRef L1 t = nsyms L \<and> targs L1 t = [])"
    using term_parts(3) [OF inv] by (fastforce simp: tm getSymRef_def getPterm_def)
  obtain L' where L': "insertTermHash L1 (nsyms L) [] = (Some (nterms L1), L')" "added L1 (nsyms L) [] L'"
    using inv1 sh em ar
  proof (cases rule: insertTermHash_spec)
    case (known t)
    then show ?thesis
      using no by auto
  qed (use that in simp_all)
  have li: "linv L'"
    using added_linv [OF inv1 L'(2) sh _ no] by simp
  show ?thesis
  proof (rule that)
    show "mkVar L s n = Inr (nterms L, L')"
      using L1(1) L'(1) tm by (simp add: mkVar_def mkFun_def)
    show "made L1 (nterms L) L'" "getSymRef L' (nterms L) = nsyms L" "targs L' (nterms L) = []"
      "nterms L' = Suc (nterms L)" "lg_syms L' = lg_syms L1"
      using L' li added_extends [OF L'(2)] added_new [OF L'(2)] added_syms [OF L'(2)] tm
      by (simp_all add: made_def grows_def)
    show "extends L L'"
      using ext_trans [OF ext] added_extends [OF L'(2)] by blast
  qed (use L1 li in simp_all)
qed

section \<open>The names of the variables\<close>

definition str_nat :: "string \<Rightarrow> nat" where
  "str_nat s = foldl (\<lambda>n c. 10 * n + (of_char c - 48)) 0 s"

lemma str_nat_nat_str: "str_nat (nat_str n) = n"
proof (induction n rule: nat_str.induct)
  case (1 n)
  show ?case
  proof (cases "n < 10")
    case True
    then show ?thesis
      by (subst nat_str.simps) (simp add: str_nat_def)
  next
    case False
    then have "str_nat (nat_str (n div 10)) = n div 10"
      using 1 by simp
    moreover have "nat_str n = nat_str (n div 10) @ [char_of (48 + n mod 10)]"
      using False by (subst nat_str.simps) simp
    moreover have "(48 + n mod 10) mod 256 = 48 + n mod 10"
      by simp
    ultimately show ?thesis
      by (simp add: str_nat_def)
  qed
qed

lemma nat_str_inj: "nat_str m = nat_str n \<longleftrightarrow> m = n"
  using str_nat_nat_str by metis

section \<open>mkIte\<close>

text \<open>
  The recorded variables are terms, and the names that later calls will use are not taken.
\<close>

definition ite_ok :: "logic \<Rightarrow> bool" where
  "ite_ok L \<longleftrightarrow> (\<forall>t. top_level_ites L t \<noteq> None \<longrightarrow> t < nterms L) \<and>
     (\<forall>k \<ge> ite_counter L. fresh_name L (''.oite'' @ nat_str k))"

lemma linv_other [simp]: "linv (L\<lparr>ite_counter := k\<rparr>) = linv L" "linv (L\<lparr>top_level_ites := m\<rparr>) = linv L"
  by (simp_all add: linv_def syms_ok_def hash_ok_def terms_ok_def shape_ok_def core_syms_def hasSortBool_sym_def
      hasSortBool_def getSortRef_def getSym_def getPterm_def getSymRef_def isBooleanOperator_sym_def isConstant_sym_def)

lemma extends_other [simp]: "extends L (L\<lparr>ite_counter := k\<rparr>)" "extends L (L\<lparr>top_level_ites := m\<rparr>)"
  by (simp_all add: extends_def frame_def symstore_ext_refl)

lemma eq_declared_ext:
  assumes "extends L L'" "eq_declared L s" "linv L" "linv L'"
  shows "eq_declared L' s"
proof -
  obtain f where f: "f < nsyms L" "getName (lg_syms L) f = ''=''" "sy_sorts (getSym L f) = [sort_BOOL L, s, s]"
    using assms(2) by (auto simp: eq_declared_def)
  moreover have "length (ss_names (lg_syms L)) = nsyms L"
    using syms_okD(1) [OF linv_parts(1) [OF assms(3)]] by (simp add: symstore_inv_def)
  ultimately have "getName (lg_syms L') f = ''=''"
    using assms(1) by (auto simp: extends_def symstore_ext_def getName_def nth_append)
  then show ?thesis
    using f ext_nsyms [OF assms(1)] by (auto simp: eq_declared_def ext_sym [OF assms(1)] ext_frame [OF assms(1)] intro!: exI [of _ f])
qed

lemma makes_step:
  assumes "makes L r \<phi>" "\<And>I. good_int L I \<Longrightarrow> \<phi> I = \<psi> I"
  obtains t L' where "r = Inr (Some t, L')" "deref r = Inr (t, L')" "grows L L'" "denotes L' t \<psi>"
  using makes_deref [OF makes_cong [OF assms]] .

lemma denotesD: "denotes L t \<phi> \<Longrightarrow> bterm L t" "denotes L t \<phi> \<Longrightarrow> good_int L I \<Longrightarrow> truth L t I = \<phi> I"
  by (simp_all add: denotes_def)

text \<open>The defining formula of a new variable, once the variable exists.\<close>

lemma ite_formula:
  assumes inv: "linv L" and c: "bterm L c" and te: "t < nterms L" "e < nterms L" and o: "v < nterms L"
    and s: "getSortRef L t = Some s" "getSortRef L e = Some s" "getSortRef L v = Some s" and d: "eq_declared L s"
  obtains eq1 L2 if_term L3 eq2 L4 nc L5 else_term L6 repr L7 where
    "deref (mkEq L [v, t]) = Inr (eq1, L2)" "deref (mkImpl L2 [c, eq1]) = Inr (if_term, L3)"
    "deref (mkEq L3 [v, e]) = Inr (eq2, L4)" "deref (mkNot L4 c) = Inr (nc, L5)"
    "deref (mkImpl L5 [nc, eq2]) = Inr (else_term, L6)" "mkAnd L6 [if_term, else_term] = Inr (Some repr, L7)"
    "grows L L7"
    "denotes L7 repr (\<lambda>I :: 'u interp. eval L I v = (if truth L c I then eval L I t else eval L I e))"
proof -
  let ?eq1 = "\<lambda>I :: 'u interp. eval L I v = eval L I t" and ?eq2 = "\<lambda>I :: 'u interp. eval L I v = eval L I e"
  let ?c = "\<lambda>I :: 'u interp. truth L c I"
  have cn: "c < nterms L"
    using c by (simp add: bterm_def)
  obtain eq1 L2 where 2: "deref (mkEq L [v, t]) = Inr (eq1, L2)" "grows L L2" "denotes L2 eq1 ?eq1"
    using mkEq_makes [OF inv o te(1) s(3,1) d, where ?'u = 'u] by (rule makes_deref)
  note inv2 = growsD(1) [OF 2(2)]
  obtain if_term L3 where 3: "deref (mkImpl L2 [c, eq1]) = Inr (if_term, L3)" "grows L2 L3"
      "denotes L3 if_term (\<lambda>I. ?c I \<longrightarrow> ?eq1 I)"
  proof (rule makes_step)
    show "makes L2 (mkImpl L2 [c, eq1]) (\<lambda>I :: 'u interp. truth L2 c I \<longrightarrow> truth L2 eq1 I)"
      using grows_bterm [OF 2(2) inv c] denotesD(1) [OF 2(3)] by (rule mkImpl_makes [OF inv2])
  qed (use denotesD(2) [OF 2(3)] in \<open>simp add: grows_eval [OF 2(2) inv cn]\<close>)
  note g3 = grows_trans [OF 2(2) 3(2)] and inv3 = growsD(1) [OF 3(2)]
  have less: "v < nterms L3" "e < nterms L3"
    using o te(2) grows_less [OF g3] by simp_all
  have s3: "getSortRef L3 v = Some s" "getSortRef L3 e = Some s" "eq_declared L3 s"
    using s(2,3) ext_sort(1) [OF growsD(2) [OF g3] inv] o te(2) eq_declared_ext [OF growsD(2) [OF g3] d inv inv3] by simp_all
  obtain eq2 L4 where 4: "deref (mkEq L3 [v, e]) = Inr (eq2, L4)" "grows L3 L4" "denotes L4 eq2 ?eq2"
    using mkEq_makes [OF inv3 less s3, where ?'u = 'u]
    by (rule makes_step) (use o te(2) in \<open>simp_all add: grows_eval [OF g3 inv]\<close>)
  note g4 = grows_trans [OF g3 4(2)] and inv4 = growsD(1) [OF 4(2)]
  obtain nc L5 where 5: "deref (mkNot L4 c) = Inr (nc, L5)" "grows L4 L5" "denotes L5 nc (\<lambda>I. \<not> ?c I)"
    using mkNot_makes [OF inv4 grows_bterm [OF g4 inv c], where ?'u = 'u]
    by (rule makes_step) (simp_all add: grows_eval [OF g4 inv cn])
  note inv5 = growsD(1) [OF 5(2)] and g5 = grows_trans [OF g4 5(2)]
  have eq2: "denotes L5 eq2 ?eq2"
    using grows_denotes [OF 5(2) inv4 4(3)] .
  obtain else_term L6 where 6: "deref (mkImpl L5 [nc, eq2]) = Inr (else_term, L6)" "grows L5 L6"
      "denotes L6 else_term (\<lambda>I. \<not> ?c I \<longrightarrow> ?eq2 I)"
    using mkImpl_makes [OF inv5 denotesD(1) [OF 5(3)] denotesD(1) [OF eq2], where ?'u = 'u]
    by (rule makes_step) (use denotesD(2) [OF 5(3)] denotesD(2) [OF eq2] in simp_all)
  note inv6 = growsD(1) [OF 6(2)] and g6 = grows_trans [OF g5 6(2)]
  have if6: "denotes L6 if_term (\<lambda>I. ?c I \<longrightarrow> ?eq1 I)"
    using grows_denotes [OF grows_trans [OF grows_trans [OF 4(2) 5(2)] 6(2)] inv3 3(3)] .
  have "makes L6 (mkAnd L6 [if_term, else_term]) (\<lambda>I :: 'u interp. eval L I v = (if truth L c I then eval L I t else eval L I e))"
    using denotesD(1) [OF if6] denotesD(1) [OF 6(3)] denotesD(2) [OF if6] denotesD(2) [OF 6(3)]
    by (intro makes_cong [OF mkAnd_makes [OF inv6]]) auto
  then obtain repr L7 where "mkAnd L6 [if_term, else_term] = Inr (Some repr, L7)" "grows L6 L7"
    "denotes L7 repr (\<lambda>I :: 'u interp. eval L I v = (if truth L c I then eval L I t else eval L I e))"
    by (auto simp: makes_def)
  then show ?thesis
    using that 2(1) 3(1) 4(1) 5(1) 6(1) grows_trans [OF g6] by blast
qed

lemma mkIte_fresh:
  assumes inv: "linv L" and ok: "ite_ok L" and c: "bterm L c" "\<not> isTrue L c" "\<not> isFalse L c"
    and te: "t < nterms L" "e < nterms L" "t \<noteq> e"
    and s: "getSortRef L t = Some s" "getSortRef L e = Some s" and d: "eq_declared L s"
  obtains L' repr where "mkIte L [c, t, e] = Inr (Some (nterms L), L')" "linv L'" "ite_ok L'" "extends L L'"
    "nterms L < nterms L'" "getSymRef L' (nterms L) = nsyms L" "getSortRef L' (nterms L) = Some s"
    "targs L' (nterms L) = []"
    "top_level_ites L' = (top_level_ites L)(nterms L \<mapsto> \<lparr>ite_i = c, ite_t = t, ite_e = e, ite_repr = repr\<rparr>)"
    "nsyms L' = Suc (nsyms L)" "bterm L' repr"
    "\<And>I :: 'u interp. good_int L' I \<Longrightarrow>
       truth L' repr I = (eval L' I (nterms L) = (if truth L' c I then eval L' I t else eval L' I e))"
proof -
  let ?n = "''.oite'' @ nat_str (ite_counter L)" and ?L0 = "L\<lparr>ite_counter := ite_counter L + 1\<rparr>" and ?v = "nterms L"
  have name: "fresh_name L (''.oite'' @ nat_str k)" if "ite_counter L \<le> k" for k
    using ok that by (simp add: ite_ok_def)
  have fr0: "fresh_name ?L0 ?n"
    using name [of "ite_counter L"] by (simp add: fresh_name_def)
  obtain L0' L1 where 1: "mkVar ?L0 s ?n = Inr (?v, L1)" "new_symbol ?L0 ?n [s] L0'" "made L0' ?v L1"
      "getSymRef L1 ?v = nsyms L" "linv L1" "extends ?L0 L1" "nterms L1 = Suc ?v" "lg_syms L1 = lg_syms L0'" "targs L1 ?v = []"
  proof -
    have "linv ?L0" "?n \<noteq> ''=''" "lg_terms ?L0 = lg_terms L" "lg_syms ?L0 = lg_syms L"
      using inv by simp_all
    then show ?thesis
      using that mkVar_fresh [OF _ fr0, of s] by metis
  qed
  have e1: "extends L L1"
    using ext_trans [OF extends_other(1) 1(6)] .
  note new = new_symbol_facts [OF 1(2)]
  have g1: "grows L0' L1"
    using 1(3) by (simp add: made_def)
  have sv: "getSortRef L1 ?v = Some s"
    using 1(4,8) new(3) by (simp add: getSortRef_def getSym_def rsort_def Symbol_ctor_def)
  have less: "c < nterms L"
    using c(1) by (simp add: bterm_def)
  have in1: "bterm L1 c" "t < nterms L1" "e < nterms L1" "?v < nterms L1"
      "getSortRef L1 t = Some s" "getSortRef L1 e = Some s" "eq_declared L1 s"
    using te s c(1) 1(7) ext_sort [OF e1 inv] less eq_declared_ext [OF e1 d inv 1(5)] by (simp_all add: bterm_def)
  obtain eq1 L2 if_term L3 eq2 L4 nc L5 else_term L6 repr L7 where F:
    "deref (mkEq L1 [?v, t]) = Inr (eq1, L2)" "deref (mkImpl L2 [c, eq1]) = Inr (if_term, L3)"
    "deref (mkEq L3 [?v, e]) = Inr (eq2, L4)" "deref (mkNot L4 c) = Inr (nc, L5)"
    "deref (mkImpl L5 [nc, eq2]) = Inr (else_term, L6)" "mkAnd L6 [if_term, else_term] = Inr (Some repr, L7)"
    "grows L1 L7"
    "denotes L7 repr (\<lambda>I :: 'u interp. eval L1 I ?v = (if truth L1 c I then eval L1 I t else eval L1 I e))"
    using ite_formula [OF 1(5) in1(1-4,5,6) sv in1(7), where ?'u = 'u] by blast
  let ?m = "(top_level_ites L)(?v \<mapsto> \<lparr>ite_i = c, ite_t = t, ite_e = e, ite_repr = repr\<rparr>)"
  let ?L' = "L7\<lparr>top_level_ites := ?m\<rparr>"
  note inv7 = growsD(1) [OF F(7)]
  have top: "top_level_ites L7 = top_level_ites L" "ite_counter L7 = Suc (ite_counter L)"
    using growsD(4,5) [OF F(7)] growsD(4,5) [OF g1] new_symbol_ites [OF 1(2)] by simp_all
  have none: "top_level_ites L ?v = None"
    using ok by (auto simp: ite_ok_def)
  have "mkIte L [c, t, e] = Inr (Some ?v, ?L')"
    using c te(3) s 1(1) F(1-6) top(1) none by (simp add: mkIte_def Let_def bterm_def del: fun_upd_apply)
  moreover have "linv ?L'"
    using inv7 by simp
  moreover have e7: "extends L7 ?L'"
    by simp
  moreover have "extends L ?L'"
    using ext_trans [OF e1 ext_trans [OF growsD(2) [OF F(7)] e7]] .
  moreover have n7: "nterms L < nterms ?L'" "getSymRef ?L' ?v = nsyms L" "getSortRef ?L' ?v = Some s" "nsyms ?L' = Suc (nsyms L)"
      "targs ?L' ?v = []"
  proof -
    show "nterms L < nterms ?L'"
      using grows_less [OF F(7) in1(4)] by simp
    show "targs ?L' ?v = []"
      using ext_term [OF growsD(2) [OF F(7)] in1(4)] 1(9) by (simp add: getPterm_def)
    show "getSymRef ?L' ?v = nsyms L" "getSortRef ?L' ?v = Some s" "nsyms ?L' = Suc (nsyms L)"
      using ext_symref [OF growsD(2) [OF F(7)] in1(4)] 1(4,8) ext_sort(1) [OF growsD(2) [OF F(7)] 1(5) in1(4)] sv
        growsD(3) [OF F(7)] new(2)
      by (simp_all add: getSymRef_def getPterm_def getSortRef_def getSym_def)
  qed
  moreover have "ite_ok ?L'"
  proof -
    have syms: "lg_syms L7 = lg_syms L0'"
      using growsD(3) [OF F(7)] 1(8) by simp
    have "fresh_name L7 (''.oite'' @ nat_str k)" if "Suc (ite_counter L) \<le> k" for k
    proof -
      have sinv: "symstore_inv (lg_syms ?L0)"
        using syms_okD(1) [OF linv_parts(1) [OF inv]] by simp
      have ne: "''.oite'' @ nat_str k \<noteq> ?n"
        using that by (simp add: nat_str_inj)
      have old: "getName (lg_syms L0') f = getName (lg_syms L) f" if "f < nsyms L" for f
        using new_symbol_name(1) [OF 1(2) sinv, of f] that by simp
      have last: "getName (lg_syms L0') (nsyms L) = ?n"
        using new_symbol_name(2) [OF 1(2) sinv] by simp
      have "nsyms L7 = Suc (nsyms L)"
        using new(2) syms by simp
      then show ?thesis
        using name [of k] that old last ne unfolding fresh_name_def syms by (metis less_Suc_eq Suc_leD)
    qed
    moreover have "\<forall>x. top_level_ites L x \<noteq> None \<longrightarrow> x < nterms ?L'"
      using ok n7(1) by (auto simp: ite_ok_def intro: order_less_trans)
    ultimately show ?thesis
      using n7(1) top(2) by (auto simp: ite_ok_def fresh_name_def)
  qed
  moreover have "top_level_ites ?L' = ?m"
    by simp
  moreover have "bterm ?L' repr"
    using denotesD(1) [OF F(8)] by (simp add: bterm_def hasSortBool_def getSym_def getSymRef_def getPterm_def)
  moreover have "truth ?L' repr I = (eval ?L' I ?v = (if truth ?L' c I then eval ?L' I t else eval ?L' I e))"
    if good: "good_int ?L' I" for I :: "'u interp"
  proof -
    have g: "good_int L7 I"
      using good good_int_same [OF e7, of I] by simp
    have ev: "eval ?L' I x = eval L7 I x" if "x < nterms L7" for x
      using eval_ext [OF e7 inv7 that] .
    have r: "repr < nterms L7" "?v < nterms L7" "c < nterms L7" "t < nterms L7" "e < nterms L7"
      using denotesD(1) [OF F(8)] grows_less [OF F(7)] in1(1-4) by (simp_all add: bterm_def)
    have l1: "c < nterms L1"
      using in1(1) by (simp add: bterm_def)
    show ?thesis
      using denotesD(2) [OF F(8) g] ev r
        grows_eval [OF F(7) 1(5) in1(4), of I] grows_eval [OF F(7) 1(5) in1(2), of I]
        grows_eval [OF F(7) 1(5) in1(3), of I] grows_eval [OF F(7) 1(5) l1, of I]
      by simp
  qed
  ultimately show ?thesis
    using that by blast
qed

lemma mkIte_trivial:
  assumes "linv L" "bterm L c" "t < nterms L" "e < nterms L" "isTrue L c \<or> isFalse L c \<or> t = e"
  obtains v where "mkIte L [c, t, e] = Inr (Some v, L)" "v = (if isTrue L c then t else if isFalse L c then e else t)"
    "\<And>I :: 'u interp. eval L I v = (if truth L c I then eval L I t else eval L I e)"
proof -
  have c: "c < nterms L" "hasSortBool L c"
    using assms(2) by (simp_all add: bterm_def)
  let ?v = "if isTrue L c then t else if isFalse L c then e else t"
  show ?thesis
  proof (rule that [of ?v])
    show "mkIte L [c, t, e] = Inr (Some ?v, L)"
      using assms(5) c(2) by (auto simp: mkIte_def Let_def)
    show "eval L I ?v = (if truth L c I then eval L I t else eval L I e)" for I :: "'u interp"
      using assms(5) eval_true [OF assms(1) c(1), of I] eval_false [OF assms(1) c(1), of I] by auto
  qed simp
qed

section \<open>Conservativity\<close>

lemma app_sym_cong: "I f vs = J f vs \<Longrightarrow> app_sym L I f vs = app_sym L J f vs"
  by (simp add: app_sym_def)

lemma eval_cong_syms:
  assumes "linv L" and I: "\<And>f vs. f < nsyms L \<Longrightarrow> I f vs = J f vs"
  shows "t < nterms L \<Longrightarrow> eval L I t = eval L J t"
proof (induction t rule: less_induct)
  case (less t)
  have m: "map (eval L I) (targs L t) = map (eval L J) (targs L t)"
    using less term_parts(1) [OF assms(1) less.prems] term_arg [OF assms(1) less.prems] by simp
  show ?case
    unfolding eval_term [OF assms(1) less.prems] m
    by (rule app_sym_cong) (rule I [OF term_parts(3) [OF assms(1) less.prems]])
qed

lemma eval_sort:
  assumes inv: "linv L" and t: "t < nterms L" and g: "good_int L I"
  shows "is_VB (eval L I t) \<longleftrightarrow> hasSortBool L t"
proof
  assume v: "is_VB (eval L I t)"
  let ?f = "getSymRef L t" and ?vs = "map (eval L I) (targs L t)"
  have f: "?f < nsyms L" "?f \<notin> ites L"
    using term_parts(2) [OF inv t] by (simp_all add: shape_ok_def)
  have "hasSortBool_sym L ?f"
  proof (cases "?f \<in> set (core_syms L) \<union> equalities L \<union> disequalities L")
    case True
    then show ?thesis
      using linv_core(2) [OF inv] syms_okD(10) [OF linv_parts(1) [OF inv]] by auto
  next
    case False
    then have "eval L I t = I ?f ?vs"
      using f(2) by (simp add: eval_term [OF inv t] app_sym_def core_syms_def)
    then show ?thesis
      using v good_int_sort [OF g f(1), of ?vs] by (auto simp: is_VB_def)
  qed
  then show "hasSortBool L t"
    by (simp add: hasSortBool_sym_ref)
next
  assume "hasSortBool L t"
  then show "is_VB (eval L I t)"
    using eval_bool [OF inv t _ g] by (simp add: is_VB_def)
qed

lemma old_syms:
  assumes "linv L" "f \<in> set (core_syms L) \<union> equalities L \<union> disequalities L \<union> ites L"
  shows "f < nsyms L"
  using assms linv_core(1) [OF assms(1)] syms_okD(10,11) [OF linv_parts(1) [OF assms(1)]] by auto

lemma app_sym_other:
  "f \<notin> set (core_syms L) \<union> equalities L \<union> disequalities L \<union> ites L \<Longrightarrow> app_sym L I f vs = I f vs"
  by (simp add: app_sym_def core_syms_def)

text \<open>
  An interpretation of the old symbols extends to one of a single new variable symbol, with any
  value of the right sort, without a change to an old term.
\<close>

lemma extend_interp:
  fixes I :: "'u interp"
  assumes inv: "linv L" and inv': "linv L'" and ext: "extends L L'" and n: "nsyms L' = Suc (nsyms L)"
    and v: "v < nterms L'" "getSymRef L' v = nsyms L" and good: "good_int L I"
    and W: "is_VB W \<longleftrightarrow> hasSortBool_sym L' (nsyms L)"
  defines "J \<equiv> \<lambda>f vs. if f = nsyms L then W else I f vs"
  shows "good_int L' J" "eval L' J v = W" "\<And>x. x < nterms L \<Longrightarrow> eval L' J x = eval L I x"
proof -
  have J: "J f vs = I f vs" if "f < nsyms L" for f vs
    using that by (simp add: J_def)
  have sort: "hasSortBool_sym L' f \<longleftrightarrow> (\<exists>b. J f vs = VB b)" if "f < nsyms L'" for f vs
  proof (cases "f = nsyms L")
    case True
    then show ?thesis
      using W by (auto simp: J_def is_VB_def)
  next
    case False
    then have f: "f < nsyms L"
      using that n by simp
    then have "hasSortBool_sym L' f = hasSortBool_sym L f"
      by (simp add: hasSortBool_sym_def ext_sym [OF ext] ext_frame [OF ext])
    then show ?thesis
      using good_int_sort [OF good f, of vs] J [OF f, of vs] by simp
  qed
  have const: "c < nsyms L" if "isConstant_sym L' c" for c
    using that syms_okD(15) [OF linv_parts(1) [OF inv]] by (simp add: ext_constant_sym [OF ext])
  have "app_sym L' J c [] = app_sym L I c []" if "isConstant_sym L' c" for c
    using app_sym_cong [of J c "[]" I L] J [OF const [OF that]] by (simp add: app_sym_ext [OF ext])
  then show "good_int L' J"
    using sort good_int_constants [OF good] unfolding good_int_def by (simp add: ext_constant_sym [OF ext])
  have not: "nsyms L \<notin> set (core_syms L) \<union> equalities L \<union> disequalities L \<union> ites L"
    using old_syms [OF inv] by blast
  then show "eval L' J v = W"
    unfolding eval_term [OF inv' v(1)] v(2) app_sym_ext [OF ext] by (simp add: app_sym_other J_def)
  show "eval L' J x = eval L I x" if "x < nterms L" for x
    using eval_ext [OF ext inv that, of J] eval_cong_syms [OF inv J that] by simp
qed

end
