(* ===== verification/Logic_Start.thy ===== *)
theory Logic_Start
  imports Logic_Ite
begin

text \<open>
  The state the constructor of \<open>Logic\<close> leaves, written out, and its invariant: the
  first state of every run, and the state in which the witnesses live.
\<close>

section \<open>The first state\<close>

definition start_names :: "string list" where
  "start_names = [''true'', ''false'', ''.anon'', ''.uf-not'', ''not'', ''='', ''=>'', ''and'', ''or'', ''xor'', ''distinct'', ''ite'']"

definition start_symbols :: "sref \<Rightarrow> symbol list" where
  "start_symbols b =
  [\<lparr>sy_type = 0, sy_commutes = False, sy_noscoping = True, sy_interpreted = True, sy_size = 1, sy_sorts = [b]\<rparr>,
   \<lparr>sy_type = 0, sy_commutes = False, sy_noscoping = True, sy_interpreted = True, sy_size = 1, sy_sorts = [b]\<rparr>,
   \<lparr>sy_type = 0, sy_commutes = False, sy_noscoping = False, sy_interpreted = False, sy_size = 0, sy_sorts = []\<rparr>,
   \<lparr>sy_type = 0, sy_commutes = False, sy_noscoping = False, sy_interpreted = False, sy_size = 1, sy_sorts = [b]\<rparr>,
   \<lparr>sy_type = 0, sy_commutes = False, sy_noscoping = True, sy_interpreted = True, sy_size = 2, sy_sorts = [b, b]\<rparr>,
   \<lparr>sy_type = 3, sy_commutes = True, sy_noscoping = True, sy_interpreted = True, sy_size = 3, sy_sorts = [b, b, b]\<rparr>,
   \<lparr>sy_type = 2, sy_commutes = False, sy_noscoping = True, sy_interpreted = True, sy_size = 3, sy_sorts = [b, b, b]\<rparr>,
   \<lparr>sy_type = 1, sy_commutes = True, sy_noscoping = True, sy_interpreted = True, sy_size = 3, sy_sorts = [b, b, b]\<rparr>,
   \<lparr>sy_type = 1, sy_commutes = True, sy_noscoping = True, sy_interpreted = True, sy_size = 3, sy_sorts = [b, b, b]\<rparr>,
   \<lparr>sy_type = 1, sy_commutes = True, sy_noscoping = True, sy_interpreted = False, sy_size = 3, sy_sorts = [b, b, b]\<rparr>,
   \<lparr>sy_type = 4, sy_commutes = True, sy_noscoping = True, sy_interpreted = True, sy_size = 3, sy_sorts = [b, b, b]\<rparr>,
   \<lparr>sy_type = 1, sy_commutes = False, sy_noscoping = True, sy_interpreted = True, sy_size = 3, sy_sorts = [b, b, b]\<rparr>]"

definition start_syms :: "sref \<Rightarrow> symstore" where
  "start_syms b = \<lparr>ss_table = [''true'' \<mapsto> [0], ''false'' \<mapsto> [1], ''.anon'' \<mapsto> [2], ''.uf-not'' \<mapsto> [3], ''not'' \<mapsto> [4], ''='' \<mapsto> [5], ''=>'' \<mapsto> [6], ''and'' \<mapsto> [7], ''or'' \<mapsto> [8], ''xor'' \<mapsto> [9], ''distinct'' \<mapsto> [10], ''ite'' \<mapsto> [11]],
     ss_symbols = start_symbols b, ss_names = start_names\<rparr>"

definition start_terms :: ptstore where
  "start_terms = \<lparr>ps_terms = [Pterm_ctor 0 [], Pterm_ctor 1 []], cterm_map = [0 \<mapsto> 0, 1 \<mapsto> 1],
     cplx_map = Map.empty, bool_map = Map.empty\<rparr>"

definition start :: "sref \<Rightarrow> logic" where
  "start b = \<lparr>lg_syms = start_syms b, lg_terms = start_terms, equalities = {5}, disequalities = {10},
     ites = {11}, ufsorts = {}, constants = [True, True],
     interpreted_functions = [False, False, False, False, True, True, True, True, True, True, True, True],
     appears_in_uf = [], propFormulasAppearingInUF = [], top_level_ites = Map.empty, ite_counter = 0,
     sym_TRUE = 0, sym_FALSE = 1, sym_ANON = 2, sym_AND = 7, sym_OR = 8, sym_XOR = 9, sym_NOT = 4,
     sym_UF_NOT = 3, sym_EQ = 5, sym_IMPLIES = 6, sym_DISTINCT = 10, sym_ITE = 11,
     sort_BOOL = b, term_TRUE = 0, term_FALSE = 1\<rparr>"

lemma Symbol_ctor_short:
  "length ps < 4 \<Longrightarrow> Symbol_ctor ps = \<lparr>sy_type = 0, sy_commutes = False, sy_noscoping = False,
     sy_interpreted = False, sy_size = length ps, sy_sorts = ps\<rparr>"
  by (simp add: Symbol_ctor_def)

lemma Logic_ctor_start: "Logic_ctor b = Inr (start b)"
  by (simp add: Logic_ctor_def Let_def init_const_def init_fun_def mkConst_def mkVar_def newSymb_logic_def newSymb_def
      Logic_blank_def SymStore_empty_def PtStore_empty_def getRefOrNull_def mkFun_def insertTermHash_def hasCtermKey_def
      newTerm_def addToCtermMap_def markConstant_def getSymRef_def getPterm_def term_at_def Pterm_ctor_def nameToRef0_def
      upd_sym_def upd_symbol_def set_interpreted_def setInterpreted_def Symbol_ctor_short setNoScoping_def declareFun_def
      getSym_def sym_at_def setChainable_def setRightAssoc_def setLeftAssoc_def setPairwise_def set_type_def
      setCommutes_def nth_append start_def start_syms_def start_terms_def start_symbols_def start_names_def eval_nat_numeral)

section \<open>Its invariant\<close>

fun newSymb_chain :: "symstore \<Rightarrow> (string \<times> sref list) list \<Rightarrow> symstore result" where
  "newSymb_chain st [] = Inr st"
| "newSymb_chain st ((n, args) # ps) = rbind (newSymb st n args) (\<lambda>(_, st1). newSymb_chain st1 ps)"

lemma newSymb_chain_inv:
  "symstore_inv st \<Longrightarrow> \<forall>p \<in> set ps. length (snd p) < 2 ^ 23 \<Longrightarrow> newSymb_chain st ps = Inr st' \<Longrightarrow>
   symstore_inv st'"
proof (induction st ps rule: newSymb_chain.induct)
  case (2 st n args ps)
  then obtain r st1 where new: "newSymb st n args = Inr (r, st1)" and rest: "newSymb_chain st1 ps = Inr st'"
    by (cases "newSymb st n args") auto
  have "symstore_inv st1"
    using newSymb_ok [OF 2(2) _ new] 2(3) by simp
  then show ?case
    using 2(1) rest 2(3) by simp
qed simp

lemma symstore_inv_flags:
  assumes "symstore_inv st" "ss_table st' = ss_table st" "ss_names st' = ss_names st"
    and sorts: "map sy_sorts (ss_symbols st') = map sy_sorts (ss_symbols st)"
    and sizes: "map sy_size (ss_symbols st') = map sy_size (ss_symbols st)"
  shows "symstore_inv st'"
proof -
  have len: "length (ss_symbols st') = length (ss_symbols st)"
    using sorts by (rule map_eq_imp_length_eq)
  have nth: "sy_sorts (ss_symbols st' ! i) = sy_sorts (ss_symbols st ! i)"
      "sy_size (ss_symbols st' ! i) = sy_size (ss_symbols st ! i)" if "i < length (ss_symbols st)" for i
    using arg_cong [OF sorts, of "\<lambda>xs. xs ! i"] arg_cong [OF sizes, of "\<lambda>xs. xs ! i"] that len by simp_all
  have "\<forall>s \<in> set (ss_symbols st'). sy_size s = length (sy_sorts s) \<and> length (sy_sorts s) < 2 ^ 23"
    using symstore_size [OF assms(1)] nth len unfolding all_set_conv_all_nth by simp
  then show ?thesis
    using assms(1) nth unfolding symstore_inv_def assms(2,3) len by simp
qed

lemma start_syms_inv: "symstore_inv (start_syms b)"
proof -
  let ?st = "(start_syms b)\<lparr>ss_symbols := map Symbol_ctor (map sy_sorts (start_symbols b))\<rparr>"
  have "newSymb_chain SymStore_empty (zip start_names (map sy_sorts (start_symbols b))) = Inr ?st"
    by (simp add: start_syms_def start_names_def start_symbols_def newSymb_def getRefOrNull_def SymStore_empty_def
        eval_nat_numeral)
  then have "symstore_inv ?st"
    by (rule newSymb_chain_inv [OF symstore_inv_empty, rotated]) (simp add: start_names_def start_symbols_def)
  then show ?thesis
    by (rule symstore_inv_flags) (simp_all add: start_syms_def start_symbols_def Symbol_ctor_def)
qed

lemma start_sel [simp]:
  "lg_syms (start b) = start_syms b" "lg_terms (start b) = start_terms" "equalities (start b) = {5}"
  "disequalities (start b) = {10}" "ites (start b) = {11}" "constants (start b) = [True, True]"
  "sym_TRUE (start b) = 0" "sym_FALSE (start b) = 1" "sym_AND (start b) = 7" "sym_OR (start b) = 8"
  "sym_XOR (start b) = 9" "sym_NOT (start b) = 4" "sym_EQ (start b) = 5" "sym_IMPLIES (start b) = 6"
  "sym_DISTINCT (start b) = 10" "sym_ITE (start b) = 11" "sort_BOOL (start b) = b" "term_TRUE (start b) = 0"
  "term_FALSE (start b) = 1" "top_level_ites (start b) = Map.empty" "ite_counter (start b) = 0"
  by (simp_all add: start_def)

lemma start_tables [simp]:
  "ss_symbols (start_syms b) = start_symbols b" "ss_names (start_syms b) = start_names"
  "length (start_symbols b) = 12" "length (ps_terms start_terms) = 2"
  by (simp_all add: start_syms_def start_symbols_def start_terms_def)

lemma less_12: "(\<forall>f < (12::nat). P f) \<longleftrightarrow> P 0 \<and> P 1 \<and> P 2 \<and> P 3 \<and> P 4 \<and> P 5 \<and> P 6 \<and> P 7 \<and> P 8 \<and> P 9 \<and> P 10 \<and> P 11"
  by (simp add: eval_nat_numeral All_less_Suc conj_ac)

lemmas start_eval = getSym_def sym_at_def start_symbols_def start_names_def getName_def hasSortBool_sym_def rsort_def
  isBooleanOperator_sym_def isConstant_sym_def nargs_def chainable_def noScoping_def core_syms_def

lemma start_syms_ok: "syms_ok (start b)"
  unfolding syms_ok_def
  by (intro conjI) (simp_all add: start_syms_inv less_12 start_eval nth_Cons' less_Suc_eq numeral_2_eq_2)

lemma start_term:
  assumes "t < 2"
  shows "getSymRef (start b) t = t" "targs (start b) t = []"
proof -
  have "t = 0 \<or> t = 1"
    using assms by auto
  then show "getSymRef (start b) t = t" "targs (start b) t = []"
    by (auto simp: getSymRef_def getPterm_def term_at_def start_terms_def Pterm_ctor_def)
qed

lemma start_hash_ok: "hash_ok (start b)"
proof -
  have "cterm_map start_terms f = Some t \<longleftrightarrow> t < 2 \<and> f = t" for f t
    by (auto simp: start_terms_def)
  moreover have "bool_map start_terms = Map.empty" "cplx_map start_terms = Map.empty"
    by (simp_all add: start_terms_def)
  ultimately show ?thesis
    by (auto simp: hash_ok_def start_term)
qed

lemma start_terms_ok: "terms_ok (start b)"
proof -
  have "shape_ok (start b) t []" if "t < 2" for t
    using that by (auto simp: shape_ok_def isBooleanOperator_sym_def)
  then show ?thesis
    by (simp add: terms_ok_def start_term)
qed

lemma start_sym: "getSym (start b) f = start_symbols b ! f"
  by (simp add: getSym_def sym_at_def)

lemma start_linv: "linv (start b)"
  by (simp add: linv_def start_syms_ok start_hash_ok start_terms_ok)

lemma start_ite_ok: "ite_ok (start b)"
  by (simp add: ite_ok_def fresh_name_def less_12 getName_def start_names_def)

end
