(* ===== verification/Term_Mapper.thy ===== *)
theory Term_Mapper
  imports Logic_Start
begin

text \<open>
  The class \<open>TermMapper\<close> of \<open>src/src/cnfizers/TermMapper.h\<close> and
  \<open>TermMapper.C\<close>: the correspondence of Boolean terms, up to negation, and variables of
  the SAT solver. The state record \<open>cnf\<close> is the one of the CNF component: it holds the
  logic, whose terms carry their variable, the fields of the mapper, the frame terms of the
  \<open>Cnfizer\<close>, and what the solver was given: the clauses in the order of the calls of
  \<open>addOriginalSMTClause\<close> and the variables of \<open>addVar\<close>.
\<close>

record cnf =
  cn_logic :: logic
  var_cnt :: nat
  varToTerm :: "ptref option list"
  varToTheorySymbol :: "symref option list"
  frozen :: "bool list"
  frame_term :: ptref
  frame_terms :: "ptref list"
  s_empty :: bool
  sent :: "lit list list"
  solver_vars :: "nat list"

section \<open>Operations\<close>

definition getVar_of :: "logic \<Rightarrow> ptref \<Rightarrow> nat option" where
  "getVar_of L t = pt_var (getPterm L t)"

definition setVar :: "ptref \<Rightarrow> nat \<Rightarrow> logic \<Rightarrow> logic" where
  "setVar t v L = L\<lparr>lg_terms := (lg_terms L)\<lparr>ps_terms :=
     (ps_terms (lg_terms L))[t := (getPterm L t)\<lparr>pt_var := Some v\<rparr>]\<rparr>\<rparr>"

partial_function (option) getTerm_loop :: "logic \<Rightarrow> ptref \<Rightarrow> bool \<Rightarrow> (ptref \<times> bool) option" where
  "getTerm_loop L r sg =
     (if getSymRef L r = sym_NOT L then getTerm_loop L (pt_args (getPterm L r) ! 0) (\<not> sg) else Some (r, sg))"

definition getTerm :: "logic \<Rightarrow> ptref \<Rightarrow> (ptref \<times> bool) result" where
  "getTerm L r = returns (getTerm_loop L r False)"

definition getVar_pure :: "logic \<Rightarrow> ptref \<Rightarrow> (ptref \<times> nat option) result" where
  "getVar_pure L r = rbind (getTerm L r) (\<lambda>(p, _). Inr (p, getVar_of L p))"

definition getVar_term :: "logic \<Rightarrow> ptref \<Rightarrow> nat option result" where
  "getVar_term L r = rbind (getVar_pure L r) (\<lambda>(p, _). Inr (getVar_of L p))"

definition addBinding :: "cnf \<Rightarrow> ptref \<Rightarrow> (nat \<times> cnf) result" where
  "addBinding S tr =
     rbind (getVar_pure (cn_logic S) tr) (\<lambda>(p, ov).
       let (v, S1) = (case ov of
             Some v \<Rightarrow> (v, S)
           | None \<Rightarrow> (var_cnt S, S\<lparr>var_cnt := var_cnt S + 1, cn_logic := setVar p (var_cnt S) (cn_logic S)\<rparr>));
           n = length (varToTerm S1)
       in require (n \<le> v \<or> varToTerm S1 ! v = Some p \<or> varToTerm S1 ! v = None)
         (require (n = length (varToTheorySymbol S1))
         (require (n \<le> v \<or> varToTheorySymbol S1 ! v = Some (getSymRef (cn_logic S1) p) \<or> varToTheorySymbol S1 ! v = None)
         (require (n = length (frozen S1))
           (let k = v + 1 - n in
            Inr (v, S1\<lparr>varToTerm := (varToTerm S1 @ replicate k None)[v := Some p],
              varToTheorySymbol := (varToTheorySymbol S1 @ replicate k None)[v := Some (getSymRef (cn_logic S1) p)],
              frozen := frozen S1 @ replicate k False\<rparr>))))))"

definition getLit :: "cnf \<Rightarrow> ptref \<Rightarrow> lit result" where
  "getLit S r = rbind (getTerm (cn_logic S) r) (\<lambda>(p, sg).
     case getVar_of (cn_logic S) p of None \<Rightarrow> Inl Assertion_Failed | Some v \<Rightarrow> Inr (mkLit v sg))"

definition getOrCreateLit :: "cnf \<Rightarrow> ptref \<Rightarrow> (lit \<times> cnf) result" where
  "getOrCreateLit S ptr =
     rbind (getTerm (cn_logic S) ptr) (\<lambda>(p, sg).
       case getVar_of (cn_logic S) p of
         Some v \<Rightarrow> Inr (mkLit v sg, S)
       | None \<Rightarrow> rbind (addBinding S p) (\<lambda>(v, S1).
           require (hasSortBool (cn_logic S1) p) (Inr (mkLit v sg, S1))))"

definition setFrozen :: "nat \<Rightarrow> cnf \<Rightarrow> cnf" where
  "setFrozen v S = S\<lparr>frozen := (frozen S)[v := True]\<rparr>"

definition isFrozen :: "cnf \<Rightarrow> nat \<Rightarrow> bool" where
  "isFrozen S v = frozen S ! v"

definition hasLit :: "cnf \<Rightarrow> ptref \<Rightarrow> bool" where
  "hasLit S tr \<longleftrightarrow> getVar_of (cn_logic S) tr \<noteq> None"

definition varToPTRef :: "cnf \<Rightarrow> nat \<Rightarrow> ptref result" where
  "varToPTRef S v = (case varToTerm S ! v of
     None \<Rightarrow> Inl Uninitialised_Read
   | Some t \<Rightarrow> require (getVar_of (cn_logic S) t = Some v) (Inr t))"

definition mapper_nVars :: "cnf \<Rightarrow> nat" where
  "mapper_nVars S = length (varToTerm S)"

section \<open>Variables do not change terms\<close>

lemma setVar_terms [simp]:
  "getSymRef (setVar t v L) u = getSymRef L u" "targs (setVar t v L) u = targs L u"
  "nterms (setVar t v L) = nterms L" "lg_syms (setVar t v L) = lg_syms L"
  by (cases "t < nterms L"; cases "u = t"; simp add: setVar_def getSymRef_def getPterm_def term_at_def list_update_beyond)+

lemma setVar_sel [simp]:
  "equalities (setVar t v L) = equalities L" "disequalities (setVar t v L) = disequalities L"
  "ites (setVar t v L) = ites L" "constants (setVar t v L) = constants L"
  "sym_TRUE (setVar t v L) = sym_TRUE L" "sym_FALSE (setVar t v L) = sym_FALSE L"
  "sym_AND (setVar t v L) = sym_AND L" "sym_OR (setVar t v L) = sym_OR L" "sym_XOR (setVar t v L) = sym_XOR L"
  "sym_NOT (setVar t v L) = sym_NOT L" "sym_EQ (setVar t v L) = sym_EQ L"
  "sym_IMPLIES (setVar t v L) = sym_IMPLIES L" "sym_DISTINCT (setVar t v L) = sym_DISTINCT L"
  "sym_ITE (setVar t v L) = sym_ITE L" "sort_BOOL (setVar t v L) = sort_BOOL L"
  "term_TRUE (setVar t v L) = term_TRUE L" "term_FALSE (setVar t v L) = term_FALSE L"
  "getSym (setVar t v L) f = getSym L f" "ufsorts (setVar t v L) = ufsorts L"
  "cterm_map (lg_terms (setVar t v L)) = cterm_map (lg_terms L)"
  "bool_map (lg_terms (setVar t v L)) = bool_map (lg_terms L)"
  "cplx_map (lg_terms (setVar t v L)) = cplx_map (lg_terms L)"
  by (simp_all add: setVar_def getSym_def)

lemma setVar_var:
  "t < nterms L \<Longrightarrow> getVar_of (setVar t v L) u = (if u = t then Some v else getVar_of L u)"
  by (simp add: getVar_of_def setVar_def getPterm_def term_at_def nth_list_update)

text \<open>
  Two logics with the same terms and symbols, whatever the variables of the terms: every query
  and every value is the same.
\<close>

definition same_terms :: "logic \<Rightarrow> logic \<Rightarrow> bool" where
  "same_terms L L' \<longleftrightarrow> nterms L' = nterms L \<and> lg_syms L' = lg_syms L \<and> frame L' = frame L \<and>
     (\<forall>u. getSymRef L' u = getSymRef L u \<and> targs L' u = targs L u) \<and>
     cterm_map (lg_terms L') = cterm_map (lg_terms L) \<and> bool_map (lg_terms L') = bool_map (lg_terms L) \<and>
     cplx_map (lg_terms L') = cplx_map (lg_terms L)"

lemma same_terms_setVar: "same_terms L (setVar t v L)"
  by (simp add: same_terms_def frame_def)

lemma same_terms_refl [simp]: "same_terms L L"
  by (simp add: same_terms_def)

lemma same_terms_trans: "same_terms A B \<Longrightarrow> same_terms B C \<Longrightarrow> same_terms A C"
  by (simp add: same_terms_def)

lemma same_termsD:
  assumes "same_terms L L'"
  shows "nterms L' = nterms L" "lg_syms L' = lg_syms L" "getSymRef L' u = getSymRef L u" "targs L' u = targs L u"
    "getSym L' f = getSym L f" "cterm_map (lg_terms L') = cterm_map (lg_terms L)"
    "bool_map (lg_terms L') = bool_map (lg_terms L)" "cplx_map (lg_terms L') = cplx_map (lg_terms L)"
  using assms by (simp_all add: same_terms_def getSym_def)

lemma same_terms_frame:
  assumes "same_terms L L'"
  shows "equalities L' = equalities L" "disequalities L' = disequalities L" "ites L' = ites L"
    "constants L' = constants L" "sym_TRUE L' = sym_TRUE L" "sym_FALSE L' = sym_FALSE L"
    "sym_AND L' = sym_AND L" "sym_OR L' = sym_OR L" "sym_XOR L' = sym_XOR L" "sym_NOT L' = sym_NOT L"
    "sym_EQ L' = sym_EQ L" "sym_IMPLIES L' = sym_IMPLIES L" "sym_DISTINCT L' = sym_DISTINCT L"
    "sym_ITE L' = sym_ITE L" "sort_BOOL L' = sort_BOOL L" "term_TRUE L' = term_TRUE L" "term_FALSE L' = term_FALSE L"
  using assms by (simp_all add: same_terms_def frame_def)

lemma same_terms_queries:
  assumes "same_terms L L'"
  shows "hasSortBool L' t = hasSortBool L t" "hasSortBool_sym L' f = hasSortBool_sym L f"
    "isBooleanOperator_sym L' f = isBooleanOperator_sym L f" "isConstant_sym L' f = isConstant_sym L f"
    "isAnd L' t = isAnd L t" "isOr L' t = isOr L t" "isNot L' t = isNot L t" "isXor L' t = isXor L t"
    "isIff L' t = isIff L t" "isImplies L' t = isImplies L t" "isDistinct L' t = isDistinct L t" "isIte L' t = isIte L t"
    "getSortRef L' t = getSortRef L t" "isTrue L' t = isTrue L t" "isFalse L' t = isFalse L t"
  using same_termsD [OF assms] same_terms_frame [OF assms]
  by (simp_all add: hasSortBool_def hasSortBool_sym_def isBooleanOperator_sym_def isConstant_sym_def isAnd_def isOr_def
      isNot_def isXor_def isIff_def isImplies_def isDistinct_def isIte_def getSortRef_def isTrue_def isFalse_def)

lemma same_terms_linv:
  assumes "same_terms L L'" "linv L"
  shows "linv L'"
proof -
  note D = same_termsD [OF assms(1)] and F = same_terms_frame [OF assms(1)] and Q = same_terms_queries [OF assms(1)]
  have "syms_ok L' = syms_ok L"
    by (simp only: syms_ok_def core_syms_def hasSortBool_sym_def isBooleanOperator_sym_def isConstant_sym_def
        getSym_def F D(2))
  then have "syms_ok L'"
    using linv_parts(1) [OF assms(2)] by simp
  moreover have "hash_ok L' = hash_ok L"
    by (simp only: hash_ok_def D Q)
  moreover have "shape_ok L' f as = shape_ok L f as" for f as
    by (simp only: shape_ok_def D F Q)
  then have "terms_ok L' = terms_ok L"
    by (simp only: terms_ok_def D F)
  ultimately show ?thesis
    using linv_parts [OF assms(2)] by (simp add: linv_def)
qed

lemma same_terms_eval:
  assumes "same_terms L L'"
  shows "eval L' I t = eval L I t"
proof (induction t rule: less_induct)
  case (less t)
  have "app_sym L' I f vs = app_sym L I f vs" for f vs
    by (simp add: app_sym_def same_terms_frame [OF assms])
  with less show ?case
    by (subst (1 2) eval.simps) (simp add: same_termsD [OF assms] cong: map_cong if_cong)
qed

lemma same_terms_bterm: "same_terms L L' \<Longrightarrow> bterm L' t = bterm L t"
  by (simp add: bterm_def same_termsD same_terms_queries)

lemma same_terms_good:
  assumes "same_terms L L'"
  shows "good_int L' I = good_int L I"
proof -
  have "app_sym L' I f vs = app_sym L I f vs" for f vs
    by (simp add: app_sym_def same_terms_frame [OF assms])
  then show ?thesis
    by (simp only: good_int_def same_termsD [OF assms] same_terms_queries [OF assms])
qed

end
