(* ===== verification/Cnfizer.thy ===== *)
theory Cnfizer
  imports Term_Mapper
begin

text \<open>
  The class \<open>Cnfizer\<close> of \<open>src/src/cnfizers/Cnfizer.C\<close> without its main routine: the
  frame terms, the checks whether a formula already is a clause, a conjunction of clauses or the
  negation of a conjunction of literals, the extraction of the literals, and the clauses given
  to the solver. The main routine calls the virtual functions of \<open>Tseitin\<close> and is in
  the theory of that name. The code is modelled without \<open>PRODUCE_PROOF\<close>.

  The solver answers \<open>addOriginalSMTClause\<close> with false when it found the clauses it has
  contradictory: a parameter \<open>A\<close>, a function of the clauses it was given. A vector used
  as a stack is a list whose head is the last element; recursion over a vector of arguments
  is a loop over the stack of what is left to do. Terms are finite trees only because every
  argument was created before its term, so the loops are partial functions: \<open>None\<close> stands
  for a loop that does not end.
\<close>

section \<open>Checks of a formula\<close>

partial_function (option) isNPAtom_loop :: "logic \<Rightarrow> ptref \<Rightarrow> bool \<Rightarrow> (bool \<times> ptref option) option" where
  "isNPAtom_loop L r sg =
     (if isNot L r then isNPAtom_loop L (targs L r ! 0) (\<not> sg)
      else Some (sg, if isAtom L r then Some r else None))"

definition isNPAtom :: "logic \<Rightarrow> ptref \<Rightarrow> (bool \<times> ptref option) option" where
  "isNPAtom L r = isNPAtom_loop L r False"

text \<open>
  The loop over the arguments: \<open>Some None\<close> when the check returns false, otherwise the
  stack with the arguments that were pushed.
\<close>

fun clause_args :: "logic \<Rightarrow> ptref list \<Rightarrow> ptref list \<Rightarrow> ptref list option option" where
  "clause_args L [] st = Some (Some st)"
| "clause_args L (a # as) st =
     (if isOr L a then clause_args L as (a # st)
      else Option.bind (isNPAtom L a) (\<lambda>(_, p). if p = None then Some None else clause_args L as st))"

partial_function (option) checkClause_loop :: "logic \<Rightarrow> ptref list \<Rightarrow> bool option" where
  "checkClause_loop L st = (case st of
     [] \<Rightarrow> Some True
   | e # rest \<Rightarrow> Option.bind (clause_args L (targs L e) rest) (\<lambda>r. case r of
       None \<Rightarrow> Some False | Some st' \<Rightarrow> checkClause_loop L st'))"

definition checkClause :: "logic \<Rightarrow> ptref \<Rightarrow> bool option" where
  "checkClause L e = (if \<not> isOr L e then Some False else checkClause_loop L [e])"

fun conj_args :: "logic \<Rightarrow> ptref list \<Rightarrow> ptref list \<Rightarrow> ptref list option option" where
  "conj_args L [] st = Some (Some st)"
| "conj_args L (a # as) st =
     (if isAnd L a then conj_args L as (a # st)
      else Option.bind (checkClause L a) (\<lambda>b. if \<not> b then Some None else conj_args L as st))"

partial_function (option) checkConj_loop :: "logic \<Rightarrow> ptref list \<Rightarrow> bool option" where
  "checkConj_loop L st = (case st of
     [] \<Rightarrow> Some True
   | e # rest \<Rightarrow> Option.bind (conj_args L (targs L e) rest) (\<lambda>r. case r of
       None \<Rightarrow> Some False | Some st' \<Rightarrow> checkConj_loop L st'))"

definition checkConj :: "logic \<Rightarrow> ptref \<Rightarrow> bool option" where
  "checkConj L e = Option.bind (isLit L e) (\<lambda>b.
     if b then Some True else if getSymRef L e \<noteq> sym_AND L then Some False else checkConj_loop L [e])"

definition checkCnf :: "logic \<Rightarrow> ptref \<Rightarrow> bool option" where
  "checkCnf L formula = Option.bind (checkConj L formula) (\<lambda>res. if \<not> res then checkClause L formula else Some res)"

partial_function (option) checkPureConj_loop :: "logic \<Rightarrow> ptref list \<Rightarrow> ptref set \<Rightarrow> (bool \<times> ptref set) option" where
  "checkPureConj_loop L st cache = (case st of
     [] \<Rightarrow> Some (True, cache)
   | e # rest \<Rightarrow>
       if isAnd L e then checkPureConj_loop L (rev (targs L e) @ rest) (insert e cache)
       else Option.bind (isLit L e) (\<lambda>b.
         if \<not> b then Some (False, cache) else checkPureConj_loop L rest (insert e cache)))"

definition checkPureConj :: "logic \<Rightarrow> ptref \<Rightarrow> ptref set \<Rightarrow> (bool \<times> ptref set) option" where
  "checkPureConj L e cache =
     (if e \<in> cache then Some (True, cache)
      else if \<not> isAnd L e then Some (False, cache)
      else checkPureConj_loop L [e] cache)"

definition checkDeMorgan :: "logic \<Rightarrow> ptref \<Rightarrow> bool option" where
  "checkDeMorgan L e = (if isNot L e then map_option fst (checkPureConj L (targs L e ! 0) {}) else Some False)"

section \<open>Parts of a formula\<close>

text \<open>The keys of the map \<open>seen\<close> are the formulas retrieved so far.\<close>

partial_function (option) topLevel_loop :: "logic \<Rightarrow> ptref list \<Rightarrow> ptref list \<Rightarrow> ptref list option" where
  "topLevel_loop L st acc = (case st of
     [] \<Rightarrow> Some acc
   | f # rest \<Rightarrow>
       if isAnd L f then topLevel_loop L (targs L f @ rest) acc
       else topLevel_loop L rest (if f \<notin> set acc then acc @ [f] else acc))"

definition retrieveTopLevelFormulae :: "logic \<Rightarrow> ptref \<Rightarrow> ptref list option" where
  "retrieveTopLevelFormulae L f = topLevel_loop L [f] []"

partial_function (option) clause_loop :: "logic \<Rightarrow> ptref list \<Rightarrow> ptref list \<Rightarrow> ptref list result option" where
  "clause_loop L st acc = (case st of
     [] \<Rightarrow> Some (Inr acc)
   | f # rest \<Rightarrow> Option.bind (isLit L f) (\<lambda>b.
       if b then clause_loop L rest (acc @ [f])
       else if isOr L f then clause_loop L (targs L f @ rest) acc
       else Some (Inl Assertion_Failed)))"

definition retrieveClause :: "logic \<Rightarrow> ptref \<Rightarrow> ptref list result" where
  "retrieveClause L f = runs (clause_loop L [f] [])"

partial_function (option) conjuncts_loop :: "logic \<Rightarrow> ptref list \<Rightarrow> ptref list \<Rightarrow> ptref list result option" where
  "conjuncts_loop L st acc = (case st of
     [] \<Rightarrow> Some (Inr acc)
   | f # rest \<Rightarrow> Option.bind (isLit L f) (\<lambda>b.
       if b then conjuncts_loop L rest (acc @ [f])
       else if isAnd L f then conjuncts_loop L (targs L f @ rest) acc
       else Some (Inl Assertion_Failed)))"

definition retrieveConjuncts :: "logic \<Rightarrow> ptref \<Rightarrow> ptref list result" where
  "retrieveConjuncts L f = runs (conjuncts_loop L [f] [])"

text \<open>\<open>Logic::getNestedBoolRoots\<close>: the Boolean arguments of terms that are no connectives.\<close>

partial_function (option) nestedRoots_loop ::
    "logic \<Rightarrow> ptref list \<Rightarrow> ptref set \<Rightarrow> ptref list \<Rightarrow> ptref list option" where
  "nestedRoots_loop L queue processed acc = (case queue of
     [] \<Rightarrow> Some acc
   | tr # rest \<Rightarrow>
       if tr \<in> processed then nestedRoots_loop L rest processed acc
       else nestedRoots_loop L (rev (targs L tr) @ rest) (insert tr processed)
         (acc @ filter (\<lambda>a. \<not> isBooleanOperator L tr \<and> hasSortBool L a) (targs L tr)))"

definition getNestedBoolRoots :: "logic \<Rightarrow> ptref \<Rightarrow> ptref list option" where
  "getNestedBoolRoots L tr = nestedRoots_loop L [tr] {} []"

section \<open>Clauses\<close>

definition addClause :: "(lit list list \<Rightarrow> bool) \<Rightarrow> lit list \<Rightarrow> cnf \<Rightarrow> (bool \<times> cnf) result" where
  "addClause A c_in S =
     rbind (if frame_term S \<noteq> term_TRUE (cn_logic S)
            then rbind (getOrCreateLit S (frame_term S)) (\<lambda>(l, S1). Inr (c_in @ [l], setFrozen (lit_var l) S1))
            else Inr (c_in, S))
       (\<lambda>(c, S1). Inr (A (sent S1 @ [c]), S1\<lparr>sent := sent S1 @ [c]\<rparr>))"

fun create_lits :: "ptref list \<Rightarrow> cnf \<Rightarrow> (lit list \<times> cnf) result" where
  "create_lits [] S = Inr ([], S)"
| "create_lits (t # ts) S =
     rbind (getOrCreateLit S t) (\<lambda>(l, S1). rbind (create_lits ts S1) (\<lambda>(ls, S2). Inr (l # ls, S2)))"

definition deMorganize :: "(lit list list \<Rightarrow> bool) \<Rightarrow> ptref \<Rightarrow> cnf \<Rightarrow> (bool \<times> cnf) result" where
  "deMorganize A formula S =
     (let L = cn_logic S in
      require (\<not> isAnd L formula)
        (if isNot L formula \<and> isAnd L (targs L formula ! 0) then
           rbind (retrieveConjuncts L (targs L formula ! 0)) (\<lambda>conjuncts.
           rbind (create_lits conjuncts S) (\<lambda>(ls, S1). addClause A (map lit_not ls) S1))
         else Inr (True, S)))"

text \<open>
  \<open>giveToSolver\<close>. The recursion over the conjuncts, which stops at the first clause the
  solver refuses, is a loop over the formulas that are left.
\<close>

partial_function (option) giveToSolver_loop ::
    "(lit list list \<Rightarrow> bool) \<Rightarrow> ptref list \<Rightarrow> cnf \<Rightarrow> (bool \<times> cnf) result option" where
  "giveToSolver_loop A fs S = (case fs of
     [] \<Rightarrow> Some (Inr (True, S))
   | f # rest \<Rightarrow> Option.bind (isLit (cn_logic S) f) (\<lambda>b.
       if b \<or> isOr (cn_logic S) f then
         (case rbind (if b then Inr [f] else retrieveClause (cn_logic S) f)
            (\<lambda>lits. rbind (create_lits lits S) (\<lambda>(clause, S1). addClause A clause S1)) of
            Inl e \<Rightarrow> Some (Inl e)
          | Inr (r, S2) \<Rightarrow> if r then giveToSolver_loop A rest S2 else Some (Inr (False, S2)))
       else if \<not> isAnd (cn_logic S) f then Some (Inl Assertion_Failed)
       else Option.bind (retrieveTopLevelFormulae (cn_logic S) f) (\<lambda>conj. giveToSolver_loop A (conj @ rest) S)))"

definition giveToSolver :: "(lit list list \<Rightarrow> bool) \<Rightarrow> ptref \<Rightarrow> cnf \<Rightarrow> (bool \<times> cnf) result" where
  "giveToSolver A f S = runs (giveToSolver_loop A [f] S)"

section \<open>Frames\<close>

definition frame_name :: "nat \<Rightarrow> string" where
  "frame_name i = ''.frame'' @ nat_str i"

definition setFrameTerm :: "nat \<Rightarrow> cnf \<Rightarrow> cnf result" where
  "setFrameTerm frame_id S =
     (let fts = frame_terms S @ replicate (frame_id + 1 - length (frame_terms S)) (term_TRUE (cn_logic S)) in
      rbind (if frame_id \<noteq> 0 \<and> fts ! frame_id = term_TRUE (cn_logic S) then
               rbind (deref (mkBoolVar (cn_logic S) (frame_name frame_id))) (\<lambda>(ft, L).
                 Inr (S\<lparr>cn_logic := L, frame_terms := fts[frame_id := ft]\<rparr>))
             else Inr (S\<lparr>frame_terms := fts\<rparr>))
        (\<lambda>S1. Inr (S1\<lparr>frame_term := frame_terms S1 ! frame_id\<rparr>)))"

section \<open>Construction, initialisation, assumptions, values\<close>

definition Cnfizer_ctor :: "logic \<Rightarrow> cnf" where
  "Cnfizer_ctor L = \<lparr>cn_logic = L, var_cnt = 0, varToTerm = [], varToTheorySymbol = [], frozen = [],
     frame_term = term_TRUE L, frame_terms = [term_TRUE L], s_empty = True, sent = [], solver_vars = []\<rparr>"

definition initialize :: "(lit list list \<Rightarrow> bool) \<Rightarrow> cnf \<Rightarrow> cnf result" where
  "initialize A S =
     rbind (getOrCreateLit S (term_TRUE (cn_logic S))) (\<lambda>(l, S1).
     rbind (addClause A [l] S1) (\<lambda>(_, S2).
     rbind (getOrCreateLit S2 (term_FALSE (cn_logic S2))) (\<lambda>(l, S3).
     rbind (addClause A [lit_not l] S3) (\<lambda>(_, S4). Inr S4))))"

text \<open>The assumptions with which \<open>solve\<close> calls the solver.\<close>

fun invert_lits :: "nat list \<Rightarrow> lit list \<Rightarrow> lit list result" where
  "invert_lits [] as = Inr as"
| "invert_lits (i # is) as = (if i < length as then invert_lits is (as[i := lit_not (as ! i)]) else Inl Uninitialised_Read)"

definition solve_assumptions :: "nat list \<Rightarrow> cnf \<Rightarrow> (lit list \<times> cnf) result" where
  "solve_assumptions en_frames S =
     rbind (create_lits (frame_terms S) S) (\<lambda>(as, S1).
     rbind (invert_lits en_frames as) (\<lambda>as1.
     rbind (getOrCreateLit S1 (term_TRUE (cn_logic S1))) (\<lambda>(lit_true, S2).
       Inr (filter (\<lambda>a. a \<noteq> lit_true \<and> a \<noteq> lit_not lit_true) as1, S2))))"

fun declareVars :: "ptref list \<Rightarrow> cnf \<Rightarrow> cnf result" where
  "declareVars [] S = Inr S"
| "declareVars (t # ts) S =
     rbind (getOrCreateLit S t) (\<lambda>(l, S1). declareVars ts (S1\<lparr>solver_vars := solver_vars S1 @ [lit_var l]\<rparr>))"

definition getTermValue :: "(lit list list \<Rightarrow> bool) \<Rightarrow> lbool list \<Rightarrow> cnf \<Rightarrow> ptref \<Rightarrow> lbool result" where
  "getTermValue okay model S tr =
     require (okay (sent S))
       (rbind (getTerm (cn_logic S) tr) (\<lambda>(p, sg).
        case getVar_of (cn_logic S) p of
          None \<Rightarrow> Inr l_Undef
        | Some v \<Rightarrow>
            let val = model ! v in
            require (\<not> lbool_eq val l_Undef)
              (Inr (if \<not> sg then val else if lbool_eq val l_True then l_False else l_True))))"

end
