(* ===== verification/Tseitin.thy ===== *)
theory Tseitin
  imports Cnfizer
begin

text \<open>
  The class \<open>Tseitin\<close> of \<open>src/src/cnfizers/Tseitin.C\<close>: a variable for every
  connective below the root, defined by clauses, and the main routine of \<open>Cnfizer\<close>, which
  calls it. The answers of the solver are combined as in the code.
\<close>

section \<open>The definition of one connective\<close>

fun add_clauses :: "(lit list list \<Rightarrow> bool) \<Rightarrow> lit list list \<Rightarrow> bool \<Rightarrow> cnf \<Rightarrow> (bool \<times> cnf) result" where
  "add_clauses A [] res S = Inr (res, S)"
| "add_clauses A (c # cs) res S = rbind (addClause A c S) (\<lambda>(b, S1). add_clauses A cs (res \<and> b) S1)"

fun cnfizeAnd_loop :: "(lit list list \<Rightarrow> bool) \<Rightarrow> lit \<Rightarrow> ptref list \<Rightarrow> lit list \<Rightarrow> bool \<Rightarrow> cnf \<Rightarrow> (lit list \<times> bool \<times> cnf) result" where
  "cnfizeAnd_loop A v [] big res S = Inr (big, res, S)"
| "cnfizeAnd_loop A v (arg # args) big res S =
     rbind (getOrCreateLit S arg) (\<lambda>(l, S1).
     rbind (getOrCreateLit S1 arg) (\<lambda>(l', S2).
     rbind (addClause A [lit_not v, l] S2) (\<lambda>(b, S3).
       cnfizeAnd_loop A v args (big @ [lit_not l']) (res \<and> b) S3)))"

definition cnfizeAnd :: "(lit list list \<Rightarrow> bool) \<Rightarrow> ptref \<Rightarrow> cnf \<Rightarrow> (bool \<times> cnf) result" where
  "cnfizeAnd A and_term S =
     rbind (getOrCreateLit S and_term) (\<lambda>(v, S1).
     rbind (cnfizeAnd_loop A v (targs (cn_logic S1) and_term) [v] True S1) (\<lambda>(big, res, S2).
     rbind (addClause A big S2) (\<lambda>(b, S3). Inr (res \<and> b, S3))))"

fun cnfizeOr_loop :: "(lit list list \<Rightarrow> bool) \<Rightarrow> lit \<Rightarrow> ptref list \<Rightarrow> lit list \<Rightarrow> bool \<Rightarrow> cnf \<Rightarrow> (lit list \<times> bool \<times> cnf) result" where
  "cnfizeOr_loop A v [] big res S = Inr (big, res, S)"
| "cnfizeOr_loop A v (arg # args) big res S =
     rbind (getOrCreateLit S arg) (\<lambda>(l, S1).
     rbind (addClause A [v, lit_not l] S1) (\<lambda>(b, S2).
       cnfizeOr_loop A v args (big @ [l]) (res \<and> b) S2))"

definition cnfizeOr :: "(lit list list \<Rightarrow> bool) \<Rightarrow> ptref \<Rightarrow> bool \<Rightarrow> cnf \<Rightarrow> (bool \<times> cnf) result" where
  "cnfizeOr A or_term def S =
     (if \<not> def then
        rbind (create_lits (targs (cn_logic S) or_term) S) (\<lambda>(big, S1). addClause A big S1)
      else
        rbind (getOrCreateLit S or_term) (\<lambda>(v, S1).
        rbind (cnfizeOr_loop A v (targs (cn_logic S1) or_term) [lit_not v] True S1) (\<lambda>(big, res, S2).
        rbind (addClause A big S2) (\<lambda>(b, S3). Inr (res \<and> b, S3)))))"

text \<open>The code reads the first two arguments of an exclusive or without a check of their number.\<close>

definition cnfizeXor :: "(lit list list \<Rightarrow> bool) \<Rightarrow> ptref \<Rightarrow> cnf \<Rightarrow> (bool \<times> cnf) result" where
  "cnfizeXor A xor_term S =
     rbind (getOrCreateLit S xor_term) (\<lambda>(v, S1).
     let args = targs (cn_logic S1) xor_term in
     if length args < 2 then Inl Uninitialised_Read
     else
       rbind (getOrCreateLit S1 (args ! 0)) (\<lambda>(a0, S2).
       rbind (getOrCreateLit S2 (args ! 1)) (\<lambda>(a1, S3).
         add_clauses A
          [[lit_not v, a0, a1], [lit_not v, lit_not a0, lit_not a1],
           [v, lit_not a0, a1], [v, a0, lit_not a1]] True S3)))"

definition cnfizeIff :: "(lit list list \<Rightarrow> bool) \<Rightarrow> ptref \<Rightarrow> cnf \<Rightarrow> (bool \<times> cnf) result" where
  "cnfizeIff A eq_term S =
     require (length (targs (cn_logic S) eq_term) = 2)
      (rbind (getOrCreateLit S eq_term) (\<lambda>(v, S1).
       rbind (getOrCreateLit S1 (targs (cn_logic S1) eq_term ! 0)) (\<lambda>(a0, S2).
       rbind (getOrCreateLit S2 (targs (cn_logic S2) eq_term ! 1)) (\<lambda>(a1, S3).
         add_clauses A
          [[lit_not v, a0, lit_not a1], [lit_not v, lit_not a0, a1],
           [v, a0, a1], [v, lit_not a0, lit_not a1]] True S3))))"

definition cnfizeIfthenelse :: "(lit list list \<Rightarrow> bool) \<Rightarrow> ptref \<Rightarrow> cnf \<Rightarrow> (bool \<times> cnf) result" where
  "cnfizeIfthenelse A ite_term S =
     require (length (targs (cn_logic S) ite_term) = 3)
      (rbind (getOrCreateLit S ite_term) (\<lambda>(v, S1).
       rbind (getOrCreateLit S1 (targs (cn_logic S1) ite_term ! 0)) (\<lambda>(a0, S2).
       rbind (getOrCreateLit S2 (targs (cn_logic S2) ite_term ! 1)) (\<lambda>(a1, S3).
       rbind (getOrCreateLit S3 (targs (cn_logic S3) ite_term ! 2)) (\<lambda>(a2, S4).
         add_clauses A
          [[lit_not v, lit_not a0, a1], [lit_not v, a0, a2],
           [v, lit_not a0, lit_not a1], [v, a0, lit_not a2]] True S4)))))"

definition cnfizeImplies :: "(lit list list \<Rightarrow> bool) \<Rightarrow> ptref \<Rightarrow> cnf \<Rightarrow> (bool \<times> cnf) result" where
  "cnfizeImplies A impl_term S =
     require (length (targs (cn_logic S) impl_term) = 2)
      (rbind (getOrCreateLit S impl_term) (\<lambda>(v, S1).
       rbind (getOrCreateLit S1 (targs (cn_logic S1) impl_term ! 0)) (\<lambda>(a0, S2).
       rbind (getOrCreateLit S2 (targs (cn_logic S2) impl_term ! 1)) (\<lambda>(a1, S3).
         add_clauses A [[v, a0], [v, lit_not a1], [lit_not v, lit_not a0, a1]] True S3))))"

definition cnfizeDistinct :: "(lit list list \<Rightarrow> bool) \<Rightarrow> ptref \<Rightarrow> cnf \<Rightarrow> (bool \<times> cnf) result" where
  "cnfizeDistinct A distinct_term S = cnfizeXor A distinct_term S"

section \<open>The walk over the formula\<close>

text \<open>
  One term: the clauses of its definition, and whether its arguments are visited. The root
  \<open>None\<close> is \<open>PTRef_Undef\<close>.
\<close>

definition descends :: "logic \<Rightarrow> ptref \<Rightarrow> bool" where
  "descends L ptr \<longleftrightarrow>
     isAnd L ptr \<or> isOr L ptr \<or> isXor L ptr \<or> isIff L ptr \<or> isImplies L ptr \<or> isDistinct L ptr \<or> isIte L ptr \<or>
     isNot L ptr \<or> length (targs L ptr) = 0"

definition define_term :: "(lit list list \<Rightarrow> bool) \<Rightarrow> ptref \<Rightarrow> bool \<Rightarrow> cnf \<Rightarrow> (bool \<times> cnf) result" where
  "define_term A ptr need_def S =
     (let L = cn_logic S in
      if isAnd L ptr then cnfizeAnd A ptr S
      else if isOr L ptr then cnfizeOr A ptr need_def S
      else if isXor L ptr then cnfizeXor A ptr S
      else if isIff L ptr then cnfizeIff A ptr S
      else if isImplies L ptr then cnfizeImplies A ptr S
      else if isDistinct L ptr then cnfizeDistinct A ptr S
      else if isIte L ptr then cnfizeIfthenelse A ptr S
      else Inr (True, S))"

partial_function (option) declare_loop ::
    "(lit list list \<Rightarrow> bool) \<Rightarrow> ptref option \<Rightarrow> ptref list \<Rightarrow> ptref set \<Rightarrow> bool \<Rightarrow> cnf \<Rightarrow> (bool \<times> cnf) result option" where
  "declare_loop A rt st processed res S = (case st of
     [] \<Rightarrow> Some (Inr (res, S))
   | ptr # rest \<Rightarrow>
       if ptr \<in> processed then declare_loop A rt rest processed res S
       else (case define_term A ptr (Some ptr \<noteq> rt) S of
           Inl e \<Rightarrow> Some (Inl e)
         | Inr (r, S1) \<Rightarrow>
             declare_loop A rt
               (if descends (cn_logic S1) ptr then rev (targs (cn_logic S1) ptr) @ rest else rest)
               (if Some ptr \<noteq> rt then insert ptr processed else processed) (res \<and> r) S1))"

definition declare_terms :: "(lit list list \<Rightarrow> bool) \<Rightarrow> ptref list \<Rightarrow> ptref option \<Rightarrow> cnf \<Rightarrow> (bool \<times> cnf) result" where
  "declare_terms A unprocessed_terms formula S =
     runs (declare_loop A formula (rev unprocessed_terms) {} True S)"

definition cnfize :: "(lit list list \<Rightarrow> bool) \<Rightarrow> ptref \<Rightarrow> cnf \<Rightarrow> (bool \<times> cnf) result" where
  "cnfize A formula S =
     require (\<not> isAnd (cn_logic S) formula)
      (rbind (if \<not> isOr (cn_logic S) formula
              then rbind (getOrCreateLit S formula) (\<lambda>(l, S1). addClause A [l] S1)
              else Inr (True, S))
        (\<lambda>(_, S1). declare_terms A [formula] (Some formula) S1))"

section \<open>The main routine\<close>

definition cnfize_top :: "(lit list list \<Rightarrow> bool) \<Rightarrow> ptref \<Rightarrow> cnf \<Rightarrow> (bool \<times> cnf) result" where
  "cnfize_top A f S =
     (let L = cn_logic S in
      rbind (returns (checkCnf L f)) (\<lambda>c1.
      rbind (if c1 then Inr True else returns (checkClause L f)) (\<lambda>c2.
      if c2 then giveToSolver A f S
      else rbind (returns (checkDeMorgan L f)) (\<lambda>d.
        if d then deMorganize A f S else cnfize A f S))))"

fun top_loop :: "(lit list list \<Rightarrow> bool) \<Rightarrow> ptref list \<Rightarrow> bool \<Rightarrow> cnf \<Rightarrow> (bool \<times> cnf) result" where
  "top_loop A [] res S = Inr (res, S)"
| "top_loop A (f # fs) res S = (if res then rbind (cnfize_top A f S) (\<lambda>(r, S1). top_loop A fs r S1) else Inr (res, S))"

definition cnfizeAndGiveToSolver ::
    "(lit list list \<Rightarrow> bool) \<Rightarrow> (lit list list \<Rightarrow> bool) \<Rightarrow> ptref \<Rightarrow> nat \<Rightarrow> cnf \<Rightarrow> (lbool \<times> cnf) result" where
  "cnfizeAndGiveToSolver A okay formula frame_id S =
     rbind (setFrameTerm frame_id S) (\<lambda>S1.
     if \<not> okay (sent S1) then Inr (l_False, S1)
     else
       rbind (returns (retrieveTopLevelFormulae (cn_logic S1) formula)) (\<lambda>fs.
       require (fs \<noteq> [])
       (rbind (top_loop A fs True S1) (\<lambda>(res, S2).
        let S3 = S2\<lparr>s_empty := False\<rparr> in
        if \<not> res then Inr (l_False, S3)
        else
          rbind (returns (getNestedBoolRoots (cn_logic S3) formula)) (\<lambda>roots.
          rbind (declare_terms A roots None S3) (\<lambda>(res2, S4).
          require res2
           (rbind (declareVars (propFormulasAppearingInUF (cn_logic S4)) S4) (\<lambda>S5. Inr (l_Undef, S5)))))))))"

end
