(* ===== verification/Cnf_Terms.thy ===== *)
theory Cnf_Terms
  imports Tseitin
begin

text \<open>
  The Boolean structure of terms: the value of a formula in an assignment of its atoms, the
  leaves under conjunctions and disjunctions, and the checks and extractions of \<open>Cnfizer\<close>,
  which end on every term of the store and return these leaves.
\<close>

section \<open>Terms under a negation\<close>

definition pure_term :: "logic \<Rightarrow> ptref \<Rightarrow> ptref \<times> bool" where
  "pure_term L t = (if isNot L t then (targs L t ! 0, True) else (t, False))"

lemma pure_bterm:
  assumes "linv L" "bterm L t"
  shows "bterm L (fst (pure_term L t))" "\<not> isNot L (fst (pure_term L t))"
  using assms isNot_arg [OF assms] by (simp_all add: pure_term_def)

lemma getTerm_linv:
  assumes "linv L" "bterm L t"
  shows "getTerm L t = Inr (pure_term L t)"
proof (cases "isNot L t")
  case True
  then have "getTerm_loop L t False = getTerm_loop L (targs L t ! 0) True"
    by (subst getTerm_loop.simps) (simp add: isNot_def)
  also have "\<dots> = Some (targs L t ! 0, True)"
    using isNot_arg(2) [OF assms True] by (subst getTerm_loop.simps) (simp add: isNot_def)
  finally show ?thesis
    using True by (simp add: getTerm_def pure_term_def)
next
  case False
  then show ?thesis
    by (subst getTerm_def, subst getTerm_loop.simps) (simp add: pure_term_def isNot_def)
qed

text \<open>A literal of the propositional abstraction: no connective under the negation.\<close>

definition litp :: "logic \<Rightarrow> ptref \<Rightarrow> bool" where
  "litp L t = (let p = fst (pure_term L t) in
     targs L p = [] \<or> isEquality L p \<and> \<not> hasSortBool L (targs L p ! 0) \<or> \<not> isBooleanOperator L p)"

lemma isLit_pos:
  assumes "bterm L t" "\<not> isNot L t"
  shows "isLit L t = Some (litp L t)"
  using assms
  by (subst isLit.simps) (simp add: litp_def pure_term_def bterm_def hasSortBool_def isNot_def)

lemma isLit_linv:
  assumes "linv L" "bterm L t"
  shows "isLit L t = Some (litp L t)"
proof (cases "isNot L t")
  case True
  have n: "targs L t \<noteq> []"
    using term_parts(2) [OF assms(1), of t] assms(2) True
    by (auto simp: shape_ok_def isNot_def bterm_def)
  have "isLit L t = isLit L (targs L t ! 0)"
    using True n assms(2) by (subst isLit.simps) (simp add: bterm_def hasSortBool_def isNot_def)
  also have "\<dots> = Some (litp L (targs L t ! 0))"
    using isNot_arg [OF assms True] by (intro isLit_pos)
  finally show ?thesis
    using True isNot_arg(2) [OF assms True] by (simp add: litp_def pure_term_def)
qed (use assms isLit_pos in blast)

lemma isNPAtom_linv:
  assumes "linv L" "bterm L t"
  shows "isNPAtom L t = Some (snd (pure_term L t),
    if isAtom L (fst (pure_term L t)) then Some (fst (pure_term L t)) else None)"
proof (cases "isNot L t")
  case True
  then have "isNPAtom L t = isNPAtom_loop L (targs L t ! 0) True"
    by (subst isNPAtom_def, subst isNPAtom_loop.simps) simp
  then show ?thesis
    using True isNot_arg(2) [OF assms True] by (subst (asm) isNPAtom_loop.simps) (simp add: pure_term_def)
next
  case False
  then show ?thesis
    by (subst isNPAtom_def, subst isNPAtom_loop.simps) (simp add: pure_term_def)
qed

text \<open>No term applies \<open>distinct\<close> to Booleans, which \<open>Cnfizer\<close> takes for an atom here
  and for a connective there.\<close>

definition no_distinct :: "logic \<Rightarrow> bool" where
  "no_distinct L \<longleftrightarrow> (\<forall>t < nterms L. getSymRef L t \<noteq> sym_DISTINCT L)"

lemma atom_litp:
  assumes "linv L" "no_distinct L" "bterm L t" "isAtom L (fst (pure_term L t))"
  shows "litp L t"
proof -
  let ?p = "fst (pure_term L t)"
  have p: "bterm L ?p" "\<not> isNot L ?p"
    using pure_bterm [OF assms(1,3)] .
  then have "isDisequality L ?p \<Longrightarrow> \<not> isBooleanOperator L ?p"
    using assms(2) linv_core_ites(3) [OF assms(1)] syms_okD(4-9) [OF linv_parts(1) [OF assms(1)]]
    by (auto simp: isDisequality_def isBooleanOperator_def isBooleanOperator_sym_def no_distinct_def bterm_def core_syms_def)
  then show ?thesis
    using assms(4) by (auto simp: litp_def Let_def isAtom_def isUP_def isEquality_def isEquality_sym_def hasSortBool_def
        isBooleanOperator_def split: if_splits)
qed

section \<open>The size of a term as a tree\<close>

function tsize :: "logic \<Rightarrow> ptref \<Rightarrow> nat" where
  "tsize L t = Suc (sum_list (map (\<lambda>a. if a < t then tsize L a else 0) (targs L t)))"
  by pat_completeness auto
termination
  by (relation "measure snd") auto

declare tsize.simps [simp del]

abbreviation total :: "logic \<Rightarrow> ptref list \<Rightarrow> nat" where
  "total L ts \<equiv> sum_list (map (tsize L) ts)"

lemma tsize_pos [simp]: "0 < tsize L t"
  by (subst tsize.simps) simp

lemma tsize_linv: "linv L \<Longrightarrow> t < nterms L \<Longrightarrow> tsize L t = Suc (total L (targs L t))"
  using term_parts(1) by (subst tsize.simps) (simp cong: map_cong)

lemma total_rev [simp]: "total L (rev ts) = total L ts"
  by (simp flip: rev_map)

lemma same_terms_tsize: "same_terms L L' \<Longrightarrow> tsize L' t = tsize L t"
proof (induction t rule: less_induct)
  case (less t)
  then show ?case
    by (subst (1 2) tsize.simps) (auto simp: same_termsD intro!: arg_cong [where f = sum_list])
qed

section \<open>Formulas\<close>

definition conn_syms :: "logic \<Rightarrow> symref set" where
  "conn_syms L = {sym_AND L, sym_OR L, sym_XOR L, sym_EQ L, sym_IMPLIES L}"

definition bconn :: "logic \<Rightarrow> symref \<Rightarrow> bool list \<Rightarrow> bool" where
  "bconn L f bs =
     (if f = sym_NOT L then \<not> bs ! 0
      else if f = sym_AND L then \<forall>b \<in> set bs. b
      else if f = sym_OR L then \<exists>b \<in> set bs. b
      else if f = sym_XOR L then bs ! 0 \<noteq> bs ! 1
      else if f = sym_EQ L then bs ! 0 = bs ! 1
      else bs ! 0 \<longrightarrow> bs ! 1)"

text \<open>The value of a formula when \<open>\<alpha>\<close> gives the truth values of its atoms.\<close>

function bval :: "logic \<Rightarrow> (ptref \<Rightarrow> bool) \<Rightarrow> ptref \<Rightarrow> bool" where
  "bval L \<alpha> t =
     (if getSymRef L t \<in> insert (sym_NOT L) (conn_syms L)
      then bconn L (getSymRef L t) (map (\<lambda>a. if a < t then bval L \<alpha> a else False) (targs L t))
      else \<alpha> t)"
  by pat_completeness auto
termination
  by (relation "measure (\<lambda>(L, \<alpha>, t). t)") auto

declare bval.simps [simp del]

lemma bval_conn:
  assumes "linv L" "t < nterms L" "getSymRef L t \<in> insert (sym_NOT L) (conn_syms L)"
  shows "bval L \<alpha> t = bconn L (getSymRef L t) (map (bval L \<alpha>) (targs L t))"
  using assms term_parts(1) [OF assms(1,2)] by (subst bval.simps) (simp cong: map_cong)

lemma bval_atom: "getSymRef L t \<notin> insert (sym_NOT L) (conn_syms L) \<Longrightarrow> bval L \<alpha> t = \<alpha> t"
  by (subst bval.simps) simp

lemma conn_args:
  assumes "linv L" "t < nterms L" "isBooleanOperator L t" "a \<in> set (targs L t)"
  shows "bterm L a"
  using term_parts(2) [OF assms(1,2)] term_arg [OF assms(1,2,4)] assms(3,4)
  by (auto simp: shape_ok_def isBooleanOperator_def bterm_def)

lemma conn_boolop: "getSymRef L t \<in> insert (sym_NOT L) (conn_syms L) \<Longrightarrow> isBooleanOperator L t"
  by (auto simp: conn_syms_def isBooleanOperator_def isBooleanOperator_sym_def)

lemma conn_length:
  assumes "linv L" "t < nterms L"
  shows "isNot L t \<Longrightarrow> length (targs L t) = 1"
    "getSymRef L t \<in> {sym_XOR L, sym_EQ L, sym_IMPLIES L} \<Longrightarrow> length (targs L t) = 2"
    "isBooleanOperator L t \<Longrightarrow> targs L t \<noteq> []"
  using term_parts(2) [OF assms] syms_okD(4) [OF linv_parts(1) [OF assms(1)]]
  by (auto simp: shape_ok_def isNot_def isBooleanOperator_def)

lemma bval_simps:
  assumes "linv L" "t < nterms L"
  shows "isNot L t \<Longrightarrow> bval L \<alpha> t = (\<not> bval L \<alpha> (targs L t ! 0))"
    "isAnd L t \<Longrightarrow> bval L \<alpha> t = (\<forall>a \<in> set (targs L t). bval L \<alpha> a)"
    "isOr L t \<Longrightarrow> bval L \<alpha> t = (\<exists>a \<in> set (targs L t). bval L \<alpha> a)"
  using bval_conn [OF assms, of \<alpha>] conn_length(1) [OF assms]
  by (auto simp: isNot_def isAnd_def isOr_def bconn_def conn_syms_def linv_neq [OF assms(1)])

text \<open>
  The assignments the clauses are about: the constants have their values, and a negation the
  opposite of its argument's.
\<close>

definition lawful :: "logic \<Rightarrow> (ptref \<Rightarrow> bool) \<Rightarrow> bool" where
  "lawful L \<tau> \<longleftrightarrow> \<tau> (term_TRUE L) \<and> \<not> \<tau> (term_FALSE L) \<and>
     (\<forall>t. bterm L t \<longrightarrow> isNot L t \<longrightarrow> \<tau> t = (\<not> \<tau> (targs L t ! 0)))"

lemma litp_not_conn:
  assumes "linv L" "bterm L t" "litp L t"
  shows "getSymRef L (fst (pure_term L t)) \<notin> conn_syms L"
proof
  let ?p = "fst (pure_term L t)"
  assume c: "getSymRef L ?p \<in> conn_syms L"
  have pn: "?p < nterms L"
    using pure_bterm(1) [OF assms(1,2)] by (simp add: bterm_def)
  have b: "isBooleanOperator L ?p"
    using c by (intro conn_boolop) simp
  then have "targs L ?p \<noteq> []"
    by (rule conn_length(3) [OF assms(1) pn])
  moreover from this have "hasSortBool L (targs L ?p ! 0)"
    using conn_args [OF assms(1) pn b, of "targs L ?p ! 0"] by (simp add: bterm_def)
  ultimately show False
    using assms(3) b by (simp add: litp_def Let_def)
qed

lemma litp_bval:
  assumes "linv L" "bterm L t" "litp L t" "lawful L \<tau>"
  shows "bval L \<tau> t = \<tau> t"
proof -
  let ?p = "fst (pure_term L t)"
  have "bval L \<tau> ?p = \<tau> ?p"
    using litp_not_conn [OF assms(1-3)] pure_bterm(2) [OF assms(1,2)] by (intro bval_atom) (simp add: isNot_def)
  then show ?thesis
    using assms bval_simps(1) [OF assms(1), of t \<tau>]
    by (auto simp: pure_term_def lawful_def bterm_def split: if_splits)
qed

end
