(* ===== verification/Cnf_Leaves.thy ===== *)
theory Cnf_Leaves
  imports Cnf_Terms
begin

text \<open>
  The leaves of a formula under conjunctions or under disjunctions, and what the loops of
  \<open>Cnfizer\<close> compute: they end on every term of the store, \<open>retrieveTopLevelFormulae\<close>,
  \<open>retrieveClause\<close> and \<open>retrieveConjuncts\<close> return the leaves, and a check that
  succeeds says that the leaves are literals.
\<close>

section \<open>Leaves\<close>

function leaves :: "logic \<Rightarrow> symref \<Rightarrow> ptref \<Rightarrow> ptref list" where
  "leaves L f t = (if getSymRef L t = f
     then concat (map (\<lambda>a. if a < t then leaves L f a else []) (targs L t)) else [t])"
  by pat_completeness auto
termination
  by (relation "measure (\<lambda>(L, f, t). t)") auto

declare leaves.simps [simp del]

lemma leaves_linv:
  assumes "linv L" "t < nterms L"
  shows "leaves L f t = (if getSymRef L t = f then concat (map (leaves L f) (targs L t)) else [t])"
  using term_parts(1) [OF assms] by (subst leaves.simps) (simp cong: map_cong)

lemma litp_leaf:
  assumes "linv L" "bterm L t" "litp L t" "f \<in> {sym_AND L, sym_OR L}"
  shows "getSymRef L t \<noteq> f" "leaves L f t = [t]"
proof -
  show "getSymRef L t \<noteq> f"
    using litp_not_conn [OF assms(1-3)] assms(4) linv_neq [OF assms(1)]
    by (auto simp: pure_term_def isNot_def conn_syms_def split: if_splits)
  then show "leaves L f t = [t]"
    by (subst leaves.simps) simp
qed

lemma leaf_syms: "linv L \<Longrightarrow> f \<in> {sym_AND L, sym_OR L} \<Longrightarrow> getSymRef L t = f \<Longrightarrow> isBooleanOperator L t"
  by (auto simp: isBooleanOperator_def isBooleanOperator_sym_def)

lemma leaves_props:
  assumes "linv L" "f \<in> {sym_AND L, sym_OR L}"
  shows "bterm L t \<Longrightarrow> (\<forall>l \<in> set (leaves L f t). bterm L l \<and> getSymRef L l \<noteq> f) \<and> total L (leaves L f t) \<le> tsize L t"
proof (induction t rule: less_induct)
  case (less t)
  then have tn: "t < nterms L"
    by (simp add: bterm_def)
  show ?case
  proof (cases "getSymRef L t = f")
    case True
    have IH: "(\<forall>l \<in> set (leaves L f a). bterm L l \<and> getSymRef L l \<noteq> f) \<and> total L (leaves L f a) \<le> tsize L a"
      if "a \<in> set (targs L t)" for a
      using less.IH term_parts(1) [OF assms(1) tn that] conn_args [OF assms(1) tn leaf_syms [OF assms True] that] by blast
    have "total L (concat (map (leaves L f) as)) \<le> total L as" if "set as \<subseteq> set (targs L t)" for as
      using that IH by (induction as) (auto simp: add_mono)
    from this [of "targs L t"] show ?thesis
      using True IH by (auto simp: leaves_linv [OF assms(1) tn] tsize_linv [OF assms(1) tn])
  next
    case False
    then show ?thesis
      using less.prems by (simp add: leaves_linv [OF assms(1) tn])
  qed
qed

lemma bval_leaves:
  assumes "linv L"
  shows bval_and_leaves: "bterm L t \<Longrightarrow> bval L \<alpha> t = (\<forall>l \<in> set (leaves L (sym_AND L) t). bval L \<alpha> l)"
    and bval_or_leaves: "bterm L t \<Longrightarrow> bval L \<alpha> t = (\<exists>l \<in> set (leaves L (sym_OR L) t). bval L \<alpha> l)"
proof (induction t rule: less_induct)
  case (less t)
  have t: "t < nterms L" if "bterm L t"
    using that by (simp add: bterm_def)
  have args: "a < t \<and> bterm L a" if "bterm L t" "f \<in> {sym_AND L, sym_OR L}" "getSymRef L t = f" "a \<in> set (targs L t)" for a f
    using term_parts(1) [OF assms t] conn_args [OF assms t leaf_syms [OF assms that(2,3)]] that by blast
  {
    case 1
    have "(\<forall>a \<in> set (targs L t). bval L \<alpha> a) = (\<forall>a \<in> set (targs L t). \<forall>l \<in> set (leaves L (sym_AND L) a). bval L \<alpha> l)"
      if "getSymRef L t = sym_AND L"
      using args [OF 1 _ that] less.IH(1) by (intro ball_cong) simp_all
    then show ?case
      by (simp add: leaves_linv [OF assms t [OF 1]] bval_simps [OF assms t [OF 1]] isAnd_def)
  next
    case 2
    have "(\<exists>a \<in> set (targs L t). bval L \<alpha> a) = (\<exists>a \<in> set (targs L t). \<exists>l \<in> set (leaves L (sym_OR L) a). bval L \<alpha> l)"
      if "getSymRef L t = sym_OR L"
      using args [OF 2 _ that] less.IH(2) by (intro bex_cong) simp_all
    then show ?case
      by (simp add: leaves_linv [OF assms t [OF 2]] bval_simps [OF assms t [OF 2]] isOr_def)
  }
qed

section \<open>Retrieving leaves\<close>

lemma boolop_args:
  assumes "linv L" "bterm L e" "isAnd L e \<or> isOr L e"
  shows "\<forall>a \<in> set (targs L e). bterm L a" "tsize L e = Suc (total L (targs L e))"
  using assms conn_args [OF assms(1), of e]
  by (auto simp: bterm_def isAnd_def isOr_def isBooleanOperator_def isBooleanOperator_sym_def tsize_linv)

lemma topLevel_loop_ok:
  assumes "linv L" "\<forall>t \<in> set st. bterm L t"
  shows "\<exists>fs. topLevel_loop L st acc = Some fs \<and> set fs = set acc \<union> (\<Union>t \<in> set st. set (leaves L (sym_AND L) t)) \<and>
    total L fs \<le> total L acc + total L st"
  using assms(2)
proof (induction "total L st" arbitrary: st acc rule: less_induct)
  case less
  show ?case
  proof (cases st)
    case Nil
    then show ?thesis
      by (subst topLevel_loop.simps) simp
  next
    case (Cons f rest)
    have f: "bterm L f" "f < nterms L"
      using less.prems Cons by (auto simp: bterm_def)
    show ?thesis
    proof (cases "isAnd L f")
      case True
      note args = boolop_args [OF assms(1) f(1) disjI1 [OF True]]
      have "total L (targs L f @ rest) < total L st"
        using Cons args by simp
      then obtain fs where "topLevel_loop L (targs L f @ rest) acc = Some fs"
          "set fs = set acc \<union> (\<Union>t \<in> set (targs L f @ rest). set (leaves L (sym_AND L) t))"
          "total L fs \<le> total L acc + total L (targs L f @ rest)"
        using less.hyps [of "targs L f @ rest" acc] args(1) less.prems Cons by auto
      then show ?thesis
        using True Cons args(2)
        by (subst topLevel_loop.simps) (simp add: leaves_linv [OF assms(1) f(2)] isAnd_def)
    next
      case False
      let ?acc = "if f \<notin> set acc then acc @ [f] else acc"
      have "total L rest < total L st"
        using Cons by simp
      with less.hyps [OF this, of ?acc] show ?thesis
        using False Cons less.prems
        by (subst topLevel_loop.simps) (auto simp: leaves_linv [OF assms(1) f(2)] isAnd_def split: if_splits)
    qed
  qed
qed

lemma retrieveTopLevelFormulae_ok:
  assumes "linv L" "bterm L f"
  obtains fs where "retrieveTopLevelFormulae L f = Some fs" "set fs = set (leaves L (sym_AND L) f)"
    "total L fs \<le> tsize L f"
  using topLevel_loop_ok [OF assms(1), of "[f]" "[]"] assms(2) unfolding retrieveTopLevelFormulae_def by auto

lemma clause_loop_ok:
  assumes "linv L" "\<forall>t \<in> set st. bterm L t" "\<forall>t \<in> set st. \<forall>l \<in> set (leaves L (sym_OR L) t). litp L l"
  shows "clause_loop L st acc = Some (Inr (acc @ concat (map (leaves L (sym_OR L)) st)))"
  using assms(2,3)
proof (induction "total L st" arbitrary: st acc rule: less_induct)
  case less
  show ?case
  proof (cases st)
    case Nil
    then show ?thesis
      by (subst clause_loop.simps) simp
  next
    case (Cons f rest)
    have f: "bterm L f" "f < nterms L"
      using less.prems Cons by (auto simp: bterm_def)
    show ?thesis
    proof (cases "litp L f")
      case True
      have "total L rest < total L st"
        using Cons by simp
      with less.hyps [OF this, of "acc @ [f]"] show ?thesis
        using True Cons less.prems litp_leaf(2) [OF assms(1) f(1) True]
        by (subst clause_loop.simps) (simp add: isLit_linv [OF assms(1) f(1)])
    next
      case False
      then have o: "isOr L f"
        using less.prems(2) Cons by (auto simp: leaves_linv [OF assms(1) f(2)] isOr_def split: if_splits)
      note args = boolop_args [OF assms(1) f(1) disjI2 [OF o]]
      have "clause_loop L (targs L f @ rest) acc =
          Some (Inr (acc @ concat (map (leaves L (sym_OR L)) (targs L f @ rest))))"
        using less.prems Cons args o by (intro less.hyps) (auto simp: leaves_linv [OF assms(1) f(2)] isOr_def)
      then show ?thesis
        using False o Cons
        by (subst clause_loop.simps) (simp add: isLit_linv [OF assms(1) f(1)] leaves_linv [OF assms(1) f(2)] isOr_def)
    qed
  qed
qed

lemma conjuncts_loop_ok:
  assumes "linv L" "\<forall>t \<in> set st. bterm L t" "\<forall>t \<in> set st. \<forall>l \<in> set (leaves L (sym_AND L) t). litp L l"
  shows "conjuncts_loop L st acc = Some (Inr (acc @ concat (map (leaves L (sym_AND L)) st)))"
  using assms(2,3)
proof (induction "total L st" arbitrary: st acc rule: less_induct)
  case less
  show ?case
  proof (cases st)
    case Nil
    then show ?thesis
      by (subst conjuncts_loop.simps) simp
  next
    case (Cons f rest)
    have f: "bterm L f" "f < nterms L"
      using less.prems Cons by (auto simp: bterm_def)
    show ?thesis
    proof (cases "litp L f")
      case True
      have "total L rest < total L st"
        using Cons by simp
      with less.hyps [OF this, of "acc @ [f]"] show ?thesis
        using True Cons less.prems litp_leaf(2) [OF assms(1) f(1) True]
        by (subst conjuncts_loop.simps) (simp add: isLit_linv [OF assms(1) f(1)])
    next
      case False
      then have o: "isAnd L f"
        using less.prems(2) Cons by (auto simp: leaves_linv [OF assms(1) f(2)] isAnd_def split: if_splits)
      note args = boolop_args [OF assms(1) f(1) disjI1 [OF o]]
      have "conjuncts_loop L (targs L f @ rest) acc =
          Some (Inr (acc @ concat (map (leaves L (sym_AND L)) (targs L f @ rest))))"
        using less.prems Cons args o by (intro less.hyps) (auto simp: leaves_linv [OF assms(1) f(2)] isAnd_def)
      then show ?thesis
        using False o Cons
        by (subst conjuncts_loop.simps) (simp add: isLit_linv [OF assms(1) f(1)] leaves_linv [OF assms(1) f(2)] isAnd_def)
    qed
  qed
qed

section \<open>The checks\<close>

lemma clause_args_ok:
  assumes "linv L" "\<forall>a \<in> set as. bterm L a"
  shows "\<exists>r. clause_args L as st = Some r \<and> (\<forall>st'. r = Some st' \<longrightarrow>
    set st' = {a \<in> set as. isOr L a} \<union> set st \<and> total L st' \<le> total L as + total L st \<and>
    (\<forall>a \<in> set as. isOr L a \<or> isAtom L (fst (pure_term L a))))"
  using assms(2)
proof (induction as arbitrary: st)
  case (Cons a as)
  show ?case
  proof (cases "isOr L a")
    case True
    obtain r where r: "clause_args L as (a # st) = Some r" "\<forall>st'. r = Some st' \<longrightarrow>
        set st' = {a \<in> set as. isOr L a} \<union> set (a # st) \<and> total L st' \<le> total L as + total L (a # st) \<and>
        (\<forall>a \<in> set as. isOr L a \<or> isAtom L (fst (pure_term L a)))"
      using Cons by fastforce
    then show ?thesis
      using True by auto
  next
    case False
    obtain r where r: "clause_args L as st = Some r" "\<forall>st'. r = Some st' \<longrightarrow>
        set st' = {a \<in> set as. isOr L a} \<union> set st \<and> total L st' \<le> total L as + total L st \<and>
        (\<forall>a \<in> set as. isOr L a \<or> isAtom L (fst (pure_term L a)))"
      using Cons by fastforce
    then show ?thesis
      using False isNPAtom_linv [OF assms(1), of a] Cons.prems by auto
  qed
qed simp

lemma checkClause_loop_ok:
  assumes "linv L" "no_distinct L" "\<forall>t \<in> set st. bterm L t \<and> isOr L t"
  shows "\<exists>b. checkClause_loop L st = Some b \<and> (b \<longrightarrow> (\<forall>t \<in> set st. \<forall>l \<in> set (leaves L (sym_OR L) t). litp L l))"
  using assms(3)
proof (induction "total L st" arbitrary: st rule: less_induct)
  case less
  show ?case
  proof (cases st)
    case Nil
    then show ?thesis
      by (subst checkClause_loop.simps) (auto intro: exI [of _ True])
  next
    case (Cons f rest)
    have f: "bterm L f" "f < nterms L" "isOr L f"
      using less.prems Cons by (auto simp: bterm_def)
    note args = boolop_args [OF assms(1) f(1) disjI2 [OF f(3)]]
    obtain r where r: "clause_args L (targs L f) rest = Some r" "\<forall>st'. r = Some st' \<longrightarrow>
        set st' = {a \<in> set (targs L f). isOr L a} \<union> set rest \<and> total L st' \<le> total L (targs L f) + total L rest \<and>
        (\<forall>a \<in> set (targs L f). isOr L a \<or> isAtom L (fst (pure_term L a)))"
      using clause_args_ok [OF assms(1) args(1), of rest] by blast
    show ?thesis
    proof (cases r)
      case None
      then show ?thesis
        using Cons r(1) by (subst checkClause_loop.simps) (simp add: ex_bool_eq)
    next
      case (Some st')
      with r(2) have st': "set st' = {a \<in> set (targs L f). isOr L a} \<union> set rest" "total L st' < total L st"
          "\<forall>a \<in> set (targs L f). isOr L a \<or> isAtom L (fst (pure_term L a))"
        using Cons args(2) by simp_all
      have all: "\<forall>t \<in> set st'. bterm L t \<and> isOr L t"
        using st'(1) args(1) less.prems Cons by (simp add: ball_Un)
      obtain b where b: "checkClause_loop L st' = Some b" "b \<longrightarrow> (\<forall>t \<in> set st'. \<forall>l \<in> set (leaves L (sym_OR L) t). litp L l)"
        using less.hyps [OF st'(2) all] by blast
      have "litp L l" if l: "b" "t \<in> set st" "l \<in> set (leaves L (sym_OR L) t)" for t l
      proof (cases "t \<in> set rest")
        case True
        then show ?thesis
          using b(2) st'(1) that by blast
      next
        case False
        then have "t = f"
          using that Cons by simp
        then obtain a where a: "a \<in> set (targs L f)" "l \<in> set (leaves L (sym_OR L) a)"
          using l f(3) by (auto simp: leaves_linv [OF assms(1) f(2)] isOr_def)
        have ab: "bterm L a" "a < nterms L"
          using args(1) a(1) by (auto simp: bterm_def)
        show ?thesis
        proof (cases "isOr L a")
          case False
          then show ?thesis
            using a st'(3) ab atom_litp [OF assms(1,2) ab(1)] by (auto simp: leaves_linv [OF assms(1)] isOr_def)
        qed (use b(2) st'(1) that(1) a in blast)
      qed
      then have "b \<longrightarrow> (\<forall>t \<in> set st. \<forall>l \<in> set (leaves L (sym_OR L) t). litp L l)"
        by blast
      then show ?thesis
        using b(1) Cons r(1) Some by (subst checkClause_loop.simps) simp
    qed
  qed
qed

text \<open>A formula all of whose leaves, under conjunctions and then under disjunctions, are literals.\<close>

definition clause_form :: "logic \<Rightarrow> ptref \<Rightarrow> bool" where
  "clause_form L f \<longleftrightarrow> (\<forall>l \<in> set (leaves L (sym_OR L) f). litp L l)"

definition cnf_form :: "logic \<Rightarrow> ptref \<Rightarrow> bool" where
  "cnf_form L f \<longleftrightarrow> (\<forall>g \<in> set (leaves L (sym_AND L) f). clause_form L g)"

lemma checkClause_ok:
  assumes "linv L" "no_distinct L" "bterm L f"
  obtains b where "checkClause L f = Some b" "b \<Longrightarrow> isOr L f \<and> clause_form L f"
  using checkClause_loop_ok [OF assms(1,2), of "[f]"] assms(3)
  by (cases "isOr L f") (auto simp: checkClause_def clause_form_def)

lemma conj_args_ok:
  assumes "linv L" "no_distinct L" "\<forall>a \<in> set as. bterm L a"
  shows "\<exists>r. conj_args L as st = Some r \<and> (\<forall>st'. r = Some st' \<longrightarrow>
    set st' = {a \<in> set as. isAnd L a} \<union> set st \<and> total L st' \<le> total L as + total L st \<and>
    (\<forall>a \<in> set as. isAnd L a \<or> clause_form L a))"
  using assms(3)
proof (induction as arbitrary: st)
  case (Cons a as)
  show ?case
  proof (cases "isAnd L a")
    case True
    obtain r where r: "conj_args L as (a # st) = Some r" "\<forall>st'. r = Some st' \<longrightarrow>
        set st' = {a \<in> set as. isAnd L a} \<union> set (a # st) \<and> total L st' \<le> total L as + total L (a # st) \<and>
        (\<forall>a \<in> set as. isAnd L a \<or> clause_form L a)"
      using Cons by fastforce
    then show ?thesis
      using True by auto
  next
    case False
    obtain r where r: "conj_args L as st = Some r" "\<forall>st'. r = Some st' \<longrightarrow>
        set st' = {a \<in> set as. isAnd L a} \<union> set st \<and> total L st' \<le> total L as + total L st \<and>
        (\<forall>a \<in> set as. isAnd L a \<or> clause_form L a)"
      using Cons by fastforce
    have "bterm L a"
      using Cons.prems by simp
    then obtain b where "checkClause L a = Some b" "b \<Longrightarrow> isOr L a \<and> clause_form L a"
      using checkClause_ok [OF assms(1,2)] by blast
    then show ?thesis
      using False r by (cases b) auto
  qed
qed simp

lemma checkConj_loop_ok:
  assumes "linv L" "no_distinct L" "\<forall>t \<in> set st. bterm L t \<and> isAnd L t"
  shows "\<exists>b. checkConj_loop L st = Some b \<and> (b \<longrightarrow> (\<forall>t \<in> set st. cnf_form L t))"
  using assms(3)
proof (induction "total L st" arbitrary: st rule: less_induct)
  case less
  show ?case
  proof (cases st)
    case Nil
    then show ?thesis
      by (subst checkConj_loop.simps) (auto intro: exI [of _ True])
  next
    case (Cons f rest)
    have f: "bterm L f" "f < nterms L" "isAnd L f"
      using less.prems Cons by (auto simp: bterm_def)
    note args = boolop_args [OF assms(1) f(1) disjI1 [OF f(3)]]
    obtain r where r: "conj_args L (targs L f) rest = Some r" "\<forall>st'. r = Some st' \<longrightarrow>
        set st' = {a \<in> set (targs L f). isAnd L a} \<union> set rest \<and> total L st' \<le> total L (targs L f) + total L rest \<and>
        (\<forall>a \<in> set (targs L f). isAnd L a \<or> clause_form L a)"
      using conj_args_ok [OF assms(1,2) args(1), of rest] by blast
    show ?thesis
    proof (cases r)
      case None
      then show ?thesis
        using Cons r(1) by (subst checkConj_loop.simps) (simp add: ex_bool_eq)
    next
      case (Some st')
      with r(2) have st': "set st' = {a \<in> set (targs L f). isAnd L a} \<union> set rest" "total L st' < total L st"
          "\<forall>a \<in> set (targs L f). isAnd L a \<or> clause_form L a"
        using Cons args(2) by simp_all
      have all: "\<forall>t \<in> set st'. bterm L t \<and> isAnd L t"
        using st'(1) args(1) less.prems Cons by (simp add: ball_Un)
      obtain b where b: "checkConj_loop L st' = Some b" "b \<longrightarrow> (\<forall>t \<in> set st'. cnf_form L t)"
        using less.hyps [OF st'(2) all] by blast
      have "cnf_form L a" if "b" "a \<in> set (targs L f)" for a
      proof (cases "isAnd L a")
        case False
        have "a < nterms L"
          using args(1) that(2) by (auto simp: bterm_def)
        then show ?thesis
          using False that st'(3) by (auto simp: cnf_form_def leaves_linv [OF assms(1)] isAnd_def)
      qed (use b(2) st'(1) that in blast)
      then have "b \<Longrightarrow> cnf_form L f"
        using f(3) by (auto simp: cnf_form_def leaves_linv [OF assms(1) f(2)] isAnd_def)
      then have "b \<longrightarrow> (\<forall>t \<in> set st. cnf_form L t)"
        using b(2) st'(1) Cons by simp
      then show ?thesis
        using b(1) Cons r(1) Some by (subst checkConj_loop.simps) simp
    qed
  qed
qed

lemma litp_clause_form: "linv L \<Longrightarrow> bterm L f \<Longrightarrow> litp L f \<Longrightarrow> clause_form L f"
  by (simp add: clause_form_def litp_leaf(2))

lemma clause_cnf_form:
  assumes "linv L" "bterm L f" "clause_form L f" "\<not> isAnd L f"
  shows "cnf_form L f"
  using assms by (simp add: cnf_form_def leaves_linv isAnd_def bterm_def)

lemma checkCnf_ok:
  assumes "linv L" "no_distinct L" "bterm L f"
  obtains b where "checkCnf L f = Some b" "b \<Longrightarrow> cnf_form L f"
proof -
  have lit: "cnf_form L f" if "litp L f"
    using that litp_leaf(1) [OF assms(1,3) that, of "sym_AND L"] litp_clause_form [OF assms(1,3) that]
    by (intro clause_cnf_form [OF assms(1,3)]) (simp_all add: isAnd_def)
  have cl: "cnf_form L f" if "isOr L f \<and> clause_form L f"
    using that linv_neq [OF assms(1)] by (intro clause_cnf_form [OF assms(1,3)]) (auto simp: isAnd_def isOr_def)
  obtain c where c: "checkClause L f = Some c" "c \<Longrightarrow> isOr L f \<and> clause_form L f"
    using checkClause_ok [OF assms] by blast
  obtain d where d: "checkConj L f = Some d" "d \<Longrightarrow> cnf_form L f"
    using checkConj_loop_ok [OF assms(1,2), of "[f]"] assms(3) lit
    by (cases "litp L f"; cases "isAnd L f") (auto simp: checkConj_def isLit_linv [OF assms(1,3)] isAnd_def)
  show ?thesis
    using c d cl by (intro that [of "if d then d else c"]) (auto simp: checkCnf_def split: if_splits)
qed

lemma checkPureConj_loop_ok:
  assumes "linv L" "\<forall>t \<in> set st. bterm L t"
  shows "\<exists>b c. checkPureConj_loop L st cache = Some (b, c) \<and>
    (b \<longrightarrow> (\<forall>t \<in> set st. \<forall>l \<in> set (leaves L (sym_AND L) t). litp L l))"
  using assms(2)
proof (induction "total L st" arbitrary: st cache rule: less_induct)
  case less
  show ?case
  proof (cases st)
    case Nil
    then show ?thesis
      by (subst checkPureConj_loop.simps) (auto intro: exI [of _ True])
  next
    case (Cons f rest)
    have f: "bterm L f" "f < nterms L"
      using less.prems Cons by (auto simp: bterm_def)
    show ?thesis
    proof (cases "isAnd L f")
      case True
      note args = boolop_args [OF assms(1) f(1) disjI1 [OF True]]
      have "total L (rev (targs L f) @ rest) < total L st"
        using Cons args by simp
      then obtain b c where "checkPureConj_loop L (rev (targs L f) @ rest) (insert f cache) = Some (b, c)"
          "b \<longrightarrow> (\<forall>t \<in> set (rev (targs L f) @ rest). \<forall>l \<in> set (leaves L (sym_AND L) t). litp L l)"
        using less.hyps [of "rev (targs L f) @ rest" "insert f cache"] args(1) less.prems Cons by auto
      then show ?thesis
        using True Cons
        by (subst checkPureConj_loop.simps) (auto simp: leaves_linv [OF assms(1) f(2)] isAnd_def ex_bool_eq)
    next
      case False
      have "total L rest < total L st"
        using Cons by simp
      with less.hyps [OF this, of "insert f cache"] show ?thesis
        using False Cons less.prems
        by (subst checkPureConj_loop.simps)
          (auto simp: ex_bool_eq isLit_linv [OF assms(1) f(1)] leaves_linv [OF assms(1) f(2)] isAnd_def)
    qed
  qed
qed

lemma checkDeMorgan_ok:
  assumes "linv L" "bterm L f"
  obtains b where "checkDeMorgan L f = Some b"
    "b \<Longrightarrow> isNot L f \<and> isAnd L (targs L f ! 0) \<and> (\<forall>l \<in> set (leaves L (sym_AND L) (targs L f ! 0)). litp L l)"
proof (cases "isNot L f")
  case True
  have "bterm L (targs L f ! 0)"
    using isNot_arg(1) [OF assms True] .
  then show ?thesis
    using that True checkPureConj_loop_ok [OF assms(1), of "[targs L f ! 0]" "{}"]
    by (cases "isAnd L (targs L f ! 0)") (auto simp: checkDeMorgan_def checkPureConj_def)
next
  case False
  then show ?thesis
    using that [of False] by (simp add: checkDeMorgan_def)
qed

section \<open>Nested Boolean roots\<close>

lemma nestedRoots_loop_ok:
  assumes "linv L" "\<forall>t \<in> set queue. t < nterms L"
  shows "\<exists>ts. nestedRoots_loop L queue dn acc = Some ts \<and> (\<forall>t \<in> set ts. t \<in> set acc \<or> bterm L t)"
  using assms(2)
proof (induction "total L queue" arbitrary: queue dn acc rule: less_induct)
  case less
  show ?case
  proof (cases queue)
    case Nil
    then show ?thesis
      by (subst nestedRoots_loop.simps) simp
  next
    case (Cons t rest)
    have t: "t < nterms L"
      using less.prems Cons by simp
    have args: "\<forall>a \<in> set (targs L t). a < nterms L"
      using term_arg [OF assms(1) t] by blast
    have r: "total L rest < total L queue" "total L (rev (targs L t) @ rest) < total L queue"
      using Cons tsize_linv [OF assms(1) t] by simp_all
    show ?thesis
    proof (cases "t \<in> dn")
      case True
      then show ?thesis
        using less.hyps [OF r(1), of dn acc] less.prems Cons by (subst nestedRoots_loop.simps) simp
    next
      case False
      let ?acc = "acc @ filter (\<lambda>a. \<not> isBooleanOperator L t \<and> hasSortBool L a) (targs L t)"
      obtain ts where ts: "nestedRoots_loop L (rev (targs L t) @ rest) (insert t dn) ?acc = Some ts"
          "\<forall>t \<in> set ts. t \<in> set ?acc \<or> bterm L t"
        using less.hyps [OF r(2), of "insert t dn" ?acc] less.prems Cons args by auto
      have "\<forall>t \<in> set ts. t \<in> set acc \<or> bterm L t"
        using ts(2) args by (auto simp: bterm_def)
      then show ?thesis
        using False Cons ts(1) by (subst nestedRoots_loop.simps) simp
    qed
  qed
qed

lemma getNestedBoolRoots_ok:
  assumes "linv L" "bterm L f"
  obtains ts where "getNestedBoolRoots L f = Some ts" "\<forall>t \<in> set ts. bterm L t"
  using nestedRoots_loop_ok [OF assms(1), of "[f]" "{}" "[]"] assms(2)
  unfolding getNestedBoolRoots_def bterm_def by auto

end
