(* ===== verification/Cnf_Inv.thy ===== *)
theory Cnf_Inv
  imports Cnf_Leaves
begin

text \<open>
  The invariant of the CNF state and the contract of every step that emits clauses: the terms
  stay, bindings of variables to terms stay, and the new clauses hold in an assignment of the
  variables exactly when the frame is disabled or a condition on the truth values of terms
  holds.
\<close>

section \<open>The invariant\<close>

definition map_ok :: "cnf \<Rightarrow> bool" where
  "map_ok S \<longleftrightarrow>
     length (varToTerm S) = var_cnt S \<and> length (varToTheorySymbol S) = var_cnt S \<and> length (frozen S) = var_cnt S \<and>
     (\<forall>v < var_cnt S. \<exists>t. varToTerm S ! v = Some t \<and> varToTheorySymbol S ! v = Some (getSymRef (cn_logic S) t) \<and>
        bterm (cn_logic S) t \<and> \<not> isNot (cn_logic S) t \<and> getVar_of (cn_logic S) t = Some v) \<and>
     (\<forall>t < nterms (cn_logic S). \<forall>v. getVar_of (cn_logic S) t = Some v \<longrightarrow> v < var_cnt S \<and> varToTerm S ! v = Some t)"

definition clauses_ok :: "cnf \<Rightarrow> bool" where
  "clauses_ok S \<longleftrightarrow> (\<forall>c \<in> set (sent S). \<forall>l \<in> set c. lit_ok (var_cnt S) l)"

lemma clauses_ok_updates [simp]:
  "clauses_ok (S\<lparr>cn_logic := L\<rparr>) = clauses_ok S" "clauses_ok (S\<lparr>frame_term := t\<rparr>) = clauses_ok S"
  "clauses_ok (S\<lparr>frame_terms := ts\<rparr>) = clauses_ok S"
  by (simp_all add: clauses_ok_def)

definition cinv :: "cnf \<Rightarrow> bool" where
  "cinv S \<longleftrightarrow> linv (cn_logic S) \<and> map_ok S \<and> clauses_ok S \<and> bterm (cn_logic S) (frame_term S) \<and>
     (\<forall>t \<in> set (propFormulasAppearingInUF (cn_logic S)). bterm (cn_logic S) t)"

definition bindings_kept :: "cnf \<Rightarrow> cnf \<Rightarrow> bool" where
  "bindings_kept S S' \<longleftrightarrow> (\<forall>t < nterms (cn_logic S). \<forall>v. getVar_of (cn_logic S) t = Some v \<longrightarrow>
     getVar_of (cn_logic S') t = Some v)"

definition emitted :: "cnf \<Rightarrow> cnf \<Rightarrow> lit list list \<Rightarrow> bool" where
  "emitted S S' cs \<longleftrightarrow> cinv S' \<and> same_terms (cn_logic S) (cn_logic S') \<and> bindings_kept S S' \<and>
     sent S' = sent S @ cs \<and> frame_term S' = frame_term S \<and> frame_terms S' = frame_terms S \<and>
     var_cnt S \<le> var_cnt S'"

lemma emitted_refl: "cinv S \<Longrightarrow> emitted S S []"
  by (simp add: emitted_def bindings_kept_def)

lemma emitted_trans: "emitted S S1 cs \<Longrightarrow> emitted S1 S2 ds \<Longrightarrow> emitted S S2 (cs @ ds)"
  by (auto simp: emitted_def bindings_kept_def same_termsD(1) intro: same_terms_trans)

lemma cinv_linv: "cinv S \<Longrightarrow> linv (cn_logic S)"
  by (simp add: cinv_def)

lemma emittedD:
  assumes "emitted S S' cs"
  shows "cinv S'" "same_terms (cn_logic S) (cn_logic S')" "sent S' = sent S @ cs" "frame_term S' = frame_term S"
    "linv (cn_logic S')" "frame_terms S' = frame_terms S" "var_cnt S \<le> var_cnt S'"
  using assms cinv_linv unfolding emitted_def by blast+

section \<open>Assignments\<close>

text \<open>An assignment of variables and one of terms agree where a term has a variable.\<close>

definition agrees :: "(nat \<Rightarrow> bool) \<Rightarrow> (ptref \<Rightarrow> bool) \<Rightarrow> cnf \<Rightarrow> bool" where
  "agrees \<sigma> \<tau> S \<longleftrightarrow> (\<forall>t < nterms (cn_logic S). \<forall>v. getVar_of (cn_logic S) t = Some v \<longrightarrow> \<tau> t = \<sigma> v)"

lemma agrees_back: "emitted S S' cs \<Longrightarrow> agrees \<sigma> \<tau> S' \<Longrightarrow> agrees \<sigma> \<tau> S"
  by (auto simp: agrees_def emitted_def bindings_kept_def same_termsD(1))

lemma same_terms_lawful: "same_terms L L' \<Longrightarrow> lawful L' \<tau> = lawful L \<tau>"
  by (simp add: lawful_def same_terms_frame same_termsD same_terms_bterm same_terms_queries)

lemma lawful_back: "emitted S S' cs \<Longrightarrow> lawful (cn_logic S') \<tau> \<Longrightarrow> lawful (cn_logic S) \<tau>"
  using same_terms_lawful [OF emittedD(2)] by blast

definition fr :: "cnf \<Rightarrow> (ptref \<Rightarrow> bool) \<Rightarrow> bool" where
  "fr S \<tau> \<longleftrightarrow> frame_term S \<noteq> term_TRUE (cn_logic S) \<and> \<tau> (frame_term S)"

lemma fr_emitted: "emitted S S' cs \<Longrightarrow> fr S' = fr S"
  by (rule ext) (simp add: fr_def emittedD(4) same_terms_frame [OF emittedD(2)])

text \<open>What a literal and a clause say about the terms.\<close>

definition lmeans :: "cnf \<Rightarrow> lit \<Rightarrow> ((ptref \<Rightarrow> bool) \<Rightarrow> bool) \<Rightarrow> bool" where
  "lmeans S l \<phi> \<longleftrightarrow> lit_ok (var_cnt S) l \<and> (\<forall>\<sigma> \<tau>. agrees \<sigma> \<tau> S \<longrightarrow> lawful (cn_logic S) \<tau> \<longrightarrow> lsat \<sigma> l = \<phi> \<tau>)"

definition cmeans :: "cnf \<Rightarrow> lit list \<Rightarrow> ((ptref \<Rightarrow> bool) \<Rightarrow> bool) \<Rightarrow> bool" where
  "cmeans S c \<phi> \<longleftrightarrow> (\<forall>l \<in> set c. lit_ok (var_cnt S) l) \<and> (\<forall>\<sigma> \<tau>. agrees \<sigma> \<tau> S \<longrightarrow> lawful (cn_logic S) \<tau> \<longrightarrow> csat \<sigma> c = \<phi> \<tau>)"

lemma lmeans_mono: "emitted S S' cs \<Longrightarrow> lmeans S l \<phi> \<Longrightarrow> lmeans S' l \<phi>"
  using emittedD(7) [of S S' cs] lit_ok_mono by (fastforce simp: lmeans_def agrees_back lawful_back)

lemma cmeans_mono: "emitted S S' cs \<Longrightarrow> cmeans S c \<phi> \<Longrightarrow> cmeans S' c \<phi>"
  using emittedD(7) [of S S' cs] lit_ok_mono by (fastforce simp: cmeans_def agrees_back lawful_back)

lemma lmeans_not: "lmeans S l \<phi> \<Longrightarrow> lmeans S (lit_not l) (\<lambda>\<tau>. \<not> \<phi> \<tau>)"
  by (simp add: lmeans_def)

lemma cmeans_Nil: "cmeans S [] (\<lambda>_. False)"
  by (simp add: cmeans_def csat_def)

lemma cmeans_Cons: "lmeans S l \<phi> \<Longrightarrow> cmeans S c \<psi> \<Longrightarrow> cmeans S (l # c) (\<lambda>\<tau>. \<phi> \<tau> \<or> \<psi> \<tau>)"
  by (simp add: lmeans_def cmeans_def csat_def)

lemma cmeans_append: "cmeans S c \<phi> \<Longrightarrow> cmeans S d \<psi> \<Longrightarrow> cmeans S (c @ d) (\<lambda>\<tau>. \<phi> \<tau> \<or> \<psi> \<tau>)"
  by (simp add: cmeans_def csat_def bex_Un ball_Un)

lemma cmeans_cong: "cmeans S c \<phi> \<Longrightarrow> (\<And>\<tau>. lawful (cn_logic S) \<tau> \<Longrightarrow> \<phi> \<tau> = \<psi> \<tau>) \<Longrightarrow> cmeans S c \<psi>"
  by (simp add: cmeans_def)

section \<open>The contract of an emitting step\<close>

text \<open>An answer of the solver was false.\<close>

definition refused :: "(lit list list \<Rightarrow> bool) \<Rightarrow> cnf \<Rightarrow> bool" where
  "refused A S \<longleftrightarrow> (\<exists>cs ds. sent S = cs @ ds \<and> \<not> A cs)"

definition emits :: "(lit list list \<Rightarrow> bool) \<Rightarrow> ((ptref \<Rightarrow> bool) \<Rightarrow> bool) \<Rightarrow> bool \<Rightarrow> cnf \<Rightarrow> bool \<Rightarrow> cnf \<Rightarrow> bool" where
  "emits A \<phi> res S r S' \<longleftrightarrow> (\<exists>cs. emitted S S' cs \<and> (\<not> r \<longrightarrow> \<not> res \<or> refused A S') \<and>
     (\<forall>\<sigma> \<tau>. agrees \<sigma> \<tau> S' \<longrightarrow> lawful (cn_logic S') \<tau> \<longrightarrow> (sat \<sigma> cs \<longleftrightarrow> fr S' \<tau> \<or> \<phi> \<tau>)))"

lemma refused_mono: "emitted S S' cs \<Longrightarrow> refused A S \<Longrightarrow> refused A S'"
  using emittedD(3) unfolding refused_def by (metis append.assoc)

lemma emits_trans:
  assumes "emits A \<phi> res S r S1" "emits A \<psi> r S1 r' S2"
  shows "emits A (\<lambda>\<tau>. \<phi> \<tau> \<and> \<psi> \<tau>) res S r' S2"
proof -
  obtain cs where cs: "emitted S S1 cs" "\<not> r \<longrightarrow> \<not> res \<or> refused A S1"
      "\<forall>\<sigma> \<tau>. agrees \<sigma> \<tau> S1 \<longrightarrow> lawful (cn_logic S1) \<tau> \<longrightarrow> (sat \<sigma> cs \<longleftrightarrow> fr S1 \<tau> \<or> \<phi> \<tau>)"
    using assms(1) by (auto simp: emits_def)
  obtain ds where ds: "emitted S1 S2 ds" "\<not> r' \<longrightarrow> \<not> r \<or> refused A S2"
      "\<forall>\<sigma> \<tau>. agrees \<sigma> \<tau> S2 \<longrightarrow> lawful (cn_logic S2) \<tau> \<longrightarrow> (sat \<sigma> ds \<longleftrightarrow> fr S2 \<tau> \<or> \<psi> \<tau>)"
    using assms(2) by (auto simp: emits_def)
  have "sat \<sigma> (cs @ ds) \<longleftrightarrow> fr S2 \<tau> \<or> \<phi> \<tau> \<and> \<psi> \<tau>" if "agrees \<sigma> \<tau> S2" "lawful (cn_logic S2) \<tau>" for \<sigma> \<tau>
    using cs(3) ds(3) that agrees_back [OF ds(1) that(1)] lawful_back [OF ds(1) that(2)]
    by (auto simp: fr_emitted [OF ds(1)])
  then show ?thesis
    using emitted_trans [OF cs(1) ds(1)] cs(2) ds(2) refused_mono [OF ds(1)] unfolding emits_def by blast
qed

lemma emits_silent: "emitted S S' [] \<Longrightarrow> emits A (\<lambda>_. True) res S res S'"
  by (auto simp: emits_def sat_def)

lemma emits_cong:
  assumes "emits A \<phi> res S r S'" "\<And>\<tau>. lawful (cn_logic S') \<tau> \<Longrightarrow> \<phi> \<tau> = \<psi> \<tau>"
  shows "emits A \<psi> res S r S'"
  using assms unfolding emits_def by blast

lemma emits_after:
  assumes "emitted S S1 []" "emits A \<phi> res S1 r S2"
  shows "emits A \<phi> res S r S2"
  using emits_trans [OF emits_silent [OF assms(1)] assms(2)] by simp

lemma emits_res: "emits A \<phi> True S b S' \<Longrightarrow> emits A \<phi> res S (res \<and> b) S'"
  by (auto simp: emits_def)

lemma emitsD:
  assumes "emits A \<phi> res S r S'"
  obtains cs where "emitted S S' cs"
  using assms by (auto simp: emits_def)

lemma emits_linv: "emits A \<phi> res S r S' \<Longrightarrow> cinv S'"
  by (auto simp: emits_def emittedD(1))

lemma emits_same: "emits A \<phi> res S r S' \<Longrightarrow> same_terms (cn_logic S) (cn_logic S')"
  by (auto simp: emits_def emittedD(2))

section \<open>Literals\<close>

definition lit_of :: "logic \<Rightarrow> ptref \<Rightarrow> lit" where
  "lit_of L t = mkLit (the (getVar_of L (fst (pure_term L t)))) (snd (pure_term L t))"

definition bound :: "logic \<Rightarrow> ptref \<Rightarrow> bool" where
  "bound L t \<longleftrightarrow> getVar_of L (fst (pure_term L t)) \<noteq> None"

lemma lmeans_lit:
  assumes "cinv S" "bterm (cn_logic S) t" "bound (cn_logic S) t"
  shows "lmeans S (lit_of (cn_logic S) t) (\<lambda>\<tau>. \<tau> t)"
proof -
  let ?L = "cn_logic S"
  obtain v where v: "getVar_of ?L (fst (pure_term ?L t)) = Some v"
    using assms(3) by (auto simp: bound_def)
  have p: "bterm ?L (fst (pure_term ?L t))"
    using pure_bterm(1) [OF cinv_linv [OF assms(1)] assms(2)] .
  have "lsat \<sigma> (lit_of ?L t) = \<tau> t" if "agrees \<sigma> \<tau> S" "lawful ?L \<tau>" for \<sigma> \<tau>
  proof -
    have "\<tau> (fst (pure_term ?L t)) = \<sigma> v"
      using that(1) v p by (simp add: agrees_def bterm_def)
    then show ?thesis
      using that(2) assms(2) v by (auto simp: lit_of_def pure_term_def lawful_def split: if_splits)
  qed
  moreover have "map_ok S" "fst (pure_term ?L t) < nterms ?L"
    using assms(1) p by (simp_all add: cinv_def bterm_def)
  then have "v < var_cnt S"
    using v unfolding map_ok_def by blast
  then have "lit_ok (var_cnt S) (lit_of ?L t)"
    using v by (simp add: lit_of_def)
  ultimately show ?thesis
    by (simp add: lmeans_def)
qed

lemma addBinding_fresh:
  assumes "cinv S" "bterm (cn_logic S) p" "\<not> isNot (cn_logic S) p" "getVar_of (cn_logic S) p = None"
  shows "addBinding S p = Inr (var_cnt S, S\<lparr>var_cnt := var_cnt S + 1, cn_logic := setVar p (var_cnt S) (cn_logic S),
    varToTerm := varToTerm S @ [Some p], varToTheorySymbol := varToTheorySymbol S @ [Some (getSymRef (cn_logic S) p)],
    frozen := frozen S @ [False]\<rparr>)"
proof -
  have "map_ok S"
    using assms(1) by (simp add: cinv_def)
  then have len: "length (varToTerm S) = var_cnt S" "length (varToTheorySymbol S) = var_cnt S" "length (frozen S) = var_cnt S"
    by (simp_all add: map_ok_def)
  have g: "getTerm (cn_logic S) p = Inr (p, False)"
    using getTerm_linv [OF cinv_linv [OF assms(1)] assms(2)] assms(3) by (simp add: pure_term_def)
  show ?thesis
    by (simp add: addBinding_def getVar_pure_def g assms(4) Let_def len list_update_append)
qed

lemma bound_state:
  assumes "cinv S" "bterm (cn_logic S) p" "\<not> isNot (cn_logic S) p" "getVar_of (cn_logic S) p = None"
    and S': "S' = S\<lparr>var_cnt := var_cnt S + 1, cn_logic := setVar p (var_cnt S) (cn_logic S),
      varToTerm := varToTerm S @ [Some p], varToTheorySymbol := varToTheorySymbol S @ [Some (getSymRef (cn_logic S) p)],
      frozen := frozen S @ [False]\<rparr>"
  shows "emitted S S' []" "getVar_of (cn_logic S') p = Some (var_cnt S)"
proof -
  let ?L = "cn_logic S"
  have pn: "p < nterms ?L"
    using assms(2) by (simp add: bterm_def)
  have st: "same_terms ?L (cn_logic S')"
    by (simp add: S' same_terms_setVar)
  have var: "getVar_of (cn_logic S') u = (if u = p then Some (var_cnt S) else getVar_of ?L u)" for u
    by (simp add: S' setVar_var [OF pn])
  have m: "map_ok S"
    using assms(1) by (simp add: cinv_def)
  have "map_ok S'"
    unfolding map_ok_def
  proof (intro conjI allI impI)
    show "\<exists>t. varToTerm S' ! v = Some t \<and> varToTheorySymbol S' ! v = Some (getSymRef (cn_logic S') t) \<and>
        bterm (cn_logic S') t \<and> \<not> isNot (cn_logic S') t \<and> getVar_of (cn_logic S') t = Some v" if "v < var_cnt S'" for v
    proof (cases "v = var_cnt S")
      case True
      then show ?thesis
        using m assms(2,3) var st by (simp add: S' map_ok_def same_terms_bterm same_terms_queries nth_append)
    next
      case False
      then have v: "v < var_cnt S"
        using that by (simp add: S')
      then obtain t where t: "varToTerm S ! v = Some t" "varToTheorySymbol S ! v = Some (getSymRef ?L t)" "bterm ?L t"
          "\<not> isNot ?L t" "getVar_of ?L t = Some v"
        using m by (auto simp: map_ok_def)
      then show ?thesis
        using v m assms(4) var [of t] same_terms_bterm [OF st] same_terms_queries [OF st]
        by (intro exI [of _ t]) (auto simp: S' map_ok_def nth_append)
    qed
    show "v < var_cnt S'" "varToTerm S' ! v = Some t" if "t < nterms (cn_logic S')" "getVar_of (cn_logic S') t = Some v" for t v
    proof (atomize (full), cases "t = p")
      case False
      then have "v < var_cnt S \<and> varToTerm S ! v = Some t"
        using m that var [of t] by (simp add: map_ok_def S')
      then show "v < var_cnt S' \<and> varToTerm S' ! v = Some t"
        using m by (simp add: map_ok_def S' nth_append)
    qed (use that var m in \<open>simp_all add: map_ok_def S' nth_append\<close>)
  qed (use m in \<open>simp_all add: S' map_ok_def\<close>)
  moreover have "\<forall>t \<in> set (propFormulasAppearingInUF (cn_logic S')). bterm (cn_logic S') t"
    using assms(1) same_terms_bterm [OF st] by (simp add: cinv_def S' setVar_def)
  moreover have "clauses_ok S'"
    using assms(1) by (auto simp: cinv_def clauses_ok_def S' lit_ok_def less_Suc_eq)
  ultimately have "cinv S'"
    using assms(1) same_terms_linv [OF st] same_terms_bterm [OF st] by (simp add: cinv_def S')
  then show "emitted S S' []"
    using st var assms(4) by (auto simp: emitted_def bindings_kept_def S')
  show "getVar_of (cn_logic S') p = Some (var_cnt S)"
    using var by simp
qed

lemma same_terms_pure: "same_terms L L' \<Longrightarrow> pure_term L' t = pure_term L t"
  by (simp add: pure_term_def same_terms_queries same_termsD)

lemma getOrCreateLit_ok:
  assumes "cinv S" "bterm (cn_logic S) t"
  obtains S' where "getOrCreateLit S t = Inr (lit_of (cn_logic S') t, S')" "emitted S S' []" "bound (cn_logic S') t"
    "bound (cn_logic S) t \<Longrightarrow> S' = S"
proof -
  let ?L = "cn_logic S" and ?p = "fst (pure_term (cn_logic S) t)"
  note inv = cinv_linv [OF assms(1)]
  have p: "bterm ?L ?p" "\<not> isNot ?L ?p"
    using pure_bterm [OF inv assms(2)] .
  have g: "getTerm ?L t = Inr (pure_term ?L t)"
    using getTerm_linv [OF inv assms(2)] .
  show ?thesis
  proof (cases "getVar_of ?L ?p")
    case (Some v)
    then have "getOrCreateLit S t = Inr (lit_of ?L t, S)"
      by (simp add: getOrCreateLit_def g lit_of_def split_beta)
    then show ?thesis
      using emitted_refl [OF assms(1)] Some by (intro that) (simp_all add: bound_def)
  next
    case None
    define S' where "S' = S\<lparr>var_cnt := var_cnt S + 1, cn_logic := setVar ?p (var_cnt S) ?L,
      varToTerm := varToTerm S @ [Some ?p], varToTheorySymbol := varToTheorySymbol S @ [Some (getSymRef ?L ?p)],
      frozen := frozen S @ [False]\<rparr>"
    note b = addBinding_fresh [OF assms(1) p None, folded S'_def]
    note e = bound_state [OF assms(1) p None S'_def]
    note st = emittedD(2) [OF e(1)]
    have "hasSortBool (cn_logic S') ?p"
      using p(1) same_terms_bterm [OF st, of ?p] by (simp add: bterm_def)
    then have "getOrCreateLit S t = Inr (lit_of (cn_logic S') t, S')"
      using None b e(2) by (simp add: getOrCreateLit_def g lit_of_def split_beta same_terms_pure [OF st])
    moreover have "bound (cn_logic S') t"
      unfolding bound_def same_terms_pure [OF st, of t] e(2) by simp
    moreover have "\<not> bound ?L t"
      using None by (simp add: bound_def)
    ultimately show ?thesis
      using e(1) by (intro that) simp_all
  qed
qed

lemma new_lit:
  assumes "cinv S" "bterm (cn_logic S) t"
  obtains l S' where "getOrCreateLit S t = Inr (l, S')" "emitted S S' []" "lmeans S' l (\<lambda>\<tau>. \<tau> t)"
    "getOrCreateLit S' t = Inr (l, S')"
proof -
  obtain S' where S': "getOrCreateLit S t = Inr (lit_of (cn_logic S') t, S')" "emitted S S' []" "bound (cn_logic S') t"
    using getOrCreateLit_ok [OF assms] by blast
  note c = emittedD(1) [OF S'(2)]
  have t: "bterm (cn_logic S') t"
    using assms(2) same_terms_bterm [OF emittedD(2) [OF S'(2)]] by simp
  have "getOrCreateLit S' t = Inr (lit_of (cn_logic S') t, S')"
    using getOrCreateLit_ok [OF c t] S'(3) by metis
  with S' c t show ?thesis
    by (intro that) (simp_all add: lmeans_lit)
qed

lemma emitted_bterm: "emitted S S' cs \<Longrightarrow> bterm (cn_logic S') t = bterm (cn_logic S) t"
  by (rule same_terms_bterm [OF emittedD(2)])

section \<open>Clauses\<close>

lemma agrees_sent [simp]: "agrees \<sigma> \<tau> (S\<lparr>sent := cs\<rparr>) = agrees \<sigma> \<tau> S" "agrees \<sigma> \<tau> (setFrozen v S) = agrees \<sigma> \<tau> S"
  "fr (S\<lparr>sent := cs\<rparr>) = fr S" "fr (setFrozen v S) = fr S" "cn_logic (setFrozen v S) = cn_logic S"
  "sent (setFrozen v S) = sent S" "var_cnt (setFrozen v S) = var_cnt S"
  by (simp_all add: agrees_def fr_def setFrozen_def fun_eq_iff)

lemma cinv_frozen [simp]: "cinv (setFrozen v S) = cinv S"
  by (simp add: cinv_def map_ok_def clauses_ok_def setFrozen_def)

lemma cinv_sent: "cinv S \<Longrightarrow> \<forall>l \<in> set c. lit_ok (var_cnt S) l \<Longrightarrow> cinv (S\<lparr>sent := sent S @ [c]\<rparr>)"
  by (simp add: cinv_def map_ok_def clauses_ok_def)

lemma kept_updates [simp]: "bindings_kept S (setFrozen v S') = bindings_kept S S'"
  "bindings_kept S (S'\<lparr>sent := cs\<rparr>) = bindings_kept S S'"
  by (simp_all add: bindings_kept_def setFrozen_def)

lemma setFrozen_emitted: "emitted S S' cs \<Longrightarrow> emitted S (setFrozen v S') cs"
  by (simp add: emitted_def) (simp add: setFrozen_def)

lemma sent_emitted:
  "emitted S S' cs \<Longrightarrow> \<forall>l \<in> set c. lit_ok (var_cnt S') l \<Longrightarrow> emitted S (S'\<lparr>sent := sent S' @ [c]\<rparr>) (cs @ [c])"
  unfolding emitted_def using cinv_sent [of S' c] by simp

lemma addClause_ok:
  assumes "cinv S" "cmeans S c \<phi>"
  obtains r S' where "addClause A c S = Inr (r, S')" "emits A \<phi> True S r S'"
proof (cases "frame_term S = term_TRUE (cn_logic S)")
  case True
  let ?S' = "S\<lparr>sent := sent S @ [c]\<rparr>"
  have "emitted S ?S' [c]"
    using sent_emitted [OF emitted_refl [OF assms(1)], where c = c] assms(2) by (simp add: cmeans_def)
  moreover have "refused A ?S'" if "\<not> A (sent S @ [c])"
    using that by (auto simp: refused_def)
  moreover have "fr S \<tau> = False" for \<tau>
    using True by (simp add: fr_def)
  ultimately have "emits A \<phi> True S (A (sent S @ [c])) ?S'"
    using assms(2) unfolding emits_def by (intro exI [of _ "[c]"]) (simp add: sat_def cmeans_def)
  then show ?thesis
    using True by (intro that) (auto simp: addClause_def)
next
  case False
  have "bterm (cn_logic S) (frame_term S)"
    using assms(1) by (simp add: cinv_def)
  then obtain l S1 where l: "getOrCreateLit S (frame_term S) = Inr (l, S1)" "emitted S S1 []"
      "lmeans S1 l (\<lambda>\<tau>. \<tau> (frame_term S))"
    using new_lit [OF assms(1)] by blast
  let ?c = "c @ [l]" and ?S1 = "setFrozen (lit_var l) S1"
  let ?S' = "?S1\<lparr>sent := sent S1 @ [?c]\<rparr>"
  have cm: "cmeans S1 ?c (\<lambda>\<tau>. \<phi> \<tau> \<or> \<tau> (frame_term S))"
    using cmeans_append [OF cmeans_mono [OF l(2) assms(2)] cmeans_Cons [OF l(3) cmeans_Nil]] by simp
  then have "emitted S ?S' [?c]"
    using sent_emitted [OF setFrozen_emitted [OF l(2)], where c = ?c] by (simp add: cmeans_def)
  moreover have "refused A ?S'" if "\<not> A (sent S1 @ [?c])"
    using that by (auto simp: refused_def)
  moreover have "fr S1 \<tau> = \<tau> (frame_term S)" for \<tau>
    using False by (simp add: fr_emitted [OF l(2)] fr_def)
  ultimately have "emits A \<phi> True S (A (sent S1 @ [?c])) ?S'"
    using cm unfolding emits_def by (intro exI [of _ "[?c]"]) (auto simp: sat_def cmeans_def)
  then show ?thesis
    using False l(1) by (intro that) (auto simp: addClause_def)
qed

lemma create_lits_ok:
  assumes "cinv S" "\<forall>t \<in> set ts. bterm (cn_logic S) t"
  shows "\<exists>ls S'. create_lits ts S = Inr (ls, S') \<and> emitted S S' [] \<and> cmeans S' ls (\<lambda>\<tau>. \<exists>t \<in> set ts. \<tau> t) \<and>
    cmeans S' (map lit_not ls) (\<lambda>\<tau>. \<exists>t \<in> set ts. \<not> \<tau> t)"
  using assms
proof (induction ts arbitrary: S)
  case Nil
  then show ?case
    using cmeans_Nil [of S] by (simp add: emitted_refl)
next
  case (Cons t ts)
  have "bterm (cn_logic S) t"
    using Cons.prems(2) by simp
  then obtain l S1 where l: "getOrCreateLit S t = Inr (l, S1)" "emitted S S1 []" "lmeans S1 l (\<lambda>\<tau>. \<tau> t)"
    using new_lit [OF Cons.prems(1)] by blast
  obtain ls S2 where ls: "create_lits ts S1 = Inr (ls, S2)" "emitted S1 S2 []"
      "cmeans S2 ls (\<lambda>\<tau>. \<exists>t \<in> set ts. \<tau> t)" "cmeans S2 (map lit_not ls) (\<lambda>\<tau>. \<exists>t \<in> set ts. \<not> \<tau> t)"
    using Cons.IH [OF emittedD(1) [OF l(2)]] Cons.prems(2) emitted_bterm [OF l(2)] by auto
  note m = lmeans_mono [OF ls(2) l(3)]
  show ?case
    using l(1) ls(1) emitted_trans [OF l(2) ls(2)] cmeans_Cons [OF m ls(3)] cmeans_Cons [OF lmeans_not [OF m] ls(4)]
    by simp
qed

end
