(* ===== verification/Cnf_Define.thy ===== *)
theory Cnf_Define
  imports Cnf_Inv
begin

text \<open>
  The clauses of \<open>Tseitin\<close> for one connective: with the frame enabled they hold exactly
  when the variable of the term has the value of the connective on the variables of its
  arguments.
\<close>

section \<open>Several clauses\<close>

definition ok_emit :: "(lit list list \<Rightarrow> bool) \<Rightarrow> ((ptref \<Rightarrow> bool) \<Rightarrow> bool) \<Rightarrow> bool \<Rightarrow> cnf \<Rightarrow> (bool \<times> cnf) result \<Rightarrow> bool" where
  "ok_emit A \<phi> res S R \<longleftrightarrow> (\<exists>r S'. R = Inr (r, S') \<and> emits A \<phi> res S r S')"

lemma ok_emit_cong:
  assumes "ok_emit A \<phi> res S R" "\<And>\<tau>. lawful (cn_logic S) \<tau> \<Longrightarrow> \<phi> \<tau> = \<psi> \<tau>"
  shows "ok_emit A \<psi> res S R"
proof -
  obtain r S' where r: "R = Inr (r, S')" "emits A \<phi> res S r S'"
    using assms(1) by (auto simp: ok_emit_def)
  have "emits A \<psi> res S r S'"
    using r(2) by (rule emits_cong) (simp add: assms(2) same_terms_lawful [OF emits_same [OF r(2)]])
  with r(1) show ?thesis
    by (simp add: ok_emit_def)
qed

lemma ok_emit_after: "emitted S S1 [] \<Longrightarrow> ok_emit A \<phi> res S1 R \<Longrightarrow> ok_emit A \<phi> res S R"
  by (auto simp: ok_emit_def intro: emits_after)

lemma cmeans1: "lmeans S l \<phi> \<Longrightarrow> cmeans S [l] \<phi>"
  by (simp add: cmeans_def lmeans_def csat_def)

lemma cmeans2: "lmeans S l \<phi> \<Longrightarrow> lmeans S m \<psi> \<Longrightarrow> cmeans S [l, m] (\<lambda>\<tau>. \<phi> \<tau> \<or> \<psi> \<tau>)"
  by (simp add: cmeans_def lmeans_def csat_def)

lemma cmeans3: "lmeans S l \<phi> \<Longrightarrow> lmeans S m \<psi> \<Longrightarrow> lmeans S n \<chi> \<Longrightarrow> cmeans S [l, m, n] (\<lambda>\<tau>. \<phi> \<tau> \<or> \<psi> \<tau> \<or> \<chi> \<tau>)"
  by (simp add: cmeans_def lmeans_def csat_def)

lemmas clause_intros = cmeans1 cmeans2 cmeans3 lmeans_not

lemma addClause_emit: "cinv S \<Longrightarrow> cmeans S c \<phi> \<Longrightarrow> ok_emit A \<phi> True S (addClause A c S)"
  using addClause_ok [of S c \<phi> A] unfolding ok_emit_def by metis

lemma add_clauses_ok:
  assumes "cinv S" "list_all2 (cmeans S) cs \<phi>s"
  shows "ok_emit A (\<lambda>\<tau>. \<forall>\<phi> \<in> set \<phi>s. \<phi> \<tau>) res S (add_clauses A cs res S)"
  using assms
proof (induction cs arbitrary: res S \<phi>s)
  case Nil
  then show ?case
    by (simp add: ok_emit_def emits_silent emitted_refl)
next
  case (Cons c cs)
  then obtain \<phi> \<phi>s' where p: "\<phi>s = \<phi> # \<phi>s'" "cmeans S c \<phi>" "list_all2 (cmeans S) cs \<phi>s'"
    by (auto simp: list_all2_Cons1)
  obtain b S1 where b: "addClause A c S = Inr (b, S1)" "emits A \<phi> True S b S1"
    using addClause_ok [OF Cons.prems(1) p(2)] .
  obtain ds where ds: "emitted S S1 ds"
    using emitsD [OF b(2)] .
  have "list_all2 (cmeans S1) cs \<phi>s'"
    using p(3) by (rule list_all2_mono) (rule cmeans_mono [OF ds])
  then obtain r S2 where r: "add_clauses A cs (res \<and> b) S1 = Inr (r, S2)"
      "emits A (\<lambda>\<tau>. \<forall>\<phi> \<in> set \<phi>s'. \<phi> \<tau>) (res \<and> b) S1 r S2"
    using Cons.IH [OF emits_linv [OF b(2)]] unfolding ok_emit_def by blast
  show ?case
    using b(1) r(1) emits_trans [OF emits_res [OF b(2)] r(2)] by (simp add: ok_emit_def p(1))
qed

section \<open>Definitions of connectives\<close>

definition ldef :: "logic \<Rightarrow> ptref \<Rightarrow> (ptref \<Rightarrow> bool) \<Rightarrow> bool" where
  "ldef L p \<tau> \<longleftrightarrow> \<tau> p = bconn L (getSymRef L p) (map \<tau> (targs L p))"

lemma emitted_args: "emitted S S' cs \<Longrightarrow> targs (cn_logic S') t = targs (cn_logic S) t"
  using same_termsD(4) [OF emittedD(2)] .

lemma binary_args:
  assumes "linv L" "bterm L t" "getSymRef L t \<in> {sym_XOR L, sym_EQ L, sym_IMPLIES L}"
  obtains x y where "targs L t = [x, y]" "bterm L x" "bterm L y"
proof -
  have tn: "t < nterms L"
    using assms(2) by (simp add: bterm_def)
  have "getSymRef L t \<in> insert (sym_NOT L) (conn_syms L)"
    using assms(3) by (auto simp: conn_syms_def)
  then have a: "\<forall>a \<in> set (targs L t). bterm L a"
    using conn_args [OF assms(1) tn conn_boolop] by blast
  obtain x y where "targs L t = [x, y]"
    using conn_length(2) [OF assms(1) tn assms(3)] by (auto simp: length_Suc_conv eval_nat_numeral)
  with a that show ?thesis
    by simp
qed

lemma three_lits:
  assumes "cinv S" "bterm (cn_logic S) t" "bterm (cn_logic S) x" "bterm (cn_logic S) y"
  obtains v a0 a1 S1 S2 S3 where "getOrCreateLit S t = Inr (v, S1)" "getOrCreateLit S1 x = Inr (a0, S2)"
    "getOrCreateLit S2 y = Inr (a1, S3)" "emitted S S1 []" "emitted S S2 []" "emitted S S3 []"
    "lmeans S3 v (\<lambda>\<tau>. \<tau> t)" "lmeans S3 a0 (\<lambda>\<tau>. \<tau> x)" "lmeans S3 a1 (\<lambda>\<tau>. \<tau> y)"
proof -
  obtain v S1 where v: "getOrCreateLit S t = Inr (v, S1)" "emitted S S1 []" "lmeans S1 v (\<lambda>\<tau>. \<tau> t)"
    using new_lit [OF assms(1,2)] by blast
  have x: "bterm (cn_logic S1) x"
    using assms(3) emitted_bterm [OF v(2)] by simp
  obtain a0 S2 where a0: "getOrCreateLit S1 x = Inr (a0, S2)" "emitted S1 S2 []" "lmeans S2 a0 (\<lambda>\<tau>. \<tau> x)"
    using new_lit [OF emittedD(1) [OF v(2)] x] by blast
  have y: "bterm (cn_logic S2) y"
    using assms(4) emitted_bterm [OF v(2)] emitted_bterm [OF a0(2)] by simp
  obtain a1 S3 where a1: "getOrCreateLit S2 y = Inr (a1, S3)" "emitted S2 S3 []" "lmeans S3 a1 (\<lambda>\<tau>. \<tau> y)"
    using new_lit [OF emittedD(1) [OF a0(2)] y] by blast
  have e2: "emitted S S2 []"
    using emitted_trans [OF v(2) a0(2)] by simp
  have "emitted S S3 []"
    using emitted_trans [OF e2 a1(2)] by simp
  then show ?thesis
    by (rule that [OF v(1) a0(1) a1(1) v(2) e2 _ lmeans_mono [OF a1(2) lmeans_mono [OF a0(2) v(3)]]
        lmeans_mono [OF a1(2) a0(3)] a1(3)])
qed

lemma cnfizeXor_ok:
  assumes "cinv S" "bterm (cn_logic S) t" "isXor (cn_logic S) t"
  shows "ok_emit A (ldef (cn_logic S) t) True S (cnfizeXor A t S)"
proof -
  note inv = cinv_linv [OF assms(1)]
  obtain x y where xy: "targs (cn_logic S) t = [x, y]" "bterm (cn_logic S) x" "bterm (cn_logic S) y"
    using binary_args [OF inv assms(2)] assms(3) by (auto simp: isXor_def)
  obtain v a0 a1 S1 S2 S3 where l: "getOrCreateLit S t = Inr (v, S1)" "getOrCreateLit S1 x = Inr (a0, S2)"
      "getOrCreateLit S2 y = Inr (a1, S3)" "emitted S S1 []" "emitted S S2 []" "emitted S S3 []"
      "lmeans S3 v (\<lambda>\<tau>. \<tau> t)" "lmeans S3 a0 (\<lambda>\<tau>. \<tau> x)" "lmeans S3 a1 (\<lambda>\<tau>. \<tau> y)"
    using three_lits [OF assms(1,2) xy(2,3)] .
  let ?cs = "[[lit_not v, a0, a1], [lit_not v, lit_not a0, lit_not a1], [v, lit_not a0, a1], [v, a0, lit_not a1]]"
  let ?\<phi>s = "[\<lambda>\<tau>. \<not> \<tau> t \<or> \<tau> x \<or> \<tau> y, \<lambda>\<tau>. \<not> \<tau> t \<or> \<not> \<tau> x \<or> \<not> \<tau> y, \<lambda>\<tau>. \<tau> t \<or> \<not> \<tau> x \<or> \<tau> y, \<lambda>\<tau>. \<tau> t \<or> \<tau> x \<or> \<not> \<tau> y]"
  have "list_all2 (cmeans S3) ?cs ?\<phi>s"
    using l(7-9) by (simp only: list_all2_Cons list_all2_Nil simp_thms) (intro conjI clause_intros)
  then have "ok_emit A (\<lambda>\<tau>. \<forall>\<phi> \<in> set ?\<phi>s. \<phi> \<tau>) True S (add_clauses A ?cs True S3)"
    by (intro ok_emit_after [OF l(6)] add_clauses_ok emittedD(1) [OF l(6)])
  then have "ok_emit A (ldef (cn_logic S) t) True S (add_clauses A ?cs True S3)"
    by (rule ok_emit_cong) (use assms(3) in \<open>auto simp: ldef_def bconn_def xy isXor_def linv_neq [OF inv]\<close>)
  then show ?thesis
    using l(1-3) xy(1) emitted_args [OF l(4)] by (simp add: cnfizeXor_def Let_def)
qed

lemma cnfizeIff_ok:
  assumes "cinv S" "bterm (cn_logic S) t" "isIff (cn_logic S) t"
  shows "ok_emit A (ldef (cn_logic S) t) True S (cnfizeIff A t S)"
proof -
  note inv = cinv_linv [OF assms(1)]
  obtain x y where xy: "targs (cn_logic S) t = [x, y]" "bterm (cn_logic S) x" "bterm (cn_logic S) y"
    using binary_args [OF inv assms(2)] assms(3) by (auto simp: isIff_def)
  obtain v a0 a1 S1 S2 S3 where l: "getOrCreateLit S t = Inr (v, S1)" "getOrCreateLit S1 x = Inr (a0, S2)"
      "getOrCreateLit S2 y = Inr (a1, S3)" "emitted S S1 []" "emitted S S2 []" "emitted S S3 []"
      "lmeans S3 v (\<lambda>\<tau>. \<tau> t)" "lmeans S3 a0 (\<lambda>\<tau>. \<tau> x)" "lmeans S3 a1 (\<lambda>\<tau>. \<tau> y)"
    using three_lits [OF assms(1,2) xy(2,3)] .
  let ?cs = "[[lit_not v, a0, lit_not a1], [lit_not v, lit_not a0, a1], [v, a0, a1], [v, lit_not a0, lit_not a1]]"
  let ?\<phi>s = "[\<lambda>\<tau>. \<not> \<tau> t \<or> \<tau> x \<or> \<not> \<tau> y, \<lambda>\<tau>. \<not> \<tau> t \<or> \<not> \<tau> x \<or> \<tau> y, \<lambda>\<tau>. \<tau> t \<or> \<tau> x \<or> \<tau> y, \<lambda>\<tau>. \<tau> t \<or> \<not> \<tau> x \<or> \<not> \<tau> y]"
  have "list_all2 (cmeans S3) ?cs ?\<phi>s"
    using l(7-9) by (simp only: list_all2_Cons list_all2_Nil simp_thms) (intro conjI clause_intros)
  then have "ok_emit A (\<lambda>\<tau>. \<forall>\<phi> \<in> set ?\<phi>s. \<phi> \<tau>) True S (add_clauses A ?cs True S3)"
    by (intro ok_emit_after [OF l(6)] add_clauses_ok emittedD(1) [OF l(6)])
  then have "ok_emit A (ldef (cn_logic S) t) True S (add_clauses A ?cs True S3)"
    by (rule ok_emit_cong) (use assms(3) in \<open>auto simp: ldef_def bconn_def xy isIff_def linv_neq [OF inv]\<close>)
  then show ?thesis
    using l(1-3) xy(1) emitted_args [OF l(4)] emitted_args [OF l(5)] by (simp add: cnfizeIff_def)
qed

lemma cnfizeImplies_ok:
  assumes "cinv S" "bterm (cn_logic S) t" "isImplies (cn_logic S) t"
  shows "ok_emit A (ldef (cn_logic S) t) True S (cnfizeImplies A t S)"
proof -
  note inv = cinv_linv [OF assms(1)]
  obtain x y where xy: "targs (cn_logic S) t = [x, y]" "bterm (cn_logic S) x" "bterm (cn_logic S) y"
    using binary_args [OF inv assms(2)] assms(3) by (auto simp: isImplies_def)
  obtain v a0 a1 S1 S2 S3 where l: "getOrCreateLit S t = Inr (v, S1)" "getOrCreateLit S1 x = Inr (a0, S2)"
      "getOrCreateLit S2 y = Inr (a1, S3)" "emitted S S1 []" "emitted S S2 []" "emitted S S3 []"
      "lmeans S3 v (\<lambda>\<tau>. \<tau> t)" "lmeans S3 a0 (\<lambda>\<tau>. \<tau> x)" "lmeans S3 a1 (\<lambda>\<tau>. \<tau> y)"
    using three_lits [OF assms(1,2) xy(2,3)] .
  let ?cs = "[[v, a0], [v, lit_not a1], [lit_not v, lit_not a0, a1]]"
  let ?\<phi>s = "[\<lambda>\<tau>. \<tau> t \<or> \<tau> x, \<lambda>\<tau>. \<tau> t \<or> \<not> \<tau> y, \<lambda>\<tau>. \<not> \<tau> t \<or> \<not> \<tau> x \<or> \<tau> y]"
  have "list_all2 (cmeans S3) ?cs ?\<phi>s"
    using l(7-9) by (simp only: list_all2_Cons list_all2_Nil simp_thms) (intro conjI clause_intros)
  then have "ok_emit A (\<lambda>\<tau>. \<forall>\<phi> \<in> set ?\<phi>s. \<phi> \<tau>) True S (add_clauses A ?cs True S3)"
    by (intro ok_emit_after [OF l(6)] add_clauses_ok emittedD(1) [OF l(6)])
  then have "ok_emit A (ldef (cn_logic S) t) True S (add_clauses A ?cs True S3)"
    by (rule ok_emit_cong) (use assms(3) in \<open>auto simp: ldef_def bconn_def xy isImplies_def linv_neq [OF inv]\<close>)
  then show ?thesis
    using l(1-3) xy(1) emitted_args [OF l(4)] emitted_args [OF l(5)] by (simp add: cnfizeImplies_def)
qed

section \<open>Conjunction and disjunction\<close>

lemma cnfizeAnd_loop_ok:
  assumes "cinv S" "\<forall>a \<in> set args. bterm (cn_logic S) a" "lmeans S v (\<lambda>\<tau>. \<tau> t)" "cmeans S big \<beta>"
  shows "\<exists>big' r S'. cnfizeAnd_loop A v args big res S = Inr (big', r, S') \<and>
    emits A (\<lambda>\<tau>. \<forall>a \<in> set args. \<tau> t \<longrightarrow> \<tau> a) res S r S' \<and> cmeans S' big' (\<lambda>\<tau>. \<beta> \<tau> \<or> (\<exists>a \<in> set args. \<not> \<tau> a))"
  using assms
proof (induction args arbitrary: big res S \<beta>)
  case Nil
  then show ?case
    by (simp add: emits_silent emitted_refl)
next
  case (Cons a args)
  have "bterm (cn_logic S) a"
    using Cons.prems(2) by simp
  then obtain l S1 where l: "getOrCreateLit S a = Inr (l, S1)" "emitted S S1 []" "lmeans S1 l (\<lambda>\<tau>. \<tau> a)"
      "getOrCreateLit S1 a = Inr (l, S1)"
    using new_lit [OF Cons.prems(1)] by blast
  have "cmeans S1 [lit_not v, l] (\<lambda>\<tau>. \<not> \<tau> t \<or> \<tau> a)"
    using lmeans_mono [OF l(2) Cons.prems(3)] l(3) by (intro clause_intros)
  then obtain b S2 where b: "addClause A [lit_not v, l] S1 = Inr (b, S2)" "emits A (\<lambda>\<tau>. \<not> \<tau> t \<or> \<tau> a) True S1 b S2"
    using addClause_ok [OF emittedD(1) [OF l(2)]] by blast
  obtain ds where ds: "emitted S1 S2 ds"
    using emitsD [OF b(2)] .
  note e = emitted_trans [OF l(2) ds]
  have bt: "\<forall>a \<in> set args. bterm (cn_logic S2) a"
    using Cons.prems(2) emitted_bterm [OF e] by simp
  have "cmeans S2 (big @ [lit_not l]) (\<lambda>\<tau>. \<beta> \<tau> \<or> \<not> \<tau> a)"
    using cmeans_append [OF cmeans_mono [OF e Cons.prems(4)] cmeans1 [OF lmeans_not [OF lmeans_mono [OF ds l(3)]]]] .
  then obtain big' r S' where r: "cnfizeAnd_loop A v args (big @ [lit_not l]) (res \<and> b) S2 = Inr (big', r, S')"
      "emits A (\<lambda>\<tau>. \<forall>a \<in> set args. \<tau> t \<longrightarrow> \<tau> a) (res \<and> b) S2 r S'"
      "cmeans S' big' (\<lambda>\<tau>. (\<beta> \<tau> \<or> \<not> \<tau> a) \<or> (\<exists>a \<in> set args. \<not> \<tau> a))"
    using Cons.IH [OF emits_linv [OF b(2)] bt lmeans_mono [OF e Cons.prems(3)]] by blast
  have "emits A (\<lambda>\<tau>. \<forall>a \<in> set (a # args). \<tau> t \<longrightarrow> \<tau> a) res S r S'"
    using emits_after [OF l(2) emits_trans [OF emits_res [OF b(2)] r(2)]] by (rule emits_cong) auto
  moreover have "cmeans S' big' (\<lambda>\<tau>. \<beta> \<tau> \<or> (\<exists>a \<in> set (a # args). \<not> \<tau> a))"
    using r(3) by (rule cmeans_cong) auto
  ultimately show ?case
    using l b(1) r(1) by simp
qed

lemma cnfizeAnd_ok:
  assumes "cinv S" "bterm (cn_logic S) t" "isAnd (cn_logic S) t"
  shows "ok_emit A (ldef (cn_logic S) t) True S (cnfizeAnd A t S)"
proof -
  note inv = cinv_linv [OF assms(1)]
  obtain v S1 where v: "getOrCreateLit S t = Inr (v, S1)" "emitted S S1 []" "lmeans S1 v (\<lambda>\<tau>. \<tau> t)"
    using new_lit [OF assms(1,2)] by blast
  have args: "\<forall>a \<in> set (targs (cn_logic S) t). bterm (cn_logic S1) a"
    using boolop_args(1) [OF inv assms(2)] assms(3) emitted_bterm [OF v(2)] by simp
  obtain big r S2 where r: "cnfizeAnd_loop A v (targs (cn_logic S) t) [v] True S1 = Inr (big, r, S2)"
      "emits A (\<lambda>\<tau>. \<forall>a \<in> set (targs (cn_logic S) t). \<tau> t \<longrightarrow> \<tau> a) True S1 r S2"
      "cmeans S2 big (\<lambda>\<tau>. \<tau> t \<or> (\<exists>a \<in> set (targs (cn_logic S) t). \<not> \<tau> a))"
    using cnfizeAnd_loop_ok [OF emittedD(1) [OF v(2)] args v(3) cmeans1 [OF v(3)]] by blast
  obtain b S3 where b: "addClause A big S2 = Inr (b, S3)"
      "emits A (\<lambda>\<tau>. \<tau> t \<or> (\<exists>a \<in> set (targs (cn_logic S) t). \<not> \<tau> a)) True S2 b S3"
    using addClause_ok [OF emits_linv [OF r(2)] r(3)] .
  have "emits A (ldef (cn_logic S) t) True S (r \<and> b) S3"
    using emits_after [OF v(2) emits_trans [OF r(2) emits_res [OF b(2)]]]
    by (rule emits_cong) (use assms(3) in \<open>auto simp: ldef_def bconn_def isAnd_def linv_neq [OF inv]\<close>)
  then show ?thesis
    using v(1) r(1) b(1) emitted_args [OF v(2)] by (auto simp: cnfizeAnd_def ok_emit_def)
qed

lemma cnfizeOr_loop_ok:
  assumes "cinv S" "\<forall>a \<in> set args. bterm (cn_logic S) a" "lmeans S v (\<lambda>\<tau>. \<tau> t)" "cmeans S big \<beta>"
  shows "\<exists>big' r S'. cnfizeOr_loop A v args big res S = Inr (big', r, S') \<and>
    emits A (\<lambda>\<tau>. \<forall>a \<in> set args. \<tau> a \<longrightarrow> \<tau> t) res S r S' \<and> cmeans S' big' (\<lambda>\<tau>. \<beta> \<tau> \<or> (\<exists>a \<in> set args. \<tau> a))"
  using assms
proof (induction args arbitrary: big res S \<beta>)
  case Nil
  then show ?case
    by (simp add: emits_silent emitted_refl)
next
  case (Cons a args)
  have "bterm (cn_logic S) a"
    using Cons.prems(2) by simp
  then obtain l S1 where l: "getOrCreateLit S a = Inr (l, S1)" "emitted S S1 []" "lmeans S1 l (\<lambda>\<tau>. \<tau> a)"
    using new_lit [OF Cons.prems(1)] by blast
  have "cmeans S1 [v, lit_not l] (\<lambda>\<tau>. \<tau> t \<or> \<not> \<tau> a)"
    using lmeans_mono [OF l(2) Cons.prems(3)] l(3) by (intro clause_intros)
  then obtain b S2 where b: "addClause A [v, lit_not l] S1 = Inr (b, S2)" "emits A (\<lambda>\<tau>. \<tau> t \<or> \<not> \<tau> a) True S1 b S2"
    using addClause_ok [OF emittedD(1) [OF l(2)]] by blast
  obtain ds where ds: "emitted S1 S2 ds"
    using emitsD [OF b(2)] .
  note e = emitted_trans [OF l(2) ds]
  have bt: "\<forall>a \<in> set args. bterm (cn_logic S2) a"
    using Cons.prems(2) emitted_bterm [OF e] by simp
  have "cmeans S2 (big @ [l]) (\<lambda>\<tau>. \<beta> \<tau> \<or> \<tau> a)"
    using cmeans_append [OF cmeans_mono [OF e Cons.prems(4)] cmeans1 [OF lmeans_mono [OF ds l(3)]]] .
  then obtain big' r S' where r: "cnfizeOr_loop A v args (big @ [l]) (res \<and> b) S2 = Inr (big', r, S')"
      "emits A (\<lambda>\<tau>. \<forall>a \<in> set args. \<tau> a \<longrightarrow> \<tau> t) (res \<and> b) S2 r S'"
      "cmeans S' big' (\<lambda>\<tau>. (\<beta> \<tau> \<or> \<tau> a) \<or> (\<exists>a \<in> set args. \<tau> a))"
    using Cons.IH [OF emits_linv [OF b(2)] bt lmeans_mono [OF e Cons.prems(3)]] by blast
  have "emits A (\<lambda>\<tau>. \<forall>a \<in> set (a # args). \<tau> a \<longrightarrow> \<tau> t) res S r S'"
    using emits_after [OF l(2) emits_trans [OF emits_res [OF b(2)] r(2)]] by (rule emits_cong) auto
  moreover have "cmeans S' big' (\<lambda>\<tau>. \<beta> \<tau> \<or> (\<exists>a \<in> set (a # args). \<tau> a))"
    using r(3) by (rule cmeans_cong) auto
  ultimately show ?case
    using l b(1) r(1) by simp
qed

lemma cnfizeOr_ok:
  assumes "cinv S" "bterm (cn_logic S) t" "isOr (cn_logic S) t"
  shows "ok_emit A (ldef (cn_logic S) t) True S (cnfizeOr A t True S)"
    and "ok_emit A (\<lambda>\<tau>. \<exists>a \<in> set (targs (cn_logic S) t). \<tau> a) True S (cnfizeOr A t False S)"
proof -
  note inv = cinv_linv [OF assms(1)]
  have bt: "\<forall>a \<in> set (targs (cn_logic S) t). bterm (cn_logic S) a"
    using boolop_args(1) [OF inv assms(2)] assms(3) by simp
  obtain v S1 where v: "getOrCreateLit S t = Inr (v, S1)" "emitted S S1 []" "lmeans S1 v (\<lambda>\<tau>. \<tau> t)"
    using new_lit [OF assms(1,2)] by blast
  have args: "\<forall>a \<in> set (targs (cn_logic S) t). bterm (cn_logic S1) a"
    using bt emitted_bterm [OF v(2)] by simp
  obtain big r S2 where r: "cnfizeOr_loop A v (targs (cn_logic S) t) [lit_not v] True S1 = Inr (big, r, S2)"
      "emits A (\<lambda>\<tau>. \<forall>a \<in> set (targs (cn_logic S) t). \<tau> a \<longrightarrow> \<tau> t) True S1 r S2"
      "cmeans S2 big (\<lambda>\<tau>. \<not> \<tau> t \<or> (\<exists>a \<in> set (targs (cn_logic S) t). \<tau> a))"
    using cnfizeOr_loop_ok [OF emittedD(1) [OF v(2)] args v(3) cmeans1 [OF lmeans_not [OF v(3)]]] by blast
  obtain b S3 where b: "addClause A big S2 = Inr (b, S3)"
      "emits A (\<lambda>\<tau>. \<not> \<tau> t \<or> (\<exists>a \<in> set (targs (cn_logic S) t). \<tau> a)) True S2 b S3"
    using addClause_ok [OF emits_linv [OF r(2)] r(3)] .
  have "emits A (ldef (cn_logic S) t) True S (r \<and> b) S3"
    using emits_after [OF v(2) emits_trans [OF r(2) emits_res [OF b(2)]]]
    by (rule emits_cong) (use assms(3) in \<open>auto simp: ldef_def bconn_def isOr_def linv_neq [OF inv]\<close>)
  then show "ok_emit A (ldef (cn_logic S) t) True S (cnfizeOr A t True S)"
    using v(1) r(1) b(1) emitted_args [OF v(2)] by (auto simp: cnfizeOr_def ok_emit_def)
  obtain ls S4 where "create_lits (targs (cn_logic S) t) S = Inr (ls, S4)" "emitted S S4 []"
      "cmeans S4 ls (\<lambda>\<tau>. \<exists>a \<in> set (targs (cn_logic S) t). \<tau> a)"
    using create_lits_ok [OF assms(1) bt] by blast
  then show "ok_emit A (\<lambda>\<tau>. \<exists>a \<in> set (targs (cn_logic S) t). \<tau> a) True S (cnfizeOr A t False S)"
    using ok_emit_after addClause_emit emittedD(1) by (fastforce simp: cnfizeOr_def)
qed

end
