(* ===== verification/Cnf_Correct.thy ===== *)
theory Cnf_Correct
  imports Cnf_Define
begin

text \<open>
  The walk of \<open>Tseitin::declare\<close> over a formula, the three ways a top-level formula is
  given to the solver, and their composition in the main routine.
\<close>

section \<open>Definitions of a set of terms\<close>

definition defs :: "logic \<Rightarrow> ptref set \<Rightarrow> (ptref \<Rightarrow> bool) \<Rightarrow> bool" where
  "defs L W \<tau> \<longleftrightarrow> (\<forall>p \<in> W. getSymRef L p \<in> conn_syms L \<longrightarrow> ldef L p \<tau>)"

lemma defs_Un [simp]: "defs L (V \<union> W) \<tau> \<longleftrightarrow> defs L V \<tau> \<and> defs L W \<tau>"
  by (auto simp: defs_def)

lemma defs_empty [simp]: "defs L {} \<tau>"
  by (simp add: defs_def)

lemma defs_insert: "defs L (insert p W) \<tau> \<longleftrightarrow> (getSymRef L p \<in> conn_syms L \<longrightarrow> ldef L p \<tau>) \<and> defs L W \<tau>"
  by (simp add: defs_def)

lemma same_terms_ldef: "same_terms L L' \<Longrightarrow> ldef L' p = ldef L p"
  by (simp add: ldef_def bconn_def same_termsD same_terms_frame fun_eq_iff)

lemma same_terms_conn: "same_terms L L' \<Longrightarrow> conn_syms L' = conn_syms L"
  by (simp add: conn_syms_def same_terms_frame)

lemma same_terms_defs: "same_terms L L' \<Longrightarrow> defs L' W = defs L W"
  by (rule ext) (simp add: defs_def same_terms_ldef same_terms_conn same_termsD)

lemma same_terms_bval: "same_terms L L' \<Longrightarrow> bval L' \<alpha> t = bval L \<alpha> t"
proof (induction t rule: less_induct)
  case (less t)
  have "bconn L' f bs = bconn L f bs" for f bs
    using less.prems by (simp add: bconn_def same_terms_frame)
  then show ?case
    using less same_termsD(3,4) [OF less.prems, of t]
    by (subst (1 2) bval.simps) (auto simp: same_terms_conn same_terms_frame [OF less.prems] intro!: arg_cong [where f = "bconn L _"])
qed

lemma descends_conn: "getSymRef L t \<in> insert (sym_NOT L) (conn_syms L) \<Longrightarrow> descends L t"
  by (auto simp: conn_syms_def descends_def isAnd_def isOr_def isXor_def isIff_def isImplies_def isNot_def)

lemma descends_cases:
  assumes "linv L" "no_distinct L" "bterm L t" "descends L t"
  shows "targs L t = [] \<or> getSymRef L t \<in> insert (sym_NOT L) (conn_syms L)"
  using assms(2-4) term_parts(2) [OF assms(1), of t]
  by (auto simp: conn_syms_def descends_def isAnd_def isOr_def isXor_def isIff_def isImplies_def isNot_def isDistinct_def
      isIte_def no_distinct_def bterm_def shape_ok_def)

lemma descends_args:
  assumes "linv L" "no_distinct L" "bterm L t" "descends L t"
  shows "\<forall>a \<in> set (targs L t). bterm L a \<and> a < t"
proof -
  have tn: "t < nterms L"
    using assms(3) by (simp add: bterm_def)
  show ?thesis
    using descends_cases [OF assms] conn_args [OF assms(1) tn conn_boolop] term_parts(1) [OF assms(1) tn] by auto
qed

text \<open>In a set closed under arguments whose members are defined, every member has the value of the formula.\<close>

lemma defs_bval:
  assumes "linv L" "lawful L \<tau>" "defs L W \<tau>" "\<forall>p \<in> W. bterm L p"
    and "\<forall>p \<in> W. descends L p \<longrightarrow> set (targs L p) \<subseteq> W"
  shows "p \<in> W \<Longrightarrow> bval L \<tau> p = \<tau> p"
proof (induction p rule: less_induct)
  case (less p)
  then have p: "bterm L p" "p < nterms L"
    using assms(4) by (auto simp: bterm_def)
  show ?case
  proof (cases "getSymRef L p \<in> insert (sym_NOT L) (conn_syms L)")
    case True
    have a: "a < p \<and> a \<in> W" if "a \<in> set (targs L p)" for a
      using descends_conn [OF True] less.prems assms(5) that term_parts(1) [OF assms(1) p(2)] by blast
    then have "map (bval L \<tau>) (targs L p) = map \<tau> (targs L p)"
      using less.IH by simp
    then have v: "bval L \<tau> p = bconn L (getSymRef L p) (map \<tau> (targs L p))"
      by (simp only: bval_conn [OF assms(1) p(2) True])
    show ?thesis
    proof (cases "isNot L p")
      case True
      then show ?thesis
        using v assms(2) p conn_length(1) [OF assms(1) p(2)] by (simp add: bconn_def isNot_def lawful_def)
    next
      case False
      then show ?thesis
        using v True less.prems assms(3) by (simp add: isNot_def defs_def ldef_def)
    qed
  qed (rule bval_atom)
qed

lemma same_terms_total: "same_terms L L' \<Longrightarrow> total L' ts = total L ts"
  by (simp add: same_terms_tsize cong: map_cong)

lemma same_terms_leaves: "same_terms L L' \<Longrightarrow> leaves L' f t = leaves L f t"
proof (induction t rule: less_induct)
  case (less t)
  then show ?case
    by (subst (1 2) leaves.simps) (auto simp: same_termsD intro!: arg_cong [where f = concat])
qed

lemma same_terms_forms:
  assumes "same_terms L L'"
  shows "litp L' t = litp L t" "clause_form L' t = clause_form L t" "cnf_form L' t = cnf_form L t"
proof -
  have l: "litp L' t = litp L t" for t
    by (simp add: litp_def same_terms_pure [OF assms] same_termsD [OF assms] same_terms_queries [OF assms]
        isEquality_def isBooleanOperator_def same_terms_frame [OF assms])
  then have c: "clause_form L' t = clause_form L t" for t
    by (simp add: clause_form_def same_terms_leaves [OF assms] same_terms_frame [OF assms])
  show "litp L' t = litp L t" "clause_form L' t = clause_form L t" "cnf_form L' t = cnf_form L t"
    using l c by (simp_all add: cnf_form_def same_terms_leaves [OF assms] same_terms_frame [OF assms])
qed

section \<open>The walk\<close>

lemma define_term_ok:
  assumes "cinv S" "no_distinct (cn_logic S)" "bterm (cn_logic S) p"
  shows "ok_emit A (defs (cn_logic S) {p}) True S (define_term A p True S)"
proof -
  let ?L = "cn_logic S"
  note inv = cinv_linv [OF assms(1)]
  have n: "\<not> isDistinct ?L p" "\<not> isIte ?L p"
    using assms(2,3) term_parts(2) [OF inv, of p]
    by (auto simp: no_distinct_def bterm_def shape_ok_def isDistinct_def isIte_def)
  have conn: "getSymRef ?L p \<in> conn_syms ?L \<longleftrightarrow> isAnd ?L p \<or> isOr ?L p \<or> isXor ?L p \<or> isIff ?L p \<or> isImplies ?L p"
    by (auto simp: conn_syms_def isAnd_def isOr_def isXor_def isIff_def isImplies_def)
  have "defs ?L {p} = (if getSymRef ?L p \<in> conn_syms ?L then ldef ?L p else (\<lambda>_. True))"
    by (auto simp: defs_def)
  then show ?thesis
    using n cnfizeAnd_ok [OF assms(1,3)] cnfizeOr_ok(1) [OF assms(1,3)] cnfizeXor_ok [OF assms(1,3)]
      cnfizeIff_ok [OF assms(1,3)] cnfizeImplies_ok [OF assms(1,3)] emits_silent [OF emitted_refl [OF assms(1)]]
    by (auto simp: define_term_def Let_def conn ok_emit_def)
qed

lemma same_terms_no_distinct: "same_terms L L' \<Longrightarrow> no_distinct L' = no_distinct L"
  by (simp add: no_distinct_def same_termsD same_terms_frame)

lemma same_terms_descends: "same_terms L L' \<Longrightarrow> descends L' p = descends L p"
  by (simp add: descends_def same_termsD same_terms_queries)

text \<open>
  What a walk has done: the terms of \<open>W\<close> are defined, with those defined before it is
  closed under arguments, and it contains the terms it started from.
\<close>

definition walked :: "logic \<Rightarrow> ptref set \<Rightarrow> ptref set \<Rightarrow> ptref set \<Rightarrow> bool" where
  "walked L st old W \<longleftrightarrow> (\<forall>p \<in> W. bterm L p) \<and> st \<subseteq> old \<union> W \<and>
     (\<forall>p \<in> W. descends L p \<longrightarrow> set (targs L p) \<subseteq> old \<union> W)"

lemma declare_loop_ok:
  assumes "cinv S" "no_distinct (cn_logic S)" "\<forall>p \<in> set st. bterm (cn_logic S) p"
    and "\<forall>f. rt = Some f \<longrightarrow> (\<forall>p \<in> set st. p < f)"
  shows "\<exists>r S' W. declare_loop A rt st old res S = Some (Inr (r, S')) \<and>
    emits A (defs (cn_logic S) W) res S r S' \<and> walked (cn_logic S) (set st) old W"
  using assms
proof (induction "total (cn_logic S) st" arbitrary: st old res S rule: less_induct)
  case less
  let ?L = "cn_logic S"
  note inv = cinv_linv [OF less.prems(1)]
  show ?case
  proof (cases st)
    case Nil
    have "emits A (defs ?L {}) res S res S"
      using emits_silent [OF emitted_refl [OF less.prems(1)]] by (rule emits_cong) simp
    then show ?thesis
      using Nil by (subst declare_loop.simps) (auto simp: walked_def)
  next
    case (Cons p rest)
    have p: "bterm ?L p" and rt: "Some p \<noteq> rt"
      using less.prems(3,4) Cons by auto
    show ?thesis
    proof (cases "p \<in> old")
      case True
      have "total ?L rest < total ?L st"
        using Cons by simp
      from less.hyps [OF this less.prems(1,2), of old res]
      obtain r S' W where "declare_loop A rt rest old res S = Some (Inr (r, S'))"
          "emits A (defs ?L W) res S r S'" "walked ?L (set rest) old W"
        using less.prems(3,4) Cons by auto
      then show ?thesis
        using True Cons by (subst declare_loop.simps) (auto simp: walked_def)
    next
      case False
      obtain b S1 where b: "define_term A p True S = Inr (b, S1)" "emits A (defs ?L {p}) True S b S1"
        using define_term_ok [OF less.prems(1,2) p, of A] by (auto simp: ok_emit_def)
      note st1 = emits_same [OF b(2)]
      let ?st = "if descends ?L p then rev (targs ?L p) @ rest else rest"
      have args: "\<forall>a \<in> set (targs ?L p). bterm ?L a \<and> a < p" if "descends ?L p"
        using descends_args [OF inv less.prems(2) p that] .
      have "tsize ?L p = Suc (total ?L (targs ?L p))"
        using tsize_linv [OF inv] p by (simp add: bterm_def)
      then have "total (cn_logic S1) ?st < total ?L st"
        using Cons by (simp add: same_terms_total [OF st1])
      moreover have "\<forall>q \<in> set ?st. bterm (cn_logic S1) q"
        using args less.prems(3) Cons same_terms_bterm [OF st1] by auto
      moreover have "\<forall>f. rt = Some f \<longrightarrow> (\<forall>q \<in> set ?st. q < f)"
        using args less.prems(4) Cons by (auto intro: less_trans)
      ultimately obtain r S' W where W: "declare_loop A rt ?st (insert p old) (res \<and> b) S1 = Some (Inr (r, S'))"
          "emits A (defs (cn_logic S1) W) (res \<and> b) S1 r S'" "walked (cn_logic S1) (set ?st) (insert p old) W"
        using less.hyps [of S1 ?st "insert p old" "res \<and> b"] emits_linv [OF b(2)] less.prems(2)
          same_terms_no_distinct [OF st1] by blast
      have "emits A (defs ?L (insert p W)) res S r S'"
        using emits_trans [OF emits_res [OF b(2)] W(2)] by (rule emits_cong) (simp add: same_terms_defs [OF st1] defs_def)
      moreover have "walked ?L (set st) old (insert p W)"
        using W(3) p Cons same_terms_bterm [OF st1] same_terms_descends [OF st1] same_termsD(4) [OF st1]
        by (auto simp: walked_def split: if_splits)
      ultimately show ?thesis
        using False Cons rt b(1) W(1) same_terms_descends [OF st1] same_termsD(4) [OF st1]
        by (subst declare_loop.simps) auto
    qed
  qed
qed

lemma declare_terms_ok:
  assumes "cinv S" "no_distinct (cn_logic S)" "\<forall>p \<in> set ts. bterm (cn_logic S) p"
  obtains r S' W where "declare_terms A ts None S = Inr (r, S')"
    "emits A (defs (cn_logic S) W) True S r S'" "\<forall>p \<in> W. bterm (cn_logic S) p"
  using declare_loop_ok [OF assms(1,2), of "rev ts" None A "{}" True] assms(3)
  unfolding declare_terms_def by (auto simp: walked_def)

section \<open>The ways a formula is given to the solver\<close>

text \<open>A step after which the new clauses say that the formula holds, given definitions.\<close>

definition asserts :: "(lit list list \<Rightarrow> bool) \<Rightarrow> ptref set \<Rightarrow> bool \<Rightarrow> cnf \<Rightarrow> (bool \<times> cnf) result \<Rightarrow> bool" where
  "asserts A fs res S R \<longleftrightarrow> (\<exists>r S' W. R = Inr (r, S') \<and> (\<forall>p \<in> W. bterm (cn_logic S) p) \<and>
     emits A (\<lambda>\<tau>. defs (cn_logic S) W \<tau> \<and> (\<forall>f \<in> fs. bval (cn_logic S) \<tau> f)) res S r S')"

lemma assertsI:
  assumes "ok_emit A \<phi> res S R" "\<And>\<tau>. lawful (cn_logic S) \<tau> \<Longrightarrow> \<phi> \<tau> = bval (cn_logic S) \<tau> f"
  shows "asserts A {f} res S R"
proof -
  obtain r S' where r: "R = Inr (r, S')" "emits A \<phi> res S r S'"
    using assms(1) by (auto simp: ok_emit_def)
  have "emits A (\<lambda>\<tau>. defs (cn_logic S) {} \<tau> \<and> (\<forall>f \<in> {f}. bval (cn_logic S) \<tau> f)) res S r S'"
    using r(2) by (rule emits_cong) (simp add: assms(2) same_terms_lawful [OF emits_same [OF r(2)]])
  with r(1) show ?thesis
    unfolding asserts_def by (intro exI [of _ r] exI [of _ S'] exI [of _ "{}"]) simp
qed

lemma lits_emit:
  assumes "cinv S" "\<forall>t \<in> set ts. bterm (cn_logic S) t"
  shows "ok_emit A (\<lambda>\<tau>. \<exists>t \<in> set ts. \<tau> t) True S (rbind (create_lits ts S) (\<lambda>(ls, S1). addClause A ls S1))"
    and "ok_emit A (\<lambda>\<tau>. \<exists>t \<in> set ts. \<not> \<tau> t) True S (rbind (create_lits ts S) (\<lambda>(ls, S1). addClause A (map lit_not ls) S1))"
proof -
  obtain ls S1 where l: "create_lits ts S = Inr (ls, S1)" "emitted S S1 []"
      "cmeans S1 ls (\<lambda>\<tau>. \<exists>t \<in> set ts. \<tau> t)" "cmeans S1 (map lit_not ls) (\<lambda>\<tau>. \<exists>t \<in> set ts. \<not> \<tau> t)"
    using create_lits_ok [OF assms] by blast
  show "ok_emit A (\<lambda>\<tau>. \<exists>t \<in> set ts. \<tau> t) True S (rbind (create_lits ts S) (\<lambda>(ls, S1). addClause A ls S1))"
    "ok_emit A (\<lambda>\<tau>. \<exists>t \<in> set ts. \<not> \<tau> t) True S (rbind (create_lits ts S) (\<lambda>(ls, S1). addClause A (map lit_not ls) S1))"
    using ok_emit_after [OF l(2) addClause_emit [OF emittedD(1) [OF l(2)] l(3), of A]]
      ok_emit_after [OF l(2) addClause_emit [OF emittedD(1) [OF l(2)] l(4), of A]] l(1) by simp_all
qed

lemma leaf_lits:
  assumes "linv L" "bterm L f" "lawful L \<tau>" "s \<in> {sym_AND L, sym_OR L}" "\<forall>l \<in> set (leaves L s f). litp L l"
  shows "\<forall>l \<in> set (leaves L s f). bval L \<tau> l = \<tau> l"
  using litp_bval [OF assms(1) _ _ assms(3)] leaves_props [OF assms(1,4,2)] assms(5) by blast

lemma deMorganize_ok:
  assumes "cinv S" "bterm (cn_logic S) f" "isNot (cn_logic S) f" "isAnd (cn_logic S) (targs (cn_logic S) f ! 0)"
    and "\<forall>l \<in> set (leaves (cn_logic S) (sym_AND (cn_logic S)) (targs (cn_logic S) f ! 0)). litp (cn_logic S) l"
  shows "asserts A {f} True S (deMorganize A f S)"
proof -
  let ?L = "cn_logic S" and ?a = "targs (cn_logic S) f ! 0"
  note inv = cinv_linv [OF assms(1)]
  let ?ls = "leaves ?L (sym_AND ?L) ?a"
  have a: "bterm ?L ?a" and fn: "f < nterms ?L"
    using isNot_arg(1) [OF inv assms(2,3)] assms(2) by (simp_all add: bterm_def)
  have "conjuncts_loop ?L [?a] [] = Some (Inr ?ls)"
    using conjuncts_loop_ok [OF inv, of "[?a]" "[]"] a assms(5) by simp
  then have "retrieveConjuncts ?L ?a = Inr ?ls"
    by (simp add: retrieveConjuncts_def)
  moreover have "\<not> isAnd ?L f"
    using assms(3) linv_neq [OF inv] by (simp add: isAnd_def isNot_def)
  ultimately have d: "deMorganize A f S = rbind (create_lits ?ls S) (\<lambda>(ls, S1). addClause A (map lit_not ls) S1)"
    using assms(3,4) by (simp add: deMorganize_def Let_def)
  have bt: "\<forall>l \<in> set ?ls. bterm ?L l"
    using leaves_props [OF inv _ a, of "sym_AND ?L"] by simp
  show ?thesis
    unfolding d
  proof (rule assertsI [OF lits_emit(2) [OF assms(1) bt]])
    show "(\<exists>t \<in> set ?ls. \<not> \<tau> t) = bval ?L \<tau> f" if "lawful ?L \<tau>" for \<tau>
      using leaf_lits [OF inv a that _ assms(5)] bval_and_leaves [OF inv a, of \<tau>] bval_simps(1) [OF inv fn assms(3)] by simp
  qed
qed

lemma giveToSolver_loop_ok:
  assumes "cinv S" "\<forall>f \<in> set fs. bterm (cn_logic S) f \<and> clause_form (cn_logic S) f"
  shows "\<exists>r S' gs. giveToSolver_loop A fs S = Some (Inr (r, S')) \<and> gs \<subseteq> set fs \<and> (r \<longrightarrow> gs = set fs) \<and>
    (fs \<noteq> [] \<longrightarrow> hd fs \<in> gs) \<and>
    emits A (\<lambda>\<tau>. \<forall>f \<in> gs. bval (cn_logic S) \<tau> f) True S r S'"
  using assms
proof (induction fs arbitrary: S)
  case Nil
  then show ?case
    by (subst giveToSolver_loop.simps) (simp add: emits_silent emitted_refl ex_bool_eq)
next
  case (Cons f fs)
  let ?L = "cn_logic S"
  note inv = cinv_linv [OF Cons.prems(1)]
  have f: "bterm ?L f" "f < nterms ?L" "\<forall>l \<in> set (leaves ?L (sym_OR ?L) f). litp ?L l"
    using Cons.prems(2) by (auto simp: bterm_def clause_form_def)
  let ?ls = "leaves ?L (sym_OR ?L) f"
  have lits: "(if litp ?L f then Inr [f] else retrieveClause ?L f) = Inr ?ls"
    using litp_leaf(2) [OF inv f(1), of "sym_OR ?L"] clause_loop_ok [OF inv, of "[f]" "[]"] f
    by (simp add: retrieveClause_def)
  have lor: "litp ?L f \<or> isOr ?L f"
    using f(3) by (auto simp: leaves_linv [OF inv f(2)] isOr_def split: if_splits)
  have bt: "\<forall>l \<in> set ?ls. bterm ?L l"
    using leaves_props [OF inv _ f(1), of "sym_OR ?L"] by simp
  obtain b S1 where b: "rbind (create_lits ?ls S) (\<lambda>(ls, S1). addClause A ls S1) = Inr (b, S1)"
      "emits A (\<lambda>\<tau>. \<exists>t \<in> set ?ls. \<tau> t) True S b S1"
    using lits_emit(1) [OF Cons.prems(1) bt, of A] by (auto simp: ok_emit_def)
  note st = emits_same [OF b(2)]
  have e: "emits A (\<lambda>\<tau>. bval ?L \<tau> f) True S b S1"
    using b(2)
  proof (rule emits_cong)
    show "(\<exists>t \<in> set ?ls. \<tau> t) = bval ?L \<tau> f" if "lawful (cn_logic S1) \<tau>" for \<tau>
      using leaf_lits [OF inv f(1) _ _ f(3), of \<tau>] bval_or_leaves [OF inv f(1), of \<tau>] that same_terms_lawful [OF st] by simp
  qed
  have step: "giveToSolver_loop A (f # fs) S = (if b then giveToSolver_loop A fs S1 else Some (Inr (False, S1)))"
    using lor lits b(1) by (subst giveToSolver_loop.simps) (simp add: isLit_linv [OF inv f(1)])
  show ?case
  proof (cases b)
    case True
    have "\<forall>g \<in> set fs. bterm (cn_logic S1) g \<and> clause_form (cn_logic S1) g"
      using Cons.prems(2) by (simp add: same_terms_bterm [OF st] same_terms_forms [OF st])
    then obtain r S' gs where r: "giveToSolver_loop A fs S1 = Some (Inr (r, S'))" "gs \<subseteq> set fs" "r \<longrightarrow> gs = set fs"
        "emits A (\<lambda>\<tau>. \<forall>g \<in> gs. bval (cn_logic S1) \<tau> g) True S1 r S'"
      using Cons.IH [OF emits_linv [OF b(2)]] by blast
    have "emits A (\<lambda>\<tau>. \<forall>g \<in> insert f gs. bval ?L \<tau> g) True S r S'"
      using emits_trans [OF e [unfolded eqTrueI [OF True]] r(4)] by (simp add: same_terms_bval [OF st])
    then show ?thesis
      using r(1-3) step True
      by (intro exI [of _ r] exI [of _ S'] exI [of _ "insert f gs"]) (simp add: subset_insertI2)
  next
    case False
    then show ?thesis
      using e step by (intro exI [of _ False] exI [of _ S1] exI [of _ "{f}"]) simp
  qed
qed

lemma giveToSolver_clause:
  assumes "cinv S" "bterm (cn_logic S) f" "clause_form (cn_logic S) f"
  shows "asserts A {f} True S (giveToSolver A f S)"
proof -
  obtain r S' gs where r: "giveToSolver_loop A [f] S = Some (Inr (r, S'))" "gs \<subseteq> {f}" "f \<in> gs"
      "emits A (\<lambda>\<tau>. \<forall>f \<in> gs. bval (cn_logic S) \<tau> f) True S r S'"
    using giveToSolver_loop_ok [OF assms(1), of "[f]" A] assms(2,3) by auto
  then have "gs = {f}"
    by blast
  with r(1,4) show ?thesis
    by (intro assertsI [of A "\<lambda>\<tau>. \<forall>f \<in> gs. bval (cn_logic S) \<tau> f"]) (simp_all add: ok_emit_def giveToSolver_def)
qed

text \<open>A conjunction of clauses: the clauses up to the first that is refused.\<close>

lemma giveToSolver_conj:
  assumes "cinv S" "bterm (cn_logic S) f" "cnf_form (cn_logic S) f" "isAnd (cn_logic S) f"
  obtains r S' gs where "giveToSolver A f S = Inr (r, S')" "gs \<subseteq> set (leaves (cn_logic S) (sym_AND (cn_logic S)) f)"
    "r \<longrightarrow> gs = set (leaves (cn_logic S) (sym_AND (cn_logic S)) f)"
    "emits A (\<lambda>\<tau>. \<forall>g \<in> gs. bval (cn_logic S) \<tau> g) True S r S'"
proof -
  let ?L = "cn_logic S"
  note inv = cinv_linv [OF assms(1)]
  obtain fs where fs: "retrieveTopLevelFormulae ?L f = Some fs" "set fs = set (leaves ?L (sym_AND ?L) f)"
    using retrieveTopLevelFormulae_ok [OF inv assms(2)] .
  have "\<forall>g \<in> set fs. bterm ?L g \<and> clause_form ?L g"
    using leaves_props [OF inv _ assms(2), of "sym_AND ?L"] assms(3) fs(2) by (auto simp: cnf_form_def)
  then obtain r S' gs where r: "giveToSolver_loop A fs S = Some (Inr (r, S'))" "gs \<subseteq> set fs" "r \<longrightarrow> gs = set fs"
      "emits A (\<lambda>\<tau>. \<forall>g \<in> gs. bval ?L \<tau> g) True S r S'"
    using giveToSolver_loop_ok [OF assms(1), of fs A] by blast
  have "\<not> litp ?L f"
    using litp_leaf(1) [OF inv assms(2), of "sym_AND ?L"] assms(4) by (auto simp: isAnd_def)
  moreover have "\<not> isOr ?L f"
    using assms(4) linv_neq [OF inv] by (simp add: isAnd_def isOr_def)
  ultimately have "giveToSolver_loop A [f] S = giveToSolver_loop A fs S"
    using assms(4) fs(1) by (subst giveToSolver_loop.simps) (simp add: isLit_linv [OF inv assms(2)])
  with r fs(2) show ?thesis
    by (intro that) (simp_all add: giveToSolver_def)
qed

section \<open>Tseitin\<close>

lemma emits_weaken: "emits A \<phi> True S r S' \<Longrightarrow> emits A \<phi> res S r S'"
  by (auto simp: emits_def)

text \<open>The walk from the root, which is visited once and not marked.\<close>

lemma declare_root:
  assumes "cinv S" "no_distinct (cn_logic S)" "bterm (cn_logic S) f"
    and "define_term A f False S = Inr (b, S1)" "emits A \<phi> True S b S1"
  obtains r S' W where "declare_terms A [f] (Some f) S = Inr (r, S')"
    "emits A (\<lambda>\<tau>. \<phi> \<tau> \<and> defs (cn_logic S) W \<tau>) True S r S'"
    "walked (cn_logic S) (if descends (cn_logic S) f then set (targs (cn_logic S) f) else {}) {} W"
proof -
  let ?L = "cn_logic S"
  let ?st = "if descends ?L f then rev (targs ?L f) else []"
  note st = emits_same [OF assms(5)]
  have args: "\<forall>p \<in> set ?st. bterm ?L p \<and> p < f"
    using descends_args [OF cinv_linv [OF assms(1)] assms(2,3)] by simp
  have bt: "\<forall>p \<in> set ?st. bterm (cn_logic S1) p" and lt: "\<forall>g. Some f = Some g \<longrightarrow> (\<forall>p \<in> set ?st. p < g)"
    and nd: "no_distinct (cn_logic S1)"
    using args assms(2) by (simp_all add: same_terms_bterm [OF st] same_terms_no_distinct [OF st])
  obtain r S' W where W: "declare_loop A (Some f) ?st {} b S1 = Some (Inr (r, S'))"
      "emits A (defs (cn_logic S1) W) b S1 r S'" "walked (cn_logic S1) (set ?st) {} W"
    using declare_loop_ok [OF emits_linv [OF assms(5)] nd bt lt, of A "{}" b] by blast
  have "declare_loop A (Some f) [f] {} True S = declare_loop A (Some f) ?st {} b S1"
    using assms(4) by (subst declare_loop.simps) (simp add: same_terms_descends [OF st] same_termsD [OF st])
  then have "declare_terms A [f] (Some f) S = Inr (r, S')"
    using W(1) by (simp add: declare_terms_def)
  moreover have "emits A (\<lambda>\<tau>. \<phi> \<tau> \<and> defs ?L W \<tau>) True S r S'"
    using emits_trans [OF assms(5) W(2)] by (simp add: same_terms_defs [OF st])
  moreover have "walked ?L (if descends ?L f then set (targs ?L f) else {}) {} W"
    using W(3) by (cases "descends ?L f")
      (simp_all add: walked_def same_terms_bterm [OF st] same_terms_descends [OF st] same_termsD [OF st])
  ultimately show ?thesis
    by (rule that)
qed

lemma assertsI_defs:
  assumes "R = Inr (r, S')" "\<forall>p \<in> W. bterm (cn_logic S) p" "emits A \<phi> res S r S'"
    and "\<And>\<tau>. lawful (cn_logic S) \<tau> \<Longrightarrow> \<phi> \<tau> = (defs (cn_logic S) W \<tau> \<and> bval (cn_logic S) \<tau> f)"
  shows "asserts A {f} res S R"
proof -
  have "emits A (\<lambda>\<tau>. defs (cn_logic S) W \<tau> \<and> (\<forall>g \<in> {f}. bval (cn_logic S) \<tau> g)) res S r S'"
    using assms(3) by (rule emits_cong) (simp add: assms(4) same_terms_lawful [OF emits_same [OF assms(3)]])
  with assms(1,2) show ?thesis
    unfolding asserts_def by blast
qed

lemma cnfize_or:
  assumes "cinv S" "no_distinct (cn_logic S)" "bterm (cn_logic S) f" "isOr (cn_logic S) f"
  shows "asserts A {f} True S (cnfize A f S)"
proof -
  let ?L = "cn_logic S"
  note inv = cinv_linv [OF assms(1)]
  have d: "descends ?L f" and a: "\<not> isAnd ?L f" and fn: "f < nterms ?L"
    using assms(3,4) linv_neq [OF inv] by (simp_all add: descends_def isAnd_def isOr_def bterm_def)
  obtain b S1 where b: "cnfizeOr A f False S = Inr (b, S1)" "emits A (\<lambda>\<tau>. \<exists>a \<in> set (targs ?L f). \<tau> a) True S b S1"
    using cnfizeOr_ok(2) [OF assms(1,3,4), of A] by (auto simp: ok_emit_def)
  have "define_term A f False S = Inr (b, S1)"
    using a assms(4) b(1) by (simp add: define_term_def)
  then obtain r S' W where W: "declare_terms A [f] (Some f) S = Inr (r, S')"
      "emits A (\<lambda>\<tau>. (\<exists>a \<in> set (targs ?L f). \<tau> a) \<and> defs ?L W \<tau>) True S r S'" "walked ?L (set (targs ?L f)) {} W"
    using declare_root [OF assms(1-3) _ b(2)] d by auto
  have w: "\<forall>p \<in> W. bterm ?L p" "set (targs ?L f) \<subseteq> W" "\<forall>p \<in> W. descends ?L p \<longrightarrow> set (targs ?L p) \<subseteq> W"
    using W(3) by (simp_all add: walked_def)
  have "cnfize A f S = Inr (r, S')"
    using a assms(4) W(1) by (simp add: cnfize_def)
  then show ?thesis
  proof (rule assertsI_defs [OF _ w(1) W(2)])
    show "((\<exists>a \<in> set (targs ?L f). \<tau> a) \<and> defs ?L W \<tau>) = (defs ?L W \<tau> \<and> bval ?L \<tau> f)" if "lawful ?L \<tau>" for \<tau>
    proof (cases "defs ?L W \<tau>")
      case True
      then have "bval ?L \<tau> a = \<tau> a" if "a \<in> set (targs ?L f)" for a
        using defs_bval [OF inv \<open>lawful ?L \<tau>\<close> True w(1,3)] w(2) that by blast
      then show ?thesis
        using True by (simp add: bval_simps(3) [OF inv fn assms(4)])
    qed simp
  qed
qed

lemma cnfize_other:
  assumes "cinv S" "no_distinct (cn_logic S)" "bterm (cn_logic S) f" "\<not> isAnd (cn_logic S) f" "\<not> isOr (cn_logic S) f"
  shows "asserts A {f} True S (cnfize A f S)"
proof -
  let ?L = "cn_logic S"
  note inv = cinv_linv [OF assms(1)]
  obtain l S0 where l: "getOrCreateLit S f = Inr (l, S0)" "emitted S S0 []" "lmeans S0 l (\<lambda>\<tau>. \<tau> f)"
    using new_lit [OF assms(1,3)] by blast
  obtain c S1 where c: "addClause A [l] S0 = Inr (c, S1)" "emits A (\<lambda>\<tau>. \<tau> f) True S0 c S1"
    using addClause_ok [OF emittedD(1) [OF l(2)] cmeans1 [OF l(3)]] .
  note e0 = emits_after [OF l(2) c(2)]
  note st = emits_same [OF e0]
  have S1: "cinv S1" "no_distinct (cn_logic S1)" "bterm (cn_logic S1) f" "\<not> isOr (cn_logic S1) f"
    using emits_linv [OF e0] assms by (simp_all add: same_terms_no_distinct [OF st] same_terms_bterm [OF st] same_terms_queries [OF st])
  obtain b S2 where b: "define_term A f True S1 = Inr (b, S2)" "emits A (defs (cn_logic S1) {f}) True S1 b S2"
    using define_term_ok [OF S1(1-3), of A] by (auto simp: ok_emit_def)
  have "define_term A f False S1 = Inr (b, S2)"
    using b(1) S1(4) by (simp add: define_term_def Let_def cong: if_cong)
  then obtain r S' W where W: "declare_terms A [f] (Some f) S1 = Inr (r, S')"
      "emits A (\<lambda>\<tau>. defs (cn_logic S1) {f} \<tau> \<and> defs (cn_logic S1) W \<tau>) True S1 r S'"
      "walked (cn_logic S1) (if descends (cn_logic S1) f then set (targs (cn_logic S1) f) else {}) {} W"
    using declare_root [OF S1(1-3) _ b(2)] by blast
  let ?W = "insert f W"
  have w: "\<forall>p \<in> ?W. bterm ?L p" "\<forall>p \<in> ?W. descends ?L p \<longrightarrow> set (targs ?L p) \<subseteq> ?W"
    using W(3) assms(3) by (auto simp: walked_def same_terms_bterm [OF st] same_terms_descends [OF st] same_termsD [OF st] split: if_splits)
  have e: "emits A (\<lambda>\<tau>. \<tau> f \<and> (defs (cn_logic S1) {f} \<tau> \<and> defs (cn_logic S1) W \<tau>)) True S r S'"
    using emits_trans [OF e0 emits_weaken [OF W(2)]] .
  have "cnfize A f S = Inr (r, S')"
    using assms(4,5) l(1) c(1) W(1) by (simp add: cnfize_def)
  then show ?thesis
  proof (rule assertsI_defs [OF _ w(1) e])
    show "(\<tau> f \<and> (defs (cn_logic S1) {f} \<tau> \<and> defs (cn_logic S1) W \<tau>)) = (defs ?L ?W \<tau> \<and> bval ?L \<tau> f)" if "lawful ?L \<tau>" for \<tau>
      using defs_bval [OF inv that _ w, of f] by (auto simp: same_terms_defs [OF st] defs_insert)
  qed
qed

lemma cnfize_top_ok:
  assumes "cinv S" "no_distinct (cn_logic S)" "bterm (cn_logic S) f" "\<not> isAnd (cn_logic S) f"
  shows "asserts A {f} True S (cnfize_top A f S)"
proof -
  let ?L = "cn_logic S"
  note inv = cinv_linv [OF assms(1)]
  obtain c1 where c1: "checkCnf ?L f = Some c1" "c1 \<Longrightarrow> cnf_form ?L f"
    using checkCnf_ok [OF inv assms(2,3)] by blast
  obtain c2 where c2: "checkClause ?L f = Some c2" "c2 \<Longrightarrow> isOr ?L f \<and> clause_form ?L f"
    using checkClause_ok [OF inv assms(2,3)] by blast
  obtain d where d: "checkDeMorgan ?L f = Some d" "d \<Longrightarrow> isNot ?L f \<and> isAnd ?L (targs ?L f ! 0) \<and>
      (\<forall>l \<in> set (leaves ?L (sym_AND ?L) (targs ?L f ! 0)). litp ?L l)"
    using checkDeMorgan_ok [OF inv assms(3)] by blast
  have "cnf_form ?L f \<Longrightarrow> clause_form ?L f"
    using assms(3,4) by (simp add: cnf_form_def leaves_linv [OF inv] isAnd_def bterm_def)
  then have give: "asserts A {f} True S (giveToSolver A f S)" if "c1 \<or> c2"
    using giveToSolver_clause [OF assms(1,3)] c1(2) c2(2) that by blast
  have "asserts A {f} True S (deMorganize A f S)" if "d"
    using deMorganize_ok [OF assms(1,3)] d(2) [OF that] by blast
  moreover have "asserts A {f} True S (cnfize A f S)"
    using cnfize_or [OF assms(1-3)] cnfize_other [OF assms] by blast
  ultimately show ?thesis
    using c1(1) c2(1) d(1) give by (simp add: cnfize_top_def Let_def)
qed

end
