(* ===== verification/Cnf_Main.thy ===== *)
theory Cnf_Main
  imports Cnf_Correct
begin

text \<open>
  The main routine of \<open>Cnfizer\<close>: the clauses the solver has before and after a formula
  was given to it, the constants fixed by \<open>initialize\<close>, and the frame literal.
\<close>

section \<open>All top-level formulas\<close>

lemma top_loop_False: "top_loop A fs False S = Inr (False, S)"
  by (cases fs) simp_all

lemma top_loop_ok:
  assumes "cinv S" "no_distinct (cn_logic S)" "\<forall>f \<in> set fs. bterm (cn_logic S) f \<and> \<not> isAnd (cn_logic S) f"
  shows "\<exists>r S' W gs. top_loop A fs True S = Inr (r, S') \<and> (\<forall>p \<in> W. bterm (cn_logic S) p) \<and> gs \<subseteq> set fs \<and>
    (r \<longrightarrow> gs = set fs) \<and> emits A (\<lambda>\<tau>. defs (cn_logic S) W \<tau> \<and> (\<forall>g \<in> gs. bval (cn_logic S) \<tau> g)) True S r S'"
  using assms
proof (induction fs arbitrary: S)
  case Nil
  have "emits A (\<lambda>\<tau>. defs (cn_logic S) {} \<tau> \<and> (\<forall>g \<in> {}. bval (cn_logic S) \<tau> g)) True S True S"
    using emits_silent [OF emitted_refl [OF Nil.prems(1)]] by (rule emits_cong) simp
  then show ?case
    by (intro exI [of _ True] exI [of _ S] exI [of _ "{}"]) simp
next
  case (Cons f fs)
  let ?L = "cn_logic S"
  have f: "bterm ?L f" "\<not> isAnd ?L f"
    using Cons.prems(3) by simp_all
  obtain b S1 W1 where b: "cnfize_top A f S = Inr (b, S1)" "\<forall>p \<in> W1. bterm ?L p"
      "emits A (\<lambda>\<tau>. defs ?L W1 \<tau> \<and> (\<forall>f \<in> {f}. bval ?L \<tau> f)) True S b S1"
    using cnfize_top_ok [OF Cons.prems(1,2) f, of A] unfolding asserts_def by blast
  note st = emits_same [OF b(3)]
  show ?case
  proof (cases b)
    case True
    have "\<forall>f \<in> set fs. bterm (cn_logic S1) f \<and> \<not> isAnd (cn_logic S1) f"
      using Cons.prems(3) by (simp add: same_terms_bterm [OF st] same_terms_queries [OF st])
    then obtain r S' W gs where r: "top_loop A fs True S1 = Inr (r, S')" "\<forall>p \<in> W. bterm ?L p" "gs \<subseteq> set fs"
        "r \<longrightarrow> gs = set fs" "emits A (\<lambda>\<tau>. defs ?L W \<tau> \<and> (\<forall>g \<in> gs. bval ?L \<tau> g)) True S1 r S'"
      using Cons.IH [OF emits_linv [OF b(3)]] Cons.prems(2)
      unfolding same_terms_no_distinct [OF st] same_terms_bterm [OF st] same_terms_defs [OF st] same_terms_bval [OF st]
      by blast
    have "emits A (\<lambda>\<tau>. defs ?L (W1 \<union> W) \<tau> \<and> (\<forall>g \<in> insert f gs. bval ?L \<tau> g)) True S r S'"
      using emits_trans [OF b(3) [unfolded eqTrueI [OF True]] r(5)] by (rule emits_cong) auto
    then show ?thesis
      using b(1,2) r(1-4) True
      by (intro exI [of _ r] exI [of _ S'] exI [of _ "W1 \<union> W"] exI [of _ "insert f gs"]) auto
  next
    case False
    then show ?thesis
      using b by (intro exI [of _ False] exI [of _ S1] exI [of _ W1] exI [of _ "{f}"]) (simp add: top_loop_False)
  qed
qed

section \<open>Fields the clauses do not depend on\<close>

lemma side_updates [simp]:
  "cinv (S\<lparr>s_empty := e\<rparr>) = cinv S" "cinv (S\<lparr>solver_vars := vs\<rparr>) = cinv S"
  by (simp_all add: cinv_def map_ok_def clauses_ok_def)

lemma emitted_side:
  "emitted S (S'\<lparr>s_empty := e\<rparr>) cs = emitted S S' cs" "emitted S (S'\<lparr>solver_vars := vs\<rparr>) cs = emitted S S' cs"
  by (simp_all add: emitted_def bindings_kept_def)

lemma declareVars_ok:
  assumes "cinv S" "\<forall>t \<in> set ts. bterm (cn_logic S) t"
  shows "\<exists>S'. declareVars ts S = Inr S' \<and> emitted S S' []"
  using assms
proof (induction ts arbitrary: S)
  case (Cons t ts)
  have "bterm (cn_logic S) t"
    using Cons.prems(2) by simp
  then obtain l S1 where l: "getOrCreateLit S t = Inr (l, S1)" "emitted S S1 []"
    using new_lit [OF Cons.prems(1)] by blast
  let ?S1 = "S1\<lparr>solver_vars := solver_vars S1 @ [lit_var l]\<rparr>"
  have e: "emitted S ?S1 []"
    using l(2) by (simp add: emitted_side)
  then obtain S' where "declareVars ts ?S1 = Inr S'" "emitted ?S1 S' []"
    using Cons.IH [OF emittedD(1) [OF e]] Cons.prems(2) emitted_bterm [OF e] by auto
  then show ?case
    using l(1) emitted_trans [OF e, of S' "[]"] by simp
qed (simp add: emitted_refl)

section \<open>The main routine\<close>

text \<open>
  The outcomes, from the state after \<open>setFrameTerm\<close>: the solver is contradictory already;
  it refuses a clause of the formula; it refuses a definition of a nested Boolean term, which
  the code rules out by an assertion; or everything was accepted.
\<close>

definition cnf_outcome ::
    "(lit list list \<Rightarrow> bool) \<Rightarrow> (lit list list \<Rightarrow> bool) \<Rightarrow> ptref \<Rightarrow> cnf \<Rightarrow> (lbool \<times> cnf) result \<Rightarrow> bool" where
  "cnf_outcome A okay formula S R \<longleftrightarrow>
     (\<not> okay (sent S) \<and> R = Inr (l_False, S)) \<or>
     (\<exists>S' W gs. okay (sent S) \<and> R = Inr (l_False, S') \<and> (\<forall>p \<in> W. bterm (cn_logic S) p) \<and> refused A S' \<and>
        gs \<subseteq> set (leaves (cn_logic S) (sym_AND (cn_logic S)) formula) \<and>
        emits A (\<lambda>\<tau>. defs (cn_logic S) W \<tau> \<and> (\<forall>g \<in> gs. bval (cn_logic S) \<tau> g)) True S False S') \<or>
     (\<exists>S' W. okay (sent S) \<and> (R = Inr (l_Undef, S') \<or> R = Inl Assertion_Failed \<and> refused A S') \<and>
        (\<forall>p \<in> W. bterm (cn_logic S) p) \<and>
        emits A (\<lambda>\<tau>. defs (cn_logic S) W \<tau> \<and> bval (cn_logic S) \<tau> formula) True S (R \<noteq> Inl Assertion_Failed) S')"

lemma cnf_outcome_cases:
  assumes "cnf_outcome A okay f S R"
  obtains (conflict) "\<not> okay (sent S)" "R = Inr (l_False, S)"
  | (refusal) S' W gs where "R = Inr (l_False, S')" "\<forall>p \<in> W. bterm (cn_logic S) p" "refused A S'"
      "gs \<subseteq> set (leaves (cn_logic S) (sym_AND (cn_logic S)) f)"
      "emits A (\<lambda>\<tau>. defs (cn_logic S) W \<tau> \<and> (\<forall>g \<in> gs. bval (cn_logic S) \<tau> g)) True S False S'"
  | (accepted) S' W where "R = Inr (l_Undef, S')" "\<forall>p \<in> W. bterm (cn_logic S) p"
      "emits A (\<lambda>\<tau>. defs (cn_logic S) W \<tau> \<and> bval (cn_logic S) \<tau> f) True S True S'"
  | (failed) S' where "R = Inl Assertion_Failed" "refused A S'"
  using assms unfolding cnf_outcome_def
proof (elim disjE exE conjE)
  fix S' W
  assume "R = Inr (l_Undef, S')" "\<forall>p \<in> W. bterm (cn_logic S) p"
    "emits A (\<lambda>\<tau>. defs (cn_logic S) W \<tau> \<and> bval (cn_logic S) \<tau> f) True S (R \<noteq> Inl Assertion_Failed) S'"
  then show thesis
    by (intro accepted) simp_all
qed (erule (4) refusal conflict failed | erule (1) conflict failed)+

lemma emits_s_empty: "emits A \<phi> res S r S' \<Longrightarrow> emits A \<phi> res S r (S'\<lparr>s_empty := e\<rparr>)"
  by (simp add: emits_def emitted_side refused_def agrees_def fr_def)

lemma emits_refused: "emits A \<phi> True S False S' \<Longrightarrow> refused A S'"
  by (auto simp: emits_def)

lemma topLevel_formulas:
  assumes "linv L" "bterm L f"
  obtains fs where "retrieveTopLevelFormulae L f = Some fs" "set fs = set (leaves L (sym_AND L) f)"
    "\<forall>g \<in> set fs. bterm L g \<and> \<not> isAnd L g" "fs \<noteq> []"
proof -
  obtain fs where fs: "retrieveTopLevelFormulae L f = Some fs" "set fs = set (leaves L (sym_AND L) f)"
    using retrieveTopLevelFormulae_ok [OF assms] .
  have ne: "leaves L (sym_AND L) t \<noteq> []" if "bterm L t" for t
    using that
  proof (induction t rule: less_induct)
    case (less t)
    then have tn: "t < nterms L"
      by (simp add: bterm_def)
    show ?case
    proof (cases "isAnd L t")
      case True
      then have "isBooleanOperator L t"
        by (simp add: isAnd_def isBooleanOperator_def isBooleanOperator_sym_def)
      then obtain a where a: "a \<in> set (targs L t)"
        using conn_length(3) [OF assms(1) tn] by (cases "targs L t") auto
      then have "leaves L (sym_AND L) a \<noteq> []"
        using less.IH term_parts(1) [OF assms(1) tn] boolop_args(1) [OF assms(1) less.prems] True by blast
      with a True show ?thesis
        by (auto simp: leaves_linv [OF assms(1) tn] isAnd_def)
    qed (simp add: leaves_linv [OF assms(1) tn] isAnd_def)
  qed
  have "\<forall>g \<in> set fs. bterm L g \<and> \<not> isAnd L g"
    using leaves_props [OF assms(1) _ assms(2), of "sym_AND L"] fs(2) by (simp add: isAnd_def)
  moreover have "fs \<noteq> []"
    using ne [OF assms(2)] fs(2) by (metis set_empty)
  ultimately show ?thesis
    using fs that by blast
qed

lemma cnfize_main:
  assumes "cinv S1" "no_distinct (cn_logic S1)" "bterm (cn_logic S1) f" "setFrameTerm fid S = Inr S1"
  shows "cnf_outcome A okay f S1 (cnfizeAndGiveToSolver A okay f fid S)"
proof (cases "okay (sent S1)")
  case ok: True
  let ?L = "cn_logic S1"
  note inv = cinv_linv [OF assms(1)]
  obtain fs where fs: "retrieveTopLevelFormulae ?L f = Some fs" "set fs = set (leaves ?L (sym_AND ?L) f)"
      "\<forall>g \<in> set fs. bterm ?L g \<and> \<not> isAnd ?L g" "fs \<noteq> []"
    using topLevel_formulas [OF inv assms(3)] .
  obtain r S2 W gs where t: "top_loop A fs True S1 = Inr (r, S2)" "\<forall>p \<in> W. bterm ?L p" "gs \<subseteq> set fs"
      "r \<longrightarrow> gs = set fs" "emits A (\<lambda>\<tau>. defs ?L W \<tau> \<and> (\<forall>g \<in> gs. bval ?L \<tau> g)) True S1 r S2"
    using top_loop_ok [OF assms(1,2) fs(3), of A] by blast
  let ?S3 = "S2\<lparr>s_empty := False\<rparr>"
  note e3 = emits_s_empty [OF t(5), of False]
  let ?R = "cnfizeAndGiveToSolver A okay f fid S"
  show ?thesis
  proof (cases r)
    case False
    then have "?R = Inr (l_False, ?S3)"
      using assms(4) ok fs t(1) by (simp add: cnfizeAndGiveToSolver_def Let_def)
    moreover have e: "emits A (\<lambda>\<tau>. defs ?L W \<tau> \<and> (\<forall>g \<in> gs. bval ?L \<tau> g)) True S1 False ?S3"
      using e3 False by simp
    ultimately show ?thesis
      using t(2,3) fs(2) ok emits_refused [OF e] unfolding cnf_outcome_def
      by - (rule disjI2, rule disjI1, intro exI [of _ ?S3] exI [of _ W] exI [of _ gs], simp)
  next
    case True
    note st = emits_same [OF e3]
    have e4: "emits A (\<lambda>\<tau>. defs ?L W \<tau> \<and> bval ?L \<tau> f) True S1 True ?S3"
      using e3 [unfolded eqTrueI [OF True]] t(4) True fs(2) bval_and_leaves [OF inv assms(3)] by simp
    have i3: "cinv ?S3" "no_distinct (cn_logic ?S3)" "bterm (cn_logic ?S3) f"
      using emits_linv [OF e3] assms(2,3) same_terms_no_distinct [OF st] same_terms_bterm [OF st] by simp_all
    obtain roots where ro: "getNestedBoolRoots (cn_logic ?S3) f = Some roots" "\<forall>p \<in> set roots. bterm (cn_logic ?S3) p"
      using getNestedBoolRoots_ok [OF cinv_linv [OF i3(1)] i3(3)] .
    obtain r4 S4 V where d: "declare_terms A roots None ?S3 = Inr (r4, S4)"
        "emits A (defs (cn_logic ?S3) V) True ?S3 r4 S4" "\<forall>p \<in> V. bterm (cn_logic ?S3) p"
      using declare_terms_ok [OF i3(1,2) ro(2)] .
    have e5: "emits A (\<lambda>\<tau>. defs ?L (W \<union> V) \<tau> \<and> bval ?L \<tau> f) True S1 r4 S4"
      using emits_trans [OF e4 d(2)] unfolding same_terms_defs [OF st] by (rule emits_cong) auto
    have V: "\<forall>p \<in> W \<union> V. bterm ?L p"
      using t(2) d(3) same_terms_bterm [OF st] by auto
    obtain S5 where v: "declareVars (propFormulasAppearingInUF (cn_logic S4)) S4 = Inr S5" "emitted S4 S5 []"
      using declareVars_ok [OF emits_linv [OF d(2)]] emits_linv [OF d(2)] by (auto simp: cinv_def)
    have R: "?R = (if r4 then Inr (l_Undef, S5) else Inl Assertion_Failed)"
      using assms(4) ok fs t(1) True ro(1) d(1) v(1) by (simp add: cnfizeAndGiveToSolver_def Let_def)
    show ?thesis
    proof (cases r4)
      case True
      have "emits A (\<lambda>\<tau>. defs ?L (W \<union> V) \<tau> \<and> bval ?L \<tau> f) True S1 True S5"
        using emits_trans [OF e5 [unfolded eqTrueI [OF True]] emits_silent [OF v(2)]] by simp
      then show ?thesis
        using R True V ok unfolding cnf_outcome_def by (intro disjI2) (rule exI [of _ S5], rule exI [of _ "W \<union> V"], simp)
    next
      case False
      then show ?thesis
        using R V ok e5 emits_refused [of A _ S1 S4] unfolding cnf_outcome_def
        by (intro disjI2) (rule exI [of _ S4], rule exI [of _ "W \<union> V"], auto)
    qed
  qed
qed (use assms(4) in \<open>simp add: cnf_outcome_def cnfizeAndGiveToSolver_def\<close>)

end
