(* ===== verification/Cnf_Frames.thy ===== *)
theory Cnf_Frames
  imports Cnf_Main
begin

text \<open>
  Frames and initialisation: \<open>setFrameTerm\<close> makes a fresh variable for a frame, and
  \<open>initialize\<close> fixes the literals of the constants.
\<close>

section \<open>A fresh Boolean variable\<close>

lemma linv_interpreted [simp]: "linv (L\<lparr>interpreted_functions := x\<rparr>) = linv L"
  by (simp add: linv_def syms_ok_def hash_ok_def terms_ok_def shape_ok_def core_syms_def hasSortBool_sym_def
      hasSortBool_def getSortRef_def getSym_def getPterm_def getSymRef_def isBooleanOperator_sym_def isConstant_sym_def)

lemma extends_interpreted: "extends L L' \<Longrightarrow> extends L (L'\<lparr>interpreted_functions := x\<rparr>)"
  by (simp add: extends_def frame_def)

lemma insertTermHash_interpreted:
  "insertTermHash (L\<lparr>interpreted_functions := x\<rparr>) f ts =
   (fst (insertTermHash L f ts), (snd (insertTermHash L f ts))\<lparr>interpreted_functions := x\<rparr>)"
  by (simp add: insertTermHash_def Let_def getSym_def isBooleanOperator_sym_def split_beta)

lemma mkBoolVar_mkVar:
  assumes "mkVar L (sort_BOOL L) n = Inr (t, L')"
  shows "\<exists>x. mkBoolVar L n = Inr (Some t, L'\<lparr>interpreted_functions := x\<rparr>)"
proof -
  obtain sr L1 where "newSymb_logic L n [sort_BOOL L] = Inr (sr, L1)"
    using assms by (cases "newSymb_logic L n [sort_BOOL L]") (auto simp: mkVar_def)
  with assms show ?thesis
    by (auto simp: mkVar_def mkBoolVar_def declareFun_def Let_def split_beta mkFun_def insertTermHash_interpreted
        split: option.splits)
qed

lemma mkVar_prop_formulas: "mkVar L s n = Inr (t, L') \<Longrightarrow> propFormulasAppearingInUF L' = propFormulasAppearingInUF L"
  by (cases "newSymb (lg_syms L) n [s]")
    (auto simp: mkVar_def newSymb_logic_def Let_def mkFun_def insertTermHash_def newTerm_def split_beta addToCtermMap_def
      addToCplxMap_def addToBoolMap_def split: option.splits if_splits)

lemma mkBoolVar_fresh:
  assumes "linv L" "fresh_name L n" "n \<noteq> ''=''"
  obtains L' where "mkBoolVar L n = Inr (Some (nterms L), L')" "linv L'" "extends L L'" "nterms L' = Suc (nterms L)"
    "bterm L' (nterms L)" "getSymRef L' (nterms L) = nsyms L" "targs L' (nterms L) = []"
    "pt_var (getPterm L' (nterms L)) = None" "propFormulasAppearingInUF L' = propFormulasAppearingInUF L"
proof -
  obtain L1 L2 where L: "mkVar L (sort_BOOL L) n = Inr (nterms L, L2)" "new_symbol L n [sort_BOOL L] L1"
      "made L1 (nterms L) L2" "getSymRef L2 (nterms L) = nsyms L" "targs L2 (nterms L) = []" "linv L2" "extends L L2"
      "nterms L2 = Suc (nterms L)" "lg_syms L2 = lg_syms L1"
    using mkVar_fresh [OF assms] .
  obtain x where x: "mkBoolVar L n = Inr (Some (nterms L), L2\<lparr>interpreted_functions := x\<rparr>)"
    using mkBoolVar_mkVar [OF L(1)] by blast
  let ?L = "L2\<lparr>interpreted_functions := x\<rparr>"
  have "getSym L2 (nsyms L) = Symbol_ctor [sort_BOOL L]"
    using new_symbol_facts(3) [OF L(2)] L(9) by (simp add: getSym_def)
  then have "bterm L2 (nterms L)"
    using L(4,8) ext_frame [OF L(7)] by (simp add: bterm_def hasSortBool_def rsort_def Symbol_ctor_def)
  moreover have "pt_var (getPterm L2 (nterms L)) = None"
    using L(1,8) by (cases "newSymb (lg_syms L) n [sort_BOOL L]") (auto simp: mkVar_def newSymb_logic_def Let_def mkFun_def insertTermHash_def newTerm_def addToCtermMap_def
        getPterm_def term_at_def Pterm_ctor_def hasCtermKey_def split: prod.splits option.splits if_splits)
  ultimately show ?thesis
    using that [of ?L] x L extends_interpreted [OF L(7)] mkVar_prop_formulas [OF L(1)]
    by (simp add: bterm_def hasSortBool_def getSym_def getSymRef_def getPterm_def)
qed

section \<open>The frame term\<close>

definition frames_ok :: "cnf \<Rightarrow> bool" where
  "frames_ok S \<longleftrightarrow> frame_terms S \<noteq> [] \<and> frame_terms S ! 0 = term_TRUE (cn_logic S) \<and>
     (\<forall>t \<in> set (frame_terms S). bterm (cn_logic S) t)"

text \<open>The frame has a term already, or its name is not in use.\<close>

definition frame_ready :: "nat \<Rightarrow> cnf \<Rightarrow> bool" where
  "frame_ready i S \<longleftrightarrow> frames_ok S \<and> (i = 0 \<or> i < length (frame_terms S) \<and> frame_terms S ! i \<noteq> term_TRUE (cn_logic S) \<or>
     fresh_name (cn_logic S) (frame_name i))"

text \<open>The state before and after: no clause and no binding is new.\<close>

definition framed :: "nat \<Rightarrow> cnf \<Rightarrow> cnf \<Rightarrow> bool" where
  "framed i S S' \<longleftrightarrow> cinv S' \<and> frames_ok S' \<and> extends (cn_logic S) (cn_logic S') \<and> sent S' = sent S \<and>
     var_cnt S' = var_cnt S \<and> varToTerm S' = varToTerm S \<and> i < length (frame_terms S') \<and>
     frame_term S' = frame_terms S' ! i \<and> (i \<noteq> 0 \<longrightarrow> frame_term S' \<noteq> term_TRUE (cn_logic S')) \<and>
     (no_distinct (cn_logic S) \<longrightarrow> no_distinct (cn_logic S'))"

lemma ext_bterm: "extends L L' \<Longrightarrow> linv L \<Longrightarrow> bterm L t \<Longrightarrow> bterm L' t"
  using ext_sort(2) ext_nterms by (fastforce simp: bterm_def)

lemma cinv_extend:
  assumes "cinv S" "extends (cn_logic S) L'" "linv L'" "nterms L' = Suc (nterms (cn_logic S))"
    and "pt_var (getPterm L' (nterms (cn_logic S))) = None"
    and "propFormulasAppearingInUF L' = propFormulasAppearingInUF (cn_logic S)"
  shows "cinv (S\<lparr>cn_logic := L', frame_terms := fts\<rparr>)"
proof -
  let ?L = "cn_logic S"
  note inv = cinv_linv [OF assms(1)]
  have m: "map_ok S"
    using assms(1) by (simp add: cinv_def)
  have var: "getVar_of L' t = getVar_of ?L t" if "t < nterms ?L" for t
    using ext_term [OF assms(2) that] by (simp add: getVar_of_def)
  have new: "getVar_of L' (nterms ?L) = None"
    using assms(5) by (simp add: getVar_of_def)
  have "\<exists>t. varToTerm S ! v = Some t \<and> varToTheorySymbol S ! v = Some (getSymRef L' t) \<and> bterm L' t \<and> \<not> isNot L' t \<and>
      getVar_of L' t = Some v" if v: "v < var_cnt S" for v
  proof -
    obtain t where t: "varToTerm S ! v = Some t" "varToTheorySymbol S ! v = Some (getSymRef ?L t)" "bterm ?L t"
        "\<not> isNot ?L t" "getVar_of ?L t = Some v"
      using m v by (auto simp: map_ok_def)
    then have tn: "t < nterms ?L"
      by (simp add: bterm_def)
    then show ?thesis
      using t var ext_bterm [OF assms(2) inv t(3)] by (simp add: ext_symref [OF assms(2)] isNot_def ext_frame [OF assms(2)])
  qed
  moreover have "v < var_cnt S \<and> varToTerm S ! v = Some t" if "t < nterms L'" "getVar_of L' t = Some v" for t v
  proof -
    have "t < nterms ?L"
      using that new assms(4) by (cases "t = nterms ?L") simp_all
    then show ?thesis
      using m that(2) var by (simp add: map_ok_def)
  qed
  ultimately have "map_ok (S\<lparr>cn_logic := L', frame_terms := fts\<rparr>)"
    using m by (simp add: map_ok_def)
  then show ?thesis
    using assms(1,3,6) ext_bterm [OF assms(2) inv] by (simp add: cinv_def)
qed

lemma fresh_no_distinct:
  assumes "linv L" "extends L L'" "nterms L' = Suc (nterms L)" "getSymRef L' (nterms L) = nsyms L" "no_distinct L"
  shows "no_distinct L'"
proof -
  have "sym_DISTINCT L < nsyms L"
    using syms_ok_core(4) [OF linv_parts(1) [OF assms(1)]] syms_okD(5) [OF linv_parts(1) [OF assms(1)]] by blast
  then show ?thesis
    using assms by (auto simp: no_distinct_def less_Suc_eq ext_symref ext_frame)
qed

lemma frame_name_eq: "frame_name i \<noteq> ''=''"
  by (simp add: frame_name_def)

lemma setFrameTerm_ok:
  assumes "cinv S" "frame_ready i S"
  obtains S1 where "setFrameTerm i S = Inr S1" "framed i S S1"
proof -
  let ?L = "cn_logic S"
  note inv = cinv_linv [OF assms(1)]
  define fts where "fts = frame_terms S @ replicate (i + 1 - length (frame_terms S)) (term_TRUE ?L)"
  have set: "setFrameTerm i S =
      rbind (if i \<noteq> 0 \<and> fts ! i = term_TRUE ?L then
               rbind (deref (mkBoolVar ?L (frame_name i))) (\<lambda>(ft, L).
                 Inr (S\<lparr>cn_logic := L, frame_terms := fts[i := ft]\<rparr>))
             else Inr (S\<lparr>frame_terms := fts\<rparr>))
        (\<lambda>S1. Inr (S1\<lparr>frame_term := frame_terms S1 ! i\<rparr>))"
    by (simp only: setFrameTerm_def fts_def Let_def)
  have tt: "bterm ?L (term_TRUE ?L)"
    using denotes_TRUE [OF inv, where ?'a = nat] by (simp add: denotes_def)
  have fo: "frames_ok S" and len: "i < length fts"
    using assms(2) by (simp_all add: frame_ready_def fts_def)
  have b: "\<forall>t \<in> set fts. bterm ?L t"
    using fo tt by (auto simp: frames_ok_def fts_def)
  have f0: "fts ! 0 = term_TRUE ?L" "fts \<noteq> []"
    using fo by (simp_all add: frames_ok_def fts_def nth_append)
  show ?thesis
  proof (cases "i \<noteq> 0 \<and> fts ! i = term_TRUE ?L")
    case True
    then have "fresh_name ?L (frame_name i)"
      using assms(2) by (auto simp: frame_ready_def fts_def nth_append)
    then obtain L' where L': "mkBoolVar ?L (frame_name i) = Inr (Some (nterms ?L), L')" "linv L'" "extends ?L L'"
        "nterms L' = Suc (nterms ?L)" "bterm L' (nterms ?L)" "getSymRef L' (nterms ?L) = nsyms ?L"
        "pt_var (getPterm L' (nterms ?L)) = None" "propFormulasAppearingInUF L' = propFormulasAppearingInUF ?L"
      using mkBoolVar_fresh [OF inv _ frame_name_eq] by metis
    let ?S = "S\<lparr>cn_logic := L', frame_terms := fts[i := nterms ?L]\<rparr>"
    let ?S1 = "?S\<lparr>frame_term := nterms ?L\<rparr>"
    have "setFrameTerm i S = Inr ?S1"
      unfolding set using True L'(1) len by (simp add: deref_def)
    moreover have "cinv ?S"
      using cinv_extend [OF assms(1) L'(3,2,4,7,8)] .
    then have "cinv ?S1"
      using L'(5) by (simp add: cinv_def map_ok_def)
    moreover have "frames_ok ?S1"
      using f0 len True b ext_bterm [OF L'(3) inv] L'(5) set_update_subset_insert [of fts i "nterms ?L"]
      by (auto simp: frames_ok_def ext_frame [OF L'(3)] dest!: subsetD)
    moreover have "nterms ?L \<noteq> term_TRUE L'"
      using tt by (auto simp: ext_frame [OF L'(3)] bterm_def)
    ultimately show ?thesis
      using that [of ?S1] len L'(3) fresh_no_distinct [OF inv L'(3,4,6)] by (simp add: framed_def)
  next
    case False
    let ?S1 = "S\<lparr>frame_terms := fts, frame_term := fts ! i\<rparr>"
    have "setFrameTerm i S = Inr ?S1"
      unfolding set using False by auto
    moreover have "cinv ?S1"
      using assms(1) b len by (simp add: cinv_def map_ok_def)
    moreover have "frames_ok ?S1"
      using f0 b by (simp add: frames_ok_def)
    ultimately show ?thesis
      using that [of ?S1] len False by (auto simp: framed_def)
  qed
qed

section \<open>Initialisation\<close>

text \<open>The constants have variables, fixed by unit clauses.\<close>

definition consts_fixed :: "cnf \<Rightarrow> bool" where
  "consts_fixed S \<longleftrightarrow> (\<exists>v w. getVar_of (cn_logic S) (term_TRUE (cn_logic S)) = Some v \<and>
     getVar_of (cn_logic S) (term_FALSE (cn_logic S)) = Some w \<and> [mkLit v False] \<in> set (sent S) \<and> [mkLit w True] \<in> set (sent S))"

lemma consts_bterm:
  assumes "linv L"
  shows "bterm L (term_TRUE L)" "bterm L (term_FALSE L)" "pure_term L (term_TRUE L) = (term_TRUE L, False)"
    "pure_term L (term_FALSE L) = (term_FALSE L, False)"
  using denotes_TRUE [OF assms, where ?'a = nat] denotes_FALSE [OF assms, where ?'a = nat] linv_constants [OF assms]
    linv_neq [OF assms] by (simp_all add: denotes_def pure_term_def isNot_def)

lemma consts_fixed_mono:
  assumes "consts_fixed S" "cinv S" "emitted S S' cs"
  shows "consts_fixed S'"
  using assms consts_bterm [OF cinv_linv [OF assms(2)]] same_terms_frame [OF emittedD(2) [OF assms(3)]]
  unfolding consts_fixed_def emitted_def bindings_kept_def bterm_def by (metis UnCI set_append)

lemma consts_fixed_framed:
  assumes "consts_fixed S" "cinv S" "framed i S S'"
  shows "consts_fixed S'"
proof -
  have e: "extends (cn_logic S) (cn_logic S')" "sent S' = sent S"
    using assms(3) by (simp_all add: framed_def)
  show ?thesis
    using assms(1) consts_bterm [OF cinv_linv [OF assms(2)]]
    by (simp add: consts_fixed_def e(2) ext_frame [OF e(1)] getVar_of_def ext_term [OF e(1)] bterm_def)
qed

lemma unit_true:
  assumes "cinv S" "bterm (cn_logic S) t" "frame_term S = term_TRUE (cn_logic S)"
  obtains l S' where "getOrCreateLit S t = Inr (l, S')" "emitted S S' []" "lit_of (cn_logic S') t = l"
    "bound (cn_logic S') t" "lit_ok (var_cnt S') l"
    "\<And>c. addClause A c S' = Inr (A (sent S' @ [c]), S'\<lparr>sent := sent S' @ [c]\<rparr>)"
proof -
  obtain S' where S': "getOrCreateLit S t = Inr (lit_of (cn_logic S') t, S')" "emitted S S' []" "bound (cn_logic S') t"
    using getOrCreateLit_ok [OF assms(1,2)] by blast
  have "frame_term S' = term_TRUE (cn_logic S')"
    using assms(3) emittedD(4) [OF S'(2)] same_terms_frame [OF emittedD(2) [OF S'(2)]] by simp
  moreover have "lmeans S' (lit_of (cn_logic S') t) (\<lambda>\<tau>. \<tau> t)"
    using lmeans_lit [OF emittedD(1) [OF S'(2)] _ S'(3)] assms(2) emitted_bterm [OF S'(2)] by simp
  ultimately show ?thesis
    using S' that by (simp add: addClause_def lmeans_def)
qed

lemma initialize_ok:
  assumes "cinv S" "frame_term S = term_TRUE (cn_logic S)"
  obtains S' cs where "initialize A S = Inr S'" "emitted S S' cs" "consts_fixed S'" "\<forall>c \<in> set cs. length c \<le> 1"
    "\<forall>\<sigma> \<tau>. agrees \<sigma> \<tau> S' \<longrightarrow> lawful (cn_logic S') \<tau> \<longrightarrow> sat \<sigma> cs"
proof -
  let ?T = "term_TRUE (cn_logic S)" and ?F = "term_FALSE (cn_logic S)"
  note b = consts_bterm [OF cinv_linv [OF assms(1)]]
  obtain l S1 where l: "getOrCreateLit S ?T = Inr (l, S1)" "emitted S S1 []" "lit_of (cn_logic S1) ?T = l"
      "bound (cn_logic S1) ?T" "lit_ok (var_cnt S1) l" "\<And>c. addClause A c S1 = Inr (A (sent S1 @ [c]), S1\<lparr>sent := sent S1 @ [c]\<rparr>)"
    using unit_true [OF assms(1) b(1) assms(2)] by blast
  let ?S2 = "S1\<lparr>sent := sent S1 @ [[l]]\<rparr>"
  have e2: "emitted S ?S2 [[l]]"
    using sent_emitted [OF l(2), where c = "[l]"] l(5) by simp
  note fr2 = same_terms_frame [OF emittedD(2) [OF e2]]
  have "bterm (cn_logic ?S2) ?F" "frame_term ?S2 = term_TRUE (cn_logic ?S2)"
    using b(2) emitted_bterm [OF e2] assms(2) emittedD(4) [OF e2] fr2 by simp_all
  then obtain m S3 where m: "getOrCreateLit ?S2 ?F = Inr (m, S3)" "emitted ?S2 S3 []" "lit_of (cn_logic S3) ?F = m"
      "bound (cn_logic S3) ?F" "lit_ok (var_cnt S3) m" "\<And>c. addClause A c S3 = Inr (A (sent S3 @ [c]), S3\<lparr>sent := sent S3 @ [c]\<rparr>)"
    using unit_true [OF emittedD(1) [OF e2]] by blast
  let ?S4 = "S3\<lparr>sent := sent S3 @ [[lit_not m]]\<rparr>"
  have e3: "emitted S S3 [[l]]"
    using emitted_trans [OF e2 m(2)] by simp
  have e4: "emitted S ?S4 [[l], [lit_not m]]"
    using sent_emitted [OF e3, where c = "[lit_not m]"] m(5) by simp
  have fr1: "term_TRUE (cn_logic S1) = ?T" and fr4: "term_FALSE (cn_logic S1) = ?F" "term_TRUE (cn_logic S3) = ?T" "term_FALSE (cn_logic S3) = ?F"
    using same_terms_frame [OF emittedD(2) [OF l(2)]] same_terms_frame [OF emittedD(2) [OF e3]] by simp_all
  have "initialize A S = Inr ?S4"
    using l(1,6) m(1,6) fr4 by (simp add: initialize_def)
  moreover have "consts_fixed ?S4 \<and> (\<forall>\<sigma> \<tau>. agrees \<sigma> \<tau> ?S4 \<longrightarrow> lawful (cn_logic ?S4) \<tau> \<longrightarrow> sat \<sigma> [[l], [lit_not m]])"
  proof -
    have T1: "pure_term (cn_logic S1) ?T = (?T, False)" and F3: "pure_term (cn_logic S3) ?F = (?F, False)"
      using b(3,4) same_terms_pure [OF emittedD(2) [OF l(2)]] same_terms_pure [OF emittedD(2) [OF e3]] by simp_all
    obtain v where v: "getVar_of (cn_logic S1) ?T = Some v" "l = mkLit v False"
      using l(3,4) T1 by (auto simp: bound_def lit_of_def)
    obtain w where w: "getVar_of (cn_logic S3) ?F = Some w" "m = mkLit w False"
      using m(3,4) F3 by (auto simp: bound_def lit_of_def)
    have v3: "getVar_of (cn_logic S3) ?T = Some v"
      using m(2) v(1) b(1) emitted_bterm [OF l(2), of ?T] by (simp add: emitted_def bindings_kept_def bterm_def)
    have n: "?T < nterms (cn_logic S3)" "?F < nterms (cn_logic S3)"
      using b(1,2) emitted_bterm [OF e3] by (auto simp: bterm_def)
    have "sat \<sigma> [[l], [lit_not m]]" if "agrees \<sigma> \<tau> S3" "lawful (cn_logic S3) \<tau>" for \<sigma> \<tau>
      using that v3 w(1) n unfolding v(2) w(2) agrees_def lawful_def fr4 by (simp add: sat_def csat_def)
    then show ?thesis
      using v(2) v3 w emittedD(3) [OF e3] by (simp add: consts_fixed_def fr4)
  qed
  moreover have "\<forall>c \<in> set [[l], [lit_not m]]. length c \<le> 1"
    by simp
  ultimately show ?thesis
    using e4 by (elim conjE) (rule that)
qed

lemma ctor_ok:
  assumes "linv L" "\<forall>t < nterms L. getVar_of L t = None" "propFormulasAppearingInUF L = []"
  shows "cinv (Cnfizer_ctor L)" "frames_ok (Cnfizer_ctor L)" "frame_term (Cnfizer_ctor L) = term_TRUE L"
  using assms consts_bterm [OF assms(1)] by (simp_all add: cinv_def map_ok_def clauses_ok_def Cnfizer_ctor_def frames_ok_def)

section \<open>Assignments and valuations\<close>

text \<open>The valuation of the terms by an assignment of the variables, and the converse.\<close>

definition term_value :: "(nat \<Rightarrow> bool) \<Rightarrow> cnf \<Rightarrow> ptref \<Rightarrow> bool" where
  "term_value \<sigma> S t \<longleftrightarrow> (case getVar_of (cn_logic S) (fst (pure_term (cn_logic S) t)) of
     None \<Rightarrow> False | Some v \<Rightarrow> \<sigma> v) \<noteq> snd (pure_term (cn_logic S) t)"

definition assignment_of :: "cnf \<Rightarrow> (ptref \<Rightarrow> bool) \<Rightarrow> nat \<Rightarrow> bool" where
  "assignment_of S \<tau> v \<longleftrightarrow> v < var_cnt S \<and> \<tau> (the (varToTerm S ! v))"

lemma assignment_agrees: "cinv S \<Longrightarrow> agrees (assignment_of S \<tau>) \<tau> S"
  by (auto simp: agrees_def assignment_of_def cinv_def map_ok_def)

lemma term_value_agrees:
  assumes "cinv S"
  shows "agrees \<sigma> (term_value \<sigma> S) S"
proof -
  have "\<not> isNot (cn_logic S) t" if "t < nterms (cn_logic S)" "getVar_of (cn_logic S) t = Some v" for t v
    using assms that unfolding cinv_def map_ok_def by (metis option.inject)
  then show ?thesis
    by (auto simp: agrees_def term_value_def pure_term_def)
qed

lemma term_value_lawful:
  assumes "cinv S" "consts_fixed S" "sat \<sigma> (sent S)"
  shows "lawful (cn_logic S) (term_value \<sigma> S)"
proof -
  let ?L = "cn_logic S"
  note inv = cinv_linv [OF assms(1)]
  obtain v w where vw: "getVar_of ?L (term_TRUE ?L) = Some v" "getVar_of ?L (term_FALSE ?L) = Some w"
      "[mkLit v False] \<in> set (sent S)" "[mkLit w True] \<in> set (sent S)"
    using assms(2) by (auto simp: consts_fixed_def)
  then have "\<sigma> v" "\<not> \<sigma> w"
    using assms(3) by (auto simp: sat_def csat_def)
  moreover have "term_value \<sigma> S t = (\<not> term_value \<sigma> S (targs ?L t ! 0))" if "bterm ?L t" "isNot ?L t" for t
    using that isNot_arg(2) [OF inv that] by (auto simp: term_value_def pure_term_def)
  ultimately show ?thesis
    using vw consts_bterm(3,4) [OF inv] by (simp add: lawful_def term_value_def)
qed

lemma bval_lawful:
  assumes "linv L" "\<alpha> (term_TRUE L)" "\<not> \<alpha> (term_FALSE L)"
  shows "lawful L (bval L \<alpha>)" "defs L W (bval L \<alpha>) \<or> (\<exists>p \<in> W. \<not> bterm L p)"
proof -
  have "bval L \<alpha> (term_TRUE L) = \<alpha> (term_TRUE L)" "bval L \<alpha> (term_FALSE L) = \<alpha> (term_FALSE L)"
    using linv_constants [OF assms(1)] linv_neq [OF assms(1)] by (simp_all add: bval_atom conn_syms_def)
  then show "lawful L (bval L \<alpha>)"
    using assms bval_simps(1) [OF assms(1)] by (simp add: lawful_def bterm_def)
  show "defs L W (bval L \<alpha>) \<or> (\<exists>p \<in> W. \<not> bterm L p)"
    using bval_conn [OF assms(1)] by (auto simp: defs_def ldef_def bterm_def)
qed

lemma bval_idem:
  assumes "linv L" "no_distinct L" "\<alpha> (term_TRUE L)" "\<not> \<alpha> (term_FALSE L)" "bterm L t"
  shows "bval L (bval L \<alpha>) t = bval L \<alpha> t"
  using bval_lawful(1) [OF assms(1,3,4)] bval_lawful(2) [OF assms(1,3,4), where W = "{p. bterm L p}"] descends_args [OF assms(1,2)] assms(5)
  by (intro defs_bval [OF assms(1), of _ "{p. bterm L p}"]) auto

lemma bval_eval:
  assumes "linv L" "no_distinct L" "good_int L I"
  shows "bterm L t \<Longrightarrow> bval L (\<lambda>t. truth L t I) t = truth L t I"
proof (induction t rule: less_induct)
  case (less t)
  then have tn: "t < nterms L"
    by (simp add: bterm_def)
  let ?f = "getSymRef L t"
  show ?case
  proof (cases "?f \<in> insert (sym_NOT L) (conn_syms L)")
    case True
    have a: "bterm L a \<and> bval L (\<lambda>t. truth L t I) a = truth L a I" if "a \<in> set (targs L t)" for a
      using less.IH [OF term_parts(1) [OF assms(1) tn that]] conn_args [OF assms(1) tn conn_boolop [OF True] that] by blast
    then have "map (bval L (\<lambda>t. truth L t I)) (targs L t) = map (\<lambda>a. truth L a I) (targs L t)"
      by simp
    then have b: "bval L (\<lambda>t. truth L t I) t = bconn L ?f (map (\<lambda>a. truth L a I) (targs L t))"
      by (simp only: bval_conn [OF assms(1) tn True])
    have v: "eval L I a = VB (truth L a I)" if "a \<in> set (targs L t)" for a
      using a [OF that] eval_bool [OF assms(1) _ _ assms(3)] by (simp add: bterm_def)
    have eq: "truth L t I = tv (app_sym L I ?f (map (\<lambda>a. VB (truth L a I)) (targs L t)))"
      using v by (simp add: eval_term [OF assms(1) tn] cong: map_cong)
    have n1: "?f = sym_NOT L \<Longrightarrow> \<exists>x. targs L t = [x]" "?f \<in> {sym_XOR L, sym_EQ L, sym_IMPLIES L} \<Longrightarrow> \<exists>x y. targs L t = [x, y]"
      using conn_length(1,2) [OF assms(1) tn] by (auto simp: isNot_def length_Suc_conv eval_nat_numeral)
    have eqs: "sym_EQ L \<in> equalities L" "sym_EQ L \<notin> set (core_syms L)"
      using syms_okD(4) [OF linv_parts(1) [OF assms(1)]] linv_core_ites(2) [OF assms(1)] by blast+
    consider "?f = sym_NOT L" | "?f = sym_AND L" | "?f = sym_OR L" | "?f = sym_XOR L" | "?f = sym_EQ L" | "?f = sym_IMPLIES L"
      using True by (auto simp: conn_syms_def)
    then show ?thesis
    proof cases
      case 5
      then obtain x y where xy: "targs L t = [x, y]"
        using n1(2) by auto
      show ?thesis
        unfolding b eq using 5 xy eqs by (auto simp: app_sym_def bconn_def linv_neq [OF assms(1)] core_syms_def)
    qed (use b eq n1 in \<open>auto simp: app_sym_def bconn_def linv_neq [OF assms(1)]\<close>)
  next
    case False
    then show ?thesis
      by (rule bval_atom)
  qed
qed

end
