(* ===== verification/Logic_Props.thy ===== *)
theory Logic_Props
  imports Logic_Start
begin

text \<open>
  The properties of \<open>Logic\<close>, with witnesses in the state its constructor leaves.
\<close>

section \<open>Terms\<close>

text \<open>
  C15. The constructor returns normally, in a state that satisfies the invariant: the
  predefined symbols are different and have their sorts, the canonical maps list exactly the
  terms that exist, and no name of an if-then-else variable is taken.
\<close>

theorem Logic_ctor_ok: "\<exists>L. Logic_ctor b = Inr L \<and> linv L \<and> ite_ok L"
  using Logic_ctor_start start_linv start_ite_ok by blast

text \<open>
  C16. Hash consing: \<open>insertTermHash\<close> keeps the invariant and every existing term, and
  the term it returns is the only one with this symbol and these arguments, in the order of
  the table for a commuting function.
\<close>

theorem insertTermHash_unique:
  assumes "linv L" and "shape_ok L f ts" and "\<forall>a \<in> set ts. a < nterms L" and "arity_ok L f ts"
  shows "\<exists>t L'. insertTermHash L f ts = (Some t, L') \<and> linv L' \<and> extends L L' \<and> t < nterms L' \<and>
    (\<forall>s < nterms L'. (getSymRef L' s = f \<and> targs L' s = canon L f ts) = (s = t))"
proof -
  obtain t L' where r: "insertTermHash L f ts = (Some t, L')" "made L t L'" "getSymRef L' t = f" "targs L' t = canon L f ts"
    using assms by (rule insertTermHash_ok) (rule that)
  then have inv: "linv L'" "t < nterms L'" "extends L L'"
    by (simp_all add: made_def grows_def)
  have "(getSymRef L' s = f \<and> targs L' s = canon L f ts) = (s = t)" if "s < nterms L'" for s
    using r(3,4) terms_unique [OF inv(1) that inv(2)] by auto
  then show ?thesis
    using r(1) inv by blast
qed

lemma start_bterm [simp]: "bterm (start b) 0" "bterm (start b) (Suc 0)"
  by (simp_all add: bterm_def hasSortBool_sym_ref start_term hasSortBool_sym_def start_sym start_symbols_def rsort_def)

theorem insertTermHash_unique_witness:
  "\<exists>t L'. insertTermHash (start 0) 7 [0, 1] = (Some t, L') \<and> linv L' \<and> t < nterms L'"
proof -
  have "shape_ok (start 0) 7 [0, 1]"
    using start_bterm by (simp add: shape_ok_def isConstant_sym_def bterm_def)
  moreover have "arity_ok (start 0) 7 [0, 1]"
    by (simp add: arity_ok_def isBooleanOperator_sym_def)
  ultimately show ?thesis
    using insertTermHash_unique [OF start_linv, of 0 7 "[0, 1]"] by auto
qed

section \<open>Connectives\<close>

text \<open>
  C17. Conjunction and disjunction: on terms of sort \<open>Bool\<close>, \<open>mkAnd\<close> and
  \<open>mkOr\<close> reach no assertion and return a term that is true exactly when all, or some, of
  the arguments are, through the removal of duplicates, of constants and of complementary
  pairs.
\<close>

theorem and_or_correct:
  assumes "linv L" and "\<forall>a \<in> set as. bterm L a"
  shows "makes L (mkAnd L as) (\<lambda>I :: 'u interp. \<forall>a \<in> set as. truth L a I) \<and>
    makes L (mkOr L as) (\<lambda>I :: 'u interp. \<exists>a \<in> set as. truth L a I)"
  using mkAnd_makes [OF assms] mkOr_makes [OF assms] by blast

theorem and_or_correct_witness:
  "makes (start 0) (mkAnd (start 0) [0, 1, 0]) (\<lambda>I :: nat interp. \<forall>a \<in> set [0, 1, 0]. truth (start 0) a I)"
  using and_or_correct [OF start_linv, of "[0, 1, 0]" 0, where ?'u = nat] by simp

text \<open>
  Negation, exclusive or and implication denote what they are named for; none of the
  short cuts changes the value.
\<close>

theorem not_xor_impl_correct:
  assumes "linv L" and "bterm L a" and "bterm L b"
  shows "makes L (mkNot L a) (\<lambda>I :: 'u interp. \<not> truth L a I) \<and>
    makes L (mkXor L [a, b]) (\<lambda>I :: 'u interp. truth L a I \<noteq> truth L b I) \<and>
    makes L (mkImpl L [a, b]) (\<lambda>I :: 'u interp. truth L a I \<longrightarrow> truth L b I)"
  using mkNot_makes [OF assms(1,2)] mkXor_makes [OF assms] mkImpl_makes [OF assms] by blast

theorem not_xor_impl_correct_witness:
  "makes (start 0) (mkXor (start 0) [0, 1]) (\<lambda>I :: nat interp. truth (start 0) 0 I \<noteq> truth (start 0) 1 I)"
  using not_xor_impl_correct [OF start_linv start_bterm, of 0, where ?'u = nat] by simp

text \<open>
  C18. Negating twice gives back the same reference, because negations of negations and of
  constants are resolved and the rest are shared.
\<close>

theorem mkNot_involutive:
  assumes inv: "linv L" and a: "bterm L a"
  shows "\<exists>n L1. mkNot L a = Inr (Some n, L1) \<and> mkNot L1 n = Inr (Some a, L1)"
proof -
  obtain n L1 where n: "mkNot L a = Inr (Some n, L1)" "grows L L1" "denotes L1 n (\<lambda>I :: nat interp. \<not> truth L a I)"
    using mkNot_makes [OF inv a, where ?'u = nat] by (auto simp: makes_def)
  have inv1: "linv L1" and bn: "bterm L1 n" and an: "a < nterms L1" "a < nterms L"
    using growsD(1) [OF n(2)] denotesD(1) [OF n(3)] grows_less [OF n(2)] a by (simp_all add: bterm_def)
  have ext: "extends L L1"
    using growsD(2) [OF n(2)] .
  note C = linv_constants [OF inv] and C1 = linv_constants [OF inv1]
  have uniq: "x = y" if "x < nterms L1" "y < nterms L1" "getSymRef L1 x = getSymRef L1 y" "targs L1 x = targs L1 y" for x y
    using terms_unique [OF inv1 that] .
  have const: "targs L1 x = []" if "x < nterms L1" "getSymRef L1 x \<in> {sym_TRUE L1, sym_FALSE L1}" for x
    using isConstant_eval(1) [OF inv1 that(1)] that(2) syms_okD(13,14) [OF linv_parts(1) [OF inv1]]
    by (auto simp: isConstant_def)
  have sym: "getSymRef L1 a = getSymRef L a" "targs L1 a = targs L a"
    using ext_symref [OF ext an(2)] ext_term [OF ext an(2)] by simp_all
  have bb: "hasSortBool L a" "hasSortBool L1 n"
    using a bn by (simp_all add: bterm_def)
  consider (neg) "isNot L a" | (true) "\<not> isNot L a" "isTrue L a" | (false) "\<not> isNot L a" "\<not> isTrue L a" "isFalse L a"
    | (other) "\<not> isNot L a" "\<not> isTrue L a" "\<not> isFalse L a"
    by blast
  then have "mkNot L1 n = Inr (Some a, L1)"
  proof cases
    case neg
    note arg = isNot_arg [OF inv a neg]
    have e: "n = targs L a ! 0" "L1 = L"
      using n(1) neg bb by (auto simp: mkNot_def)
    have "shape_ok L (sym_NOT L) (targs L a)"
      using term_parts(2) [OF inv an(2)] neg by (simp add: isNot_def)
    moreover from this have "length (targs L a) = 1"
      by (simp add: shape_ok_def)
    ultimately have one: "targs L a = [n]" and sL: "shape_ok L (sym_NOT L) [n]"
      using e(1) by (cases "targs L a"; simp)+
    have sh: "shape_ok L (sym_NOT L) [n]" "\<forall>x \<in> set [n]. x < nterms L" "arity_ok L (sym_NOT L) [n]"
      using sL bn e(2) by (simp_all add: arity_ok_def isBooleanOperator_sym_def bterm_def)
    have "insertTermHash L (sym_NOT L) [n] = (Some a, L)"
      using inv sh
    proof (cases rule: insertTermHash_spec)
      case (known u)
      then have "u = a"
        using terms_unique [OF inv known(2) an(2)] neg one by (simp add: isNot_def canon_def isBooleanOperator_sym_def)
      then show ?thesis
        using known(1) by simp
    next
      case (added L2)
      then show ?thesis
        using an(2) neg one by (auto simp: isNot_def canon_def isBooleanOperator_sym_def)
    qed
    then show ?thesis
      using arg bb e by (simp add: mkNot_def mkFun_def checked_term_def)
  next
    case true
    then have e: "n = term_FALSE L" "L1 = L"
      using n(1) bb by (auto simp: mkNot_def)
    have "a = term_TRUE L"
      using uniq [of a "term_TRUE L"] const an C true e by (simp add: isTrue_def)
    then show ?thesis
      using e C bb linv_neq [OF inv] by (simp add: mkNot_def isNot_def isTrue_def isFalse_def)
  next
    case false
    then have e: "n = term_TRUE L" "L1 = L"
      using n(1) bb by (auto simp: mkNot_def)
    have "a = term_FALSE L"
      using uniq [of a "term_FALSE L"] const an C false e by (simp add: isFalse_def)
    then show ?thesis
      using e C bb linv_neq [OF inv] by (simp add: mkNot_def isNot_def isTrue_def isFalse_def)
  next
    case other
    have sh: "shape_ok L (sym_NOT L) [a]" "\<forall>x \<in> set [a]. x < nterms L" "arity_ok L (sym_NOT L) [a]"
      using other bb an linv_core(1) [OF inv, of "sym_NOT L"] linv_core_ites [OF inv, of "sym_NOT L"]
        syms_okD(15) [OF linv_parts(1) [OF inv]]
      by (auto simp: shape_ok_def arity_ok_def isBooleanOperator_sym_def core_syms_def isNot_def isTrue_def isFalse_def
          linv_neq [OF inv])
    obtain t L' where t: "insertTermHash L (sym_NOT L) [a] = (Some t, L')" "made L t L'" "getSymRef L' t = sym_NOT L"
        "targs L' t = canon L (sym_NOT L) [a]"
      using inv sh by (rule insertTermHash_ok) (rule that)
    then have "t = n" "L' = L1"
      using n(1) other bb by (simp_all add: mkNot_def mkFun_def checked_term_def)
    then show ?thesis
      using t(3,4) bb ext_frame [OF ext] by (simp add: mkNot_def isNot_def canon_def isBooleanOperator_sym_def)
  qed
  then show ?thesis
    using n(1) by blast
qed

theorem mkNot_involutive_witness: "\<exists>n L1. mkNot (start 0) 0 = Inr (Some n, L1) \<and> mkNot L1 n = Inr (Some 0, L1)"
  by (rule mkNot_involutive [OF start_linv start_bterm(1)])

section \<open>Equality and if-then-else\<close>

text \<open>
  C19. \<open>mkEq\<close> of two terms of one sort that has an equality symbol reaches no assertion
  and denotes the equality of their values, in interpretations that keep different constants
  apart: the lookup by name finds the symbol of the right sort.
\<close>

theorem mkEq_correct:
  assumes "linv L" and "a < nterms L" and "b < nterms L"
    and "getSortRef L a = Some s" and "getSortRef L b = Some s" and "eq_declared L s"
  shows "makes L (mkEq L [a, b]) (\<lambda>I :: 'u interp. eval L I a = eval L I b)"
  using assms by (rule mkEq_makes)

lemma start_sort: "getSortRef (start b) 0 = Some b" "getSortRef (start b) (Suc 0) = Some b"
  using start_bterm [of b] by (simp_all add: bterm_def hasSortBool_def getSortRef_def)

theorem mkEq_correct_witness:
  "makes (start 0) (mkEq (start 0) [0, 1]) (\<lambda>I :: nat interp. eval (start 0) I 0 = eval (start 0) I 1)"
  using eq_declared_bool [OF start_linv] by (intro mkEq_correct [OF start_linv]) (simp_all add: start_sort)

text \<open>
  C20. \<open>mkIte\<close> with a constant condition or equal branches returns the selected branch
  and changes nothing. Otherwise it returns a fresh variable, a new term without arguments
  over a new symbol of the sort of the branches, and records under it the three arguments and
  a Boolean formula that is true exactly in the interpretations in which the variable equals the
  branch the condition selects. The invariants hold afterwards and every old term is kept.
\<close>

theorem mkIte_defines:
  assumes "linv L" and "ite_ok L" and "bterm L c" and "t < nterms L" and "e < nterms L"
    and "getSortRef L t = Some s" and "getSortRef L e = Some s" and "eq_declared L s"
  shows "\<exists>v L'. mkIte L [c, t, e] = Inr (Some v, L') \<and> linv L' \<and> ite_ok L' \<and> extends L L' \<and>
    (if isTrue L c \<or> isFalse L c \<or> t = e
     then L' = L \<and> v = (if isTrue L c then t else if isFalse L c then e else t) \<and>
       (\<forall>I :: 'u interp. eval L I v = (if truth L c I then eval L I t else eval L I e))
     else v = nterms L \<and> v < nterms L' \<and> getSymRef L' v = nsyms L \<and> nsyms L' = Suc (nsyms L) \<and>
       targs L' v = [] \<and> getSortRef L' v = Some s \<and> top_level_ites L v = None \<and>
       (\<exists>repr. top_level_ites L' = (top_level_ites L)(v \<mapsto> \<lparr>ite_i = c, ite_t = t, ite_e = e, ite_repr = repr\<rparr>) \<and>
         bterm L' repr \<and>
         (\<forall>I :: 'u interp. good_int L' I \<longrightarrow>
           (truth L' repr I \<longleftrightarrow> eval L' I v = (if truth L' c I then eval L' I t else eval L' I e)))))"
proof (cases "isTrue L c \<or> isFalse L c \<or> t = e")
  case True
  then obtain v where "mkIte L [c, t, e] = Inr (Some v, L)" "v = (if isTrue L c then t else if isFalse L c then e else t)"
    "\<And>I :: 'u interp. eval L I v = (if truth L c I then eval L I t else eval L I e)"
    using mkIte_trivial [OF assms(1,3-5), where ?'u = 'u] by metis
  then show ?thesis
    using True assms(1,2) ext_refl [of L] by (intro exI [of _ v] exI [of _ L]) simp
next
  case False
  then have n: "\<not> isTrue L c" "\<not> isFalse L c" "t \<noteq> e"
    by simp_all
  obtain L' repr where r: "mkIte L [c, t, e] = Inr (Some (nterms L), L')" "linv L'" "ite_ok L'" "extends L L'"
    "nterms L < nterms L'" "getSymRef L' (nterms L) = nsyms L" "getSortRef L' (nterms L) = Some s"
    "targs L' (nterms L) = []"
    "top_level_ites L' = (top_level_ites L)(nterms L \<mapsto> \<lparr>ite_i = c, ite_t = t, ite_e = e, ite_repr = repr\<rparr>)"
    "nsyms L' = Suc (nsyms L)" "bterm L' repr"
    "\<And>I :: 'u interp. good_int L' I \<Longrightarrow>
       truth L' repr I = (eval L' I (nterms L) = (if truth L' c I then eval L' I t else eval L' I e))"
    by (rule mkIte_fresh [OF assms(1-3) n(1,2) assms(4,5) n(3) assms(6-8), where ?'u = 'u]) (rule that)
  have none: "top_level_ites L (nterms L) = None"
    using assms(2) by (auto simp: ite_ok_def)
  show ?thesis
    unfolding if_not_P [OF False]
    by (rule exI [of _ "nterms L"], rule exI [of _ L'])
      (intro conjI refl exI [of _ repr] allI impI r none)
qed

text \<open>
  C21. Conjoining the recorded formula loses nothing: every interpretation of the old symbols
  extends to the new variable so that the formula is true and no old term changes its value.
\<close>

theorem mkIte_conservative:
  fixes I :: "'u interp"
  assumes "linv L" and "ite_ok L" and "bterm L c" and "t < nterms L" and "e < nterms L"
    and "getSortRef L t = Some s" and "getSortRef L e = Some s" and "eq_declared L s"
    and "mkIte L [c, t, e] = Inr (Some v, L')" and "L' \<noteq> L" and "good_int L I"
  shows "\<exists>J. good_int L' J \<and> truth L' (ite_repr (the (top_level_ites L' v))) J \<and>
    (\<forall>x < nterms L. eval L' J x = eval L I x)"
proof -
  have n: "\<not> isTrue L c" "\<not> isFalse L c" "t \<noteq> e"
    using mkIte_trivial [OF assms(1,3-5)] assms(9,10) by (metis Inr_inject prod.inject)+
  obtain repr where r: "v = nterms L" "linv L'" "extends L L'" "getSymRef L' v = nsyms L" "getSortRef L' v = Some s"
    "top_level_ites L' = (top_level_ites L)(v \<mapsto> \<lparr>ite_i = c, ite_t = t, ite_e = e, ite_repr = repr\<rparr>)"
    "nsyms L' = Suc (nsyms L)" "v < nterms L'"
    "\<And>I :: 'u interp. good_int L' I \<Longrightarrow> truth L' repr I = (eval L' I v = (if truth L' c I then eval L' I t else eval L' I e))"
    using mkIte_fresh [OF assms(1-3) n(1,2) assms(4,5) n(3) assms(6-8), where ?'u = 'u] assms(9)
    by (metis Inr_inject option.inject prod.inject)
  let ?W = "if truth L c I then eval L I t else eval L I e"
  have less: "c < nterms L"
    using assms(3) by (simp add: bterm_def)
  have srt: "hasSortBool L x \<longleftrightarrow> s = sort_BOOL L" if "getSortRef L x = Some s" for x
    using that by (simp add: hasSortBool_def getSortRef_def)
  have "hasSortBool_sym L' (nsyms L) \<longleftrightarrow> s = sort_BOOL L"
    using r(4,5) ext_frame [OF r(3)] by (simp add: hasSortBool_sym_def getSortRef_def)
  then have W: "is_VB ?W \<longleftrightarrow> hasSortBool_sym L' (nsyms L)"
    using eval_sort [OF assms(1) _ assms(11)] assms(4-7) srt by simp
  note E = extend_interp [OF assms(1) r(2,3,7,8,4) assms(11) W]
  let ?J = "\<lambda>f vs. if f = nsyms L then ?W else I f vs"
  have "truth L' repr ?J"
    using r(9) [OF E(1)] E(2) E(3) [OF less] E(3) [OF assms(4)] E(3) [OF assms(5)] by simp
  then show ?thesis
    using E(1,3) r(6) by (intro exI [of _ ?J]) simp
qed

text \<open>A state with a free variable \<open>p\<close> of sort \<open>Bool\<close>, over which an if-then-else is not trivial.\<close>

definition with_var :: logic where
  "with_var = (case mkVar (start 0) 0 ''p'' of Inl e \<Rightarrow> start 0 | Inr r \<Rightarrow> snd r)"

definition default_interp :: "logic \<Rightarrow> nat interp" where
  "default_interp L f vs = (if hasSortBool_sym L f then VB False else VU 0)"

lemma good_default:
  assumes "linv L" "\<And>f. isConstant_sym L f \<Longrightarrow> f = sym_TRUE L \<or> f = sym_FALSE L"
  shows "good_int L (default_interp L)"
proof -
  have "app_sym L I (sym_TRUE L) [] = VB True" "app_sym L I (sym_FALSE L) [] = VB False" for I :: "nat interp"
    by (simp_all add: app_sym_def linv_neq [OF assms(1)])
  then show ?thesis
    using assms(2) unfolding good_int_def by (auto simp: default_interp_def dest!: assms(2))
qed

lemma with_var_facts:
  "linv with_var" "ite_ok with_var" "bterm with_var 2" "\<not> isTrue with_var 2" "\<not> isFalse with_var 2"
  "nterms with_var = 3" "extends (start 0) with_var" "good_int with_var (default_interp with_var)"
proof -
  have fresh: "fresh_name (start 0) ''p''"
    by (simp add: fresh_name_def less_12 getName_def start_names_def)
  obtain L1 L' where L: "mkVar (start 0) 0 ''p'' = Inr (2, L')" "new_symbol (start 0) ''p'' [0] L1" "grows L1 L'"
    "getSymRef L' 2 = 12" "linv L'" "extends (start 0) L'" "nterms L' = 3" "lg_syms L' = lg_syms L1"
  proof (rule mkVar_fresh [OF start_linv fresh, of 0])
  qed (use that in \<open>auto simp: made_def\<close>)
  have e: "with_var = L'"
    by (simp add: with_var_def L(1))
  show "linv with_var" "nterms with_var = 3" "extends (start 0) with_var"
    using L by (simp_all add: e)
  note fr = ext_frame [OF L(6)] and new = new_symbol_facts [OF L(2)]
  have "getSym L' 12 = Symbol_ctor [0]"
    using new(3) L(8) by (simp add: getSym_def)
  then show "bterm with_var 2"
    using L(4,7) fr by (simp add: e bterm_def hasSortBool_def rsort_def Symbol_ctor_def)
  show "\<not> isTrue with_var 2" "\<not> isFalse with_var 2"
    using L(4) fr by (simp_all add: e isTrue_def isFalse_def)
  have t: "top_level_ites L' = Map.empty" "ite_counter L' = 0"
    using growsD(4,5) [OF L(3)] new_symbol_ites [OF L(2)] by simp_all
  have n: "getName (lg_syms L') f = (if f = 12 then ''p'' else getName (start_syms 0) f) \<and> (f < 12 \<or> f = 12)"
    if "f < nsyms L'" for f
  proof -
    have f: "f < 12 \<or> f = 12"
      using new(2) L(8) that by auto
    then show ?thesis
      using new_symbol_name(1) [OF L(2), of f] new_symbol_name(2) [OF L(2)] start_syms_inv L(8) by auto
  qed
  have o: "getName (start_syms 0) f \<noteq> ''.oite'' @ nat_str k" if "f < 12" for f k
    using start_ite_ok [of 0] that by (simp add: ite_ok_def fresh_name_def)
  have "getName (lg_syms L') f \<noteq> ''.oite'' @ nat_str k" if "f < nsyms L'" for f k
    using n [OF that] o [of f k] by (cases "f = 12") simp_all
  then have "fresh_name L' (''.oite'' @ nat_str k)" for k
    by (simp add: fresh_name_def)
  then show "ite_ok with_var"
    by (simp add: e ite_ok_def t)
  have "f = sym_TRUE L' \<or> f = sym_FALSE L'" if "isConstant_sym L' f" for f
    using that by (auto simp: isConstant_sym_def fr less_Suc_eq)
  then show "good_int with_var (default_interp with_var)"
    unfolding e by (rule good_default [OF L(5)])
qed

text \<open>The if-then-else of the free variable \<open>p\<close> with the branches true and false: not a trivial one.\<close>

theorem mkIte_defines_witness:
  "\<exists>v L' repr. mkIte with_var [2, 0, 1] = Inr (Some v, L') \<and> v \<notin> {0, 1} \<and>
    top_level_ites L' v = Some \<lparr>ite_i = 2, ite_t = 0, ite_e = 1, ite_repr = repr\<rparr> \<and>
    (\<forall>I :: nat interp. good_int L' I \<longrightarrow>
      (truth L' repr I \<longleftrightarrow> eval L' I v = (if truth L' 2 I then eval L' I 0 else eval L' I 1)))"
proof -
  note W = with_var_facts
  have 0: "0 < nterms with_var" "1 < nterms with_var"
    using W(6) by simp_all
  have no: "\<not> (isTrue with_var 2 \<or> isFalse with_var 2 \<or> (0::nat) = 1)"
    using W(4,5) by simp
  have s: "getSortRef with_var 0 = Some 0" "getSortRef with_var 1 = Some 0"
    using ext_sort(1) [OF W(7) start_linv] by (simp_all add: start_sort)
  have d: "eq_declared with_var 0"
    using eq_declared_bool [OF W(1)] ext_frame [OF W(7)] by simp
  obtain v L' repr where r: "mkIte with_var [2, 0, 1] = Inr (Some v, L')" "v = nterms with_var"
      "top_level_ites L' = (top_level_ites with_var)(v \<mapsto> \<lparr>ite_i = 2, ite_t = 0, ite_e = 1, ite_repr = repr\<rparr>)"
      "\<forall>I :: nat interp. good_int L' I \<longrightarrow>
        (truth L' repr I \<longleftrightarrow> eval L' I v = (if truth L' 2 I then eval L' I 0 else eval L' I 1))"
    using mkIte_defines [OF W(1-3) 0 s d, where ?'u = nat, unfolded if_not_P [OF no]] by blast
  show ?thesis
    by (rule exI [of _ v], rule exI [of _ L'], rule exI [of _ repr]) (use r W(6) in simp)
qed

theorem mkIte_conservative_witness:
  "\<exists>v L' J. mkIte with_var [2, 0, 1] = Inr (Some v, L') \<and> good_int L' (J :: nat interp) \<and>
    truth L' (ite_repr (the (top_level_ites L' v))) J"
proof -
  note W = with_var_facts
  have 0: "0 < nterms with_var" "1 < nterms with_var" "(0::nat) \<noteq> 1"
    using W(6) by simp_all
  have s: "getSortRef with_var 0 = Some 0" "getSortRef with_var 1 = Some 0"
    using ext_sort(1) [OF W(7) start_linv] by (simp_all add: start_sort)
  have d: "eq_declared with_var 0"
    using eq_declared_bool [OF W(1)] ext_frame [OF W(7)] by simp
  obtain L' where r: "mkIte with_var [2, 0, 1] = Inr (Some (nterms with_var), L')" "nterms with_var < nterms L'"
    using mkIte_fresh [OF W(1-5) 0 s d, where ?'u = nat] by metis
  then have "L' \<noteq> with_var"
    by auto
  then show ?thesis
    using mkIte_conservative [OF W(1-3) 0(1,2) s d r(1) _ W(8)] r(1) by blast
qed

end
