(* ===== verification/Cnf_Props.thy ===== *)
theory Cnf_Props
  imports Cnf_Frames Logic_Props
begin

text \<open>
  The properties of the CNF component: the variables of terms, the outcomes of the main
  routine, that the clauses say what the formula says, and the assumptions for the frames.
\<close>

section \<open>States for the witnesses\<close>

definition cnf_start :: "logic \<Rightarrow> cnf" where
  "cnf_start L = (case initialize (\<lambda>_. True) (Cnfizer_ctor L) of Inl e \<Rightarrow> Cnfizer_ctor L | Inr S \<Rightarrow> S)"

lemma no_refusal [simp]: "\<not> refused (\<lambda>_. True) S"
  by (simp add: refused_def)

lemma start_no_distinct: "no_distinct (start 0)" "\<forall>t < nterms (start 0). getVar_of (start 0) t = None"
  "propFormulasAppearingInUF (start 0) = []"
proof -
  show "no_distinct (start 0)"
    by (simp add: no_distinct_def start_term)
  show "\<forall>t < nterms (start 0). getVar_of (start 0) t = None"
    by (simp add: getVar_of_def getPterm_def term_at_def start_terms_def Pterm_ctor_def numeral_2_eq_2 All_less_Suc)
qed (simp add: start_def)

text \<open>A new \<open>Cnfizer\<close> after \<open>initialize\<close>.\<close>

lemma initial_state:
  assumes "linv L" "\<forall>t < nterms L. getVar_of L t = None" "propFormulasAppearingInUF L = []"
  obtains S where "initialize A (Cnfizer_ctor L) = Inr S" "cinv S" "consts_fixed S" "same_terms L (cn_logic S)"
    "frame_ready 0 S" "\<forall>\<tau>. lawful L \<tau> \<longrightarrow> sat (assignment_of S \<tau>) (sent S)" "frame_terms S = [term_TRUE L]"
    "\<forall>c \<in> set (sent S). length c \<le> 1"
proof -
  note c = ctor_ok [OF assms]
  have "frame_term (Cnfizer_ctor L) = term_TRUE (cn_logic (Cnfizer_ctor L))"
    by (simp add: Cnfizer_ctor_def)
  then obtain S cs where S: "initialize A (Cnfizer_ctor L) = Inr S" "emitted (Cnfizer_ctor L) S cs" "consts_fixed S"
      "\<forall>c \<in> set cs. length c \<le> 1"
      "\<forall>\<sigma> \<tau>. agrees \<sigma> \<tau> S \<longrightarrow> lawful (cn_logic S) \<tau> \<longrightarrow> sat \<sigma> cs"
    using initialize_ok [OF c(1)] by blast
  have st: "same_terms L (cn_logic S)"
    using emittedD(2) [OF S(2)] by (simp add: Cnfizer_ctor_def)
  have "frame_ready 0 S"
    using c(2) emittedD(6) [OF S(2)] same_terms_bterm [OF st] same_terms_frame [OF st]
    by (simp add: frame_ready_def frames_ok_def Cnfizer_ctor_def)
  moreover have "sent S = cs"
    using emittedD(3) [OF S(2)] by (simp add: Cnfizer_ctor_def)
  then have "\<forall>\<tau>. lawful L \<tau> \<longrightarrow> sat (assignment_of S \<tau>) (sent S)" "\<forall>c \<in> set (sent S). length c \<le> 1"
    using S(4,5) assignment_agrees [OF emittedD(1) [OF S(2)]] same_terms_lawful [OF st] by blast+
  ultimately show ?thesis
    using emittedD(6) [OF S(2)] by (intro that [OF S(1) emittedD(1) [OF S(2)] S(3) st]) (simp_all add: Cnfizer_ctor_def del: One_nat_def)
qed

lemma cnf_start_ok:
  assumes "linv L" "\<forall>t < nterms L. getVar_of L t = None" "propFormulasAppearingInUF L = []"
  shows "initialize (\<lambda>_. True) (Cnfizer_ctor L) = Inr (cnf_start L)" "consts_fixed (cnf_start L)" "cinv (cnf_start L)"
    "same_terms L (cn_logic (cnf_start L))" "frame_ready 0 (cnf_start L)"
    "\<forall>\<tau>. lawful L \<tau> \<longrightarrow> sat (assignment_of (cnf_start L) \<tau>) (sent (cnf_start L))"
    "\<forall>c \<in> set (sent (cnf_start L)). length c \<le> 1" "frame_terms (cnf_start L) = [term_TRUE L]"
proof -
  obtain S where S: "initialize (\<lambda>_. True) (Cnfizer_ctor L) = Inr S" "cinv S" "consts_fixed S" "same_terms L (cn_logic S)"
      "frame_ready 0 S" "\<forall>\<tau>. lawful L \<tau> \<longrightarrow> sat (assignment_of S \<tau>) (sent S)"
      "frame_terms S = [term_TRUE L]" "\<forall>c \<in> set (sent S). length c \<le> 1"
    using initial_state [OF assms] by metis
  then have "cnf_start L = S"
    by (simp add: cnf_start_def)
  with S show "initialize (\<lambda>_. True) (Cnfizer_ctor L) = Inr (cnf_start L)" "consts_fixed (cnf_start L)" "cinv (cnf_start L)"
    "same_terms L (cn_logic (cnf_start L))" "frame_ready 0 (cnf_start L)"
    "\<forall>\<tau>. lawful L \<tau> \<longrightarrow> sat (assignment_of (cnf_start L) \<tau>) (sent (cnf_start L))"
    "\<forall>c \<in> set (sent (cnf_start L)). length c \<le> 1" "frame_terms (cnf_start L) = [term_TRUE L]"
    by simp_all
qed

lemmas cnf_start_0 = cnf_start_ok [OF start_linv start_no_distinct(2,3)]

lemma cnf_start_terms: "bterm (cn_logic (cnf_start (start 0))) 0" "no_distinct (cn_logic (cnf_start (start 0)))"
  using same_terms_bterm [OF cnf_start_0(4)] same_terms_no_distinct [OF cnf_start_0(4)] start_no_distinct(1) by simp_all

section \<open>Variables of terms\<close>

text \<open>
  C40. In a state that satisfies the invariant every Boolean term gets a literal: the call
  keeps the invariant, gives the same literal from then on, the complement for the negated
  term, and no term that is not its negation shares the variable.
\<close>

theorem getOrCreateLit_binding:
  assumes "cinv S" and "bterm (cn_logic S) t"
  shows "\<exists>l S'. getOrCreateLit S t = Inr (l, S') \<and> cinv S' \<and> sent S' = sent S \<and>
    getOrCreateLit S' t = Inr (l, S') \<and>
    (\<forall>n. bterm (cn_logic S) n \<longrightarrow> isNot (cn_logic S) n \<longrightarrow> targs (cn_logic S) n ! 0 = t \<longrightarrow>
       getOrCreateLit S' n = Inr (lit_not l, S')) \<and>
    (\<forall>u m S''. bterm (cn_logic S) u \<longrightarrow> getOrCreateLit S' u = Inr (m, S'') \<longrightarrow> lit_var m = lit_var l \<longrightarrow>
       fst (pure_term (cn_logic S) u) = fst (pure_term (cn_logic S) t))"
proof -
  let ?L = "cn_logic S"
  note inv = cinv_linv [OF assms(1)]
  obtain S' where S': "getOrCreateLit S t = Inr (lit_of (cn_logic S') t, S')" "emitted S S' []" "bound (cn_logic S') t"
    using getOrCreateLit_ok [OF assms] by blast
  note st = emittedD(2) [OF S'(2)] and c = emittedD(1) [OF S'(2)]
  have b: "bterm (cn_logic S') u = bterm ?L u" for u
    using same_terms_bterm [OF st] .
  have again: "getOrCreateLit S' u = Inr (lit_of (cn_logic S') u, S')" if "bterm ?L u" "bound (cn_logic S') u" for u
    using getOrCreateLit_ok [OF c, of u] that b by metis
  have neg: "getOrCreateLit S' n = Inr (lit_not (lit_of (cn_logic S') t), S')"
    if n: "bterm ?L n" "isNot ?L n" "targs ?L n ! 0 = t" for n
  proof -
    have "\<not> isNot ?L t"
      using isNot_arg(2) [OF inv n(1,2)] n(3) by simp
    then have p: "pure_term (cn_logic S') n = (t, True)" "pure_term (cn_logic S') t = (t, False)"
      using n same_terms_pure [OF st] by (simp_all add: pure_term_def)
    then show ?thesis
      using again [OF n(1)] S'(3) by (simp add: bound_def lit_of_def)
  qed
  have sep: "fst (pure_term ?L u) = fst (pure_term ?L t)"
    if u: "bterm ?L u" "getOrCreateLit S' u = Inr (m, S'')" "lit_var m = lit_var (lit_of (cn_logic S') t)" for u m S''
  proof -
    obtain T where T: "getOrCreateLit S' u = Inr (lit_of (cn_logic T) u, T)" "emitted S' T []" "bound (cn_logic T) u"
      using getOrCreateLit_ok [OF c, of u] u(1) b by blast
    note e = emitted_trans [OF S'(2) T(2)]
    note pt = same_terms_pure [OF emittedD(2) [OF e]]
    let ?p = "fst (pure_term ?L t)" and ?q = "fst (pure_term ?L u)"
    obtain v where v: "getVar_of (cn_logic S') ?p = Some v"
      using S'(3) same_terms_pure [OF st] by (auto simp: bound_def)
    have pn: "?p < nterms (cn_logic S')" "?q < nterms (cn_logic T)" "?p < nterms (cn_logic T)"
      using pure_bterm(1) [OF inv] assms(2) u(1) same_termsD(1) [OF st] same_termsD(1) [OF emittedD(2) [OF e]]
      by (simp_all add: bterm_def)
    have "getVar_of (cn_logic T) ?p = Some v"
      using T(2) v pn(1) by (simp add: emitted_def bindings_kept_def)
    moreover have "getVar_of (cn_logic T) ?q = Some v"
      using T(1,3) u(2,3) v pt same_terms_pure [OF st] by (auto simp: bound_def lit_of_def)
    moreover have "map_ok T"
      using emittedD(1) [OF e] by (simp add: cinv_def)
    ultimately show ?thesis
      using pn unfolding map_ok_def by (metis option.inject)
  qed
  show ?thesis
  proof (intro exI conjI allI impI)
    show "getOrCreateLit S t = Inr (lit_of (cn_logic S') t, S')" "getOrCreateLit S' t = Inr (lit_of (cn_logic S') t, S')"
      using S'(1) again [OF assms(2) S'(3)] by simp_all
    show "sent S' = sent S"
      using emittedD(3) [OF S'(2)] by simp
  qed (rule c, rule neg, assumption+, rule sep, assumption+)
qed

theorem getOrCreateLit_binding_witness:
  "\<exists>l S'. getOrCreateLit (cnf_start (start 0)) 0 = Inr (l, S') \<and> cinv S'"
  using getOrCreateLit_binding [OF cnf_start_0(3) cnf_start_terms(1)] by blast

section \<open>The main routine\<close>

lemma cnfize_result:
  assumes "cinv S" and "no_distinct (cn_logic S)" and "bterm (cn_logic S) f" and "frame_ready i S"
  shows "(\<exists>S'. cinv S' \<and>
      (cnfizeAndGiveToSolver A okay f i S = Inr (l_Undef, S') \<or>
       cnfizeAndGiveToSolver A okay f i S = Inr (l_False, S') \<and> (\<not> okay (sent S) \<or> refused A S'))) \<or>
    cnfizeAndGiveToSolver A okay f i S = Inl Assertion_Failed \<and> (\<exists>cs. \<not> A cs)"
proof -
  obtain S1 where S1: "setFrameTerm i S = Inr S1" "framed i S S1"
    using setFrameTerm_ok [OF assms(1,4)] .
  have c: "cinv S1" "no_distinct (cn_logic S1)" "bterm (cn_logic S1) f" "sent S1 = sent S"
    using S1(2) assms(2,3) ext_bterm [OF _ cinv_linv [OF assms(1)]] by (simp_all add: framed_def)
  let ?R = "cnfizeAndGiveToSolver A okay f i S"
  show ?thesis
    using cnfize_main [OF c(1-3) S1(1), of A okay]
  proof (cases rule: cnf_outcome_cases)
    case conflict
    then show ?thesis
      using c(1,4) by auto
  next
    case (refusal S' W gs)
    then show ?thesis
      using emits_linv [OF refusal(5)] by blast
  next
    case (accepted S' W)
    then show ?thesis
      using emits_linv [OF accepted(3)] by blast
  next
    case (failed S')
    then show ?thesis
      by (auto simp: refused_def)
  qed
qed

text \<open>
  C39. \<open>cnfizeAndGiveToSolver\<close> returns on every Boolean formula without \<open>distinct\<close>: with
  \<open>l_False\<close> or \<open>l_Undef\<close> in a state that satisfies the invariant, or in the failure of
  the assertion that the solver accepts the definitions of nested terms; \<open>l_False\<close> and
  that failure only when the solver reported a contradiction.
\<close>

theorem cnfize_returns:
  assumes "cinv S" and "no_distinct (cn_logic S)" and "bterm (cn_logic S) f" and "frame_ready i S"
  shows "(\<exists>S'. cinv S' \<and>
      (cnfizeAndGiveToSolver A okay f i S = Inr (l_Undef, S') \<or>
       cnfizeAndGiveToSolver A okay f i S = Inr (l_False, S') \<and> (\<not> okay (sent S) \<or> refused A S'))) \<or>
    cnfizeAndGiveToSolver A okay f i S = Inl Assertion_Failed \<and> (\<exists>cs. \<not> A cs)"
  using assms by (rule cnfize_result)

theorem cnfize_returns_witness:
  "\<exists>S'. cnfizeAndGiveToSolver (\<lambda>_. True) (\<lambda>_. True) 0 0 (cnf_start (start 0)) = Inr (l_Undef, S')"
  using cnfize_returns [OF cnf_start_0(3) cnf_start_terms(2,1) cnf_start_0(5), of "\<lambda>_. True" "\<lambda>_. True"] by auto

lemma undef_outcome:
  assumes "cinv S" "no_distinct (cn_logic S)" "bterm (cn_logic S) f" "frame_ready i S"
    and "cnfizeAndGiveToSolver A okay f i S = Inr (r, S')"
  obtains S1 W gs b where "framed i S S1" "\<forall>p \<in> W. bterm (cn_logic S1) p" "r = l_Undef \<or> r = l_False"
    "gs \<subseteq> set (leaves (cn_logic S1) (sym_AND (cn_logic S1)) f)"
    "r = l_Undef \<longrightarrow> gs = set (leaves (cn_logic S1) (sym_AND (cn_logic S1)) f)"
    "S' = S1 \<or> emits A (\<lambda>\<tau>. defs (cn_logic S1) W \<tau> \<and> (\<forall>g \<in> gs. bval (cn_logic S1) \<tau> g)) True S1 b S'"
    "r = l_Undef \<longrightarrow> emits A (\<lambda>\<tau>. defs (cn_logic S1) W \<tau> \<and> (\<forall>g \<in> gs. bval (cn_logic S1) \<tau> g)) True S1 b S'"
proof -
  obtain S1 where S1: "setFrameTerm i S = Inr S1" "framed i S S1"
    using setFrameTerm_ok [OF assms(1,4)] .
  have c: "cinv S1" "no_distinct (cn_logic S1)" "bterm (cn_logic S1) f"
    using S1(2) assms(2,3) ext_bterm [OF _ cinv_linv [OF assms(1)]] by (simp_all add: framed_def)
  let ?ls = "set (leaves (cn_logic S1) (sym_AND (cn_logic S1)) f)"
  note leaves = bval_and_leaves [OF cinv_linv [OF c(1)] c(3)]
  show ?thesis
    using cnfize_main [OF c S1(1), of A okay]
  proof (cases rule: cnf_outcome_cases)
    case conflict
    then show ?thesis
      using that [of S1 "{}" "{}"] S1(2) assms(5) by simp
  next
    case (refusal T W gs)
    then show ?thesis
      using that [of S1 W gs False] S1(2) assms(5) by simp
  next
    case (accepted T W)
    then show ?thesis
      using that [of S1 W ?ls True] S1(2) assms(5) by (simp add: leaves)
  next
    case (failed T)
    then show ?thesis
      using assms(5) by simp
  qed
qed

text \<open>
  C37. The clauses are sound, for formulas of a logic in which no term applies \<open>distinct\<close> to
  Booleans: when \<open>l_Undef\<close> is returned, in every assignment of the variables that satisfies
  all clauses given to the solver and enables the frame (its literal is false), the formula is true
  in the valuation of its atoms by their variables.
\<close>

theorem cnfize_sound:
  assumes "cinv S" and "consts_fixed S" and "no_distinct (cn_logic S)" and "bterm (cn_logic S) f" and "frame_ready i S"
    and "cnfizeAndGiveToSolver A okay f i S = Inr (l_Undef, S')"
    and "sat \<sigma> (sent S')" and "i = 0 \<or> \<not> term_value \<sigma> S' (frame_term S')"
  shows "bval (cn_logic S') (term_value \<sigma> S') f"
proof -
  obtain S1 W gs b where o: "framed i S S1" "\<forall>p \<in> W. bterm (cn_logic S1) p" "l_Undef = l_Undef \<or> l_Undef = l_False"
      "gs \<subseteq> set (leaves (cn_logic S1) (sym_AND (cn_logic S1)) f)"
      "l_Undef = l_Undef \<longrightarrow> gs = set (leaves (cn_logic S1) (sym_AND (cn_logic S1)) f)"
      "S' = S1 \<or> emits A (\<lambda>\<tau>. defs (cn_logic S1) W \<tau> \<and> (\<forall>g \<in> gs. bval (cn_logic S1) \<tau> g)) True S1 b S'"
      "l_Undef = l_Undef \<longrightarrow> emits A (\<lambda>\<tau>. defs (cn_logic S1) W \<tau> \<and> (\<forall>g \<in> gs. bval (cn_logic S1) \<tau> g)) True S1 b S'"
    using undef_outcome [OF assms(1,3-6)] .
  have S1: "cinv S1" "frames_ok S1" "bterm (cn_logic S1) f" "frame_term S1 = frame_terms S1 ! i"
    using o(1) ext_bterm [OF _ cinv_linv [OF assms(1)] assms(4)] by (simp_all add: framed_def)
  obtain cs where cs: "emitted S1 S' cs" "\<forall>\<sigma> \<tau>. agrees \<sigma> \<tau> S' \<longrightarrow> lawful (cn_logic S') \<tau> \<longrightarrow>
      (sat \<sigma> cs \<longleftrightarrow> fr S' \<tau> \<or> defs (cn_logic S1) W \<tau> \<and> (\<forall>g \<in> gs. bval (cn_logic S1) \<tau> g))"
    using o(7) unfolding emits_def by blast
  note c' = emittedD(1) [OF cs(1)] and st = emittedD(2) [OF cs(1)]
  let ?\<tau> = "term_value \<sigma> S'"
  have "consts_fixed S'"
    using consts_fixed_mono [OF consts_fixed_framed [OF assms(2,1) o(1)] S1(1) cs(1)] .
  then have "lawful (cn_logic S') ?\<tau>"
    using term_value_lawful [OF c' _ assms(7)] by blast
  moreover have "sat \<sigma> cs"
    using assms(7) emittedD(3) [OF cs(1)] by simp
  ultimately have "fr S' ?\<tau> \<or> (\<forall>g \<in> gs. bval (cn_logic S1) ?\<tau> g)"
    using cs(2) term_value_agrees [OF c'] by blast
  moreover have "\<not> fr S' ?\<tau>"
    using assms(8) S1(2,4) emittedD(4) [OF cs(1)] same_terms_frame [OF st] by (auto simp: fr_def frames_ok_def)
  ultimately show ?thesis
    using o(5) bval_and_leaves [OF cinv_linv [OF S1(1)] S1(3)] by (simp add: same_terms_bval [OF st])
qed

lemma assignment_mono:
  assumes "cinv S" "emitted S S' cs" "v < var_cnt S"
  shows "assignment_of S' \<tau> v = assignment_of S \<tau> v"
proof -
  have m: "map_ok S" "map_ok S'"
    using assms(1) emittedD(1) [OF assms(2)] by (simp_all add: cinv_def)
  obtain t where t: "varToTerm S ! v = Some t" "t < nterms (cn_logic S)" "getVar_of (cn_logic S) t = Some v"
    using m(1) assms(3) by (auto simp: map_ok_def bterm_def)
  then have "getVar_of (cn_logic S') t = Some v" "t < nterms (cn_logic S')"
    using assms(2) same_termsD(1) [OF emittedD(2) [OF assms(2)]] by (simp_all add: emitted_def bindings_kept_def)
  then have "varToTerm S' ! v = Some t" "v < var_cnt S'"
    using m(2) by (simp_all add: map_ok_def)
  then show ?thesis
    using t(1) assms(3) by (simp add: assignment_of_def)
qed

lemma sat_cong:
  assumes "clauses_ok S" "\<forall>v < var_cnt S. \<sigma> v = \<rho> v"
  shows "sat \<sigma> (sent S) = sat \<rho> (sent S)"
proof -
  have "csat \<sigma> c = csat \<rho> c" if "c \<in> set (sent S)" for c
    using assms that by (auto simp: csat_def lsat_def clauses_ok_def lit_ok_def)
  then show ?thesis
    by (simp add: sat_def)
qed

lemma bval_ext:
  assumes "extends L L'" "linv L"
  shows "t < nterms L \<Longrightarrow> bval L' \<alpha> t = bval L \<alpha> t"
proof (induction t rule: less_induct)
  case (less t)
  have c: "bconn L' f bs = bconn L f bs" "conn_syms L' = conn_syms L" for f bs
    using assms(1) by (simp_all add: bconn_def conn_syms_def ext_frame)
  have m: "map (\<lambda>a. if a < t then bval L' \<alpha> a else False) (targs L t) =
      map (\<lambda>a. if a < t then bval L \<alpha> a else False) (targs L t)"
    using less term_arg [OF assms(2) less.prems] by simp
  show ?case
    by (subst (1 2) bval.simps) (simp only: c m ext_symref [OF assms(1) less.prems] ext_term [OF assms(1) less.prems]
        ext_frame [OF assms(1)])
qed

lemma cnfize_extends:
  assumes "cinv S" and "no_distinct (cn_logic S)" and "bterm (cn_logic S) f" and "frame_ready i S"
    and "cnfizeAndGiveToSolver A okay f i S = Inr (r, S')"
    and "\<alpha> (term_TRUE (cn_logic S))" and "\<not> \<alpha> (term_FALSE (cn_logic S))"
    and "bval (cn_logic S) \<alpha> f \<or> i \<noteq> 0 \<and> bval (cn_logic S') \<alpha> (frame_term S')"
    and "sat (assignment_of S (bval (cn_logic S) \<alpha>)) (sent S)"
  shows "sat (assignment_of S' (bval (cn_logic S') \<alpha>)) (sent S')"
proof -
  obtain S1 W gs b where o: "framed i S S1" "\<forall>p \<in> W. bterm (cn_logic S1) p" "r = l_Undef \<or> r = l_False"
      "gs \<subseteq> set (leaves (cn_logic S1) (sym_AND (cn_logic S1)) f)"
      "r = l_Undef \<longrightarrow> gs = set (leaves (cn_logic S1) (sym_AND (cn_logic S1)) f)"
      "S' = S1 \<or> emits A (\<lambda>\<tau>. defs (cn_logic S1) W \<tau> \<and> (\<forall>g \<in> gs. bval (cn_logic S1) \<tau> g)) True S1 b S'"
      "r = l_Undef \<longrightarrow> emits A (\<lambda>\<tau>. defs (cn_logic S1) W \<tau> \<and> (\<forall>g \<in> gs. bval (cn_logic S1) \<tau> g)) True S1 b S'"
    using undef_outcome [OF assms(1-5)] .
  note inv = cinv_linv [OF assms(1)]
  have nd: "no_distinct (cn_logic S1)"
    using o(1) assms(2) by (simp add: framed_def)
  have S1: "cinv S1" "extends (cn_logic S) (cn_logic S1)" "sent S1 = sent S" "var_cnt S1 = var_cnt S"
      "varToTerm S1 = varToTerm S" "bterm (cn_logic S1) f" "i \<noteq> 0 \<longrightarrow> frame_term S1 \<noteq> term_TRUE (cn_logic S1)"
    using o(1) ext_bterm [OF _ inv assms(3)] by (auto simp: framed_def)
  note inv1 = cinv_linv [OF S1(1)]
  let ?\<tau> = "bval (cn_logic S1) \<alpha>"
  have f: "?\<tau> f = bval (cn_logic S) \<alpha> f"
    using bval_ext [OF S1(2) inv] assms(3) by (simp add: bterm_def)
  have "assignment_of S1 ?\<tau> = assignment_of S (bval (cn_logic S) \<alpha>)"
  proof
    fix v
    have "\<exists>t < nterms (cn_logic S). varToTerm S ! v = Some t" if "v < var_cnt S"
      using assms(1) that by (auto simp: cinv_def map_ok_def bterm_def)
    then show "assignment_of S1 ?\<tau> v = assignment_of S (bval (cn_logic S) \<alpha>) v"
      using bval_ext [OF S1(2) inv] by (auto simp: assignment_of_def S1(4,5))
  qed
  then have old: "sat (assignment_of S1 ?\<tau>) (sent S)"
    using assms(9) by simp
  show ?thesis
  proof (cases "S' = S1")
    case True
    then show ?thesis
      using old S1(3) by simp
  next
    case False
    then obtain cs where cs: "emitted S1 S' cs" "\<forall>\<sigma> \<tau>. agrees \<sigma> \<tau> S' \<longrightarrow> lawful (cn_logic S') \<tau> \<longrightarrow>
        (sat \<sigma> cs \<longleftrightarrow> fr S' \<tau> \<or> defs (cn_logic S1) W \<tau> \<and> (\<forall>g \<in> gs. bval (cn_logic S1) \<tau> g))"
      using o(6) unfolding emits_def by blast
    note c' = emittedD(1) [OF cs(1)] and st = emittedD(2) [OF cs(1)]
    have \<tau>: "bval (cn_logic S') \<alpha> = ?\<tau>"
      using same_terms_bval [OF st] by blast
    have tf: "\<alpha> (term_TRUE (cn_logic S1))" "\<not> \<alpha> (term_FALSE (cn_logic S1))"
      using assms(6,7) ext_frame [OF S1(2)] by simp_all
    have law: "lawful (cn_logic S') ?\<tau>" and defs: "defs (cn_logic S1) W ?\<tau>"
      using bval_lawful [OF inv1 tf] o(2) same_terms_lawful [OF st] by blast+
    have "fr S' ?\<tau> \<or> (\<forall>g \<in> gs. ?\<tau> g)"
      using assms(8) f \<tau> o(4) bval_and_leaves [OF inv1 S1(6), of \<alpha>] S1(7) emittedD(4) [OF cs(1)] same_terms_frame [OF st]
      by (auto simp: fr_def)
    moreover have "bval (cn_logic S1) ?\<tau> g = ?\<tau> g" if "g \<in> gs" for g
      using o(4) that leaves_props [OF inv1 _ S1(6), of "sym_AND (cn_logic S1)"] nd
      by (intro bval_idem [OF inv1 _ tf]) auto
    ultimately have "sat (assignment_of S' ?\<tau>) cs"
      using cs(2) assignment_agrees [OF c'] law defs by blast
    moreover have "assignment_of S' ?\<tau> v = assignment_of S1 ?\<tau> v" if "v < var_cnt S1" for v
      using assignment_mono [OF S1(1) cs(1) that] .
    then have "sat (assignment_of S' ?\<tau>) (sent S1)"
      using old S1(1,3) sat_cong [of S1 "assignment_of S' ?\<tau>" "assignment_of S1 ?\<tau>"] by (simp add: cinv_def)
    ultimately show ?thesis
      by (simp add: emittedD(3) [OF cs(1)] \<tau>)
  qed
qed

text \<open>
  C38. The clauses are complete, for formulas of a logic in which no term applies \<open>distinct\<close> to
  Booleans: let a valuation of the atoms, with the constants true and false at their values, make the
  formula true, or the frame literal of a frame above the bottom, and let the assignment that gives
  every variable the value of its term satisfy the clauses before the call. Then the assignment
  extended to the variables made by the call satisfies the clauses after it, whatever was returned.
\<close>

theorem cnfize_complete:
  assumes "cinv S" and "no_distinct (cn_logic S)" and "bterm (cn_logic S) f" and "frame_ready i S"
    and "cnfizeAndGiveToSolver A okay f i S = Inr (r, S')"
    and "\<alpha> (term_TRUE (cn_logic S))" and "\<not> \<alpha> (term_FALSE (cn_logic S))"
    and "bval (cn_logic S) \<alpha> f \<or> i \<noteq> 0 \<and> bval (cn_logic S') \<alpha> (frame_term S')"
    and "sat (assignment_of S (bval (cn_logic S) \<alpha>)) (sent S)"
  shows "sat (assignment_of S' (bval (cn_logic S') \<alpha>)) (sent S')"
  using assms by (rule cnfize_extends)

lemma constants_0: "term_TRUE (cn_logic (cnf_start (start 0))) = 0" "term_FALSE (cn_logic (cnf_start (start 0))) = 1"
  using same_terms_frame [OF cnf_start_0(4)] by simp_all

lemma valuation_0: "lawful (start 0) (bval (cn_logic (cnf_start (start 0))) ((=) 0))" "bval (cn_logic (cnf_start (start 0))) ((=) 0) 0"
proof -
  let ?L = "cn_logic (cnf_start (start 0))"
  have inv: "linv ?L"
    using cnf_start_0(3) by (rule cinv_linv)
  show "lawful (start 0) (bval ?L ((=) 0))"
    using bval_lawful(1) [OF inv, of "(=) 0"] same_terms_lawful [OF cnf_start_0(4)] by (simp add: constants_0)
  then show "bval ?L ((=) 0) 0"
    by (simp add: lawful_def)
qed

theorem cnfize_complete_witness:
  "\<exists>S'. cnfizeAndGiveToSolver (\<lambda>_. True) (\<lambda>_. True) 0 0 (cnf_start (start 0)) = Inr (l_Undef, S') \<and>
    sat (assignment_of S' (bval (cn_logic S') ((=) 0))) (sent S')"
proof -
  obtain S' where S': "cnfizeAndGiveToSolver (\<lambda>_. True) (\<lambda>_. True) 0 0 (cnf_start (start 0)) = Inr (l_Undef, S')"
    using cnfize_result [OF cnf_start_0(3) cnf_start_terms(2,1) cnf_start_0(5), of "\<lambda>_. True" "\<lambda>_. True"] by auto
  have "sat (assignment_of S' (bval (cn_logic S') ((=) 0))) (sent S')"
    using cnfize_complete [OF cnf_start_0(3) cnf_start_terms(2,1) cnf_start_0(5) S', of "(=) 0"]
      cnf_start_0(6) valuation_0 by (simp add: constants_0)
  with S' show ?thesis
    by blast
qed

theorem cnfize_sound_witness:
  "\<exists>S' \<sigma>. cnfizeAndGiveToSolver (\<lambda>_. True) (\<lambda>_. True) 0 0 (cnf_start (start 0)) = Inr (l_Undef, S') \<and>
    sat \<sigma> (sent S') \<and> bval (cn_logic S') (term_value \<sigma> S') 0"
proof -
  obtain S' where S': "cnfizeAndGiveToSolver (\<lambda>_. True) (\<lambda>_. True) 0 0 (cnf_start (start 0)) = Inr (l_Undef, S')"
    using cnfize_result [OF cnf_start_0(3) cnf_start_terms(2,1) cnf_start_0(5), of "\<lambda>_. True" "\<lambda>_. True"] by auto
  let ?\<sigma> = "assignment_of S' (bval (cn_logic S') ((=) 0))"
  have "sat ?\<sigma> (sent S')"
    using cnfize_extends [OF cnf_start_0(3) cnf_start_terms(2,1) cnf_start_0(5) S', of "(=) 0"]
      cnf_start_0(6) valuation_0 by (simp add: constants_0)
  with cnfize_sound [OF cnf_start_0(3,2) cnf_start_terms(2,1) cnf_start_0(5) S', of ?\<sigma>] S' show ?thesis
    by blast
qed

section \<open>Assumptions for the frames\<close>

lemma lit_of_kept:
  assumes "emitted S S' cs" "cinv S" "bterm (cn_logic S) t" "bound (cn_logic S) t"
  shows "lit_of (cn_logic S') t = lit_of (cn_logic S) t" "bound (cn_logic S') t"
proof -
  have "fst (pure_term (cn_logic S) t) < nterms (cn_logic S)"
    using pure_bterm(1) [OF cinv_linv [OF assms(2)] assms(3)] by (simp add: bterm_def)
  then have "getVar_of (cn_logic S') (fst (pure_term (cn_logic S) t)) = getVar_of (cn_logic S) (fst (pure_term (cn_logic S) t))"
    using assms(1,4) by (auto simp: emitted_def bindings_kept_def bound_def)
  then show "lit_of (cn_logic S') t = lit_of (cn_logic S) t" "bound (cn_logic S') t"
    using assms(4) same_terms_pure [OF emittedD(2) [OF assms(1)]] by (simp_all add: lit_of_def bound_def)
qed

lemma create_lits_map:
  assumes "cinv S" "\<forall>t \<in> set ts. bterm (cn_logic S) t"
  shows "\<exists>S'. create_lits ts S = Inr (map (lit_of (cn_logic S')) ts, S') \<and> emitted S S' [] \<and>
    (\<forall>t \<in> set ts. bound (cn_logic S') t)"
  using assms
proof (induction ts arbitrary: S)
  case (Cons t ts)
  have t: "bterm (cn_logic S) t"
    using Cons.prems(2) by simp
  obtain S1 where S1: "getOrCreateLit S t = Inr (lit_of (cn_logic S1) t, S1)" "emitted S S1 []" "bound (cn_logic S1) t"
    using getOrCreateLit_ok [OF Cons.prems(1) t] by blast
  note c = emittedD(1) [OF S1(2)]
  obtain S2 where S2: "create_lits ts S1 = Inr (map (lit_of (cn_logic S2)) ts, S2)" "emitted S1 S2 []"
      "\<forall>t \<in> set ts. bound (cn_logic S2) t"
    using Cons.IH [OF c] Cons.prems(2) emitted_bterm [OF S1(2)] by auto
  have "lit_of (cn_logic S2) t = lit_of (cn_logic S1) t" "bound (cn_logic S2) t"
    using lit_of_kept [OF S2(2) c _ S1(3)] t emitted_bterm [OF S1(2)] by simp_all
  then show ?case
    using S1(1) S2 emitted_trans [OF S1(2) S2(2)] by simp
qed (simp add: emitted_refl)

lemma invert_lits_ok:
  "distinct is \<Longrightarrow> \<forall>i \<in> set is. i < length as \<Longrightarrow>
   \<exists>bs. invert_lits is as = Inr bs \<and> length bs = length as \<and>
     (\<forall>i < length as. bs ! i = (if i \<in> set is then lit_not (as ! i) else as ! i))"
proof (induction "is" arbitrary: as)
  case (Cons j js)
  let ?as = "as[j := lit_not (as ! j)]"
  obtain bs where bs: "invert_lits js ?as = Inr bs" "length bs = length as"
      "\<forall>i < length as. bs ! i = (if i \<in> set js then lit_not (?as ! i) else ?as ! i)"
    using Cons.IH [of ?as] Cons.prems by auto
  then have "\<forall>i < length as. bs ! i = (if i \<in> set (j # js) then lit_not (as ! i) else as ! i)"
    using Cons.prems by (auto simp: nth_list_update)
  then show ?case
    using bs(1,2) Cons.prems by simp
qed simp

lemma lit_var_of: "lit_var (lit_of L t) = the (getVar_of L (fst (pure_term L t)))"
  by (simp add: lit_of_def)

lemma same_var_lit:
  "l = lit_of L t \<or> l = lit_not (lit_of L t) \<Longrightarrow>
   (l \<noteq> lit_of L u \<and> l \<noteq> lit_not (lit_of L u)) \<longleftrightarrow> lit_var (lit_of L t) \<noteq> lit_var (lit_of L u)"
  by (auto simp: lit_of_def)

lemma same_var_true:
  assumes "cinv S" "bterm (cn_logic S) t" "bound (cn_logic S) t" "bound (cn_logic S) (term_TRUE (cn_logic S))"
  shows "lit_var (lit_of (cn_logic S) t) = lit_var (lit_of (cn_logic S) (term_TRUE (cn_logic S))) \<longleftrightarrow> t = term_TRUE (cn_logic S)"
proof -
  let ?L = "cn_logic S" and ?T = "term_TRUE (cn_logic S)"
  note inv = cinv_linv [OF assms(1)]
  note c = consts_bterm [OF inv]
  let ?p = "fst (pure_term ?L t)"
  have p: "?p < nterms ?L" "?T < nterms ?L"
    using pure_bterm(1) [OF inv assms(2)] c(1) by (simp_all add: bterm_def)
  obtain v w where vw: "getVar_of ?L ?p = Some v" "getVar_of ?L ?T = Some w"
    using assms(3,4) c(3) by (auto simp: bound_def)
  moreover have "map_ok S"
    using assms(1) by (simp add: cinv_def)
  then have "varToTerm S ! v = Some ?p" "varToTerm S ! w = Some ?T"
    using vw p by (simp_all add: map_ok_def)
  then have "v = w \<longleftrightarrow> ?p = ?T"
    using vw by auto
  moreover have "?p = ?T \<longleftrightarrow> t = ?T"
    using isNot_arg(3) [OF inv assms(2)] linv_isConst(1) [OF inv] c(3) by (auto simp: pure_term_def split: if_splits)
  ultimately show ?thesis
    using c(3) by (simp add: lit_var_of)
qed

text \<open>
  The assumptions of \<open>solve\<close>: under any assignment that gives every variable the value
  of its term they hold exactly when the terms of the enabled frames are false and those of the
  other frames are true, whatever frames have no term of their own; making them adds no clause.
\<close>

theorem solve_assumptions_frames:
  assumes "cinv S" and "frames_ok S" and "distinct en" and "\<forall>i \<in> set en. i < length (frame_terms S)"
  shows "\<exists>as S'. solve_assumptions en S = Inr (as, S') \<and> cinv S' \<and> sent S' = sent S \<and>
    (\<forall>\<sigma> \<tau>. agrees \<sigma> \<tau> S' \<longrightarrow> lawful (cn_logic S') \<tau> \<longrightarrow>
      ((\<forall>l \<in> set as. lsat \<sigma> l) \<longleftrightarrow>
       (\<forall>i < length (frame_terms S). frame_terms S ! i \<noteq> term_TRUE (cn_logic S) \<longrightarrow>
          \<tau> (frame_terms S ! i) = (i \<notin> set en))))"
proof -
  let ?fs = "frame_terms S"
  have fs: "\<forall>t \<in> set ?fs. bterm (cn_logic S) t"
    using assms(2) by (simp add: frames_ok_def)
  obtain S1 where S1: "create_lits ?fs S = Inr (map (lit_of (cn_logic S1)) ?fs, S1)" "emitted S S1 []"
      "\<forall>t \<in> set ?fs. bound (cn_logic S1) t"
    using create_lits_map [OF assms(1) fs] by blast
  note c1 = emittedD(1) [OF S1(2)]
  obtain bs where bs: "invert_lits en (map (lit_of (cn_logic S1)) ?fs) = Inr bs" "length bs = length ?fs"
      "\<forall>i < length ?fs. bs ! i = (if i \<in> set en then lit_not (lit_of (cn_logic S1) (?fs ! i)) else lit_of (cn_logic S1) (?fs ! i))"
    using invert_lits_ok [of en "map (lit_of (cn_logic S1)) ?fs"] assms(3,4) by auto
  note T = consts_bterm(1) [OF cinv_linv [OF c1]]
  obtain S2 where S2: "getOrCreateLit S1 (term_TRUE (cn_logic S1)) = Inr (lit_of (cn_logic S2) (term_TRUE (cn_logic S1)), S2)"
      "emitted S1 S2 []" "bound (cn_logic S2) (term_TRUE (cn_logic S1))"
    using getOrCreateLit_ok [OF c1 T] by blast
  note c2 = emittedD(1) [OF S2(2)] and e2 = emitted_trans [OF S1(2) S2(2)]
  have tt: "term_TRUE (cn_logic S1) = term_TRUE (cn_logic S)" "term_TRUE (cn_logic S2) = term_TRUE (cn_logic S)"
    using same_terms_frame [OF emittedD(2) [OF S1(2)]] same_terms_frame [OF emittedD(2) [OF e2]] by simp_all
  let ?T = "lit_of (cn_logic S2) (term_TRUE (cn_logic S))"
  let ?as = "filter (\<lambda>a. a \<noteq> ?T \<and> a \<noteq> lit_not ?T) bs"
  have run: "solve_assumptions en S = Inr (?as, S2)"
    using S1(1) bs(1) S2(1) by (simp add: solve_assumptions_def tt)
  have l2: "lit_of (cn_logic S1) (?fs ! i) = lit_of (cn_logic S2) (?fs ! i)" "bound (cn_logic S2) (?fs ! i)"
    "bterm (cn_logic S2) (?fs ! i)" if "i < length ?fs" for i
    using lit_of_kept [OF S2(2) c1] S1(3) fs that emitted_bterm [OF S1(2)] emitted_bterm [OF e2] by simp_all
  have keep: "(bs ! i \<noteq> ?T \<and> bs ! i \<noteq> lit_not ?T) \<longleftrightarrow> ?fs ! i \<noteq> term_TRUE (cn_logic S)" if "i < length ?fs" for i
  proof -
    have "bs ! i = lit_of (cn_logic S2) (?fs ! i) \<or> bs ! i = lit_not (lit_of (cn_logic S2) (?fs ! i))"
      using bs(3) that l2(1) [OF that] by auto
    then show ?thesis
      using same_var_true [OF c2 l2(3,2) [OF that]] S2(3) by (simp add: same_var_lit tt)
  qed
  have lits: "lsat \<sigma> (bs ! i) = (\<tau> (?fs ! i) = (i \<notin> set en))"
    if "i < length ?fs" "agrees \<sigma> \<tau> S2" "lawful (cn_logic S2) \<tau>" for i \<sigma> \<tau>
    using lmeans_lit [OF c2 l2(3,2) [OF that(1)]] bs(3) that l2(1) [OF that(1)] by (auto simp: lmeans_def)
  have "(\<forall>l \<in> set ?as. lsat \<sigma> l) \<longleftrightarrow> (\<forall>i < length ?fs. ?fs ! i \<noteq> term_TRUE (cn_logic S) \<longrightarrow> \<tau> (?fs ! i) = (i \<notin> set en))"
    if "agrees \<sigma> \<tau> S2" "lawful (cn_logic S2) \<tau>" for \<sigma> \<tau>
  proof -
    have "(\<forall>l \<in> set ?as. lsat \<sigma> l) \<longleftrightarrow> (\<forall>i < length ?fs. bs ! i \<noteq> ?T \<and> bs ! i \<noteq> lit_not ?T \<longrightarrow> lsat \<sigma> (bs ! i))"
      using bs(2) by (auto simp: all_set_conv_all_nth in_set_conv_nth)
    then show ?thesis
      using keep lits that by auto
  qed
  then show ?thesis
    using run c2 emittedD(3) [OF e2] by auto
qed

theorem solve_assumptions_frames_witness:
  "\<exists>as S'. solve_assumptions [0] (cnf_start (start 0)) = Inr (as, S') \<and> cinv S'"
  using solve_assumptions_frames [OF cnf_start_0(3), of "[0]"] cnf_start_0(5) by (auto simp: frame_ready_def frames_ok_def)

end
