(* ===== verification/Vec_Sort.thy ===== *)
theory Vec_Sort
  imports Opensmt_Prelude "HOL-Library.Multiset"
begin

text \<open>
  \<open>sort\<close> of \<open>src/src/minisat/mtl/Sort.h\<close> with the order \<open><\<close> of the elements: selection
  sort for at most 15 elements, quicksort with the pivot in the middle otherwise. A part of an array
  is a list. The two scans of the partition read the array without a test of the index, so an
  index out of range is the value \<open>Uninitialised_Read\<close>.
\<close>

section \<open>Selection sort\<close>

definition swap_at :: "'a list \<Rightarrow> nat \<Rightarrow> nat \<Rightarrow> 'a list" where
  "swap_at xs i j = xs[i := xs ! j, j := xs ! i]"

text \<open>The inner loop: the index of the first smallest element from \<open>j\<close> on, or \<open>best\<close>.\<close>

fun best_index :: "('a :: linorder) list \<Rightarrow> nat list \<Rightarrow> nat \<Rightarrow> nat" where
  "best_index xs [] best = best"
| "best_index xs (j # js) best = best_index xs js (if xs ! j < xs ! best then j else best)"

fun selection_loop :: "nat list \<Rightarrow> ('a :: linorder) list \<Rightarrow> 'a list" where
  "selection_loop [] xs = xs"
| "selection_loop (i # is) xs =
     selection_loop is (swap_at xs i (best_index xs [i + 1 ..< length xs] i))"

definition selectionSort :: "('a :: linorder) list \<Rightarrow> 'a list" where
  "selectionSort xs = selection_loop [0 ..< length xs - 1] xs"

section \<open>Quicksort\<close>

text \<open>
  The index variables of the code start one place outside the part that is left, and are moved
  before the first comparison: \<open>i\<close> is the next index of the upward scan, \<open>j\<close> is one above
  the next index of the downward scan.
\<close>

function scan_up :: "('a :: linorder) list \<Rightarrow> 'a \<Rightarrow> nat \<Rightarrow> nat result" where
  "scan_up xs pv i = (if i < length xs then if xs ! i < pv then scan_up xs pv (i + 1) else Inr i
     else Inl Uninitialised_Read)"
  by pat_completeness auto
termination by (relation "measure (\<lambda>(xs, _, i). length xs - i)") auto

declare scan_up.simps [simp del]

fun scan_down :: "('a :: linorder) list \<Rightarrow> 'a \<Rightarrow> nat \<Rightarrow> nat result" where
  "scan_down xs pv 0 = Inl Uninitialised_Read"
| "scan_down xs pv (Suc j) = (if pv < xs ! j then scan_down xs pv j else Inr j)"

lemma scan_down_less: "scan_down xs pv j = Inr k \<Longrightarrow> k < j"
  by (induction xs pv j rule: scan_down.induct) (auto split: if_splits)

function partition_loop :: "('a :: linorder) list \<Rightarrow> 'a \<Rightarrow> nat \<Rightarrow> nat \<Rightarrow> (nat \<times> 'a list) result" where
  "partition_loop xs pv i j = rbind (scan_up xs pv i) (\<lambda>i'.
     case scan_down xs pv j of
       Inl e \<Rightarrow> Inl e
     | Inr j' \<Rightarrow> (if i' \<ge> j' then Inr (i', xs) else partition_loop (swap_at xs i' j') pv (i' + 1) j'))"
  by pat_completeness auto
termination
  by (relation "measure (\<lambda>(_, _, _, j). j)") (auto dest: scan_down_less)

declare partition_loop.simps [simp del]

partial_function (option) vec_sort :: "('a :: linorder) list \<Rightarrow> 'a list result option" where
  "vec_sort xs =
     (if length xs \<le> 15 then Some (Inr (selectionSort xs))
      else case partition_loop xs (xs ! (length xs div 2)) 0 (length xs) of
        Inl e \<Rightarrow> Some (Inl e)
      | Inr (i, ys) \<Rightarrow> Option.bind (vec_sort (take i ys)) (\<lambda>r. case r of
          Inl e \<Rightarrow> Some (Inl e)
        | Inr us \<Rightarrow> Option.bind (vec_sort (drop i ys)) (\<lambda>r. case r of
            Inl e \<Rightarrow> Some (Inl e)
          | Inr vs \<Rightarrow> Some (Inr (us @ vs)))))"

section \<open>Selection sort sorts\<close>

lemma swap_at_mset: "i < length xs \<Longrightarrow> j < length xs \<Longrightarrow> mset (swap_at xs i j) = mset xs"
  unfolding swap_at_def by (rule mset_swap)

lemma swap_at_length [simp]: "length (swap_at xs i j) = length xs"
  by (simp add: swap_at_def)

lemma swap_at_nth:
  "i < length xs \<Longrightarrow> j < length xs \<Longrightarrow> swap_at xs i j ! k = (if k = j then xs ! i else if k = i then xs ! j else xs ! k)"
  by (cases "k < length xs") (auto simp: swap_at_def nth_list_update)

lemma best_index_least:
  "best_index xs js b \<in> insert b (set js) \<and> xs ! best_index xs js b \<le> xs ! b \<and>
   (\<forall>j \<in> set js. xs ! best_index xs js b \<le> xs ! j)"
proof (induction js arbitrary: b)
  case (Cons j js)
  show ?case
    using Cons.IH [of j] Cons.IH [of b] by (cases "xs ! j < xs ! b") auto
qed simp

lemma selection_loop_sorts:
  assumes "i < length xs" and "sorted (take i xs)"
    and "\<forall>a < i. \<forall>b < length xs. i \<le> b \<longrightarrow> xs ! a \<le> xs ! b"
  shows "sorted (selection_loop [i ..< length xs - 1] xs) \<and> mset (selection_loop [i ..< length xs - 1] xs) = mset xs"
  using assms
proof (induction "length xs - i" arbitrary: i xs)
  case (Suc n)
  show ?case
  proof (cases "i < length xs - 1")
    case False
    then have i: "length xs = i + 1" "drop i xs = [xs ! i]"
      using Suc.prems(1) by (auto simp: Cons_nth_drop_Suc [symmetric])
    have "sorted (take i xs @ [xs ! i])"
      using Suc.prems(2,3) i(1) by (auto simp: sorted_append in_set_conv_nth)
    then show ?thesis
      using False i by (metis append_take_drop_id selection_loop.simps(1) upt_rec)
  next
    case True
    define b where "b = best_index xs [i + 1 ..< length xs] i"
    let ?ys = "swap_at xs i b"
    note best = best_index_least [of xs "[i + 1 ..< length xs]" i, folded b_def]
    have b: "i \<le> b" "b < length xs"
      using best Suc.prems(1) by auto
    have least: "xs ! b \<le> xs ! k" if "i \<le> k" "k < length xs" for k
      using best that by (cases "k = i") auto
    have nth: "?ys ! k = (if k = b then xs ! i else if k = i then xs ! b else xs ! k)" for k
      by (rule swap_at_nth [OF Suc.prems(1) b(2)])
    have low: "take i ?ys = take i xs"
      using b by (simp add: swap_at_def)
    have "take (i + 1) ?ys = take i xs @ [xs ! b]"
      using True by (simp add: take_Suc_conv_app_nth low nth)
    then have "sorted (take (i + 1) ?ys)"
      using Suc.prems(2,3) b by (auto simp: sorted_append in_set_conv_nth)
    moreover have "\<forall>a < i + 1. \<forall>k < length ?ys. i + 1 \<le> k \<longrightarrow> ?ys ! a \<le> ?ys ! k"
    proof (intro allI impI)
      fix a k assume ak: "a < i + 1" "k < length ?ys" "i + 1 \<le> k"
      show "?ys ! a \<le> ?ys ! k"
        using ak b least Suc.prems(1,3) by (cases "a = i") (auto simp: nth)
    qed
    moreover have "n = length ?ys - (i + 1)" "i + 1 < length ?ys"
      using Suc.hyps(2) True by simp_all
    ultimately have "sorted (selection_loop [i + 1 ..< length xs - 1] ?ys) \<and>
        mset (selection_loop [i + 1 ..< length xs - 1] ?ys) = mset ?ys"
      using Suc.hyps(1) [of ?ys "i + 1"] by simp
    then show ?thesis
      using swap_at_mset [OF Suc.prems(1) b(2)] True by (simp add: upt_rec b_def)
  qed
qed simp

lemma selectionSort_sorts: "selectionSort xs = sort xs"
proof (cases "xs = []")
  case False
  then have "sorted (selectionSort xs) \<and> mset (selectionSort xs) = mset xs"
    using selection_loop_sorts [of 0 xs] by (simp add: selectionSort_def)
  then show ?thesis
    by (metis properties_for_sort)
qed (simp add: selectionSort_def)

section \<open>The partition\<close>

lemma scan_up_stops:
  assumes "k < length xs" "i \<le> k" "pv \<le> xs ! k"
  shows "\<exists>i'. scan_up xs pv i = Inr i' \<and> i \<le> i' \<and> i' \<le> k \<and> pv \<le> xs ! i' \<and> (\<forall>m. i \<le> m \<and> m < i' \<longrightarrow> xs ! m < pv)"
  using assms
proof (induction "k - i" arbitrary: i)
  case 0
  then show ?case
    by (subst scan_up.simps) auto
next
  case (Suc n)
  show ?case
  proof (cases "xs ! i < pv")
    case True
    then have "i + 1 \<le> k"
      using Suc.hyps(2) by simp
    moreover have "n = k - (i + 1)"
      using Suc.hyps(2) by simp
    ultimately obtain i' where i': "scan_up xs pv (i + 1) = Inr i'" "i + 1 \<le> i'" "i' \<le> k" "pv \<le> xs ! i'"
        "\<forall>m. i + 1 \<le> m \<and> m < i' \<longrightarrow> xs ! m < pv"
      using Suc.hyps(1) [OF _ Suc.prems(1) _ Suc.prems(3)] by blast
    have "\<forall>m. i \<le> m \<and> m < i' \<longrightarrow> xs ! m < pv"
      using i'(5) True by (metis Suc_eq_plus1 le_antisym not_less_eq_eq)
    then show ?thesis
      using i' True Suc.prems by (subst scan_up.simps) auto
  next
    case False
    then show ?thesis
      using Suc.prems by (subst scan_up.simps) auto
  qed
qed

lemma scan_down_stops:
  assumes "k < j" "xs ! k \<le> pv"
  shows "\<exists>j'. scan_down xs pv j = Inr j' \<and> k \<le> j' \<and> j' < j \<and> xs ! j' \<le> pv \<and> (\<forall>m. j' < m \<and> m < j \<longrightarrow> pv < xs ! m)"
  using assms
proof (induction xs pv j rule: scan_down.induct)
  case (2 xs pv j)
  show ?case
  proof (cases "pv < xs ! j")
    case True
    then have "k < j"
      using "2.prems" by (metis less_SucE not_le)
    with 2 True obtain j' where "scan_down xs pv j = Inr j'" "k \<le> j'" "j' < j" "xs ! j' \<le> pv"
        "\<forall>m. j' < m \<and> m < j \<longrightarrow> pv < xs ! m"
      by metis
    with True show ?thesis
      by (auto simp: less_Suc_eq)
  next
    case False
    then show ?thesis
      using "2.prems" by auto
  qed
qed simp

lemma partition_loop_ok:
  assumes "\<forall>m < i. xs ! m \<le> pv" and "\<forall>m. j \<le> m \<and> m < length xs \<longrightarrow> pv \<le> xs ! m"
    and "j \<le> length xs" and "\<exists>k < length xs. i \<le> k \<and> pv \<le> xs ! k" and "\<exists>k < j. xs ! k \<le> pv"
    and "0 < i \<or> (\<exists>k < j. xs ! k \<le> pv \<and> 0 < k)"
  shows "\<exists>i' ys. partition_loop xs pv i j = Inr (i', ys) \<and> mset ys = mset xs \<and> 0 < i' \<and> i' < length xs \<and>
    (\<forall>m < i'. ys ! m \<le> pv) \<and> (\<forall>m. i' \<le> m \<and> m < length xs \<longrightarrow> pv \<le> ys ! m)"
  using assms
proof (induction j arbitrary: xs i rule: less_induct)
  case (less j)
  obtain k where k: "k < length xs" "i \<le> k" "pv \<le> xs ! k"
    using less.prems(4) by blast
  obtain i' where i': "scan_up xs pv i = Inr i'" "i \<le> i'" "i' \<le> k" "pv \<le> xs ! i'" "\<forall>m. i \<le> m \<and> m < i' \<longrightarrow> xs ! m < pv"
    using scan_up_stops [OF k] by blast
  have "\<exists>l < j. xs ! l \<le> pv \<and> (0 < i \<or> 0 < l)"
    using less.prems(5,6) by (cases "0 < i") simp_all
  then obtain l where l: "l < j" "xs ! l \<le> pv" "0 < i \<or> 0 < l"
    by blast
  obtain j' where j': "scan_down xs pv j = Inr j'" "l \<le> j'" "j' < j" "xs ! j' \<le> pv" "\<forall>m. j' < m \<and> m < j \<longrightarrow> pv < xs ! m"
    using scan_down_stops [OF l(1,2)] by blast
  have low: "\<forall>m < i'. xs ! m \<le> pv"
    using less.prems(1) i'(5) by (metis less_imp_le not_le)
  have high: "\<forall>m. j' < m \<and> m < length xs \<longrightarrow> pv \<le> xs ! m"
    using less.prems(2) j'(5) by (metis less_imp_le not_le)
  show ?case
  proof (cases "i' \<ge> j'")
    case True
    have "pv \<le> xs ! m" if "i' \<le> m" "m < length xs" for m
      using high i'(4) that True by (cases "m = i'") simp_all
    moreover have "0 < i'"
      by (rule disjE [OF l(3)]) (use i'(2) j'(2) True in linarith)+
    moreover have "i' < length xs"
      using i'(3) k(1) by linarith
    moreover have "partition_loop xs pv i j = Inr (i', xs)"
      using True i'(1) j'(1) by (subst partition_loop.simps) simp
    ultimately show ?thesis
      using low by simp
  next
    case False
    let ?ys = "swap_at xs i' j'"
    have b: "i' < length xs" "j' < length xs"
      using i'(3) k(1) j'(3) less.prems(3) by simp_all
    note nth = swap_at_nth [OF b]
    have 1: "\<forall>m < i' + 1. ?ys ! m \<le> pv"
      using low j'(4) False by (auto simp: nth less_Suc_eq)
    have 2: "\<forall>m. j' \<le> m \<and> m < length ?ys \<longrightarrow> pv \<le> ?ys ! m"
      using high i'(4) False by (auto simp: nth)
    have 3: "\<exists>k < length ?ys. i' + 1 \<le> k \<and> pv \<le> ?ys ! k"
      using b i'(4) False by (intro exI [of _ j']) (simp add: nth)
    have 4: "\<exists>k < j'. ?ys ! k \<le> pv"
      using j'(4) False by (intro exI [of _ i']) (simp add: nth)
    have "\<exists>r ys. partition_loop ?ys pv (i' + 1) j' = Inr (r, ys) \<and> mset ys = mset ?ys \<and> 0 < r \<and> r < length ?ys \<and>
        (\<forall>m < r. ys ! m \<le> pv) \<and> (\<forall>m. r \<le> m \<and> m < length ?ys \<longrightarrow> pv \<le> ys ! m)"
      by (rule less.IH [OF j'(3) 1 2 _ 3 4]) (use b in simp_all)
    then show ?thesis
      using False i'(1) j'(1) swap_at_mset [OF b] by (subst partition_loop.simps) simp
  qed
qed

section \<open>The sort\<close>

lemma vec_sort_ok: "vec_sort xs = Some (Inr (sort xs))"
proof (induction "length xs" arbitrary: xs rule: less_induct)
  case less
  show ?case
  proof (cases "length xs \<le> 15")
    case True
    then show ?thesis
      by (subst vec_sort.simps) (simp add: selectionSort_sorts)
  next
    case False
    let ?m = "length xs div 2"
    let ?pv = "xs ! ?m"
    have m: "?m < length xs" "0 < ?m"
      using False by simp_all
    obtain i ys where p: "partition_loop xs ?pv 0 (length xs) = Inr (i, ys)" "mset ys = mset xs" "0 < i" "i < length xs"
        "\<forall>k < i. ys ! k \<le> ?pv" "\<forall>k. i \<le> k \<and> k < length xs \<longrightarrow> ?pv \<le> ys ! k"
    proof -
      have "\<forall>k < 0. xs ! k \<le> ?pv" "\<forall>k. length xs \<le> k \<and> k < length xs \<longrightarrow> ?pv \<le> xs ! k"
        by auto
      moreover have "\<exists>k < length xs. 0 \<le> k \<and> ?pv \<le> xs ! k" "\<exists>k < length xs. xs ! k \<le> ?pv"
          "0 < (0 :: nat) \<or> (\<exists>k < length xs. xs ! k \<le> ?pv \<and> 0 < k)"
        using m by (auto intro: exI [of _ ?m])
      ultimately show thesis
        using partition_loop_ok [OF _ _ order_refl, of 0 xs ?pv] that by blast
    qed
    have len: "length ys = length xs"
      using p(2) by (metis size_mset)
    have "vec_sort (take i ys) = Some (Inr (sort (take i ys)))" "vec_sort (drop i ys) = Some (Inr (sort (drop i ys)))"
      using less [of "take i ys"] less [of "drop i ys"] p(3,4) len by simp_all
    then have r: "vec_sort xs = Some (Inr (sort (take i ys) @ sort (drop i ys)))"
      using False p(1) by (subst vec_sort.simps) simp
    have "a \<le> b" if a: "a \<in> set (take i ys)" and b: "b \<in> set (drop i ys)" for a b
    proof -
      obtain k where "k < i" "a = ys ! k"
        using a by (auto simp: in_set_conv_nth)
      moreover obtain l where "i + l < length xs" "b = ys ! (i + l)"
        using b len p(4) by (auto simp: in_set_conv_nth less_diff_conv add.commute)
      ultimately show ?thesis
        using p(5,6) by (meson le_add1 order_trans)
    qed
    then have "sorted (sort (take i ys) @ sort (drop i ys))"
      by (simp add: sorted_append)
    moreover have "mset (sort (take i ys) @ sort (drop i ys)) = mset xs"
      using p(2) append_take_drop_id [of i ys] by (metis mset_append mset_sort)
    ultimately show ?thesis
      using r by (metis properties_for_sort)
  qed
qed

text \<open>
  C36. The sort of the vectors returns for every vector, reads no element out of range, and computes
  the sorted permutation.
\<close>

theorem vec_sort_sorts:
  "\<exists>ys. vec_sort xs = Some (Inr ys) \<and> sorted ys \<and> mset ys = mset xs"
  by (simp add: vec_sort_ok)

end
