(* ===== verification/Sat_Solver.thy ===== *)
theory Sat_Solver
  imports Solver_Types Vec_Sort "HOL-Library.While_Combinator"
begin

text \<open>
  The clause database, the trail and unit propagation of the SAT solver:
  \<open>Clause\<close>, \<open>ClauseAllocator\<close> and \<open>OccLists\<close> of
  \<open>src/src/minisat/core/SolverTypes.h\<close> and the class \<open>CoreSMTSolver\<close> of
  \<open>src/src/smtsolvers\<close>, without \<open>PRODUCE_PROOF\<close>.

  A clause reference is the offset of the clause in the arena. The arena is unbounded here: the
  exception at 2^32 words is not modelled. What only steers heuristics or statistics is left out:
  activities, counters, and the order of the heap of decision variables, which is the list of its
  elements. The theory handler has its own state, which the operations below do not read; its
  notifications (\<open>backtrack\<close>, \<open>pushDeduction\<close>) are left out.
\<close>

section \<open>Clauses\<close>

datatype cref = CRef nat | CRef_Undef | CRef_Fake

text \<open>
  The header and the literals; the extra word of a clause that is not learnt is the abstraction of its
  set of variables. The extra word of a learnt clause is its activity, which is left out.
\<close>

record clause =
  c_mark :: nat
  c_learnt :: bool
  c_extra :: bool
  lits :: "lit list"
  c_abs :: "32 word"

definition abstraction_of :: "lit list \<Rightarrow> 32 word" where
  "abstraction_of ls = foldl (\<lambda>a l. a OR push_bit (lit_var l mod 32) 1) 0 ls"

definition calcAbstraction :: "clause \<Rightarrow> clause result" where
  "calcAbstraction c = require (c_extra c) (Inr (c\<lparr>c_abs := abstraction_of (lits c)\<rparr>))"

definition Clause :: "lit list \<Rightarrow> bool \<Rightarrow> bool \<Rightarrow> clause" where
  "Clause ps use_extra lrnt = \<lparr>c_mark = 0, c_learnt = lrnt, c_extra = use_extra, lits = ps,
     c_abs = (if use_extra \<and> \<not> lrnt then abstraction_of ps else 0)\<rparr>"

text \<open>The inner loop of \<open>subsumes\<close>: whether a literal is found, and the literal to remove.\<close>

fun subsumes_lit :: "lit \<Rightarrow> lit list \<Rightarrow> lit \<Rightarrow> (bool \<times> lit)" where
  "subsumes_lit p [] ret = (False, ret)"
| "subsumes_lit p (d # ds) ret =
     (if p = d then (True, ret)
      else if ret = lit_Undef \<and> p = lit_not d then (True, p)
      else subsumes_lit p ds ret)"

fun subsumes_loop :: "lit list \<Rightarrow> lit list \<Rightarrow> lit \<Rightarrow> lit" where
  "subsumes_loop [] ds ret = ret"
| "subsumes_loop (p # ps) ds ret =
     (let (found, ret') = subsumes_lit p ds ret in if found then subsumes_loop ps ds ret' else lit_Error)"

definition subsumes :: "clause \<Rightarrow> clause \<Rightarrow> lit result" where
  "subsumes c d = require (\<not> c_learnt c) (require (\<not> c_learnt d) (require (c_extra c) (require (c_extra d)
     (Inr (if length (lits d) < length (lits c) \<or> c_abs c AND NOT (c_abs d) \<noteq> 0 then lit_Error
       else subsumes_loop (lits c) (lits d) lit_Undef)))))"

text \<open>\<open>remove\<close> of \<open>minisat/mtl/Alg.h\<close>: the first occurrence, which must exist.\<close>

definition vec_remove :: "'a list \<Rightarrow> ('a \<Rightarrow> bool) \<Rightarrow> 'a list result" where
  "vec_remove xs P = (let n = length (takeWhile (\<lambda>x. \<not> P x) xs) in
     require (n < length xs) (Inr (take n xs @ drop (n + 1) xs)))"

definition strengthen :: "lit \<Rightarrow> clause \<Rightarrow> clause result" where
  "strengthen p c = rbind (vec_remove (lits c) (\<lambda>l. l = p)) (\<lambda>ls. calcAbstraction (c\<lparr>lits := ls\<rparr>))"

text \<open>The arena: the clauses at their offsets, the words in use and the words given back.\<close>

record clause_alloc =
  al_mem :: "nat \<Rightarrow> clause option"
  al_size :: nat
  al_wasted :: nat
  extra_clause_field :: bool

definition clauseWord32Size :: "nat \<Rightarrow> bool \<Rightarrow> nat" where
  "clauseWord32Size n extra = (4 + 4 * (n + (if extra then 1 else 0))) div 4"

definition ca_alloc :: "lit list \<Rightarrow> bool \<Rightarrow> clause_alloc \<Rightarrow> nat \<times> clause_alloc" where
  "ca_alloc ps lrnt a =
     (let use_extra = lrnt \<or> extra_clause_field a; cid = al_size a in
      (cid, a\<lparr>al_size := cid + clauseWord32Size (length ps) use_extra,
              al_mem := (al_mem a)(cid \<mapsto> Clause ps use_extra lrnt)\<rparr>))"

definition ca_free :: "nat \<Rightarrow> clause_alloc \<Rightarrow> clause_alloc" where
  "ca_free cid a = (case al_mem a cid of None \<Rightarrow> a
     | Some c \<Rightarrow> a\<lparr>al_wasted := al_wasted a + clauseWord32Size (length (lits c)) (c_extra c)\<rparr>)"

section \<open>The state of the solver\<close>

datatype watcher = Watcher (w_cref: nat) (w_blocker: lit)

datatype undo_stack_el = NEWVAR nat | NEWUNIT | NEWCLAUSE nat | NEWLEARNT nat | NEWAXIOM nat

text \<open>
  \<open>occs\<close>, \<open>dirty\<close> and \<open>dirties\<close> are the three vectors of \<open>watches\<close>;
  \<open>theory_var\<close> is the answer of the theory handler, whether the term of a variable is a theory
  term.
\<close>

record sat_solver =
  sat_ok :: bool
  ca :: clause_alloc
  clauses :: "nat list"
  learnts :: "nat list"
  occs :: "watcher list list"
  dirty :: "bool list"
  dirties :: "lit list"
  assigns :: "lbool list"
  vardata :: "(cref \<times> nat) list"
  trail :: "lit list"
  trail_lim :: "nat list"
  qhead :: nat
  decision :: "bool list"
  polarity :: "bool list"
  seen :: "bool list"
  var_seen :: "bool list"
  order_heap :: "nat list"
  undo_stack :: "undo_stack_el list"
  undo_stack_size :: "nat list"
  undo_trail_size :: "nat list"
  phase_saving :: int
  theory_var :: "nat \<Rightarrow> bool"

definition nVars :: "'a sat_solver_scheme \<Rightarrow> nat" where
  "nVars s = length (vardata s)"

definition val_var :: "'a sat_solver_scheme \<Rightarrow> nat \<Rightarrow> lbool" where
  "val_var s v = assigns s ! v"

definition val_lit :: "'a sat_solver_scheme \<Rightarrow> lit \<Rightarrow> lbool" where
  "val_lit s p = lbool_xor (assigns s ! lit_var p) (lit_sign p)"

definition reason :: "'a sat_solver_scheme \<Rightarrow> nat \<Rightarrow> cref" where
  "reason s v = fst (vardata s ! v)"

definition level :: "'a sat_solver_scheme \<Rightarrow> nat \<Rightarrow> nat" where
  "level s v = snd (vardata s ! v)"

definition decisionLevel :: "'a sat_solver_scheme \<Rightarrow> nat" where
  "decisionLevel s = length (trail_lim s)"

definition abstractLevel :: "'a sat_solver_scheme \<Rightarrow> nat \<Rightarrow> 32 word" where
  "abstractLevel s v = push_bit (level s v mod 32) 1"

definition newDecisionLevel :: "'a sat_solver_scheme \<Rightarrow> 'a sat_solver_scheme" where
  "newDecisionLevel s = s\<lparr>trail_lim := trail_lim s @ [length (trail s)]\<rparr>"

text \<open>A read of the arena at an offset where no clause was allocated is an error.\<close>

definition clause_at :: "'a sat_solver_scheme \<Rightarrow> nat \<Rightarrow> clause result" where
  "clause_at s cr = (case al_mem (ca s) cr of None \<Rightarrow> Inl Uninitialised_Read | Some c \<Rightarrow> Inr c)"

definition set_lits :: "nat \<Rightarrow> lit list \<Rightarrow> 'a sat_solver_scheme \<Rightarrow> 'a sat_solver_scheme" where
  "set_lits cr ls s = (case al_mem (ca s) cr of None \<Rightarrow> s
     | Some c \<Rightarrow> s\<lparr>ca := (ca s)\<lparr>al_mem := (al_mem (ca s))(cr \<mapsto> c\<lparr>lits := ls\<rparr>)\<rparr>\<rparr>)"

section \<open>Variables\<close>

definition grow_to :: "nat \<Rightarrow> 'b \<Rightarrow> 'b list \<Rightarrow> 'b list" where
  "grow_to n d xs = xs @ replicate (n - length xs) d"

definition watches_init :: "lit \<Rightarrow> 'a sat_solver_scheme \<Rightarrow> 'a sat_solver_scheme" where
  "watches_init p s = s\<lparr>occs := grow_to (nat p + 1) [] (occs s), dirty := grow_to (nat p + 1) False (dirty s)\<rparr>"

definition insertVarOrder :: "nat \<Rightarrow> 'a sat_solver_scheme \<Rightarrow> 'a sat_solver_scheme" where
  "insertVarOrder x s =
     (if x \<notin> set (order_heap s) \<and> decision s ! x then s\<lparr>order_heap := order_heap s @ [x]\<rparr> else s)"

definition setDecisionVar :: "nat \<Rightarrow> bool \<Rightarrow> 'a sat_solver_scheme \<Rightarrow> 'a sat_solver_scheme" where
  "setDecisionVar v b s = insertVarOrder v (s\<lparr>decision := (decision s)[v := b]\<rparr>)"

text \<open>The polarity is pushed twice, as in the code.\<close>

definition newVar :: "bool \<Rightarrow> bool \<Rightarrow> 'a sat_solver_scheme \<Rightarrow> nat \<times> 'a sat_solver_scheme" where
  "newVar sg dvar s =
     (let v = nVars s;
          s1 = watches_init (mkLit v True) (watches_init (mkLit v False) s);
          s2 = s1\<lparr>assigns := assigns s1 @ [l_Undef], vardata := vardata s1 @ [(CRef_Undef, 0)],
                  seen := seen s1 @ [False], polarity := polarity s1 @ [sg], decision := decision s1 @ [False]\<rparr>;
          s3 = setDecisionVar v dvar s2;
          s4 = s3\<lparr>polarity := polarity s3 @ [sg], var_seen := var_seen s3 @ [False]\<rparr>;
          s5 = insertVarOrder v s4
      in (v, if v \<noteq> 0 \<and> v \<noteq> 1 then s5\<lparr>undo_stack := undo_stack s5 @ [NEWVAR v]\<rparr> else s5))"

text \<open>\<open>newVar\<close> is virtual, so \<open>addVar_\<close> takes it as an argument.\<close>

definition addVar_core ::
  "(bool \<Rightarrow> bool \<Rightarrow> 'a sat_solver_scheme \<Rightarrow> nat \<times> 'a sat_solver_scheme) \<Rightarrow> nat \<Rightarrow> 'a sat_solver_scheme \<Rightarrow>
    'a sat_solver_scheme result" where
  "addVar_core nv v s =
     (if v < nVars s then let s1 = insertVarOrder v s in Inr (s1\<lparr>decision := (decision s1)[v := True]\<rparr>)
      else returns (while_option (\<lambda>s. nVars s \<le> v) (\<lambda>s. snd (nv True True s)) s))"

section \<open>Watches\<close>

definition push_watch :: "lit \<Rightarrow> watcher \<Rightarrow> 'a sat_solver_scheme \<Rightarrow> 'a sat_solver_scheme" where
  "push_watch p w s = s\<lparr>occs := (occs s)[nat p := occs s ! nat p @ [w]]\<rparr>"

definition smudge :: "lit \<Rightarrow> 'a sat_solver_scheme \<Rightarrow> 'a sat_solver_scheme" where
  "smudge p s = (if \<not> dirty s ! nat p then s\<lparr>dirty := (dirty s)[nat p := True], dirties := dirties s @ [p]\<rparr> else s)"

definition watcher_deleted :: "'a sat_solver_scheme \<Rightarrow> watcher \<Rightarrow> bool" where
  "watcher_deleted s w = (case al_mem (ca s) (w_cref w) of None \<Rightarrow> False | Some c \<Rightarrow> c_mark c = 1)"

definition clean :: "lit \<Rightarrow> 'a sat_solver_scheme \<Rightarrow> 'a sat_solver_scheme" where
  "clean p s = s\<lparr>occs := (occs s)[nat p := filter (\<lambda>w. \<not> watcher_deleted s w) (occs s ! nat p)],
                 dirty := (dirty s)[nat p := False]\<rparr>"

fun clean_loop :: "lit list \<Rightarrow> 'a sat_solver_scheme \<Rightarrow> 'a sat_solver_scheme" where
  "clean_loop [] s = s"
| "clean_loop (p # ps) s = clean_loop ps (if dirty s ! nat p then clean p s else s)"

definition cleanAll :: "'a sat_solver_scheme \<Rightarrow> 'a sat_solver_scheme" where
  "cleanAll s = (clean_loop (dirties s) s)\<lparr>dirties := []\<rparr>"

definition attachClause :: "nat \<Rightarrow> 'a sat_solver_scheme \<Rightarrow> 'a sat_solver_scheme result" where
  "attachClause cr s = rbind (clause_at s cr) (\<lambda>c. require (1 < length (lits c))
     (Inr (push_watch (lit_not (lits c ! 1)) (Watcher cr (lits c ! 0))
       (push_watch (lit_not (lits c ! 0)) (Watcher cr (lits c ! 1)) s))))"

definition remove_watch :: "lit \<Rightarrow> nat \<Rightarrow> 'a sat_solver_scheme \<Rightarrow> 'a sat_solver_scheme result" where
  "remove_watch p cr s =
     rbind (vec_remove (occs s ! nat p) (\<lambda>w. w_cref w = cr)) (\<lambda>ws. Inr (s\<lparr>occs := (occs s)[nat p := ws]\<rparr>))"

definition detachClause :: "nat \<Rightarrow> bool \<Rightarrow> 'a sat_solver_scheme \<Rightarrow> 'a sat_solver_scheme result" where
  "detachClause cr strict s = rbind (clause_at s cr) (\<lambda>c. require (1 < length (lits c))
     (if strict then rbind (remove_watch (lit_not (lits c ! 0)) cr s) (remove_watch (lit_not (lits c ! 1)) cr)
      else Inr (smudge (lit_not (lits c ! 1)) (smudge (lit_not (lits c ! 0)) s))))"

section \<open>The trail\<close>

definition is_true :: "'a sat_solver_scheme \<Rightarrow> lit \<Rightarrow> bool" where
  "is_true s p = lbool_eq (val_lit s p) l_True"

definition is_false :: "'a sat_solver_scheme \<Rightarrow> lit \<Rightarrow> bool" where
  "is_false s p = lbool_eq (val_lit s p) l_False"

definition is_undef :: "'a sat_solver_scheme \<Rightarrow> lit \<Rightarrow> bool" where
  "is_undef s p = lbool_eq (val_lit s p) l_Undef"

definition satisfied :: "'a sat_solver_scheme \<Rightarrow> clause \<Rightarrow> bool" where
  "satisfied s c \<longleftrightarrow> (\<exists>p \<in> set (lits c). is_true s p)"

definition locked :: "'a sat_solver_scheme \<Rightarrow> nat \<Rightarrow> clause \<Rightarrow> bool" where
  "locked s cr c \<longleftrightarrow> is_true s (lits c ! 0) \<and> reason s (lit_var (lits c ! 0)) = CRef cr"

definition removeClause :: "nat \<Rightarrow> 'a sat_solver_scheme \<Rightarrow> 'a sat_solver_scheme result" where
  "removeClause cr s = rbind (clause_at s cr) (\<lambda>c. rbind (detachClause cr False s) (\<lambda>s1.
     let s2 = (if locked s1 cr c
               then s1\<lparr>vardata := (vardata s1)[lit_var (lits c ! 0) := (CRef_Undef, level s1 (lit_var (lits c ! 0)))]\<rparr>
               else s1)
     in Inr (s2\<lparr>ca := ca_free cr ((ca s2)\<lparr>al_mem := (al_mem (ca s2))(cr \<mapsto> c\<lparr>c_mark := 1\<rparr>)\<rparr>)\<rparr>)))"

text \<open>
  The loop of \<open>cancelUntil\<close>: its body for the literal at index \<open>c\<close>, and the indices it
  visits, from the top of the trail down.
\<close>

definition cancel_one :: "nat \<Rightarrow> 'a sat_solver_scheme \<Rightarrow> 'a sat_solver_scheme" where
  "cancel_one c s =
     (let p = trail s ! c; x = lit_var p;
          s1 = s\<lparr>assigns := (assigns s)[x := l_Undef]\<rparr>;
          s2 = (if 1 < phase_saving s1 \<or> (phase_saving s1 = 1 \<and> last (trail_lim s1) < c)
                then s1\<lparr>polarity := (polarity s1)[x := lit_sign p]\<rparr> else s1)
      in insertVarOrder x s2)"

fun cancel_loop :: "nat list \<Rightarrow> 'a sat_solver_scheme \<Rightarrow> 'a sat_solver_scheme" where
  "cancel_loop [] s = s"
| "cancel_loop (c # cs) s = cancel_loop cs (cancel_one c s)"

definition cancelUntil :: "nat \<Rightarrow> 'a sat_solver_scheme \<Rightarrow> 'a sat_solver_scheme" where
  "cancelUntil lev s =
     (if lev < decisionLevel s then
        let m = trail_lim s ! lev; s1 = cancel_loop (rev [m ..< length (trail s)]) s
        in s1\<lparr>qhead := m, trail := take m (trail s1), trail_lim := take lev (trail_lim s1)\<rparr>
      else s)"

definition uncheckedEnqueue :: "lit \<Rightarrow> cref \<Rightarrow> 'a sat_solver_scheme \<Rightarrow> 'a sat_solver_scheme result" where
  "uncheckedEnqueue p from s =
     require (from \<noteq> CRef_Fake \<or> theory_var s (lit_var p)) (require (is_undef s p)
       (Inr (s\<lparr>assigns := (assigns s)[lit_var p := lbool_of (\<not> lit_sign p)],
              vardata := (vardata s)[lit_var p := (from, decisionLevel s)], trail := trail s @ [p]\<rparr>)))"

definition enqueue :: "lit \<Rightarrow> cref \<Rightarrow> 'a sat_solver_scheme \<Rightarrow> (bool \<times> 'a sat_solver_scheme) result" where
  "enqueue p from s =
     (if \<not> is_undef s p then Inr (\<not> is_false s p, s)
      else rbind (uncheckedEnqueue p from s) (\<lambda>s1. Inr (True, s1)))"

section \<open>Unit propagation\<close>

text \<open>
  One pass over the watch list of \<open>p\<close>: the watchers kept so far (those before the pointer
  \<open>j\<close> of the code) and those left. The list that a watcher moves to is never the list being read,
  so that list is written back at the end of the pass.
\<close>

definition new_watch :: "'a sat_solver_scheme \<Rightarrow> lit list \<Rightarrow> nat option" where
  "new_watch s ls = List.find (\<lambda>k. \<not> is_false s (ls ! k)) [2 ..< length ls]"

fun prop_watchers ::
  "lit \<Rightarrow> watcher list \<Rightarrow> watcher list \<Rightarrow> 'a sat_solver_scheme \<Rightarrow> (cref \<times> watcher list \<times> 'a sat_solver_scheme) result" where
  "prop_watchers p kept [] s = Inr (CRef_Undef, kept, s)"
| "prop_watchers p kept (w # ws) s =
     (if is_true s (w_blocker w) then prop_watchers p (kept @ [w]) ws s
      else
        let cr = w_cref w; false_lit = lit_not p in
        rbind (clause_at s cr) (\<lambda>c.
        let ls = (if lits c ! 0 = false_lit then (lits c)[0 := lits c ! 1, 1 := false_lit] else lits c);
            s1 = set_lits cr ls s in
        require (ls ! 1 = false_lit)
        (let first = ls ! 0; w' = Watcher cr first in
         if first \<noteq> w_blocker w \<and> is_true s1 first then prop_watchers p (kept @ [w']) ws s1
         else case new_watch s1 ls of
           Some k \<Rightarrow>
             let ls' = ls[1 := ls ! k, k := false_lit] in
             prop_watchers p kept ws (push_watch (lit_not (ls' ! 1)) w' (set_lits cr ls' s1))
         | None \<Rightarrow>
             if is_false s1 first
             then Inr (CRef cr, kept @ w' # ws, s1\<lparr>qhead := length (trail s1)\<rparr>)
             else (case uncheckedEnqueue first (CRef cr) s1 of
                 Inl e \<Rightarrow> Inl e
               | Inr s2 \<Rightarrow> prop_watchers p (kept @ [w']) ws s2))))"

partial_function (option) prop_loop ::
  "cref \<Rightarrow> 'a sat_solver_scheme \<Rightarrow> (cref \<times> 'a sat_solver_scheme) result option" where
  "prop_loop confl s =
     (if qhead s < length (trail s) then
        let p = trail s ! qhead s; s1 = s\<lparr>qhead := qhead s + 1\<rparr> in
        (case prop_watchers p [] (occs s1 ! nat p) s1 of
          Inl e \<Rightarrow> Some (Inl e)
        | Inr (r, kept, s2) \<Rightarrow>
            prop_loop (if r = CRef_Undef then confl else r) (s2\<lparr>occs := (occs s2)[nat p := kept]\<rparr>))
      else Some (Inr (confl, s)))"

definition propagate :: "'a sat_solver_scheme \<Rightarrow> (cref \<times> 'a sat_solver_scheme) result" where
  "propagate s = runs (prop_loop CRef_Undef (cleanAll s))"

section \<open>New clauses\<close>

text \<open>
  The simplification of a sorted clause: \<open>None\<close> when the clause is satisfied or a tautology;
  \<open>p\<close> is the last literal that was kept.
\<close>

fun simplify_clause :: "'a sat_solver_scheme \<Rightarrow> lit list \<Rightarrow> lit \<Rightarrow> lit list option" where
  "simplify_clause s [] p = Some []"
| "simplify_clause s (l # ls) p =
     (if is_true s l \<or> l = lit_not p then None
      else if \<not> is_false s l \<and> l \<noteq> p then map_option ((#) l) (simplify_clause s ls l)
      else simplify_clause s ls p)"

definition addOriginalClause_core :: "lit list \<Rightarrow> 'a sat_solver_scheme \<Rightarrow> (bool \<times> (cref \<times> cref) \<times> 'a sat_solver_scheme) result" where
  "addOriginalClause_core c s = require (decisionLevel s = 0)
     (if \<not> sat_ok s then Inr (False, (CRef_Undef, CRef_Undef), s)
      else rbind (runs (vec_sort c)) (\<lambda>sorted_c. case simplify_clause s sorted_c lit_Undef of
        None \<Rightarrow> Inr (True, (CRef_Undef, CRef_Undef), s)
      | Some ps \<Rightarrow>
          if ps = [] then Inr (False, (CRef_Undef, CRef_Undef), s\<lparr>sat_ok := False\<rparr>)
          else if length ps = 1 then require (is_undef s (ps ! 0))
            (rbind (uncheckedEnqueue (ps ! 0) CRef_Undef s) (\<lambda>s1. rbind (propagate s1) (\<lambda>(confl, s2).
               let b = (confl = CRef_Undef) in Inr (b, (CRef_Undef, CRef_Undef), s2\<lparr>sat_ok := b\<rparr>))))
          else let (cr, a) = ca_alloc ps False (ca s) in
            rbind (attachClause cr (s\<lparr>ca := a, clauses := clauses s @ [cr]\<rparr>)) (\<lambda>s1.
               Inr (True, (CRef_Undef, CRef cr), s1\<lparr>undo_stack := undo_stack s1 @ [NEWCLAUSE cr]\<rparr>))))"

end
