(* ===== verification/Sat_Inv.thy ===== *)
theory Sat_Inv
  imports Sat_Solver
begin

text \<open>
  The invariants of the SAT solver: the trail determines the assignment and the levels, the watch lists
  hold every clause under the complements of its first two literals, and the reason of a propagated
  literal is a clause that starts with it and whose other literals were false before. The models of
  a state are the assignments that satisfy its clauses and the literals of level 0.
\<close>

named_theorems sat_frame "which fields an operation leaves alone"

lemma lit_not_neq [simp]: "lit_not p \<noteq> p" "p \<noteq> lit_not p"
proof -
  have "lsat (\<lambda>_. True) (lit_not p) = (\<not> lsat (\<lambda>_. True) p)"
    by (rule lsat_not)
  then show "lit_not p \<noteq> p" "p \<noteq> lit_not p"
    by metis+
qed

lemma lit_not_inject [simp]: "lit_not p = lit_not q \<longleftrightarrow> p = q"
  by (metis lit_not_not)

lemma lit_var_eq: "0 \<le> p \<Longrightarrow> 0 \<le> q \<Longrightarrow> lit_var p = lit_var q \<longleftrightarrow> p = q \<or> p = lit_not q"
proof -
  assume "0 \<le> p" "0 \<le> q"
  then obtain v b w c where "p = mkLit v b" "q = mkLit w c"
    using lit_shape by blast
  then show ?thesis
    by (cases b; cases c) simp_all
qed

section \<open>The trail\<close>

definition trail_inv :: "'a sat_solver_scheme \<Rightarrow> bool" where
  "trail_inv s \<longleftrightarrow> length (assigns s) = nVars s \<and> distinct (map lit_var (trail s)) \<and>
     (\<forall>p \<in> set (trail s). lit_ok (nVars s) p) \<and>
     (\<forall>v < nVars s. assigns s ! v =
        (if mkLit v False \<in> set (trail s) then l_True else if mkLit v True \<in> set (trail s) then l_False else l_Undef)) \<and>
     sorted (trail_lim s) \<and> (\<forall>m \<in> set (trail_lim s). m \<le> length (trail s)) \<and>
     (\<forall>i < length (trail s). level s (lit_var (trail s ! i)) = length (filter (\<lambda>m. m \<le> i) (trail_lim s))) \<and>
     qhead s \<le> length (trail s)"

lemma trail_inv_ok: "trail_inv s \<Longrightarrow> p \<in> set (trail s) \<Longrightarrow> lit_ok (nVars s) p"
  by (simp add: trail_inv_def)

lemma distinct_vars_not:
  assumes "distinct (map lit_var ps)" "p \<in> set ps"
  shows "lit_not p \<notin> set ps"
proof
  assume "lit_not p \<in> set ps"
  then show False
    using assms inj_on_contraD [of lit_var "set ps" p "lit_not p"] by (simp add: distinct_map)
qed

lemma trail_not: "trail_inv s \<Longrightarrow> p \<in> set (trail s) \<Longrightarrow> lit_not p \<notin> set (trail s)"
  by (rule distinct_vars_not) (simp_all add: trail_inv_def)

lemma lbool_xor_values:
  "lbool_eq (lbool_xor l_True b) l_True \<longleftrightarrow> \<not> b" "lbool_eq (lbool_xor l_False b) l_True \<longleftrightarrow> b"
  "\<not> lbool_eq (lbool_xor l_Undef b) l_True" "lbool_eq (lbool_xor l_True b) l_False \<longleftrightarrow> b"
  "lbool_eq (lbool_xor l_False b) l_False \<longleftrightarrow> \<not> b" "\<not> lbool_eq (lbool_xor l_Undef b) l_False"
  "\<not> lbool_eq (lbool_xor l_True b) l_Undef" "\<not> lbool_eq (lbool_xor l_False b) l_Undef"
  "lbool_eq (lbool_xor l_Undef b) l_Undef"
  by (cases b; simp add: lbool_xor_def lbool_eq_def l_True_def l_False_def l_Undef_def)+

lemma values_iff:
  assumes "trail_inv s" "lit_ok (nVars s) p"
  shows "is_true s p \<longleftrightarrow> p \<in> set (trail s)" "is_false s p \<longleftrightarrow> lit_not p \<in> set (trail s)"
    "is_undef s p \<longleftrightarrow> p \<notin> set (trail s) \<and> lit_not p \<notin> set (trail s)"
proof -
  obtain v b where p: "p = mkLit v b" "v < nVars s"
    using assms(2) by (rule lit_ok_cases)
  have a: "assigns s ! v = (if mkLit v False \<in> set (trail s) then l_True
      else if mkLit v True \<in> set (trail s) then l_False else l_Undef)"
    using assms(1) p(2) by (simp add: trail_inv_def)
  have n: "mkLit v False \<in> set (trail s) \<Longrightarrow> mkLit v True \<notin> set (trail s)"
    using trail_not [OF assms(1), of "mkLit v False"] by simp
  show "is_true s p \<longleftrightarrow> p \<in> set (trail s)" "is_false s p \<longleftrightarrow> lit_not p \<in> set (trail s)"
      "is_undef s p \<longleftrightarrow> p \<notin> set (trail s) \<and> lit_not p \<notin> set (trail s)"
    using n by (cases b; simp add: is_true_def is_false_def is_undef_def val_lit_def p(1) a lbool_xor_values)+
qed

lemma undef_var:
  assumes "trail_inv s" "lit_ok (nVars s) p" "p \<notin> set (trail s)" "lit_not p \<notin> set (trail s)"
  shows "lit_var p \<notin> lit_var ` set (trail s)"
  using assms lit_var_eq trail_inv_ok [OF assms(1)] by (fastforce simp: lit_ok_def)

text \<open>The level of a literal on the trail is at most the decision level, and monotone along the trail.\<close>

lemma level_le:
  assumes "trail_inv s" "p \<in> set (trail s)"
  shows "level s (lit_var p) \<le> decisionLevel s"
  using assms by (auto simp: trail_inv_def in_set_conv_nth decisionLevel_def)

lemma level_mono:
  assumes "trail_inv s" "i \<le> j" "j < length (trail s)"
  shows "level s (lit_var (trail s ! i)) \<le> level s (lit_var (trail s ! j))"
proof -
  have "filter (\<lambda>m. m \<le> i) (trail_lim s) = filter (\<lambda>m. m \<le> i) (filter (\<lambda>m. m \<le> j) (trail_lim s))"
    using assms(2) by (simp add: filter_filter) (metis dual_order.trans)
  then have "length (filter (\<lambda>m. m \<le> i) (trail_lim s)) \<le> length (filter (\<lambda>m. m \<le> j) (trail_lim s))"
    by (metis length_filter_le)
  then show ?thesis
    using assms by (simp add: trail_inv_def)
qed

lemma trail_level:
  "trail_inv s \<Longrightarrow> i < length (trail s) \<Longrightarrow> level s (lit_var (trail s ! i)) = length (filter (\<lambda>m. m \<le> i) (trail_lim s))"
  by (simp add: trail_inv_def)

lemma level_current:
  assumes "trail_inv s" "i < length (trail s)" "\<forall>m \<in> set (trail_lim s). m \<le> i"
  shows "level s (lit_var (trail s ! i)) = decisionLevel s"
  using assms by (simp add: trail_level decisionLevel_def)

section \<open>A new literal on the trail\<close>

definition enqueued :: "lit \<Rightarrow> cref \<Rightarrow> 'a sat_solver_scheme \<Rightarrow> 'a sat_solver_scheme" where
  "enqueued p from s = s\<lparr>assigns := (assigns s)[lit_var p := lbool_of (\<not> lit_sign p)],
     vardata := (vardata s)[lit_var p := (from, decisionLevel s)], trail := trail s @ [p]\<rparr>"

lemma enqueued_fields [simp, sat_frame]:
  "nVars (enqueued p from s) = nVars s" "trail (enqueued p from s) = trail s @ [p]"
  "trail_lim (enqueued p from s) = trail_lim s" "qhead (enqueued p from s) = qhead s"
  "clauses (enqueued p from s) = clauses s" "learnts (enqueued p from s) = learnts s"
  "ca (enqueued p from s) = ca s" "occs (enqueued p from s) = occs s" "dirty (enqueued p from s) = dirty s"
  "dirties (enqueued p from s) = dirties s" "sat_ok (enqueued p from s) = sat_ok s"
  "decisionLevel (enqueued p from s) = decisionLevel s"
  by (simp_all add: enqueued_def nVars_def decisionLevel_def)

lemma uncheckedEnqueue_ok:
  assumes "trail_inv s" "lit_ok (nVars s) p" "p \<notin> set (trail s)" "lit_not p \<notin> set (trail s)" "from \<noteq> CRef_Fake"
  shows "uncheckedEnqueue p from s = Inr (enqueued p from s)"
  using assms values_iff(3) [OF assms(1,2)] by (simp add: uncheckedEnqueue_def enqueued_def)

lemma enqueued_reason:
  assumes "lit_ok (nVars s) p"
  shows "reason (enqueued p from s) v = (if v = lit_var p then from else reason s v)"
    "level (enqueued p from s) v = (if v = lit_var p then decisionLevel s else level s v)"
  using assms by (auto simp: enqueued_def reason_def level_def lit_ok_def nVars_def nth_list_update)

lemma enqueued_trail_inv:
  assumes "trail_inv s" "lit_ok (nVars s) p" "p \<notin> set (trail s)" "lit_not p \<notin> set (trail s)"
  shows "trail_inv (enqueued p from s)"
proof -
  let ?s = "enqueued p from s"
  note new = undef_var [OF assms]
  obtain v b where p: "p = mkLit v b" "v < nVars s"
    using assms(2) by (rule lit_ok_cases)
  have "assigns ?s ! w = (if mkLit w False \<in> set (trail ?s) then l_True
      else if mkLit w True \<in> set (trail ?s) then l_False else l_Undef)" if "w < nVars ?s" for w
    using assms that p
    by (cases "w = v"; cases b) (auto simp: trail_inv_def enqueued_def nVars_def lbool_of_def l_True_def l_False_def)
  moreover have "level ?s (lit_var (trail ?s ! i)) = length (filter (\<lambda>m. m \<le> i) (trail_lim ?s))"
    if "i < length (trail ?s)" for i
  proof (cases "i = length (trail s)")
    case True
    then have "filter (\<lambda>m. m \<le> i) (trail_lim s) = trail_lim s"
      using assms(1) by (auto simp: trail_inv_def intro: filter_True)
    then show ?thesis
      using True assms(2) by (simp add: enqueued_reason decisionLevel_def)
  next
    case False
    then have i: "i < length (trail s)"
      using that by simp
    then have "lit_var (trail s ! i) \<noteq> lit_var p"
      using new by (metis image_eqI nth_mem)
    then show ?thesis
      using i assms(1,2) by (simp add: enqueued_reason nth_append trail_level)
  qed
  moreover have "distinct (map lit_var (trail ?s))"
    using new assms(1) by (simp add: trail_inv_def)
  ultimately show ?thesis
    using assms(1,2) unfolding trail_inv_def [of ?s]
    by (auto simp: trail_inv_def nVars_def enqueued_def)
qed

end
