(* ===== verification/Sat_Watch.thy ===== *)
theory Sat_Watch
  imports Sat_Inv
begin

text \<open>
  The invariant of one pass of unit propagation over a watch list, and that each of the outcomes
  for a watcher keeps it: the watcher stays, moves to another literal, or its clause is the reason
  of a new literal.
\<close>

section \<open>The clause database\<close>

definition attached :: "'a sat_solver_scheme \<Rightarrow> nat set" where
  "attached s = set (clauses s) \<union> set (learnts s)"

definition clause_of :: "'a sat_solver_scheme \<Rightarrow> nat \<Rightarrow> lit list" where
  "clause_of s cr = lits (the (al_mem (ca s) cr))"

definition good_clause :: "nat \<Rightarrow> lit list \<Rightarrow> bool" where
  "good_clause n ls \<longleftrightarrow> 2 \<le> length ls \<and> distinct ls \<and> (\<forall>p \<in> set ls. lit_ok n p)"

lemma good_clauseD:
  assumes "good_clause n ls"
  shows "ls \<noteq> []" "1 < length ls" "ls ! 0 \<in> set ls" "ls ! 1 \<in> set ls" "ls ! 0 \<noteq> ls ! 1" "lit_ok n (ls ! 0)" "lit_ok n (ls ! 1)"
proof -
  have l: "0 < length ls" "1 < length ls" "distinct ls"
    using assms by (auto simp: good_clause_def)
  then show "ls \<noteq> []" "1 < length ls" "ls ! 0 \<in> set ls" "ls ! 1 \<in> set ls"
    by simp_all
  then show "lit_ok n (ls ! 0)" "lit_ok n (ls ! 1)"
    using assms by (simp_all add: good_clause_def)
  show "ls ! 0 \<noteq> ls ! 1"
    using l by (metis nth_eq_iff_index_eq zero_neq_one)
qed

definition db_inv :: "'a sat_solver_scheme \<Rightarrow> bool" where
  "db_inv s \<longleftrightarrow> (\<forall>cr \<in> attached s. \<exists>c. al_mem (ca s) cr = Some c \<and> c_mark c \<noteq> 1 \<and> good_clause (nVars s) (lits c)) \<and>
     (\<forall>cr. al_mem (ca s) cr \<noteq> None \<longrightarrow> cr < al_size (ca s))"

lemma db_invD:
  assumes "db_inv s" "cr \<in> attached s"
  shows "good_clause (nVars s) (clause_of s cr)" "\<exists>c. al_mem (ca s) cr = Some c \<and> lits c = clause_of s cr \<and> c_mark c \<noteq> 1"
    "\<exists>c. clause_at s cr = Inr c \<and> lits c = clause_of s cr"
  using assms by (auto simp: db_inv_def clause_of_def clause_at_def)

text \<open>The two watched literals of a clause.\<close>

definition wlits :: "'a sat_solver_scheme \<Rightarrow> nat \<Rightarrow> lit set" where
  "wlits s cr = {clause_of s cr ! 0, clause_of s cr ! 1}"

lemma wlits_sub: "db_inv s \<Longrightarrow> cr \<in> attached s \<Longrightarrow> wlits s cr \<subseteq> set (clause_of s cr)"
  using db_invD(1) [of s cr] by (auto simp: wlits_def good_clause_def intro!: nth_mem)

text \<open>
  The watch lists as a function: under \<open>p\<close> stand the clauses that have the complement of
  \<open>p\<close> among their watched literals, each once, with a blocker from the clause.
\<close>

definition watch_ok :: "'a sat_solver_scheme \<Rightarrow> (lit \<Rightarrow> watcher list) \<Rightarrow> bool" where
  "watch_ok s W \<longleftrightarrow>
     (\<forall>p. lit_ok (nVars s) p \<longrightarrow> distinct (map w_cref (W p)) \<and>
        (\<forall>w \<in> set (W p). w_cref w \<in> attached s \<and> w_blocker w \<in> set (clause_of s (w_cref w)) \<and> lit_not p \<in> wlits s (w_cref w))) \<and>
     (\<forall>cr \<in> attached s. \<forall>q \<in> wlits s cr. cr \<in> w_cref ` set (W (lit_not q)))"

lemma watch_okD:
  assumes "watch_ok s W"
  shows "lit_ok (nVars s) p \<Longrightarrow> distinct (map w_cref (W p))"
    "lit_ok (nVars s) p \<Longrightarrow> \<forall>w \<in> set (W p). w_cref w \<in> attached s \<and> w_blocker w \<in> set (clause_of s (w_cref w)) \<and> lit_not p \<in> wlits s (w_cref w)"
    "cr \<in> attached s \<Longrightarrow> q \<in> wlits s cr \<Longrightarrow> cr \<in> w_cref ` set (W (lit_not q))"
  using assms by (simp_all add: watch_ok_def)

lemma watch_okI:
  assumes "\<And>p. lit_ok (nVars s) p \<Longrightarrow> distinct (map w_cref (W p))"
    and "\<And>p. lit_ok (nVars s) p \<Longrightarrow>
      \<forall>w \<in> set (W p). w_cref w \<in> attached s \<and> w_blocker w \<in> set (clause_of s (w_cref w)) \<and> lit_not p \<in> wlits s (w_cref w)"
    and "\<And>cr q. cr \<in> attached s \<Longrightarrow> q \<in> wlits s cr \<Longrightarrow> cr \<in> w_cref ` set (W (lit_not q))"
  shows "watch_ok s W"
  using assms by (simp add: watch_ok_def)

lemma watch_ok_upd:
  assumes "watch_ok s (W(p := xs))" "map w_cref ys = map w_cref xs" "\<forall>w \<in> set ys. w_blocker w \<in> set (clause_of s (w_cref w))"
  shows "watch_ok s (W(p := ys))"
proof (rule watch_okI)
  have im: "w_cref ` set ys = w_cref ` set xs"
    using assms(2) by (metis list.set_map)
  have new: "w_cref w \<in> attached s \<and> lit_not p \<in> wlits s (w_cref w)" if ok: "lit_ok (nVars s) p" and w: "w \<in> set ys" for w
  proof -
    obtain v where "v \<in> set xs" "w_cref v = w_cref w"
      using im w by (metis image_iff)
    then show ?thesis
      using watch_okD(2) [OF assms(1) ok] by fastforce
  qed
  fix q assume q: "lit_ok (nVars s) q"
  note old = watch_okD(1,2) [OF assms(1) q]
  show "distinct (map w_cref ((W(p := ys)) q))"
    using old(1) assms(2) by (cases "q = p") simp_all
  show "\<forall>w \<in> set ((W(p := ys)) q). w_cref w \<in> attached s \<and> w_blocker w \<in> set (clause_of s (w_cref w)) \<and> lit_not q \<in> wlits s (w_cref w)"
    using old(2) new q assms(3) by (cases "q = p") simp_all
next
  fix cr q assume "cr \<in> attached s" "q \<in> wlits s cr"
  then have "cr \<in> w_cref ` set ((W(p := xs)) (lit_not q))"
    by (rule watch_okD(3) [OF assms(1)])
  then show "cr \<in> w_cref ` set ((W(p := ys)) (lit_not q))"
    using assms(2) by (cases "lit_not q = p") (simp_all, metis list.set_map)
qed

definition W_of :: "'a sat_solver_scheme \<Rightarrow> lit \<Rightarrow> watcher list" where
  "W_of s p = occs s ! nat p"

text \<open>
  The effect of propagation: a watched literal that is false, and was propagated, stands in a clause
  with a true literal of at most its level. The literals before index \<open>m\<close> have been
  propagated, and that at \<open>m\<close> for all clauses but those in \<open>E\<close>.
\<close>

definition impl_ok :: "'a sat_solver_scheme \<Rightarrow> nat \<Rightarrow> nat set \<Rightarrow> bool" where
  "impl_ok s m E \<longleftrightarrow> (\<forall>cr \<in> attached s. \<forall>q \<in> wlits s cr. \<forall>j < length (trail s).
     trail s ! j = lit_not q \<longrightarrow> j < m \<or> (j = m \<and> cr \<notin> E) \<longrightarrow>
     (\<exists>r \<in> set (clause_of s cr). r \<in> set (trail s) \<and> level s (lit_var r) \<le> level s (lit_var q)))"

definition reasons_ok :: "'a sat_solver_scheme \<Rightarrow> bool" where
  "reasons_ok s \<longleftrightarrow> (\<forall>i < length (trail s). \<forall>cr. reason s (lit_var (trail s ! i)) = CRef cr \<longrightarrow>
     cr \<in> attached s \<and> clause_of s cr ! 0 = trail s ! i \<and>
     (\<forall>q \<in> set (tl (clause_of s cr)). lit_not q \<in> set (take i (trail s))))"

definition pass_inv :: "lit \<Rightarrow> nat \<Rightarrow> watcher list \<Rightarrow> watcher list \<Rightarrow> 'a sat_solver_scheme \<Rightarrow> bool" where
  "pass_inv p m kept rest s \<longleftrightarrow> trail_inv s \<and> db_inv s \<and> length (occs s) = 2 * nVars s \<and>
     watch_ok s ((W_of s)(p := kept @ rest)) \<and> impl_ok s m (w_cref ` set rest) \<and> reasons_ok s \<and>
     m < length (trail s) \<and> trail s ! m = p \<and> (\<forall>x \<in> set (trail_lim s). x \<le> m)"

lemma pass_invD:
  assumes "pass_inv p m kept rest s"
  shows "trail_inv s" "db_inv s" "length (occs s) = 2 * nVars s" "watch_ok s ((W_of s)(p := kept @ rest))"
    "impl_ok s m (w_cref ` set rest)" "reasons_ok s" "m < length (trail s)" "trail s ! m = p"
    "\<forall>x \<in> set (trail_lim s). x \<le> m" "p \<in> set (trail s)" "lit_ok (nVars s) p"
  using assms trail_inv_ok [of s p] nth_mem [of m "trail s"] by (auto simp: pass_inv_def)

text \<open>The watcher under the pointer: its clause has the complement of \<open>p\<close> as a watched literal.\<close>

lemma pass_watcher:
  assumes "pass_inv p m kept (w # ws) s"
  shows "w_cref w \<in> attached s" "w_blocker w \<in> set (clause_of s (w_cref w))" "lit_not p \<in> wlits s (w_cref w)"
    "good_clause (nVars s) (clause_of s (w_cref w))" "w_cref w \<notin> w_cref ` set (kept @ ws)"
proof -
  note d = pass_invD [OF assms]
  have w: "\<forall>v \<in> set (kept @ w # ws). w_cref v \<in> attached s \<and> w_blocker v \<in> set (clause_of s (w_cref v)) \<and>
      lit_not p \<in> wlits s (w_cref v)" "distinct (map w_cref (kept @ w # ws))"
    using watch_okD(1,2) [OF d(4,11)] by simp_all
  show "w_cref w \<in> attached s" "w_blocker w \<in> set (clause_of s (w_cref w))" "lit_not p \<in> wlits s (w_cref w)"
    using w(1) by simp_all
  then show "good_clause (nVars s) (clause_of s (w_cref w))"
    using db_invD(1) [OF d(2)] by simp
  show "w_cref w \<notin> w_cref ` set (kept @ ws)"
    using w(2) by auto
qed

section \<open>Rewriting the literals of a clause\<close>

lemma set_lits_fields [simp, sat_frame]:
  "nVars (set_lits cr ls s) = nVars s" "trail (set_lits cr ls s) = trail s" "trail_lim (set_lits cr ls s) = trail_lim s"
  "qhead (set_lits cr ls s) = qhead s" "clauses (set_lits cr ls s) = clauses s" "learnts (set_lits cr ls s) = learnts s"
  "occs (set_lits cr ls s) = occs s" "assigns (set_lits cr ls s) = assigns s" "vardata (set_lits cr ls s) = vardata s"
  "sat_ok (set_lits cr ls s) = sat_ok s" "dirty (set_lits cr ls s) = dirty s" "dirties (set_lits cr ls s) = dirties s"
  by (simp_all add: set_lits_def nVars_def split: option.split)

lemma same_vars [sat_frame]:
  "level (set_lits cr ls s) = level s" "reason (set_lits cr ls s) = reason s" "attached (set_lits cr ls s) = attached s"
  "decisionLevel (set_lits cr ls s) = decisionLevel s" "W_of (set_lits cr ls s) = W_of s" "val_lit (set_lits cr ls s) = val_lit s"
  by (auto simp: level_def reason_def attached_def decisionLevel_def W_of_def val_lit_def)

lemma trail_inv_cong:
  "nVars s' = nVars s \<Longrightarrow> assigns s' = assigns s \<Longrightarrow> trail s' = trail s \<Longrightarrow> trail_lim s' = trail_lim s \<Longrightarrow>
   level s' = level s \<Longrightarrow> qhead s' \<le> length (trail s) \<Longrightarrow> trail_inv s \<Longrightarrow> trail_inv s'"
  by (simp add: trail_inv_def)

lemma clause_of_set_lits:
  "al_mem (ca s) cr = Some c \<Longrightarrow> clause_of (set_lits cr ls s) x = (if x = cr then ls else clause_of s x)"
  by (simp add: clause_of_def set_lits_def)

lemma set_lits_db:
  assumes "db_inv s" "cr \<in> attached s" "good_clause (nVars s) ls"
  shows "db_inv (set_lits cr ls s)"
proof -
  obtain c where c: "al_mem (ca s) cr = Some c" "c_mark c \<noteq> 1"
    using db_invD(2) [OF assms(1,2)] by auto
  show ?thesis
    using assms(1,3) c unfolding db_inv_def same_vars set_lits_fields
    by (simp add: set_lits_def)
qed

text \<open>Exchanging the two watched literals, the first of which is false.\<close>

lemma good_clause_perm:
  "good_clause n ls \<Longrightarrow> mset ls' = mset ls \<Longrightarrow> good_clause n ls'"
  unfolding good_clause_def by (metis mset_eq_imp_distinct_iff mset_eq_length mset_eq_setD)

lemma list_swap:
  assumes "i < length ls" "j < length ls"
  shows "mset (ls[i := ls ! j, j := ls ! i]) = mset ls" "set (ls[i := ls ! j, j := ls ! i]) = set ls"
proof -
  show m: "mset (ls[i := ls ! j, j := ls ! i]) = mset ls"
    by (rule mset_swap [OF assms(2,1)])
  show "set (ls[i := ls ! j, j := ls ! i]) = set ls"
    by (rule mset_eq_setD [OF m])
qed

lemma good_swap:
  assumes "good_clause n ls"
  shows "good_clause n (ls[0 := ls ! 1, 1 := ls ! 0])" "set (ls[0 := ls ! 1, 1 := ls ! 0]) = set ls"
    "ls[0 := ls ! 1, 1 := ls ! 0] ! 0 = ls ! 1" "ls[0 := ls ! 1, 1 := ls ! 0] ! 1 = ls ! 0"
proof -
  have l: "0 < length ls" "1 < length ls"
    using assms by (auto simp: good_clause_def)
  show "good_clause n (ls[0 := ls ! 1, 1 := ls ! 0])" "set (ls[0 := ls ! 1, 1 := ls ! 0]) = set ls"
    using list_swap [OF l] good_clause_perm [OF assms] by blast+
  show "ls[0 := ls ! 1, 1 := ls ! 0] ! 0 = ls ! 1" "ls[0 := ls ! 1, 1 := ls ! 0] ! 1 = ls ! 0"
    using l by simp_all
qed

lemma swap_inv:
  assumes "pass_inv p m kept (w # ws) s" "cr = w_cref w" "clause_of s cr ! 0 = lit_not p"
    and "ls = (clause_of s cr)[0 := clause_of s cr ! 1, 1 := lit_not p]"
  shows "pass_inv p m kept (w # ws) (set_lits cr ls s)"
    "set ls = set (clause_of s cr)" "ls ! 1 = lit_not p" "ls ! 0 = clause_of s cr ! 1"
proof -
  let ?s = "set_lits cr ls s"
  note d = pass_invD [OF assms(1)] and w = pass_watcher [OF assms(1), folded assms(2)]
  obtain c where c: "al_mem (ca s) cr = Some c"
    using db_invD(2) [OF d(2) w(1)] by auto
  note ls = good_swap [OF w(4), unfolded assms(3), folded assms(4)]
  show "set ls = set (clause_of s cr)" "ls ! 1 = lit_not p" "ls ! 0 = clause_of s cr ! 1"
    using ls by simp_all
  note cl = clause_of_set_lits [OF c, of ls]
  have set: "set (clause_of ?s x) = set (clause_of s x)" for x
    using ls(2) by (simp add: cl)
  have wl: "wlits ?s x = wlits s x" for x
    using ls(3,4) assms(3) by (auto simp: wlits_def cl)
  have "reason s (lit_var (trail s ! i)) \<noteq> CRef cr" if i: "i < length (trail s)" for i
  proof
    assume "reason s (lit_var (trail s ! i)) = CRef cr"
    then have "lit_not p = trail s ! i"
      using d(6) i assms(3) by (auto simp: reasons_ok_def)
    then show False
      using trail_not [OF d(1,10)] i by (metis nth_mem)
  qed
  then have "reasons_ok ?s"
    using d(6) by (auto simp: reasons_ok_def same_vars cl)
  moreover have "trail_inv ?s"
    by (rule trail_inv_cong [OF _ _ _ _ _ _ d(1)]) (use d(1) in \<open>simp_all add: same_vars trail_inv_def\<close>)
  moreover have "watch_ok ?s ((W_of ?s)(p := kept @ w # ws))" "impl_ok ?s m (w_cref ` set (w # ws))"
    using d(4,5) by (simp_all add: watch_ok_def impl_ok_def same_vars set wl)
  ultimately show "pass_inv p m kept (w # ws) ?s"
    using d(3,7-9) set_lits_db [OF d(2) w(1) ls(1)] by (simp add: pass_inv_def)
qed

section \<open>The watcher stays\<close>

lemma keep_inv:
  assumes "pass_inv p m kept (w # ws) s" "b \<in> set (clause_of s (w_cref w))"
    and "r \<in> set (clause_of s (w_cref w))" "r \<in> set (trail s)"
  shows "pass_inv p m (kept @ [Watcher (w_cref w) b]) ws s"
proof -
  note d = pass_invD [OF assms(1)] and w = pass_watcher [OF assms(1)]
  have "watch_ok s ((W_of s)(p := (kept @ [Watcher (w_cref w) b]) @ ws))"
    by (rule watch_ok_upd [OF d(4)]) (use watch_okD(2) [OF d(4,11)] assms(2) in auto)
  moreover have "impl_ok s m (w_cref ` set ws)"
  proof -
    have "level s (lit_var r) \<le> level s (lit_var q)" if "trail s ! m = lit_not q" for q
      using level_le [OF d(1) assms(4)] level_current [OF d(1,7,9)] by (simp add: that)
    then show ?thesis
      using d(5) assms(3,4) unfolding impl_ok_def by (metis image_insert insertE list.simps(15))
  qed
  ultimately show ?thesis
    using d by (simp add: pass_inv_def)
qed

section \<open>A new literal\<close>

lemma enqueued_keeps:
  assumes "db_inv s"
  shows "attached (enqueued q from s) = attached s" "clause_of (enqueued q from s) = clause_of s"
    "wlits (enqueued q from s) = wlits s" "W_of (enqueued q from s) = W_of s" "db_inv (enqueued q from s)"
proof -
  show a: "attached (enqueued q from s) = attached s"
    by (simp add: attached_def)
  show c: "clause_of (enqueued q from s) = clause_of s"
    by (rule ext) (simp add: clause_of_def)
  show "wlits (enqueued q from s) = wlits s"
    by (rule ext) (simp add: wlits_def c)
  show "W_of (enqueued q from s) = W_of s"
    by (rule ext) (simp add: W_of_def)
  show "db_inv (enqueued q from s)"
    using assms by (simp add: db_inv_def a)
qed

lemma enqueued_old:
  assumes "trail_inv s" "lit_ok (nVars s) q" "q \<notin> set (trail s)" "lit_not q \<notin> set (trail s)" "r \<in> set (trail s)"
  shows "level (enqueued q from s) (lit_var r) = level s (lit_var r)"
    "reason (enqueued q from s) (lit_var r) = reason s (lit_var r)"
proof -
  have "lit_var r \<noteq> lit_var q"
    using undef_var [OF assms(1-4)] assms(5) by (metis image_eqI)
  then show "level (enqueued q from s) (lit_var r) = level s (lit_var r)"
      "reason (enqueued q from s) (lit_var r) = reason s (lit_var r)"
    using enqueued_reason [OF assms(2)] by simp_all
qed

lemma enqueued_reasons:
  assumes "trail_inv s" "db_inv s" "reasons_ok s" "lit_ok (nVars s) q" "q \<notin> set (trail s)" "lit_not q \<notin> set (trail s)"
    and "\<forall>cr. from = CRef cr \<longrightarrow> cr \<in> attached s \<and> clause_of s cr ! 0 = q \<and> (\<forall>r \<in> set (tl (clause_of s cr)). lit_not r \<in> set (trail s))"
  shows "reasons_ok (enqueued q from s)"
  unfolding reasons_ok_def enqueued_keeps [OF assms(2)]
proof (intro allI impI)
  fix i cr
  assume i: "i < length (trail (enqueued q from s))" and r: "reason (enqueued q from s) (lit_var (trail (enqueued q from s) ! i)) = CRef cr"
  show "cr \<in> attached s \<and> clause_of s cr ! 0 = trail (enqueued q from s) ! i \<and>
      (\<forall>r \<in> set (tl (clause_of s cr)). lit_not r \<in> set (take i (trail (enqueued q from s))))"
  proof (cases "i = length (trail s)")
    case True
    then show ?thesis
      using r assms(7) enqueued_reason(1) [OF assms(4)] by simp
  next
    case False
    then have "i < length (trail s)" "trail (enqueued q from s) ! i = trail s ! i"
      using i by (simp_all add: nth_append)
    then show ?thesis
      using r assms(3) enqueued_old(2) [OF assms(1,4-6) nth_mem] by (simp add: reasons_ok_def)
  qed
qed

lemma enqueued_inv:
  assumes "pass_inv p m kept rest s" "cr \<in> attached s" "clause_of s cr ! 0 = q"
    and "q \<notin> set (trail s)" "lit_not q \<notin> set (trail s)" "\<forall>r \<in> set (tl (clause_of s cr)). lit_not r \<in> set (trail s)"
  shows "pass_inv p m kept rest (enqueued q (CRef cr) s)" "lit_ok (nVars s) q"
proof -
  let ?s = "enqueued q (CRef cr) s"
  note d = pass_invD [OF assms(1)]
  have "good_clause (nVars s) (clause_of s cr)"
    using db_invD(1) [OF d(2) assms(2)] .
  then show ok: "lit_ok (nVars s) q"
    using assms(3) nth_mem [of 0 "clause_of s cr"] by (fastforce simp: good_clause_def)
  note k = enqueued_keeps [OF d(2), of q "CRef cr"] and old = enqueued_old [OF d(1) ok assms(4,5), of _ "CRef cr"]
  have "impl_ok ?s m (w_cref ` set rest)"
    unfolding impl_ok_def k
  proof (intro ballI allI impI)
    fix x r j
    assume x: "x \<in> attached s" "r \<in> wlits s x" "trail ?s ! j = lit_not r" "j < m \<or> j = m \<and> x \<notin> w_cref ` set rest"
    have j: "j < length (trail s)"
      using x(4) d(7) by auto
    then have t: "trail s ! j = lit_not r"
      using x(3) by (simp add: nth_append)
    then obtain y where y: "y \<in> set (clause_of s x)" "y \<in> set (trail s)" "level s (lit_var y) \<le> level s (lit_var r)"
      using d(5) x(1,2,4) j unfolding impl_ok_def by blast
    moreover have "level ?s (lit_var r) = level s (lit_var r)"
      using old(1) [of "lit_not r"] t j by (metis lit_var_not nth_mem)
    ultimately show "\<exists>y \<in> set (clause_of s x). y \<in> set (trail ?s) \<and> level ?s (lit_var y) \<le> level ?s (lit_var r)"
      using old(1) by auto
  qed
  moreover have "watch_ok ?s ((W_of ?s)(p := kept @ rest))"
    using d(4) by (simp add: watch_ok_def k)
  moreover have "reasons_ok ?s"
    by (rule enqueued_reasons [OF d(1,2,6) ok assms(4,5)]) (use assms(2,3,6) in auto)
  ultimately show "pass_inv p m kept rest ?s"
    using d k(5) enqueued_trail_inv [OF d(1) ok assms(4,5)] by (simp add: pass_inv_def nth_append)
qed

end
