(* ===== verification/Sat_Pass.thy ===== *)
theory Sat_Pass
  imports Sat_Watch
begin

text \<open>
  One pass over a watch list as a whole: it reaches no failed assertion, keeps the invariant, adds only
  literals that follow from the clauses and the trail, and stops early only at a clause all of whose
  literals are false.
\<close>

section \<open>What propagation changes\<close>

definition frame_of where
  "frame_of s = (sat_ok s, clauses s, learnts s, dirty s, dirties s, trail_lim s, decision s, polarity s, seen s,
     var_seen s, order_heap s, undo_stack s, undo_stack_size s, undo_trail_size s, phase_saving s, theory_var s,
     nVars s, sat_solver.more s)"

definition header_of :: "'a sat_solver_scheme \<Rightarrow> nat \<Rightarrow> clause option" where
  "header_of s cr = map_option (\<lambda>c. c\<lparr>lits := []\<rparr>) (al_mem (ca s) cr)"

definition db_sat :: "(nat \<Rightarrow> bool) \<Rightarrow> 'a sat_solver_scheme \<Rightarrow> bool" where
  "db_sat \<alpha> s \<longleftrightarrow> (\<forall>cr \<in> attached s. csat \<alpha> (clause_of s cr))"

definition trail_sat :: "(nat \<Rightarrow> bool) \<Rightarrow> 'a sat_solver_scheme \<Rightarrow> bool" where
  "trail_sat \<alpha> s \<longleftrightarrow> (\<forall>q \<in> set (trail s). lsat \<alpha> q)"

definition prop_rel :: "'a sat_solver_scheme \<Rightarrow> 'a sat_solver_scheme \<Rightarrow> bool" where
  "prop_rel s s' \<longleftrightarrow> frame_of s' = frame_of s \<and> header_of s' = header_of s \<and> al_size (ca s') = al_size (ca s) \<and>
     extra_clause_field (ca s') = extra_clause_field (ca s) \<and>
     (\<forall>cr. set (clause_of s' cr) = set (clause_of s cr)) \<and> (\<exists>new. trail s' = trail s @ new \<and> (\<forall>r \<in> set new. \<exists>cr. reason s' (lit_var r) = CRef cr)) \<and>
     (\<forall>r \<in> set (trail s). level s' (lit_var r) = level s (lit_var r) \<and> reason s' (lit_var r) = reason s (lit_var r)) \<and>
     (\<forall>\<alpha>. db_sat \<alpha> s \<longrightarrow> trail_sat \<alpha> s \<longrightarrow> trail_sat \<alpha> s')"

lemma csat_set: "set ls = set ls' \<Longrightarrow> csat \<alpha> ls = csat \<alpha> ls'"
  by (simp add: csat_def)

lemma prop_rel_fields:
  assumes "prop_rel s s'"
  shows "nVars s' = nVars s" "trail_lim s' = trail_lim s" "clauses s' = clauses s" "learnts s' = learnts s"
    "sat_ok s' = sat_ok s" "dirty s' = dirty s" "dirties s' = dirties s" "attached s' = attached s"
    "decisionLevel s' = decisionLevel s" "set (clause_of s' cr) = set (clause_of s cr)" "db_sat \<alpha> s' = db_sat \<alpha> s"
    "set (trail s) \<subseteq> set (trail s')" "undo_stack s' = undo_stack s" "undo_trail_size s' = undo_trail_size s"
    "seen s' = seen s"
proof -
  show "nVars s' = nVars s" "trail_lim s' = trail_lim s" "clauses s' = clauses s" "learnts s' = learnts s"
      "sat_ok s' = sat_ok s" "dirty s' = dirty s" "dirties s' = dirties s" "undo_stack s' = undo_stack s"
      "undo_trail_size s' = undo_trail_size s" "seen s' = seen s"
    using assms by (simp_all add: prop_rel_def frame_of_def)
  then show a: "attached s' = attached s" "decisionLevel s' = decisionLevel s"
    by (simp_all add: attached_def decisionLevel_def)
  show c: "set (clause_of s' cr) = set (clause_of s cr)" for cr
    using assms by (simp add: prop_rel_def)
  show "db_sat \<alpha> s' = db_sat \<alpha> s"
    using csat_set [OF c] by (simp add: db_sat_def a)
  show "set (trail s) \<subseteq> set (trail s')"
    using assms by (auto simp: prop_rel_def)
qed

lemma prop_relI:
  assumes "frame_of s' = frame_of s" "header_of s' = header_of s" "al_size (ca s') = al_size (ca s)"
    "extra_clause_field (ca s') = extra_clause_field (ca s)"
    "\<And>cr. set (clause_of s' cr) = set (clause_of s cr)" "trail s' = trail s @ new"
    "\<And>r. r \<in> set new \<Longrightarrow> \<exists>cr. reason s' (lit_var r) = CRef cr"
    "\<And>r. r \<in> set (trail s) \<Longrightarrow> level s' (lit_var r) = level s (lit_var r) \<and> reason s' (lit_var r) = reason s (lit_var r)"
    "\<And>\<alpha>. db_sat \<alpha> s \<Longrightarrow> trail_sat \<alpha> s \<Longrightarrow> trail_sat \<alpha> s'"
  shows "prop_rel s s'"
  using assms by (simp add: prop_rel_def)

lemma prop_rel_refl [simp]: "prop_rel s s"
  by (simp add: prop_rel_def)

lemma prop_rel_trans:
  assumes "prop_rel s s1" "prop_rel s1 s2"
  shows "prop_rel s s2"
proof -
  obtain n1 n2 where n: "trail s1 = trail s @ n1" "trail s2 = trail s1 @ n2"
      "\<forall>r \<in> set n1. \<exists>cr. reason s1 (lit_var r) = CRef cr" "\<forall>r \<in> set n2. \<exists>cr. reason s2 (lit_var r) = CRef cr"
    using assms unfolding prop_rel_def by blast
  have kept: "reason s2 (lit_var r) = reason s1 (lit_var r)" if "r \<in> set (trail s1)" for r
    using assms(2) that unfolding prop_rel_def by blast
  note f1 = prop_rel_fields [OF assms(1)] and f2 = prop_rel_fields [OF assms(2)]
  show ?thesis
  proof (rule prop_relI)
    show "frame_of s2 = frame_of s" "header_of s2 = header_of s" "al_size (ca s2) = al_size (ca s)"
        "extra_clause_field (ca s2) = extra_clause_field (ca s)"
      using assms by (simp_all add: prop_rel_def)
    show "set (clause_of s2 cr) = set (clause_of s cr)" for cr
      using f1(10) f2(10) by simp
    show "trail s2 = trail s @ n1 @ n2"
      using n by simp
    show "\<exists>cr. reason s2 (lit_var r) = CRef cr" if "r \<in> set (n1 @ n2)" for r
      using that n(1,3,4) kept [of r] by auto
    show "level s2 (lit_var r) = level s (lit_var r) \<and> reason s2 (lit_var r) = reason s (lit_var r)"
      if r: "r \<in> set (trail s)" for r
    proof -
      have "r \<in> set (trail s1)"
        using r f1(12) by blast
      then show ?thesis
        using r assms unfolding prop_rel_def by simp
    qed
    show "trail_sat \<alpha> s2" if a: "db_sat \<alpha> s" "trail_sat \<alpha> s" for \<alpha>
    proof -
      have "trail_sat \<alpha> s1" "db_sat \<alpha> s1"
        using a assms(1) f1(11) unfolding prop_rel_def by simp_all
      then show ?thesis
        using assms(2) unfolding prop_rel_def by simp
    qed
  qed
qed

lemma frame_of_same [simp, sat_frame]:
  "frame_of (set_lits cr ls s) = frame_of s" "frame_of (push_watch q w s) = frame_of s"
  "frame_of (enqueued q from s) = frame_of s" "frame_of (s\<lparr>qhead := n\<rparr>) = frame_of s"
  "frame_of (s\<lparr>occs := x\<rparr>) = frame_of s"
  by (simp_all add: frame_of_def set_lits_def push_watch_def enqueued_def nVars_def split: option.split)

lemma set_lits_rel:
  assumes "al_mem (ca s) cr = Some c" "set ls = set (clause_of s cr)"
  shows "prop_rel s (set_lits cr ls s)"
proof (rule prop_relI [where new = "[]"])
  show "header_of (set_lits cr ls s) = header_of s"
    by (rule ext) (simp add: header_of_def set_lits_def assms(1))
  show "al_size (ca (set_lits cr ls s)) = al_size (ca s)"
      "extra_clause_field (ca (set_lits cr ls s)) = extra_clause_field (ca s)"
    by (simp_all add: set_lits_def assms(1))
qed (simp_all add: clause_of_set_lits [OF assms(1)] assms(2) same_vars trail_sat_def)

lemma push_watch_rel: "prop_rel s (push_watch q w s)"
  by (rule prop_relI [where new = "[]"])
    (simp_all add: header_of_def clause_of_def push_watch_def level_def reason_def trail_sat_def fun_eq_iff frame_of_def nVars_def)

lemma qhead_rel: "prop_rel s (s\<lparr>qhead := n\<rparr>)"
  by (rule prop_relI [where new = "[]"])
    (simp_all add: header_of_def clause_of_def level_def reason_def trail_sat_def fun_eq_iff)

lemma occs_rel: "prop_rel s (s\<lparr>occs := x\<rparr>)"
  by (rule prop_relI [where new = "[]"])
    (simp_all add: header_of_def clause_of_def level_def reason_def trail_sat_def fun_eq_iff)

text \<open>A clause with one literal that is not false forces that literal.\<close>

lemma distinct_tl_set: "distinct ls \<Longrightarrow> ls \<noteq> [] \<Longrightarrow> set (tl ls) = set ls - {ls ! 0}"
  by (cases ls) auto

lemma enqueued_rel:
  assumes "pass_inv p m kept rest s" "cr \<in> attached s" "clause_of s cr ! 0 = q"
    and "q \<notin> set (trail s)" "lit_not q \<notin> set (trail s)" "\<forall>r \<in> set (tl (clause_of s cr)). lit_not r \<in> set (trail s)"
  shows "prop_rel s (enqueued q (CRef cr) s)"
proof (rule prop_relI [where new = "[q]"])
  note d = pass_invD [OF assms(1)] and ok = enqueued_inv(2) [OF assms]
  show "header_of (enqueued q (CRef cr) s) = header_of s"
    by (rule ext) (simp add: header_of_def)
  show "set (clause_of (enqueued q (CRef cr) s) x) = set (clause_of s x)" for x
    using enqueued_keeps(2) [OF d(2)] by simp
  show "level (enqueued q (CRef cr) s) (lit_var r) = level s (lit_var r) \<and>
      reason (enqueued q (CRef cr) s) (lit_var r) = reason s (lit_var r)" if "r \<in> set (trail s)" for r
    using enqueued_old [OF d(1) ok assms(4,5) that] by simp
  show "\<exists>x. reason (enqueued q (CRef cr) s) (lit_var r) = CRef x" if "r \<in> set [q]" for r
    using that enqueued_reason(1) [OF ok] by simp
  show "trail_sat \<alpha> (enqueued q (CRef cr) s)" if a: "db_sat \<alpha> s" "trail_sat \<alpha> s" for \<alpha>
  proof -
    have g: "good_clause (nVars s) (clause_of s cr)"
      by (rule db_invD(1) [OF d(2) assms(2)])
    then obtain x where x: "x \<in> set (clause_of s cr)" "lsat \<alpha> x"
      using a(1) assms(2) by (auto simp: db_sat_def csat_def)
    moreover have "x \<notin> set (tl (clause_of s cr))"
    proof
      assume "x \<in> set (tl (clause_of s cr))"
      then have "lsat \<alpha> (lit_not x)"
        using a(2) assms(6) unfolding trail_sat_def by blast
      then show False
        using x(2) by simp
    qed
    ultimately have "x = q"
      using distinct_tl_set [of "clause_of s cr"] x(1) g assms(3) by (cases "clause_of s cr") (auto simp: good_clause_def)
    then show ?thesis
      using a(2) x(2) by (simp add: trail_sat_def)
  qed
qed simp_all

section \<open>The watcher moves\<close>

lemma W_of_push:
  assumes "length (occs s) = 2 * nVars s" "lit_ok (nVars s) q" "lit_ok (nVars s) x"
  shows "W_of (push_watch q w s) x = (if x = q then W_of s x @ [w] else W_of s x)"
  using assms lit_ok_bound [OF assms(2)] nat_lit_eq [OF assms(2,3)]
  by (auto simp: W_of_def push_watch_def nth_list_update)

lemma push_watch_fields [simp, sat_frame]:
  "nVars (push_watch q w s) = nVars s" "trail (push_watch q w s) = trail s" "trail_lim (push_watch q w s) = trail_lim s"
  "qhead (push_watch q w s) = qhead s" "clauses (push_watch q w s) = clauses s" "learnts (push_watch q w s) = learnts s"
  "assigns (push_watch q w s) = assigns s" "vardata (push_watch q w s) = vardata s" "ca (push_watch q w s) = ca s"
  "length (occs (push_watch q w s)) = length (occs s)"
  by (simp_all add: push_watch_def nVars_def)

lemma push_watch_same [sat_frame]:
  "level (push_watch q w s) = level s" "reason (push_watch q w s) = reason s" "attached (push_watch q w s) = attached s"
  "clause_of (push_watch q w s) = clause_of s" "wlits (push_watch q w s) = wlits s" "db_inv (push_watch q w s) = db_inv s"
  by (auto simp: level_def reason_def attached_def clause_of_def wlits_def db_inv_def fun_eq_iff)

text \<open>The new order of the literals: the false literal at index \<open>1\<close> and the one at \<open>k\<close> change places.\<close>

lemma moved_lits:
  assumes "good_clause n ls" "2 \<le> k" "k < length ls" "ls' = ls[1 := ls ! k, k := ls ! 1]"
  shows "good_clause n ls'" "set ls' = set ls" "ls' ! 0 = ls ! 0" "ls' ! 1 = ls ! k" "set (tl ls') = set (tl ls)"
    "ls ! k \<noteq> ls ! 0" "ls ! k \<noteq> ls ! 1" "ls ! 0 \<noteq> ls ! 1"
proof -
  have l: "1 < length ls" "distinct ls"
    using assms(1) by (auto simp: good_clause_def)
  show g: "good_clause n ls'" "set ls' = set ls"
    using list_swap [OF l(1) assms(3)] good_clause_perm [OF assms(1)] assms(4) by blast+
  show n: "ls' ! 0 = ls ! 0" "ls' ! 1 = ls ! k"
    using assms l by simp_all
  show "set (tl ls') = set (tl ls)"
  proof -
    have "ls \<noteq> []" "ls' \<noteq> []" "distinct ls'"
      using l g(1) by (auto simp: good_clause_def)
    then show ?thesis
      using distinct_tl_set [of ls] distinct_tl_set [of ls'] g(2) l(2) n(1) by simp
  qed
  show "ls ! k \<noteq> ls ! 0" "ls ! k \<noteq> ls ! 1" "ls ! 0 \<noteq> ls ! 1"
    using l(1) assms(2,3) by (auto simp: nth_eq_iff_index_eq [OF l(2)] simp del: length_greater_0_conv)
qed

lemma move_watch_ok:
  assumes inv: "pass_inv p m kept (w # ws) s" and cr: "cr = w_cref w" and one: "clause_of s cr ! 1 = lit_not p"
    and k: "2 \<le> k" "k < length (clause_of s cr)"
    and ls': "ls' = (clause_of s cr)[1 := clause_of s cr ! k, k := lit_not p]" and w': "w' = Watcher cr (clause_of s cr ! 0)"
    and s': "s' = push_watch (lit_not (ls' ! 1)) w' (set_lits cr ls' s)"
  shows "watch_ok s' ((W_of s')(p := kept @ ws))"
proof -
  let ?q = "clause_of s cr ! k"
  note d = pass_invD [OF inv] and w = pass_watcher [OF inv, folded cr]
  obtain c where c: "al_mem (ca s) cr = Some c"
    using db_invD(2) [OF d(2) w(1)] by auto
  note mv = moved_lits [OF w(4) k, of ls', unfolded one, OF ls']
  have q: "lit_ok (nVars s) ?q" "lit_not ?q \<noteq> p" "lit_not ?q \<noteq> lit_not (clause_of s cr ! 0)"
    using w(4) k mv(6,7) one by (auto simp: good_clause_def)
  have cl: "clause_of s' x = (if x = cr then ls' else clause_of s x)" for x
    using clause_of_set_lits [OF c] by (simp add: s' push_watch_same)
  have wl: "wlits s' x = (if x = cr then {clause_of s cr ! 0, ?q} else wlits s x)" for x
    using mv(3,4) by (simp add: wlits_def cl)
  have W: "W_of s' x = (if x = lit_not ?q then W_of s x @ [w'] else W_of s x)" if "lit_ok (nVars s) x" for x
    using W_of_push [of "set_lits cr ls' s" "lit_not ?q" x w'] d(3) q(1) that mv(4) by (simp add: s' same_vars del: One_nat_def)
  have basic: "nVars s' = nVars s" "attached s' = attached s"
    by (simp_all add: s' push_watch_same same_vars)
  note old = watch_okD [OF d(4)]
  have cr_old: "lit_not x = clause_of s cr ! 0" if x: "lit_ok (nVars s) x" "x \<noteq> p" "cr \<in> w_cref ` set (W_of s x)" for x
  proof -
    have "lit_not x \<in> wlits s cr"
      using old(2) [OF x(1)] x(2,3) by auto
    then show ?thesis
      using x(2) one by (auto simp: wlits_def)
  qed
  show ?thesis
  proof (rule watch_okI, goal_cases)
    case (1 x)
    have "distinct (map w_cref (W_of s x))" if "x \<noteq> p"
      using old(1) [of x] 1 that basic by simp
    moreover have "distinct (map w_cref (kept @ ws))"
      using old(1) [OF d(11)] by simp
    moreover have "cr \<notin> w_cref ` set (W_of s (lit_not ?q))"
      using cr_old [of "lit_not ?q"] q mv(6) by auto
    ultimately show ?case
      using 1 W [of x] basic by (auto simp: w')
  next
    case (2 x)
    have ok: "lit_ok (nVars s) x"
      using 2 basic by simp
    show ?case
    proof
      fix v assume v: "v \<in> set (((W_of s')(p := kept @ ws)) x)"
      show "w_cref v \<in> attached s' \<and> w_blocker v \<in> set (clause_of s' (w_cref v)) \<and> lit_not x \<in> wlits s' (w_cref v)"
      proof (cases "v = w' \<and> x = lit_not ?q")
        case True
        then show ?thesis
          using w(1,4) mv(2) wl [of cr] by (auto simp: w' basic cl good_clause_def intro!: nth_mem)
      next
        case False
        then have v': "v \<in> set (((W_of s)(p := kept @ w # ws)) x)" "x = p \<Longrightarrow> w_cref v \<noteq> cr"
          using v W [OF ok] w(5) by (auto split: if_splits)
        then have o: "w_cref v \<in> attached s" "w_blocker v \<in> set (clause_of s (w_cref v))" "lit_not x \<in> wlits s (w_cref v)"
          using old(2) [OF ok] by auto
        moreover have "lit_not x = clause_of s cr ! 0" if "w_cref v = cr"
          using cr_old [OF ok] v' that by (cases "x = p") auto
        ultimately show ?thesis
          using mv(2) by (auto simp: basic cl wl)
      qed
    qed
  next
    case (3 x q)
    have x: "x \<in> attached s"
      using 3 basic by simp
    show ?case
    proof (cases "x = cr \<and> q = ?q")
      case True
      then show ?thesis
        using W [of "lit_not ?q"] q by (simp add: w')
    next
      case False
      then have qs: "q \<in> wlits s x" "x = cr \<Longrightarrow> lit_not q \<noteq> p"
      proof -
        have "q = clause_of s cr ! 0" if "x = cr"
          using 3(2) False that by (simp add: wl)
        then show "q \<in> wlits s x" "x = cr \<Longrightarrow> lit_not q \<noteq> p"
          using 3(2) mv(8) by (auto simp: wlits_def [of s cr] wl split: if_splits)
      qed
      then have "x \<in> w_cref ` set (((W_of s)(p := kept @ w # ws)) (lit_not q))"
        by (intro old(3) [OF x])
      moreover have "lit_ok (nVars s) (lit_not q)"
        using wlits_sub [OF d(2) x] db_invD(1) [OF d(2) x] qs(1) by (auto simp: good_clause_def)
      ultimately show ?thesis
        using qs(2) cr W [of "lit_not q"] by (cases "lit_not q = p") auto
    qed
  qed
qed

lemma move_inv:
  assumes "pass_inv p m kept (w # ws) s" "cr = w_cref w" "clause_of s cr ! 1 = lit_not p"
    and "2 \<le> k" "k < length (clause_of s cr)" "lit_not (clause_of s cr ! k) \<notin> set (trail s)"
    and "ls' = (clause_of s cr)[1 := clause_of s cr ! k, k := lit_not p]" "w' = Watcher cr (clause_of s cr ! 0)"
    and "s' = push_watch (lit_not (ls' ! 1)) w' (set_lits cr ls' s)"
  shows "pass_inv p m kept ws s'" "prop_rel s s'"
proof -
  note d = pass_invD [OF assms(1)] and w = pass_watcher [OF assms(1), folded assms(2)]
  obtain c where c: "al_mem (ca s) cr = Some c"
    using db_invD(2) [OF d(2) w(1)] by auto
  note mv = moved_lits [OF w(4) assms(4,5), of ls', unfolded assms(3), OF assms(7)]
  have cl: "clause_of s' x = (if x = cr then ls' else clause_of s x)" for x
    using clause_of_set_lits [OF c] by (simp add: assms(9) push_watch_same)
  have wl: "wlits s' x = (if x = cr then {clause_of s cr ! 0, clause_of s cr ! k} else wlits s x)" for x
    using mv(3,4) by (simp add: wlits_def cl)
  have same: "nVars s' = nVars s" "trail s' = trail s" "trail_lim s' = trail_lim s" "qhead s' = qhead s"
      "assigns s' = assigns s" "level s' = level s" "reason s' = reason s" "attached s' = attached s"
      "length (occs s') = length (occs s)"
    by (simp_all add: assms(9) push_watch_same same_vars)
  show "prop_rel s s'"
    unfolding assms(9) by (rule prop_rel_trans [OF set_lits_rel [OF c mv(2)] push_watch_rel])
  have "trail_inv s'"
    by (rule trail_inv_cong [OF same(1,5,2,3,6) _ d(1)]) (use d(1) in \<open>simp add: trail_inv_def same\<close>)
  moreover have "db_inv s'"
    using set_lits_db [OF d(2) w(1) mv(1)] by (simp add: assms(9) push_watch_same)
  moreover have "watch_ok s' ((W_of s')(p := kept @ ws))"
    by (rule move_watch_ok [OF assms(1-5,7-9)])
  moreover have "impl_ok s' m (w_cref ` set ws)"
    unfolding impl_ok_def same
  proof (intro ballI allI impI)
    fix x q j
    assume x: "x \<in> attached s" "q \<in> wlits s' x" "j < length (trail s)" "trail s ! j = lit_not q"
      "j < m \<or> j = m \<and> x \<notin> w_cref ` set ws"
    have q: "q \<noteq> clause_of s cr ! k"
      using x(3,4) assms(6) by (metis nth_mem)
    have "q \<in> wlits s x \<and> (j < m \<or> j = m \<and> x \<notin> w_cref ` set (w # ws))"
    proof (cases "x = cr")
      case True
      then have "q = clause_of s cr ! 0"
        using x(2) q by (simp add: wl)
      then show ?thesis
        using True x(4,5) d(8) mv(8) by (auto simp: wlits_def)
    next
      case False
      then show ?thesis
        using x(2,5) assms(2) by (auto simp: wl)
    qed
    then obtain r where "r \<in> set (clause_of s x)" "r \<in> set (trail s)" "level s (lit_var r) \<le> level s (lit_var q)"
      using d(5) x(1,3,4) unfolding impl_ok_def by blast
    then show "\<exists>r \<in> set (clause_of s' x). r \<in> set (trail s) \<and> level s (lit_var r) \<le> level s (lit_var q)"
      using mv(2) by (auto simp: cl)
  qed
  moreover have "reasons_ok s'"
    using d(6) mv(3,5) by (simp add: reasons_ok_def same cl)
  ultimately show "pass_inv p m kept ws s'"
    using d(3,7-9) by (simp add: pass_inv_def same)
qed

end
