(* ===== verification/Sat_Propagate.thy ===== *)
theory Sat_Propagate
  imports Sat_Pass
begin

text \<open>
  Unit propagation: the passes over the watch lists of all literals on the trail. It ends because
  every pass moves the head of the queue and the trail holds every variable at most once.
\<close>

section \<open>A pass\<close>

definition conflict :: "'a sat_solver_scheme \<Rightarrow> cref \<Rightarrow> bool" where
  "conflict s r \<longleftrightarrow> (\<exists>cr \<in> attached s. r = CRef cr \<and> (\<forall>q \<in> set (clause_of s cr). lit_not q \<in> set (trail s)))"

lemma impl_ok_mono: "impl_ok s m E \<Longrightarrow> E \<subseteq> E' \<Longrightarrow> impl_ok s m E'"
  unfolding impl_ok_def by blast

lemma pass_inv_back: "pass_inv p m kept rest s \<Longrightarrow> pass_inv p m [] (kept @ rest) s"
  by (auto simp: pass_inv_def elim!: impl_ok_mono)

lemma new_watch_None: "new_watch s ls = None \<Longrightarrow> 2 \<le> k \<Longrightarrow> k < length ls \<Longrightarrow> is_false s (ls ! k)"
  by (auto simp: new_watch_def find_None_iff)

lemma new_watch_Some: "new_watch s ls = Some k \<Longrightarrow> 2 \<le> k \<and> k < length ls \<and> \<not> is_false s (ls ! k)"
  by (auto simp: new_watch_def find_Some_iff)

text \<open>The first literal after the exchange, and where the false one is.\<close>

lemma first_exchanged:
  assumes "pass_inv p m kept (w # ws) s" "cr = w_cref w"
    and "ls = (if clause_of s cr ! 0 = lit_not p then (clause_of s cr)[0 := clause_of s cr ! 1, 1 := lit_not p] else clause_of s cr)"
  shows "pass_inv p m kept (w # ws) (set_lits cr ls s)" "prop_rel s (set_lits cr ls s)" "ls ! 1 = lit_not p"
    "clause_of (set_lits cr ls s) cr = ls" "cr \<in> attached (set_lits cr ls s)"
proof -
  note d = pass_invD [OF assms(1)] and w = pass_watcher [OF assms(1), folded assms(2)]
  obtain c where c: "al_mem (ca s) cr = Some c" "lits c = clause_of s cr"
    using db_invD(2) [OF d(2) w(1)] by auto
  have "pass_inv p m kept (w # ws) (set_lits cr ls s) \<and> ls ! 1 = lit_not p \<and> set ls = set (clause_of s cr)"
  proof (cases "clause_of s cr ! 0 = lit_not p")
    case True
    then show ?thesis
      using swap_inv [OF assms(1,2) True, of ls] assms(3) by simp
  next
    case False
    then have "ls = clause_of s cr" "clause_of s cr ! 1 = lit_not p"
      using w(3) assms(3) by (auto simp: wlits_def)
    moreover have "set_lits cr (clause_of s cr) s = s"
      using c by (simp add: set_lits_def fun_upd_idem)
    ultimately show ?thesis
      using assms(1) by simp
  qed
  then show "pass_inv p m kept (w # ws) (set_lits cr ls s)" "ls ! 1 = lit_not p" "prop_rel s (set_lits cr ls s)"
    using set_lits_rel [OF c(1)] by simp_all
  show "clause_of (set_lits cr ls s) cr = ls" "cr \<in> attached (set_lits cr ls s)"
    using clause_of_set_lits [OF c(1)] w(1) by (simp_all add: same_vars)
qed

text \<open>No new watch: all literals but the first are false.\<close>

lemma others_false:
  assumes "pass_inv p m kept (w # ws) s" "clause_of s (w_cref w) ! 1 = lit_not p"
    and "new_watch s (clause_of s (w_cref w)) = None"
  shows "\<forall>r \<in> set (tl (clause_of s (w_cref w))). lit_not r \<in> set (trail s)"
proof
  let ?ls = "clause_of s (w_cref w)"
  note d = pass_invD [OF assms(1)] and w = pass_watcher [OF assms(1)]
  fix r assume "r \<in> set (tl ?ls)"
  then obtain i where i: "i + 1 < length ?ls" "r = ?ls ! (i + 1)"
    by (auto simp: in_set_conv_nth nth_tl less_diff_conv)
  show "lit_not r \<in> set (trail s)"
  proof (cases "i = 0")
    case True
    then show ?thesis
      using i(2) assms(2) d(10) by simp
  next
    case False
    then have "is_false s r"
      using new_watch_None [OF assms(3)] i by simp
    then show ?thesis
      using values_iff(2) [OF d(1)] w(4) i by (auto simp: good_clause_def)
  qed
qed

definition pass_done ::
  "lit \<Rightarrow> nat \<Rightarrow> 'a sat_solver_scheme \<Rightarrow> (cref \<times> watcher list \<times> 'a sat_solver_scheme) result \<Rightarrow> bool" where
  "pass_done p m s res \<longleftrightarrow> (\<exists>r kept s'. res = Inr (r, kept, s') \<and> prop_rel s s' \<and>
     (r = CRef_Undef \<and> pass_inv p m kept [] s' \<and> qhead s' = qhead s \<or>
      conflict s' r \<and> pass_inv p m [] kept s' \<and> qhead s' = length (trail s')))"

lemma pass_doneI:
  "res = Inr (r, kept, s') \<Longrightarrow> prop_rel s s' \<Longrightarrow>
   r = CRef_Undef \<and> pass_inv p m kept [] s' \<and> qhead s' = qhead s \<or>
   conflict s' r \<and> pass_inv p m [] kept s' \<and> qhead s' = length (trail s') \<Longrightarrow> pass_done p m s res"
  unfolding pass_done_def by blast

lemma pass_done_rel:
  assumes "pass_done p m s1 res" "prop_rel s s1" "qhead s1 = qhead s"
  shows "pass_done p m s res"
  using assms prop_rel_trans unfolding pass_done_def by metis

lemma qhead_same [sat_frame]:
  "attached (s\<lparr>qhead := n\<rparr>) = attached s" "clause_of (s\<lparr>qhead := n\<rparr>) = clause_of s" "wlits (s\<lparr>qhead := n\<rparr>) = wlits s"
  "level (s\<lparr>qhead := n\<rparr>) = level s" "reason (s\<lparr>qhead := n\<rparr>) = reason s" "nVars (s\<lparr>qhead := n\<rparr>) = nVars s"
  "W_of (s\<lparr>qhead := n\<rparr>) = W_of s"
  by (auto simp: fun_eq_iff attached_def clause_of_def wlits_def level_def reason_def nVars_def W_of_def)

lemma qhead_invs:
  "db_inv (s\<lparr>qhead := n\<rparr>) = db_inv s" "watch_ok (s\<lparr>qhead := n\<rparr>) W = watch_ok s W"
  "impl_ok (s\<lparr>qhead := n\<rparr>) m E = impl_ok s m E" "reasons_ok (s\<lparr>qhead := n\<rparr>) = reasons_ok s"
  by (simp_all add: db_inv_def watch_ok_def impl_ok_def reasons_ok_def qhead_same)

lemma qhead_trail_inv: "trail_inv s \<Longrightarrow> n \<le> length (trail s) \<Longrightarrow> trail_inv (s\<lparr>qhead := n\<rparr>)"
  by (rule trail_inv_cong) (simp_all add: qhead_same)

lemma qhead_pass_inv:
  assumes "pass_inv p m kept rest s"
  shows "pass_inv p m kept rest (s\<lparr>qhead := length (trail s)\<rparr>)"
  using assms qhead_trail_inv [of s "length (trail s)"] by (simp add: pass_inv_def qhead_same qhead_invs)

lemma qhead_conflict: "conflict (s\<lparr>qhead := n\<rparr>) r = conflict s r"
  by (simp add: conflict_def attached_def clause_of_def)

text \<open>The code for a watcher whose blocker is not true.\<close>

lemma prop_watchers_step:
  assumes "\<not> is_true s (w_blocker w)" "clause_at s (w_cref w) = Inr c"
    and "ls = (if lits c ! 0 = lit_not p then (lits c)[0 := lits c ! 1, 1 := lit_not p] else lits c)" "ls ! 1 = lit_not p"
    and "s1 = set_lits (w_cref w) ls s" "w' = Watcher (w_cref w) (ls ! 0)"
  shows "prop_watchers p kept (w # ws) s =
    (if ls ! 0 \<noteq> w_blocker w \<and> is_true s1 (ls ! 0) then prop_watchers p (kept @ [w']) ws s1
     else case new_watch s1 ls of
       Some k \<Rightarrow> let ls' = ls[1 := ls ! k, k := lit_not p] in
         prop_watchers p kept ws (push_watch (lit_not (ls' ! 1)) w' (set_lits (w_cref w) ls' s1))
     | None \<Rightarrow> if is_false s1 (ls ! 0) then Inr (CRef (w_cref w), kept @ w' # ws, s1\<lparr>qhead := length (trail s1)\<rparr>)
         else (case uncheckedEnqueue (ls ! 0) (CRef (w_cref w)) s1 of Inl e \<Rightarrow> Inl e
           | Inr s2 \<Rightarrow> prop_watchers p (kept @ [w']) ws s2))"
  by (subst prop_watchers.simps(2))
    (simp only: Let_def assms(1,2,4) if_False rbind_Inr assms(3) [symmetric] assms(5,6) simp_thms(6) require_True)

declare prop_watchers.simps(2) [simp del]

lemma prop_watchers_ok:
  "pass_inv p m kept rest s \<Longrightarrow> pass_done p m s (prop_watchers p kept rest s)"
proof (induction rest arbitrary: kept s)
  case Nil
  then show ?case
    by (auto simp: pass_done_def)
next
  case (Cons w ws)
  note d = pass_invD [OF Cons.prems] and w = pass_watcher [OF Cons.prems]
  show ?case
  proof (cases "is_true s (w_blocker w)")
    case True
    then have "w_blocker w \<in> set (trail s)"
      using values_iff(1) [OF d(1)] w(2,4) by (auto simp: good_clause_def)
    then have "pass_inv p m (kept @ [Watcher (w_cref w) (w_blocker w)]) ws s"
      by (rule keep_inv [OF Cons.prems w(2,2)])
    then show ?thesis
      using Cons.IH True by (simp add: prop_watchers.simps(2))
  next
    case blocked: False
    define cr where "cr = w_cref w"
    define ls where "ls = (if clause_of s cr ! 0 = lit_not p
      then (clause_of s cr)[0 := clause_of s cr ! 1, 1 := lit_not p] else clause_of s cr)"
    define s1 where "s1 = set_lits cr ls s"
    define w' where "w' = Watcher cr (ls ! 0)"
    note e = first_exchanged [OF Cons.prems cr_def ls_def, folded s1_def]
    note d1 = pass_invD [OF e(1)] and w1 = pass_watcher [OF e(1), folded cr_def, unfolded e(4)]
    have q1: "qhead s1 = qhead s"
      by (simp add: s1_def)
    obtain c where c: "clause_at s (w_cref w) = Inr c" "lits c = clause_of s cr"
      using db_invD(3) [OF d(2) w(1)] by (auto simp: cr_def)
    note run = prop_watchers_step [OF blocked c(1), unfolded c(2), OF ls_def e(3) s1_def [unfolded cr_def] w'_def [unfolded cr_def],
        of kept ws, folded cr_def]
    have first: "ls ! 0 \<in> set ls" "lit_ok (nVars s1) (ls ! 0)"
      using w1(4) nth_mem [of 0 ls] by (fastforce simp: good_clause_def)+
    note vals = values_iff [OF d1(1) first(2)]
    have keep: "pass_inv p m (kept @ [w']) ws s1" if "r \<in> set ls" "r \<in> set (trail s1)" for r
      using keep_inv [OF e(1), of "ls ! 0" r] first that by (simp add: cr_def [symmetric] e(4) w'_def)
    show ?thesis
    proof (cases "ls ! 0 \<noteq> w_blocker w \<and> is_true s1 (ls ! 0)")
      case True
      then have "pass_inv p m (kept @ [w']) ws s1"
        using keep first vals(1) by blast
      then show ?thesis
        using pass_done_rel [OF Cons.IH e(2) q1] True run by simp
    next
      case not_sat: False
      show ?thesis
      proof (cases "new_watch s1 ls")
        case (Some k)
        define ls' where "ls' = ls[1 := ls ! k, k := lit_not p]"
        define s2 where "s2 = push_watch (lit_not (ls' ! 1)) w' (set_lits cr ls' s1)"
        have k: "2 \<le> k" "k < length ls" "\<not> is_false s1 (ls ! k)"
          using new_watch_Some [OF Some] by simp_all
        then have "lit_not (ls ! k) \<notin> set (trail s1)"
          using values_iff(2) [OF d1(1), of "ls ! k"] w1(4) by (auto simp: good_clause_def)
        then have "pass_inv p m kept ws s2" "prop_rel s1 s2"
          using move_inv [OF e(1) cr_def, of k ls' w' s2] e(3,4) k by (simp_all add: ls'_def w'_def s2_def)
        then have "pass_done p m s (prop_watchers p kept ws s2)"
          by (intro pass_done_rel [OF Cons.IH]) (auto intro: prop_rel_trans [OF e(2)] simp: s2_def s1_def)
        then show ?thesis
          unfolding run if_not_P [OF not_sat] by (simp add: Some Let_def ls'_def [symmetric] s2_def [symmetric] del: One_nat_def)
      next
        case None
        have others: "\<forall>r \<in> set (tl (clause_of s1 cr)). lit_not r \<in> set (trail s1)"
          using others_false [OF e(1), folded cr_def] None e(3,4) by simp
        show ?thesis
        proof (cases "is_false s1 (ls ! 0)")
          case True
          then have "\<forall>q \<in> set (clause_of s1 cr). lit_not q \<in> set (trail s1)"
            using others vals(2) e(4) by (cases ls) auto
          then have "conflict s1 (CRef cr)"
            using e(5) by (auto simp: conflict_def)
          moreover have "pass_inv p m kept (w' # ws) s1"
          proof -
            have "watch_ok s1 ((W_of s1)(p := kept @ w' # ws))"
              by (rule watch_ok_upd [OF d1(4)])
                (use watch_okD(2) [OF d1(4,11)] first e(4) in \<open>auto simp: w'_def cr_def\<close>)
            then show ?thesis
              using e(1) by (simp add: pass_inv_def w'_def cr_def)
          qed
          ultimately have "pass_done p m s1 (Inr (CRef cr, kept @ w' # ws, s1\<lparr>qhead := length (trail s1)\<rparr>))"
            by (intro pass_doneI [OF refl qhead_rel] disjI2)
              (simp add: qhead_conflict qhead_pass_inv pass_inv_back)
          then show ?thesis
            unfolding run if_not_P [OF not_sat] using pass_done_rel [OF _ e(2) q1] by (simp add: None True)
        next
          case False
          have "ls ! 0 \<notin> set (trail s1)"
          proof
            assume t: "ls ! 0 \<in> set (trail s1)"
            then have "ls ! 0 = w_blocker w"
              using not_sat vals(1) by blast
            moreover have "is_true s1 (w_blocker w) = is_true s (w_blocker w)"
              by (simp add: is_true_def s1_def same_vars)
            ultimately show False
              using t vals(1) blocked by simp
          qed
          then have u: "ls ! 0 \<notin> set (trail s1)" "lit_not (ls ! 0) \<notin> set (trail s1)"
            using False vals(2) by simp_all
          define s2 where "s2 = enqueued (ls ! 0) (CRef cr) s1"
          have "uncheckedEnqueue (ls ! 0) (CRef cr) s1 = Inr s2"
            unfolding s2_def by (rule uncheckedEnqueue_ok [OF d1(1) first(2) u]) simp
          moreover have r2: "prop_rel s s2"
            unfolding s2_def using enqueued_rel [OF e(1,5) _ u others] e(4) by (intro prop_rel_trans [OF e(2)]) simp
          moreover have "pass_inv p m (kept @ [w']) ws s2"
          proof -
            have i2: "pass_inv p m kept (w # ws) s2"
              unfolding s2_def using enqueued_inv(1) [OF e(1,5) _ u others] e(4) by simp
            have "clause_of s2 cr = ls"
              using enqueued_keeps(2) [OF d1(2)] e(4) by (simp add: s2_def)
            then show ?thesis
              using keep_inv [OF i2, of "ls ! 0" "ls ! 0"] first(1) by (simp add: cr_def [symmetric] w'_def s2_def)
          qed
          ultimately show ?thesis
            unfolding run if_not_P [OF not_sat] using pass_done_rel [OF Cons.IH r2] q1 by (simp add: None False s2_def)
        qed
      qed
    qed
  qed
qed

section \<open>The whole queue\<close>

lemma trail_length:
  assumes "trail_inv s"
  shows "length (trail s) \<le> nVars s"
proof -
  have "set (map lit_var (trail s)) \<subseteq> {..< nVars s}"
    using assms by (auto simp: trail_inv_def lit_ok_def)
  then have "card (set (map lit_var (trail s))) \<le> nVars s"
    by (metis card_lessThan card_mono finite_lessThan)
  moreover have "distinct (map lit_var (trail s))"
    using assms by (simp add: trail_inv_def)
  ultimately show ?thesis
    using distinct_card [of "map lit_var (trail s)"] by simp
qed

text \<open>Between two passes: everything before the head of the queue has been propagated.\<close>

definition queue_inv :: "'a sat_solver_scheme \<Rightarrow> bool" where
  "queue_inv s \<longleftrightarrow> trail_inv s \<and> db_inv s \<and> length (occs s) = 2 * nVars s \<and> watch_ok s (W_of s) \<and>
     impl_ok s (qhead s) UNIV \<and> reasons_ok s \<and> (\<forall>x \<in> set (trail_lim s). x \<le> qhead s)"

text \<open>After a conflict: everything before the head of the queue at the start had been propagated.\<close>

definition stopped_inv :: "nat \<Rightarrow> 'a sat_solver_scheme \<Rightarrow> bool" where
  "stopped_inv m s \<longleftrightarrow> trail_inv s \<and> db_inv s \<and> length (occs s) = 2 * nVars s \<and> watch_ok s (W_of s) \<and>
     impl_ok s m UNIV \<and> reasons_ok s \<and> qhead s = length (trail s)"

lemma impl_ok_le: "impl_ok s m E \<Longrightarrow> n \<le> m \<Longrightarrow> impl_ok s n UNIV"
  unfolding impl_ok_def by (meson UNIV_I order_less_le_trans)

lemma watch_ok_cong:
  assumes "watch_ok s W" "db_inv s" "\<And>p. lit_ok (nVars s) p \<Longrightarrow> W' p = W p"
  shows "watch_ok s W'"
proof (rule watch_okI)
  show "distinct (map w_cref (W' p))" if "lit_ok (nVars s) p" for p
    using watch_okD(1) [OF assms(1) that] assms(3) [OF that] by simp
  show "\<forall>w \<in> set (W' p). w_cref w \<in> attached s \<and> w_blocker w \<in> set (clause_of s (w_cref w)) \<and> lit_not p \<in> wlits s (w_cref w)"
    if "lit_ok (nVars s) p" for p
    using watch_okD(2) [OF assms(1) that] assms(3) [OF that] by simp
  fix cr q assume c: "cr \<in> attached s" "q \<in> wlits s cr"
  then have "lit_ok (nVars s) (lit_not q)"
    using wlits_sub [OF assms(2) c(1)] db_invD(1) [OF assms(2) c(1)] by (auto simp: good_clause_def)
  then show "cr \<in> w_cref ` set (W' (lit_not q))"
    using watch_okD(3) [OF assms(1) c] assms(3) by simp
qed

lemma occs_same [sat_frame]:
  "attached (s\<lparr>occs := n\<rparr>) = attached s" "clause_of (s\<lparr>occs := n\<rparr>) = clause_of s" "wlits (s\<lparr>occs := n\<rparr>) = wlits s"
  "level (s\<lparr>occs := n\<rparr>) = level s" "reason (s\<lparr>occs := n\<rparr>) = reason s" "nVars (s\<lparr>occs := n\<rparr>) = nVars s"
  by (auto simp: fun_eq_iff attached_def clause_of_def wlits_def level_def reason_def nVars_def)

lemma occs_invs:
  "db_inv (s\<lparr>occs := n\<rparr>) = db_inv s" "watch_ok (s\<lparr>occs := n\<rparr>) W = watch_ok s W" "conflict (s\<lparr>occs := n\<rparr>) r = conflict s r"
  "impl_ok (s\<lparr>occs := n\<rparr>) m E = impl_ok s m E" "reasons_ok (s\<lparr>occs := n\<rparr>) = reasons_ok s" "trail_inv (s\<lparr>occs := n\<rparr>) = trail_inv s"
  by (simp_all add: db_inv_def watch_ok_def impl_ok_def reasons_ok_def trail_inv_def conflict_def occs_same)

text \<open>Writing back the watch list of \<open>p\<close>.\<close>

lemma write_back:
  assumes "pass_inv p m kept rest s"
  shows "watch_ok (s\<lparr>occs := (occs s)[nat p := kept @ rest]\<rparr>) (W_of (s\<lparr>occs := (occs s)[nat p := kept @ rest]\<rparr>))"
proof -
  note d = pass_invD [OF assms]
  have "W_of (s\<lparr>occs := (occs s)[nat p := kept @ rest]\<rparr>) x = ((W_of s)(p := kept @ rest)) x" if "lit_ok (nVars s) x" for x
    using lit_ok_bound [OF d(11)] nat_lit_eq [OF d(11) that] d(3) by (auto simp: W_of_def nth_list_update)
  then show ?thesis
    unfolding occs_invs by (intro watch_ok_cong [OF d(4,2)])
qed

lemma queue_pass_inv:
  assumes "queue_inv s" "qhead s < length (trail s)" "s1 = s\<lparr>qhead := qhead s + 1\<rparr>" "p = trail s ! qhead s"
  shows "pass_inv p (qhead s) [] (occs s1 ! nat p) s1" "prop_rel s s1"
proof -
  have d: "trail_inv s" "db_inv s" "length (occs s) = 2 * nVars s" "watch_ok s (W_of s)" "impl_ok s (qhead s) UNIV"
      "reasons_ok s" "\<forall>x \<in> set (trail_lim s). x \<le> qhead s"
    using assms(1) by (simp_all add: queue_inv_def)
  have "impl_ok s (qhead s) (w_cref ` set (W_of s p))"
    unfolding impl_ok_def
  proof (intro ballI allI impI)
    fix cr q j
    assume c: "cr \<in> attached s" "q \<in> wlits s cr" "j < length (trail s)" "trail s ! j = lit_not q"
      "j < qhead s \<or> j = qhead s \<and> cr \<notin> w_cref ` set (W_of s p)"
    then have "j < qhead s"
      using watch_okD(3) [OF d(4) c(1,2)] assms(4) by auto
    then show "\<exists>r \<in> set (clause_of s cr). r \<in> set (trail s) \<and> level s (lit_var r) \<le> level s (lit_var q)"
      using d(5) c(1-4) unfolding impl_ok_def by blast
  qed
  moreover have "trail_inv s1"
    using qhead_trail_inv [OF d(1), of "qhead s + 1"] assms(2,3) by simp
  ultimately show "pass_inv p (qhead s) [] (occs s1 ! nat p) s1"
    using d(2-4,6,7) assms(2-4) by (simp add: pass_inv_def qhead_same qhead_invs W_of_def fun_upd_idem)
  show "prop_rel s s1"
    unfolding assms(3) by (rule qhead_rel)
qed

definition prop_result :: "'a sat_solver_scheme \<Rightarrow> cref \<times> 'a sat_solver_scheme \<Rightarrow> bool" where
  "prop_result s res \<longleftrightarrow> (case res of (r, s') \<Rightarrow> prop_rel s s' \<and>
     (r = CRef_Undef \<and> queue_inv s' \<and> qhead s' = length (trail s') \<or> conflict s' r \<and> stopped_inv (qhead s) s'))"

lemma prop_loop_ok:
  assumes "queue_inv s"
  shows "\<exists>res. prop_loop CRef_Undef s = Some (Inr res) \<and> prop_result s res"
  using assms
proof (induction "nVars s - qhead s" arbitrary: s rule: less_induct)
  case less
  have inv: "trail_inv s"
    using less.prems by (simp add: queue_inv_def)
  show ?case
  proof (cases "qhead s < length (trail s)")
    case False
    then have "qhead s = length (trail s)"
      using inv by (simp add: trail_inv_def)
    then show ?thesis
      using less.prems by (subst prop_loop.simps) (simp add: prop_result_def)
  next
    case True
    define p where "p = trail s ! qhead s"
    define s1 where "s1 = s\<lparr>qhead := qhead s + 1\<rparr>"
    note q = queue_pass_inv [OF less.prems True s1_def p_def]
    obtain r kept s2 where pass: "prop_watchers p [] (occs s1 ! nat p) s1 = Inr (r, kept, s2)" "prop_rel s1 s2"
        "r = CRef_Undef \<and> pass_inv p (qhead s) kept [] s2 \<and> qhead s2 = qhead s1 \<or>
         conflict s2 r \<and> pass_inv p (qhead s) [] kept s2 \<and> qhead s2 = length (trail s2)"
      using prop_watchers_ok [OF q(1)] unfolding pass_done_def by blast
    define s3 where "s3 = s2\<lparr>occs := (occs s2)[nat p := kept]\<rparr>"
    have rel: "prop_rel s s3"
      unfolding s3_def by (rule prop_rel_trans [OF prop_rel_trans [OF q(2) pass(2)] occs_rel])
    have run: "prop_loop CRef_Undef s = prop_loop (if r = CRef_Undef then CRef_Undef else r) s3"
      using True pass(1) by (subst prop_loop.simps) (simp add: s1_def p_def s3_def Let_def)
    from pass(3) show ?thesis
    proof
      assume ok: "r = CRef_Undef \<and> pass_inv p (qhead s) kept [] s2 \<and> qhead s2 = qhead s1"
      then have i: "pass_inv p (qhead s) kept [] s2" "qhead s3 = qhead s + 1"
        by (simp_all add: s3_def s1_def)
      note d = pass_invD [OF i(1)]
      have "impl_ok s2 (qhead s + 1) UNIV"
        using d(5) unfolding impl_ok_def by (auto simp: less_Suc_eq)
      then have inv3: "queue_inv s3"
        using d(1-3,6,9) i(2) write_back [OF i(1)] by (auto simp: queue_inv_def s3_def occs_invs occs_same)
      have "nVars s3 - qhead s3 < nVars s - qhead s"
        using prop_rel_fields(1) [OF rel] i(2) True trail_length [OF inv] by simp
      then obtain res where "prop_loop CRef_Undef s3 = Some (Inr res)" "prop_result s3 res"
        using less.hyps inv3 by blast
      then show ?thesis
        using run ok i(2) impl_ok_le [where n = "qhead s"] prop_rel_trans [OF rel]
        by (fastforce simp: prop_result_def stopped_inv_def)
    next
      assume ok: "conflict s2 r \<and> pass_inv p (qhead s) [] kept s2 \<and> qhead s2 = length (trail s2)"
      then have i: "pass_inv p (qhead s) [] kept s2"
        by simp
      note d = pass_invD [OF i]
      have "stopped_inv (qhead s) s3"
        using d(1-3,6) impl_ok_le [OF d(5) order_refl] write_back [OF i] ok
        by (simp add: stopped_inv_def s3_def occs_invs occs_same)
      moreover have "r \<noteq> CRef_Undef"
        using ok by (auto simp: conflict_def)
      moreover have "prop_loop r s3 = Some (Inr (r, s3))"
        using ok by (subst prop_loop.simps) (simp add: s3_def)
      ultimately show ?thesis
        using run rel ok by (auto simp: prop_result_def s3_def occs_invs)
    qed
  qed
qed

end
