(* ===== verification/Sat_State.thy ===== *)
theory Sat_State
  imports Sat_Propagate
begin

text \<open>
  The invariant of the solver between its operations, with watchers of removed clauses that are
  still to be cleaned, and that propagation and backtracking keep it.
\<close>

section \<open>Cleaning the watch lists\<close>

lemma clean_fields [simp]:
  "nVars (clean p s) = nVars s" "length (occs (clean p s)) = length (occs s)" "length (dirty (clean p s)) = length (dirty s)"
  "ca (clean p s) = ca s" "clauses (clean p s) = clauses s" "learnts (clean p s) = learnts s" "trail (clean p s) = trail s"
  "vardata (clean p s) = vardata s" "assigns (clean p s) = assigns s" "trail_lim (clean p s) = trail_lim s" "qhead (clean p s) = qhead s"
  "dirties (clean p s) = dirties s" "sat_ok (clean p s) = sat_ok s" "undo_stack (clean p s) = undo_stack s"
  "undo_trail_size (clean p s) = undo_trail_size s" "seen (clean p s) = seen s" "decision (clean p s) = decision s" "order_heap (clean p s) = order_heap s" "sat_solver.more (clean p s) = sat_solver.more s"
  by (simp_all add: clean_def nVars_def)

lemma clean_loop_fields [simp]:
  "nVars (clean_loop ps s) = nVars s" "length (occs (clean_loop ps s)) = length (occs s)"
  "length (dirty (clean_loop ps s)) = length (dirty s)" "ca (clean_loop ps s) = ca s" "clauses (clean_loop ps s) = clauses s"
  "learnts (clean_loop ps s) = learnts s" "trail (clean_loop ps s) = trail s" "vardata (clean_loop ps s) = vardata s"
  "assigns (clean_loop ps s) = assigns s" "trail_lim (clean_loop ps s) = trail_lim s" "qhead (clean_loop ps s) = qhead s"
  "dirties (clean_loop ps s) = dirties s" "sat_ok (clean_loop ps s) = sat_ok s" "undo_stack (clean_loop ps s) = undo_stack s"
  "undo_trail_size (clean_loop ps s) = undo_trail_size s" "seen (clean_loop ps s) = seen s" "decision (clean_loop ps s) = decision s" "order_heap (clean_loop ps s) = order_heap s"
  "sat_solver.more (clean_loop ps s) = sat_solver.more s"
  by (induction ps s rule: clean_loop.induct) simp_all

lemma cleanAll_fields [simp]:
  "nVars (cleanAll s) = nVars s" "length (occs (cleanAll s)) = length (occs s)" "length (dirty (cleanAll s)) = length (dirty s)"
  "ca (cleanAll s) = ca s" "clauses (cleanAll s) = clauses s" "learnts (cleanAll s) = learnts s" "trail (cleanAll s) = trail s"
  "vardata (cleanAll s) = vardata s" "assigns (cleanAll s) = assigns s" "trail_lim (cleanAll s) = trail_lim s"
  "qhead (cleanAll s) = qhead s" "dirties (cleanAll s) = []" "sat_ok (cleanAll s) = sat_ok s" "undo_stack (cleanAll s) = undo_stack s"
  "undo_trail_size (cleanAll s) = undo_trail_size s" "seen (cleanAll s) = seen s" "decision (cleanAll s) = decision s" "order_heap (cleanAll s) = order_heap s" "sat_solver.more (cleanAll s) = sat_solver.more s"
  by (simp_all add: cleanAll_def nVars_def)

lemma cleanAll_same [sat_frame]:
  "attached (cleanAll s) = attached s" "clause_of (cleanAll s) = clause_of s" "wlits (cleanAll s) = wlits s"
  "level (cleanAll s) = level s" "reason (cleanAll s) = reason s" "watcher_deleted (cleanAll s) = watcher_deleted s"
  "decisionLevel (cleanAll s) = decisionLevel s"
  by (auto simp: fun_eq_iff attached_def clause_of_def wlits_def level_def reason_def watcher_deleted_def decisionLevel_def)

definition live :: "'a sat_solver_scheme \<Rightarrow> lit \<Rightarrow> watcher list" where
  "live s p = filter (\<lambda>w. \<not> watcher_deleted s w) (W_of s p)"

lemma clean_loop_effect:
  assumes "\<forall>p \<in> set ps. lit_ok (nVars s) p" "length (occs s) = 2 * nVars s" "length (dirty s) = 2 * nVars s"
    and "lit_ok (nVars s) x"
  shows "W_of (clean_loop ps s) x = (if x \<in> set ps \<and> dirty s ! nat x then live s x else W_of s x) \<and>
    (dirty (clean_loop ps s) ! nat x \<longleftrightarrow> dirty s ! nat x \<and> x \<notin> set ps)"
  using assms
proof (induction ps arbitrary: s)
  case (Cons p ps)
  have p: "lit_ok (nVars s) p" "nat p < 2 * nVars s"
    using Cons.prems(1) lit_ok_bound by simp_all
  show ?case
  proof (cases "dirty s ! nat p")
    case False
    then show ?thesis
      using Cons by auto
  next
    case True
    have W: "W_of (clean p s) x = (if x = p then live s p else W_of s x)"
        "dirty (clean p s) ! nat x = (if x = p then False else dirty s ! nat x)"
      using p Cons.prems nat_lit_eq [OF p(1) Cons.prems(4)]
      by (auto simp: W_of_def clean_def live_def nth_list_update)
    have d: "watcher_deleted (clean p s) = watcher_deleted s"
      by (auto simp: fun_eq_iff watcher_deleted_def)
    have IH: "W_of (clean_loop ps (clean p s)) x =
        (if x \<in> set ps \<and> dirty (clean p s) ! nat x then live (clean p s) x else W_of (clean p s) x) \<and>
        (dirty (clean_loop ps (clean p s)) ! nat x \<longleftrightarrow> dirty (clean p s) ! nat x \<and> x \<notin> set ps)"
      by (rule Cons.IH) (use Cons.prems in simp_all)
    show ?thesis
      using IH True W by (auto simp: live_def d)
  qed
qed simp

text \<open>Watchers of removed clauses stand only in lists that are marked dirty.\<close>

definition dirt_ok :: "'a sat_solver_scheme \<Rightarrow> bool" where
  "dirt_ok s \<longleftrightarrow> length (dirty s) = 2 * nVars s \<and> (\<forall>p \<in> set (dirties s). lit_ok (nVars s) p) \<and>
     (\<forall>p. lit_ok (nVars s) p \<longrightarrow> (dirty s ! nat p \<longrightarrow> p \<in> set (dirties s)) \<and>
        ((\<exists>w \<in> set (W_of s p). watcher_deleted s w) \<longrightarrow> dirty s ! nat p))"

lemma cleanAll_effect:
  assumes "dirt_ok s" "length (occs s) = 2 * nVars s" "lit_ok (nVars s) x"
  shows "W_of (cleanAll s) x = live s x" "\<not> dirty (cleanAll s) ! nat x"
proof -
  have e: "W_of (clean_loop (dirties s) s) x = (if x \<in> set (dirties s) \<and> dirty s ! nat x then live s x else W_of s x) \<and>
    (dirty (clean_loop (dirties s) s) ! nat x \<longleftrightarrow> dirty s ! nat x \<and> x \<notin> set (dirties s))"
    using assms by (intro clean_loop_effect) (simp_all add: dirt_ok_def)
  have "live s x = W_of s x" if "\<not> dirty s ! nat x"
    using assms(1,3) that unfolding live_def dirt_ok_def by (metis (no_types, lifting) filter_True)
  then show "W_of (cleanAll s) x = live s x" "\<not> dirty (cleanAll s) ! nat x"
    using e assms(1,3) by (auto simp: cleanAll_def W_of_def dirt_ok_def)
qed

section \<open>The invariant of the solver\<close>

text \<open>The literals of the trail before \<open>m\<close> have been propagated, among them all of lower levels.\<close>

definition sat_inv :: "nat \<Rightarrow> 'a sat_solver_scheme \<Rightarrow> bool" where
  "sat_inv m s \<longleftrightarrow> trail_inv s \<and> db_inv s \<and> length (occs s) = 2 * nVars s \<and> watch_ok s (live s) \<and> dirt_ok s \<and>
     impl_ok s m UNIV \<and> reasons_ok s \<and> (\<forall>x \<in> set (trail_lim s). x \<le> m)"

lemma sat_invD:
  assumes "sat_inv m s"
  shows "trail_inv s" "db_inv s" "length (occs s) = 2 * nVars s" "watch_ok s (live s)" "dirt_ok s" "impl_ok s m UNIV"
    "reasons_ok s" "\<forall>x \<in> set (trail_lim s). x \<le> m"
  using assms by (simp_all add: sat_inv_def)

lemma cleanAll_invs:
  "db_inv (cleanAll s) = db_inv s" "impl_ok (cleanAll s) m E = impl_ok s m E" "reasons_ok (cleanAll s) = reasons_ok s"
  "trail_inv (cleanAll s) = trail_inv s" "watch_ok (cleanAll s) W = watch_ok s W"
  by (simp_all add: db_inv_def impl_ok_def reasons_ok_def trail_inv_def watch_ok_def cleanAll_same)

lemma cleanAll_queue_inv:
  assumes "sat_inv (qhead s) s"
  shows "queue_inv (cleanAll s)"
proof -
  note d = sat_invD [OF assms]
  have "watch_ok s (W_of (cleanAll s))"
    by (rule watch_ok_cong [OF d(4,2)]) (rule cleanAll_effect(1) [OF d(5,3)])
  then show ?thesis
    using d by (simp add: queue_inv_def cleanAll_invs)
qed

text \<open>A state without dirt: the watchers of attached clauses are all there are.\<close>

lemma deleted_header: "header_of s' = header_of s \<Longrightarrow> watcher_deleted s' = watcher_deleted s"
proof
  fix w assume h: "header_of s' = header_of s"
  have "map_option (\<lambda>c. c\<lparr>lits := []\<rparr>) (al_mem (ca s') (w_cref w)) = map_option (\<lambda>c. c\<lparr>lits := []\<rparr>) (al_mem (ca s) (w_cref w))"
    using fun_cong [OF h, of "w_cref w"] by (simp add: header_of_def)
  then show "watcher_deleted s' w = watcher_deleted s w"
    by (cases "al_mem (ca s') (w_cref w)"; cases "al_mem (ca s) (w_cref w)") (auto simp: watcher_deleted_def dest: arg_cong [where f = c_mark])
qed

lemma attached_not_deleted: "db_inv s \<Longrightarrow> w_cref w \<in> attached s \<Longrightarrow> \<not> watcher_deleted s w"
  using db_invD(2) [of s "w_cref w"] by (auto simp: watcher_deleted_def)

lemma no_dirt:
  assumes "watch_ok s (W_of s)" "db_inv s"
  shows "lit_ok (nVars s) p \<Longrightarrow> live s p = W_of s p" "watch_ok s (live s)"
proof -
  show l: "live s p = W_of s p" if "lit_ok (nVars s) p" for p
    using watch_okD(2) [OF assms(1) that] attached_not_deleted [OF assms(2)] by (auto simp: live_def intro: filter_True)
  show "watch_ok s (live s)"
    by (rule watch_ok_cong [OF assms l])
qed

lemma no_dirt_ok:
  assumes "watch_ok s (W_of s)" "db_inv s" "length (dirty s) = 2 * nVars s" "dirties s = []"
    "\<And>p. lit_ok (nVars s) p \<Longrightarrow> \<not> dirty s ! nat p"
  shows "dirt_ok s"
  using assms(3-5) watch_okD(2) [OF assms(1)] attached_not_deleted [OF assms(2)] unfolding dirt_ok_def by auto

section \<open>Propagation\<close>

text \<open>What a state after propagation has in common with the one before.\<close>

definition prop_ext :: "'a sat_solver_scheme \<Rightarrow> 'a sat_solver_scheme \<Rightarrow> bool" where
  "prop_ext s s' \<longleftrightarrow> prop_rel (cleanAll s) s'"

lemma prop_ext_fields:
  assumes "prop_ext s s'"
  shows "nVars s' = nVars s" "trail_lim s' = trail_lim s" "clauses s' = clauses s" "learnts s' = learnts s"
    "sat_ok s' = sat_ok s" "attached s' = attached s" "decisionLevel s' = decisionLevel s"
    "set (clause_of s' cr) = set (clause_of s cr)" "db_sat \<alpha> s' = db_sat \<alpha> s" "\<exists>new. trail s' = trail s @ new"
    "r \<in> set (trail s) \<Longrightarrow> level s' (lit_var r) = level s (lit_var r)"
    "db_sat \<alpha> s \<Longrightarrow> trail_sat \<alpha> s \<Longrightarrow> trail_sat \<alpha> s'" "undo_stack s' = undo_stack s"
proof -
  note f = prop_rel_fields [OF assms [unfolded prop_ext_def]]
  have db: "db_sat \<alpha> (cleanAll s) = db_sat \<alpha> s" and tr: "trail_sat \<alpha> (cleanAll s) = trail_sat \<alpha> s" for \<alpha>
    by (simp_all add: db_sat_def trail_sat_def cleanAll_same)
  show "nVars s' = nVars s" "trail_lim s' = trail_lim s" "clauses s' = clauses s" "learnts s' = learnts s"
    "sat_ok s' = sat_ok s" "attached s' = attached s" "decisionLevel s' = decisionLevel s"
    "set (clause_of s' cr) = set (clause_of s cr)" "db_sat \<alpha> s' = db_sat \<alpha> s" "undo_stack s' = undo_stack s"
    using f(1-5,8-11,13) db by (simp_all add: cleanAll_same)
  show "\<exists>new. trail s' = trail s @ new" "r \<in> set (trail s) \<Longrightarrow> level s' (lit_var r) = level s (lit_var r)"
      "db_sat \<alpha> s \<Longrightarrow> trail_sat \<alpha> s \<Longrightarrow> trail_sat \<alpha> s'"
    using assms db tr by (auto simp: prop_ext_def prop_rel_def cleanAll_same)
qed

text \<open>What is new on the trail has a clause for its reason.\<close>

lemma prop_ext_new:
  assumes "prop_ext s s'"
  obtains new where "trail s' = trail s @ new" "\<forall>r \<in> set new. \<exists>cr. reason s' (lit_var r) = CRef cr"
    "\<forall>r \<in> set (trail s). reason s' (lit_var r) = reason s (lit_var r)" "seen s' = seen s"
proof -
  note rel = assms [unfolded prop_ext_def]
  have "\<exists>new. trail s' = trail s @ new \<and> (\<forall>r \<in> set new. \<exists>cr. reason s' (lit_var r) = CRef cr)"
      "\<forall>r \<in> set (trail s). reason s' (lit_var r) = reason s (lit_var r)"
    using rel by (simp_all add: prop_rel_def cleanAll_same)
  then show thesis
    using that prop_rel_fields(15) [OF rel] by auto
qed

lemma propagate_ok:
  assumes "sat_inv (qhead s) s"
  obtains r s' where "propagate s = Inr (r, s')" "prop_ext s s'" "qhead s' = length (trail s')"
    "r = CRef_Undef \<and> sat_inv (length (trail s')) s' \<or> conflict s' r \<and> sat_inv (qhead s) s'"
proof -
  note d = sat_invD [OF assms]
  obtain r s' where run: "prop_loop CRef_Undef (cleanAll s) = Some (Inr (r, s'))" "prop_result (cleanAll s) (r, s')"
    using prop_loop_ok [OF cleanAll_queue_inv [OF assms]] by auto
  then have rel: "prop_rel (cleanAll s) s'"
    by (simp add: prop_result_def)
  note f = prop_rel_fields [OF rel]
  have dirt: "dirt_ok s'" "watch_ok s' (live s')" if "watch_ok s' (W_of s')" "db_inv s'"
  proof -
    show "dirt_ok s'"
      by (rule no_dirt_ok [OF that]) (use f cleanAll_effect(2) [OF d(5,3)] d(5) in \<open>simp_all add: dirt_ok_def\<close>)
    show "watch_ok s' (live s')"
      by (rule no_dirt(2) [OF that])
  qed
  have "r = CRef_Undef \<and> sat_inv (length (trail s')) s' \<and> qhead s' = length (trail s') \<or>
      conflict s' r \<and> sat_inv (qhead s) s' \<and> qhead s' = length (trail s')"
    using run(2) dirt d(8) f(2) by (auto simp: prop_result_def queue_inv_def stopped_inv_def sat_inv_def)
  moreover have "propagate s = Inr (r, s')"
    by (simp add: propagate_def run(1))
  ultimately show thesis
    using that rel by (auto simp: prop_ext_def)
qed

text \<open>When all of the trail has been propagated, no clause is false or down to one literal.\<close>

definition settled :: "'a sat_solver_scheme \<Rightarrow> nat \<Rightarrow> bool" where
  "settled s cr \<longleftrightarrow> (\<exists>q \<in> set (clause_of s cr). q \<in> set (trail s)) \<or>
     (\<exists>q \<in> set (clause_of s cr). \<exists>r \<in> set (clause_of s cr). q \<noteq> r \<and> is_undef s q \<and> is_undef s r)"

lemma all_settled:
  assumes "sat_inv (length (trail s)) s" "cr \<in> attached s"
  shows "settled s cr"
proof (cases "\<exists>q \<in> set (clause_of s cr). q \<in> set (trail s)")
  case False
  note d = sat_invD [OF assms(1)]
  have g: "good_clause (nVars s) (clause_of s cr)"
    by (rule db_invD(1) [OF d(2) assms(2)])
  have u: "is_undef s q" if q: "q \<in> wlits s cr" for q
  proof -
    have m: "q \<in> set (clause_of s cr)"
      using wlits_sub [OF d(2) assms(2)] q by blast
    have "lit_not q \<notin> set (trail s)"
    proof
      assume "lit_not q \<in> set (trail s)"
      then obtain j where "j < length (trail s)" "trail s ! j = lit_not q"
        by (metis in_set_conv_nth)
      then show False
        using d(6) assms(2) q False unfolding impl_ok_def by blast
    qed
    then show ?thesis
      using values_iff(3) [OF d(1)] g m False by (auto simp: good_clause_def)
  qed
  have "clause_of s cr ! 0 \<noteq> clause_of s cr ! 1"
    by (rule good_clauseD(5) [OF g])
  then show ?thesis
    using u wlits_sub [OF d(2) assms(2)] unfolding settled_def wlits_def by blast
qed (simp add: settled_def)

lemma conflict_unsat: "conflict s r \<Longrightarrow> db_sat \<alpha> s \<Longrightarrow> trail_sat \<alpha> s \<Longrightarrow> False"
  unfolding conflict_def db_sat_def trail_sat_def csat_def by (metis lsat_not)

section \<open>What the invariant depends on\<close>

text \<open>
  The fields the invariant speaks of; the two states may have different extra fields. An operation that
  leaves them alone keeps the invariant.
\<close>

definition same_core :: "'a sat_solver_scheme \<Rightarrow> 'b sat_solver_scheme \<Rightarrow> bool" where
  "same_core s s' \<longleftrightarrow> ca s' = ca s \<and> clauses s' = clauses s \<and> learnts s' = learnts s \<and> occs s' = occs s \<and> dirty s' = dirty s \<and>
     dirties s' = dirties s \<and> assigns s' = assigns s \<and> vardata s' = vardata s \<and> trail s' = trail s \<and>
     trail_lim s' = trail_lim s \<and> qhead s' = qhead s"

lemma same_core_fields:
  assumes "same_core s s'"
  shows "attached s' = attached s" "clause_of s' = clause_of s" "nVars s' = nVars s" "decisionLevel s' = decisionLevel s"
    "sat_inv m s' = sat_inv m s"
proof -
  have same: "attached s' = attached s" "clause_of s' = clause_of s" "nVars s' = nVars s" "level s' = level s" "reason s' = reason s"
      "W_of s' = W_of s" "watcher_deleted s' = watcher_deleted s"
    using assms
    by (auto simp: same_core_def fun_eq_iff attached_def nVars_def level_def reason_def watcher_deleted_def W_of_def clause_of_def)
  then have "wlits s' = wlits s" "live s' = live s"
    by (auto simp: fun_eq_iff wlits_def live_def)
  then show "sat_inv m s' = sat_inv m s"
    using assms same unfolding same_core_def
    by (simp add: sat_inv_def trail_inv_def db_inv_def watch_ok_def dirt_ok_def impl_ok_def reasons_ok_def)
  show "attached s' = attached s" "clause_of s' = clause_of s" "nVars s' = nVars s" "decisionLevel s' = decisionLevel s"
    using assms same by (simp_all add: same_core_def decisionLevel_def)
qed

section \<open>A new decision level\<close>

lemma newDecisionLevel_fields:
  "attached (newDecisionLevel s) = attached s" "clause_of (newDecisionLevel s) = clause_of s"
  "wlits (newDecisionLevel s) = wlits s" "level (newDecisionLevel s) = level s" "reason (newDecisionLevel s) = reason s"
  "watcher_deleted (newDecisionLevel s) = watcher_deleted s" "W_of (newDecisionLevel s) = W_of s"
  "live (newDecisionLevel s) = live s" "nVars (newDecisionLevel s) = nVars s" "trail (newDecisionLevel s) = trail s"
  "trail_lim (newDecisionLevel s) = trail_lim s @ [length (trail s)]" "assigns (newDecisionLevel s) = assigns s"
  "qhead (newDecisionLevel s) = qhead s" "occs (newDecisionLevel s) = occs s" "ca (newDecisionLevel s) = ca s"
  "dirty (newDecisionLevel s) = dirty s" "dirties (newDecisionLevel s) = dirties s" "clauses (newDecisionLevel s) = clauses s"
  "learnts (newDecisionLevel s) = learnts s" "sat_ok (newDecisionLevel s) = sat_ok s" "seen (newDecisionLevel s) = seen s"
  "decision (newDecisionLevel s) = decision s" "order_heap (newDecisionLevel s) = order_heap s"
  "decisionLevel (newDecisionLevel s) = Suc (decisionLevel s)"
  by (auto simp: fun_eq_iff attached_def clause_of_def wlits_def level_def reason_def watcher_deleted_def W_of_def live_def
      newDecisionLevel_def nVars_def decisionLevel_def)

lemma newDecisionLevel_ok:
  assumes "sat_inv (length (trail s)) s" "qhead s = length (trail s)"
  shows "sat_inv (length (trail s)) (newDecisionLevel s)"
proof -
  note d = sat_invD [OF assms(1)]
  have "trail_inv (newDecisionLevel s)"
    using d(1) by (auto simp: trail_inv_def newDecisionLevel_fields sorted_append)
  then show ?thesis
    using d by (auto simp: sat_inv_def db_inv_def watch_ok_def dirt_ok_def impl_ok_def reasons_ok_def newDecisionLevel_fields)
qed

section \<open>Backtracking\<close>

lemma sorted_split:
  assumes "sorted xs" "i < length xs"
  shows "x \<in> set (take i xs) \<Longrightarrow> x \<le> xs ! i" "x \<in> set (drop i xs) \<Longrightarrow> xs ! i \<le> x"
proof -
  show "x \<le> xs ! i" if "x \<in> set (take i xs)"
    using that sorted_nth_mono [OF assms(1) _ assms(2)] by (fastforce simp: in_set_conv_nth)
  show "xs ! i \<le> x" if "x \<in> set (drop i xs)"
    using that sorted_nth_mono [OF assms(1), of i] by (fastforce simp: in_set_conv_nth)
qed

lemma insertVarOrder_fields [simp]:
  "nVars (insertVarOrder x s) = nVars s" "occs (insertVarOrder x s) = occs s" "dirty (insertVarOrder x s) = dirty s"
  "ca (insertVarOrder x s) = ca s" "clauses (insertVarOrder x s) = clauses s" "learnts (insertVarOrder x s) = learnts s"
  "trail (insertVarOrder x s) = trail s" "vardata (insertVarOrder x s) = vardata s" "assigns (insertVarOrder x s) = assigns s"
  "trail_lim (insertVarOrder x s) = trail_lim s" "qhead (insertVarOrder x s) = qhead s" "dirties (insertVarOrder x s) = dirties s"
  "sat_ok (insertVarOrder x s) = sat_ok s" "undo_stack (insertVarOrder x s) = undo_stack s"
  "decision (insertVarOrder x s) = decision s" "seen (insertVarOrder x s) = seen s"
  by (simp_all add: insertVarOrder_def nVars_def)

lemma cancel_one_fields [simp]:
  "nVars (cancel_one c s) = nVars s" "occs (cancel_one c s) = occs s" "dirty (cancel_one c s) = dirty s"
  "ca (cancel_one c s) = ca s" "clauses (cancel_one c s) = clauses s" "learnts (cancel_one c s) = learnts s"
  "trail (cancel_one c s) = trail s" "vardata (cancel_one c s) = vardata s" "trail_lim (cancel_one c s) = trail_lim s"
  "qhead (cancel_one c s) = qhead s" "dirties (cancel_one c s) = dirties s" "sat_ok (cancel_one c s) = sat_ok s"
  "undo_stack (cancel_one c s) = undo_stack s" "decision (cancel_one c s) = decision s" "seen (cancel_one c s) = seen s"
  "assigns (cancel_one c s) = (assigns s)[lit_var (trail s ! c) := l_Undef]"
  by (simp_all add: cancel_one_def Let_def nVars_def)

lemma cancel_loop_fields [simp]:
  "nVars (cancel_loop cs s) = nVars s" "occs (cancel_loop cs s) = occs s" "dirty (cancel_loop cs s) = dirty s"
  "ca (cancel_loop cs s) = ca s" "clauses (cancel_loop cs s) = clauses s" "learnts (cancel_loop cs s) = learnts s"
  "trail (cancel_loop cs s) = trail s" "vardata (cancel_loop cs s) = vardata s" "trail_lim (cancel_loop cs s) = trail_lim s"
  "qhead (cancel_loop cs s) = qhead s" "dirties (cancel_loop cs s) = dirties s" "sat_ok (cancel_loop cs s) = sat_ok s"
  "undo_stack (cancel_loop cs s) = undo_stack s" "decision (cancel_loop cs s) = decision s" "seen (cancel_loop cs s) = seen s"
  "length (assigns (cancel_loop cs s)) = length (assigns s)"
  by (induction cs arbitrary: s) simp_all

lemma cancel_loop_assigns:
  "v < length (assigns s) \<Longrightarrow>
   assigns (cancel_loop cs s) ! v = (if v \<in> (\<lambda>c. lit_var (trail s ! c)) ` set cs then l_Undef else assigns s ! v)"
  by (induction cs arbitrary: s) (auto simp: nth_list_update)

lemma cancelUntil_fields:
  assumes "lev < decisionLevel s"
  shows "nVars (cancelUntil lev s) = nVars s" "occs (cancelUntil lev s) = occs s" "dirty (cancelUntil lev s) = dirty s"
    "ca (cancelUntil lev s) = ca s" "clauses (cancelUntil lev s) = clauses s" "learnts (cancelUntil lev s) = learnts s"
    "trail (cancelUntil lev s) = take (trail_lim s ! lev) (trail s)" "vardata (cancelUntil lev s) = vardata s"
    "trail_lim (cancelUntil lev s) = take lev (trail_lim s)" "qhead (cancelUntil lev s) = trail_lim s ! lev"
    "dirties (cancelUntil lev s) = dirties s" "sat_ok (cancelUntil lev s) = sat_ok s"
    "length (assigns (cancelUntil lev s)) = length (assigns s)" "undo_stack (cancelUntil lev s) = undo_stack s"
    "decisionLevel (cancelUntil lev s) = lev"
  using assms cancel_loop_fields(1) [of "rev [trail_lim s ! lev ..< length (trail s)]" s]
  by (simp_all add: cancelUntil_def Let_def nVars_def decisionLevel_def)

lemma cancelUntil_same:
  assumes "lev < decisionLevel s"
  shows "attached (cancelUntil lev s) = attached s" "clause_of (cancelUntil lev s) = clause_of s"
    "wlits (cancelUntil lev s) = wlits s" "level (cancelUntil lev s) = level s" "reason (cancelUntil lev s) = reason s"
    "watcher_deleted (cancelUntil lev s) = watcher_deleted s" "W_of (cancelUntil lev s) = W_of s" "live (cancelUntil lev s) = live s"
  by (auto simp: fun_eq_iff attached_def clause_of_def wlits_def level_def reason_def watcher_deleted_def W_of_def live_def
      cancelUntil_fields [OF assms])

text \<open>Below the limit of a level stand exactly the literals of the levels up to it.\<close>

lemma lim_level:
  assumes "trail_inv s" "lev < decisionLevel s" "i < length (trail s)"
  shows "level s (lit_var (trail s ! i)) \<le> lev \<longleftrightarrow> i < trail_lim s ! lev"
proof -
  have s: "sorted (trail_lim s)" "lev < length (trail_lim s)"
    using assms(1,2) by (simp_all add: trail_inv_def decisionLevel_def)
  have split: "trail_lim s = take lev (trail_lim s) @ trail_lim s ! lev # drop (Suc lev) (trail_lim s)"
    using s(2) by (rule id_take_nth_drop)
  show ?thesis
  proof
    assume "i < trail_lim s ! lev"
    moreover have "trail_lim s ! lev \<le> x" if "x \<in> set (drop (Suc lev) (trail_lim s))" for x
      using sorted_split(2) [OF s] that set_drop_subset_set_drop [of lev "Suc lev" "trail_lim s"] by auto
    ultimately have "filter (\<lambda>m. m \<le> i) (trail_lim s ! lev # drop (Suc lev) (trail_lim s)) = []"
      by (fastforce simp: filter_empty_conv)
    then have "filter (\<lambda>m. m \<le> i) (trail_lim s) = filter (\<lambda>m. m \<le> i) (take lev (trail_lim s))"
      by (subst split) (simp only: filter_append append_Nil2)
    then have "length (filter (\<lambda>m. m \<le> i) (trail_lim s)) \<le> lev"
      using length_filter_le [of "\<lambda>m. m \<le> i" "take lev (trail_lim s)"] by simp
    then show "level s (lit_var (trail s ! i)) \<le> lev"
      using trail_level [OF assms(1,3)] by simp
  next
    assume l: "level s (lit_var (trail s ! i)) \<le> lev"
    show "i < trail_lim s ! lev"
    proof (rule ccontr)
      assume "\<not> i < trail_lim s ! lev"
      moreover have "x \<le> trail_lim s ! lev" if "x \<in> set (take lev (trail_lim s))" for x
        using sorted_split(1) [OF s that] .
      ultimately have "filter (\<lambda>m. m \<le> i) (take lev (trail_lim s)) = take lev (trail_lim s)" "trail_lim s ! lev \<le> i"
        by (fastforce simp: filter_id_conv)+
      then have "Suc lev \<le> length (filter (\<lambda>m. m \<le> i) (trail_lim s))"
        using s(2) by (subst split) (simp only: filter_append, simp)
      then show False
        using l trail_level [OF assms(1,3)] by simp
    qed
  qed
qed

lemma cancelUntil_trail_inv:
  assumes "trail_inv s" "lev < decisionLevel s"
  shows "trail_inv (cancelUntil lev s)"
proof -
  let ?m = "trail_lim s ! lev"
  note f = cancelUntil_fields [OF assms(2)]
  have lev: "lev < length (trail_lim s)"
    using assms(2) by (simp add: decisionLevel_def)
  have m: "?m \<le> length (trail s)" and sorted: "sorted (trail_lim s)" and dist: "distinct (map lit_var (trail s))"
    using assms(1) lev by (simp_all add: trail_inv_def)
  have low: "x \<le> ?m" if "x \<in> set (take lev (trail_lim s))" for x
    using sorted_split(1) [OF sorted lev that] .
  have "assigns (cancelUntil lev s) ! v = (if mkLit v False \<in> set (take ?m (trail s)) then l_True
      else if mkLit v True \<in> set (take ?m (trail s)) then l_False else l_Undef)" if v: "v < nVars s" for v
  proof -
    let ?low = "take ?m (trail s)" and ?high = "drop ?m (trail s)"
    have old: "assigns s ! v = (if mkLit v False \<in> set (trail s) then l_True
        else if mkLit v True \<in> set (trail s) then l_False else l_Undef)"
      using assms(1) v by (simp add: trail_inv_def)
    have t: "trail s = ?low @ ?high"
      by simp
    have "map ((!) (trail s)) [?m ..< length (trail s)] = ?high"
      by (metis add_0 drop_map drop_upt map_nth)
    then have img: "(\<lambda>c. lit_var (trail s ! c)) ` set (rev [?m ..< length (trail s)]) = lit_var ` set ?high"
      by (metis (no_types, lifting) image_cong image_image list.set_map set_rev)
    have new: "assigns (cancelUntil lev s) ! v = (if v \<in> lit_var ` set ?high then l_Undef else assigns s ! v)"
      using assms v cancel_loop_assigns [of v s "rev [?m ..< length (trail s)]", unfolded img]
      by (simp add: cancelUntil_def Let_def trail_inv_def)
    have d: "lit_var ` set ?low \<inter> lit_var ` set ?high = {}"
      using dist by (subst (asm) t) (simp only: map_append distinct_append set_map)
    have in_trail: "p \<in> set (trail s) \<longleftrightarrow> p \<in> set ?low \<or> p \<in> set ?high" for p
      by (subst t) (simp only: set_append Un_iff)
    show ?thesis
    proof (cases "v \<in> lit_var ` set ?high")
      case True
      then have "v \<notin> lit_var ` set ?low"
        using d by blast
      then have "mkLit v b \<notin> set ?low" for b
        by (metis image_eqI lit_var_mkLit)
      then show ?thesis
        using new True by simp
    next
      case False
      then have "mkLit v b \<notin> set ?high" for b
        by (metis image_eqI lit_var_mkLit)
      then show ?thesis
        using new False old in_trail by simp
    qed
  qed
  moreover have "level s (lit_var (trail s ! i)) = length (filter (\<lambda>m. m \<le> i) (take lev (trail_lim s)))" if i: "i < ?m" for i
  proof -
    have "filter (\<lambda>m. m \<le> i) (drop lev (trail_lim s)) = []"
    proof -
      have "?m \<le> x" if "x \<in> set (drop lev (trail_lim s))" for x
        using sorted_split(2) [OF sorted lev that] .
      then show ?thesis
        using i by (fastforce simp: filter_empty_conv)
    qed
    then have "filter (\<lambda>m. m \<le> i) (trail_lim s) = filter (\<lambda>m. m \<le> i) (take lev (trail_lim s))"
      by (metis append_Nil2 append_take_drop_id filter_append)
    then show ?thesis
      using trail_level [OF assms(1), of i] i m by simp
  qed
  moreover have "distinct (map lit_var (take ?m (trail s)))"
    using dist by (metis distinct_take take_map)
  ultimately show ?thesis
    using assms(1) m low sorted
    by (auto simp: trail_inv_def [of "cancelUntil lev s"] f cancelUntil_same [OF assms(2)] trail_inv_ok sorted_wrt_take
        dest!: in_set_takeD) (simp add: trail_inv_def)
qed

lemma cancelUntil_ok:
  assumes "sat_inv m s" "lev < decisionLevel s"
  shows "sat_inv (qhead (cancelUntil lev s)) (cancelUntil lev s)"
proof -
  let ?s = "cancelUntil lev s"
  let ?m = "trail_lim s ! lev"
  note d = sat_invD [OF assms(1)] and f = cancelUntil_fields [OF assms(2)] and same = cancelUntil_same [OF assms(2)]
  have lev: "lev < length (trail_lim s)" "?m \<le> m" "?m \<le> length (trail s)"
    using assms(2) d(1,8) by (auto simp: decisionLevel_def trail_inv_def)
  have "impl_ok ?s ?m UNIV"
    unfolding impl_ok_def same f
  proof (intro ballI allI impI)
    fix cr q j
    assume c: "cr \<in> attached s" "q \<in> wlits s cr" "j < length (take ?m (trail s))" "take ?m (trail s) ! j = lit_not q"
    then have j: "j < ?m" "j < length (trail s)" "trail s ! j = lit_not q"
      by simp_all
    then obtain r where r: "r \<in> set (clause_of s cr)" "r \<in> set (trail s)" "level s (lit_var r) \<le> level s (lit_var q)"
      using d(6) c(1,2) lev(2) unfolding impl_ok_def by (meson less_le_trans)
    obtain i where i: "i < length (trail s)" "trail s ! i = r"
      using r(2) by (metis in_set_conv_nth)
    have "level s (lit_var q) \<le> lev"
      using lim_level [OF d(1) assms(2) j(2)] j(1,3) by simp
    then have "i < ?m"
      using lim_level [OF d(1) assms(2) i(1)] r(3) i(2) by simp
    then have "r \<in> set (take ?m (trail s))"
      using i by (metis in_set_conv_nth length_take min_less_iff_conj nth_take)
    then show "\<exists>r \<in> set (clause_of s cr). r \<in> set (take ?m (trail s)) \<and> level s (lit_var r) \<le> level s (lit_var q)"
      using r by blast
  qed
  moreover have "reasons_ok ?s"
    unfolding reasons_ok_def same f
  proof (intro allI impI)
    fix i cr
    assume "i < length (take ?m (trail s))" "reason s (lit_var (take ?m (trail s) ! i)) = CRef cr"
    then have "i < length (trail s)" "i < ?m" "reason s (lit_var (trail s ! i)) = CRef cr"
      by simp_all
    then show "cr \<in> attached s \<and> clause_of s cr ! 0 = take ?m (trail s) ! i \<and>
        (\<forall>q \<in> set (tl (clause_of s cr)). lit_not q \<in> set (take i (take ?m (trail s))))"
      using d(7) by (simp add: reasons_ok_def min_absorb1)
  qed
  moreover have "\<forall>x \<in> set (take lev (trail_lim s)). x \<le> ?m"
    using d(1) sorted_split(1) [OF _ lev(1)] by (auto simp: trail_inv_def)
  moreover have "db_inv ?s" "watch_ok ?s (live s)" "dirt_ok ?s"
    using d(2,4,5) by (simp_all add: db_inv_def watch_ok_def dirt_ok_def same f)
  ultimately show ?thesis
    using cancelUntil_trail_inv [OF d(1) assms(2)] d(3) by (simp add: sat_inv_def same f)
qed

end
