(* ===== verification/Sat_Add.thy ===== *)
theory Sat_Add
  imports Sat_State
begin

text \<open>
  New variables and new clauses. The models of a state are the assignments that satisfy its original
  clauses and its literals of level 0; adding a clause intersects them with the models of the
  clause, and an answer false says that none are left.
\<close>

section \<open>Models of a state\<close>

definition level0 :: "'a sat_solver_scheme \<Rightarrow> lit list" where
  "level0 s = (if trail_lim s = [] then trail s else take (hd (trail_lim s)) (trail s))"

definition sat_models :: "'a sat_solver_scheme \<Rightarrow> (nat \<Rightarrow> bool) \<Rightarrow> bool" where
  "sat_models s \<alpha> \<longleftrightarrow> sat_ok s \<and> (\<forall>cr \<in> set (clauses s). csat \<alpha> (clause_of s cr)) \<and> (\<forall>q \<in> set (level0 s). lsat \<alpha> q)"

text \<open>Between calls: the invariant, unless a contradiction was found, and every learnt clause is implied.\<close>

definition solver_inv :: "'a sat_solver_scheme \<Rightarrow> bool" where
  "solver_inv s \<longleftrightarrow> (sat_ok s \<longrightarrow> qhead s = length (trail s) \<and> sat_inv (length (trail s)) s \<and>
     (\<forall>\<alpha>. sat_models s \<alpha> \<longrightarrow> (\<forall>cr \<in> set (learnts s). csat \<alpha> (clause_of s cr))))"

text \<open>The vectors indexed by variables and literals have their lengths, also after a contradiction.\<close>

definition sizes_ok :: "'a sat_solver_scheme \<Rightarrow> bool" where
  "sizes_ok s \<longleftrightarrow> length (assigns s) = nVars s \<and> length (occs s) = 2 * nVars s \<and> length (dirty s) = 2 * nVars s"

lemma sizes_of_inv: "sat_inv m s \<Longrightarrow> sizes_ok s"
  by (simp add: sat_inv_def sizes_ok_def trail_inv_def dirt_ok_def)

text \<open>What the solver keeps between calls: the invariant and the sizes, at level 0.\<close>

definition idle :: "'a sat_solver_scheme \<Rightarrow> bool" where
  "idle s \<longleftrightarrow> solver_inv s \<and> sizes_ok s \<and> decisionLevel s = 0"

lemma models_level0:
  assumes "decisionLevel s = 0" "solver_inv s" "sat_ok s"
  shows "sat_models s \<alpha> \<longleftrightarrow> db_sat \<alpha> s \<and> trail_sat \<alpha> s"
proof -
  have "level0 s = trail s"
    using assms(1) by (simp add: level0_def decisionLevel_def)
  then show ?thesis
    using assms(2,3) unfolding solver_inv_def by (auto simp: sat_models_def db_sat_def trail_sat_def attached_def)
qed

section \<open>The literals of a new clause\<close>

lemma simplify_None:
  "simplify_clause s ls p = None \<Longrightarrow> \<exists>l \<in> set ls. is_true s l \<or> lit_not l \<in> insert p (set ls)"
proof (induction s ls p rule: simplify_clause.induct)
  case (2 s l ls p)
  then show ?case
    by (auto split: if_splits)
qed simp

lemma simplify_Some:
  assumes "simplify_clause s ls p = Some ps" "sorted (p # ls)"
  shows "set ps \<subseteq> set ls" "sorted_wrt (<) (p # ps)" "\<forall>l \<in> set ps. \<not> is_true s l \<and> \<not> is_false s l"
    "\<forall>l \<in> set ls. l \<in> set ps \<or> is_false s l \<or> l = p"
proof -
  have "set ps \<subseteq> set ls \<and> sorted_wrt (<) (p # ps) \<and> (\<forall>l \<in> set ps. \<not> is_true s l \<and> \<not> is_false s l) \<and>
      (\<forall>l \<in> set ls. l \<in> set ps \<or> is_false s l \<or> l = p)"
    using assms
  proof (induction s ls p arbitrary: ps rule: simplify_clause.induct)
    case (2 s l ls p)
    show ?case
    proof (cases "\<not> is_false s l \<and> l \<noteq> p")
      case True
      then obtain qs where "simplify_clause s ls l = Some qs" "ps = l # qs" "\<not> is_true s l"
        using "2.prems"(1) by (auto split: if_splits)
      moreover have "p < l"
        using "2.prems"(2) True by auto
      ultimately show ?thesis
        using "2.IH"(1) [of qs] "2.prems" True by (auto split: if_splits)
    next
      case False
      then have "simplify_clause s ls p = Some ps"
        using "2.prems"(1) by (auto split: if_splits)
      then show ?thesis
        using "2.IH"(2) [of ps] "2.prems" False by (auto split: if_splits)
    qed
  qed simp
  then show "set ps \<subseteq> set ls" "sorted_wrt (<) (p # ps)" "\<forall>l \<in> set ps. \<not> is_true s l \<and> \<not> is_false s l"
    "\<forall>l \<in> set ls. l \<in> set ps \<or> is_false s l \<or> l = p"
    by blast+
qed

text \<open>Under an assignment that makes the trail true, the simplified clause is as good as the clause.\<close>

lemma simplified:
  assumes "trail_inv s" "\<forall>l \<in> set c. lit_ok (nVars s) l"
  shows "simplify_clause s (sort c) lit_Undef = None \<Longrightarrow> trail_sat \<alpha> s \<Longrightarrow> csat \<alpha> c"
    "simplify_clause s (sort c) lit_Undef = Some ps \<Longrightarrow> set ps \<subseteq> set c \<and> distinct ps \<and> (\<forall>l \<in> set ps. is_undef s l) \<and>
      (trail_sat \<alpha> s \<longrightarrow> csat \<alpha> ps = csat \<alpha> c)"
proof -
  assume n: "simplify_clause s (sort c) lit_Undef = None" and t: "trail_sat \<alpha> s"
  obtain l where l: "l \<in> set c" "is_true s l \<or> lit_not l \<in> insert lit_Undef (set c)"
    using simplify_None [OF n] by auto
  have "lit_not l \<noteq> lit_Undef"
    using assms(2) l(1) lit_ok_not [of "nVars s" l] by (auto simp: lit_ok_def lit_Undef_def)
  then show "csat \<alpha> c"
    using l t values_iff(1) [OF assms(1)] assms(2) unfolding csat_def trail_sat_def by (metis insertE lsat_not)
next
  assume "simplify_clause s (sort c) lit_Undef = Some ps"
  moreover have "sorted (lit_Undef # sort c)"
    using assms(2) by (fastforce simp: lit_ok_def lit_Undef_def)
  ultimately have ps: "set ps \<subseteq> set c" "sorted_wrt (<) (lit_Undef # ps)" "\<forall>l \<in> set ps. \<not> is_true s l \<and> \<not> is_false s l"
      "\<forall>l \<in> set c. l \<in> set ps \<or> is_false s l \<or> l = lit_Undef"
    using simplify_Some [of s "sort c" lit_Undef ps] by simp_all
  have "distinct ps"
    using ps(2) by (simp add: strict_sorted_iff)
  moreover have "\<forall>l \<in> set ps. is_undef s l"
    using ps(1,3) assms(2) values_iff [OF assms(1)] by (metis subsetD)
  moreover have "csat \<alpha> ps = csat \<alpha> c" if t: "trail_sat \<alpha> s"
  proof
    assume "csat \<alpha> c"
    then obtain l where l: "l \<in> set c" "lsat \<alpha> l"
      by (auto simp: csat_def)
    have "\<not> is_false s l"
      using l t values_iff(2) [OF assms(1)] assms(2) unfolding trail_sat_def by (metis lsat_not)
    moreover have "l \<noteq> lit_Undef"
      using assms(2) l(1) by (auto simp: lit_ok_def lit_Undef_def)
    ultimately show "csat \<alpha> ps"
      using ps(4) l by (auto simp: csat_def)
  qed (use ps(1) in \<open>auto simp: csat_def\<close>)
  ultimately show "set ps \<subseteq> set c \<and> distinct ps \<and> (\<forall>l \<in> set ps. is_undef s l) \<and> (trail_sat \<alpha> s \<longrightarrow> csat \<alpha> ps = csat \<alpha> c)"
    using ps(1) by blast
qed

section \<open>A unit clause\<close>

lemma enqueued_sat_inv:
  assumes "sat_inv m s" "lit_ok (nVars s) q" "q \<notin> set (trail s)" "lit_not q \<notin> set (trail s)" "m \<le> length (trail s)"
  shows "sat_inv m (enqueued q CRef_Undef s)"
proof -
  let ?s = "enqueued q CRef_Undef s"
  note d = sat_invD [OF assms(1)] and k = enqueued_keeps [OF sat_invD(2) [OF assms(1)]]
  have old: "level ?s (lit_var r) = level s (lit_var r)" if "r \<in> set (trail s)" for r
    using enqueued_old(1) [OF d(1) assms(2-4) that] .
  have del: "watcher_deleted ?s = watcher_deleted s"
    by (auto simp: fun_eq_iff watcher_deleted_def)
  have "impl_ok ?s m UNIV"
    unfolding impl_ok_def k
  proof (intro ballI allI impI)
    fix cr r j
    assume c: "cr \<in> attached s" "r \<in> wlits s cr" "trail ?s ! j = lit_not r" "j < m \<or> j = m \<and> cr \<notin> UNIV"
    then have j: "j < m" "j < length (trail s)" "trail s ! j = lit_not r"
      using assms(5) by (simp_all add: nth_append)
    then obtain y where y: "y \<in> set (clause_of s cr)" "y \<in> set (trail s)" "level s (lit_var y) \<le> level s (lit_var r)"
      using d(6) c(1,2) unfolding impl_ok_def by blast
    moreover have "level ?s (lit_var r) = level s (lit_var r)"
      using old [of "lit_not r"] j(2,3) by (metis lit_var_not nth_mem)
    ultimately show "\<exists>y \<in> set (clause_of s cr). y \<in> set (trail ?s) \<and> level ?s (lit_var y) \<le> level ?s (lit_var r)"
      using old by auto
  qed
  moreover have "reasons_ok ?s"
    by (rule enqueued_reasons [OF d(1,2,7) assms(2-4)]) simp
  moreover have "watch_ok ?s (live ?s)" "dirt_ok ?s"
    using d(4,5) by (simp_all add: watch_ok_def dirt_ok_def live_def k del)
  ultimately show ?thesis
    using d enqueued_trail_inv [OF d(1) assms(2-4)] k(5) by (simp add: sat_inv_def)
qed

lemma sat_ok_same:
  "clause_of (s\<lparr>sat_ok := b\<rparr>) = clause_of s" "level0 (s\<lparr>sat_ok := b\<rparr>) = level0 s" "sat_inv m (s\<lparr>sat_ok := b\<rparr>) = sat_inv m s"
proof -
  have c: "same_core s (s\<lparr>sat_ok := b\<rparr>)"
    by (simp add: same_core_def)
  show "clause_of (s\<lparr>sat_ok := b\<rparr>) = clause_of s" "sat_inv m (s\<lparr>sat_ok := b\<rparr>) = sat_inv m s"
    by (rule same_core_fields [OF c])+
  show "level0 (s\<lparr>sat_ok := b\<rparr>) = level0 s"
    by (simp add: level0_def)
qed

lemma add_unit:
  assumes "sat_inv (qhead s) s" "decisionLevel s = 0" "is_undef s q" "lit_ok (nVars s) q" "sat_ok s"
    and learnt: "\<forall>\<alpha>. sat_models s \<alpha> \<longrightarrow> (\<forall>cr \<in> set (learnts s). csat \<alpha> (clause_of s cr))" and queue: "qhead s = length (trail s)"
  shows "\<exists>confl s2. rbind (uncheckedEnqueue q CRef_Undef s) propagate = Inr (confl, s2) \<and>
    nVars s2 = nVars s \<and> decisionLevel s2 = 0 \<and> sizes_ok s2 \<and> clauses s2 = clauses s \<and>
    (let s' = s2\<lparr>sat_ok := (confl = CRef_Undef)\<rparr> in solver_inv s' \<and> (\<forall>\<alpha>. sat_models s' \<alpha> \<longleftrightarrow> sat_models s \<alpha> \<and> lsat \<alpha> q))"
proof -
  note d = sat_invD [OF assms(1)]
  have u: "q \<notin> set (trail s)" "lit_not q \<notin> set (trail s)"
    using values_iff(3) [OF d(1) assms(4)] assms(3) by simp_all
  define s1 where "s1 = enqueued q CRef_Undef s"
  note k = enqueued_keeps [OF d(2), of q CRef_Undef, folded s1_def]
  have enq: "uncheckedEnqueue q CRef_Undef s = Inr s1"
    unfolding s1_def by (rule uncheckedEnqueue_ok [OF d(1) assms(4) u]) simp
  have inv1: "sat_inv (qhead s1) s1"
    using enqueued_sat_inv [OF assms(1,4) u] d(1) by (simp add: s1_def trail_inv_def)
  obtain r s2 where run: "propagate s1 = Inr (r, s2)" "prop_ext s1 s2" "qhead s2 = length (trail s2)"
      "r = CRef_Undef \<and> sat_inv (length (trail s2)) s2 \<or> conflict s2 r \<and> sat_inv (qhead s1) s2"
    by (rule propagate_ok [OF inv1])
  note f = prop_ext_fields [OF run(2)]
  have sinv: "solver_inv s"
    using assms(1,5) learnt queue by (simp add: solver_inv_def)
  have dl: "decisionLevel s2 = 0"
    using f(7) assms(2) by (simp add: s1_def)
  then have l0: "level0 s2 = trail s2" "level0 s = trail s"
    using assms(2) by (simp_all add: level0_def decisionLevel_def)
  have s1: "db_sat \<alpha> s1 = db_sat \<alpha> s" "trail_sat \<alpha> s1 \<longleftrightarrow> trail_sat \<alpha> s \<and> lsat \<alpha> q" for \<alpha>
    using k(1,2) by (auto simp: db_sat_def trail_sat_def s1_def)
  have old: "sat_models s \<alpha> \<and> lsat \<alpha> q \<longleftrightarrow> db_sat \<alpha> s2 \<and> trail_sat \<alpha> s1" for \<alpha>
    using models_level0 [OF assms(2) sinv assms(5)] s1 f(9) by blast
  have sz: "sizes_ok s2"
    using run(4) sizes_of_inv by blast
  have basic: "nVars s2 = nVars s" "clauses s2 = clauses s" "learnts s2 = learnts s" "set (clause_of s2 cr) = set (clause_of s cr)" for cr
    using f(1,3,4,8) k(2) by (simp_all add: s1_def)
  have cl: "csat \<alpha> (clause_of s2 cr) = csat \<alpha> (clause_of s cr)" for \<alpha> cr
    by (rule csat_set) (rule basic(4))
  from run(4) show ?thesis
  proof
    assume ok: "r = CRef_Undef \<and> sat_inv (length (trail s2)) s2"
    let ?s = "s2\<lparr>sat_ok := True\<rparr>"
    note same = sat_ok_same [where b = True and s = s2]
    have m: "sat_models ?s \<alpha> \<longleftrightarrow> sat_models s \<alpha> \<and> lsat \<alpha> q" for \<alpha>
    proof
      assume a: "sat_models ?s \<alpha>"
      obtain new where "trail s2 = trail s @ [q] @ new"
        using f(10) by (auto simp: s1_def)
      then show "sat_models s \<alpha> \<and> lsat \<alpha> q"
        using a assms(5) by (auto simp: sat_models_def same(1,2) l0 basic cl)
    next
      assume a: "sat_models s \<alpha> \<and> lsat \<alpha> q"
      then have "trail_sat \<alpha> s2"
        using old f(9,12) by blast
      then show "sat_models ?s \<alpha>"
        using a by (auto simp: sat_models_def same(1,2) l0 basic cl trail_sat_def)
    qed
    have "solver_inv ?s"
      using ok run(3) learnt m unfolding solver_inv_def same(1,3) by (simp add: basic cl)
    then show ?thesis
      using enq run(1) basic(1,2) dl sz ok m by (auto simp: Let_def)
  next
    assume c: "conflict s2 r \<and> sat_inv (qhead s1) s2"
    then have "r \<noteq> CRef_Undef"
      by (auto simp: conflict_def)
    moreover have "\<not> (sat_models s \<alpha> \<and> lsat \<alpha> q)" for \<alpha>
      using old f(9,12) conflict_unsat c by blast
    ultimately show ?thesis
      using enq run(1) basic(1,2) dl sz by (simp add: sat_models_def solver_inv_def)
  qed
qed

section \<open>A clause of two or more literals\<close>

text \<open>The state with a new clause in the arena and its two watchers.\<close>

definition attached_state :: "nat \<Rightarrow> lit list \<Rightarrow> bool \<Rightarrow> 'a sat_solver_scheme \<Rightarrow> 'a sat_solver_scheme" where
  "attached_state cr ls lrnt s = push_watch (lit_not (ls ! 1)) (Watcher cr (ls ! 0))
     (push_watch (lit_not (ls ! 0)) (Watcher cr (ls ! 1))
       (if lrnt then s\<lparr>ca := snd (ca_alloc ls lrnt (ca s)), learnts := learnts s @ [cr]\<rparr>
        else s\<lparr>ca := snd (ca_alloc ls lrnt (ca s)), clauses := clauses s @ [cr]\<rparr>))"

lemma attached_state_fields [simp]:
  "nVars (attached_state cr ls b s) = nVars s" "trail (attached_state cr ls b s) = trail s"
  "trail_lim (attached_state cr ls b s) = trail_lim s" "qhead (attached_state cr ls b s) = qhead s"
  "assigns (attached_state cr ls b s) = assigns s" "vardata (attached_state cr ls b s) = vardata s"
  "length (occs (attached_state cr ls b s)) = length (occs s)" "dirty (attached_state cr ls b s) = dirty s"
  "dirties (attached_state cr ls b s) = dirties s" "sat_ok (attached_state cr ls b s) = sat_ok s"
  "undo_stack (attached_state cr ls b s) = undo_stack s"
  "clauses (attached_state cr ls b s) = (if b then clauses s else clauses s @ [cr])"
  "learnts (attached_state cr ls b s) = (if b then learnts s @ [cr] else learnts s)"
  "ca (attached_state cr ls b s) = snd (ca_alloc ls b (ca s))"
  by (simp_all add: attached_state_def push_watch_def nVars_def)

lemma attached_state_same:
  "level (attached_state cr ls b s) = level s" "reason (attached_state cr ls b s) = reason s"
  "decisionLevel (attached_state cr ls b s) = decisionLevel s"
  by (simp_all add: level_def reason_def decisionLevel_def fun_eq_iff)

lemma attach_run:
  assumes "cr = al_size (ca s)" "2 \<le> length ls"
  shows "attachClause cr (s\<lparr>ca := snd (ca_alloc ls False (ca s)), clauses := clauses s @ [cr]\<rparr>) = Inr (attached_state cr ls False s)"
    "attachClause cr (s\<lparr>ca := snd (ca_alloc ls True (ca s)), learnts := learnts s @ [cr]\<rparr>) = Inr (attached_state cr ls True s)"
  using assms by (simp_all add: attachClause_def clause_at_def ca_alloc_def Let_def Clause_def attached_state_def)

lemma attached_state_clauses:
  assumes "cr = al_size (ca s)"
  shows "attached (attached_state cr ls b s) = insert cr (attached s)"
    "clause_of (attached_state cr ls b s) x = (if x = cr then ls else clause_of s x)"
  using assms by (auto simp: attached_def clause_of_def ca_alloc_def Let_def Clause_def)

lemma attached_state_inv:
  assumes inv: "sat_inv m s" and cr: "cr = al_size (ca s)" and g: "good_clause (nVars s) ls"
    and open_lits: "lit_not (ls ! 0) \<notin> set (take m (trail s))"
      "lit_not (ls ! 1) \<in> set (take m (trail s)) \<Longrightarrow> False"
  shows "sat_inv m (attached_state cr ls b s)"
proof -
  let ?s = "attached_state cr ls b s"
  note d = sat_invD [OF inv] and same = attached_state_same [of cr ls b s]
  note att = attached_state_clauses [OF cr, of ls b]
  have old: "x \<noteq> cr" if "x \<in> attached s" for x
    using d(2) that unfolding db_inv_def cr by fastforce
  have l: "lit_ok (nVars s) (ls ! 0)" "lit_ok (nVars s) (ls ! 1)" "ls ! 0 \<noteq> ls ! 1" "ls ! 0 \<in> set ls" "ls ! 1 \<in> set ls"
    by (rule good_clauseD [OF g])+
  have wl: "wlits ?s x = (if x = cr then {ls ! 0, ls ! 1} else wlits s x)" for x
    by (simp add: wlits_def att(2))
  have W: "W_of ?s x = W_of s x @ (if x = lit_not (ls ! 0) then [Watcher cr (ls ! 1)] else []) @
      (if x = lit_not (ls ! 1) then [Watcher cr (ls ! 0)] else [])" if "lit_ok (nVars s) x" for x
  proof -
    have "W_of (s\<lparr>ca := u, learnts := v\<rparr>) = W_of s" "W_of (s\<lparr>ca := u, clauses := v\<rparr>) = W_of s" for u v
      by (auto simp: W_of_def)
    then show ?thesis
      using that l d(3) by (simp add: attached_state_def W_of_push nVars_def)
  qed
  have del: "watcher_deleted ?s w \<longleftrightarrow> watcher_deleted s w" for w
    using d(2) unfolding db_inv_def watcher_deleted_def
    by (auto simp: cr ca_alloc_def Let_def Clause_def split: option.split)
  have undel: "\<not> watcher_deleted ?s (Watcher cr r)" for r
    by (simp add: watcher_deleted_def cr ca_alloc_def Let_def Clause_def)
  have lv: "live ?s x = live s x @ (if x = lit_not (ls ! 0) then [Watcher cr (ls ! 1)] else []) @
      (if x = lit_not (ls ! 1) then [Watcher cr (ls ! 0)] else [])" if "lit_ok (nVars s) x" for x
    using W [OF that] undel by (simp add: live_def del [abs_def])
  have "watch_ok ?s (live ?s)"
  proof (rule watch_okI, goal_cases)
    case (1 x)
    then have ok: "lit_ok (nVars s) x"
      by simp
    have "cr \<notin> w_cref ` set (live s x)"
      using watch_okD(2) [OF d(4) ok] old by blast
    then show ?case
      using watch_okD(1) [OF d(4) ok] lv [OF ok] l(3) by auto
  next
    case (2 x)
    then have ok: "lit_ok (nVars s) x"
      by simp
    show ?case
      using watch_okD(2) [OF d(4) ok] lv [OF ok] l(4,5) old by (auto simp: att wl split: if_splits)
  next
    case (3 x q)
    show ?case
    proof (cases "x = cr")
      case True
      then show ?thesis
        using 3(2) l lv [of "lit_not q"] by (auto simp: wl)
    next
      case False
      then have c: "x \<in> attached s" "q \<in> wlits s x"
        using 3 by (simp_all add: att wl)
      then have "lit_ok (nVars s) (lit_not q)"
        using wlits_sub [OF d(2) c(1)] db_invD(1) [OF d(2) c(1)] by (auto simp: good_clause_def)
      then show ?thesis
        using watch_okD(3) [OF d(4) c] lv by auto
    qed
  qed
  moreover have "dirt_ok ?s"
  proof -
    have "\<exists>w \<in> set (W_of s p). watcher_deleted s w"
      if p: "lit_ok (nVars s) p" and w: "\<exists>w \<in> set (W_of ?s p). watcher_deleted ?s w" for p
      using w undel unfolding W [OF p] del by (auto split: if_splits)
    then show ?thesis
      using d(5) by (simp add: dirt_ok_def)
  qed
  moreover have "impl_ok ?s m UNIV"
    unfolding impl_ok_def att(1) same
  proof (intro ballI allI impI)
    fix x q j
    assume c: "x \<in> insert cr (attached s)" "q \<in> wlits ?s x" "j < length (trail ?s)" "trail ?s ! j = lit_not q" "j < m \<or> j = m \<and> x \<notin> UNIV"
    then have j: "lit_not q \<in> set (take m (trail s))"
      by (metis UNIV_I attached_state_fields(2) in_set_conv_nth length_take min_less_iff_conj nth_take)
    then have "x \<noteq> cr"
      using c(2) open_lits by (auto simp: wl)
    then show "\<exists>r \<in> set (clause_of ?s x). r \<in> set (trail ?s) \<and> level s (lit_var r) \<le> level s (lit_var q)"
      using c d(6) unfolding impl_ok_def by (auto simp: wl att(2))
  qed
  moreover have "reasons_ok ?s"
    using d(7) old by (auto simp: reasons_ok_def same att)
  moreover have "db_inv ?s"
  proof -
    have mem: "al_mem (ca ?s) x = (if x = cr then Some (Clause ls (b \<or> extra_clause_field (ca s)) b) else al_mem (ca s) x)" for x
      by (simp add: ca_alloc_def Let_def cr)
    have size: "cr < al_size (ca ?s)" "al_size (ca s) \<le> al_size (ca ?s)"
      by (simp_all add: ca_alloc_def Let_def cr clauseWord32Size_def)
    have "\<exists>c. al_mem (ca ?s) x = Some c \<and> c_mark c \<noteq> 1 \<and> good_clause (nVars s) (lits c)" if "x \<in> insert cr (attached s)" for x
      using that d(2) g by (cases "x = cr") (simp_all add: mem Clause_def db_inv_def del: attached_state_fields(14))
    moreover have "x < al_size (ca ?s)" if "al_mem (ca ?s) x \<noteq> None" for x
      using that d(2) size unfolding mem db_inv_def by (metis less_le_trans)
    ultimately show ?thesis
      unfolding db_inv_def att(1) by (simp del: attached_state_fields(14))
  qed
  moreover have "trail_inv ?s"
    by (rule trail_inv_cong [OF _ _ _ _ _ _ d(1)]) (use d(1) in \<open>simp_all add: same trail_inv_def\<close>)
  ultimately show ?thesis
    using d(3,8) by (simp add: sat_inv_def)
qed

lemma add_long:
  assumes "sat_inv (qhead s) s" "decisionLevel s = 0" "sat_ok s" "solver_inv s" "2 \<le> length ps" "distinct ps"
    and ok: "\<forall>l \<in> set ps. lit_ok (nVars s) l" and undef: "\<forall>l \<in> set ps. is_undef s l" and cr: "cr = al_size (ca s)"
  shows "solver_inv (attached_state cr ps False s)" "sat_models (attached_state cr ps False s) \<alpha> \<longleftrightarrow> sat_models s \<alpha> \<and> csat \<alpha> ps"
proof -
  let ?s = "attached_state cr ps False s"
  note d = sat_invD [OF assms(1)] and att = attached_state_clauses [OF cr, of ps False]
  have g: "good_clause (nVars s) ps"
    using assms(5,6) ok by (simp add: good_clause_def)
  note l = good_clauseD [OF g]
  have "lit_not (ps ! 0) \<notin> set (trail s)" "lit_not (ps ! 1) \<notin> set (trail s)"
    using undef l values_iff(3) [OF d(1)] by blast+
  then have inv: "sat_inv (qhead ?s) ?s"
    using attached_state_inv [OF assms(1) cr g, of False] by (auto dest: in_set_takeD)
  have fresh: "x \<noteq> cr" if "x \<in> attached s" for x
    using d(2) that unfolding db_inv_def cr by fastforce
  have l0: "level0 ?s = level0 s"
    by (simp add: level0_def)
  show m: "sat_models ?s \<alpha> \<longleftrightarrow> sat_models s \<alpha> \<and> csat \<alpha> ps" for \<alpha>
    using fresh by (auto simp: sat_models_def l0 att attached_def)
  have "csat \<alpha> (clause_of ?s x)" if a: "sat_models ?s \<alpha>" and x: "x \<in> set (learnts ?s)" for \<alpha> x
  proof -
    have "x \<in> set (learnts s)" "x \<noteq> cr"
      using x fresh by (auto simp: attached_def)
    moreover have "sat_models s \<alpha>"
      using a m by blast
    ultimately show ?thesis
      using assms(3,4) by (simp add: solver_inv_def att)
  qed
  then show "solver_inv ?s"
    using inv assms(3,4) by (simp add: solver_inv_def)
qed

section \<open>Adding a clause\<close>

lemma same_core_models:
  assumes "same_core s s'" "sat_ok s' = sat_ok s"
  shows "sat_models s' = sat_models s" "solver_inv s' = solver_inv s" "level0 s' = level0 s"
proof -
  note c = same_core_fields [OF assms(1)]
  show l: "level0 s' = level0 s"
    using assms(1) by (simp add: level0_def same_core_def)
  then show "sat_models s' = sat_models s"
    using assms c by (simp add: sat_models_def fun_eq_iff same_core_def)
  then show "solver_inv s' = solver_inv s"
    using assms c by (simp add: solver_inv_def same_core_def)
qed

lemma undo_same:
  "solver_inv (s\<lparr>undo_stack := u\<rparr>) = solver_inv s" "sat_models (s\<lparr>undo_stack := u\<rparr>) = sat_models s"
  by (rule same_core_models; simp add: same_core_def)+

text \<open>What a call for a clause promises: the answer is the flag of the state, and the models are cut down by the clause.\<close>

definition clause_added :: "lit list \<Rightarrow> 'a sat_solver_scheme \<Rightarrow> (bool \<times> (cref \<times> cref) \<times> 'a sat_solver_scheme) result \<Rightarrow> bool" where
  "clause_added c s r \<longleftrightarrow> (\<exists>refs s'. r = Inr (sat_ok s', refs, s') \<and> idle s' \<and> nVars s' = nVars s \<and>
     (clauses s' = clauses s \<or> (\<exists>cr. clauses s' = clauses s @ [cr] \<and> set (clause_of s' cr) \<subseteq> set c)) \<and>
     (\<forall>\<alpha>. sat_models s' \<alpha> \<longleftrightarrow> sat_models s \<alpha> \<and> csat \<alpha> c))"

lemma clause_addedI:
  "r = Inr (sat_ok s', refs, s') \<Longrightarrow> idle s' \<Longrightarrow> nVars s' = nVars s \<Longrightarrow>
   clauses s' = clauses s \<or> (\<exists>cr. clauses s' = clauses s @ [cr] \<and> set (clause_of s' cr) \<subseteq> set c) \<Longrightarrow>
   (\<And>\<alpha>. sat_models s' \<alpha> \<longleftrightarrow> sat_models s \<alpha> \<and> csat \<alpha> c) \<Longrightarrow> clause_added c s r"
  by (auto simp: clause_added_def)

lemma sat_ok_False:
  assumes "idle s"
  shows "idle (s\<lparr>sat_ok := False\<rparr>)" "nVars (s\<lparr>sat_ok := False\<rparr>) = nVars s" "\<not> sat_models (s\<lparr>sat_ok := False\<rparr>) \<alpha>"
  using assms by (simp_all add: idle_def solver_inv_def sizes_ok_def decisionLevel_def nVars_def sat_models_def)

lemma added_empty:
  assumes "idle s" "sat_ok s" "simplify_clause s (sort c) lit_Undef = Some []"
  shows "clause_added [] s (addOriginalClause_core c s)"
proof (rule clause_addedI)
  show "addOriginalClause_core c s = Inr (sat_ok (s\<lparr>sat_ok := False\<rparr>), (CRef_Undef, CRef_Undef), s\<lparr>sat_ok := False\<rparr>)"
    using assms by (simp add: addOriginalClause_core_def vec_sort_ok idle_def)
qed (use sat_ok_False [OF assms(1)] in \<open>simp_all add: csat_def\<close>)

lemma idle_sat_inv:
  assumes "idle s" "sat_ok s"
  shows "sat_inv (qhead s) s" "decisionLevel s = 0" "solver_inv s" "qhead s = length (trail s)"
    "\<forall>\<alpha>. sat_models s \<alpha> \<longrightarrow> (\<forall>cr \<in> set (learnts s). csat \<alpha> (clause_of s cr))"
  using assms unfolding idle_def solver_inv_def by simp_all

lemma added_unit:
  assumes "idle s" "sat_ok s" "simplify_clause s (sort c) lit_Undef = Some [q]" "is_undef s q" "lit_ok (nVars s) q"
  shows "clause_added [q] s (addOriginalClause_core c s)"
proof -
  note i = idle_sat_inv [OF assms(1,2)]
  obtain confl s2 where u: "rbind (uncheckedEnqueue q CRef_Undef s) propagate = Inr (confl, s2)" "nVars s2 = nVars s"
      "decisionLevel s2 = 0" "sizes_ok s2" "clauses s2 = clauses s" "solver_inv (s2\<lparr>sat_ok := (confl = CRef_Undef)\<rparr>)"
      "\<forall>\<alpha>. sat_models (s2\<lparr>sat_ok := (confl = CRef_Undef)\<rparr>) \<alpha> \<longleftrightarrow> sat_models s \<alpha> \<and> lsat \<alpha> q"
    using add_unit [OF i(1,2) assms(4,5,2) i(5,4)] by (auto simp: Let_def)
  let ?s = "s2\<lparr>sat_ok := (confl = CRef_Undef)\<rparr>"
  obtain s1 where "uncheckedEnqueue q CRef_Undef s = Inr s1" "propagate s1 = Inr (confl, s2)"
    using u(1) by (auto simp: rbind_eq_Inr_iff)
  then have "addOriginalClause_core c s = Inr (sat_ok ?s, (CRef_Undef, CRef_Undef), ?s)"
    using assms i(2) by (simp add: addOriginalClause_core_def vec_sort_ok Let_def)
  moreover have "decisionLevel ?s = 0" "nVars ?s = nVars s" "sizes_ok ?s"
    using u(2-4) by (simp_all add: decisionLevel_def nVars_def sizes_ok_def)
  ultimately show ?thesis
    using u(5-7) by (intro clause_addedI [where s' = ?s]) (simp_all add: idle_def csat_def)
qed

lemma added_long:
  assumes "idle s" "sat_ok s" "simplify_clause s (sort c) lit_Undef = Some ps" "2 \<le> length ps" "distinct ps"
    and "\<forall>l \<in> set ps. lit_ok (nVars s) l" "\<forall>l \<in> set ps. is_undef s l"
  shows "clause_added ps s (addOriginalClause_core c s)"
proof -
  note i = idle_sat_inv [OF assms(1,2)]
  define cr where "cr = al_size (ca s)"
  let ?s = "(attached_state cr ps False s)\<lparr>undo_stack := undo_stack s @ [NEWCLAUSE cr]\<rparr>"
  note new = add_long [OF i(1,2) assms(2) i(3) assms(4-7) cr_def]
  have alloc: "ca_alloc ps False (ca s) = (cr, snd (ca_alloc ps False (ca s)))"
    by (simp add: ca_alloc_def Let_def cr_def)
  have "addOriginalClause_core c s = Inr (sat_ok ?s, (CRef_Undef, CRef cr), ?s)"
    using assms(2-4) i(2) attach_run(1) [OF cr_def assms(4)]
    by (auto simp: addOriginalClause_core_def vec_sort_ok) (subst alloc, simp)
  moreover have "decisionLevel ?s = 0" "nVars ?s = nVars s" "sizes_ok ?s"
    using i(2) sizes_of_inv [OF i(1)] attached_state_fields(1) [of cr ps False s]
    by (simp_all add: decisionLevel_def nVars_def sizes_ok_def)
  moreover have "clause_of ?s cr = ps"
    using attached_state_clauses(2) [OF cr_def, of ps False cr] by (simp add: clause_of_def)
  ultimately show ?thesis
    using new by (intro clause_addedI [where s' = ?s]) (simp_all add: idle_def undo_same)
qed

lemma addOriginalClause_ok:
  assumes inv: "idle s" and c: "\<forall>l \<in> set c. lit_ok (nVars s) l"
  shows "clause_added c s (addOriginalClause_core c s)"
proof (cases "sat_ok s")
  case False
  then show ?thesis
    using inv by (intro clause_addedI [where s' = s]) (simp_all add: addOriginalClause_core_def sat_models_def idle_def)
next
  case ok: True
  note i = idle_sat_inv [OF inv ok]
  have m: "sat_models s \<alpha> \<Longrightarrow> trail_sat \<alpha> s" for \<alpha>
    using models_level0 [OF i(2,3) ok] by blast
  note simpl = simplified [OF sat_invD(1) [OF i(1)] c]
  show ?thesis
  proof (cases "simplify_clause s (sort c) lit_Undef")
    case None
    then have "sat_models s \<alpha> \<longleftrightarrow> sat_models s \<alpha> \<and> csat \<alpha> c" for \<alpha>
      using simpl(1) m by blast
    then show ?thesis
      using None ok inv i(2) by (intro clause_addedI [where s' = s]) (auto simp: addOriginalClause_core_def vec_sort_ok)
  next
    case (Some ps)
    note p = simpl(2) [OF Some]
    have okl: "\<forall>l \<in> set ps. lit_ok (nVars s) l"
      using p c by blast
    consider "ps = []" | q where "ps = [q]" | "2 \<le> length ps"
      by (cases ps rule: remdups_adj.cases) auto
    then have "clause_added ps s (addOriginalClause_core c s)"
      using added_empty [OF inv ok] added_unit [OF inv ok] added_long [OF inv ok Some] Some p okl by cases auto
    moreover have "sat_models s \<alpha> \<and> csat \<alpha> ps \<longleftrightarrow> sat_models s \<alpha> \<and> csat \<alpha> c" for \<alpha>
      using p m by blast
    ultimately show ?thesis
      using p unfolding clause_added_def by (metis order_trans)
  qed
qed

end
