(* ===== verification/Sat_Vars.thy ===== *)
theory Sat_Vars
  imports Sat_Add
begin

text \<open>
  New variables: the state after construction, the growth of the vectors that are indexed by variables and
  by literals, and that the models stay the same.
\<close>

section \<open>The vectors grow\<close>

lemma grow_to_nth: "i < length xs \<Longrightarrow> grow_to n d xs ! i = xs ! i"
  "length xs \<le> i \<Longrightarrow> i < n \<Longrightarrow> grow_to n d xs ! i = d"
  by (auto simp: grow_to_def nth_append)

lemma grow_to_length: "length (grow_to n d xs) = max n (length xs)"
  by (simp add: grow_to_def)

lemma setDecisionVar_fields [simp]:
  "nVars (setDecisionVar x b s) = nVars s" "occs (setDecisionVar x b s) = occs s" "dirty (setDecisionVar x b s) = dirty s"
  "ca (setDecisionVar x b s) = ca s" "clauses (setDecisionVar x b s) = clauses s" "learnts (setDecisionVar x b s) = learnts s"
  "trail (setDecisionVar x b s) = trail s" "vardata (setDecisionVar x b s) = vardata s" "assigns (setDecisionVar x b s) = assigns s"
  "trail_lim (setDecisionVar x b s) = trail_lim s" "qhead (setDecisionVar x b s) = qhead s" "dirties (setDecisionVar x b s) = dirties s"
  "sat_ok (setDecisionVar x b s) = sat_ok s"
  using insertVarOrder_fields(1) [of x "s\<lparr>decision := (decision s)[x := b]\<rparr>"]
  by (simp_all add: setDecisionVar_def nVars_def)

definition grown :: "'a sat_solver_scheme \<Rightarrow> 'a sat_solver_scheme \<Rightarrow> bool" where
  "grown s s' \<longleftrightarrow> assigns s' = assigns s @ [l_Undef] \<and> vardata s' = vardata s @ [(CRef_Undef, 0)] \<and>
     occs s' = occs s @ [[], []] \<and> dirty s' = dirty s @ [False, False] \<and> ca s' = ca s \<and> clauses s' = clauses s \<and>
     learnts s' = learnts s \<and> trail s' = trail s \<and> trail_lim s' = trail_lim s \<and> qhead s' = qhead s \<and>
     dirties s' = dirties s \<and> sat_ok s' = sat_ok s"

lemma watches_init_grow:
  assumes "length (occs s) = 2 * v" "length (dirty s) = 2 * v"
  shows "watches_init (mkLit v True) (watches_init (mkLit v False) s) = s\<lparr>occs := occs s @ [[], []], dirty := dirty s @ [False, False]\<rparr>"
proof -
  have n: "nat (mkLit v False) = 2 * v" "nat (mkLit v True) = Suc (2 * v)"
    by (simp_all add: mkLit_shape nat_add_distrib nat_mult_distrib)
  show ?thesis
    by (simp add: watches_init_def grow_to_def assms n)
qed

lemma newVar_grown:
  assumes "sizes_ok s"
  shows "fst (newVar sg dvar s) = nVars s" "grown s (snd (newVar sg dvar s))"
  using assms watches_init_grow [of s "nVars s"]
  by (simp_all add: newVar_def Let_def sizes_ok_def grown_def)

lemma grown_fields:
  assumes "grown s s'"
  shows "nVars s' = Suc (nVars s)" "attached s' = attached s" "clause_of s' = clause_of s" "wlits s' = wlits s"
    "watcher_deleted s' = watcher_deleted s" "decisionLevel s' = decisionLevel s" "sat_models s' = sat_models s"
    "sizes_ok s \<Longrightarrow> sizes_ok s'"
proof -
  show "nVars s' = Suc (nVars s)" "attached s' = attached s" "decisionLevel s' = decisionLevel s"
    using assms by (simp_all add: grown_def nVars_def attached_def decisionLevel_def)
  show c: "clause_of s' = clause_of s"
    using assms by (simp add: grown_def clause_of_def fun_eq_iff)
  then show "wlits s' = wlits s" "watcher_deleted s' = watcher_deleted s"
    using assms by (simp_all add: grown_def wlits_def watcher_deleted_def fun_eq_iff)
  show "sat_models s' = sat_models s"
    using assms c by (simp add: grown_def sat_models_def level0_def fun_eq_iff)
  show "sizes_ok s \<Longrightarrow> sizes_ok s'"
    using assms by (simp add: grown_def sizes_ok_def nVars_def)
qed

lemma grown_old:
  assumes "grown s s'" "v < nVars s"
  shows "level s' v = level s v" "reason s' v = reason s v"
  using assms by (simp_all add: grown_def level_def reason_def nVars_def nth_append)

lemma grown_lits:
  assumes "grown s s'" "sizes_ok s"
  shows "lit_ok (nVars s) p \<Longrightarrow> W_of s' p = W_of s p" "lit_ok (nVars s') p \<Longrightarrow> \<not> lit_ok (nVars s) p \<Longrightarrow> W_of s' p = []"
    "lit_ok (nVars s) p \<Longrightarrow> dirty s' ! nat p = dirty s ! nat p" "lit_ok (nVars s') p \<Longrightarrow> \<not> lit_ok (nVars s) p \<Longrightarrow> \<not> dirty s' ! nat p"
proof -
  show "W_of s' p = W_of s p" "dirty s' ! nat p = dirty s ! nat p" if "lit_ok (nVars s) p"
    using lit_ok_bound [OF that] assms by (simp_all add: grown_def sizes_ok_def W_of_def nth_append)
  show "W_of s' p = []" "\<not> dirty s' ! nat p" if p: "lit_ok (nVars s') p" "\<not> lit_ok (nVars s) p"
  proof -
    have "lit_var p = nVars s"
      using p grown_fields(1) [OF assms(1)] by (auto simp: lit_ok_def)
    then obtain b where "p = mkLit (nVars s) b"
      using lit_shape [of p] p(1) by (metis lit_ok_def)
    then have "nat p = 2 * nVars s \<or> nat p = Suc (2 * nVars s)"
      by (cases b) (simp_all add: mkLit_shape nat_add_distrib nat_mult_distrib)
    then show "W_of s' p = []" "\<not> dirty s' ! nat p"
      using assms by (auto simp: grown_def sizes_ok_def W_of_def nth_append)
  qed
qed

lemma grown_trail_inv:
  assumes "grown s s'" "trail_inv s"
  shows "trail_inv s'"
proof -
  note f = grown_fields [OF assms(1)]
  have ok: "\<forall>p \<in> set (trail s). lit_ok (nVars s) p"
    using assms(2) by (simp add: trail_inv_def)
  have "assigns s' ! v = (if mkLit v False \<in> set (trail s') then l_True
      else if mkLit v True \<in> set (trail s') then l_False else l_Undef)" if "v < nVars s'" for v
  proof (cases "v = nVars s")
    case True
    then have "mkLit v b \<notin> set (trail s)" for b
      using ok by auto
    then show ?thesis
      using assms True by (simp add: grown_def trail_inv_def nth_append)
  next
    case False
    then have "v < nVars s"
      using that f(1) by simp
    then show ?thesis
      using assms by (simp add: grown_def trail_inv_def nth_append)
  qed
  moreover have "level s' (lit_var (trail s ! i)) = level s (lit_var (trail s ! i))" if "i < length (trail s)" for i
    by (rule grown_old(1) [OF assms(1)]) (use ok that in \<open>auto simp: lit_ok_def\<close>)
  ultimately show ?thesis
    using assms ok unfolding trail_inv_def [of s'] by (simp add: f(1) grown_def trail_inv_def lit_ok_def less_Suc_eq)
qed

lemma grown_sat_inv:
  assumes g: "grown s s'" and inv: "sat_inv m s"
  shows "sat_inv m s'"
proof -
  note d = sat_invD [OF inv] and f = grown_fields [OF g] and sz = sizes_of_inv [OF inv]
  note w = grown_lits [OF g sz]
  have same: "trail s' = trail s" "trail_lim s' = trail_lim s" "ca s' = ca s" "dirties s' = dirties s"
    using g by (simp_all add: grown_def)
  have mono: "lit_ok (nVars s) p \<Longrightarrow> lit_ok (nVars s') p" for p
    using f(1) by (simp add: lit_ok_def)
  have db: "db_inv s'"
    using d(2) mono by (fastforce simp: db_inv_def f(2) same good_clause_def)
  have live: "live s' p = live s p" if "lit_ok (nVars s) p" for p
    using w(1) [OF that] by (simp add: live_def f(5))
  have live_new: "live s' p = []" if "lit_ok (nVars s') p" "\<not> lit_ok (nVars s) p" for p
    using w(2) [OF that] by (simp add: live_def)
  have "watch_ok s' (live s')"
  proof (rule watch_okI, goal_cases)
    case (1 p)
    then show ?case
      using watch_okD(1) [OF d(4), of p] live [of p] live_new [of p] by (cases "lit_ok (nVars s) p") simp_all
  next
    case (2 p)
    then show ?case
      using watch_okD(2) [OF d(4), of p] live [of p] live_new [of p] by (cases "lit_ok (nVars s) p") (simp_all add: f)
  next
    case (3 cr q)
    then have c: "cr \<in> attached s" "q \<in> wlits s cr"
      by (simp_all add: f)
    then have "lit_ok (nVars s) (lit_not q)"
      using wlits_sub [OF d(2) c(1)] db_invD(1) [OF d(2) c(1)] by (auto simp: good_clause_def)
    then show ?case
      using watch_okD(3) [OF d(4) c] live by simp
  qed
  moreover have "dirt_ok s'"
    unfolding dirt_ok_def
  proof (intro conjI allI impI ballI)
    show "length (dirty s') = 2 * nVars s'"
      using f(8) [OF sz] by (simp add: sizes_ok_def)
    show "lit_ok (nVars s') p" if "p \<in> set (dirties s')" for p
      using d(5) that mono by (simp add: dirt_ok_def same)
    fix p assume p: "lit_ok (nVars s') p"
    show "p \<in> set (dirties s')" if "dirty s' ! nat p"
      using that p w(3,4) d(5) unfolding dirt_ok_def same by blast
    show "dirty s' ! nat p" if "\<exists>x \<in> set (W_of s' p). watcher_deleted s' x"
      using that p w d(5) by (cases "lit_ok (nVars s) p") (auto simp: dirt_ok_def f(5))
  qed
  moreover have old: "level s' (lit_var q) = level s (lit_var q)" "reason s' (lit_var q) = reason s (lit_var q)"
    if "lit_ok (nVars s) q" for q
    using grown_old [OF g] that by (simp_all add: lit_ok_def)
  have "impl_ok s' m UNIV"
    unfolding impl_ok_def same f(2-4)
  proof (intro ballI allI impI)
    fix cr q j
    assume c: "cr \<in> attached s" "q \<in> wlits s cr" "j < length (trail s)" "trail s ! j = lit_not q" "j < m \<or> j = m \<and> cr \<notin> UNIV"
    then obtain r where r: "r \<in> set (clause_of s cr)" "r \<in> set (trail s)" "level s (lit_var r) \<le> level s (lit_var q)"
      using d(6) unfolding impl_ok_def by blast
    moreover have "lit_ok (nVars s) q" "lit_ok (nVars s) r"
      using wlits_sub [OF d(2) c(1)] db_invD(1) [OF d(2) c(1)] c(2) r(1) by (auto simp: good_clause_def)
    ultimately show "\<exists>r \<in> set (clause_of s cr). r \<in> set (trail s) \<and> level s' (lit_var r) \<le> level s' (lit_var q)"
      using old(1) by auto
  qed
  moreover have "reasons_ok s'"
    using d(7) old(2) trail_inv_ok [OF d(1)] by (simp add: reasons_ok_def same f(2,3))
  ultimately show ?thesis
    using db d(8) grown_trail_inv [OF g d(1)] f(8) [OF sz] by (simp add: sat_inv_def same sizes_ok_def)
qed

lemma grown_idle:
  assumes "grown s s'" "idle s"
  shows "idle s'"
proof -
  have "sat_ok s' = sat_ok s" "qhead s' = qhead s" "learnts s' = learnts s" "trail s' = trail s"
    using assms(1) by (simp_all add: grown_def)
  then show ?thesis
    using assms grown_fields [OF assms(1)] grown_sat_inv [OF assms(1)] by (simp add: idle_def solver_inv_def)
qed

lemma newVar_idle:
  assumes "idle s"
  shows "idle (snd (newVar sg dvar s))" "nVars (snd (newVar sg dvar s)) = Suc (nVars s)"
    "sat_models (snd (newVar sg dvar s)) = sat_models s"
proof -
  have g: "grown s (snd (newVar sg dvar s))"
    using assms by (intro newVar_grown) (simp add: idle_def)
  show "idle (snd (newVar sg dvar s))" "nVars (snd (newVar sg dvar s)) = Suc (nVars s)"
      "sat_models (snd (newVar sg dvar s)) = sat_models s"
    using grown_idle [OF g assms] grown_fields [OF g] by simp_all
qed

section \<open>Declaring a variable\<close>

text \<open>The operation that \<open>addVar_\<close> calls for a new variable, as the subclasses must provide it.\<close>

definition declares :: "(bool \<Rightarrow> bool \<Rightarrow> 'a sat_solver_scheme \<Rightarrow> nat \<times> 'a sat_solver_scheme) \<Rightarrow> bool" where
  "declares nv \<longleftrightarrow> (\<forall>s sg dvar. idle s \<longrightarrow> idle (snd (nv sg dvar s)) \<and>
     nVars (snd (nv sg dvar s)) = Suc (nVars s) \<and> sat_models (snd (nv sg dvar s)) = sat_models s)"

lemma declares_newVar: "declares newVar"
  using newVar_idle by (auto simp: declares_def)

lemma same_core_idle:
  assumes "same_core s s'" "sat_ok s' = sat_ok s"
  shows "idle s' = idle s"
  using assms same_core_models [OF assms] same_core_fields [OF assms(1)] by (simp add: idle_def sizes_ok_def same_core_def)

lemma insertVarOrder_core: "same_core s (insertVarOrder x s)"
  by (simp add: same_core_def)

lemma addVar_core_ok:
  assumes "declares nv" "idle s"
  shows "\<exists>s'. addVar_core nv v s = Inr s' \<and> idle s' \<and> nVars s' = max (nVars s) (Suc v) \<and> sat_models s' = sat_models s"
proof (cases "v < nVars s")
  case True
  have c: "same_core s ((insertVarOrder v s)\<lparr>decision := u\<rparr>)" for u
    using insertVarOrder_core [of s v] by (simp add: same_core_def)
  show ?thesis
    using True assms(2) same_core_idle [OF c] same_core_models(1) [OF c] same_core_fields(3) [OF c]
    by (simp add: addVar_core_def Let_def)
next
  case False
  let ?b = "\<lambda>s. nVars s \<le> v" and ?c = "\<lambda>s. snd (nv True True s)"
  have step: "idle (?c t)" "nVars (?c t) = Suc (nVars t)" "sat_models (?c t) = sat_models t" if "idle t" for t
    using assms(1) that by (simp_all add: declares_def)
  have "\<exists>s'. while_option ?b ?c t = Some s' \<and> idle s' \<and> nVars s' = Suc v \<and> sat_models s' = sat_models t"
    if "idle t" "nVars t \<le> Suc v" for t
    using that
  proof (induction "Suc v - nVars t" arbitrary: t)
    case 0
    then show ?case
      by (simp add: while_option_unfold)
  next
    case (Suc n)
    then have "n = Suc v - nVars (?c t)" "idle (?c t)" "nVars (?c t) \<le> Suc v"
      using step [OF Suc.prems(1)] by simp_all
    then obtain s' where "while_option ?b ?c (?c t) = Some s'" "idle s'" "nVars s' = Suc v" "sat_models s' = sat_models (?c t)"
      using Suc.hyps(1) by blast
    moreover have "nVars t \<le> v"
      using Suc.hyps(2) by simp
    ultimately show ?case
      using step(3) [OF Suc.prems(1)] by (subst while_option_unfold) simp
  qed
  then show ?thesis
    using False assms(2) by (fastforce simp: addVar_core_def)
qed

section \<open>The state after construction\<close>

definition CoreSMTSolver_ctor :: "bool \<Rightarrow> int \<Rightarrow> (nat \<Rightarrow> bool) \<Rightarrow> sat_solver" where
  "CoreSMTSolver_ctor extra ph th = \<lparr>sat_ok = True,
     ca = \<lparr>al_mem = (\<lambda>_. None), al_size = 0, al_wasted = 0, extra_clause_field = extra\<rparr>,
     clauses = [], learnts = [], occs = [], dirty = [], dirties = [], assigns = [], vardata = [], trail = [], trail_lim = [],
     qhead = 0, decision = [], polarity = [], seen = [], var_seen = [], order_heap = [], undo_stack = [], undo_stack_size = [],
     undo_trail_size = [], phase_saving = ph, theory_var = th\<rparr>"

lemma ctor_idle: "idle (CoreSMTSolver_ctor e ph th)" "sat_models (CoreSMTSolver_ctor e ph th) \<alpha>"
  by (simp_all add: idle_def CoreSMTSolver_ctor_def solver_inv_def sizes_ok_def decisionLevel_def sat_models_def level0_def
      nVars_def sat_inv_def trail_inv_def db_inv_def watch_ok_def dirt_ok_def impl_ok_def reasons_ok_def attached_def lit_ok_def)

end
