(* ===== verification/Simp_Solver.thy ===== *)
theory Simp_Solver
  imports Sat_Vars Term_Mapper
begin

text \<open>
  The class \<open>SimpSMTSolver\<close> of \<open>src/src/smtsolvers\<close>, which extends
  \<open>CoreSMTSolver\<close>: the record \<open>simp_solver\<close> extends the record \<open>sat_solver\<close>. This
  theory has the entry point for new clauses, which first declares the variables and asks whether the
  clause is implied already. The term mapper, which the code reads through the theory handler, is an
  argument \<open>T\<close>. The heap of variables to eliminate is the list of its elements.
\<close>

record simp_solver = sat_solver +
  use_simplification :: bool
  use_rcheck :: bool
  sv_frozen :: "bool list"
  eliminated :: "bool list"
  n_occ :: "int list"
  occurs :: "nat list list"
  occ_dirty :: "bool list"
  occ_dirties :: "nat list"
  touched :: "bool list"
  n_touched :: int
  elim_heap :: "nat list"
  subsumption_queue :: "nat list"
  bwdsub_assigns :: nat
  elimclauses :: "int list"

section \<open>Variables\<close>

definition simp_newVar :: "bool \<Rightarrow> bool \<Rightarrow> simp_solver \<Rightarrow> nat \<times> simp_solver" where
  "simp_newVar sg dvar s =
     (let (v, s1) = newVar sg dvar s;
          s2 = s1\<lparr>sv_frozen := sv_frozen s1 @ [False], eliminated := eliminated s1 @ [False]\<rparr>
      in (v, if use_simplification s2
             then s2\<lparr>n_occ := n_occ s2 @ [0, 0], occurs := grow_to (v + 1) [] (occurs s2),
                     occ_dirty := grow_to (v + 1) False (occ_dirty s2), sv_frozen := sv_frozen s2 @ [False],
                     touched := touched s2 @ [False], elim_heap := elim_heap s2 @ [v]\<rparr>
             else s2))"

definition isEliminated :: "nat \<Rightarrow> simp_solver \<Rightarrow> bool" where
  "isEliminated v s = eliminated s ! v"

definition heap_update :: "nat \<Rightarrow> nat list \<Rightarrow> nat list" where
  "heap_update v h = (if v \<in> set h then h else h @ [v])"

definition updateElimHeap :: "nat \<Rightarrow> simp_solver \<Rightarrow> simp_solver result" where
  "updateElimHeap v s = require (use_simplification s)
     (Inr (if v \<in> set (elim_heap s) \<or> (\<not> sv_frozen s ! v \<and> \<not> isEliminated v s \<and> lbool_eq (val_var s v) l_Undef)
           then s\<lparr>elim_heap := heap_update v (elim_heap s)\<rparr> else s))"

definition simp_setFrozen :: "nat \<Rightarrow> bool \<Rightarrow> simp_solver \<Rightarrow> simp_solver result" where
  "simp_setFrozen v b s =
     (if \<not> use_simplification s then Inr s
      else let s1 = s\<lparr>sv_frozen := (sv_frozen s)[v := b]\<rparr> in if b then updateElimHeap v s1 else Inr s1)"

section \<open>The check for implied clauses\<close>

text \<open>The loop over the literals: \<open>True\<close> with the state when a literal is true.\<close>

fun implied_loop :: "lit list \<Rightarrow> 'a sat_solver_scheme \<Rightarrow> (bool \<times> 'a sat_solver_scheme) result" where
  "implied_loop [] s = Inr (False, s)"
| "implied_loop (l # ls) s =
     (if is_true s l then Inr (True, s)
      else if \<not> is_false s l
      then require (is_undef s l) (case uncheckedEnqueue (lit_not l) CRef_Undef s of
             Inl e \<Rightarrow> Inl e | Inr s1 \<Rightarrow> implied_loop ls s1)
      else implied_loop ls s)"

definition implied :: "lit list \<Rightarrow> 'a sat_solver_scheme \<Rightarrow> (bool \<times> 'a sat_solver_scheme) result" where
  "implied c s = require (decisionLevel s = 0)
     (rbind (implied_loop c (newDecisionLevel s)) (\<lambda>(sat_now, s1).
        if sat_now then Inr (False, cancelUntil 0 s1)
        else rbind (propagate s1) (\<lambda>(confl, s2). Inr (confl \<noteq> CRef_Undef, cancelUntil 0 s2))))"

section \<open>New clauses\<close>

definition freeze_term :: "cnf \<Rightarrow> ptref \<Rightarrow> nat \<Rightarrow> simp_solver \<Rightarrow> simp_solver result" where
  "freeze_term T tr v s = rbind (isTheoryTerm (cn_logic T) tr)
     (\<lambda>b. if b \<or> isFrozen T v then simp_setFrozen v True s else Inr s)"

text \<open>A variable that the mapper does not have is a read outside its vector.\<close>

fun declare_lits :: "cnf \<Rightarrow> lit list \<Rightarrow> simp_solver \<Rightarrow> simp_solver result" where
  "declare_lits T [] s = Inr s"
| "declare_lits T (l # ls) s =
     (let v = lit_var l in
      if l < 0 \<or> length (varToTerm T) \<le> v then Inl Uninitialised_Read
      else case varToTerm T ! v of
        None \<Rightarrow> Inl Uninitialised_Read
      | Some tr \<Rightarrow> if getVar_of (cn_logic T) tr \<noteq> Some v then Inl Assertion_Failed
          else case addVar_core simp_newVar v s of
            Inl e \<Rightarrow> Inl e
          | Inr s1 \<Rightarrow> (case freeze_term T tr v s1 of Inl e \<Rightarrow> Inl e | Inr s2 \<Rightarrow> declare_lits T ls s2))"

text \<open>The bookkeeping for one literal of a clause that was added.\<close>

fun touch_lits :: "cnf \<Rightarrow> nat \<Rightarrow> lit list \<Rightarrow> simp_solver \<Rightarrow> simp_solver result" where
  "touch_lits T cr [] s = Inr s"
| "touch_lits T cr (l # ls) s =
     (let v = lit_var l;
          s1 = s\<lparr>occurs := (occurs s)[v := occurs s ! v @ [cr]], n_occ := (n_occ s)[nat l := n_occ s ! nat l + 1],
                 touched := (touched s)[v := True], n_touched := n_touched s + 1\<rparr>
      in case varToTerm T ! v of
           None \<Rightarrow> Inl Uninitialised_Read
         | Some tr \<Rightarrow> if getVar_of (cn_logic T) tr = None then Inl Assertion_Failed else touch_lits T cr ls s1)"

definition addOriginalSMTClause :: "cnf \<Rightarrow> lit list \<Rightarrow> simp_solver \<Rightarrow> (bool \<times> simp_solver) result" where
  "addOriginalSMTClause T c s =
     rbind (declare_lits T c s) (\<lambda>s1.
     rbind (if use_rcheck s1 then implied c s1 else Inr (False, s1)) (\<lambda>(imp, s2).
     if imp then Inr (True, s2)
     else let nclauses = length (clauses s2) in
       rbind (addOriginalClause_core c s2) (\<lambda>(b, _, s3).
         if \<not> b then Inr (False, s3)
         else if use_simplification s3 \<and> length (clauses s3) = nclauses + 1
         then let cr = last (clauses s3) in
           rbind (clause_at s3 cr) (\<lambda>c'. rbind (touch_lits T cr (lits c') (s3\<lparr>subsumption_queue := subsumption_queue s3 @ [cr]\<rparr>))
             (\<lambda>s4. Inr (True, s4)))
         else Inr (True, s3))))"

text \<open>The constructor, and the clause of one literal that the subsumption check reuses.\<close>

definition SimpSMTSolver_ctor :: "bool \<Rightarrow> bool \<Rightarrow> int \<Rightarrow> (nat \<Rightarrow> bool) \<Rightarrow> simp_solver" where
  "SimpSMTSolver_ctor simp rcheck ph th =
     sat_solver.extend
       ((CoreSMTSolver_ctor True ph th)\<lparr>ca := snd (ca_alloc [lit_Undef] False (ca (CoreSMTSolver_ctor True ph th)))\<rparr>)
       \<lparr>use_simplification = simp, use_rcheck = rcheck, sv_frozen = [], eliminated = [], n_occ = [], occurs = [], occ_dirty = [],
        occ_dirties = [], touched = [], n_touched = 0, elim_heap = [], subsumption_queue = [], bwdsub_assigns = 0, elimclauses = []\<rparr>"

section \<open>Declaring variables\<close>

lemma simp_newVar_declares: "declares simp_newVar"
  unfolding declares_def
proof (intro allI impI)
  fix s :: simp_solver and sg dvar
  assume i: "idle s"
  obtain v s1 where n: "newVar sg dvar s = (v, s1)"
    by (rule prod.exhaust)
  then have s1: "idle s1" "Sat_Solver.nVars s1 = Suc (Sat_Solver.nVars s)" "sat_models s1 = sat_models s"
    using newVar_idle [OF i, of sg dvar] by simp_all
  have c: "same_core s1 (snd (simp_newVar sg dvar s))" "sat_ok (snd (simp_newVar sg dvar s)) = sat_ok s1"
    by (simp_all add: simp_newVar_def n Let_def same_core_def)
  show "idle (snd (simp_newVar sg dvar s)) \<and> Sat_Solver.nVars (snd (simp_newVar sg dvar s)) = Suc (Sat_Solver.nVars s) \<and>
      sat_models (snd (simp_newVar sg dvar s)) = sat_models s"
    using s1 same_core_idle [OF c] same_core_models(1) [OF c] same_core_fields(3) [OF c(1)] by simp
qed

lemma updateElimHeap_ok:
  "updateElimHeap v s = Inr s' \<Longrightarrow> same_core s s' \<and> sat_ok s' = sat_ok s"
  by (cases "use_simplification s") (auto simp: updateElimHeap_def same_core_def split: if_splits)

lemma simp_setFrozen_ok:
  "\<exists>s'. simp_setFrozen v b s = Inr s' \<and> same_core s s' \<and> sat_ok s' = sat_ok s"
  by (simp add: simp_setFrozen_def updateElimHeap_def Let_def same_core_def)

lemma freeze_term_ok:
  "isTheoryTerm (cn_logic T) tr = Inr b \<Longrightarrow> \<exists>s'. freeze_term T tr v s = Inr s' \<and> same_core s s' \<and> sat_ok s' = sat_ok s"
  using simp_setFrozen_ok [of v True s] by (auto simp: freeze_term_def same_core_def)

lemma freeze_term_Inr: "freeze_term T tr v s = Inr s' \<Longrightarrow> \<exists>b. isTheoryTerm (cn_logic T) tr = Inr b"
  by (auto simp: freeze_term_def rbind_eq_Inr_iff)

text \<open>The mapper knows a variable: its term is bound to it, and classified.\<close>

definition knows :: "cnf \<Rightarrow> lit \<Rightarrow> bool" where
  "knows T l \<longleftrightarrow> 0 \<le> l \<and> lit_var l < length (varToTerm T) \<and>
     (\<exists>tr b. varToTerm T ! lit_var l = Some tr \<and> getVar_of (cn_logic T) tr = Some (lit_var l) \<and> isTheoryTerm (cn_logic T) tr = Inr b)"

lemma declare_lits_step:
  assumes "idle s" "knows T l"
  shows "\<exists>s1. declare_lits T (l # ls) s = declare_lits T ls s1 \<and> idle s1 \<and>
    Sat_Solver.nVars s1 = max (Sat_Solver.nVars s) (Suc (lit_var l)) \<and> sat_models s1 = sat_models s"
proof -
  obtain tr b where tr: "varToTerm T ! lit_var l = Some tr" "getVar_of (cn_logic T) tr = Some (lit_var l)"
      "isTheoryTerm (cn_logic T) tr = Inr b"
    using assms(2) by (auto simp: knows_def)
  obtain s1 where s1: "addVar_core simp_newVar (lit_var l) s = Inr s1" "idle s1"
      "Sat_Solver.nVars s1 = max (Sat_Solver.nVars s) (Suc (lit_var l))" "sat_models s1 = sat_models s"
    using addVar_core_ok [OF simp_newVar_declares assms(1)] by blast
  obtain s2 where s2: "freeze_term T tr (lit_var l) s1 = Inr s2" "same_core s1 s2" "sat_ok s2 = sat_ok s1"
    using freeze_term_ok [OF tr(3)] by blast
  have t: "idle s2" "Sat_Solver.nVars s2 = Sat_Solver.nVars s1" "sat_models s2 = sat_models s1"
    using same_core_idle [OF s2(2,3)] same_core_models(1) [OF s2(2,3)] same_core_fields(3) [OF s2(2)] s1(2) by simp_all
  show ?thesis
    using assms(2) tr s1 s2(1) t by (auto simp: knows_def Let_def)
qed

lemma declare_lits_ok:
  "idle s \<Longrightarrow> \<forall>l \<in> set ls. knows T l \<Longrightarrow> \<exists>s'. declare_lits T ls s = Inr s' \<and> idle s' \<and> sat_models s' = sat_models s \<and>
     Sat_Solver.nVars s \<le> Sat_Solver.nVars s' \<and> (\<forall>l \<in> set ls. lit_ok (Sat_Solver.nVars s') l)"
proof (induction ls arbitrary: s)
  case (Cons l ls)
  obtain s1 where s1: "declare_lits T (l # ls) s = declare_lits T ls s1" "idle s1"
      "Sat_Solver.nVars s1 = max (Sat_Solver.nVars s) (Suc (lit_var l))" "sat_models s1 = sat_models s"
    using declare_lits_step [OF Cons.prems(1)] Cons.prems(2) by (metis list.set_intros(1))
  obtain s' where s': "declare_lits T ls s1 = Inr s'" "idle s'" "sat_models s' = sat_models s1"
      "Sat_Solver.nVars s1 \<le> Sat_Solver.nVars s'" "\<forall>l \<in> set ls. lit_ok (Sat_Solver.nVars s') l"
    using Cons.IH [OF s1(2)] Cons.prems(2) by auto
  have "lit_ok (Sat_Solver.nVars s') l"
    using Cons.prems(2) s1(3) s'(4) by (simp add: knows_def lit_ok_def)
  then show ?case
    using s1 s' by auto
qed auto

text \<open>A declaration that does not fail: every literal was known.\<close>

lemma declare_lits_knows:
  "declare_lits T ls s = Inr s' \<Longrightarrow> \<forall>l \<in> set ls. knows T l"
proof (induction ls arbitrary: s)
  case (Cons l ls)
  obtain tr s0 s1 where tr: "0 \<le> l" "lit_var l < length (varToTerm T)" "varToTerm T ! lit_var l = Some tr"
      "getVar_of (cn_logic T) tr = Some (lit_var l)" "freeze_term T tr (lit_var l) s0 = Inr s1" "declare_lits T ls s1 = Inr s'"
    using Cons.prems by (auto simp: Let_def split: if_splits option.splits sum.splits)
  then show ?case
    using Cons.IH [OF tr(6)] freeze_term_Inr [OF tr(5)] by (auto simp: knows_def)
qed simp

end
