(* ===== verification/Simp_Add.thy ===== *)
theory Simp_Add
  imports Simp_Solver
begin

text \<open>
  The check for implied clauses and the entry point for new clauses: they fail no assertion, restore the
  state, and answer true only for a clause that holds in all models.
\<close>

section \<open>The state after construction\<close>

lemma simp_ctor_idle:
  "idle (SimpSMTSolver_ctor simp rcheck ph th)" "sat_models (SimpSMTSolver_ctor simp rcheck ph th) \<alpha>"
  "sat_ok (SimpSMTSolver_ctor simp rcheck ph th)" "clauses (SimpSMTSolver_ctor simp rcheck ph th) = []"
  by (simp_all add: SimpSMTSolver_ctor_def sat_solver.extend_def idle_def CoreSMTSolver_ctor_def solver_inv_def sizes_ok_def
      decisionLevel_def sat_models_def level0_def ca_alloc_def clauseWord32Size_def Let_def
      Sat_Solver.nVars_def sat_inv_def trail_inv_def db_inv_def watch_ok_def dirt_ok_def impl_ok_def reasons_ok_def attached_def lit_ok_def)

section \<open>The check for implied clauses\<close>

text \<open>What the assumptions of the check change: only the assignment, on the level above.\<close>

definition assumed :: "'a sat_solver_scheme \<Rightarrow> 'a sat_solver_scheme \<Rightarrow> bool" where
  "assumed s s' \<longleftrightarrow> ca s' = ca s \<and> clauses s' = clauses s \<and> learnts s' = learnts s \<and> trail_lim s' = trail_lim s \<and>
     Sat_Solver.nVars s' = Sat_Solver.nVars s \<and> qhead s' = qhead s \<and> sat_ok s' = sat_ok s"

lemma implied_loop_ok:
  assumes "sat_inv m s" "m \<le> length (trail s)" "\<forall>l \<in> set ls. lit_ok (Sat_Solver.nVars s) l"
  shows "\<exists>b s'. implied_loop ls s = Inr (b, s') \<and> sat_inv m s' \<and> assumed s s' \<and>
    (\<exists>new. trail s' = trail s @ new \<and> (\<forall>q \<in> set new. lit_not q \<in> set ls))"
  using assms
proof (induction ls arbitrary: s)
  case Nil
  then show ?case
    by (auto simp: assumed_def)
next
  case (Cons l ls)
  note t = sat_invD(1) [OF Cons.prems(1)]
  have l: "lit_ok (Sat_Solver.nVars s) l" "lit_ok (Sat_Solver.nVars s) (lit_not l)"
    using Cons.prems(3) by simp_all
  note v = values_iff [OF t l(1)]
  consider "is_true s l" | "\<not> is_true s l" "is_false s l" | "\<not> is_true s l" "\<not> is_false s l"
    by blast
  then show ?case
  proof cases
    case 1
    then show ?thesis
      using Cons.prems by (auto simp: assumed_def)
  next
    case 2
    have "\<exists>b s'. implied_loop ls s = Inr (b, s') \<and> sat_inv m s' \<and> assumed s s' \<and>
        (\<exists>new. trail s' = trail s @ new \<and> (\<forall>q \<in> set new. lit_not q \<in> set ls))"
      by (rule Cons.IH) (use Cons.prems in simp_all)
    then show ?thesis
      using 2 by fastforce
  next
    case 3
    define s1 where "s1 = enqueued (lit_not l) CRef_Undef s"
    have u: "lit_not l \<notin> set (trail s)" "lit_not (lit_not l) \<notin> set (trail s)" "is_undef s l"
      using 3 v by simp_all
    have run: "uncheckedEnqueue (lit_not l) CRef_Undef s = Inr s1"
      unfolding s1_def by (rule uncheckedEnqueue_ok [OF t l(2) u(1,2)]) simp
    have "\<exists>b s'. implied_loop ls s1 = Inr (b, s') \<and> sat_inv m s' \<and> assumed s1 s' \<and>
        (\<exists>new. trail s' = trail s1 @ new \<and> (\<forall>q \<in> set new. lit_not q \<in> set ls))"
      by (rule Cons.IH) (use Cons.prems enqueued_sat_inv [OF Cons.prems(1) l(2) u(1,2) Cons.prems(2)] in \<open>simp_all add: s1_def\<close>)
    then obtain b s' new where s': "implied_loop ls s1 = Inr (b, s')" "sat_inv m s'" "assumed s1 s'"
        "trail s' = trail s1 @ new" "\<forall>q \<in> set new. lit_not q \<in> set ls"
      by blast
    have "trail s' = trail s @ lit_not l # new" "assumed s s'"
      using s'(3,4) by (simp_all add: s1_def assumed_def)
    then show ?thesis
      using 3 u(3) run s' by auto
  qed
qed

text \<open>
  Backtracking to level 0 from one level of assumptions gives back the clauses, the learnt clauses and the
  trail of the state it started from; the literals of a clause may stand in another order.
\<close>

definition restored :: "'a sat_solver_scheme \<Rightarrow> 'a sat_solver_scheme \<Rightarrow> bool" where
  "restored s s' \<longleftrightarrow> clauses s' = clauses s \<and> learnts s' = learnts s \<and> trail s' = trail s \<and>
     trail_lim s' = [] \<and> qhead s' = length (trail s) \<and> sat_ok s' = sat_ok s \<and>
     Sat_Solver.nVars s' = Sat_Solver.nVars s \<and> (\<forall>cr. set (clause_of s' cr) = set (clause_of s cr))"

lemma back_to_idle:
  assumes i: "idle s" "sat_ok s" and inv: "sat_inv m s'" and lim: "trail_lim s' = [length (trail s)]"
    and t: "\<exists>new. trail s' = trail s @ new" and same: "clauses s' = clauses s" "learnts s' = learnts s" "sat_ok s' = sat_ok s"
      "\<And>cr. set (clause_of s' cr) = set (clause_of s cr)" "Sat_Solver.nVars s' = Sat_Solver.nVars s"
  shows "idle (cancelUntil 0 s')" "sat_models (cancelUntil 0 s') \<alpha> = sat_models s \<alpha>" "restored s (cancelUntil 0 s')"
proof -
  let ?s = "cancelUntil 0 s'"
  have dl: "0 < decisionLevel s'"
    by (simp add: decisionLevel_def lim)
  note f = cancelUntil_fields [OF dl] and k = cancelUntil_same [OF dl] and idle = idle_sat_inv [OF i]
  have trail: "trail ?s = trail s"
    using t by (auto simp: f lim)
  have l0: "level0 ?s = trail s" "level0 s = trail s"
    using trail idle(2) by (simp_all add: level0_def f decisionLevel_def)
  have c: "csat \<alpha> (clause_of ?s cr) = csat \<alpha> (clause_of s cr)" for \<alpha> cr
    using csat_set [OF same(4)] by (simp add: k)
  show m: "sat_models ?s \<alpha> = sat_models s \<alpha>" for \<alpha>
    by (simp add: sat_models_def f same l0 c)
  have inv': "sat_inv (qhead ?s) ?s" "qhead ?s = length (trail ?s)"
    using cancelUntil_ok [OF inv dl] trail by (simp_all add: f lim)
  then have "solver_inv ?s"
    using idle(5) m c by (simp add: solver_inv_def f same)
  then show "idle ?s"
    using sizes_of_inv [OF inv'(1)] by (simp add: idle_def f)
  show "restored s ?s"
    using trail by (simp add: restored_def f same k lim)
qed

lemma implied_ok:
  assumes "idle s" "sat_ok s" "\<forall>l \<in> set c. lit_ok (Sat_Solver.nVars s) l"
  shows "\<exists>b s'. implied c s = Inr (b, s') \<and> idle s' \<and> restored s s' \<and> sat_models s' = sat_models s \<and>
    (b \<longrightarrow> (\<forall>\<alpha>. sat_models s \<alpha> \<longrightarrow> csat \<alpha> c))"
proof -
  note i = idle_sat_inv [OF assms(1,2)]
  define s0 where "s0 = newDecisionLevel s"
  have s0: "sat_inv (length (trail s)) s0" "trail s0 = trail s" "Sat_Solver.nVars s0 = Sat_Solver.nVars s"
      "trail_lim s0 = [length (trail s)]" "clauses s0 = clauses s" "learnts s0 = learnts s" "sat_ok s0 = sat_ok s"
      "ca s0 = ca s" "qhead s0 = length (trail s)"
    using newDecisionLevel_ok [of s] i(1,2,4)
    by (simp_all add: s0_def newDecisionLevel_def Sat_Solver.nVars_def decisionLevel_def)
  have "\<exists>b s1. implied_loop c s0 = Inr (b, s1) \<and> sat_inv (length (trail s)) s1 \<and> assumed s0 s1 \<and>
      (\<exists>new. trail s1 = trail s0 @ new \<and> (\<forall>q \<in> set new. lit_not q \<in> set c))"
    by (rule implied_loop_ok) (use s0 assms(3) in simp_all)
  then obtain b s1 new where s1: "implied_loop c s0 = Inr (b, s1)" "sat_inv (length (trail s)) s1" "assumed s0 s1"
      "trail s1 = trail s @ new" "\<forall>q \<in> set new. lit_not q \<in> set c"
    using s0(2) by auto
  have f1: "clauses s1 = clauses s" "learnts s1 = learnts s" "sat_ok s1 = sat_ok s" "trail_lim s1 = [length (trail s)]"
      "Sat_Solver.nVars s1 = Sat_Solver.nVars s" "qhead s1 = length (trail s)" "clause_of s1 = clause_of s"
    using s1(3) s0 by (auto simp: assumed_def clause_of_def fun_eq_iff)
  have start: "implied c s = (if b then Inr (False, cancelUntil 0 s1)
      else rbind (propagate s1) (\<lambda>(confl, s2). Inr (confl \<noteq> CRef_Undef, cancelUntil 0 s2)))"
    using i(2) s1(1) by (simp add: implied_def s0_def)
  show ?thesis
  proof (cases b)
    case True
    have t: "\<exists>new. trail s1 = trail s @ new"
      using s1(4) by blast
    have "\<And>cr. set (clause_of s1 cr) = set (clause_of s cr)"
      by (simp add: f1(7))
    note rs = back_to_idle [OF assms(1,2) s1(2) f1(4) t f1(1-3) this f1(5)]
    show ?thesis
      using start True rs by (intro exI [of _ False] exI [of _ "cancelUntil 0 s1"]) (simp add: fun_eq_iff)
  next
    case False
    have q: "sat_inv (qhead s1) s1"
      using s1(2) f1(6) by simp
    obtain r s2 where run: "propagate s1 = Inr (r, s2)" "prop_ext s1 s2" "qhead s2 = length (trail s2)"
        "r = CRef_Undef \<and> sat_inv (length (trail s2)) s2 \<or> conflict s2 r \<and> sat_inv (qhead s1) s2"
      by (rule propagate_ok [OF q])
    note p = prop_ext_fields [OF run(2)]
    obtain k where k: "sat_inv k s2"
      using run(4) by blast
    have t: "\<exists>new. trail s2 = trail s @ new" "clauses s2 = clauses s" "learnts s2 = learnts s" "sat_ok s2 = sat_ok s"
        "trail_lim s2 = [length (trail s)]"
      using p(2-5,10) s1(4) f1 by auto
    have "\<And>cr. set (clause_of s2 cr) = set (clause_of s cr)"
      using p(8) by (simp add: f1(7))
    note rs = back_to_idle [OF assms(1,2) k t(5,1-4) this p(1) [unfolded f1(5)]]
    have "csat \<alpha> c" if r: "r \<noteq> CRef_Undef" and m: "sat_models s \<alpha>" for \<alpha>
    proof (rule ccontr)
      assume n: "\<not> csat \<alpha> c"
      have "db_sat \<alpha> s" "trail_sat \<alpha> s"
        using models_level0 [OF i(2,3) assms(2)] m by blast+
      moreover have "lsat \<alpha> q" if "q \<in> set new" for q
        using n s1(5) that unfolding csat_def by (metis lsat_not)
      ultimately have "db_sat \<alpha> s1" "trail_sat \<alpha> s1"
        using s1(4) f1 by (auto simp: db_sat_def trail_sat_def attached_def)
      then show False
        using conflict_unsat [of s2 r \<alpha>] run(4) r p(9,12) by blast
    qed
    with start False run(1) rs show ?thesis
      by (simp add: fun_eq_iff)
  qed
qed

section \<open>New clauses\<close>

text \<open>Declaring variables leaves the flags and the clauses alone.\<close>

definition keeps_flags :: "simp_solver \<Rightarrow> simp_solver \<Rightarrow> bool" where
  "keeps_flags s s' \<longleftrightarrow> sat_ok s' = sat_ok s \<and> use_rcheck s' = use_rcheck s \<and> clauses s' = clauses s \<and>
     use_simplification s' = use_simplification s"

lemma keeps_flags_trans: "keeps_flags s t \<Longrightarrow> keeps_flags t u \<Longrightarrow> keeps_flags s u"
  by (simp add: keeps_flags_def)

lemma insertVarOrder_flags: "keeps_flags s (insertVarOrder v s)"
  by (simp add: keeps_flags_def insertVarOrder_def)

lemma newVar_flags: "keeps_flags s (snd (newVar sg dvar s))"
proof -
  define t :: "simp_solver \<Rightarrow> simp_solver" where "t = insertVarOrder (Sat_Solver.nVars s)"
  have t: "keeps_flags u (t u)" for u
    unfolding t_def by (rule insertVarOrder_flags)
  have f: "use_rcheck (t u) = use_rcheck u" "use_simplification (t u) = use_simplification u" "sat_ok (t u) = sat_ok u" "clauses (t u) = clauses u" for u
    using t [of u] by (simp_all add: keeps_flags_def)
  show ?thesis
    by (simp add: newVar_def Let_def setDecisionVar_def watches_init_def flip: t_def) (simp add: keeps_flags_def f)
qed

lemma simp_newVar_flags: "keeps_flags s (snd (simp_newVar sg dvar s))"
proof -
  obtain v t where n: "newVar sg dvar s = (v, t)"
    by (rule prod.exhaust)
  then have "keeps_flags s t"
    using newVar_flags [of s sg dvar] by simp
  then show ?thesis
    by (simp add: keeps_flags_def simp_newVar_def n Let_def)
qed

lemma addVar_core_flags:
  assumes "addVar_core simp_newVar v s = Inr s'"
  shows "keeps_flags s s'"
proof (cases "v < Sat_Solver.nVars s")
  case True
  then show ?thesis
    using assms insertVarOrder_flags [of s v] by (auto simp: addVar_core_def keeps_flags_def Let_def)
next
  case False
  then have loop: "while_option (\<lambda>s. Sat_Solver.nVars s \<le> v) (\<lambda>s. snd (simp_newVar True True s)) s = Some s'"
    using assms by (auto simp: addVar_core_def returns_def split: option.splits)
  have "keeps_flags s (snd (simp_newVar True True t))" if "keeps_flags s t" for t
    by (rule keeps_flags_trans [OF that simp_newVar_flags])
  moreover have "keeps_flags s s"
    by (simp add: keeps_flags_def)
  ultimately show ?thesis
    by (rule while_option_rule [OF _ loop])
qed

lemma setFrozen_flags:
  assumes "simp_setFrozen v True s = Inr s'"
  shows "keeps_flags s s'"
proof (cases "use_simplification s")
  case True
  define h where "h = s\<lparr>sv_frozen := (sv_frozen s)[v := True]\<rparr>"
  have h: "keeps_flags s h" "use_simplification h"
    using True by (simp_all add: h_def keeps_flags_def)
  have "updateElimHeap v h = Inr s'"
    using assms True by (simp add: simp_setFrozen_def Let_def h_def)
  then have "s' = h\<lparr>elim_heap := heap_update v (elim_heap h)\<rparr> \<or> s' = h"
    using h(2) by (simp add: updateElimHeap_def split: if_splits)
  then show ?thesis
    using h(1) by (elim disjE) (simp_all add: keeps_flags_def)
next
  case False
  then show ?thesis
    using assms by (simp add: simp_setFrozen_def keeps_flags_def)
qed

lemma freeze_term_flags:
  assumes "freeze_term T tr v s = Inr s'"
  shows "keeps_flags s s'"
proof -
  obtain b where b: "(if b \<or> isFrozen T v then simp_setFrozen v True s else Inr s) = Inr s'"
    using assms unfolding freeze_term_def rbind_eq_Inr_iff by blast
  show ?thesis
  proof (cases "b \<or> isFrozen T v")
    case True
    then show ?thesis
      using b setFrozen_flags by simp
  next
    case False
    then show ?thesis
      using b by (simp add: keeps_flags_def)
  qed
qed

lemma declare_lits_Inr:
  assumes "declare_lits T (l # ls) s = Inr s'"
  obtains tr s1 s2 where "addVar_core simp_newVar (lit_var l) s = Inr s1" "freeze_term T tr (lit_var l) s1 = Inr s2"
    "declare_lits T ls s2 = Inr s'"
proof -
  obtain tr where tr: "(case addVar_core simp_newVar (lit_var l) s of Inl e \<Rightarrow> Inl e | Inr s1 \<Rightarrow>
      (case freeze_term T tr (lit_var l) s1 of Inl e \<Rightarrow> Inl e | Inr s2 \<Rightarrow> declare_lits T ls s2)) = Inr s'"
    using assms by (simp add: Let_def split: if_splits option.splits)
  then show thesis
    using that by (simp split: sum.splits)
qed

lemma declare_lits_flags: "declare_lits T ls s = Inr s' \<Longrightarrow> keeps_flags s s'"
proof (induction ls arbitrary: s)
  case (Cons l ls)
  obtain tr s1 s2 where "addVar_core simp_newVar (lit_var l) s = Inr s1" "freeze_term T tr (lit_var l) s1 = Inr s2"
      "declare_lits T ls s2 = Inr s'"
    by (rule declare_lits_Inr [OF Cons.prems])
  then show ?case
    using Cons.IH addVar_core_flags freeze_term_flags keeps_flags_trans by meson
qed (simp add: keeps_flags_def)

lemma touch_lits_ok:
  "\<forall>l \<in> set ls. knows T l \<Longrightarrow> \<exists>s'. touch_lits T cr ls s = Inr s' \<and> same_core s s' \<and> sat_ok s' = sat_ok s"
proof (induction ls arbitrary: s)
  case (Cons l ls)
  obtain tr where "varToTerm T ! lit_var l = Some tr" "getVar_of (cn_logic T) tr = Some (lit_var l)"
    using Cons.prems by (auto simp: knows_def)
  moreover define s1 where "s1 = s\<lparr>occurs := (occurs s)[lit_var l := occurs s ! lit_var l @ [cr]],
      n_occ := (n_occ s)[nat l := n_occ s ! nat l + 1], touched := (touched s)[lit_var l := True], n_touched := n_touched s + 1\<rparr>"
  moreover obtain s' where "touch_lits T cr ls s1 = Inr s'" "same_core s1 s'" "sat_ok s' = sat_ok s1"
    using Cons.IH [of s1] Cons.prems by auto
  ultimately show ?case
    by (simp add: same_core_def Let_def)
qed (simp add: same_core_def)

lemma idle_last_clause:
  assumes "idle s" "sat_ok s" "cr \<in> set (clauses s)"
  shows "\<exists>c. clause_at s cr = Inr c \<and> lits c = clause_of s cr"
  by (rule db_invD(3) [OF sat_invD(2) [OF idle_sat_inv(1) [OF assms(1,2)]]]) (use assms(3) in \<open>simp add: attached_def\<close>)

text \<open>What a caller of the entry point relies on.\<close>

definition smt_added :: "lit list \<Rightarrow> simp_solver \<Rightarrow> bool \<times> simp_solver \<Rightarrow> bool" where
  "smt_added c s r \<longleftrightarrow> (case r of (b, s') \<Rightarrow> b = sat_ok s' \<and> idle s' \<and>
     (clauses s' = clauses s \<or> (\<exists>cr. clauses s' = clauses s @ [cr] \<and> set (clause_of s' cr) \<subseteq> set c)) \<and>
     (\<forall>\<alpha>. sat_models s' \<alpha> \<longleftrightarrow> sat_models s \<alpha> \<and> csat \<alpha> c))"

lemma simp_fields_same:
  fixes s :: simp_solver
  shows "same_core s (s\<lparr>subsumption_queue := q\<rparr>)"
  by (simp add: same_core_def)

lemma added_clause_lits:
  assumes "idle s'" "sat_ok s'" "clauses s' = clauses s @ [cr]" "set (clause_of s' cr) \<subseteq> set c"
  shows "\<exists>c'. clause_at s' (last (clauses s')) = Inr c' \<and> set (lits c') \<subseteq> set c"
  using idle_last_clause [OF assms(1,2), of cr] assms(3,4) by auto

text \<open>The part after the check for implied clauses.\<close>

lemma add_and_touch:
  assumes "idle s" "\<forall>l \<in> set c. knows T l" "\<forall>l \<in> set c. lit_ok (Sat_Solver.nVars s) l"
  shows "\<exists>r. rbind (addOriginalClause_core c s) (\<lambda>(b, _, s3).
         if \<not> b then Inr (False, s3)
         else if use_simplification s3 \<and> length (clauses s3) = length (clauses s) + 1
         then let cr = last (clauses s3) in
           rbind (clause_at s3 cr) (\<lambda>c'. rbind (touch_lits T cr (lits c') (s3\<lparr>subsumption_queue := subsumption_queue s3 @ [cr]\<rparr>))
             (\<lambda>s4. Inr (True, s4)))
         else Inr (True, s3)) = Inr r \<and> smt_added c s r"
proof -
  obtain refs s' where a: "addOriginalClause_core c s = Inr (sat_ok s', refs, s')" "idle s'"
      "clauses s' = clauses s \<or> (\<exists>cr. clauses s' = clauses s @ [cr] \<and> set (clause_of s' cr) \<subseteq> set c)"
      "\<forall>\<alpha>. sat_models s' \<alpha> \<longleftrightarrow> sat_models s \<alpha> \<and> csat \<alpha> c"
    using addOriginalClause_ok [OF assms(1,3)] unfolding clause_added_def by blast
  show ?thesis
  proof (cases "sat_ok s' \<and> use_simplification s' \<and> length (clauses s') = length (clauses s) + 1")
    case False
    then show ?thesis
      using a by (auto simp: smt_added_def split: prod.split)
  next
    case True
    then obtain cr where "clauses s' = clauses s @ [cr]" "set (clause_of s' cr) \<subseteq> set c"
      using a(3) by auto
    then obtain c' where c': "clause_at s' (last (clauses s')) = Inr c'" "set (lits c') \<subseteq> set c"
      using added_clause_lits [OF a(2)] True by blast
    let ?q = "s'\<lparr>subsumption_queue := subsumption_queue s' @ [last (clauses s')]\<rparr>"
    have "\<forall>l \<in> set (lits c'). knows T l"
      using c'(2) assms(2) by blast
    then obtain s4 where t: "touch_lits T (last (clauses s')) (lits c') ?q = Inr s4" "same_core ?q s4" "sat_ok s4 = sat_ok ?q"
      using touch_lits_ok by blast
    have c: "same_core s' s4" "sat_ok s4 = sat_ok s'" "clauses s4 = clauses s'"
      using t(2,3) by (simp_all add: same_core_def)
    then have "idle s4" "sat_models s4 = sat_models s'" "sat_ok s4" "clause_of s4 = clause_of s'"
      using a(2) True same_core_fields(2) [OF c(1)] by (simp_all add: same_core_idle same_core_models(1))
    then show ?thesis
      using a True c'(1) t(1) c(3) by (simp add: smt_added_def Let_def)
  qed
qed

lemma addOriginalSMTClause_ok:
  assumes "idle s" "\<forall>l \<in> set c. knows T l" "sat_ok s \<or> \<not> use_rcheck s"
  shows "\<exists>r. addOriginalSMTClause T c s = Inr r \<and> smt_added c s r"
proof -
  obtain s1 where s1: "declare_lits T c s = Inr s1" "idle s1" "sat_models s1 = sat_models s"
      "\<forall>l \<in> set c. lit_ok (Sat_Solver.nVars s1) l"
    using declare_lits_ok [OF assms(1,2)] by blast
  have fl: "sat_ok s1 \<or> \<not> use_rcheck s1" "clauses s1 = clauses s"
    using assms(3) declare_lits_flags [OF s1(1)] by (simp_all add: keeps_flags_def)
  then have "\<exists>b s2. (if use_rcheck s1 then implied c s1 else Inr (False, s1)) = Inr (b, s2) \<and> idle s2 \<and>
      Sat_Solver.nVars s2 = Sat_Solver.nVars s1 \<and> sat_models s2 = sat_models s \<and> clauses s2 = clauses s1 \<and>
      (b \<longrightarrow> sat_ok s2 \<and> (\<forall>\<alpha>. sat_models s \<alpha> \<longrightarrow> csat \<alpha> c))"
    using implied_ok [OF s1(2) _ s1(4)] s1(2,3) by (cases "use_rcheck s1") (auto simp: restored_def)
  then obtain b s2 where s2: "(if use_rcheck s1 then implied c s1 else Inr (False, s1)) = Inr (b, s2)" "idle s2"
      "Sat_Solver.nVars s2 = Sat_Solver.nVars s1" "sat_models s2 = sat_models s" "clauses s2 = clauses s"
      "b \<longrightarrow> sat_ok s2 \<and> (\<forall>\<alpha>. sat_models s \<alpha> \<longrightarrow> csat \<alpha> c)"
    using fl(2) by auto
  show ?thesis
  proof (cases b)
    case True
    then show ?thesis
      using s1(1) s2 by (auto simp: addOriginalSMTClause_def smt_added_def)
  next
    case False
    have "\<forall>l \<in> set c. lit_ok (Sat_Solver.nVars s2) l"
      using s1(4) s2(3) by simp
    then obtain r where r: "addOriginalSMTClause T c s = Inr r" "smt_added c s2 r"
      using add_and_touch [OF s2(2) assms(2)] s1(1) s2(1) False by (auto simp: addOriginalSMTClause_def Let_def)
    moreover have "smt_added c s r"
      using r(2) unfolding smt_added_def s2(4,5) .
    ultimately show ?thesis
      by blast
  qed
qed

end
