(* ===== verification/Sat_Subsume.thy ===== *)
theory Sat_Subsume
  imports Sat_Solver
begin

text \<open>
  The subsumption test of \<open>Clause\<close> and the removal of a literal: what the three answers mean, and
  that the filter on abstractions never loses an answer.
\<close>

section \<open>The abstraction\<close>

lemma abstraction_bit:
  "bit (foldl (\<lambda>a l. a OR push_bit (lit_var l mod 32) 1) a ls) n \<longleftrightarrow> bit a n \<or> n < 32 \<and> (\<exists>l \<in> set ls. lit_var l mod 32 = n)"
  for a :: "32 word"
proof (induction ls arbitrary: a)
  case (Cons l ls)
  have "bit (push_bit (lit_var l mod 32) (1 :: 32 word)) n \<longleftrightarrow> lit_var l mod 32 = n"
    by (auto simp: bit_simps)
  then show ?case
    unfolding foldl_Cons Cons.IH bit_or_iff by auto
qed simp

lemma abstraction_of_bit: "bit (abstraction_of ls) n \<longleftrightarrow> (\<exists>l \<in> set ls. lit_var l mod 32 = n)"
  unfolding abstraction_of_def abstraction_bit by auto

text \<open>No false alarm: clauses whose variables are contained pass the filter.\<close>

lemma abstraction_filter:
  assumes "lit_var ` set c \<subseteq> lit_var ` set d"
  shows "abstraction_of c AND NOT (abstraction_of d) = 0"
proof (rule bit_word_eqI)
  fix n assume "n < LENGTH(32)"
  have "\<exists>l \<in> set d. lit_var l mod 32 = n" if "l \<in> set c" "lit_var l mod 32 = n" for l
  proof -
    have "lit_var l \<in> lit_var ` set d"
      using assms that(1) by auto
    then show ?thesis
      using that(2) by auto
  qed
  then show "bit (abstraction_of c AND NOT (abstraction_of d)) n = bit 0 n"
    unfolding bit_and_iff bit_not_iff abstraction_of_bit bit_0_eq by auto
qed

section \<open>The search\<close>

lemma lit_answers: "0 \<le> p \<Longrightarrow> p \<noteq> lit_Undef \<and> p \<noteq> lit_Error"
  by (auto simp: lit_Undef_def lit_Error_def)

text \<open>One literal: found as it is, or found complemented for the first time.\<close>

lemma subsumes_lit_cases:
  assumes "subsumes_lit p ds ret = (found, ret')"
  shows "found \<longleftrightarrow> p \<in> set ds \<or> ret = lit_Undef \<and> lit_not p \<in> set ds"
    "found \<Longrightarrow> ret' = ret \<and> p \<in> set ds \<or> ret = lit_Undef \<and> ret' = p \<and> lit_not p \<in> set ds"
proof -
  have "fst (subsumes_lit p ds ret) \<longleftrightarrow> p \<in> set ds \<or> ret = lit_Undef \<and> lit_not p \<in> set ds"
    by (induction p ds ret rule: subsumes_lit.induct) auto
  then show "found \<longleftrightarrow> p \<in> set ds \<or> ret = lit_Undef \<and> lit_not p \<in> set ds"
    using assms by simp
  have "fst (subsumes_lit p ds ret) \<longrightarrow> snd (subsumes_lit p ds ret) = ret \<and> p \<in> set ds \<or>
      ret = lit_Undef \<and> snd (subsumes_lit p ds ret) = p \<and> lit_not p \<in> set ds"
    by (induction p ds ret rule: subsumes_lit.induct) auto
  then show "found \<Longrightarrow> ret' = ret \<and> p \<in> set ds \<or> ret = lit_Undef \<and> ret' = p \<and> lit_not p \<in> set ds"
    using assms by simp
qed

text \<open>What the result of the loop says, with the set of the literals that are compared.\<close>

definition covered :: "lit set \<Rightarrow> lit list \<Rightarrow> lit \<Rightarrow> bool" where
  "covered cs ds ret \<longleftrightarrow> cs - {ret} \<subseteq> set ds \<and> (ret \<noteq> lit_Undef \<longrightarrow> ret \<in> cs \<and> lit_not ret \<in> set ds)"

lemma subsumes_loop_sound:
  "subsumes_loop ps ds ret = r \<Longrightarrow> covered cs ds ret \<Longrightarrow> \<forall>p \<in> cs \<union> set ps. 0 \<le> p \<Longrightarrow> r \<noteq> lit_Error \<Longrightarrow>
   covered (cs \<union> set ps) ds r"
proof (induction ps arbitrary: ret cs)
  case (Cons p ps)
  obtain found ret' where f: "subsumes_lit p ds ret = (found, ret')"
    by (rule prod.exhaust)
  have found: "found"
    using Cons.prems(1,4) f by (auto split: if_splits)
  have "covered (insert p cs) ds ret'"
    using subsumes_lit_cases(2) [OF f found] Cons.prems(2,3) lit_answers unfolding covered_def by auto
  then have "covered (insert p cs \<union> set ps) ds r"
    using Cons.IH [of ret' "insert p cs"] Cons.prems(1,3,4) f found by auto
  then show ?case
    by simp
qed simp

lemma subsumes_loop_error:
  "subsumes_loop ps ds ret = lit_Error \<Longrightarrow> ret \<noteq> lit_Error \<Longrightarrow> \<forall>p \<in> set ps. 0 \<le> p \<Longrightarrow>
   \<exists>p \<in> set ps. p \<notin> set ds"
proof (induction ps arbitrary: ret)
  case (Cons p ps)
  obtain found ret' where f: "subsumes_lit p ds ret = (found, ret')"
    by (rule prod.exhaust)
  show ?case
  proof (cases found)
    case True
    have "ret' \<noteq> lit_Error"
      using subsumes_lit_cases(2) [OF f True] Cons.prems(2,3) lit_answers by auto
    then show ?thesis
      using Cons.IH [of ret'] Cons.prems(1,3) f True by auto
  next
    case False
    then show ?thesis
      using subsumes_lit_cases(1) [OF f] by auto
  qed
qed simp

lemma subsumes_loop_Undef:
  "set ps \<subseteq> set ds \<Longrightarrow> \<forall>p \<in> set ps. lit_not p \<notin> set ds \<Longrightarrow> subsumes_loop ps ds lit_Undef = lit_Undef"
proof (induction ps)
  case (Cons p ps)
  obtain found ret' where f: "subsumes_lit p ds lit_Undef = (found, ret')"
    by (rule prod.exhaust)
  moreover have "found" "ret' = lit_Undef"
    using subsumes_lit_cases(1,2) [OF f] Cons.prems by auto
  ultimately show ?case
    using Cons by simp
qed simp

text \<open>The search finds the only literal whose complement is in the other clause.\<close>

lemma subsumes_loop_rest:
  "set ps \<subseteq> set ds \<Longrightarrow> \<forall>q \<in> set ps. lit_not q \<notin> set ds \<Longrightarrow> subsumes_loop ps ds ret = ret"
proof (induction ps)
  case (Cons q ps)
  obtain found ret' where f: "subsumes_lit q ds ret = (found, ret')"
    by (rule prod.exhaust)
  moreover have "found" "ret' = ret"
    using subsumes_lit_cases(1,2) [OF f] Cons.prems by auto
  ultimately show ?case
    using Cons by simp
qed simp

lemma subsumes_loop_lit:
  assumes "\<forall>l \<in> set ds. lit_not l \<notin> set ds" "lit_not p \<in> set ds"
  shows "distinct ps \<Longrightarrow> p \<in> set ps \<Longrightarrow> set ps - {p} \<subseteq> set ds \<Longrightarrow> subsumes_loop ps ds lit_Undef = p"
proof (induction ps)
  case (Cons q ps)
  obtain found ret' where f: "subsumes_lit q ds lit_Undef = (found, ret')"
    by (rule prod.exhaust)
  have p: "p \<notin> set ds"
    using assms by auto
  show ?case
  proof (cases "q = p")
    case True
    have found: "found"
      using subsumes_lit_cases(1) [OF f] assms(2) True by simp
    moreover have "ret' = p"
      using subsumes_lit_cases(2) [OF f found] p True by simp
    moreover have "subsumes_loop ps ds p = p"
      by (rule subsumes_loop_rest) (use Cons.prems True assms(1) in auto)
    ultimately show ?thesis
      using f True by simp
  next
    case False
    then have q: "q \<in> set ds" "lit_not q \<notin> set ds"
      using Cons.prems assms(1) by auto
    have found: "found"
      using subsumes_lit_cases(1) [OF f] q(1) by simp
    moreover have "ret' = lit_Undef"
      using subsumes_lit_cases(2) [OF f found] q(2) by simp
    ultimately show ?thesis
      using Cons False f by auto
  qed
qed simp

section \<open>The test\<close>

text \<open>A clause as the simplifier has it: not learnt, with an up-to-date abstraction.\<close>

definition subsumable :: "clause \<Rightarrow> bool" where
  "subsumable c \<longleftrightarrow> \<not> c_learnt c \<and> c_extra c \<and> c_abs c = abstraction_of (lits c) \<and>
     distinct (lits c) \<and> (\<forall>l \<in> set (lits c). 0 \<le> l \<and> lit_not l \<notin> set (lits c))"

text \<open>
  C34. The subsumption test fails no assertion, and its answer is \<open>lit_Undef\<close> exactly when
  every literal of the clause is in the other one, a literal of the clause exactly when the complement of
  that literal and all the other literals of the clause are in the other one, and \<open>lit_Error\<close>
  exactly when neither is the case; so the filters on length and abstraction never lose an answer. With a
  literal for an answer every model of both clauses satisfies the other one without that complement.
\<close>

theorem subsumes_correct:
  assumes "subsumable c" "subsumable d"
  shows "\<exists>r. subsumes c d = Inr r \<and> (r = lit_Undef \<longleftrightarrow> set (lits c) \<subseteq> set (lits d)) \<and>
    (\<forall>p \<in> set (lits c). r = p \<longleftrightarrow> lit_not p \<in> set (lits d) \<and> set (lits c) - {p} \<subseteq> set (lits d)) \<and>
    (r = lit_Error \<longleftrightarrow> \<not> set (lits c) \<subseteq> set (lits d) \<and>
      \<not> (\<exists>p \<in> set (lits c). lit_not p \<in> set (lits d) \<and> set (lits c) - {p} \<subseteq> set (lits d))) \<and>
    (r \<noteq> lit_Undef \<longrightarrow> r \<noteq> lit_Error \<longrightarrow> r \<in> set (lits c) \<and> lit_not r \<in> set (lits d) \<and>
       (\<forall>\<alpha>. csat \<alpha> (lits c) \<longrightarrow> csat \<alpha> (lits d) \<longrightarrow> (\<exists>l \<in> set (lits d) - {lit_not r}. lsat \<alpha> l)))"
proof -
  let ?c = "set (lits c)" and ?d = "set (lits d)"
  define r where "r = (if length (lits d) < length (lits c) \<or> c_abs c AND NOT (c_abs d) \<noteq> 0 then lit_Error
    else subsumes_loop (lits c) (lits d) lit_Undef)"
  have run: "subsumes c d = Inr r"
    using assms by (simp add: subsumes_def subsumable_def r_def)
  have pos: "\<forall>p \<in> {} \<union> ?c. 0 \<le> p"
    using assms(1) by (simp add: subsumable_def)
  have cov: "covered ?c (lits d) r" if "r \<noteq> lit_Error"
    using subsumes_loop_sound [OF _ _ pos that, of "lits d" lit_Undef] that
    by (auto simp: r_def covered_def split: if_splits)
  have undef: "r = lit_Undef" if sub: "?c \<subseteq> ?d"
  proof -
    have "length (lits c) \<le> length (lits d)"
      using assms sub card_mono [OF _ sub] by (simp add: subsumable_def distinct_card)
    moreover have "c_abs c AND NOT (c_abs d) = 0"
      using assms abstraction_filter [of "lits c" "lits d"] sub by (auto simp: subsumable_def)
    moreover have "subsumes_loop (lits c) (lits d) lit_Undef = lit_Undef"
      by (rule subsumes_loop_Undef [OF sub]) (use assms(2) sub in \<open>auto simp: subsumable_def\<close>)
    ultimately show ?thesis
      by (simp add: r_def)
  qed
  have lit: "r = p" if p: "p \<in> ?c" "lit_not p \<in> ?d" "?c - {p} \<subseteq> ?d" for p
  proof -
    have n: "lit_not p \<notin> ?c"
      using assms(1) p(1) by (simp add: subsumable_def)
    have "card (insert (lit_not p) (?c - {p})) \<le> card ?d"
      by (rule card_mono) (use p in auto)
    moreover have "card (insert (lit_not p) (?c - {p})) = card ?c"
    proof -
      have "card (insert (lit_not p) (?c - {p})) = Suc (card (?c - {p}))"
        by (rule card_insert_disjoint) (use n in simp_all)
      also have "\<dots> = card ?c"
        by (rule card_Suc_Diff1) (use p(1) in simp_all)
      finally show ?thesis .
    qed
    ultimately have "length (lits c) \<le> length (lits d)"
      using assms by (simp add: subsumable_def distinct_card)
    moreover have "lit_var ` ?c \<subseteq> lit_var ` ?d"
    proof
      fix v assume "v \<in> lit_var ` ?c"
      then obtain l where l: "l \<in> ?c" "v = lit_var l"
        by blast
      show "v \<in> lit_var ` ?d"
      proof (cases "l = p")
        case True
        then show ?thesis
          using l(2) p(2) by (intro image_eqI [of _ _ "lit_not p"]) simp_all
      next
        case False
        then show ?thesis
          using l p(3) by blast
      qed
    qed
    then have "c_abs c AND NOT (c_abs d) = 0"
      using assms abstraction_filter [of "lits c" "lits d"] by (simp add: subsumable_def)
    moreover have "subsumes_loop (lits c) (lits d) lit_Undef = p"
      by (rule subsumes_loop_lit) (use assms p in \<open>auto simp: subsumable_def\<close>)
    ultimately show ?thesis
      by (simp add: r_def)
  qed
  have contained: "?c \<subseteq> ?d" if "r = lit_Undef"
  proof -
    have "?c - {r} \<subseteq> ?d" "r \<notin> ?c"
      using cov that pos by (auto simp: covered_def lit_Undef_def lit_Error_def)
    then show ?thesis
      by blast
  qed
  have model: "\<exists>l \<in> ?d - {lit_not r}. lsat \<alpha> l"
    if cv: "covered ?c (lits d) r" and m: "csat \<alpha> (lits c)" "csat \<alpha> (lits d)" and u: "r \<noteq> lit_Undef" for \<alpha>
  proof (cases "lsat \<alpha> r")
    case True
    obtain l where "l \<in> ?d" "lsat \<alpha> l"
      using m(2) by (auto simp: csat_def)
    then show ?thesis
      using True lsat_not [of \<alpha> r] by (metis DiffI singletonD)
  next
    case False
    then obtain l where l: "l \<in> ?c" "lsat \<alpha> l" "l \<noteq> r"
      using m(1) by (auto simp: csat_def)
    have "l \<noteq> lit_not r"
      using l(1) cv u assms(1) by (auto simp: covered_def subsumable_def)
    then show ?thesis
      using l cv by (auto simp: covered_def)
  qed
  have found: "lit_not p \<in> ?d" "?c - {p} \<subseteq> ?d" if "p \<in> ?c" "r = p" for p
  proof -
    have "r \<noteq> lit_Error" "r \<noteq> lit_Undef"
      using that pos lit_answers by auto
    then show "lit_not p \<in> ?d" "?c - {p} \<subseteq> ?d"
      using cov that(2) by (auto simp: covered_def)
  qed
  have answer: "r = lit_Undef \<or> r \<in> ?c" if "r \<noteq> lit_Error"
    using cov [OF that] by (auto simp: covered_def)
  have no_error: "r \<noteq> lit_Error" if "p \<in> ?c" "lit_not p \<in> ?d" "?c - {p} \<subseteq> ?d" for p
    using lit [OF that] that(1) pos lit_answers by auto
  show ?thesis
  proof (rule exI [of _ r], intro conjI)
    show "r = lit_Undef \<longleftrightarrow> ?c \<subseteq> ?d"
      using undef contained by blast
    show "\<forall>p \<in> ?c. r = p \<longleftrightarrow> lit_not p \<in> ?d \<and> ?c - {p} \<subseteq> ?d"
      using lit found by blast
    show "r = lit_Error \<longleftrightarrow> \<not> ?c \<subseteq> ?d \<and> \<not> (\<exists>p \<in> ?c. lit_not p \<in> ?d \<and> ?c - {p} \<subseteq> ?d)"
    proof
      assume "r = lit_Error"
      moreover have "lit_Error \<noteq> lit_Undef"
        by (simp add: lit_Error_def lit_Undef_def)
      ultimately show "\<not> ?c \<subseteq> ?d \<and> \<not> (\<exists>p \<in> ?c. lit_not p \<in> ?d \<and> ?c - {p} \<subseteq> ?d)"
        using undef no_error by metis
    next
      assume "\<not> ?c \<subseteq> ?d \<and> \<not> (\<exists>p \<in> ?c. lit_not p \<in> ?d \<and> ?c - {p} \<subseteq> ?d)"
      then show "r = lit_Error"
        using answer contained found by blast
    qed
    show "r \<noteq> lit_Undef \<longrightarrow> r \<noteq> lit_Error \<longrightarrow> r \<in> ?c \<and> lit_not r \<in> ?d \<and>
        (\<forall>\<alpha>. csat \<alpha> (lits c) \<longrightarrow> csat \<alpha> (lits d) \<longrightarrow> (\<exists>l \<in> ?d - {lit_not r}. lsat \<alpha> l))"
      using answer found model cov by blast
  qed (rule run)
qed

theorem subsumes_correct_witness:
  "subsumes (Clause [mkLit 0 False, mkLit 1 True] True False) (Clause [mkLit 1 True, mkLit 2 False, mkLit 0 False] True False) = Inr lit_Undef \<and>
   subsumes (Clause [mkLit 0 False, mkLit 1 True] True False) (Clause [mkLit 1 False, mkLit 2 False, mkLit 0 False] True False) = Inr (mkLit 1 True)"
proof -
  have s: "subsumable (Clause [mkLit 0 False, mkLit 1 True] True False)"
      "subsumable (Clause [mkLit 1 True, mkLit 2 False, mkLit 0 False] True False)"
      "subsumable (Clause [mkLit 1 False, mkLit 2 False, mkLit 0 False] True False)"
    by (simp_all add: subsumable_def Clause_def) (simp_all add: mkLit_def)
  have n: "lit_not (mkLit 1 True) = mkLit 1 False"
    by (simp add: mkLit_def lit_not_def)
  show ?thesis
    using subsumes_correct [OF s(1,2)] subsumes_correct [OF s(1,3)] n by (auto simp: Clause_def)
qed

section \<open>Removing a literal\<close>

lemma vec_remove_ok:
  assumes "x \<in> set xs" "P x"
  shows "\<exists>ys z zs. xs = ys @ z # zs \<and> (\<forall>y \<in> set ys. \<not> P y) \<and> P z \<and> vec_remove xs P = Inr (ys @ zs)"
proof -
  obtain ys z zs where s: "xs = ys @ z # zs" "P z" "\<forall>y \<in> set ys. \<not> P y"
    using split_list_first_prop [of xs P] assms by blast
  then have "takeWhile (\<lambda>x. \<not> P x) xs = ys"
    by (simp add: takeWhile_append2)
  then show ?thesis
    using s by (intro exI [of _ ys] exI [of _ z] exI [of _ zs]) (simp add: vec_remove_def Let_def)
qed

lemma strengthen_ok:
  assumes "subsumable c" "p \<in> set (lits c)"
  shows "\<exists>c'. strengthen p c = Inr c' \<and> subsumable c' \<and> set (lits c') = set (lits c) - {p} \<and> c_mark c' = c_mark c"
proof -
  obtain ys z zs where s: "lits c = ys @ z # zs" "\<forall>y \<in> set ys. y \<noteq> p" "z = p" "vec_remove (lits c) (\<lambda>l. l = p) = Inr (ys @ zs)"
    using vec_remove_ok [of p "lits c" "\<lambda>l. l = p"] assms(2) by auto
  let ?c = "c\<lparr>lits := ys @ zs, c_abs := abstraction_of (ys @ zs)\<rparr>"
  have "strengthen p c = Inr ?c"
    using assms(1) s(4) by (simp add: strengthen_def calcAbstraction_def subsumable_def)
  moreover have "subsumable ?c" "set (lits ?c) = set (lits c) - {p}"
    using assms(1) s(1-3) by (auto simp: subsumable_def)
  ultimately show ?thesis
    by (intro exI [of _ ?c]) simp
qed

end
