(* ===== verification/Sat_Props.thy ===== *)
theory Sat_Props
  imports Simp_Add Sat_Subsume
begin

text \<open>
  The properties of the SAT solver: unit propagation, backtracking, new variables and new clauses.
\<close>

section \<open>States for the witnesses\<close>

text \<open>A solver with two variables, and the same with a clause of both.\<close>

definition two_vars :: sat_solver where
  "two_vars = snd (newVar True True (snd (newVar True True (CoreSMTSolver_ctor True 0 (\<lambda>_. False)))))"

definition one_clause :: sat_solver where
  "one_clause = (case addOriginalClause_core [mkLit 0 False, mkLit 1 False] two_vars of
     Inl _ \<Rightarrow> two_vars | Inr (_, _, s) \<Rightarrow> s)"

lemma two_vars_idle: "idle two_vars" "Sat_Solver.nVars two_vars = 2" "sat_models two_vars \<alpha>"
proof -
  note c = ctor_idle [of True 0 "\<lambda>_. False"]
  note n1 = newVar_idle [OF c(1), of True True]
  note n2 = newVar_idle [OF n1(1), of True True]
  show "idle two_vars" "Sat_Solver.nVars two_vars = 2" "sat_models two_vars \<alpha>"
    using n1 n2 c(2) by (simp_all add: two_vars_def) (simp add: Sat_Solver.nVars_def CoreSMTSolver_ctor_def)
qed

lemma one_clause_idle: "idle one_clause" "Sat_Solver.nVars one_clause = 2" "sat_ok one_clause"
  "sat_models one_clause \<alpha> \<longleftrightarrow> csat \<alpha> [mkLit 0 False, mkLit 1 False]"
proof -
  let ?c = "[mkLit 0 False, mkLit 1 False]"
  obtain refs s where s: "addOriginalClause_core ?c two_vars = Inr (sat_ok s, refs, s)" "idle s"
      "Sat_Solver.nVars s = 2" "\<And>\<alpha>. sat_models s \<alpha> \<longleftrightarrow> csat \<alpha> ?c"
    using addOriginalClause_ok [OF two_vars_idle(1), of ?c] two_vars_idle(2,3) by (auto simp: clause_added_def)
  then have "one_clause = s"
    by (simp add: one_clause_def)
  moreover have "sat_models s (\<lambda>_. True)"
    using s(4) by (simp add: csat_def)
  then have "sat_ok s"
    by (simp add: sat_models_def)
  ultimately show "idle one_clause" "Sat_Solver.nVars one_clause = 2" "sat_ok one_clause"
      "sat_models one_clause \<alpha> \<longleftrightarrow> csat \<alpha> ?c"
    using s by simp_all
qed

lemmas one_clause_inv = idle_sat_inv [OF one_clause_idle(1,3)]

lemma one_clause_open: "mkLit 0 b \<notin> set (trail one_clause)"
proof
  assume "mkLit 0 b \<in> set (trail one_clause)"
  moreover have "level0 one_clause = trail one_clause"
    using one_clause_inv(2) by (simp add: level0_def decisionLevel_def)
  moreover have "sat_models one_clause (\<lambda>v. v = 0 \<longrightarrow> b)"
    unfolding one_clause_idle(4) by (simp add: csat_def)
  ultimately have "lsat (\<lambda>v. v = 0 \<longrightarrow> b) (mkLit 0 b)"
    unfolding sat_models_def by (simp del: lsat_mkLit)
  then show False
    by simp
qed

section \<open>Propagation\<close>

text \<open>
  C24. Unit propagation returns and fails no assertion. It only extends the trail, on the current level,
  keeps the clauses up to the order of their literals, and what it adds follows from the clauses and the
  trail. It returns no conflict exactly in a state in which every clause is true or has two literals that are
  not assigned, or else a clause all of whose literals are false; the invariant holds in both cases.
\<close>

theorem propagate_correct:
  assumes "sat_inv (qhead s) s"
  shows "\<exists>r s'. propagate s = Inr (r, s') \<and> sat_inv (qhead s) s' \<and> qhead s' = length (trail s') \<and>
    (\<exists>new. trail s' = trail s @ new) \<and> trail_lim s' = trail_lim s \<and>
    clauses s' = clauses s \<and> learnts s' = learnts s \<and> (\<forall>cr. set (clause_of s' cr) = set (clause_of s cr)) \<and>
    (\<forall>\<alpha>. db_sat \<alpha> s \<longrightarrow> trail_sat \<alpha> s \<longrightarrow> trail_sat \<alpha> s') \<and>
    (r = CRef_Undef \<and> sat_inv (length (trail s')) s' \<and> (\<forall>cr \<in> attached s'. settled s' cr) \<or> conflict s' r)"
proof -
  obtain r s' where run: "propagate s = Inr (r, s')" "prop_ext s s'" "qhead s' = length (trail s')"
    and end_cases: "r = CRef_Undef \<and> sat_inv (length (trail s')) s' \<or> conflict s' r \<and> sat_inv (qhead s) s'"
    by (rule propagate_ok [OF assms])
  note f = prop_ext_fields [OF run(2)]
  have low: "sat_inv (qhead s) s'" if "sat_inv (length (trail s')) s'"
  proof -
    have "qhead s \<le> length (trail s')"
      using f(10) sat_invD(1) [OF assms] by (auto simp: trail_inv_def)
    moreover have "\<forall>x \<in> set (trail_lim s'). x \<le> qhead s"
      using f(2) sat_invD(8) [OF assms] by simp
    ultimately show ?thesis
      using that impl_ok_le unfolding sat_inv_def by blast
  qed
  have inv: "sat_inv (qhead s) s'"
    using end_cases low by blast
  have fin: "r = CRef_Undef \<and> sat_inv (length (trail s')) s' \<and> (\<forall>cr \<in> attached s'. settled s' cr) \<or> conflict s' r"
    using end_cases all_settled by blast
  show ?thesis
    using run(1,3) inv fin f(2-4,8,10,12) by blast
qed

theorem propagate_correct_witness:
  "\<exists>r s'. propagate (enqueued (mkLit 0 True) CRef_Undef (newDecisionLevel one_clause)) = Inr (r, s') \<and> qhead s' = length (trail s')"
proof -
  let ?s = "newDecisionLevel one_clause"
  have inv: "sat_inv (length (trail one_clause)) ?s"
    using newDecisionLevel_ok [of one_clause] one_clause_inv(1,4) by simp
  have "lit_ok (Sat_Solver.nVars ?s) (mkLit 0 True)" "trail ?s = trail one_clause"
    using one_clause_idle(2) by (simp_all add: newDecisionLevel_def Sat_Solver.nVars_def)
  then have "sat_inv (length (trail one_clause)) (enqueued (mkLit 0 True) CRef_Undef ?s)"
    using enqueued_sat_inv [OF inv, of "mkLit 0 True"] one_clause_open by simp
  then have "sat_inv (qhead (enqueued (mkLit 0 True) CRef_Undef ?s)) (enqueued (mkLit 0 True) CRef_Undef ?s)"
    using one_clause_inv(4) by (simp add: newDecisionLevel_def)
  then show ?thesis
    using propagate_correct by blast
qed

section \<open>Backtracking\<close>

lemma take_filter:
  "(\<And>i. i < length xs \<Longrightarrow> P (xs ! i) \<longleftrightarrow> i < k) \<Longrightarrow> take k xs = filter P xs"
proof (induction xs arbitrary: k)
  case (Cons x xs)
  show ?case
  proof (cases k)
    case 0
    then have "\<not> P y" if "y \<in> set (x # xs)" for y
      using Cons.prems that by (metis in_set_conv_nth not_less_zero)
    then show ?thesis
      using 0 by (simp add: filter_empty_conv)
  next
    case (Suc m)
    then have "take m xs = filter P xs"
      using Cons.prems by (intro Cons.IH) (metis Suc_less_eq length_Cons nth_Cons_Suc)
    moreover have "P x"
      using Cons.prems [of 0] Suc by simp
    ultimately show ?thesis
      using Suc by simp
  qed
qed simp

text \<open>
  C26. Backtracking to a lower level takes off exactly the literals of the levels above it, leaves the clauses
  alone and keeps the invariant, whatever was propagated or not above that level; the queue then is empty.
\<close>

theorem cancelUntil_correct:
  assumes "sat_inv m s" and "lev < decisionLevel s"
  shows "decisionLevel (cancelUntil lev s) = lev \<and>
    trail (cancelUntil lev s) = filter (\<lambda>p. level s (lit_var p) \<le> lev) (trail s) \<and>
    qhead (cancelUntil lev s) = length (trail (cancelUntil lev s)) \<and>
    sat_inv (length (trail (cancelUntil lev s))) (cancelUntil lev s) \<and>
    clauses (cancelUntil lev s) = clauses s \<and> learnts (cancelUntil lev s) = learnts s \<and>
    clause_of (cancelUntil lev s) = clause_of s"
proof -
  note d = sat_invD [OF assms(1)] and f = cancelUntil_fields [OF assms(2)]
  let ?k = "trail_lim s ! lev"
  have k: "?k \<le> length (trail s)"
    using d(1) assms(2) by (simp add: trail_inv_def decisionLevel_def)
  have "take ?k (trail s) = filter (\<lambda>p. level s (lit_var p) \<le> lev) (trail s)"
  proof (rule take_filter)
    show "level s (lit_var (trail s ! i)) \<le> lev \<longleftrightarrow> i < ?k" if "i < length (trail s)" for i
      by (rule lim_level [OF d(1) assms(2) that])
  qed
  moreover have "qhead (cancelUntil lev s) = length (trail (cancelUntil lev s))"
    using k by (simp add: f)
  moreover have "sat_inv (qhead (cancelUntil lev s)) (cancelUntil lev s)"
    by (rule cancelUntil_ok [OF assms])
  ultimately show ?thesis
    using cancelUntil_same(2) [OF assms(2)] by (simp add: f)
qed

theorem cancelUntil_correct_witness:
  "trail (cancelUntil 0 (newDecisionLevel one_clause)) =
     filter (\<lambda>p. level (newDecisionLevel one_clause) (lit_var p) \<le> 0) (trail one_clause)"
proof -
  have "sat_inv (length (trail one_clause)) (newDecisionLevel one_clause)"
    using newDecisionLevel_ok [of one_clause] one_clause_inv(1,4) by simp
  moreover have "0 < decisionLevel (newDecisionLevel one_clause)"
    by (simp add: decisionLevel_def newDecisionLevel_def)
  ultimately show ?thesis
    using cancelUntil_correct [of _ "newDecisionLevel one_clause" 0] by (simp add: newDecisionLevel_def)
qed

section \<open>Clauses and variables\<close>

text \<open>
  C25. Adding a clause to a solver at rest fails no assertion, returns the state of the solver and leaves it
  at rest; the models afterwards are those before that satisfy the clause, so that the answer false means that
  there are none. At most one clause is stored, of literals of the clause that was given.
\<close>

theorem addOriginalClause_correct:
  assumes "idle s" and "\<forall>l \<in> set c. lit_ok (Sat_Solver.nVars s) l"
  shows "\<exists>refs s'. addOriginalClause_core c s = Inr (sat_ok s', refs, s') \<and> idle s' \<and> Sat_Solver.nVars s' = Sat_Solver.nVars s \<and>
    (clauses s' = clauses s \<or> (\<exists>cr. clauses s' = clauses s @ [cr] \<and> set (clause_of s' cr) \<subseteq> set c)) \<and>
    (\<forall>\<alpha>. sat_models s' \<alpha> \<longleftrightarrow> sat_models s \<alpha> \<and> csat \<alpha> c) \<and>
    (\<not> sat_ok s' \<longrightarrow> (\<forall>\<alpha>. \<not> (sat_models s \<alpha> \<and> csat \<alpha> c)))"
proof -
  obtain refs s' where "addOriginalClause_core c s = Inr (sat_ok s', refs, s')" "idle s'" "Sat_Solver.nVars s' = Sat_Solver.nVars s"
      "clauses s' = clauses s \<or> (\<exists>cr. clauses s' = clauses s @ [cr] \<and> set (clause_of s' cr) \<subseteq> set c)"
      "\<forall>\<alpha>. sat_models s' \<alpha> \<longleftrightarrow> sat_models s \<alpha> \<and> csat \<alpha> c"
    using addOriginalClause_ok [OF assms] unfolding clause_added_def by blast
  moreover have "\<not> sat_models s' \<alpha>" if "\<not> sat_ok s'" for \<alpha>
    using that by (simp add: sat_models_def)
  ultimately show ?thesis
    by metis
qed

theorem addOriginalClause_correct_witness:
  "\<exists>refs s'. addOriginalClause_core [mkLit 1 True, mkLit 0 False, mkLit 1 True] two_vars = Inr (sat_ok s', refs, s') \<and> idle s'"
  using addOriginalClause_correct [OF two_vars_idle(1), of "[mkLit 1 True, mkLit 0 False, mkLit 1 True]"] two_vars_idle(2) by auto

text \<open>
  Declaring a variable of \<open>SimpSMTSolver\<close> makes all variables up to it available, by a loop
  that ends, and changes neither the models nor the invariant.
\<close>

theorem addVar_correct:
  assumes "idle s"
  shows "\<exists>s'. addVar_core simp_newVar v s = Inr s' \<and> idle s' \<and>
    Sat_Solver.nVars s' = max (Sat_Solver.nVars s) (Suc v) \<and> sat_models s' = sat_models s"
  by (rule addVar_core_ok [OF simp_newVar_declares assms])

theorem addVar_correct_witness:
  "\<exists>s'. addVar_core simp_newVar 5 (SimpSMTSolver_ctor True True 0 (\<lambda>_. False)) = Inr s' \<and> idle s'"
  using addVar_correct [OF simp_ctor_idle(1)] by blast

text \<open>
  C35. The check for implied clauses fails no assertion, answers true only for a clause that all models
  satisfy, and gives back a state at rest at level 0 with the same models, the same trail, the same clauses
  and learnt clauses up to the order of their literals, and the same variables. The saved phases and the
  order of the heap may have changed.
\<close>

theorem implied_correct:
  assumes "idle s" and "sat_ok s" and "\<forall>l \<in> set c. lit_ok (Sat_Solver.nVars s) l"
  shows "\<exists>b s'. implied c s = Inr (b, s') \<and> idle s' \<and> sat_ok s' \<and> sat_models s' = sat_models s \<and>
    clauses s' = clauses s \<and> learnts s' = learnts s \<and> trail s' = trail s \<and> trail_lim s' = [] \<and>
    qhead s' = length (trail s) \<and> Sat_Solver.nVars s' = Sat_Solver.nVars s \<and>
    (\<forall>cr. set (clause_of s' cr) = set (clause_of s cr)) \<and>
    (b \<longrightarrow> (\<forall>\<alpha>. sat_models s \<alpha> \<longrightarrow> csat \<alpha> c))"
  using implied_ok [OF assms] assms(2) unfolding restored_def by metis

theorem implied_correct_witness:
  "\<exists>b s'. implied [mkLit 0 False, mkLit 1 False] one_clause = Inr (b, s') \<and> idle s' \<and> trail s' = trail one_clause"
  using implied_correct [OF one_clause_idle(1,3), of "[mkLit 0 False, mkLit 1 False]"] one_clause_idle(2) by auto

end
