(* ===== verification/Sat_Analyze.thy ===== *)
theory Sat_Analyze
  imports Sat_State
begin

text \<open>
  Conflict analysis: \<open>analyze\<close>, \<open>litRedundant\<close>, \<open>analyzeFinal\<close> and the learning of
  a clause in the loop of \<open>search\<close> (\<open>src/src/smtsolvers/CoreSMTSolver.C\<close>, without
  \<open>PRODUCE_PROOF\<close>). The reason of a theory deduction comes from the theory handler; its answer is the
  argument \<open>R\<close> of the definitions. Activities and statistics are left out.
\<close>

record sat_config =
  ccmin_mode :: int
  sat_minimize_conflicts :: int
  sat_learn_up_to_size :: int
  sat_temporary_learn :: bool
  is_incremental :: bool

section \<open>Backtracking below a variable\<close>

text \<open>The position of a variable on the trail, from the top; none is a read below the vector.\<close>

definition trail_position :: "nat \<Rightarrow> 'a sat_solver_scheme \<Rightarrow> nat result" where
  "trail_position v s = (case List.find (\<lambda>c. lit_var (trail s ! c) = v) (rev [0 ..< length (trail s)]) of
     None \<Rightarrow> Inl Uninitialised_Read | Some c \<Rightarrow> Inr c)"

definition unassign :: "nat \<Rightarrow> 'a sat_solver_scheme \<Rightarrow> 'a sat_solver_scheme" where
  "unassign x s = insertVarOrder x (s\<lparr>assigns := (assigns s)[x := l_Undef]\<rparr>)"

definition cancelUntilVar :: "nat \<Rightarrow> 'a sat_solver_scheme \<Rightarrow> 'a sat_solver_scheme result" where
  "cancelUntilVar v s = rbind (trail_position v s) (\<lambda>c.
     let s1 = foldl (\<lambda>s i. unassign (lit_var (trail s ! i)) s) s (rev [c ..< length (trail s)]);
         s2 = s1\<lparr>trail := take c (trail s1), qhead := c\<rparr>
     in if level s2 v < decisionLevel s2
        then require (0 < c) (let lev = level s2 (lit_var (trail s2 ! (c - 1))) in
          require (lev < length (trail_lim s2)) (Inr (s2\<lparr>trail_lim := take lev ((trail_lim s2)[lev := c])\<rparr>)))
        else Inr s2)"

text \<open>The temporary variant: the state during the call of the theory handler, and the literals to restore.\<close>

definition cancelUntilVarTempInit :: "nat \<Rightarrow> 'a sat_solver_scheme \<Rightarrow> ((lit \<times> lbool) list \<times> 'a sat_solver_scheme) result" where
  "cancelUntilVarTempInit v s = rbind (trail_position v s) (\<lambda>c.
     let ps = rev (drop c (trail s)) in
     Inr (map (\<lambda>p. (p, assigns s ! lit_var p)) ps,
          s\<lparr>assigns := foldl (\<lambda>a p. a[lit_var p := l_Undef]) (assigns s) ps, trail := take c (trail s)\<rparr>))"

definition cancelUntilVarTempDone :: "(lit \<times> lbool) list \<Rightarrow> 'a sat_solver_scheme \<Rightarrow> 'a sat_solver_scheme" where
  "cancelUntilVarTempDone saved s =
     foldl (\<lambda>s (p, b). s\<lparr>assigns := (assigns s)[lit_var p := b], trail := trail s @ [p]\<rparr>) s (rev saved)"

section \<open>Reasons of theory deductions\<close>

text \<open>The clause for a theory deduction that \<open>analyze\<close> asks for, on the cleanup stack or learnt.\<close>

definition theory_reason ::
  "sat_config \<Rightarrow> (lit \<Rightarrow> lit list) \<Rightarrow> lit \<Rightarrow> nat list \<Rightarrow> 'a sat_solver_scheme \<Rightarrow> (nat list \<times> 'a sat_solver_scheme) result" where
  "theory_reason cfg R p cleanup s = require (is_true s p) (rbind (cancelUntilVar (lit_var p) s) (\<lambda>s1.
     let r = R p in require (r \<noteq> [])
       (rbind (if sat_learn_up_to_size cfg < int (length r)
               then let (ctr, a) = ca_alloc r False (ca s1) in Inr (ctr, cleanup @ [ctr], s1\<lparr>ca := a\<rparr>)
               else let (ctr, a) = ca_alloc r (sat_temporary_learn cfg) (ca s1) in
                 rbind (attachClause ctr (s1\<lparr>ca := a, learnts := learnts s1 @ [ctr]\<rparr>)) (\<lambda>s2.
                   Inr (ctr, cleanup, s2\<lparr>undo_stack := undo_stack s2 @ [NEWLEARNT ctr]\<rparr>)))
          (\<lambda>(ctr, cleanup', s2).
            Inr (cleanup', s2\<lparr>vardata := (vardata s2)[lit_var p := (CRef ctr, level s2 (lit_var p))]\<rparr>)))))"

text \<open>The same in \<open>litRedundant\<close>, which restores the trail before it stores the clause.\<close>

definition redundant_reason ::
  "sat_config \<Rightarrow> (lit \<Rightarrow> lit list) \<Rightarrow> lit \<Rightarrow> 'a sat_solver_scheme \<Rightarrow> (nat \<times> 'a sat_solver_scheme) result" where
  "redundant_reason cfg R p s = rbind (cancelUntilVarTempInit (lit_var p) s) (\<lambda>(saved, s0).
     let r = R p; s1 = cancelUntilVarTempDone saved s0 in
     rbind (if sat_learn_up_to_size cfg < int (length r)
            then let (ct, a) = ca_alloc r False (ca s1) in Inr (ct, s1\<lparr>ca := a\<rparr>)
            else let (ct, a) = ca_alloc r (sat_temporary_learn cfg) (ca s1);
                   s2 = s1\<lparr>ca := a, learnts := learnts s1 @ [ct]\<rparr> in
              rbind (attachClause ct (if is_incremental cfg then s2\<lparr>undo_stack := undo_stack s2 @ [NEWLEARNT ct]\<rparr> else s2))
                (\<lambda>s3. Inr (ct, s3)))
       (\<lambda>(ct, s2). Inr (ct, s2\<lparr>vardata := (vardata s2)[lit_var p := (CRef ct, level s2 (lit_var p))]\<rparr>)))"

section \<open>Redundant literals\<close>

text \<open>
  The loop over the other literals of a reason. The answer says whether all of them can be resolved away
  so far; a literal goes on the stack when its level is among those of the clause.
\<close>

fun redundant_lits ::
  "'a sat_solver_scheme \<Rightarrow> 32 word \<Rightarrow> lit list \<Rightarrow> bool list \<Rightarrow> lit list \<Rightarrow> lit list \<Rightarrow>
    bool \<times> bool list \<times> lit list \<times> lit list" where
  "redundant_lits s ab [] sn stack clr = (True, sn, stack, clr)"
| "redundant_lits s ab (p # ps) sn stack clr =
     (if \<not> sn ! lit_var p \<and> 0 < level s (lit_var p) then
        if reason s (lit_var p) \<noteq> CRef_Undef \<and> abstractLevel s (lit_var p) AND ab \<noteq> 0
        then redundant_lits s ab ps (sn[lit_var p := True]) (stack @ [p]) (clr @ [p])
        else (False, sn, stack, clr)
      else redundant_lits s ab ps sn stack clr)"

definition clear_seen :: "lit list \<Rightarrow> bool list \<Rightarrow> bool list" where
  "clear_seen ls sn = foldl (\<lambda>sn p. sn[lit_var p := False]) sn ls"

text \<open>Giving up: the literals marked since \<open>tp\<close> are unmarked.\<close>

definition give_up :: "nat \<Rightarrow> lit list \<Rightarrow> 'a sat_solver_scheme \<Rightarrow> bool \<times> lit list \<times> 'a sat_solver_scheme" where
  "give_up tp clr s = (False, take tp clr, s\<lparr>seen := clear_seen (drop tp clr) (seen s)\<rparr>)"

text \<open>
  The reason of a theory deduction is stored and recorded, but the clause that is read next is still the one
  with the reference \<open>CRef_Fake\<close>, outside the arena.
\<close>

partial_function (option) redundant_loop ::
  "sat_config \<Rightarrow> (lit \<Rightarrow> lit list) \<Rightarrow> 32 word \<Rightarrow> nat \<Rightarrow> lit list \<Rightarrow> lit list \<Rightarrow> 'a sat_solver_scheme \<Rightarrow>
    (bool \<times> lit list \<times> 'a sat_solver_scheme) result option" where
  "redundant_loop cfg R ab tp stack clr s =
     (if stack = [] then Some (Inr (True, clr, s))
      else let p = last stack; cr = reason s (lit_var p) in
        if cr = CRef_Undef then Some (Inl Assertion_Failed)
        else if 2 \<le> sat_minimize_conflicts cfg \<and> cr = CRef_Fake then
          (case redundant_reason cfg R p s of Inl e \<Rightarrow> Some (Inl e) | Inr (ct, s1) \<Rightarrow> Some (Inl Uninitialised_Read))
        else if sat_minimize_conflicts cfg \<noteq> 1 then Some (Inl Assertion_Failed)
        else (case cr of
            CRef r \<Rightarrow>
              (case clause_at s r of Inl e \<Rightarrow> Some (Inl e)
               | Inr c \<Rightarrow> (case redundant_lits s ab (tl (lits c)) (seen s) (butlast stack) clr of (b, sn, stack', clr') \<Rightarrow>
                   if b then redundant_loop cfg R ab tp stack' clr' (s\<lparr>seen := sn\<rparr>)
                   else Some (Inr (give_up tp clr' (s\<lparr>seen := sn\<rparr>)))))
          | _ \<Rightarrow> Some (Inr (give_up tp clr s))))"

definition litRedundant ::
  "sat_config \<Rightarrow> (lit \<Rightarrow> lit list) \<Rightarrow> lit \<Rightarrow> 32 word \<Rightarrow> lit list \<Rightarrow> 'a sat_solver_scheme \<Rightarrow>
    (bool \<times> lit list \<times> 'a sat_solver_scheme) result" where
  "litRedundant cfg R p ab clr s =
     (if sat_minimize_conflicts cfg \<le> 0 then Inr (False, clr, s)
      else runs (redundant_loop cfg R ab (length clr) [p] clr s))"

section \<open>The conflict clause\<close>

text \<open>The loop over the literals of a clause: marks, the number of pivots, and the literals learnt.\<close>

fun analyze_lits :: "'a sat_solver_scheme \<Rightarrow> lit list \<Rightarrow> bool list \<Rightarrow> int \<Rightarrow> lit list \<Rightarrow> bool list \<times> int \<times> lit list" where
  "analyze_lits s [] sn pathC out = (sn, pathC, out)"
| "analyze_lits s (q # qs) sn pathC out =
     (if \<not> sn ! lit_var q \<and> 0 < level s (lit_var q)
      then if decisionLevel s \<le> level s (lit_var q)
           then analyze_lits s qs (sn[lit_var q := True]) (pathC + 1) out
           else analyze_lits s qs (sn[lit_var q := True]) pathC (out @ [q])
      else analyze_lits s qs sn pathC out)"

text \<open>The next marked literal below position \<open>n\<close> of the trail.\<close>

fun next_seen :: "'a sat_solver_scheme \<Rightarrow> nat \<Rightarrow> nat result" where
  "next_seen s 0 = Inl Uninitialised_Read"
| "next_seen s (Suc n) = (if seen s ! lit_var (trail s ! n) then Inr n else next_seen s n)"

text \<open>\<open>n\<close> is \<open>index + 1\<close>; the first round has no literal \<open>p\<close> yet.\<close>

partial_function (option) analyze_loop ::
  "sat_config \<Rightarrow> (lit \<Rightarrow> lit list) \<Rightarrow> cref \<Rightarrow> bool \<Rightarrow> nat \<Rightarrow> int \<Rightarrow> lit list \<Rightarrow> nat list \<Rightarrow> 'a sat_solver_scheme \<Rightarrow>
    (lit \<times> lit list \<times> nat list \<times> 'a sat_solver_scheme) result option" where
  "analyze_loop cfg R confl first n pathC out cleanup s =
     (case confl of
        CRef cr \<Rightarrow>
          (case rbind (clause_at s cr) (\<lambda>c.
             let (sn, pathC1, out1) = analyze_lits s (if first then lits c else tl (lits c)) (seen s) pathC out;
                 s1 = s\<lparr>seen := sn\<rparr> in
             rbind (next_seen s1 n) (\<lambda>m. require (1 \<le> m)
               (let p = trail s1 ! m in
                rbind (if reason s1 (lit_var p) = CRef_Fake then theory_reason cfg R p cleanup s1 else Inr (cleanup, s1))
                  (\<lambda>(cleanup1, s2). let confl1 = reason s2 (lit_var p) in
                    require (pathC1 = 1 \<or> confl1 \<noteq> CRef_Undef)
                      (Inr (p, m, confl1, pathC1 - 1, out1, cleanup1, s2\<lparr>seen := (seen s2)[lit_var p := False]\<rparr>)))))) of
             Inl e \<Rightarrow> Some (Inl e)
           | Inr (p, m, confl1, pathC1, out1, cleanup1, s1) \<Rightarrow>
               if 0 < pathC1 then analyze_loop cfg R confl1 False m pathC1 out1 cleanup1 s1
               else Some (Inr (p, out1, cleanup1, s1)))
      | _ \<Rightarrow> Some (Inl Assertion_Failed))"

text \<open>The minimisation: the literals after the first that are kept.\<close>

fun minimize_loop ::
  "sat_config \<Rightarrow> (lit \<Rightarrow> lit list) \<Rightarrow> 32 word \<Rightarrow> lit list \<Rightarrow> lit list \<Rightarrow> 'a sat_solver_scheme \<Rightarrow>
    (lit list \<times> lit list \<times> 'a sat_solver_scheme) result" where
  "minimize_loop cfg R ab [] clr s = Inr ([], clr, s)"
| "minimize_loop cfg R ab (q # qs) clr s =
     rbind (if reason s (lit_var q) = CRef_Undef then Inr (True, clr, s)
            else rbind (litRedundant cfg R q ab clr s) (\<lambda>(b, clr1, s1). Inr (\<not> b, clr1, s1)))
       (\<lambda>(keep, clr1, s1). rbind (minimize_loop cfg R ab qs clr1 s1) (\<lambda>(ks, clr2, s2).
          Inr (if keep then q # ks else ks, clr2, s2)))"

definition minimize ::
  "sat_config \<Rightarrow> (lit \<Rightarrow> lit list) \<Rightarrow> lit list \<Rightarrow> 'a sat_solver_scheme \<Rightarrow> (lit list \<times> lit list \<times> 'a sat_solver_scheme) result" where
  "minimize cfg R out s =
     (if ccmin_mode cfg = 2 then
        let ab = foldl (\<lambda>a q. a OR abstractLevel s (lit_var q)) 0 (tl out) in
        rbind (minimize_loop cfg R ab (tl out) out s) (\<lambda>(ks, clr, s1). Inr (hd out # ks, clr, s1))
      else if ccmin_mode cfg = 1 then Inl Assertion_Failed
      else Inr (out, out, s))"

text \<open>The level to backtrack to, and the clause with a literal of that level in the second place.\<close>

fun max_level_index :: "'a sat_solver_scheme \<Rightarrow> lit list \<Rightarrow> nat list \<Rightarrow> nat \<Rightarrow> nat" where
  "max_level_index s out [] m = m"
| "max_level_index s out (i # is) m =
     max_level_index s out is (if level s (lit_var (out ! m)) < level s (lit_var (out ! i)) then i else m)"

definition backtrack_level :: "'a sat_solver_scheme \<Rightarrow> lit list \<Rightarrow> lit list \<times> nat" where
  "backtrack_level s out =
     (if length out = 1 then (out, 0)
      else let m = max_level_index s out [2 ..< length out] 1; p = out ! m in
        (out[m := out ! 1, 1 := p], level s (lit_var p)))"

definition analyze ::
  "sat_config \<Rightarrow> (lit \<Rightarrow> lit list) \<Rightarrow> cref \<Rightarrow> 'a sat_solver_scheme \<Rightarrow> (lit list \<times> nat \<times> 'a sat_solver_scheme) result" where
  "analyze cfg R confl s = require (confl \<noteq> CRef_Undef)
     (rbind (runs (analyze_loop cfg R confl True (length (trail s)) 0 [] [] s)) (\<lambda>(p, out, cleanup, s1).
      rbind (minimize cfg R (lit_not p # out) s1) (\<lambda>(out1, clr, s2).
      let (out2, lev) = backtrack_level s2 out1;
          s3 = s2\<lparr>seen := clear_seen clr (seen s2), ca := foldl (\<lambda>a cr. ca_free cr a) (ca s2) cleanup\<rparr>
      in Inr (out2, lev, s3))))"

section \<open>Learning\<close>

text \<open>
  What follows the analysis, in \<open>search\<close> and for a conflict of the theory: backtracking, the clause and
  its first literal. Only for the theory the clause goes on the undo stack.
\<close>

definition learn_clause :: "bool \<Rightarrow> lit list \<Rightarrow> nat \<Rightarrow> 'a sat_solver_scheme \<Rightarrow> 'a sat_solver_scheme result" where
  "learn_clause undo out lev s =
     (let s1 = cancelUntil lev s in
      require (is_undef s1 (out ! 0))
        (if length out = 1 then uncheckedEnqueue (out ! 0) CRef_Undef s1
         else let (cr, a) = ca_alloc out True (ca s1); s2 = s1\<lparr>ca := a, learnts := learnts s1 @ [cr]\<rparr> in
           rbind (attachClause cr (if undo then s2\<lparr>undo_stack := undo_stack s2 @ [NEWLEARNT cr]\<rparr> else s2))
             (uncheckedEnqueue (out ! 0) (CRef cr))))"

text \<open>The branch of \<open>search\<close> for a conflict above level 0.\<close>

definition learn_conflict ::
  "sat_config \<Rightarrow> (lit \<Rightarrow> lit list) \<Rightarrow> cref \<Rightarrow> 'a sat_solver_scheme \<Rightarrow> 'a sat_solver_scheme result" where
  "learn_conflict cfg R confl s = rbind (analyze cfg R confl s) (\<lambda>(out, lev, s1). learn_clause False out lev s1)"

section \<open>Assumptions that failed\<close>

text \<open>The loop of \<open>analyzeFinal\<close> over the positions of the trail above level 0.\<close>

fun final_loop ::
  "(lit \<Rightarrow> lit list) \<Rightarrow> nat list \<Rightarrow> lit list \<Rightarrow> 'a sat_solver_scheme \<Rightarrow> (lit list \<times> 'a sat_solver_scheme) result" where
  "final_loop R [] out s = Inr (out, s)"
| "final_loop R (i # is) out s =
     (let x = lit_var (trail s ! i); mark = (\<lambda>ls sn. foldl (\<lambda>sn q. if 0 < level s (lit_var q) then sn[lit_var q := True] else sn) sn ls) in
      if seen s ! x then
        case reason s x of
          CRef_Undef \<Rightarrow> if 0 < level s x then final_loop R is (out @ [lit_not (trail s ! i)]) s else Inl Assertion_Failed
        | CRef_Fake \<Rightarrow> let r = R (trail s ! i) in
            if r = [] then Inl Assertion_Failed
            else final_loop R is out (s\<lparr>seen := (mark (tl r) (seen s))[x := False]\<rparr>)
        | CRef cr \<Rightarrow> (case clause_at s cr of Inl e \<Rightarrow> Inl e
            | Inr c \<Rightarrow> final_loop R is out (s\<lparr>seen := (mark (tl (lits c)) (seen s))[x := False]\<rparr>))
      else final_loop R is out s)"

definition analyzeFinal :: "(lit \<Rightarrow> lit list) \<Rightarrow> lit \<Rightarrow> 'a sat_solver_scheme \<Rightarrow> (lit list \<times> 'a sat_solver_scheme) result" where
  "analyzeFinal R p s =
     (if decisionLevel s = 0 then Inr ([p], s)
      else rbind (final_loop R (rev [hd (trail_lim s) ..< length (trail s)]) [p] (s\<lparr>seen := (seen s)[lit_var p := True]\<rparr>))
        (\<lambda>(out, s1). Inr (out, s1\<lparr>seen := (seen s1)[lit_var p := False]\<rparr>)))"

end
