(* ===== verification/Sat_Loop.thy ===== *)
theory Sat_Loop
  imports Sat_Analyze
begin

text \<open>
  The loop of \<open>search\<close> with its parts: the reduction of the clause database, the decisions, and the
  calls of the theory (\<open>src/src/smtsolvers/CoreSMTSolver.C\<close> and \<open>Theory.C\<close>), without
  \<open>PRODUCE_PROOF\<close>, without splitting of the search space and without garbage collection of the arena.

  What only steers the search is an argument, the answers of the heuristics in each round: the order of the
  heap and of the learnt clauses, which depend on activities, random numbers, clocks and budgets. The theory
  handler is an argument as well: its answers in each round, for the trail of that round.
\<close>

record search_config = sat_config +
  sat_theory_propagation :: int
  remove_satisfied :: bool
  assumptions :: "lit list"
  dtc_logic :: bool

record heuristics =
  h_continue :: bool
  h_budget :: bool
  h_simplified :: bool
  h_sort :: "nat list \<Rightarrow> nat list"
  h_inactive :: "nat \<Rightarrow> bool"
  h_skip :: bool
  h_random :: "nat option"
  h_min :: "nat list \<Rightarrow> nat"
  h_sign :: "nat \<Rightarrow> bool option"

datatype tres = TRes_SAT | TRes_UNSAT | TRes_UNKNOWN | TRes_UNDEF

datatype tprop = TProp_Undef | TProp_Unsat | TProp_Propagate | TProp_Decide

record theory_answer =
  ta_assert :: bool
  ta_check :: tres
  ta_explanation :: "lit list"
  ta_deductions :: "lit list"
  ta_splits :: "lit list"

section \<open>Removing clauses\<close>

text \<open>
  The loop of \<open>removeSatisfied\<close> and \<open>reduceDB\<close>: the clauses at the positions from \<open>i\<close> on
  for which the test holds are removed, the others are kept. \<open>reduceDB\<close> and \<open>simplify\<close> call
  \<open>checkGarbage\<close> after it, which may move the clauses in the arena; that call is left out. In
  \<open>simplify\<close>, \<open>h_simplified\<close> stands for the comparison of the counters \<open>simpDB_assigns\<close>
  and \<open>simpDB_props\<close>, which make it skip a database that has hardly changed.
\<close>

fun remove_loop ::
  "(nat \<Rightarrow> 'a sat_solver_scheme \<Rightarrow> nat \<Rightarrow> clause \<Rightarrow> bool) \<Rightarrow> nat \<Rightarrow> nat list \<Rightarrow> 'a sat_solver_scheme \<Rightarrow>
    (nat list \<times> 'a sat_solver_scheme) result" where
  "remove_loop P i [] s = Inr ([], s)"
| "remove_loop P i (cr # crs) s = rbind (clause_at s cr) (\<lambda>c.
     if P i s cr c then rbind (removeClause cr s) (remove_loop P (i + 1) crs)
     else rbind (remove_loop P (i + 1) crs s) (\<lambda>(ks, s'). Inr (cr # ks, s')))"

definition removeSatisfied :: "nat list \<Rightarrow> 'a sat_solver_scheme \<Rightarrow> (nat list \<times> 'a sat_solver_scheme) result" where
  "removeSatisfied = remove_loop (\<lambda>i s cr c. satisfied s c) 0"

definition reduceDB :: "heuristics \<Rightarrow> 'a sat_solver_scheme \<Rightarrow> 'a sat_solver_scheme result" where
  "reduceDB h s = (let ls = h_sort h (learnts s) in
     rbind (remove_loop (\<lambda>i s cr c. 2 < length (lits c) \<and> \<not> locked s cr c \<and> (i < length ls div 2 \<or> h_inactive h cr)) 0 ls
         (s\<lparr>learnts := ls\<rparr>))
       (\<lambda>(ks, s1). Inr (s1\<lparr>learnts := ks\<rparr>)))"

definition simplify :: "search_config \<Rightarrow> heuristics \<Rightarrow> 'a sat_solver_scheme \<Rightarrow> (bool \<times> 'a sat_solver_scheme) result" where
  "simplify cfg h s = require (decisionLevel s = 0)
     (if \<not> sat_ok s then Inr (False, s)
      else rbind (propagate s) (\<lambda>(confl, s1).
        if confl \<noteq> CRef_Undef then Inr (False, s1\<lparr>sat_ok := False\<rparr>)
        else if h_simplified h then Inr (True, s1)
        else rbind (removeSatisfied (learnts s1) s1) (\<lambda>(ls, s2). let s3 = s2\<lparr>learnts := ls\<rparr> in
          rbind (if remove_satisfied cfg
                 then rbind (removeSatisfied (clauses s3) s3) (\<lambda>(cs, s4). Inr (s4\<lparr>clauses := cs\<rparr>)) else Inr s3) (\<lambda>s4.
          Inr (True, s4\<lparr>order_heap := filter (\<lambda>v. lbool_eq (val_var s4 v) l_Undef \<and> decision s4 ! v) (order_heap s4)\<rparr>)))))"

section \<open>Decisions\<close>

text \<open>Variables are taken from the heap until one is open and may be decided on.\<close>

definition can_pick :: "'a sat_solver_scheme \<Rightarrow> nat option \<Rightarrow> bool" where
  "can_pick s next = (case next of None \<Rightarrow> False | Some v \<Rightarrow> lbool_eq (val_var s v) l_Undef \<and> decision s ! v)"

function pick_loop :: "heuristics \<Rightarrow> 'a sat_solver_scheme \<Rightarrow> nat option \<Rightarrow> nat list \<Rightarrow> nat option \<times> nat list" where
  "pick_loop h s next xs =
     (if can_pick s next then (next, xs)
      else if xs = [] then (None, xs)
      else let i = h_min h xs mod length xs in pick_loop h s (Some (xs ! i)) (take i xs @ drop (i + 1) xs))"
  by pat_completeness auto
termination
proof (relation "measure (\<lambda>(h, s, next, xs). length xs)", goal_cases)
  case (2 h s nxt xs i)
  then have "i < length xs"
    by simp
  then show ?case
    by simp
qed simp

declare pick_loop.simps [simp del]

definition pickBranchLit :: "heuristics \<Rightarrow> lit \<Rightarrow> 'a sat_solver_scheme \<Rightarrow> lit \<times> lit \<times> 'a sat_solver_scheme" where
  "pickBranchLit h forced s =
     (if forced \<noteq> lit_Undef then (forced, lit_Undef, s)
      else let xs = order_heap s;
               next0 = (case h_random h of Some i \<Rightarrow> if xs = [] then None else Some (xs ! (i mod length xs)) | None \<Rightarrow> None);
               (next, ys) = pick_loop h s next0 xs; s1 = s\<lparr>order_heap := ys\<rparr> in
        (case next of None \<Rightarrow> (lit_Undef, lit_Undef, s1)
         | Some v \<Rightarrow> (mkLit v (case h_sign h v of Some b \<Rightarrow> b | None \<Rightarrow> polarity s ! v), lit_Undef, s1)))"

text \<open>The assumptions from the decision level on: one that is open is decided on, one that is false is final.\<close>

datatype assumed_next = Assume_Done | Assume_Next lit | Assume_Failed "lit list"

fun assume_loop ::
  "(lit \<Rightarrow> lit list) \<Rightarrow> lit list \<Rightarrow> 'a sat_solver_scheme \<Rightarrow> (assumed_next \<times> 'a sat_solver_scheme) result" where
  "assume_loop R [] s = Inr (Assume_Done, s)"
| "assume_loop R (p # ps) s =
     (if is_true s p then assume_loop R ps (newDecisionLevel s)
      else if is_false s p then rbind (analyzeFinal R (lit_not p) s) (\<lambda>(c, s1). Inr (Assume_Failed c, s1))
      else Inr (Assume_Next p, s))"

section \<open>The theory\<close>

definition deduceTheory :: "theory_answer \<Rightarrow> 'a sat_solver_scheme \<Rightarrow> lit list" where
  "deduceTheory ans s = filter (is_undef s) (ta_deductions ans)"

fun enqueue_deductions :: "lit list \<Rightarrow> 'a sat_solver_scheme \<Rightarrow> 'a sat_solver_scheme result" where
  "enqueue_deductions [] s = Inr s"
| "enqueue_deductions (l # ls) s = rbind (uncheckedEnqueue l CRef_Fake s) (enqueue_deductions ls)"

text \<open>\<open>safeValue\<close> of a literal: the value of its variable, whatever the sign, if the variable is known.\<close>

definition safeValue :: "'a sat_solver_scheme \<Rightarrow> lit \<Rightarrow> lbool" where
  "safeValue s l = (if lit_var l < length (assigns s) then val_var s (lit_var l) else l_Undef)"

definition safe_undef :: "'a sat_solver_scheme \<Rightarrow> lit \<Rightarrow> bool" where
  "safe_undef s l \<longleftrightarrow> lbool_eq (safeValue s l) l_Undef"

definition safe_true :: "'a sat_solver_scheme \<Rightarrow> lit \<Rightarrow> bool" where
  "safe_true s l \<longleftrightarrow> lbool_eq (safeValue s l) l_True"

text \<open>A split of the theory: a clause of two literals, which is an original clause from now on.\<close>

definition add_split ::
  "(bool \<Rightarrow> bool \<Rightarrow> 'a sat_solver_scheme \<Rightarrow> nat \<times> 'a sat_solver_scheme) \<Rightarrow> lit list \<Rightarrow> lit \<Rightarrow> 'a sat_solver_scheme \<Rightarrow>
    (tprop \<times> lit \<times> 'a sat_solver_scheme) result" where
  "add_split nv sp forced s = require (length sp = 2)
     (let l1 = sp ! 0; l2 = sp ! 1 in
      require (safe_undef s l1 \<or> safe_undef s l2) (require (\<not> safe_true s l1) (require (\<not> safe_true s l2)
      (rbind (addVar_core nv (lit_var l1) s) (\<lambda>s1. rbind (addVar_core nv (lit_var l2) s1) (\<lambda>s2.
        if safe_undef s2 l1 \<and> safe_undef s2 l2
        then let (cr, a) = ca_alloc sp False (ca s2) in
          rbind (attachClause cr (s2\<lparr>ca := a\<rparr>)) (\<lambda>s3. Inr (TProp_Decide, lit_not l1, s3\<lparr>clauses := clauses s3 @ [cr]\<rparr>))
        else let l_f = (if is_false s2 l1 then l1 else l2); l_i = (if is_false s2 l1 then l2 else l1);
                 s3 = cancelUntil (level s2 (lit_var l_f)) s2 in
          if decisionLevel s3 = 0
          then rbind (uncheckedEnqueue l_i CRef_Undef s3) (\<lambda>s4. Inr (TProp_Propagate, forced, s4))
          else let (cr, a) = ca_alloc (if l_i \<noteq> l1 then [l_i, l_f] else sp) False (ca s3) in
            rbind (attachClause cr (s3\<lparr>ca := a\<rparr>)) (\<lambda>s4.
            rbind (uncheckedEnqueue l_i (CRef cr) (s4\<lparr>clauses := clauses s4 @ [cr]\<rparr>)) (\<lambda>s5.
              Inr (TProp_Propagate, forced, s5)))))))))"

definition handleSat ::
  "search_config \<Rightarrow> (bool \<Rightarrow> bool \<Rightarrow> 'a sat_solver_scheme \<Rightarrow> nat \<times> 'a sat_solver_scheme) \<Rightarrow> theory_answer \<Rightarrow> lit \<Rightarrow>
    'a sat_solver_scheme \<Rightarrow> (tprop \<times> lit \<times> 'a sat_solver_scheme) result" where
  "handleSat cfg nv ans forced s =
     (if ta_splits ans \<noteq> [] then add_split nv (ta_splits ans) forced s
      else if 0 < sat_theory_propagation cfg
      then let deds = deduceTheory ans s in
        rbind (enqueue_deductions deds s) (\<lambda>s1. Inr (if deds \<noteq> [] then TProp_Propagate else TProp_Decide, forced, s1))
      else Inr (TProp_Decide, forced, s))"

text \<open>
  The conflict of the theory as a clause, from the literals of its explanation, and the highest level in it
  (\<open>getConflict\<close> of \<open>src/src/tsolvers/THandler.C\<close>, which takes the explanation from its end).
\<close>

definition getConflict :: "lit list \<Rightarrow> 'a sat_solver_scheme \<Rightarrow> lit list \<times> int" where
  "getConflict ex s =
     (if ex = [] then ([], 0)
      else (map lit_not (rev ex), foldl (\<lambda>m q. if m < int (level s (lit_var q)) then int (level s (lit_var q)) else m) (-1) (rev ex)))"

definition handleUnsat ::
  "search_config \<Rightarrow> (lit \<Rightarrow> lit list) \<Rightarrow> lit list \<Rightarrow> 'a sat_solver_scheme \<Rightarrow> (tprop \<times> 'a sat_solver_scheme) result" where
  "handleUnsat cfg R ex s =
     (if decisionLevel s = 0 then Inr (TProp_Unsat, s)
      else let (confl, lev) = getConflict ex s in require (lev \<le> int (decisionLevel s))
        (let s1 = cancelUntil (nat lev) s in
         if decisionLevel s1 = 0 then Inr (TProp_Unsat, s1)
         else require (confl \<noteq> [])
           (rbind (if sat_learn_up_to_size cfg < int (length confl) \<or> length confl = 1
                   then let (cr, a) = ca_alloc confl False (ca s1) in Inr (cr, s1\<lparr>ca := a\<rparr>)
                   else let (cr, a) = ca_alloc confl (sat_temporary_learn cfg) (ca s1) in
                     rbind (attachClause cr (s1\<lparr>ca := a, learnts := learnts s1 @ [cr]\<rparr>)) (\<lambda>s2. Inr (cr, s2)))
              (\<lambda>(cr, s2). rbind (analyze (sat_config.truncate cfg) R (CRef cr) s2) (\<lambda>(out, blev, s3).
                 let s4 = (if sat_learn_up_to_size cfg < int (length confl) then s3\<lparr>ca := ca_free cr (ca s3)\<rparr> else s3) in
                 rbind (learn_clause True out blev s4) (\<lambda>s5. Inr (TProp_Propagate, s5)))))))"

text \<open>The answer, a literal to decide on next, and the number of conflicts.\<close>

definition checkTheory ::
  "search_config \<Rightarrow> (bool \<Rightarrow> bool \<Rightarrow> 'a sat_solver_scheme \<Rightarrow> nat \<times> 'a sat_solver_scheme) \<Rightarrow> (lit \<Rightarrow> lit list) \<Rightarrow> bool \<Rightarrow> bool \<Rightarrow>
    theory_answer \<Rightarrow> lit \<Rightarrow> 'a sat_solver_scheme \<Rightarrow> (tprop \<times> lit \<times> int \<times> 'a sat_solver_scheme) result" where
  "checkTheory cfg nv R skip final ans forced s =
     (if \<not> final \<and> skip then Inr (TProp_Decide, forced, 0, s)
      else case (if ta_assert ans then ta_check ans else TRes_UNSAT) of
          TRes_SAT \<Rightarrow> rbind (handleSat cfg nv ans forced s) (\<lambda>(r, f, s1). Inr (r, f, 0, s1))
        | TRes_UNSAT \<Rightarrow> rbind (handleUnsat cfg R (ta_explanation ans) s) (\<lambda>(r, s1). Inr (r, forced, 1, s1))
        | TRes_UNKNOWN \<Rightarrow> Inr (TProp_Decide, forced, 0, s)
        | TRes_UNDEF \<Rightarrow> Inl Assertion_Failed)"

section \<open>The loop\<close>

text \<open>A round ends the search with an answer and the failed assumptions, or goes on.\<close>

datatype round_end = Round_Answer lbool "lit list" | Round_Next

definition decide_on ::
  "search_config \<Rightarrow> lit \<Rightarrow> 'a sat_solver_scheme \<Rightarrow> 'a sat_solver_scheme result" where
  "decide_on cfg next s =
     (if \<not> is_undef s next then require (dtc_logic cfg) (Inr s)
      else uncheckedEnqueue next CRef_Undef (newDecisionLevel s))"

text \<open>The part of a round after the theory had nothing to say; the second choice of a variable has heuristics of its own.\<close>

definition decide_round ::
  "search_config \<Rightarrow> (bool \<Rightarrow> bool \<Rightarrow> 'a sat_solver_scheme \<Rightarrow> nat \<times> 'a sat_solver_scheme) \<Rightarrow> (lit \<Rightarrow> lit list) \<Rightarrow> (bool \<Rightarrow> heuristics) \<Rightarrow>
    (lit list \<Rightarrow> theory_answer) \<Rightarrow> lit \<Rightarrow> 'a sat_solver_scheme \<Rightarrow> (round_end \<times> int \<times> lit \<times> 'a sat_solver_scheme) result" where
  "decide_round cfg nv R h final forced s =
     rbind (assume_loop R (drop (decisionLevel s) (assumptions cfg)) s) (\<lambda>(a, s1). case a of
         Assume_Failed c \<Rightarrow> Inr (Round_Answer l_False c, 0, forced, s1)
       | Assume_Next p \<Rightarrow> rbind (decide_on cfg p s1) (\<lambda>s2. Inr (Round_Next, 0, forced, s2))
       | Assume_Done \<Rightarrow> (case pickBranchLit (h False) forced s1 of (next, forced1, s2) \<Rightarrow>
           if next \<noteq> lit_Undef then rbind (decide_on cfg next s2) (\<lambda>s3. Inr (Round_Next, 0, forced1, s3))
           else rbind (checkTheory cfg nv R False True (final (trail s2)) forced1 s2) (\<lambda>(r, forced2, k, s3). case r of
               TProp_Propagate \<Rightarrow> Inr (Round_Next, k, forced2, s3)
             | TProp_Unsat \<Rightarrow> Inr (Round_Answer l_False [], k, forced2, s3)
             | TProp_Undef \<Rightarrow> Inl Assertion_Failed
             | TProp_Decide \<Rightarrow> (case pickBranchLit (h True) forced2 s3 of (next', forced3, s4) \<Rightarrow>
                 if next' = lit_Undef then Inr (Round_Answer l_True [], k, forced3, s4)
                 else rbind (decide_on cfg next' s4) (\<lambda>s5. Inr (Round_Next, k, forced3, s5))))))"

definition search_round ::
  "search_config \<Rightarrow> (bool \<Rightarrow> bool \<Rightarrow> 'a sat_solver_scheme \<Rightarrow> nat \<times> 'a sat_solver_scheme) \<Rightarrow> (lit \<Rightarrow> lit list) \<Rightarrow> (bool \<Rightarrow> heuristics) \<Rightarrow>
    (bool \<Rightarrow> lit list \<Rightarrow> theory_answer) \<Rightarrow> int \<Rightarrow> int \<Rightarrow> int \<Rightarrow> lit \<Rightarrow> 'a sat_solver_scheme \<Rightarrow>
    (round_end \<times> int \<times> lit \<times> 'a sat_solver_scheme) result" where
  "search_round cfg nv R h th nof_conflicts nof_learnts conflictC forced s =
     (if \<not> h_continue (h False) then Inr (Round_Answer l_Undef [], conflictC, forced, s)
      else rbind (propagate s) (\<lambda>(confl, s1).
        if confl \<noteq> CRef_Undef then
          (if decisionLevel s1 = 0 then Inr (Round_Answer l_False [], conflictC + 1, forced, s1)
           else rbind (learn_conflict (sat_config.truncate cfg) R confl s1) (\<lambda>s2. Inr (Round_Next, conflictC + 1, forced, s2)))
        else if (0 \<le> nof_conflicts \<and> nof_conflicts \<le> conflictC) \<or> \<not> h_budget (h False)
        then Inr (Round_Answer l_Undef [], conflictC, forced, cancelUntil 0 s1)
        else rbind (if decisionLevel s1 = 0 then simplify cfg (h False) s1 else Inr (True, s1)) (\<lambda>(okay, s2).
          if \<not> okay then Inr (Round_Answer l_False [], conflictC, forced, s2)
          else rbind (if 0 \<le> nof_learnts \<and> nof_learnts \<le> int (length (learnts s2)) - int (length (trail s2))
                      then reduceDB (h False) s2 else Inr s2) (\<lambda>s3.
            rbind (checkTheory cfg nv R (h_skip (h False)) False (th False (trail s3)) forced s3) (\<lambda>(r, forced1, k, s4). case r of
                TProp_Unsat \<Rightarrow> Inr (Round_Answer l_False [], conflictC + k, forced1, s4)
              | TProp_Propagate \<Rightarrow> Inr (Round_Next, conflictC + k, forced1, s4)
              | TProp_Undef \<Rightarrow> Inl Assertion_Failed
              | TProp_Decide \<Rightarrow> rbind (decide_round cfg nv R h (th True) forced1 s4) (\<lambda>(e, k', forced2, s5).
                  Inr (e, conflictC + k + k', forced2, s5)))))))"

partial_function (option) search_loop ::
  "search_config \<Rightarrow> (bool \<Rightarrow> bool \<Rightarrow> 'a sat_solver_scheme \<Rightarrow> nat \<times> 'a sat_solver_scheme) \<Rightarrow> (lit \<Rightarrow> lit list) \<Rightarrow>
    (nat \<Rightarrow> bool \<Rightarrow> heuristics) \<Rightarrow> (nat \<Rightarrow> bool \<Rightarrow> lit list \<Rightarrow> theory_answer) \<Rightarrow> int \<Rightarrow> int \<Rightarrow> nat \<Rightarrow> int \<Rightarrow> lit \<Rightarrow> 'a sat_solver_scheme \<Rightarrow>
    (lbool \<times> lit list \<times> lit \<times> 'a sat_solver_scheme) result option" where
  "search_loop cfg nv R hs th nof_conflicts nof_learnts n conflictC forced s =
     (case search_round cfg nv R (hs n) (th n) nof_conflicts nof_learnts conflictC forced s of
        Inl e \<Rightarrow> Some (Inl e)
      | Inr (Round_Answer b c, k, forced1, s1) \<Rightarrow> Some (Inr (b, c, forced1, s1))
      | Inr (Round_Next, k, forced1, s1) \<Rightarrow> search_loop cfg nv R hs th nof_conflicts nof_learnts (n + 1) k forced1 s1)"

text \<open>The answer, the failed assumptions, the literal to decide on next and the state.\<close>

definition search ::
  "search_config \<Rightarrow> (bool \<Rightarrow> bool \<Rightarrow> 'a sat_solver_scheme \<Rightarrow> nat \<times> 'a sat_solver_scheme) \<Rightarrow> (lit \<Rightarrow> lit list) \<Rightarrow>
    (nat \<Rightarrow> bool \<Rightarrow> heuristics) \<Rightarrow> (nat \<Rightarrow> bool \<Rightarrow> lit list \<Rightarrow> theory_answer) \<Rightarrow> int \<Rightarrow> int \<Rightarrow> lit \<Rightarrow> 'a sat_solver_scheme \<Rightarrow>
    (lbool \<times> lit list \<times> lit \<times> 'a sat_solver_scheme) result" where
  "search cfg nv R hs th nof_conflicts nof_learnts forced s = require (sat_ok s)
     (rbind (checkTheory cfg nv R (h_skip (hs 0 False)) False (th 0 False (trail s)) forced s) (\<lambda>(r, forced1, k, s1).
        if r = TProp_Unsat then Inr (l_False, [], forced1, s1)
        else require (r \<noteq> TProp_Undef) (runs (search_loop cfg nv R hs th nof_conflicts nof_learnts 1 k forced1 s1))))"

end
