(* ===== verification/Sat_Redundant.thy ===== *)
theory Sat_Redundant
  imports Sat_Analyze
begin

text \<open>
  The minimisation of conflict clauses: the loop of \<open>litRedundant\<close> ends, a literal is dropped only when
  its reason leads to literals that are kept, and a failed attempt restores the marks.
\<close>

section \<open>Marks\<close>

lemma seen_update [simp]:
  "level (s\<lparr>seen := x\<rparr>) = level s" "reason (s\<lparr>seen := x\<rparr>) = reason s" "clause_at (s\<lparr>seen := x\<rparr>) = clause_at s"
  "clause_of (s\<lparr>seen := x\<rparr>) = clause_of s" "Sat_Solver.nVars (s\<lparr>seen := x\<rparr>) = Sat_Solver.nVars s"
  "abstractLevel (s\<lparr>seen := x\<rparr>) = abstractLevel s" "decisionLevel (s\<lparr>seen := x\<rparr>) = decisionLevel s"
  "attached (s\<lparr>seen := x\<rparr>) = attached s"
  by (auto simp: fun_eq_iff level_def reason_def clause_at_def clause_of_def Sat_Solver.nVars_def abstractLevel_def
      decisionLevel_def attached_def)

definition mark_seen :: "lit list \<Rightarrow> bool list \<Rightarrow> bool list" where
  "mark_seen ls sn = foldl (\<lambda>sn p. sn[lit_var p := True]) sn ls"

lemma mark_seen_simps [simp]:
  "mark_seen [] sn = sn" "mark_seen (l # ls) sn = mark_seen ls (sn[lit_var l := True])"
  "mark_seen (ls @ ls') sn = mark_seen ls' (mark_seen ls sn)"
  by (simp_all add: mark_seen_def)

lemma mark_seen_length [simp]: "length (mark_seen ls sn) = length sn"
  by (induction ls arbitrary: sn) simp_all

lemma clear_seen_length [simp]: "length (clear_seen ls sn) = length sn"
  unfolding clear_seen_def by (induction ls arbitrary: sn) simp_all

lemma mark_seen_nth: "v < length sn \<Longrightarrow> mark_seen ls sn ! v \<longleftrightarrow> sn ! v \<or> v \<in> lit_var ` set ls"
proof (induction ls arbitrary: sn)
  case (Cons l ls)
  then show ?case
    by (cases "lit_var l = v") auto
qed simp

lemma clear_seen_nth: "v < length sn \<Longrightarrow> clear_seen ls sn ! v \<longleftrightarrow> sn ! v \<and> v \<notin> lit_var ` set ls"
  unfolding clear_seen_def
proof (induction ls arbitrary: sn)
  case (Cons l ls)
  then show ?case
    by (cases "lit_var l = v") auto
qed simp

lemma clear_mark:
  assumes "\<forall>l \<in> set ls. lit_var l < length sn \<and> \<not> sn ! lit_var l"
  shows "clear_seen ls (mark_seen ls sn) = sn"
  by (rule nth_equalityI) (use assms in \<open>auto simp: clear_seen_nth mark_seen_nth\<close>)

section \<open>The literals of one reason\<close>

definition false_lits :: "'a sat_solver_scheme \<Rightarrow> lit set" where
  "false_lits s = {q. lit_not q \<in> set (trail s)}"

lemma false_lits_seen [simp]: "false_lits (s\<lparr>seen := x\<rparr>) = false_lits s"
  by (simp add: false_lits_def)

lemma redundant_lits_seen [simp]: "redundant_lits (s\<lparr>seen := x\<rparr>) = redundant_lits s"
proof (intro ext)
  show "redundant_lits (s\<lparr>seen := x\<rparr>) ab ps sn stack clr = redundant_lits s ab ps sn stack clr" for ab ps sn stack clr
    by (induction s ab ps sn stack clr rule: redundant_lits.induct) simp_all
qed

text \<open>What is new on the stack: literals of the clause that were not marked and have a reason.\<close>

definition fresh_lits :: "'a sat_solver_scheme \<Rightarrow> lit list \<Rightarrow> bool list \<Rightarrow> lit list \<Rightarrow> bool" where
  "fresh_lits s ps sn new \<longleftrightarrow> set new \<subseteq> set ps \<and> distinct (map lit_var new) \<and>
     (\<forall>q \<in> set new. \<not> sn ! lit_var q \<and> 0 < level s (lit_var q) \<and> reason s (lit_var q) \<noteq> CRef_Undef)"

lemma redundant_lits_ok:
  "redundant_lits s ab ps sn stack clr = (b, sn', stack', clr') \<Longrightarrow> \<forall>q \<in> set ps. lit_var q < length sn \<Longrightarrow>
   \<exists>new. sn' = mark_seen new sn \<and> stack' = stack @ new \<and> clr' = clr @ new \<and> fresh_lits s ps sn new \<and>
     (b \<longrightarrow> (\<forall>q \<in> set ps. sn' ! lit_var q \<or> level s (lit_var q) = 0))"
proof (induction s ab ps sn stack clr rule: redundant_lits.induct)
  case (1 s ab sn stack clr)
  then show ?case
    by (intro exI [of _ "[]"]) (simp add: fresh_lits_def)
next
  case (2 s ab p ps sn stack clr)
  consider (push) "\<not> sn ! lit_var p" "0 < level s (lit_var p)" "reason s (lit_var p) \<noteq> CRef_Undef \<and> abstractLevel s (lit_var p) AND ab \<noteq> 0"
    | (stop) "\<not> sn ! lit_var p" "0 < level s (lit_var p)" "\<not> (reason s (lit_var p) \<noteq> CRef_Undef \<and> abstractLevel s (lit_var p) AND ab \<noteq> 0)"
    | (skip) "sn ! lit_var p \<or> level s (lit_var p) = 0"
    by blast
  then show ?case
  proof cases
    case push
    have r: "redundant_lits s ab ps (sn[lit_var p := True]) (stack @ [p]) (clr @ [p]) = (b, sn', stack', clr')"
      using 2(3) push by simp
    have "\<forall>q \<in> set ps. lit_var q < length (sn[lit_var p := True])"
      using 2(4) by simp
    then obtain new where n: "sn' = mark_seen new (sn[lit_var p := True])" "stack' = stack @ [p] @ new" "clr' = clr @ [p] @ new"
        "fresh_lits s ps (sn[lit_var p := True]) new" "b \<longrightarrow> (\<forall>q \<in> set ps. sn' ! lit_var q \<or> level s (lit_var q) = 0)"
      using 2(1) [OF _ push(3) r] push by auto
    have p: "lit_var p < length sn"
      using 2(4) by simp
    have "\<forall>q \<in> set new. lit_var q \<noteq> lit_var p \<and> \<not> sn ! lit_var q"
      using n(4) p 2(4) by (auto simp: fresh_lits_def nth_list_update split: if_splits)
    then have "fresh_lits s (p # ps) sn (p # new)"
      using n(4) push by (auto simp: fresh_lits_def)
    moreover have "sn' ! lit_var p"
      using p by (simp add: n(1) mark_seen_nth)
    ultimately show ?thesis
      using n by (intro exI [of _ "p # new"]) simp
  next
    case stop
    have "redundant_lits s ab (p # ps) sn stack clr = (False, sn, stack, clr)"
      unfolding redundant_lits.simps if_not_P [OF stop(3)] using stop(1,2) by simp
    then have "b = False" "sn' = sn" "stack' = stack" "clr' = clr"
      using 2(3) by simp_all
    then show ?thesis
      by (intro exI [of _ "[]"]) (simp add: fresh_lits_def)
  next
    case skip
    then have r: "redundant_lits s ab ps sn stack clr = (b, sn', stack', clr')"
      using 2(3) by auto
    then obtain new where n: "sn' = mark_seen new sn" "stack' = stack @ new" "clr' = clr @ new"
        "fresh_lits s ps sn new" "b \<longrightarrow> (\<forall>q \<in> set ps. sn' ! lit_var q \<or> level s (lit_var q) = 0)"
      using 2(2) [OF _ r] skip 2(4) by auto
    have "sn' ! lit_var p \<or> level s (lit_var p) = 0"
      using skip 2(4) by (auto simp: n(1) mark_seen_nth)
    then show ?thesis
      using n by (intro exI [of _ new]) (auto simp: fresh_lits_def)
  qed
qed

section \<open>The loop\<close>

text \<open>A literal whose reason leads to marked literals and those of level 0 only.\<close>

definition closed_lit :: "'a sat_solver_scheme \<Rightarrow> bool list \<Rightarrow> lit \<Rightarrow> bool" where
  "closed_lit s sn x \<longleftrightarrow> (\<exists>cr. reason s (lit_var x) = CRef cr \<and>
     (\<forall>q \<in> set (tl (clause_of s cr)). sn ! lit_var q \<or> level s (lit_var q) = 0))"

text \<open>What the analysis needs of the state, apart from the marks.\<close>

definition reasons_known :: "'a sat_solver_scheme \<Rightarrow> bool" where
  "reasons_known s \<longleftrightarrow> trail_inv s \<and> db_inv s \<and> reasons_ok s \<and> (\<forall>p \<in> set (trail s). reason s (lit_var p) \<noteq> CRef_Fake)"

lemma reasons_known_seen [simp]: "reasons_known (s\<lparr>seen := x\<rparr>) = reasons_known s"
  by (simp add: reasons_known_def trail_inv_def db_inv_def reasons_ok_def good_clause_def)

lemma known_reason:
  assumes "reasons_known s" "x \<in> false_lits s" "reason s (lit_var x) \<noteq> CRef_Undef"
  obtains cr i c where "reason s (lit_var x) = CRef cr" "cr \<in> attached s" "clause_at s cr = Inr c" "lits c = clause_of s cr"
    "i < length (trail s)" "trail s ! i = lit_not x" "clause_of s cr = lit_not x # tl (clause_of s cr)"
    "\<forall>q \<in> set (tl (clause_of s cr)). lit_not q \<in> set (take i (trail s))"
proof -
  have t: "lit_not x \<in> set (trail s)"
    using assms(2) by (simp add: false_lits_def)
  then obtain i where i: "i < length (trail s)" "trail s ! i = lit_not x"
    by (auto simp: in_set_conv_nth)
  have "reason s (lit_var x) \<noteq> CRef_Fake"
    using assms(1) t by (auto simp: reasons_known_def)
  then obtain cr where cr: "reason s (lit_var x) = CRef cr"
    using assms(3) by (cases "reason s (lit_var x)") auto
  then have "reason s (lit_var (trail s ! i)) = CRef cr"
    using i(2) by simp
  then have a: "cr \<in> attached s" "clause_of s cr ! 0 = trail s ! i" "\<forall>q \<in> set (tl (clause_of s cr)). lit_not q \<in> set (take i (trail s))"
    using assms(1) i(1) unfolding reasons_known_def reasons_ok_def by blast+
  have db: "db_inv s"
    using assms(1) by (simp add: reasons_known_def)
  obtain c where c: "clause_at s cr = Inr c" "lits c = clause_of s cr"
    using db_invD(3) [OF db a(1)] by blast
  have "clause_of s cr \<noteq> []"
    using good_clauseD(1) [OF db_invD(1) [OF db a(1)]] .
  then have "clause_of s cr = lit_not x # tl (clause_of s cr)"
    using a(2) i(2) by (cases "clause_of s cr") simp_all
  then show thesis
    using that [OF cr a(1) c i] a(3) by blast
qed

lemma reason_tail_false:
  assumes "reasons_known s" "x \<in> false_lits s" "reason s (lit_var x) = CRef cr"
  shows "set (tl (clause_of s cr)) \<subseteq> false_lits s"
proof -
  show ?thesis
  proof (rule known_reason [OF assms(1,2)])
    show "reason s (lit_var x) \<noteq> CRef_Undef"
      using assms(3) by simp
    fix cr' i c
    assume "reason s (lit_var x) = CRef cr'" and f: "\<forall>q \<in> set (tl (clause_of s cr')). lit_not q \<in> set (take i (trail s))"
    then have "cr' = cr"
      using assms(3) by simp
    then show ?thesis
      using f in_set_takeD [of _ i "trail s"] by (auto simp: false_lits_def)
  qed
qed

lemma false_lit_var: "trail_inv s \<Longrightarrow> x \<in> false_lits s \<Longrightarrow> lit_var x < Sat_Solver.nVars s"
  using trail_inv_ok [of s "lit_not x"] by (simp add: false_lits_def lit_ok_def)

definition unseen :: "bool list \<Rightarrow> nat" where
  "unseen sn = length (filter Not sn)"

lemma unseen_mark:
  "distinct (map lit_var new) \<Longrightarrow> \<forall>q \<in> set new. lit_var q < length sn \<and> \<not> sn ! lit_var q \<Longrightarrow>
   unseen (mark_seen new sn) + length new = unseen sn"
proof (induction new arbitrary: sn)
  case (Cons q new)
  let ?sn = "sn[lit_var q := True]"
  have q: "lit_var q < length sn" "\<not> sn ! lit_var q"
    using Cons.prems(2) by simp_all
  have s: "sn = take (lit_var q) sn @ False # drop (Suc (lit_var q)) sn"
    using id_take_nth_drop [OF q(1)] q(2) by simp
  have "unseen sn = unseen (take (lit_var q) sn @ False # drop (Suc (lit_var q)) sn)"
    by (rule arg_cong [OF s])
  also have "\<dots> = unseen (take (lit_var q) sn @ True # drop (Suc (lit_var q)) sn) + 1"
    by (simp add: unseen_def)
  also have "take (lit_var q) sn @ True # drop (Suc (lit_var q)) sn = ?sn"
    by (rule upd_conv_take_nth_drop [OF q(1), symmetric])
  finally have "unseen ?sn + 1 = unseen sn"
    by simp
  moreover have "unseen (mark_seen new ?sn) + length new = unseen ?sn"
    by (rule Cons.IH) (use Cons.prems in \<open>auto simp: nth_list_update\<close>)
  ultimately show ?case
    by simp
qed simp

text \<open>
  The loop: \<open>D\<close> are the literals marked so far; each of them and \<open>p0\<close> is on the stack or
  leads to marked literals.
\<close>

definition loop_inv :: "'a sat_solver_scheme \<Rightarrow> bool list \<Rightarrow> lit \<Rightarrow> lit list \<Rightarrow> lit list \<Rightarrow> bool" where
  "loop_inv s sn0 p0 D stack \<longleftrightarrow> set stack \<subseteq> insert p0 (set D) \<and> distinct (map lit_var D) \<and>
     (\<forall>x \<in> insert p0 (set D). x \<in> false_lits s \<and> reason s (lit_var x) \<noteq> CRef_Undef \<and>
        (x \<in> set stack \<or> closed_lit s (mark_seen D sn0) x)) \<and>
     (\<forall>x \<in> set D. \<not> sn0 ! lit_var x \<and> 0 < level s (lit_var x))"

text \<open>The outcome: given up with the old marks, or all new marks closed.\<close>

definition redundant_outcome :: "'a sat_solver_scheme \<Rightarrow> bool list \<Rightarrow> lit \<Rightarrow> lit list \<Rightarrow> bool \<times> lit list \<times> 'a sat_solver_scheme \<Rightarrow> bool" where
  "redundant_outcome s sn0 p0 clr0 r \<longleftrightarrow> (case r of (b, clr, s') \<Rightarrow>
     (\<not> b \<longrightarrow> clr = clr0 \<and> s' = s\<lparr>seen := sn0\<rparr>) \<and>
     (b \<longrightarrow> (\<exists>D. clr = clr0 @ D \<and> s' = s\<lparr>seen := mark_seen D sn0\<rparr> \<and> loop_inv s sn0 p0 D [])))"

lemma closed_mono:
  assumes "reasons_known s" "x \<in> false_lits s" "closed_lit s sn x" "\<And>v. v < Sat_Solver.nVars s \<Longrightarrow> sn ! v \<Longrightarrow> sn' ! v"
  shows "closed_lit s sn' x"
proof -
  have t: "trail_inv s"
    using assms(1) by (simp add: reasons_known_def)
  obtain cr where cr: "reason s (lit_var x) = CRef cr" "\<forall>q \<in> set (tl (clause_of s cr)). sn ! lit_var q \<or> level s (lit_var q) = 0"
    using assms(3) by (auto simp: closed_lit_def)
  have "sn' ! lit_var q \<or> level s (lit_var q) = 0" if q: "q \<in> set (tl (clause_of s cr))" for q
  proof -
    have "lit_var q < Sat_Solver.nVars s"
      by (rule false_lit_var [OF t]) (use reason_tail_false [OF assms(1,2) cr(1)] q in blast)
    then show ?thesis
      using bspec [OF cr(2) q] assms(4) [of "lit_var q"] by (elim disjE) simp_all
  qed
  then show ?thesis
    unfolding closed_lit_def by (intro exI [of _ cr] conjI ballI cr(1))
qed

lemma redundant_loop_ok:
  assumes "reasons_known s" "sat_minimize_conflicts cfg = 1" "length sn0 = Sat_Solver.nVars s" "loop_inv s sn0 p0 D stack"
  shows "\<exists>r. redundant_loop cfg R ab (length clr0) stack (clr0 @ D) (s\<lparr>seen := mark_seen D sn0\<rparr>) = Some (Inr r) \<and>
    redundant_outcome s sn0 p0 clr0 r"
  using assms(4)
proof (induction "2 * unseen (mark_seen D sn0) + length stack" arbitrary: D stack rule: less_induct)
  case less
  let ?sn = "mark_seen D sn0"
  let ?s = "s\<lparr>seen := ?sn\<rparr>"
  show ?case
  proof (cases stack rule: rev_cases)
    case Nil
    then show ?thesis
      using less.prems by (subst redundant_loop.simps) (auto simp: redundant_outcome_def)
  next
    case (snoc st x)
    have x: "x \<in> false_lits s" "reason s (lit_var x) \<noteq> CRef_Undef"
      using less.prems snoc by (auto simp: loop_inv_def)
    obtain cr c where cr: "reason s (lit_var x) = CRef cr" "clause_at s cr = Inr c" "lits c = clause_of s cr"
      using known_reason [OF assms(1) x] by metis
    let ?ps = "tl (clause_of s cr)"
    obtain b sn' stack' clr' where r: "redundant_lits s ab ?ps ?sn st (clr0 @ D) = (b, sn', stack', clr')"
      by (metis prod_cases4)
    note fl = reason_tail_false [OF assms(1) x(1) cr(1)]
    have t: "trail_inv s"
      using assms(1) by (simp add: reasons_known_def)
    have len: "\<forall>q \<in> false_lits s. lit_var q < length ?sn"
      using false_lit_var [OF t] assms(3) by simp
    obtain new where new: "sn' = mark_seen new ?sn" "stack' = st @ new" "clr' = (clr0 @ D) @ new" "fresh_lits s ?ps ?sn new"
        "b \<longrightarrow> (\<forall>q \<in> set ?ps. sn' ! lit_var q \<or> level s (lit_var q) = 0)"
      using redundant_lits_ok [OF r] fl len by blast
    have nf: "set new \<subseteq> false_lits s" "distinct (map lit_var new)" "\<forall>q \<in> set new. lit_var q < length ?sn \<and> \<not> ?sn ! lit_var q"
        "\<forall>q \<in> set new. 0 < level s (lit_var q) \<and> reason s (lit_var q) \<noteq> CRef_Undef"
      using new(4) fl len unfolding fresh_lits_def by blast+
    have Dn: "\<forall>q \<in> set (D @ new). lit_var q < length sn0 \<and> \<not> sn0 ! lit_var q"
      using nf(3) less.prems len by (auto simp: loop_inv_def mark_seen_nth)
    have step: "redundant_loop cfg R ab (length clr0) stack (clr0 @ D) ?s =
        (if b then redundant_loop cfg R ab (length clr0) stack' clr' (s\<lparr>seen := sn'\<rparr>)
         else Some (Inr (give_up (length clr0) clr' (s\<lparr>seen := sn'\<rparr>))))"
      using snoc assms(2) cr r by (subst redundant_loop.simps) (simp add: Let_def)
    show ?thesis
    proof (cases b)
      case False
      have "clear_seen (D @ new) (mark_seen (D @ new) sn0) = sn0"
        by (rule clear_mark [OF Dn])
      then have "give_up (length clr0) clr' (s\<lparr>seen := sn'\<rparr>) = (False, clr0, s\<lparr>seen := sn0\<rparr>)"
        by (simp add: give_up_def new(1,3))
      then show ?thesis
        using step False by (simp add: redundant_outcome_def)
    next
      case True
      have mono: "sn' ! v" if "v < Sat_Solver.nVars s" "?sn ! v" for v
        using that assms(3) by (simp add: new(1) mark_seen_nth)
      have "closed_lit s sn' x"
        using new(5) True cr(1) by (auto simp: closed_lit_def)
      moreover have "y \<in> set stack' \<or> closed_lit s sn' y" if "y \<in> insert p0 (set (D @ new))" "y \<noteq> x" for y
      proof (cases "y \<in> set new")
        case False
        then have "y \<in> insert p0 (set D)"
          using that(1) by auto
        then have "y \<in> false_lits s" "y \<in> set stack \<or> closed_lit s ?sn y"
          using less.prems by (auto simp: loop_inv_def)
        then show ?thesis
          using closed_mono [OF assms(1) _ _ mono] that(2) snoc new(2) by auto
      qed (simp add: new(2))
      moreover have "distinct (map lit_var (D @ new))"
      proof -
        have "lit_var d \<noteq> lit_var q" if "d \<in> set D" "q \<in> set new" for d q
        proof
          assume "lit_var d = lit_var q"
          then have "?sn ! lit_var q"
            using that nf(3) by (subst mark_seen_nth) (auto intro: rev_image_eqI)
          then show False
            using nf(3) that(2) by blast
        qed
        then show ?thesis
          using less.prems nf(2) by (auto simp: loop_inv_def)
      qed
      ultimately have inv: "loop_inv s sn0 p0 (D @ new) stack'"
        using less.prems nf Dn unfolding loop_inv_def new(2) snoc by (auto simp: new(1))
      have "unseen sn' + length new = unseen ?sn"
        unfolding new(1) by (rule unseen_mark [OF nf(2,3)])
      then have "2 * unseen (mark_seen (D @ new) sn0) + length stack' < 2 * unseen ?sn + length stack"
        by (simp add: new(1,2) snoc)
      from less.hyps [OF this inv] show ?thesis
        using step True by (simp add: new(1,3))
    qed
  qed
qed

section \<open>The minimisation\<close>

lemma litRedundant_ok:
  assumes "reasons_known s" "sat_minimize_conflicts cfg \<le> 1" "length sn = Sat_Solver.nVars s"
    and p: "p \<in> false_lits s" "reason s (lit_var p) \<noteq> CRef_Undef"
  shows "\<exists>r. litRedundant cfg R p ab clr (s\<lparr>seen := sn\<rparr>) = Inr r \<and> redundant_outcome s sn p clr r"
proof (cases "sat_minimize_conflicts cfg = 1")
  case True
  have "loop_inv s sn p [] [p]"
    using p by (simp add: loop_inv_def)
  from redundant_loop_ok [OF assms(1) True assms(3) this, of R ab clr] obtain r where
    "redundant_loop cfg R ab (length clr) [p] clr (s\<lparr>seen := sn\<rparr>) = Some (Inr r)" "redundant_outcome s sn p clr r"
    by auto
  then show ?thesis
    using True by (simp add: litRedundant_def)
next
  case False
  then show ?thesis
    using assms(2) by (simp add: litRedundant_def redundant_outcome_def)
qed

text \<open>
  What the minimisation of the literals \<open>qs\<close> leaves: \<open>D\<close> are the literals marked on the way;
  every literal of the clause or of \<open>D\<close> is kept or leads to marked literals.
\<close>

definition minimized :: "'a sat_solver_scheme \<Rightarrow> bool list \<Rightarrow> lit list \<Rightarrow> lit list \<Rightarrow> lit list \<Rightarrow> bool" where
  "minimized s sn qs ks D \<longleftrightarrow> set ks \<subseteq> set qs \<and> (distinct qs \<longrightarrow> distinct ks) \<and> set D \<subseteq> false_lits s \<and> distinct (map lit_var D) \<and>
     (\<forall>x \<in> set D. \<not> sn ! lit_var x) \<and>
     (\<forall>x \<in> set qs \<union> set D. x \<in> set ks \<or> closed_lit s (mark_seen D sn) x)"

lemma image_disjoint:
  assumes "\<forall>x \<in> B. f x \<notin> f ` A"
  shows "f ` A \<inter> f ` B = {}"
proof (rule equals0I)
  fix v assume "v \<in> f ` A \<inter> f ` B"
  then have v: "v \<in> f ` A" "v \<in> f ` B"
    by simp_all
  from v(2) obtain x where "v = f x" "x \<in> B"
    by (rule imageE)
  then show False
    using assms v(1) by blast
qed

lemma minimize_loop_ok:
  assumes "reasons_known s" "sat_minimize_conflicts cfg \<le> 1" "length sn = Sat_Solver.nVars s" "set qs \<subseteq> false_lits s"
  shows "\<exists>ks D. minimize_loop cfg R ab qs clr (s\<lparr>seen := sn\<rparr>) = Inr (ks, clr @ D, s\<lparr>seen := mark_seen D sn\<rparr>) \<and> minimized s sn qs ks D"
  using assms(3,4)
proof (induction qs arbitrary: clr sn)
  case Nil
  then show ?case
    by (intro exI [of _ "[]"]) (simp add: minimized_def)
next
  case (Cons q qs)
  have q: "q \<in> false_lits s" "set qs \<subseteq> false_lits s"
    using Cons.prems(2) by simp_all
  note t = assms(1) [unfolded reasons_known_def, THEN conjunct1]
  show ?case
  proof (cases "reason s (lit_var q) = CRef_Undef")
    case True
    obtain ks D where k: "minimize_loop cfg R ab qs clr (s\<lparr>seen := sn\<rparr>) = Inr (ks, clr @ D, s\<lparr>seen := mark_seen D sn\<rparr>)" "minimized s sn qs ks D"
      using Cons.IH [OF Cons.prems(1) q(2)] by blast
    have "minimized s sn (q # qs) (q # ks) D"
      using k(2) by (auto simp: minimized_def)
    then show ?thesis
      using k(1) True by (intro exI [of _ "q # ks"] exI [of _ D]) simp
  next
    case False
    obtain b clr1 s1 where r: "litRedundant cfg R q ab clr (s\<lparr>seen := sn\<rparr>) = Inr (b, clr1, s1)" "redundant_outcome s sn q clr (b, clr1, s1)"
      using litRedundant_ok [OF assms(1,2) Cons.prems(1) q(1) False] by (metis prod_cases3)
    show ?thesis
    proof (cases b)
      case True
      then obtain D1 where D1: "clr1 = clr @ D1" "s1 = s\<lparr>seen := mark_seen D1 sn\<rparr>" "loop_inv s sn q D1 []"
        using r(2) by (auto simp: redundant_outcome_def)
      let ?sn = "mark_seen D1 sn"
      have len: "length ?sn = Sat_Solver.nVars s"
        using Cons.prems(1) by simp
      obtain ks D where k: "minimize_loop cfg R ab qs clr1 (s\<lparr>seen := ?sn\<rparr>) = Inr (ks, clr1 @ D, s\<lparr>seen := mark_seen D ?sn\<rparr>)" "minimized s ?sn qs ks D"
        using Cons.IH [OF len q(2)] by blast
      have vars: "lit_var x < length sn" if "x \<in> false_lits s" for x
        using false_lit_var [OF t that] Cons.prems(1) by simp
      have mono: "mark_seen D ?sn ! v" if "v < Sat_Solver.nVars s" "?sn ! v" for v
        using that len by (simp add: mark_seen_nth)
      have old: "closed_lit s (mark_seen (D1 @ D) sn) x" if "x \<in> insert q (set D1)" for x
        unfolding mark_seen_simps
        by (rule closed_mono [OF assms(1), where sn = ?sn]) (use D1(3) that mono in \<open>auto simp: loop_inv_def\<close>)
      have D: "\<not> sn ! lit_var x \<and> lit_var x \<notin> lit_var ` set D1" if "x \<in> set D" for x
      proof -
        have "x \<in> false_lits s" "\<not> ?sn ! lit_var x"
          using k(2) that by (auto simp: minimized_def)
        then show ?thesis
          using mark_seen_nth [OF vars, of x D1] by simp
      qed
      have "distinct (map lit_var (D1 @ D))"
      proof -
        have "\<forall>x \<in> set D. lit_var x \<notin> lit_var ` set D1"
          using D by simp
        then have "lit_var ` set D1 \<inter> lit_var ` set D = {}"
          by (rule image_disjoint)
        moreover have "distinct (map lit_var D1)" "distinct (map lit_var D)"
          using k(2) D1(3) by (simp_all add: minimized_def loop_inv_def)
        ultimately show ?thesis
          by simp
      qed
      moreover have "\<forall>x \<in> set (q # qs) \<union> set (D1 @ D). x \<in> set ks \<or> closed_lit s (mark_seen (D1 @ D) sn) x"
        using k(2) old by (auto simp: minimized_def)
      ultimately have "minimized s sn (q # qs) ks (D1 @ D)"
        using k(2) D1(3) D unfolding minimized_def loop_inv_def by auto
      then show ?thesis
        using k(1) r(1) False True D1(1,2) by (intro exI [of _ ks] exI [of _ "D1 @ D"]) simp
    next
      case b: False
      then have r1: "clr1 = clr" "s1 = s\<lparr>seen := sn\<rparr>"
        using r(2) by (simp_all add: redundant_outcome_def)
      obtain ks D where k: "minimize_loop cfg R ab qs clr (s\<lparr>seen := sn\<rparr>) = Inr (ks, clr @ D, s\<lparr>seen := mark_seen D sn\<rparr>)" "minimized s sn qs ks D"
        using Cons.IH [OF Cons.prems(1) q(2)] by blast
      have "minimized s sn (q # qs) (q # ks) D"
        using k(2) by (auto simp: minimized_def)
      then show ?thesis
        using k(1) r(1) r1 False b by (intro exI [of _ "q # ks"] exI [of _ D]) simp
    qed
  qed
qed

section \<open>What is dropped is false\<close>

text \<open>
  A set of false literals, each kept or closed under its reason: an assignment that satisfies the clauses and
  falsifies the literals that are kept falsifies all of them, by induction along the trail.
\<close>

lemma closed_false:
  assumes "reasons_known s" "db_sat \<alpha> s" "\<forall>p \<in> set (trail s). level s (lit_var p) = 0 \<longrightarrow> lsat \<alpha> p"
    and X: "X \<subseteq> false_lits s" "\<forall>x \<in> X. x \<in> K \<or> closed_lit s sn x"
    and sn: "\<And>v. v < Sat_Solver.nVars s \<Longrightarrow> sn ! v \<longleftrightarrow> v \<in> lit_var ` X" and K: "\<forall>x \<in> K. \<not> lsat \<alpha> x"
  shows "x \<in> X \<Longrightarrow> \<not> lsat \<alpha> x"
proof -
  have t: "trail_inv s"
    using assms(1) by (simp add: reasons_known_def)
  have "\<not> lsat \<alpha> x" if "i < length (trail s)" "trail s ! i = lit_not x" "x \<in> X" for i x
    using that
  proof (induction i arbitrary: x rule: less_induct)
    case (less i)
    show ?case
    proof (cases "x \<in> K")
      case False
      have fx: "x \<in> false_lits s"
        using X(1) less.prems(3) by blast
      obtain cr where cr: "reason s (lit_var x) = CRef cr" "\<forall>q \<in> set (tl (clause_of s cr)). sn ! lit_var q \<or> level s (lit_var q) = 0"
        using X(2) less.prems(3) False by (auto simp: closed_lit_def)
      have ro: "cr \<in> attached s" "clause_of s cr ! 0 = lit_not x" "\<forall>q \<in> set (tl (clause_of s cr)). lit_not q \<in> set (take i (trail s))"
        using assms(1) less.prems(1,2) cr(1) unfolding reasons_known_def reasons_ok_def by (metis lit_var_not)+
      have "\<not> lsat \<alpha> q" if q: "q \<in> set (tl (clause_of s cr))" for q
      proof -
        obtain j where j: "j < i" "j < length (trail s)" "trail s ! j = lit_not q"
          using ro(3) q less.prems(1) by (fastforce simp: in_set_conv_nth)
        have mem: "lit_not q \<in> set (trail s)"
          using j(2,3) by (metis nth_mem)
        show ?thesis
        proof (cases "level s (lit_var q) = 0")
          case True
          then have "lsat \<alpha> (lit_not q)"
            using bspec [OF assms(3) mem] by (simp del: lsat_not)
          then show ?thesis
            by simp
        next
          case False
          have "lit_var q < Sat_Solver.nVars s"
            using trail_inv_ok [OF t mem] by (simp add: lit_ok_def)
          then obtain y where y: "y \<in> X" "lit_var y = lit_var q"
            using cr(2) q False sn by fastforce
          have "lit_not y \<in> set (trail s)"
            using X(1) y(1) by (auto simp: false_lits_def)
          then have "lit_not y = lit_not q"
            using t mem y(2) inj_onD [of lit_var "set (trail s)" "lit_not y" "lit_not q"] by (simp add: trail_inv_def distinct_map)
          then have "y = q"
            by simp
          then show ?thesis
            using less.IH [OF j(1,2)] j(3) y(1) by simp
        qed
      qed
      moreover have "csat \<alpha> (clause_of s cr)"
        using assms(2) ro(1) by (simp add: db_sat_def)
      moreover have "clause_of s cr = lit_not x # tl (clause_of s cr)"
        using ro(2) good_clauseD(1) [OF db_invD(1) [OF _ ro(1)]] assms(1) by (cases "clause_of s cr") (auto simp: reasons_known_def)
      ultimately have "lsat \<alpha> (lit_not x)"
        unfolding csat_def by (metis set_ConsD)
      then show ?thesis
        by simp
    qed (use K in blast)
  qed
  moreover assume "x \<in> X"
  ultimately show "\<not> lsat \<alpha> x"
    using X(1) by (auto simp: false_lits_def in_set_conv_nth)
qed

end
