(* ===== verification/Sat_Learn.thy ===== *)
theory Sat_Learn
  imports Sat_Redundant Sat_Add
begin

text \<open>
  The analysis of a conflict: it resolves along the trail down to the first unique implication point of the
  decision level, so that the learnt clause follows from the clauses and becomes unit after backtracking.
\<close>

section \<open>What the analysis relies on\<close>

text \<open>Literals without a reason are decisions, the first of their level, and there is a literal of level 0.\<close>

definition decided :: "'a sat_solver_scheme \<Rightarrow> bool" where
  "decided s \<longleftrightarrow> (\<forall>i < length (trail s). reason s (lit_var (trail s ! i)) = CRef_Undef \<longrightarrow>
     level s (lit_var (trail s ! i)) = 0 \<or> i = trail_lim s ! (level s (lit_var (trail s ! i)) - 1))"

definition rooted :: "'a sat_solver_scheme \<Rightarrow> bool" where
  "rooted s \<longleftrightarrow> level0 s \<noteq> []"

text \<open>The models of the clauses and of the literals of level 0, among the assignments that the theory \<open>T\<close> allows.\<close>

definition models_at :: "((nat \<Rightarrow> bool) \<Rightarrow> bool) \<Rightarrow> 'a sat_solver_scheme \<Rightarrow> (nat \<Rightarrow> bool) \<Rightarrow> bool" where
  "models_at T s \<alpha> \<longleftrightarrow> T \<alpha> \<and> db_sat \<alpha> s \<and> (\<forall>p \<in> set (trail s). level s (lit_var p) = 0 \<longrightarrow> lsat \<alpha> p)"

lemma same_var_false:
  assumes "trail_inv s" "q \<in> false_lits s" "r \<in> false_lits s" "lit_var q = lit_var r"
  shows "q = r"
proof -
  have "lit_not q = lit_not r"
    using assms inj_onD [of lit_var "set (trail s)" "lit_not q" "lit_not r"] by (simp add: trail_inv_def distinct_map false_lits_def)
  then show ?thesis
    by simp
qed

section \<open>The literals of one clause\<close>

text \<open>
  The marks are those of the literals learnt so far and of the pivots, the literals of the decision level at
  the positions in \<open>P\<close> that are still to be resolved.
\<close>

definition analyze_inv :: "'a sat_solver_scheme \<Rightarrow> bool list \<Rightarrow> lit list \<Rightarrow> nat set \<Rightarrow> bool" where
  "analyze_inv s sn out P \<longleftrightarrow> length sn = Sat_Solver.nVars s \<and>
     (\<forall>i \<in> P. i < length (trail s) \<and> level s (lit_var (trail s ! i)) = decisionLevel s) \<and>
     set out \<subseteq> false_lits s \<and> distinct (map lit_var out) \<and>
     (\<forall>q \<in> set out. 0 < level s (lit_var q) \<and> level s (lit_var q) < decisionLevel s) \<and>
     (\<forall>v < Sat_Solver.nVars s. sn ! v \<longleftrightarrow> v \<in> lit_var ` set out \<or> v \<in> (\<lambda>i. lit_var (trail s ! i)) ` P)"

lemma analyze_inv_finite: "analyze_inv s sn out P \<Longrightarrow> finite P"
  by (rule finite_subset [of _ "{..< length (trail s)}"]) (auto simp: analyze_inv_def)

lemma analyze_marks:
  "analyze_inv s sn out P \<Longrightarrow> v < Sat_Solver.nVars s \<Longrightarrow>
   sn ! v \<longleftrightarrow> v \<in> lit_var ` set out \<or> v \<in> (\<lambda>i. lit_var (trail s ! i)) ` P"
  unfolding analyze_inv_def by blast

definition met :: "'a sat_solver_scheme \<Rightarrow> lit list \<Rightarrow> nat set \<Rightarrow> lit \<Rightarrow> bool" where
  "met s out P q \<longleftrightarrow> level s (lit_var q) = 0 \<or> q \<in> set out \<or> (\<exists>i \<in> P. trail s ! i = lit_not q)"

lemma analyze_lits_ok:
  "trail_inv s \<Longrightarrow> analyze_inv s sn out P \<Longrightarrow> set ls \<subseteq> false_lits s \<Longrightarrow>
   \<exists>sn' out' P'. analyze_lits s ls sn (int (card P)) out = (sn', int (card P'), out') \<and> analyze_inv s sn' out' P' \<and>
     set out \<subseteq> set out' \<and> P \<subseteq> P' \<and> (\<forall>i \<in> P'. i \<in> P \<or> lit_not (trail s ! i) \<in> set ls) \<and> (\<forall>q \<in> set ls. met s out' P' q)"
proof (induction ls arbitrary: sn out P)
  case Nil
  then show ?case
    by (intro exI [of _ sn] exI [of _ out] exI [of _ P]) simp
next
  case (Cons q ls)
  note inv = Cons.prems(2) [unfolded analyze_inv_def]
  have q: "q \<in> false_lits s" "set ls \<subseteq> false_lits s"
    using Cons.prems(3) by simp_all
  then obtain i where i: "i < length (trail s)" "trail s ! i = lit_not q"
    by (auto simp: false_lits_def in_set_conv_nth)
  have v: "lit_var q < Sat_Solver.nVars s"
    by (rule false_lit_var [OF Cons.prems(1) q(1)])
  consider (pivot) "\<not> sn ! lit_var q" "0 < level s (lit_var q)" "decisionLevel s \<le> level s (lit_var q)"
    | (low) "\<not> sn ! lit_var q" "0 < level s (lit_var q)" "level s (lit_var q) < decisionLevel s"
    | (old) "sn ! lit_var q \<or> level s (lit_var q) = 0"
    by linarith
  then show ?case
  proof cases
    case pivot
    have l: "level s (lit_var q) = decisionLevel s"
      using pivot(3) level_le [OF Cons.prems(1), of "lit_not q"] q(1) by (simp add: false_lits_def)
    have new: "i \<notin> P"
      using inv pivot(1) v i(2) by (metis image_eqI lit_var_not)
    have "analyze_inv s (sn[lit_var q := True]) out (insert i P)"
      using inv i l v unfolding analyze_inv_def by (auto simp: nth_list_update)
    from Cons.IH [OF Cons.prems(1) this q(2)] obtain sn' out' P' where
      r: "analyze_lits s ls (sn[lit_var q := True]) (int (card (insert i P))) out = (sn', int (card P'), out')" "analyze_inv s sn' out' P'"
        "set out \<subseteq> set out'" "insert i P \<subseteq> P'" "\<forall>j \<in> P'. j \<in> insert i P \<or> lit_not (trail s ! j) \<in> set ls" "\<forall>q \<in> set ls. met s out' P' q"
      by blast
    have "int (card P) + 1 = int (card (insert i P))"
      using new analyze_inv_finite [OF Cons.prems(2)] by simp
    then have "analyze_lits s (q # ls) sn (int (card P)) out = (sn', int (card P'), out')"
      using pivot r(1) by simp
    moreover have "met s out' P' q"
      using r(4) i(2) by (auto simp: met_def)
    moreover have "\<forall>j \<in> P'. j \<in> P \<or> lit_not (trail s ! j) \<in> set (q # ls)"
      using r(5) i(2) by auto
    ultimately show ?thesis
      using r(2-4,6) by (intro exI [of _ sn'] exI [of _ out'] exI [of _ P']) auto
  next
    case low
    have "lit_var q \<notin> lit_var ` set out"
      using inv low(1) v by blast
    then have "analyze_inv s (sn[lit_var q := True]) (out @ [q]) P"
      using inv low v q(1) unfolding analyze_inv_def by (auto simp: nth_list_update)
    from Cons.IH [OF Cons.prems(1) this q(2)] obtain sn' out' P' where
      r: "analyze_lits s ls (sn[lit_var q := True]) (int (card P)) (out @ [q]) = (sn', int (card P'), out')" "analyze_inv s sn' out' P'"
        "set (out @ [q]) \<subseteq> set out'" "P \<subseteq> P'" "\<forall>j \<in> P'. j \<in> P \<or> lit_not (trail s ! j) \<in> set ls" "\<forall>q \<in> set ls. met s out' P' q"
      by blast
    have "analyze_lits s (q # ls) sn (int (card P)) out = (sn', int (card P'), out')"
      using low r(1) by simp
    moreover have "met s out' P' q"
      using r(3) by (auto simp: met_def)
    ultimately show ?thesis
      using r(2-6) by (intro exI [of _ sn'] exI [of _ out'] exI [of _ P']) auto
  next
    case old
    from Cons.IH [OF Cons.prems(1,2) q(2)] obtain sn' out' P' where
      r: "analyze_lits s ls sn (int (card P)) out = (sn', int (card P'), out')" "analyze_inv s sn' out' P'"
        "set out \<subseteq> set out'" "P \<subseteq> P'" "\<forall>j \<in> P'. j \<in> P \<or> lit_not (trail s ! j) \<in> set ls" "\<forall>q \<in> set ls. met s out' P' q"
      by blast
    have "met s out P q"
    proof (cases "level s (lit_var q) = 0")
      case False
      then have "lit_var q \<in> lit_var ` set out \<or> lit_var q \<in> (\<lambda>i. lit_var (trail s ! i)) ` P"
        using analyze_marks [OF Cons.prems(2) v] old by simp
      then show ?thesis
      proof
        assume "lit_var q \<in> lit_var ` set out"
        then obtain r where "r \<in> set out" "lit_var q = lit_var r"
          by (rule imageE)
        then show ?thesis
          using same_var_false [OF Cons.prems(1) q(1), of r] inv by (auto simp: met_def)
      next
        assume "lit_var q \<in> (\<lambda>i. lit_var (trail s ! i)) ` P"
        then obtain j where j: "j \<in> P" "lit_var q = lit_var (trail s ! j)"
          by (rule imageE)
        then have "lit_not (trail s ! j) \<in> false_lits s"
          using inv by (simp add: false_lits_def)
        then have "q = lit_not (trail s ! j)"
          using same_var_false [OF Cons.prems(1) q(1)] j(2) by simp
        then show ?thesis
          using j(1) by (auto simp: met_def)
      qed
    qed (simp add: met_def)
    then have "met s out' P' q"
      using r(3,4) by (auto simp: met_def)
    moreover have "analyze_lits s (q # ls) sn (int (card P)) out = (sn', int (card P'), out')"
      using old r(1) by auto
    ultimately show ?thesis
      using r(2-6) by (intro exI [of _ sn'] exI [of _ out'] exI [of _ P']) auto
  qed
qed

lemma analyze_lits_seen [simp]: "analyze_lits (s\<lparr>seen := x\<rparr>) = analyze_lits s"
proof (intro ext)
  show "analyze_lits (s\<lparr>seen := x\<rparr>) ls sn n out = analyze_lits s ls sn n out" for ls sn n out
    by (induction s ls sn n out rule: analyze_lits.induct) simp_all
qed

section \<open>The next pivot\<close>

lemma next_seen_ok:
  assumes "m < n" "seen s ! lit_var (trail s ! m)" "\<forall>i < n. seen s ! lit_var (trail s ! i) \<longrightarrow> i \<le> m"
  shows "next_seen s n = Inr m"
  using assms(1,3)
proof (induction n)
  case (Suc n)
  show ?case
  proof (cases "n = m")
    case False
    then have "m < n" "\<not> seen s ! lit_var (trail s ! n)"
      using Suc.prems by auto
    then show ?thesis
      using Suc by simp
  qed (simp add: assms(2))
qed simp

text \<open>Where the marks are on the trail: at the pivots, and below the decision level.\<close>

definition level_start :: "'a sat_solver_scheme \<Rightarrow> nat" where
  "level_start s = last (trail_lim s)"

lemma at_level:
  assumes "trail_inv s" "0 < decisionLevel s" "i < length (trail s)"
  shows "level s (lit_var (trail s ! i)) = decisionLevel s \<longleftrightarrow> level_start s \<le> i"
proof -
  have l: "trail_lim s \<noteq> []" "decisionLevel s - 1 < decisionLevel s"
    using assms(2) by (auto simp: decisionLevel_def)
  have "level s (lit_var (trail s ! i)) \<le> decisionLevel s - 1 \<longleftrightarrow> i < level_start s"
    using lim_level [OF assms(1) l(2) assms(3)] l(1) by (simp add: level_start_def last_conv_nth decisionLevel_def)
  moreover have "level s (lit_var (trail s ! i)) \<le> decisionLevel s"
    using level_le [OF assms(1)] assms(3) by simp
  ultimately show ?thesis
    using assms(2) by linarith
qed

lemma marked_position:
  assumes "trail_inv s" "0 < decisionLevel s" "analyze_inv s sn out P" "i < length (trail s)"
  shows "i \<in> P \<Longrightarrow> sn ! lit_var (trail s ! i)" "sn ! lit_var (trail s ! i) \<Longrightarrow> i \<in> P \<or> i < level_start s"
    "i \<in> P \<Longrightarrow> level_start s \<le> i"
proof -
  note inv = assms(3) [unfolded analyze_inv_def]
  have v: "lit_var (trail s ! i) < Sat_Solver.nVars s"
    using trail_inv_ok [OF assms(1), of "trail s ! i"] assms(4) by (simp add: lit_ok_def)
  show "sn ! lit_var (trail s ! i)" if "i \<in> P"
    using inv v that by blast
  show "level_start s \<le> i" if "i \<in> P"
    using inv that at_level [OF assms(1,2,4)] by blast
  show "i \<in> P \<or> i < level_start s" if m: "sn ! lit_var (trail s ! i)"
  proof -
    have d: "lit_var (trail s ! i) \<in> lit_var ` set out \<or> lit_var (trail s ! i) \<in> (\<lambda>i. lit_var (trail s ! i)) ` P"
      using analyze_marks [OF assms(3) v] m by simp
    consider r where "r \<in> set out" "lit_var (trail s ! i) = lit_var r" | j where "j \<in> P" "lit_var (trail s ! i) = lit_var (trail s ! j)"
      using d by (elim disjE imageE) blast+
    then show ?thesis
    proof cases
      case 1
      then have "level s (lit_var (trail s ! i)) \<noteq> decisionLevel s"
        using inv by auto
      then show ?thesis
        using at_level [OF assms(1,2,4)] by simp
    next
      case 2
      then have "i = j"
        using inv assms(1,4) nth_eq_iff_index_eq [of "map lit_var (trail s)" i j] by (auto simp: trail_inv_def)
      then show ?thesis
        using 2 by simp
    qed
  qed
qed

lemma next_pivot:
  assumes "trail_inv s" "0 < decisionLevel s" "analyze_inv s sn out P" "P \<noteq> {}" "P \<subseteq> {..< n}" "n \<le> length (trail s)"
  shows "next_seen (s\<lparr>seen := sn\<rparr>) n = Inr (Max P)" "Max P \<in> P" "P - {Max P} \<subseteq> {..< Max P}"
proof -
  note fin = analyze_inv_finite [OF assms(3)]
  show m: "Max P \<in> P"
    by (rule Max_in [OF fin assms(4)])
  show "P - {Max P} \<subseteq> {..< Max P}"
    using Max_ge [OF fin] by (auto simp: order.strict_iff_order)
  have ml: "Max P < n" "Max P < length (trail s)"
    using m assms(5,6) by auto
  show "next_seen (s\<lparr>seen := sn\<rparr>) n = Inr (Max P)"
  proof (rule next_seen_ok [OF ml(1)])
    show "seen (s\<lparr>seen := sn\<rparr>) ! lit_var (trail (s\<lparr>seen := sn\<rparr>) ! Max P)"
      using marked_position(1) [OF assms(1-3) ml(2) m] by simp
    have "i \<le> Max P" if "i < n" "sn ! lit_var (trail s ! i)" for i
    proof -
      have "i \<in> P \<or> i < level_start s"
        using marked_position(2) [OF assms(1-3) _ that(2)] that(1) assms(6) by simp
      then show ?thesis
        using Max_ge [OF fin, of i] marked_position(3) [OF assms(1-3) ml(2) m] by auto
    qed
    then show "\<forall>i < n. seen (s\<lparr>seen := sn\<rparr>) ! lit_var (trail (s\<lparr>seen := sn\<rparr>) ! i) \<longrightarrow> i \<le> Max P"
      by simp
  qed
qed

section \<open>Resolution along the trail\<close>

text \<open>The literals learnt, with the complements of the pivots, hold in every model of the clauses.\<close>

definition entailed :: "'a sat_solver_scheme \<Rightarrow> lit list \<Rightarrow> nat set \<Rightarrow> (nat \<Rightarrow> bool) \<Rightarrow> bool" where
  "entailed s out P \<alpha> \<longleftrightarrow> csat \<alpha> out \<or> (\<exists>i \<in> P. \<not> lsat \<alpha> (trail s ! i))"

lemma met_entailed:
  assumes "models_at T s \<alpha>" "set C \<subseteq> false_lits s" "\<forall>q \<in> set C. met s out P q" "csat \<alpha> C"
  shows "entailed s out P \<alpha>"
proof -
  obtain q where q: "q \<in> set C" "lsat \<alpha> q"
    using assms(4) by (auto simp: csat_def)
  have f: "lit_not q \<in> set (trail s)"
    using q(1) assms(2) by (auto simp: false_lits_def)
  have "\<not> lsat \<alpha> (lit_not q)"
    using q(2) by simp
  then have "level s (lit_var q) \<noteq> 0"
    using assms(1) f by (auto simp: models_at_def simp del: lsat_not)
  then consider "q \<in> set out" | i where "i \<in> P" "trail s ! i = lit_not q"
    using assms(3) q(1) by (auto simp: met_def)
  then show ?thesis
  proof cases
    case 1
    then show ?thesis
      using q(2) by (auto simp: entailed_def csat_def)
  next
    case 2
    then have "\<not> lsat \<alpha> (trail s ! i)"
      using q(2) by simp
    then show ?thesis
      using 2(1) by (auto simp: entailed_def)
  qed
qed

lemma resolved_inv:
  assumes t: "trail_inv s" and inv: "analyze_inv s sn out P" and m: "m \<in> P"
  shows "analyze_inv s (sn[lit_var (trail s ! m) := False]) out (P - {m})"
proof -
  note i = inv [unfolded analyze_inv_def]
  let ?v = "lit_var (trail s ! m)"
  have ml: "m < length (trail s)" "level s ?v = decisionLevel s"
    using i m by auto
  have "?v \<notin> lit_var ` set out"
    using i ml(2) by auto
  moreover have "lit_var (trail s ! j) \<noteq> ?v" if "j \<in> P - {m}" for j
    using that i ml(1) t nth_eq_iff_index_eq [of "map lit_var (trail s)" j m] by (auto simp: trail_inv_def)
  ultimately have "sn[?v := False] ! v \<longleftrightarrow> v \<in> lit_var ` set out \<or> v \<in> (\<lambda>j. lit_var (trail s ! j)) ` (P - {m})"
    if "v < Sat_Solver.nVars s" for v
  proof (cases "v = ?v")
    case True
    have "?v < length sn"
      using i True that by simp
    moreover have "?v \<notin> (\<lambda>j. lit_var (trail s ! j)) ` (P - {m})"
      using \<open>\<And>j. j \<in> P - {m} \<Longrightarrow> lit_var (trail s ! j) \<noteq> ?v\<close> by (metis imageE)
    ultimately show ?thesis
      using True \<open>?v \<notin> lit_var ` set out\<close> by simp
  next
    case False
    then have "v \<in> (\<lambda>j. lit_var (trail s ! j)) ` (P - {m}) \<longleftrightarrow> v \<in> (\<lambda>j. lit_var (trail s ! j)) ` P"
      by blast
    then show ?thesis
      using analyze_marks [OF inv that] False by simp
  qed
  then show ?thesis
    using i unfolding analyze_inv_def by auto
qed

lemma rooted_start:
  assumes "trail_inv s" "rooted s" "0 < decisionLevel s"
  shows "0 < level_start s"
proof -
  have l: "trail_lim s \<noteq> []"
    using assms(3) by (auto simp: decisionLevel_def)
  then have "0 < hd (trail_lim s)"
    using assms(2) by (auto simp: rooted_def level0_def)
  moreover have "hd (trail_lim s) \<le> last (trail_lim s)"
    using assms(1) l unfolding trail_inv_def by (cases "trail_lim s") auto
  ultimately show ?thesis
    by (simp add: level_start_def)
qed

lemma trail_index:
  assumes "trail_inv s" "i < length (trail s)" "j < length (trail s)" "trail s ! i = trail s ! j"
  shows "i = j"
proof -
  have "distinct (trail s)"
    using assms(1) by (simp add: trail_inv_def distinct_map)
  then show ?thesis
    using assms(2-4) by (simp add: nth_eq_iff_index_eq)
qed

lemma analyze_loop_ok:
  assumes "reasons_known s" "decided s" "rooted s" "0 < decisionLevel s"
    and "analyze_inv s sn out P" "P \<subseteq> {..< n}" "n \<le> length (trail s)" "clause_at s cr = Inr c"
    and "\<forall>q \<in> set (if first then lits c else tl (lits c)). lit_not q \<in> set (take n (trail s))"
    and "P \<noteq> {} \<or> (\<exists>q \<in> set (if first then lits c else tl (lits c)). level s (lit_var q) = decisionLevel s)"
    and "\<forall>\<alpha>. models_at T s \<alpha> \<longrightarrow> csat \<alpha> (if first then lits c else tl (lits c)) \<or> entailed s out P \<alpha>"
  shows "\<exists>p out' sn'. analyze_loop cfg R (CRef cr) first n (int (card P)) out cleanup (s\<lparr>seen := sn\<rparr>) =
      Some (Inr (p, out', cleanup, s\<lparr>seen := sn'\<rparr>)) \<and> p \<in> set (trail s) \<and> level s (lit_var p) = decisionLevel s \<and>
    analyze_inv s sn' out' {} \<and> (\<forall>\<alpha>. models_at T s \<alpha> \<longrightarrow> csat \<alpha> (lit_not p # out'))"
  using assms(5-)
proof (induction n arbitrary: sn out P cr c first rule: less_induct)
  case (less n)
  let ?C = "if first then lits c else tl (lits c)"
  have t: "trail_inv s"
    using assms(1) by (simp add: reasons_known_def)
  have C: "set ?C \<subseteq> false_lits s"
    using less.prems(5) in_set_takeD [of _ n "trail s"] by (auto simp: false_lits_def)
  obtain sn1 out1 P1 where a: "analyze_lits s ?C sn (int (card P)) out = (sn1, int (card P1), out1)" "analyze_inv s sn1 out1 P1"
      "set out \<subseteq> set out1" "P \<subseteq> P1" "\<forall>i \<in> P1. i \<in> P \<or> lit_not (trail s ! i) \<in> set ?C" "\<forall>q \<in> set ?C. met s out1 P1 q"
    using analyze_lits_ok [OF t less.prems(1) C] by blast
  note inv = a(2) [unfolded analyze_inv_def]
  note fin = analyze_inv_finite [OF a(2)]
  have low: "P1 \<subseteq> {..< n}"
  proof
    fix i assume i: "i \<in> P1"
    then have il: "i < length (trail s)"
      using inv by blast
    show "i \<in> {..< n}"
    proof (cases "i \<in> P")
      case False
      then have "trail s ! i \<in> set (take n (trail s))"
        using a(5) i less.prems(5) by (metis lit_not_not)
      then obtain j where "j < n" "j < length (trail s)" "trail s ! j = trail s ! i"
        by (auto simp: in_set_conv_nth)
      then show ?thesis
        using trail_index [OF t _ il] by blast
    qed (use less.prems(2) in blast)
  qed
  have ne: "P1 \<noteq> {}"
  proof (cases "P = {}")
    case True
    then obtain q where q: "q \<in> set ?C" "level s (lit_var q) = decisionLevel s"
      using less.prems(6) by blast
    then have "q \<notin> set out1"
      using inv by auto
    then show ?thesis
      using a(6) q assms(4) by (auto simp: met_def)
  qed (use a(4) in blast)
  define m where "m = Max P1"
  note np = next_pivot [OF t assms(4) a(2) ne low less.prems(3), folded m_def]
  have m: "m < n" "m < length (trail s)" "level s (lit_var (trail s ! m)) = decisionLevel s"
    using np(2) low less.prems(3) inv by auto
  define p where "p = trail s ! m"
  have p: "p \<in> set (trail s)" "level s (lit_var p) = decisionLevel s" "lit_not p \<in> false_lits s"
    using m by (simp_all add: p_def false_lits_def)
  have start: "level_start s \<le> m"
    by (rule marked_position(3) [OF t assms(4) a(2) m(2) np(2)])
  have m1: "1 \<le> m"
    using start rooted_start [OF t assms(3,4)] by simp
  have nofake: "reason s (lit_var p) \<noteq> CRef_Fake"
    using assms(1) p(1) by (auto simp: reasons_known_def)
  let ?P = "P1 - {m}" and ?sn = "sn1[lit_var p := False]"
  have inv2: "analyze_inv s ?sn out1 ?P"
    unfolding p_def by (rule resolved_inv [OF t a(2) np(2)])
  have card: "int (card P1) - 1 = int (card ?P)"
    using np(2) fin by (simp add: card_gt_0_iff Suc_leI of_nat_diff ne)
  have undef: "?P = {}" if "reason s (lit_var p) = CRef_Undef"
  proof -
    have "m = trail_lim s ! (decisionLevel s - 1)"
      using assms(2,4) m that unfolding decided_def p_def by (metis less_numeral_extra(3))
    then have "m = level_start s"
      using assms(4) by (simp add: level_start_def decisionLevel_def last_conv_nth)
    moreover have "level_start s \<le> i" if "i \<in> ?P" for i
      using marked_position(3) [OF t assms(4) a(2)] that inv by blast
    ultimately show ?thesis
      using np(3) by fastforce
  qed
  have req: "int (card P1) = 1 \<or> reason s (lit_var p) \<noteq> CRef_Undef"
  proof (cases "reason s (lit_var p) = CRef_Undef")
    case True
    have "int (card P1) = 1"
      using card unfolding undef [OF True] by simp
    then show ?thesis ..
  qed simp
  have step: "analyze_loop cfg R (CRef cr) first n (int (card P)) out cleanup (s\<lparr>seen := sn\<rparr>) =
      (if 0 < int (card ?P) then analyze_loop cfg R (reason s (lit_var p)) False m (int (card ?P)) out1 cleanup (s\<lparr>seen := ?sn\<rparr>)
       else Some (Inr (p, out1, cleanup, s\<lparr>seen := ?sn\<rparr>)))"
    using less.prems(4) a(1) np(1) m1 nofake req unfolding card [symmetric]
    by (subst analyze_loop.simps) (simp add: Let_def p_def analyze_lits_seen)
  have sem1: "entailed s out1 P1 \<alpha>" if al: "models_at T s \<alpha>" for \<alpha>
  proof -
    consider "csat \<alpha> ?C" | "entailed s out P \<alpha>"
      using less.prems(7) al by blast
    then show ?thesis
    proof cases
      case 1
      show ?thesis
        by (rule met_entailed [OF al C a(6) 1])
    next
      case 2
      then show ?thesis
        using a(3,4) by (auto simp: entailed_def csat_def)
    qed
  qed
  have sem2: "entailed s out1 ?P \<alpha>" if "models_at T s \<alpha>" "lsat \<alpha> p" for \<alpha>
    using sem1 [OF that(1)] that(2) by (auto simp: entailed_def p_def)
  show ?case
  proof (cases "?P = {}")
    case True
    have "csat \<alpha> (lit_not p # out1)" if "models_at T s \<alpha>" for \<alpha>
      using sem2 [OF that] True by (cases "lsat \<alpha> p") (auto simp: entailed_def csat_def)
    then show ?thesis
      using step True inv2 [unfolded True] p(1,2) by (intro exI [of _ p] exI [of _ out1] exI [of _ ?sn]) simp
  next
    case False
    then have pos: "0 < int (card ?P)"
      using fin by (simp add: card_gt_0_iff)
    have nu: "reason s (lit_var (lit_not p)) \<noteq> CRef_Undef"
      using undef False by auto
    show ?thesis
    proof (rule known_reason [OF assms(1) p(3) nu], goal_cases)
      case (1 cr' i c')
      have im: "i = m"
        using trail_index [OF t 1(5) m(2)] 1(6) by (simp add: p_def)
      have "\<exists>p' out' sn'. analyze_loop cfg R (CRef cr') False m (int (card ?P)) out1 cleanup (s\<lparr>seen := ?sn\<rparr>) =
          Some (Inr (p', out', cleanup, s\<lparr>seen := sn'\<rparr>)) \<and> p' \<in> set (trail s) \<and> level s (lit_var p') = decisionLevel s \<and>
        analyze_inv s sn' out' {} \<and> (\<forall>\<alpha>. models_at T s \<alpha> \<longrightarrow> csat \<alpha> (lit_not p' # out'))"
      proof (rule less.IH [OF m(1) inv2 np(3) _ 1(3)])
        show "m \<le> length (trail s)"
          using m(2) by simp
        show "\<forall>q \<in> set (if False then lits c' else tl (lits c')). lit_not q \<in> set (take m (trail s))"
          using 1(8) unfolding im 1(4) by simp
        show "?P \<noteq> {} \<or> (\<exists>q \<in> set (if False then lits c' else tl (lits c')). level s (lit_var q) = decisionLevel s)"
          using False by blast
        have "csat \<alpha> (tl (clause_of s cr')) \<or> entailed s out1 ?P \<alpha>" if al: "models_at T s \<alpha>" for \<alpha>
        proof (cases "lsat \<alpha> p")
          case True
          show ?thesis
            using sem2 [OF al True] by blast
        next
          case nl: False
          have "csat \<alpha> (p # tl (clause_of s cr'))"
            using al 1(2,7) by (simp add: models_at_def db_sat_def)
          then show ?thesis
            using nl by (simp add: csat_def)
        qed
        then show "\<forall>\<alpha>. models_at T s \<alpha> \<longrightarrow> csat \<alpha> (if False then lits c' else tl (lits c')) \<or> entailed s out1 ?P \<alpha>"
          unfolding 1(4) by simp
      qed
      then show ?case
        using step pos 1(1) by simp
    qed
  qed
qed

section \<open>Minimisation\<close>

lemma minimize_ok:
  assumes "reasons_known s" "ccmin_mode cfg \<noteq> 1" "sat_minimize_conflicts cfg \<le> 1" "analyze_inv s sn out {}"
  shows "\<exists>ks D. minimize cfg R (q # out) (s\<lparr>seen := sn\<rparr>) = Inr (q # ks, (q # out) @ D, s\<lparr>seen := mark_seen D sn\<rparr>) \<and>
    set ks \<subseteq> set out \<and> distinct (map lit_var ks) \<and> set D \<subseteq> false_lits s \<and>
    (\<forall>\<alpha>. models_at T s \<alpha> \<longrightarrow> csat \<alpha> (q # out) \<longrightarrow> csat \<alpha> (q # ks))"
proof (cases "ccmin_mode cfg = 2")
  case False
  then show ?thesis
    using assms(2,4) by (intro exI [of _ out] exI [of _ "[]"]) (simp add: minimize_def analyze_inv_def)
next
  case True
  note inv = assms(4) [unfolded analyze_inv_def]
  have t: "trail_inv s"
    using assms(1) by (simp add: reasons_known_def)
  have len: "length sn = Sat_Solver.nVars s" "set out \<subseteq> false_lits s"
    using inv by simp_all
  let ?ab = "foldl (\<lambda>a q. a OR abstractLevel s (lit_var q)) 0 out"
  obtain ks D where k: "minimize_loop cfg R ?ab out (q # out) (s\<lparr>seen := sn\<rparr>) = Inr (ks, (q # out) @ D, s\<lparr>seen := mark_seen D sn\<rparr>)"
      "minimized s sn out ks D"
    using minimize_loop_ok [OF assms(1,3) len] by blast
  note mi = k(2) [unfolded minimized_def]
  have out: "distinct out" "inj_on lit_var (set out)"
    using inv by (simp_all add: distinct_map)
  have D: "set D \<subseteq> false_lits s"
    using mi by blast
  have ks: "set ks \<subseteq> set out" "distinct ks"
    using mi out(1) by simp_all
  then have "distinct (map lit_var ks)"
    using out(2) inj_on_subset by (auto simp: distinct_map)
  moreover have "csat \<alpha> (q # ks)" if al: "models_at T s \<alpha>" and c: "csat \<alpha> (q # out)" for \<alpha>
  proof (rule ccontr)
    assume n: "\<not> csat \<alpha> (q # ks)"
    have "\<not> lsat \<alpha> x" if x: "x \<in> set out" for x
    proof (rule closed_false [OF assms(1), where X = "set out \<union> set D" and K = "set ks" and sn = "mark_seen D sn"])
      show "db_sat \<alpha> s" "\<forall>p \<in> set (trail s). level s (lit_var p) = 0 \<longrightarrow> lsat \<alpha> p"
        using al by (simp_all add: models_at_def)
      show "set out \<union> set D \<subseteq> false_lits s"
        using len(2) D by blast
      show "\<forall>x \<in> set out \<union> set D. x \<in> set ks \<or> closed_lit s (mark_seen D sn) x"
        using mi by blast
      show "mark_seen D sn ! v \<longleftrightarrow> v \<in> lit_var ` (set out \<union> set D)" if "v < Sat_Solver.nVars s" for v
        using analyze_marks [OF assms(4) that] that len(1) by (auto simp: mark_seen_nth)
      show "\<forall>x \<in> set ks. \<not> lsat \<alpha> x"
        using n by (simp add: csat_def)
      show "x \<in> set out \<union> set D"
        using x by blast
    qed
    then show False
      using c n by (simp add: csat_def)
  qed
  ultimately show ?thesis
    using k(1) True ks(1) D by (intro exI [of _ ks] exI [of _ D]) (simp add: minimize_def Let_def)
qed

section \<open>The level to go back to\<close>

lemma max_level_index_ok:
  "max_level_index s out is m \<in> insert m (set is) \<and>
   (\<forall>i \<in> insert m (set is). level s (lit_var (out ! i)) \<le> level s (lit_var (out ! max_level_index s out is m)))"
proof (induction "is" arbitrary: m)
  case (Cons i "is")
  show ?case
  proof (cases "level s (lit_var (out ! m)) < level s (lit_var (out ! i))")
    case True
    then show ?thesis
      using Cons.IH [of i] by (auto intro: order.trans [OF less_imp_le])
  next
    case False
    then show ?thesis
      using Cons.IH [of m] by auto
  qed
qed simp

lemma swap_second:
  assumes "1 \<le> m" "m < length out"
  shows "set (out[m := out ! 1, 1 := out ! m]) = set out" "out[m := out ! 1, 1 := out ! m] ! 0 = out ! 0"
    "out[m := out ! 1, 1 := out ! m] ! 1 = out ! m" "mset (out[m := out ! 1, 1 := out ! m]) = mset out"
proof -
  show s: "mset (out[m := out ! 1, 1 := out ! m]) = mset out"
    using mset_swap [of 1 out m] assms by (cases "m = 1") (simp_all add: list_update_swap)
  then show "set (out[m := out ! 1, 1 := out ! m]) = set out"
    by (rule mset_eq_setD)
  show "out[m := out ! 1, 1 := out ! m] ! 0 = out ! 0" "out[m := out ! 1, 1 := out ! m] ! 1 = out ! m"
    using assms by simp_all
qed

lemma backtrack_level_ok:
  assumes "out \<noteq> []"
  shows "\<exists>out' lev. backtrack_level s out = (out', lev) \<and> mset out' = mset out \<and> hd out' = hd out \<and>
    (\<forall>q \<in> set (tl out'). level s (lit_var q) \<le> lev) \<and>
    (if length out' = 1 then lev = 0 else level s (lit_var (out' ! 1)) = lev)"
proof (cases "length out = 1")
  case True
  then have "tl out = []"
    by (cases out) simp_all
  then show ?thesis
    using True by (intro exI [of _ out] exI [of _ 0]) (simp add: backtrack_level_def)
next
  case False
  then have l: "2 \<le> length out"
    using assms by (cases out) (auto simp: Suc_le_eq)
  define m where "m = max_level_index s out [2 ..< length out] 1"
  let ?out = "out[m := out ! 1, 1 := out ! m]"
  have ins: "insert 1 (set [2 ..< length out]) = {1 ..< length out}"
    using l by auto
  have m: "m \<in> {1 ..< length out}" "\<forall>i \<in> {1 ..< length out}. level s (lit_var (out ! i)) \<le> level s (lit_var (out ! m))"
    using max_level_index_ok [of s out "[2 ..< length out]" 1] unfolding ins m_def [symmetric] by simp_all
  have ml: "1 \<le> m" "m < length out"
    using m(1) by simp_all
  note sw = swap_second [OF ml]
  have hd: "hd ?out = hd out"
    using sw(2) assms by (simp add: hd_conv_nth)
  have "?out = hd out # tl ?out" "out = hd out # tl out"
    using hd assms by (metis list.collapse list_update_nonempty)+
  then have "mset (tl ?out) = mset (tl out)"
    using sw(4) by (metis add_mset_add_single add_right_cancel mset.simps(2))
  then have tl: "set (tl ?out) = set (tl out)"
    by (rule mset_eq_setD)
  have "level s (lit_var q) \<le> level s (lit_var (out ! m))" if q: "q \<in> set (tl out)" for q
  proof -
    obtain j where "j < length out - 1" "tl out ! j = q"
      using q by (auto simp: in_set_conv_nth)
    then have "out ! Suc j = q" "Suc j \<in> {1 ..< length out}"
      by (simp_all add: nth_tl)
    then show ?thesis
      using m(2) by blast
  qed
  then show ?thesis
    using False sw(3,4) hd unfolding backtrack_level_def m_def [symmetric]
    by (intro exI [of _ ?out] exI [of _ "level s (lit_var (out ! m))"]) (simp add: tl Let_def del: One_nat_def)
qed

lemma backtrack_level_seen [simp]: "backtrack_level (s\<lparr>seen := x\<rparr>) = backtrack_level s"
proof -
  have m: "max_level_index (s\<lparr>seen := x\<rparr>) out is m = max_level_index s out is m" for out "is" m
    by (induction "is" arbitrary: m) simp_all
  show ?thesis
    by (intro ext) (simp add: backtrack_level_def m)
qed

section \<open>The analysis\<close>

definition clean_seen :: "'a sat_solver_scheme \<Rightarrow> bool" where
  "clean_seen s \<longleftrightarrow> seen s = replicate (Sat_Solver.nVars s) False"

text \<open>
  A clause to learn: false on the trail, with one literal of the decision level, to backtrack to
  the highest level of the others.
\<close>

definition asserting :: "'a sat_solver_scheme \<Rightarrow> lit list \<Rightarrow> nat \<Rightarrow> bool" where
  "asserting s out lev \<longleftrightarrow> out \<noteq> [] \<and> distinct (map lit_var out) \<and> set out \<subseteq> false_lits s \<and>
     level s (lit_var (hd out)) = decisionLevel s \<and> lev < decisionLevel s \<and>
     (\<forall>q \<in> set (tl out). 0 < level s (lit_var q) \<and> level s (lit_var q) \<le> lev) \<and>
     (if length out = 1 then lev = 0 else level s (lit_var (out ! 1)) = lev)"

text \<open>A conflict has a literal of the decision level, since the lower levels have been propagated.\<close>

lemma conflict_level:
  assumes "sat_inv m s" "conflict s (CRef cr)" "0 < decisionLevel s"
  shows "\<exists>q \<in> set (clause_of s cr). level s (lit_var q) = decisionLevel s"
proof -
  note d = sat_invD [OF assms(1)]
  have c: "cr \<in> attached s" "\<forall>q \<in> set (clause_of s cr). lit_not q \<in> set (trail s)"
    using assms(2) by (auto simp: conflict_def)
  let ?q = "clause_of s cr ! 0"
  have q: "?q \<in> set (clause_of s cr)" "?q \<in> wlits s cr"
    using wlits_sub [OF d(2) c(1)] by (auto simp: wlits_def)
  obtain j where j: "j < length (trail s)" "trail s ! j = lit_not ?q"
    using c(2) q(1) by (metis in_set_conv_nth)
  have "\<not> j < m"
  proof
    assume "j < m"
    then obtain r where "r \<in> set (clause_of s cr)" "r \<in> set (trail s)"
      using d(6) c(1) q(2) j unfolding impl_ok_def by blast
    then show False
      using c(2) trail_not [OF d(1)] by blast
  qed
  moreover have "level_start s \<in> set (trail_lim s)"
    using assms(3) by (auto simp: level_start_def decisionLevel_def)
  ultimately have "level_start s \<le> j"
    using d(8) by (meson le_less_trans not_le)
  then have "level s (lit_var ?q) = decisionLevel s"
    using at_level [OF d(1) assms(3) j(1)] j(2) by simp
  then show ?thesis
    using q(1) by blast
qed

text \<open>What the analysis starts from: a clause that is false on the trail, one of its literals on the decision level.\<close>

definition conflicting :: "((nat \<Rightarrow> bool) \<Rightarrow> bool) \<Rightarrow> 'a sat_solver_scheme \<Rightarrow> cref \<Rightarrow> bool" where
  "conflicting T s confl \<longleftrightarrow> (\<exists>cr c. confl = CRef cr \<and> clause_at s cr = Inr c \<and> set (lits c) \<subseteq> false_lits s \<and>
     (\<exists>q \<in> set (lits c). level s (lit_var q) = decisionLevel s) \<and> (\<forall>\<alpha>. models_at T s \<alpha> \<longrightarrow> csat \<alpha> (lits c)))"

lemma conflict_conflicting:
  assumes "sat_inv m s" "conflict s confl" "0 < decisionLevel s"
  shows "conflicting T s confl"
proof -
  obtain cr where cr: "confl = CRef cr" "cr \<in> attached s" "\<forall>q \<in> set (clause_of s cr). lit_not q \<in> set (trail s)"
    using assms(2) by (auto simp: conflict_def)
  obtain c where c: "clause_at s cr = Inr c" "lits c = clause_of s cr"
    using db_invD(3) [OF sat_invD(2) [OF assms(1)] cr(2)] by blast
  have "\<exists>q \<in> set (clause_of s cr). level s (lit_var q) = decisionLevel s"
    using conflict_level [OF assms(1) assms(2) [unfolded cr(1)] assms(3)] .
  then show ?thesis
    unfolding conflicting_def using cr c by (intro exI [of _ cr] exI [of _ c]) (auto simp: models_at_def db_sat_def false_lits_def)
qed

lemma analyze_ok:
  assumes "conflicting T s confl" "0 < decisionLevel s" "reasons_known s" "decided s" "rooted s" "clean_seen s"
    and "ccmin_mode cfg \<noteq> 1" "sat_minimize_conflicts cfg \<le> 1"
  shows "\<exists>out lev. analyze cfg R confl s = Inr (out, lev, s) \<and> asserting s out lev \<and> (\<forall>\<alpha>. models_at T s \<alpha> \<longrightarrow> csat \<alpha> out)"
proof -
  obtain cr c where cr: "confl = CRef cr" "clause_at s cr = Inr c" "set (lits c) \<subseteq> false_lits s"
      "\<exists>q \<in> set (lits c). level s (lit_var q) = decisionLevel s" "\<forall>\<alpha>. models_at T s \<alpha> \<longrightarrow> csat \<alpha> (lits c)"
    using assms(1) by (auto simp: conflicting_def)
  have start: "analyze_inv s (seen s) [] {}"
    using assms(6) by (simp add: analyze_inv_def clean_seen_def)
  have "\<exists>p out' sn'. analyze_loop cfg R (CRef cr) True (length (trail s)) (int (card ({} :: nat set))) [] [] (s\<lparr>seen := seen s\<rparr>) =
      Some (Inr (p, out', [], s\<lparr>seen := sn'\<rparr>)) \<and> p \<in> set (trail s) \<and> level s (lit_var p) = decisionLevel s \<and>
    analyze_inv s sn' out' {} \<and> (\<forall>\<alpha>. models_at T s \<alpha> \<longrightarrow> csat \<alpha> (lit_not p # out'))"
    by (rule analyze_loop_ok [OF assms(3-5,2) start _ _ cr(2)]) (use cr(3-5) in \<open>auto simp: false_lits_def\<close>)
  then obtain p out sn where a: "analyze_loop cfg R (CRef cr) True (length (trail s)) 0 [] [] s = Some (Inr (p, out, [], s\<lparr>seen := sn\<rparr>))"
      "p \<in> set (trail s)" "level s (lit_var p) = decisionLevel s" "analyze_inv s sn out {}"
      "\<forall>\<alpha>. models_at T s \<alpha> \<longrightarrow> csat \<alpha> (lit_not p # out)"
    by auto
  note inv = a(4) [unfolded analyze_inv_def]
  obtain ks D where k: "minimize cfg R (lit_not p # out) (s\<lparr>seen := sn\<rparr>) =
        Inr (lit_not p # ks, (lit_not p # out) @ D, s\<lparr>seen := mark_seen D sn\<rparr>)"
      "set ks \<subseteq> set out" "distinct (map lit_var ks)" "set D \<subseteq> false_lits s"
      "\<forall>\<alpha>. models_at T s \<alpha> \<longrightarrow> csat \<alpha> (lit_not p # out) \<longrightarrow> csat \<alpha> (lit_not p # ks)"
    using minimize_ok [OF assms(3,7,8) a(4), where q = "lit_not p"] by blast
  obtain out' lev where b: "backtrack_level (s\<lparr>seen := mark_seen D sn\<rparr>) (lit_not p # ks) = (out', lev)" "mset out' = mset (lit_not p # ks)"
      "hd out' = lit_not p" "\<forall>q \<in> set (tl out'). level s (lit_var q) \<le> lev"
      "if length out' = 1 then lev = 0 else level s (lit_var (out' ! 1)) = lev"
    using backtrack_level_ok [of "lit_not p # ks" s] unfolding backtrack_level_seen by (metis list.distinct(1) list.sel(1))
  have clear: "clear_seen ((lit_not p # out) @ D) (mark_seen D sn) = seen s"
  proof (rule nth_equalityI)
    show "length (clear_seen ((lit_not p # out) @ D) (mark_seen D sn)) = length (seen s)"
      using inv assms(6) by (simp add: clean_seen_def)
    fix v assume "v < length (clear_seen ((lit_not p # out) @ D) (mark_seen D sn))"
    then have v: "v < Sat_Solver.nVars s"
      using inv by simp
    then show "clear_seen ((lit_not p # out) @ D) (mark_seen D sn) ! v = seen s ! v"
      using analyze_marks [OF a(4) v] inv assms(6) by (auto simp: clear_seen_nth mark_seen_nth clean_seen_def)
  qed
  have run: "analyze cfg R confl s = Inr (out', lev, s)"
    using a(1) k(1) b(1) clear cr(1) by (simp add: analyze_def)
  have ne: "out' \<noteq> []"
    using b(2) by auto
  then have "out' = lit_not p # tl out'"
    using b(3) by (cases out') simp_all
  then have tl: "mset (tl out') = mset ks"
    using b(2) by (metis add_mset_add_single add_right_cancel mset.simps(2))
  have sets: "set (tl out') = set ks" "set out' = insert (lit_not p) (set ks)"
    using mset_eq_setD [OF tl] mset_eq_setD [OF b(2)] by simp_all
  have low: "0 < level s (lit_var q) \<and> level s (lit_var q) < decisionLevel s" if "q \<in> set ks" for q
    using k(2) inv that by auto
  have "lit_var p \<notin> lit_var ` set ks"
    using low a(3) by (metis imageE less_irrefl)
  then have "distinct (map lit_var (lit_not p # ks))"
    using k(3) by simp
  moreover have "mset (map lit_var out') = mset (map lit_var (lit_not p # ks))"
    using b(2) by simp
  ultimately have "distinct (map lit_var out')"
    using mset_eq_imp_distinct_iff by blast
  moreover have "lev < decisionLevel s"
  proof (cases "length out' = 1")
    case False
    then have "out' ! 1 \<in> set (tl out')"
      using ne by (cases out') (auto simp: nth_Cons' neq_Nil_conv)
    then show ?thesis
      using b(5) False low sets(1) by auto
  qed (use b(5) assms(2) in simp)
  ultimately have "asserting s out' lev"
    using ne b(3-5) a(2,3) low k(2) inv unfolding asserting_def sets by (auto simp: false_lits_def)
  moreover have "csat \<alpha> out'" if "models_at T s \<alpha>" for \<alpha>
    using a(5) k(5) that by (auto simp: csat_def sets)
  ultimately show ?thesis
    using run by blast
qed

end
