(* ===== verification/Sat_Search.thy ===== *)
theory Sat_Search
  imports Sat_Learn
begin

text \<open>
  The search without theories: what holds of the solver between the rounds of its loop, and that
  deciding, propagating and learning keep it.
\<close>

section \<open>Between two rounds\<close>

definition learnts_implied :: "((nat \<Rightarrow> bool) \<Rightarrow> bool) \<Rightarrow> 'a sat_solver_scheme \<Rightarrow> bool" where
  "learnts_implied T s \<longleftrightarrow> (\<forall>\<alpha>. T \<alpha> \<longrightarrow> sat_models s \<alpha> \<longrightarrow> (\<forall>cr \<in> set (learnts s). csat \<alpha> (clause_of s cr)))"

definition no_fake :: "'a sat_solver_scheme \<Rightarrow> bool" where
  "no_fake s \<longleftrightarrow> (\<forall>p \<in> set (trail s). reason s (lit_var p) \<noteq> CRef_Fake)"

definition same_models :: "((nat \<Rightarrow> bool) \<Rightarrow> bool) \<Rightarrow> 'a sat_solver_scheme \<Rightarrow> 'a sat_solver_scheme \<Rightarrow> bool" where
  "same_models T s s' \<longleftrightarrow> (\<forall>\<alpha>. T \<alpha> \<longrightarrow> sat_models s' \<alpha> = sat_models s \<alpha>)"

text \<open>Every variable may be decided on, and is on the trail or in the heap; no clause is listed twice.\<close>

definition order_ok :: "'a sat_solver_scheme \<Rightarrow> bool" where
  "order_ok s \<longleftrightarrow> length (decision s) = Sat_Solver.nVars s \<and> (\<forall>v \<in> set (order_heap s). v < Sat_Solver.nVars s) \<and>
     (\<forall>v < Sat_Solver.nVars s. decision s ! v \<and> (v \<in> lit_var ` set (trail s) \<or> v \<in> set (order_heap s)))"

definition refs_distinct :: "'a sat_solver_scheme \<Rightarrow> bool" where
  "refs_distinct s \<longleftrightarrow> distinct (clauses s @ learnts s)"

text \<open>The literals before \<open>m\<close> have been propagated.\<close>

definition search_at :: "((nat \<Rightarrow> bool) \<Rightarrow> bool) \<Rightarrow> nat \<Rightarrow> 'a sat_solver_scheme \<Rightarrow> bool" where
  "search_at T m s \<longleftrightarrow> sat_inv m s \<and> decided s \<and> rooted s \<and> no_fake s \<and> clean_seen s \<and> sat_ok s \<and> learnts_implied T s \<and>
     order_ok s \<and> refs_distinct s"

lemma search_atD:
  assumes "search_at T m s"
  shows "sat_inv m s" "decided s" "rooted s" "no_fake s" "clean_seen s" "sat_ok s" "learnts_implied T s" "reasons_known s"
    "order_ok s" "refs_distinct s"
proof -
  have i: "sat_inv m s"
    using assms by (simp add: search_at_def)
  then show "sat_inv m s" "decided s" "rooted s" "no_fake s" "clean_seen s" "sat_ok s" "learnts_implied T s" "reasons_known s"
      "order_ok s" "refs_distinct s"
    using assms sat_invD(1,2,7) [OF i] by (simp_all add: search_at_def reasons_known_def no_fake_def)
qed

lemma level0_prefix:
  assumes "trail_inv s"
  shows "level0 s = take (if trail_lim s = [] then length (trail s) else hd (trail_lim s)) (trail s)"
    "set (level0 s) = {p \<in> set (trail s). level s (lit_var p) = 0}"
proof -
  show "level0 s = take (if trail_lim s = [] then length (trail s) else hd (trail_lim s)) (trail s)"
    by (simp add: level0_def)
  show "set (level0 s) = {p \<in> set (trail s). level s (lit_var p) = 0}"
  proof (cases "trail_lim s = []")
    case True
    then show ?thesis
      using level_le [OF assms] by (auto simp: level0_def decisionLevel_def)
  next
    case False
    then have dl: "0 < decisionLevel s"
      by (simp add: decisionLevel_def)
    have i: "level s (lit_var (trail s ! i)) = 0 \<longleftrightarrow> i < hd (trail_lim s)" if "i < length (trail s)" for i
      using lim_level [OF assms dl that] False by (simp add: hd_conv_nth)
    have "p \<in> set (level0 s) \<longleftrightarrow> p \<in> set (trail s) \<and> level s (lit_var p) = 0" for p
    proof
      assume "p \<in> set (level0 s)"
      then obtain j where "j < length (trail s)" "j < hd (trail_lim s)" "trail s ! j = p"
        using False by (auto simp: level0_def in_set_conv_nth)
      then show "p \<in> set (trail s) \<and> level s (lit_var p) = 0"
        using i by auto
    next
      assume p: "p \<in> set (trail s) \<and> level s (lit_var p) = 0"
      then obtain j where "j < length (trail s)" "trail s ! j = p"
        by (auto simp: in_set_conv_nth)
      then show "p \<in> set (level0 s)"
        using i p False by (auto simp: level0_def in_set_conv_nth)
    qed
    then show ?thesis
      by blast
  qed
qed

lemma models_models_at:
  assumes "trail_inv s" "learnts_implied T s" "T \<alpha>" "sat_models s \<alpha>"
  shows "models_at T s \<alpha>"
proof -
  have "db_sat \<alpha> s"
    using assms(2-4) by (auto simp: db_sat_def attached_def sat_models_def learnts_implied_def)
  moreover have "lsat \<alpha> p" if "p \<in> set (trail s)" "level s (lit_var p) = 0" for p
    using assms(4) level0_prefix(2) [OF assms(1)] that by (simp add: sat_models_def)
  ultimately show ?thesis
    using assms(3) by (simp add: models_at_def)
qed

section \<open>Backtracking\<close>

lemma cancelUntil_level0:
  assumes "trail_inv s" "lev < decisionLevel s"
  shows "level0 (cancelUntil lev s) = level0 s"
proof -
  note f = cancelUntil_fields [OF assms(2)]
  have l: "trail_lim s \<noteq> []" "lev < length (trail_lim s)"
    using assms(2) by (auto simp: decisionLevel_def)
  have "hd (trail_lim s) \<le> trail_lim s ! lev"
    using assms(1) l sorted_nth_mono [of "trail_lim s" 0 lev] by (simp add: trail_inv_def hd_conv_nth)
  then show ?thesis
    using l f(7,9) by (cases "lev = 0") (simp_all add: level0_def hd_conv_nth min_absorb1)
qed

lemma cancel_one_order:
  "x \<in> set (order_heap s) \<Longrightarrow> x \<in> set (order_heap (cancel_one c s))"
  "decision s ! lit_var (trail s ! c) \<Longrightarrow> lit_var (trail s ! c) \<in> set (order_heap (cancel_one c s))"
  by (auto simp: cancel_one_def Let_def insertVarOrder_def)

lemma cancel_loop_order:
  "x \<in> set (order_heap s) \<or> (\<exists>c \<in> set cs. x = lit_var (trail s ! c) \<and> decision s ! x) \<Longrightarrow>
   x \<in> set (order_heap (cancel_loop cs s))"
proof (induction cs arbitrary: s)
  case (Cons c cs)
  have "x \<in> set (order_heap (cancel_one c s)) \<or> (\<exists>d \<in> set cs. x = lit_var (trail s ! d) \<and> decision s ! x)"
    using Cons.prems cancel_one_order(1) [of x s c] cancel_one_order(2) [of s c] by auto
  then show ?case
    using Cons.IH [of "cancel_one c s"] by simp
qed simp

lemma cancel_loop_heap: "set (order_heap (cancel_loop cs s)) \<subseteq> set (order_heap s) \<union> (\<lambda>c. lit_var (trail s ! c)) ` set cs"
proof (induction cs arbitrary: s)
  case (Cons c cs)
  have "set (order_heap (cancel_one c s)) \<subseteq> insert (lit_var (trail s ! c)) (set (order_heap s))"
    by (auto simp: cancel_one_def Let_def insertVarOrder_def)
  then show ?case
    using Cons.IH [of "cancel_one c s"] by auto
qed simp

lemma cancelUntil_order:
  assumes "order_ok s" "lev < decisionLevel s" "trail_inv s"
  shows "order_ok (cancelUntil lev s)"
proof -
  let ?m = "trail_lim s ! lev" and ?t = "cancelUntil lev s"
  note f = cancelUntil_fields [OF assms(2)]
  have d: "decision ?t = decision s" "order_heap ?t = order_heap (cancel_loop (rev [?m ..< length (trail s)]) s)"
    using assms(2) by (simp_all add: cancelUntil_def Let_def)
  have "v \<in> lit_var ` set (trail ?t) \<or> v \<in> set (order_heap ?t)" if v: "v < Sat_Solver.nVars s" for v
  proof (cases "v \<in> lit_var ` set (trail ?t)")
    case False
    consider i where "i < length (trail s)" "v = lit_var (trail s ! i)" | "v \<in> set (order_heap s)"
      using assms(1) v unfolding order_ok_def by (metis imageE in_set_conv_nth)
    then show ?thesis
    proof cases
      case 1
      have "?m \<le> i"
      proof (rule ccontr)
        assume "\<not> ?m \<le> i"
        then have "trail s ! i \<in> set (trail ?t)"
          using 1(1) by (auto simp: f in_set_conv_nth)
        then show False
          using False 1(2) by blast
      qed
      then show ?thesis
        using 1 assms(1) v by (intro disjI2) (auto simp: d order_ok_def intro!: cancel_loop_order)
    qed (simp add: d cancel_loop_order)
  qed simp
  moreover have "v < Sat_Solver.nVars s" if v: "v \<in> set (order_heap ?t)" for v
  proof -
    consider "v \<in> set (order_heap s)" | i where "i < length (trail s)" "v = lit_var (trail s ! i)"
    proof -
      have "v \<in> set (order_heap s) \<or> v \<in> (\<lambda>c. lit_var (trail s ! c)) ` {?m ..< length (trail s)}"
        using subsetD [OF cancel_loop_heap v [unfolded d(2)]] by simp
      then show thesis
        using that by (elim disjE imageE) auto
    qed
    then show ?thesis
      using assms(1) trail_inv_ok [OF assms(3)] by cases (auto simp: order_ok_def lit_ok_def)
  qed
  ultimately show ?thesis
    using assms(1) by (simp add: order_ok_def d(1) f(1))
qed

lemma cancelUntil_search:
  assumes "search_at T m s" "lev < decisionLevel s"
  shows "search_at T (qhead (cancelUntil lev s)) (cancelUntil lev s)" "sat_models (cancelUntil lev s) = sat_models s"
proof -
  let ?s = "cancelUntil lev s"
  note i = search_atD [OF assms(1)] and f = cancelUntil_fields [OF assms(2)] and k = cancelUntil_same [OF assms(2)]
  note d = sat_invD [OF i(1)] and l0 = cancelUntil_level0 [OF sat_invD(1) [OF i(1)] assms(2)]
  show m: "sat_models ?s = sat_models s"
    by (simp add: fun_eq_iff sat_models_def f k l0)
  have "decided ?s"
    unfolding decided_def k
  proof (intro allI impI)
    fix j assume j: "j < length (trail ?s)" and r: "reason s (lit_var (trail ?s ! j)) = CRef_Undef"
    then have jl: "j < length (trail s)" "j < trail_lim s ! lev" "trail ?s ! j = trail s ! j"
      by (simp_all add: f)
    then have "level s (lit_var (trail s ! j)) \<le> lev"
      using lim_level [OF d(1) assms(2)] by simp
    moreover have "level s (lit_var (trail s ! j)) = 0 \<or> j = trail_lim s ! (level s (lit_var (trail s ! j)) - 1)"
      using i(2) jl(1) r unfolding decided_def jl(3) by blast
    ultimately show "level s (lit_var (trail ?s ! j)) = 0 \<or> j = trail_lim ?s ! (level s (lit_var (trail ?s ! j)) - 1)"
      unfolding jl(3) f(9) by (cases "level s (lit_var (trail s ! j))") (simp_all add: Suc_le_eq)
  qed
  moreover have "no_fake ?s"
    using i(4) by (auto simp: no_fake_def f k dest: in_set_takeD)
  moreover have "seen ?s = seen s"
    using assms(2) by (simp add: cancelUntil_def Let_def)
  ultimately show "search_at T (qhead ?s) ?s"
    using i cancelUntil_ok [OF i(1) assms(2)] cancelUntil_order [OF i(9) assms(2) d(1)]
    by (simp add: search_at_def rooted_def l0 clean_seen_def f learnts_implied_def m k refs_distinct_def)
qed

section \<open>A literal that was learnt\<close>

lemma enqueued_search:
  assumes "search_at T m s" "lit_ok (Sat_Solver.nVars s) q" "q \<notin> set (trail s)" "lit_not q \<notin> set (trail s)"
    and "from \<noteq> CRef_Fake" "from = CRef_Undef \<longrightarrow> decisionLevel s = 0 \<or> last (trail_lim s) = length (trail s)"
    and "sat_inv m' (enqueued q from s)"
    and "decisionLevel s = 0 \<Longrightarrow> \<forall>\<alpha>. T \<alpha> \<longrightarrow> sat_models s \<alpha> \<longrightarrow> lsat \<alpha> q"
  shows "search_at T m' (enqueued q from s)" "same_models T s (enqueued q from s)"
proof -
  let ?s = "enqueued q from s"
  note i = search_atD [OF assms(1)]
  note d = sat_invD [OF i(1)]
  note k = enqueued_keeps [OF d(2)] and old = enqueued_old [OF d(1) assms(2-4)] and new = enqueued_reason [OF assms(2)]
  have l0: "level0 ?s = (if decisionLevel s = 0 then level0 s @ [q] else level0 s)"
  proof (cases "trail_lim s")
    case (Cons x xs)
    then have "x \<le> length (trail s)"
      using d(1) by (simp add: trail_inv_def)
    then show ?thesis
      using Cons by (simp add: level0_def decisionLevel_def)
  qed (simp add: level0_def decisionLevel_def)
  have m: "sat_models ?s \<alpha> = sat_models s \<alpha>" if "T \<alpha>" for \<alpha>
  proof (cases "decisionLevel s = 0")
    case True
    have "sat_models ?s \<alpha> \<longleftrightarrow> sat_models s \<alpha> \<and> lsat \<alpha> q"
      using True by (auto simp: sat_models_def l0 k)
    then show ?thesis
      using assms(8) [OF True] that by blast
  qed (simp add: sat_models_def l0 k)
  then show "same_models T s ?s"
    by (simp add: same_models_def)
  have "decided ?s"
    unfolding decided_def
  proof (intro allI impI)
    fix j assume j: "j < length (trail ?s)" and r: "reason ?s (lit_var (trail ?s ! j)) = CRef_Undef"
    show "level ?s (lit_var (trail ?s ! j)) = 0 \<or> j = trail_lim ?s ! (level ?s (lit_var (trail ?s ! j)) - 1)"
    proof (cases "j < length (trail s)")
      case True
      then have "trail ?s ! j = trail s ! j" "trail s ! j \<in> set (trail s)"
        by (simp_all add: nth_append)
      then show ?thesis
        using i(2) r True old unfolding decided_def by simp
    next
      case False
      then have jl: "j = length (trail s)"
        using j by simp
      then have j': "j = length (trail s)" "trail ?s ! j = q"
        by simp_all
      then have "from = CRef_Undef"
        using r new(1) by simp
      then have "decisionLevel s = 0 \<or> trail_lim s \<noteq> [] \<and> last (trail_lim s) = length (trail s)"
        using assms(6) by (auto simp: decisionLevel_def)
      then show ?thesis
        using j' new(2) by (auto simp: decisionLevel_def last_conv_nth)
    qed
  qed
  moreover have "no_fake ?s"
    using i(4) old(2) new(1) assms(5) by (simp add: no_fake_def)
  moreover have "seen ?s = seen s" "decision ?s = decision s" "order_heap ?s = order_heap s"
    by (simp_all add: enqueued_def)
  moreover from this have "order_ok ?s"
    using i(9) by (auto simp: order_ok_def)
  ultimately show "search_at T m' ?s"
    using i assms(7) by (simp add: search_at_def rooted_def l0 clean_seen_def learnts_implied_def m k refs_distinct_def)
qed

text \<open>A clause that is learnt and makes its first literal true at once.\<close>

lemma learnt_inv:
  assumes inv: "sat_inv m s" "m \<le> m'" "m' \<le> length (trail s)" "impl_ok s m' UNIV"
    and g: "good_clause (Sat_Solver.nVars s) ls" and cr: "cr = al_size (ca s)"
    and f: "ls ! 0 \<notin> set (trail s)" "lit_not (ls ! 0) \<notin> set (trail s)" "\<forall>q \<in> set (tl ls). lit_not q \<in> set (trail s)"
    and l: "lit_not (ls ! 1) \<notin> set (take m (trail s))" "level s (lit_var (ls ! 1)) = decisionLevel s"
  shows "sat_inv m' (enqueued (ls ! 0) (CRef cr) (attached_state cr ls True s))"
proof -
  let ?t = "attached_state cr ls True s"
  let ?s = "enqueued (ls ! 0) (CRef cr) ?t"
  have t: "sat_inv m ?t"
    by (rule attached_state_inv [OF inv(1) cr g]) (use f(2) l(1) in \<open>auto dest: in_set_takeD\<close>)
  note d = sat_invD [OF t] and k = enqueued_keeps [OF sat_invD(2) [OF t]]
  note att = attached_state_clauses [OF cr, of ls True] and same = attached_state_same [of cr ls True s]
  have ok: "lit_ok (Sat_Solver.nVars ?t) (ls ! 0)"
    using good_clauseD(6) [OF g] by simp
  have fr: "ls ! 0 \<notin> set (trail ?t)" "lit_not (ls ! 0) \<notin> set (trail ?t)"
    using f(1,2) by simp_all
  note old = enqueued_old [OF d(1) ok fr] and new = enqueued_reason [OF ok]
  have fresh: "x \<noteq> cr" if "x \<in> attached s" for x
    using sat_invD(2) [OF inv(1)] that unfolding db_inv_def cr by fastforce
  have wl: "wlits ?t x = (if x = cr then {ls ! 0, ls ! 1} else wlits s x)" for x
    by (simp add: wlits_def att(2))
  have "impl_ok ?s m' UNIV"
    unfolding impl_ok_def k
  proof (intro ballI allI impI)
    fix x r j
    assume c: "x \<in> attached ?t" "r \<in> wlits ?t x" "j < length (trail ?s)" "trail ?s ! j = lit_not r" "j < m' \<or> j = m' \<and> x \<notin> UNIV"
    then have j: "j < m'" "j < length (trail s)" "trail s ! j = lit_not r"
      using inv(3) by (simp_all add: nth_append)
    then have r: "lit_not r \<in> set (trail s)"
      by (metis nth_mem)
    have lr: "level ?s (lit_var r) = level s (lit_var r)"
      using old(1) [of "lit_not r"] r by (simp add: same)
    show "\<exists>y \<in> set (clause_of ?t x). y \<in> set (trail ?s) \<and> level ?s (lit_var y) \<le> level ?s (lit_var r)"
    proof (cases "x = cr")
      case True
      then have "r = ls ! 1"
        using c(2) wl f(2) r by auto
      then have "level ?s (lit_var (ls ! 0)) \<le> level ?s (lit_var r)"
        using lr l(2) new(2) by (simp add: same)
      moreover have "ls ! 0 \<in> set (clause_of ?t x)"
        using True att(2) good_clauseD(3) [OF g] by simp
      ultimately show ?thesis
        by (intro bexI [of _ "ls ! 0"]) simp_all
    next
      case False
      then have "x \<in> attached s" "r \<in> wlits s x"
        using c(1,2) wl att(1) by auto
      then obtain y where y: "y \<in> set (clause_of s x)" "y \<in> set (trail s)" "level s (lit_var y) \<le> level s (lit_var r)"
        using inv(4) j unfolding impl_ok_def by blast
      then have "level ?s (lit_var y) \<le> level ?s (lit_var r)"
        using old(1) [of y] lr by (simp add: same)
      then show ?thesis
        using y(1,2) False att(2) by (intro bexI [of _ y]) simp_all
    qed
  qed
  moreover have "reasons_ok ?s"
    by (rule enqueued_reasons [OF d(1,2,7) ok fr]) (use att f(3) in auto)
  moreover have "watch_ok ?s (live ?s)" "dirt_ok ?s"
  proof -
    have "watcher_deleted ?s = watcher_deleted ?t"
      by (auto simp: fun_eq_iff watcher_deleted_def)
    then show "watch_ok ?s (live ?s)" "dirt_ok ?s"
      using d(4,5) by (simp_all add: watch_ok_def dirt_ok_def live_def k)
  qed
  moreover have "\<forall>x \<in> set (trail_lim ?s). x \<le> m'"
    using d(8) inv(2) by auto
  ultimately show ?thesis
    using d(3) enqueued_trail_inv [OF d(1) ok fr] k(5) by (simp add: sat_inv_def)
qed

section \<open>Learning\<close>

text \<open>
  What a clause to learn is after backtracking: its first literal is open, the others are false, the
  second on the level that was reached.
\<close>

lemma asserting_after:
  assumes "search_at T m s" "asserting s out lev"
  defines "t \<equiv> cancelUntil lev s"
  shows "\<forall>q \<in> set out. lit_ok (Sat_Solver.nVars t) q" "out ! 0 \<notin> set (trail t)" "lit_not (out ! 0) \<notin> set (trail t)"
    "\<forall>q \<in> set (tl out). lit_not q \<in> set (trail t)" "decisionLevel t = lev" "length out \<noteq> 1 \<Longrightarrow> 0 < lev"
    "length out \<noteq> 1 \<Longrightarrow> level t (lit_var (out ! 1)) = lev"
proof -
  note i = search_atD [OF assms(1)] and a = assms(2) [unfolded asserting_def]
  note d = sat_invD [OF i(1)]
  have lev: "lev < decisionLevel s"
    using a by blast
  note f = cancelUntil_fields [OF lev, folded t_def] and k = cancelUntil_same [OF lev, folded t_def]
  show "decisionLevel t = lev"
    by (rule f(15))
  show "\<forall>q \<in> set out. lit_ok (Sat_Solver.nVars t) q"
    using a trail_inv_ok [OF d(1)] unfolding f(1) false_lits_def by (metis lit_ok_not mem_Collect_eq subsetD)
  have hd: "out ! 0 = hd out" "hd out \<in> set out"
    using a by (simp_all add: hd_conv_nth)
  have in_t: "p \<in> set (trail t) \<longleftrightarrow> p \<in> set (trail s) \<and> level s (lit_var p) \<le> lev" for p
  proof
    assume "p \<in> set (trail t)"
    then obtain j where "j < length (trail s)" "j < trail_lim s ! lev" "trail s ! j = p"
      by (auto simp: f in_set_conv_nth)
    then show "p \<in> set (trail s) \<and> level s (lit_var p) \<le> lev"
      using lim_level [OF d(1) lev] by auto
  next
    assume p: "p \<in> set (trail s) \<and> level s (lit_var p) \<le> lev"
    then obtain j where "j < length (trail s)" "trail s ! j = p"
      by (auto simp: in_set_conv_nth)
    then show "p \<in> set (trail t)"
      using lim_level [OF d(1) lev] p by (auto simp: f in_set_conv_nth)
  qed
  have "hd out \<in> false_lits s"
    using a hd(2) by blast
  then have n: "lit_not (out ! 0) \<in> set (trail s)"
    by (simp add: false_lits_def hd(1))
  then show "out ! 0 \<notin> set (trail t)"
    using trail_not [OF d(1) n] in_t by simp
  show "lit_not (out ! 0) \<notin> set (trail t)"
    using a lev hd(1) in_t by simp
  show "\<forall>q \<in> set (tl out). lit_not q \<in> set (trail t)"
  proof
    fix q assume "q \<in> set (tl out)"
    then have "q \<in> set out" "level s (lit_var q) \<le> lev"
      using a list.set_sel(2) [of out q] by auto
    then show "lit_not q \<in> set (trail t)"
      using a in_t by (auto simp: false_lits_def)
  qed
  show "level t (lit_var (out ! 1)) = lev" if "length out \<noteq> 1"
    using a that by (simp add: k del: One_nat_def)
  show "0 < lev" if "length out \<noteq> 1"
  proof -
    have "out ! 1 \<in> set (tl out)"
      using a that by (cases out) (auto simp: neq_Nil_conv)
    then show ?thesis
      using a that by (auto simp del: One_nat_def)
  qed
qed

lemma sorted_le_last: "sorted xs \<Longrightarrow> x \<in> set xs \<Longrightarrow> x \<le> last xs" for x :: nat
  by (induction xs) auto

definition learnt_from :: "((nat \<Rightarrow> bool) \<Rightarrow> bool) \<Rightarrow> 'a sat_solver_scheme \<Rightarrow> 'a sat_solver_scheme \<Rightarrow> bool" where
  "learnt_from T s s' \<longleftrightarrow> search_at T (qhead s') s' \<and> same_models T s s' \<and> clauses s' = clauses s \<and>
     Sat_Solver.nVars s' = Sat_Solver.nVars s \<and> qhead s' < length (trail s') \<and> decisionLevel s' < decisionLevel s"

lemma same_models_trans: "same_models T s t \<Longrightarrow> same_models T t u \<Longrightarrow> same_models T s u"
  by (simp add: same_models_def)

lemma learn_unit:
  assumes "search_at T m s" "asserting s [q] lev" "\<forall>\<alpha>. models_at T s \<alpha> \<longrightarrow> csat \<alpha> [q]"
  shows "\<exists>s'. uncheckedEnqueue q CRef_Undef (cancelUntil lev s) = Inr s' \<and> learnt_from T s s'"
proof -
  let ?t = "cancelUntil lev s"
  note i = search_atD [OF assms(1)]
  have lev: "lev < decisionLevel s" "lev = 0"
    using assms(2) by (simp_all add: asserting_def)
  note f = cancelUntil_fields [OF lev(1)] and c = cancelUntil_search [OF assms(1) lev(1)]
  note a = asserting_after [OF assms(1,2)] and ci = search_atD [OF c(1)]
  have q: "lit_ok (Sat_Solver.nVars ?t) q" "q \<notin> set (trail ?t)" "lit_not q \<notin> set (trail ?t)"
    using a by simp_all
  note t = sat_invD [OF ci(1)]
  have run: "uncheckedEnqueue q CRef_Undef ?t = Inr (enqueued q CRef_Undef ?t)"
    by (rule uncheckedEnqueue_ok [OF t(1) q]) simp
  have qh: "qhead ?t \<le> length (trail ?t)"
    using t(1) by (simp add: trail_inv_def)
  have imp: "\<forall>\<alpha>. T \<alpha> \<longrightarrow> sat_models ?t \<alpha> \<longrightarrow> lsat \<alpha> q"
    using assms(3) models_models_at [OF sat_invD(1) [OF i(1)] i(7)] c(2) by (auto simp: csat_def)
  note e = enqueued_search [OF c(1) q, of CRef_Undef, OF _ _ enqueued_sat_inv [OF ci(1) q qh]]
  have "search_at T (qhead ?t) (enqueued q CRef_Undef ?t)" "same_models T ?t (enqueued q CRef_Undef ?t)"
    using e imp f(15) lev(2) by simp_all
  then have "learnt_from T s (enqueued q CRef_Undef ?t)"
    using c(2) qh lev f by (simp add: learnt_from_def same_models_def)
  then show ?thesis
    using run by blast
qed

lemma learn_long:
  assumes "search_at T m s" "asserting s out lev" "\<forall>\<alpha>. models_at T s \<alpha> \<longrightarrow> csat \<alpha> out" "length out \<noteq> 1"
  defines "t \<equiv> cancelUntil lev s"
  defines "cr \<equiv> al_size (ca t)"
  shows "\<exists>s'. rbind (attachClause cr (t\<lparr>ca := snd (ca_alloc out True (ca t)), learnts := learnts t @ [cr]\<rparr>))
      (uncheckedEnqueue (out ! 0) (CRef cr)) = Inr s' \<and> learnt_from T s s'"
proof -
  note i = search_atD [OF assms(1)]
  have lev: "lev < decisionLevel s"
    using assms(2) by (simp add: asserting_def)
  note f = cancelUntil_fields [OF lev, folded t_def] and c = cancelUntil_search [OF assms(1) lev, folded t_def]
  note a = asserting_after [OF assms(1,2), folded t_def] and ci = search_atD [OF c(1)]
  note d = sat_invD [OF ci(1)]
  have len: "2 \<le> length out"
    using assms(2,4) by (cases out) (auto simp: asserting_def Suc_le_eq)
  have g: "good_clause (Sat_Solver.nVars t) out"
    using len a(1) assms(2) by (simp add: good_clause_def asserting_def distinct_map)
  have pos: "0 < lev" "decisionLevel t = lev"
    using a(5,6) assms(4) by simp_all
  let ?m = "level_start t"
  have lim: "?m \<in> set (trail_lim t)" "\<forall>x \<in> set (trail_lim t). x \<le> ?m"
    using pos d(1) sorted_le_last [of "trail_lim t"] by (auto simp: level_start_def decisionLevel_def trail_inv_def)
  have mq: "?m \<le> qhead t" "qhead t \<le> length (trail t)"
    using lim(1) d(8) d(1) by (auto simp: trail_inv_def)
  have inv: "sat_inv ?m t"
    using ci(1) impl_ok_le [OF d(6) mq(1)] lim(2) by (simp add: sat_inv_def)
  have high: "lit_not (out ! 1) \<notin> set (take ?m (trail t))"
  proof
    assume "lit_not (out ! 1) \<in> set (take ?m (trail t))"
    then obtain j where "j < ?m" "j < length (trail t)" "trail t ! j = lit_not (out ! 1)"
      by (auto simp: in_set_conv_nth)
    then show False
      using at_level [OF d(1), of j] pos a(7) [OF assms(4)] by simp
  qed
  define t1 where "t1 = attached_state cr out True t"
  have att: "attached t1 = insert cr (attached t)" "\<And>x. clause_of t1 x = (if x = cr then out else clause_of t x)"
    using attached_state_clauses [of cr t out True] by (simp_all add: t1_def cr_def)
  have run1: "attachClause cr (t\<lparr>ca := snd (ca_alloc out True (ca t)), learnts := learnts t @ [cr]\<rparr>) = Inr t1"
    unfolding t1_def by (rule attach_run(2)) (simp_all add: cr_def len)
  have fresh: "x \<noteq> cr" if "x \<in> attached t" for x
    using d(2) that unfolding db_inv_def cr_def by fastforce
  have fields: "trail t1 = trail t" "trail_lim t1 = trail_lim t" "Sat_Solver.nVars t1 = Sat_Solver.nVars t" "qhead t1 = qhead t"
      "level t1 = level t" "reason t1 = reason t" "decisionLevel t1 = decisionLevel t" "sat_ok t1 = sat_ok t" "seen t1 = seen t"
      "clauses t1 = clauses t" "learnts t1 = learnts t @ [cr]" "decision t1 = decision t" "order_heap t1 = order_heap t"
    by (simp_all add: t1_def attached_state_same) (simp_all add: attached_state_def push_watch_def)
  have l0: "level0 t1 = level0 t"
    by (simp add: level0_def fields)
  have mod: "sat_models t1 = sat_models t"
  proof
    fix \<alpha>
    have "clause_of t1 x = clause_of t x" if "x \<in> set (clauses t)" for x
      using that fresh by (auto simp: att attached_def)
    then show "sat_models t1 \<alpha> = sat_models t \<alpha>"
      by (simp add: sat_models_def fields l0)
  qed
  have imp: "csat \<alpha> out" if "T \<alpha>" "sat_models t \<alpha>" for \<alpha>
    using assms(3) models_models_at [OF sat_invD(1) [OF i(1)] i(7)] that c(2) by simp
  have t1: "sat_inv ?m t1"
    unfolding t1_def by (rule attached_state_inv [OF inv cr_def [THEN meta_eq_to_obj_eq] g]) (use a(3) high in \<open>auto dest: in_set_takeD\<close>)
  have "learnts_implied T t1"
    using ci(7) imp fresh by (auto simp: learnts_implied_def mod fields att attached_def)
  moreover have "refs_distinct t1"
    using ci(10) fresh by (auto simp: refs_distinct_def fields attached_def)
  ultimately have s1: "search_at T ?m t1"
    using ci t1 by (simp add: search_at_def decided_def rooted_def no_fake_def clean_seen_def fields l0 order_ok_def)
  have ok: "lit_ok (Sat_Solver.nVars t1) (out ! 0)" "out ! 0 \<notin> set (trail t1)" "lit_not (out ! 0) \<notin> set (trail t1)"
    using a(1-3) good_clauseD(3) [OF g] by (simp_all add: fields)
  have run2: "uncheckedEnqueue (out ! 0) (CRef cr) t1 = Inr (enqueued (out ! 0) (CRef cr) t1)"
    by (rule uncheckedEnqueue_ok [OF sat_invD(1) [OF t1] ok]) simp
  have fin: "sat_inv (qhead t) (enqueued (out ! 0) (CRef cr) t1)"
    unfolding t1_def
    by (rule learnt_inv [OF inv mq d(6) g _ a(2-4) high]) (use a(7) assms(4) pos in \<open>simp_all add: cr_def\<close>)
  have "search_at T (qhead t) (enqueued (out ! 0) (CRef cr) t1)" "same_models T t1 (enqueued (out ! 0) (CRef cr) t1)"
    using enqueued_search [OF s1 ok _ _ fin] pos by (simp_all add: fields)
  then have "learnt_from T s (enqueued (out ! 0) (CRef cr) t1)"
    using c(2) mq lev f(1,5,15) by (simp add: learnt_from_def same_models_def mod fields)
  then show ?thesis
    using run1 run2 by auto
qed

lemma undo_search:
  "search_at T m (s\<lparr>undo_stack := u\<rparr>) = search_at T m s" "same_models T s (s\<lparr>undo_stack := u\<rparr>)"
proof -
  have c: "same_core s (s\<lparr>undo_stack := u\<rparr>)"
    by (simp add: same_core_def)
  note m = same_core_models [OF c, simplified] and f = same_core_fields [OF c]
  have "level (s\<lparr>undo_stack := u\<rparr>) = level s" "reason (s\<lparr>undo_stack := u\<rparr>) = reason s"
    by (auto simp: fun_eq_iff level_def reason_def)
  then show "search_at T m (s\<lparr>undo_stack := u\<rparr>) = search_at T m s" "same_models T s (s\<lparr>undo_stack := u\<rparr>)"
    by (simp_all add: search_at_def decided_def rooted_def no_fake_def clean_seen_def learnts_implied_def same_models_def m f
        order_ok_def refs_distinct_def)
qed

lemma learn_clause_undo:
  "learn_clause True out lev s = rbind (learn_clause False out lev s) (\<lambda>s'. Inr
     (if length out = 1 then s' else s'\<lparr>undo_stack := undo_stack s' @ [NEWLEARNT (al_size (ca (cancelUntil lev s)))]\<rparr>))"
proof (cases "is_undef (cancelUntil lev s) (out ! 0) \<and> length out \<noteq> 1")
  case True
  define t where "t = cancelUntil lev s"
  define cr where "cr = al_size (ca t)"
  define t1 where "t1 = t\<lparr>ca := snd (ca_alloc out True (ca t)), learnts := learnts t @ [cr]\<rparr>"
  have a: "attachClause cr (t1\<lparr>undo_stack := u\<rparr>) = rbind (attachClause cr t1) (\<lambda>s'. Inr (s'\<lparr>undo_stack := u\<rparr>))" for u
    by (cases "al_mem (ca t1) cr") (simp_all add: attachClause_def clause_at_def push_watch_def require_def)
  have e: "uncheckedEnqueue q r (s'\<lparr>undo_stack := u\<rparr>) = rbind (uncheckedEnqueue q r s') (\<lambda>x. Inr (x\<lparr>undo_stack := u\<rparr>))"
    for q r u and s' :: "'a sat_solver_scheme"
    by (simp add: uncheckedEnqueue_def is_undef_def val_lit_def decisionLevel_def require_def)
  have u: "undo_stack s2 = undo_stack t1" if "rbind (attachClause cr t1) (uncheckedEnqueue q r) = Inr s2" for q r s2
    using that by (cases "al_mem (ca t1) cr") (auto simp: attachClause_def clause_at_def push_watch_def uncheckedEnqueue_def require_def split: if_splits)
  have "undo_stack t1 = undo_stack t"
    by (simp add: t1_def)
  then show ?thesis
    using True a [of "undo_stack t @ [NEWLEARNT cr]"] e u [of "out ! 0" "CRef cr"]
    unfolding learn_clause_def Let_def t_def [symmetric] case_prod_beta
    by (cases "rbind (attachClause cr t1) (uncheckedEnqueue (out ! 0) (CRef cr))"; cases "attachClause cr t1")
      (auto simp: ca_alloc_def Let_def cr_def t1_def)
next
  case False
  then show ?thesis
    by (cases "uncheckedEnqueue (out ! 0) CRef_Undef (cancelUntil lev s)") (auto simp: learn_clause_def Let_def require_def)
qed

lemma learn_clause_ok:
  assumes "search_at T m s" "asserting s out lev" "\<forall>\<alpha>. models_at T s \<alpha> \<longrightarrow> csat \<alpha> out"
  shows "\<exists>s'. learn_clause undo out lev s = Inr s' \<and> learnt_from T s s'"
proof -
  note i = search_atD [OF assms(1)]
  have lev: "lev < decisionLevel s"
    using assms(2) by (simp add: asserting_def)
  note af = asserting_after [OF assms(1,2)] and c = cancelUntil_search [OF assms(1) lev]
  have t: "trail_inv (cancelUntil lev s)"
    by (rule sat_invD(1) [OF search_atD(1) [OF c(1)]])
  have "out ! 0 \<in> set out"
    using assms(2) by (simp add: asserting_def)
  then have u: "is_undef (cancelUntil lev s) (out ! 0)"
    using values_iff(3) [OF t, of "out ! 0"] af(1-3) by simp
  have "\<exists>s'. learn_clause False out lev s = Inr s' \<and> learnt_from T s s'"
  proof (cases "length out = 1")
    case True
    then obtain q where q: "out = [q]"
      by (cases out) auto
    show ?thesis
      using learn_unit [OF assms(1) assms(2,3) [unfolded q]] u by (simp add: learn_clause_def q)
  next
    case False
    then show ?thesis
      using learn_long [OF assms False] u by (simp add: learn_clause_def Let_def case_prod_beta ca_alloc_def)
  qed
  then obtain s' where s': "learn_clause False out lev s = Inr s'" "learnt_from T s s'"
    by blast
  have "learnt_from T s (s'\<lparr>undo_stack := u\<rparr>)" for u
    using s'(2) undo_search(1) [where T = T and m = "qhead s'" and s = s' and u = u] undo_search(2) [where T = T and s = s' and u = u]
    by (simp add: learnt_from_def same_models_def Sat_Solver.nVars_def decisionLevel_def)
  then show ?thesis
    using s' by (cases undo) (auto simp: learn_clause_undo)
qed

lemma learn_conflict_ok:
  assumes "search_at T m s" "conflict s confl" "0 < decisionLevel s" "ccmin_mode cfg \<noteq> 1" "sat_minimize_conflicts cfg \<le> 1"
  shows "\<exists>s'. learn_conflict cfg R confl s = Inr s' \<and> learnt_from T s s'"
proof -
  note i = search_atD [OF assms(1)]
  obtain out lev where a: "analyze cfg R confl s = Inr (out, lev, s)" "asserting s out lev" "\<forall>\<alpha>. models_at T s \<alpha> \<longrightarrow> csat \<alpha> out"
    using analyze_ok [OF conflict_conflicting [OF i(1) assms(2,3)] assms(3) i(8,2,3,5) assms(4,5)] by blast
  show ?thesis
    using learn_clause_ok [OF assms(1) a(2,3)] a(1) by (simp add: learn_conflict_def)
qed

section \<open>Propagating and deciding\<close>

lemma prop_ext_order: "prop_ext s s' \<Longrightarrow> decision s' = decision s \<and> order_heap s' = order_heap s"
  by (simp add: prop_ext_def prop_rel_def frame_of_def)

lemma propagate_search:
  assumes "search_at T (qhead s) s"
  obtains r s' where "propagate s = Inr (r, s')" "prop_ext s s'" "qhead s' = length (trail s')" "same_models T s s'"
    "r = CRef_Undef \<and> search_at T (length (trail s')) s' \<or> conflict s' r \<and> search_at T (qhead s) s'"
proof -
  note i = search_atD [OF assms]
  obtain r s' where run: "propagate s = Inr (r, s')" "prop_ext s s'" "qhead s' = length (trail s')"
      "r = CRef_Undef \<and> sat_inv (length (trail s')) s' \<or> conflict s' r \<and> sat_inv (qhead s) s'"
    by (rule propagate_ok [OF i(1)])
  obtain new where new: "trail s' = trail s @ new" "\<forall>r \<in> set new. \<exists>cr. reason s' (lit_var r) = CRef cr"
      "\<forall>r \<in> set (trail s). reason s' (lit_var r) = reason s (lit_var r)" "seen s' = seen s"
    by (rule prop_ext_new [OF run(2)])
  note f = prop_ext_fields [OF run(2)] and d = sat_invD [OF i(1)]
  have c: "csat \<alpha> (clause_of s' cr) = csat \<alpha> (clause_of s cr)" for \<alpha> cr
    by (rule csat_set [OF f(8)])
  have l0: "level0 s' = (if trail_lim s = [] then level0 s @ new else level0 s)"
  proof (cases "trail_lim s")
    case (Cons x xs)
    then have "x \<le> length (trail s)"
      using d(1) by (simp add: trail_inv_def)
    then show ?thesis
      using Cons by (simp add: level0_def f(2) new(1))
  qed (simp add: level0_def f(2) new(1))
  have m: "sat_models s' \<alpha> = sat_models s \<alpha>" if "T \<alpha>" for \<alpha>
  proof (cases "trail_lim s = []")
    case True
    have "lsat \<alpha> q" if q: "q \<in> set new" and a: "sat_models s \<alpha>" for q
    proof -
      have at: "models_at T s \<alpha>"
        by (rule models_models_at [OF d(1) i(7) \<open>T \<alpha>\<close> a])
      have "trail_sat \<alpha> s"
        using a True by (simp add: sat_models_def level0_def trail_sat_def)
      then have "trail_sat \<alpha> s'"
        using f(12) at by (simp add: models_at_def)
      then show ?thesis
        using q new(1) by (simp add: trail_sat_def)
    qed
    then show ?thesis
      using True by (auto simp: sat_models_def f(3,5) c l0)
  qed (simp add: sat_models_def f(3,5) c l0)
  have "decided s'"
    unfolding decided_def
  proof (intro allI impI)
    fix j assume j: "j < length (trail s')" and r: "reason s' (lit_var (trail s' ! j)) = CRef_Undef"
    have jl: "j < length (trail s)"
    proof (rule ccontr)
      assume "\<not> j < length (trail s)"
      then have "trail s' ! j \<in> set new"
        using j new(1) by (simp add: nth_append)
      then show False
        using new(2) r by force
    qed
    then have t: "trail s' ! j = trail s ! j" "trail s ! j \<in> set (trail s)"
      using new(1) by (simp_all add: nth_append)
    then show "level s' (lit_var (trail s' ! j)) = 0 \<or> j = trail_lim s' ! (level s' (lit_var (trail s' ! j)) - 1)"
      using i(2) jl r new(3) f(11) [OF t(2)] unfolding decided_def f(2) t(1) by simp
  qed
  moreover have "no_fake s'"
    using i(4) new by (fastforce simp: no_fake_def)
  moreover have "order_ok s'"
  proof -
    have "decision s' = decision s" "order_heap s' = order_heap s"
      using prop_ext_order [OF run(2)] by simp_all
    then show ?thesis
      using i(9) new(1) by (auto simp: order_ok_def f(1))
  qed
  ultimately have rest: "search_at T k s' \<longleftrightarrow> sat_inv k s'" for k
    using i m c by (auto simp: search_at_def rooted_def l0 clean_seen_def learnts_implied_def refs_distinct_def f(1,3-5) new(4))
  show thesis
    by (rule that [OF run(1-3)]) (use m run(4) rest in \<open>simp_all add: same_models_def\<close>)
qed

lemma newDecisionLevel_search:
  assumes "search_at T (length (trail s)) s" "qhead s = length (trail s)"
  shows "search_at T (length (trail s)) (newDecisionLevel s)" "same_models T s (newDecisionLevel s)"
proof -
  note i = search_atD [OF assms(1)] and f = newDecisionLevel_fields [of s]
  note d = sat_invD [OF i(1)]
  have l0: "level0 (newDecisionLevel s) = level0 s"
    by (cases "trail_lim s") (simp_all add: level0_def f)
  have m: "sat_models (newDecisionLevel s) = sat_models s"
    by (simp add: fun_eq_iff sat_models_def f l0)
  then show "same_models T s (newDecisionLevel s)"
    by (simp add: same_models_def)
  have "decided (newDecisionLevel s)"
    unfolding decided_def f
  proof (intro allI impI)
    fix j assume j: "j < length (trail s)" "reason s (lit_var (trail s ! j)) = CRef_Undef"
    then have "level s (lit_var (trail s ! j)) \<le> length (trail_lim s)"
      using level_le [OF d(1)] by (simp add: decisionLevel_def)
    moreover have "level s (lit_var (trail s ! j)) = 0 \<or> j = trail_lim s ! (level s (lit_var (trail s ! j)) - 1)"
      using i(2) j by (simp add: decided_def)
    ultimately show "level s (lit_var (trail s ! j)) = 0 \<or>
        j = (trail_lim s @ [length (trail s)]) ! (level s (lit_var (trail s ! j)) - 1)"
      by (cases "level s (lit_var (trail s ! j))") (simp_all add: nth_append)
  qed
  then show "search_at T (length (trail s)) (newDecisionLevel s)"
    using i newDecisionLevel_ok [OF i(1) assms(2)]
    by (simp add: search_at_def rooted_def no_fake_def clean_seen_def learnts_implied_def order_ok_def refs_distinct_def l0 m f)
qed

lemma decide_search:
  assumes "search_at T (length (trail s)) s" "qhead s = length (trail s)" "lit_ok (Sat_Solver.nVars s) p" "is_undef s p"
  obtains s' where "uncheckedEnqueue p CRef_Undef (newDecisionLevel s) = Inr s'" "search_at T (qhead s') s'" "same_models T s s'"
    "s' = enqueued p CRef_Undef (newDecisionLevel s)"
proof -
  let ?t = "newDecisionLevel s"
  note n = newDecisionLevel_search [OF assms(1,2)] and f = newDecisionLevel_fields [of s]
  note i = search_atD [OF n(1)]
  have ok: "lit_ok (Sat_Solver.nVars ?t) p" "p \<notin> set (trail ?t)" "lit_not p \<notin> set (trail ?t)"
    using assms(3,4) values_iff(3) [OF sat_invD(1) [OF search_atD(1) [OF assms(1)]]] by (simp_all add: f)
  have inv: "sat_inv (length (trail s)) (enqueued p CRef_Undef ?t)"
    by (rule enqueued_sat_inv [OF i(1) ok]) (simp add: f)
  have "search_at T (length (trail s)) (enqueued p CRef_Undef ?t)" "same_models T ?t (enqueued p CRef_Undef ?t)"
    using enqueued_search [OF n(1) ok _ _ inv] by (simp_all add: f)
  moreover have "uncheckedEnqueue p CRef_Undef ?t = Inr (enqueued p CRef_Undef ?t)"
    by (rule uncheckedEnqueue_ok [OF sat_invD(1) [OF i(1)] ok]) simp
  ultimately show thesis
    using that same_models_trans [OF n(2)] assms(2) by (simp add: f)
qed

section \<open>Answers\<close>

text \<open>A conflict at level 0 leaves no model; a state where all is settled and assigned gives one.\<close>

lemma conflict_level0:
  assumes "search_at T m s" "conflict s r" "decisionLevel s = 0" "T \<alpha>"
  shows "\<not> sat_models s \<alpha>"
proof
  assume a: "sat_models s \<alpha>"
  note i = search_atD [OF assms(1)]
  have "models_at T s \<alpha>"
    by (rule models_models_at [OF sat_invD(1) [OF i(1)] i(7) assms(4) a])
  moreover have "trail_sat \<alpha> s"
    using a assms(3) by (simp add: sat_models_def level0_def trail_sat_def decisionLevel_def)
  ultimately show False
    using conflict_unsat [OF assms(2), of \<alpha>] by (simp add: models_at_def)
qed

definition trail_model :: "'a sat_solver_scheme \<Rightarrow> nat \<Rightarrow> bool" where
  "trail_model s v \<longleftrightarrow> mkLit v False \<in> set (trail s)"

lemma trail_model_sat:
  assumes "trail_inv s" "p \<in> set (trail s)"
  shows "lsat (trail_model s) p"
proof -
  obtain v b where p: "p = mkLit v b"
    using trail_inv_ok [OF assms] by (rule lit_ok_cases)
  then show ?thesis
    using assms(2) trail_not [OF assms(1,2)] by (cases b) (auto simp: trail_model_def)
qed

lemma complete_model:
  assumes "search_at T (length (trail s)) s" "\<forall>cr \<in> set (clauses s). \<forall>q \<in> set (clause_of s cr). \<not> is_undef s q"
  shows "sat_models s (trail_model s)"
proof -
  note i = search_atD [OF assms(1)]
  note d = sat_invD [OF i(1)]
  have "csat (trail_model s) (clause_of s cr)" if cr: "cr \<in> set (clauses s)" for cr
  proof -
    have "settled s cr"
      by (rule all_settled [OF i(1)]) (use cr in \<open>simp add: attached_def\<close>)
    then obtain q where "q \<in> set (clause_of s cr)" "q \<in> set (trail s)"
      using assms(2) cr by (auto simp: settled_def)
    then show ?thesis
      using trail_model_sat [OF d(1)] by (auto simp: csat_def)
  qed
  moreover have "lsat (trail_model s) q" if "q \<in> set (level0 s)" for q
    using trail_model_sat [OF d(1)] that level0_prefix(2) [OF d(1)] by blast
  ultimately show ?thesis
    using i(6) by (simp add: sat_models_def)
qed

end
