(* ===== verification/Sat_Reduce.thy ===== *)
theory Sat_Reduce
  imports Sat_Loop Sat_Search
begin

text \<open>
  Removing clauses: \<open>removeClause\<close> takes a clause out of the watch lists and the reasons, and the loops
  of \<open>removeSatisfied\<close> and \<open>reduceDB\<close> keep the invariant of the search and the models.
\<close>

section \<open>One clause\<close>

lemma smudge_fields [simp]:
  "nVars (smudge p s) = nVars s" "ca (smudge p s) = ca s" "clauses (smudge p s) = clauses s" "learnts (smudge p s) = learnts s"
  "trail (smudge p s) = trail s" "vardata (smudge p s) = vardata s" "assigns (smudge p s) = assigns s" "occs (smudge p s) = occs s"
  "trail_lim (smudge p s) = trail_lim s" "qhead (smudge p s) = qhead s" "sat_ok (smudge p s) = sat_ok s" "seen (smudge p s) = seen s"
  "decision (smudge p s) = decision s" "order_heap (smudge p s) = order_heap s" "length (dirty (smudge p s)) = length (dirty s)"
  by (simp_all add: smudge_def nVars_def)

lemma smudge_dirt:
  assumes "length (dirty s) = 2 * nVars s" "lit_ok (nVars s) p" "lit_ok (nVars s) q"
  shows "dirty (smudge p s) ! nat q \<longleftrightarrow> dirty s ! nat q \<or> q = p"
    "set (dirties (smudge p s)) = set (dirties s) \<union> (if dirty s ! nat p then {} else {p})"
  using assms lit_ok_bound [OF assms(2)] nat_lit_eq [OF assms(2,3)]
  by (auto simp: smudge_def nth_list_update)

text \<open>The state after \<open>removeClause\<close>, with the two lists of references replaced.\<close>

definition removed_state :: "nat \<Rightarrow> nat list \<Rightarrow> nat list \<Rightarrow> 'a sat_solver_scheme \<Rightarrow> 'a sat_solver_scheme" where
  "removed_state cr cs ls s =
     (let c = the (al_mem (ca s) cr);
          s1 = smudge (lit_not (lits c ! 1)) (smudge (lit_not (lits c ! 0)) s);
          s2 = (if locked s1 cr c
                then s1\<lparr>vardata := (vardata s1)[lit_var (lits c ! 0) := (CRef_Undef, level s1 (lit_var (lits c ! 0)))]\<rparr> else s1)
      in s2\<lparr>ca := ca_free cr ((ca s2)\<lparr>al_mem := (al_mem (ca s2))(cr \<mapsto> c\<lparr>c_mark := 1\<rparr>)\<rparr>), clauses := cs, learnts := ls\<rparr>)"

lemma removeClause_run:
  assumes "db_inv (s\<lparr>clauses := cs, learnts := ls\<rparr>)" "cr \<in> set cs \<union> set ls"
  shows "removeClause cr s = Inr (removed_state cr (clauses s) (learnts s) s)"
proof -
  obtain c where c: "al_mem (ca s) cr = Some c" "1 < length (lits c)"
    using assms by (fastforce simp: db_inv_def attached_def good_clause_def)
  have "t = t\<lparr>clauses := clauses t, learnts := learnts t\<rparr>" for t :: "'a sat_solver_scheme"
    by simp
  then show ?thesis
    using c by (simp add: removeClause_def detachClause_def clause_at_def removed_state_def Let_def)
qed

lemma removed_fields:
  "trail (removed_state cr cs ls s) = trail s" "trail_lim (removed_state cr cs ls s) = trail_lim s" "qhead (removed_state cr cs ls s) = qhead s"
  "assigns (removed_state cr cs ls s) = assigns s" "occs (removed_state cr cs ls s) = occs s" "sat_ok (removed_state cr cs ls s) = sat_ok s"
  "seen (removed_state cr cs ls s) = seen s" "decision (removed_state cr cs ls s) = decision s"
  "order_heap (removed_state cr cs ls s) = order_heap s" "clauses (removed_state cr cs ls s) = cs"
  "learnts (removed_state cr cs ls s) = ls" "nVars (removed_state cr cs ls s) = nVars s"
  "dirty (removed_state cr cs ls s) = dirty (smudge (lit_not (clause_of s cr ! 1)) (smudge (lit_not (clause_of s cr ! 0)) s))"
  "dirties (removed_state cr cs ls s) = dirties (smudge (lit_not (clause_of s cr ! 1)) (smudge (lit_not (clause_of s cr ! 0)) s))"
  "decisionLevel (removed_state cr cs ls s) = decisionLevel s"
  by (simp_all add: removed_state_def Let_def nVars_def clause_of_def decisionLevel_def)

lemma removed_reason:
  assumes "lit_var (clause_of s cr ! 0) < nVars s"
  shows "level (removed_state cr cs ls s) v = level s v"
    "reason (removed_state cr cs ls s) v = (if locked s cr (the (al_mem (ca s) cr)) \<and> v = lit_var (clause_of s cr ! 0) then CRef_Undef else reason s v)"
proof -
  have l: "locked (smudge p (smudge q s)) = locked s" "level (smudge p (smudge q s)) = level s" "reason (smudge p (smudge q s)) = reason s" for p q
    by (auto simp: fun_eq_iff locked_def is_true_def val_lit_def reason_def level_def)
  show "level (removed_state cr cs ls s) v = level s v"
    using assms by (auto simp: removed_state_def Let_def l level_def nVars_def clause_of_def nth_list_update)
  show "reason (removed_state cr cs ls s) v = (if locked s cr (the (al_mem (ca s) cr)) \<and> v = lit_var (clause_of s cr ! 0) then CRef_Undef else reason s v)"
    using assms by (auto simp: removed_state_def Let_def l level_def reason_def nVars_def clause_of_def nth_list_update)
qed

lemma removed_mem:
  assumes "al_mem (ca s) cr = Some c"
  shows "al_mem (ca (removed_state cr cs ls s)) = (al_mem (ca s))(cr \<mapsto> c\<lparr>c_mark := 1\<rparr>)"
    "al_size (ca (removed_state cr cs ls s)) = al_size (ca s)" "clause_of (removed_state cr cs ls s) = clause_of s"
    "watcher_deleted (removed_state cr cs ls s) w \<longleftrightarrow> watcher_deleted s w \<or> w_cref w = cr"
  using assms by (auto simp: removed_state_def Let_def ca_free_def fun_eq_iff clause_of_def watcher_deleted_def)

lemma removed_inv:
  assumes inv: "sat_inv m s" and cr: "attached s = insert cr (set cs \<union> set ls)" "cr \<notin> set cs \<union> set ls"
  shows "sat_inv m (removed_state cr cs ls s)"
proof -
  let ?s = "removed_state cr cs ls s"
  note d = sat_invD [OF inv] and f = removed_fields [of cr cs ls s]
  have a: "cr \<in> attached s"
    using cr by simp
  obtain c where c: "al_mem (ca s) cr = Some c" "lits c = clause_of s cr" "c_mark c \<noteq> 1"
    using db_invD(2) [OF d(2) a] by blast
  have g: "good_clause (nVars s) (clause_of s cr)"
    by (rule db_invD(1) [OF d(2) a])
  note l = good_clauseD [OF g] and mem = removed_mem [OF c(1), of cs ls]
  have v: "lit_var (clause_of s cr ! 0) < nVars s"
    using l(6) by (simp add: lit_ok_def)
  note re = removed_reason [OF v, of cs ls]
  have att: "attached ?s = attached s - {cr}"
    using cr by (auto simp: attached_def f)
  have wl: "wlits ?s = wlits s"
    by (simp add: fun_eq_iff wlits_def mem(3))
  have W: "W_of ?s = W_of s"
    by (simp add: fun_eq_iff W_of_def f)
  have lv: "live ?s p = filter (\<lambda>w. w_cref w \<noteq> cr) (live s p)" for p
    by (auto simp: live_def W mem(4) intro: filter_cong)
  have "trail_inv ?s"
    using d(1) by (simp add: trail_inv_def f re(1))
  moreover have "db_inv ?s"
    unfolding db_inv_def att f(12)
  proof (intro conjI ballI allI impI)
    fix x assume "x \<in> attached s - {cr}"
    then show "\<exists>c. al_mem (ca ?s) x = Some c \<and> c_mark c \<noteq> 1 \<and> good_clause (nVars s) (lits c)"
      using d(2) by (simp add: db_inv_def mem(1))
  next
    fix x assume "al_mem (ca ?s) x \<noteq> None"
    then have "al_mem (ca s) x \<noteq> None"
      using c(1) unfolding mem(1) by (auto split: if_splits)
    then show "x < al_size (ca ?s)"
      using d(2) by (simp add: db_inv_def mem(2))
  qed
  moreover have "watch_ok ?s (live ?s)"
    unfolding watch_ok_def att wl mem(3) f(12)
  proof (intro conjI allI impI ballI)
    fix p assume p: "lit_ok (nVars s) p"
    show "distinct (map w_cref (live ?s p))"
      using watch_okD(1) [OF d(4) p] by (simp add: lv distinct_map_filter)
    fix w assume w: "w \<in> set (live ?s p)"
    then show "w_cref w \<in> attached s - {cr}" "w_blocker w \<in> set (clause_of s (w_cref w))" "lit_not p \<in> wlits s (w_cref w)"
      using watch_okD(2) [OF d(4) p] by (auto simp: lv)
  next
    fix x q assume x: "x \<in> attached s - {cr}" "q \<in> wlits s x"
    then have "x \<in> w_cref ` set (live s (lit_not q))"
      using watch_okD(3) [OF d(4)] by blast
    then show "x \<in> w_cref ` set (live ?s (lit_not q))"
      using x(1) by (auto simp: lv)
  qed
  moreover have "dirt_ok ?s"
  proof -
    let ?p0 = "lit_not (clause_of s cr ! 0)" and ?p1 = "lit_not (clause_of s cr ! 1)"
    let ?t = "smudge ?p0 s"
    have ok: "lit_ok (nVars s) ?p0" "lit_ok (nVars s) ?p1"
      using l(6,7) by simp_all
    have len: "length (dirty s) = 2 * nVars s" "length (dirty ?t) = 2 * nVars ?t"
      using d(5) by (simp_all add: dirt_ok_def)
    have ok1: "lit_ok (nVars ?t) ?p1"
      using ok(2) by simp
    have s1: "dirty ?t ! nat q \<longleftrightarrow> dirty s ! nat q \<or> q = ?p0" if "lit_ok (nVars s) q" for q
      by (rule smudge_dirt(1) [OF len(1) ok(1) that])
    have s2: "dirty ?s ! nat q \<longleftrightarrow> dirty s ! nat q \<or> q = ?p0 \<or> q = ?p1" if "lit_ok (nVars s) q" for q
      using smudge_dirt(1) [OF len(2) ok1, of q] s1 that by (simp add: f)
    have ds: "set (dirties ?s) = set (dirties s) \<union> (if dirty s ! nat ?p0 then {} else {?p0}) \<union> (if dirty ?t ! nat ?p1 then {} else {?p1})"
      using smudge_dirt(2) [OF len(1) ok(1) ok(1)] smudge_dirt(2) [OF len(2) ok1 ok1] by (simp only: f)
    show ?thesis
      unfolding dirt_ok_def f(12) W
    proof (intro conjI allI impI ballI)
      show "length (dirty ?s) = 2 * nVars s"
        using len by (simp add: f)
      fix p assume "p \<in> set (dirties ?s)"
      then show "lit_ok (nVars s) p"
        using d(5) ok unfolding ds dirt_ok_def by (auto split: if_splits)
    next
      fix p assume p: "lit_ok (nVars s) p" "dirty ?s ! nat p"
      have old: "q \<in> set (dirties s)" if "lit_ok (nVars s) q" "dirty s ! nat q" for q
        using d(5) that by (simp add: dirt_ok_def)
      show "p \<in> set (dirties ?s)"
        using p(2) old [OF p(1)] old [OF ok(1)] old [OF ok(2)] s1 [OF ok(2)] unfolding s2 [OF p(1)] ds by auto
    next
      fix p assume p: "lit_ok (nVars s) p" "\<exists>w \<in> set (W_of s p). watcher_deleted ?s w"
      then obtain w where w: "w \<in> set (W_of s p)" "watcher_deleted s w \<or> w_cref w = cr"
        using mem(4) by blast
      have "dirty s ! nat p \<or> p = ?p0 \<or> p = ?p1"
      proof (cases "watcher_deleted s w")
        case True
        then show ?thesis
          using d(5) p(1) w(1) by (auto simp: dirt_ok_def)
      next
        case False
        then have "lit_not p \<in> wlits s cr"
          using watch_okD(2) [OF d(4) p(1)] w by (auto simp: live_def)
        then have "lit_not p = clause_of s cr ! 0 \<or> lit_not p = clause_of s cr ! 1"
          by (simp add: wlits_def)
        then show ?thesis
          by (metis lit_not_not)
      qed
      then show "dirty ?s ! nat p"
        using s2 [OF p(1)] by simp
    qed
  qed
  moreover have "impl_ok ?s m UNIV"
    using d(6) unfolding impl_ok_def att wl mem(3) f(1) re(1) by blast
  moreover have "reasons_ok ?s"
    unfolding reasons_ok_def f(1)
  proof (intro allI impI)
    fix i x assume i: "i < length (trail s)" and r: "reason ?s (lit_var (trail s ! i)) = CRef x"
    have rs: "reason s (lit_var (trail s ! i)) = CRef x"
      using r by (simp add: re(2) split: if_splits)
    have x: "x \<in> attached s" "clause_of s x ! 0 = trail s ! i" "\<forall>q \<in> set (tl (clause_of s x)). lit_not q \<in> set (take i (trail s))"
      using d(7) i rs unfolding reasons_ok_def by blast+
    have "x \<noteq> cr"
    proof
      assume "x = cr"
      then have "locked s cr c"
        using x(2) rs i values_iff(1) [OF d(1), of "trail s ! i"] trail_inv_ok [OF d(1), of "trail s ! i"]
        by (simp add: locked_def c(2))
      then show False
        using r x(2) \<open>x = cr\<close> c(1) by (simp add: re(2))
    qed
    then show "x \<in> attached ?s \<and> clause_of ?s x ! 0 = trail s ! i \<and> (\<forall>q \<in> set (tl (clause_of ?s x)). lit_not q \<in> set (take i (trail s)))"
      using x by (simp add: att mem(3))
  qed
  ultimately show ?thesis
    using d(3,8) by (simp add: sat_inv_def f)
qed

text \<open>What the search needs: the reason of a decision may go at level 0 only, and an original clause only when it is satisfied there.\<close>

lemma removed_search:
  assumes s: "search_at T m s" and cr: "attached s = insert cr (set cs \<union> set ls)" "cr \<notin> set cs \<union> set ls"
    and lists: "distinct (cs @ ls)" "set cs \<subseteq> set (clauses s)" "set ls \<subseteq> set (learnts s)"
    and locked: "locked s cr (the (al_mem (ca s) cr)) \<longrightarrow> decisionLevel s = 0"
    and sat: "cr \<in> set (clauses s) \<longrightarrow> decisionLevel s = 0 \<and> satisfied s (the (al_mem (ca s) cr))"
  shows "search_at T m (removed_state cr cs ls s)" "sat_models (removed_state cr cs ls s) = sat_models s"
proof -
  let ?s = "removed_state cr cs ls s"
  note i = search_atD [OF s] and f = removed_fields [of cr cs ls s]
  note d = sat_invD [OF i(1)]
  have a: "cr \<in> attached s"
    using cr by simp
  obtain c where c: "al_mem (ca s) cr = Some c" "lits c = clause_of s cr"
    using db_invD(2) [OF d(2) a] by blast
  note mem = removed_mem [OF c(1), of cs ls]
  have v: "lit_var (clause_of s cr ! 0) < nVars s"
    using good_clauseD(6) [OF db_invD(1) [OF d(2) a]] by (simp add: lit_ok_def)
  note re = removed_reason [OF v, of cs ls]
  have l0: "level0 ?s = level0 s"
    by (simp add: level0_def f)
  have m: "sat_models ?s \<alpha> = sat_models s \<alpha>" for \<alpha>
  proof -
    have "csat \<alpha> (clause_of s x)" if x: "x \<in> set (clauses s)" "x \<notin> set cs"
      and cs: "\<forall>y \<in> set cs. csat \<alpha> (clause_of s y)" and l: "\<forall>q \<in> set (level0 s). lsat \<alpha> q" for x
    proof (cases "x = cr")
      case True
      then obtain q where q: "q \<in> set (clause_of s cr)" "is_true s q" and dl: "decisionLevel s = 0"
        using sat x(1) c by (auto simp: satisfied_def)
      have "q \<in> set (trail s)"
        using q values_iff(1) [OF d(1)] db_invD(1) [OF d(2) a] by (auto simp: good_clause_def)
      then have "q \<in> set (level0 s)"
        using dl by (simp add: level0_def decisionLevel_def)
      then show ?thesis
        using l q(1) True by (auto simp: csat_def)
    next
      case False
      have "x \<in> attached s"
        using x(1) by (simp add: attached_def)
      then have "x \<in> set ls"
        using cr(1) x(2) False by simp
      then have "x \<in> set (learnts s)"
        using lists(3) by blast
      then show ?thesis
        using i(10) x(1) by (auto simp: refs_distinct_def)
    qed
    then show ?thesis
      using lists(2) by (auto simp: sat_models_def f l0 mem(3))
  qed
  then show "sat_models ?s = sat_models s"
    by blast
  have "decided ?s"
    unfolding decided_def
  proof (intro allI impI)
    fix j assume j: "j < length (trail ?s)" and r: "reason ?s (lit_var (trail ?s ! j)) = CRef_Undef"
    then have jl: "j < length (trail s)" "trail s ! j \<in> set (trail s)"
      by (simp_all add: f)
    show "level ?s (lit_var (trail ?s ! j)) = 0 \<or> j = trail_lim ?s ! (level ?s (lit_var (trail ?s ! j)) - 1)"
    proof (cases "decisionLevel s = 0")
      case True
      then show ?thesis
        using level_le [OF d(1) jl(2)] by (simp add: f re(1))
    next
      case False
      then have "reason s (lit_var (trail s ! j)) = CRef_Undef"
        using r locked by (simp add: f re(2))
      then show ?thesis
        using i(2) jl(1) by (simp add: decided_def f re(1))
    qed
  qed
  moreover have "no_fake ?s"
    using i(4) by (simp add: no_fake_def f re(2))
  moreover have "learnts_implied T ?s"
    using i(7) lists(3) by (auto simp: learnts_implied_def m f mem(3))
  ultimately show "search_at T m ?s"
    using i removed_inv [OF i(1) cr] lists(1)
    by (simp add: search_at_def rooted_def l0 clean_seen_def order_ok_def refs_distinct_def f)
qed

section \<open>The loop\<close>

text \<open>
  The loop over the learnt clauses, seen with the list of references that it stands for: those kept so far
  in front of those left.
\<close>

definition relisted :: "nat list \<Rightarrow> nat list \<Rightarrow> 'a sat_solver_scheme \<Rightarrow> 'a sat_solver_scheme" where
  "relisted cs ls s = s\<lparr>clauses := cs, learnts := ls\<rparr>"

lemma relisted_same [simp]:
  "smudge p (relisted cs ls s) = relisted cs ls (smudge p s)" "locked (relisted cs ls s) = locked s"
  "level (relisted cs ls s) = level s" "ca (relisted cs ls s) = ca s" "vardata (relisted cs ls s) = vardata s"
  "trail (relisted cs ls s) = trail s" "trail_lim (relisted cs ls s) = trail_lim s" "qhead (relisted cs ls s) = qhead s"
  "nVars (relisted cs ls s) = nVars s" "clauses (relisted cs ls s) = cs" "learnts (relisted cs ls s) = ls"
  "decisionLevel (relisted cs ls s) = decisionLevel s" "clause_at (relisted cs ls s) = clause_at s"
  "attached (relisted cs ls s) = set cs \<union> set ls"
  by (auto simp: fun_eq_iff attached_def relisted_def smudge_def locked_def is_true_def val_lit_def reason_def level_def nVars_def
      decisionLevel_def clause_at_def)

lemma removed_relisted: "relisted cs' ls' (removed_state cr (clauses s) (learnts s) s) = removed_state cr cs' ls' (relisted cs ls s)"
proof -
  define t where "t = smudge (lit_not (lits (the (al_mem (ca s) cr)) ! 1)) (smudge (lit_not (lits (the (al_mem (ca s) cr)) ! 0)) s)"
  show ?thesis
    unfolding removed_state_def Let_def relisted_same t_def [symmetric]
    by (cases "locked t cr (the (al_mem (ca s) cr))") (simp_all add: relisted_def)
qed

lemma removeClause_relisted:
  assumes "db_inv (relisted cs ls s)" "cr \<in> set cs \<union> set ls"
  shows "\<exists>s'. removeClause cr s = Inr s' \<and> clauses s' = clauses s \<and> learnts s' = learnts s \<and>
    relisted cs' ls' s' = removed_state cr cs' ls' (relisted cs ls s)"
proof -
  have run: "removeClause cr s = Inr (removed_state cr (clauses s) (learnts s) s)"
    by (rule removeClause_run [OF assms [unfolded relisted_def]])
  then show ?thesis
    using removed_relisted removed_fields(10,11) [of cr "clauses s" "learnts s" s] by blast
qed

text \<open>
  One list is worked on, the original clauses (\<open>orig\<close>) or the learnt ones, and the other stays. A learnt
  clause may go unless it is a reason above level 0, an original one when it is satisfied at level 0.
\<close>

definition relist :: "bool \<Rightarrow> nat list \<Rightarrow> nat list \<Rightarrow> 'a sat_solver_scheme \<Rightarrow> 'a sat_solver_scheme" where
  "relist orig other ks s = (if orig then relisted ks other s else relisted other ks s)"

lemma relist_same [simp]:
  "locked (relist orig other ks s) = locked s" "ca (relist orig other ks s) = ca s" "decisionLevel (relist orig other ks s) = decisionLevel s"
  "clause_at (relist orig other ks s) = clause_at s" "attached (relist orig other ks s) = set other \<union> set ks"
  "satisfied (relist orig other ks s) = satisfied s"
proof -
  have t: "is_true (relisted cs ls s) = is_true s" for cs ls
    by (simp add: fun_eq_iff is_true_def val_lit_def relisted_def)
  show "locked (relist orig other ks s) = locked s" "ca (relist orig other ks s) = ca s" "decisionLevel (relist orig other ks s) = decisionLevel s"
      "clause_at (relist orig other ks s) = clause_at s" "attached (relist orig other ks s) = set other \<union> set ks"
      "satisfied (relist orig other ks s) = satisfied s"
    by (auto simp: relist_def attached_def fun_eq_iff satisfied_def t)
qed

definition may_remove :: "bool \<Rightarrow> (nat \<Rightarrow> 'a sat_solver_scheme \<Rightarrow> nat \<Rightarrow> clause \<Rightarrow> bool) \<Rightarrow> bool" where
  "may_remove orig P \<longleftrightarrow> (\<forall>i s cr c. P i s cr c \<longrightarrow>
     (locked s cr c \<longrightarrow> decisionLevel s = 0) \<and> (orig \<longrightarrow> decisionLevel s = 0 \<and> satisfied s c))"

definition same_trail :: "'a sat_solver_scheme \<Rightarrow> 'a sat_solver_scheme \<Rightarrow> bool" where
  "same_trail s s' \<longleftrightarrow> trail s' = trail s \<and> trail_lim s' = trail_lim s \<and> qhead s' = qhead s \<and> Sat_Solver.nVars s' = Sat_Solver.nVars s \<and>
     assigns s' = assigns s"

lemma remove_one:
  assumes "search_at T m (relist orig other (kept @ cr # crs) s)" "clause_at s cr = Inr c"
    and "locked s cr c \<longrightarrow> decisionLevel s = 0" "orig \<longrightarrow> decisionLevel s = 0 \<and> satisfied s c"
  shows "\<exists>s1. removeClause cr s = Inr s1 \<and> clauses s1 = clauses s \<and> learnts s1 = learnts s \<and> same_trail s s1 \<and>
    search_at T m (relist orig other (kept @ crs) s1) \<and>
    sat_models (relist orig other (kept @ crs) s1) = sat_models (relist orig other (kept @ cr # crs) s)"
proof -
  let ?t = "relist orig other (kept @ cr # crs) s"
  note h = search_atD [OF assms(1)]
  define cs where "cs = (if orig then kept @ crs else other)"
  define ls where "ls = (if orig then other else kept @ crs)"
  have r: "relist orig other (kept @ crs) u = relisted cs ls u" for u
    by (simp add: relist_def cs_def ls_def)
  have t: "?t = relisted (if orig then kept @ cr # crs else other) (if orig then other else kept @ cr # crs) s"
    by (simp add: relist_def)
  obtain s1 where s1: "removeClause cr s = Inr s1" "clauses s1 = clauses s" "learnts s1 = learnts s"
      "relisted cs ls s1 = removed_state cr cs ls ?t"
    using removeClause_relisted [OF sat_invD(2) [OF h(1), unfolded t], of cr cs ls] unfolding t by fastforce
  have dist: "distinct (other @ kept @ cr # crs)"
    using h(10) by (cases orig) (auto simp: refs_distinct_def relist_def)
  have c: "the (al_mem (ca s) cr) = c"
    using assms(2) by (simp add: clause_at_def split: option.splits)
  have "attached ?t = insert cr (set cs \<union> set ls)" "cr \<notin> set cs \<union> set ls" "distinct (cs @ ls)"
      "set cs \<subseteq> set (clauses ?t)" "set ls \<subseteq> set (learnts ?t)"
    using dist by (auto simp: cs_def ls_def t)
  moreover have "locked ?t cr (the (al_mem (ca ?t) cr)) \<longrightarrow> decisionLevel ?t = 0"
    using assms(3) by (simp add: c)
  moreover have "cr \<in> set (clauses ?t) \<longrightarrow> decisionLevel ?t = 0 \<and> satisfied ?t (the (al_mem (ca ?t) cr))"
    unfolding relist_same c using assms(4) dist by (cases orig) (simp_all add: relist_def)
  ultimately have "search_at T m (removed_state cr cs ls ?t)" "sat_models (removed_state cr cs ls ?t) = sat_models ?t"
    by (rule removed_search [OF assms(1)])+
  moreover have "same_trail s s1"
    using arg_cong [OF s1(4), of trail] arg_cong [OF s1(4), of trail_lim] arg_cong [OF s1(4), of qhead]
      arg_cong [OF s1(4), of Sat_Solver.nVars] arg_cong [OF s1(4), of assigns]
    by (simp add: removed_fields same_trail_def t) (simp add: relisted_def)
  ultimately show ?thesis
    using s1 by (simp add: r)
qed

lemma remove_loop_ok:
  assumes "search_at T m (relist orig other (kept @ crs) s)" "may_remove orig P"
  shows "\<exists>ks s'. remove_loop P i crs s = Inr (ks, s') \<and> clauses s' = clauses s \<and> learnts s' = learnts s \<and> same_trail s s' \<and>
    search_at T m (relist orig other (kept @ ks) s') \<and>
    sat_models (relist orig other (kept @ ks) s') = sat_models (relist orig other (kept @ crs) s)"
  using assms(1)
proof (induction crs arbitrary: kept i s)
  case Nil
  then show ?case
    by (simp add: same_trail_def)
next
  case (Cons cr crs)
  note h = search_atD [OF Cons.prems]
  have "cr \<in> attached (relist orig other (kept @ cr # crs) s)"
    by simp
  then obtain c where c: "clause_at s cr = Inr c"
    using db_invD(3) [OF sat_invD(2) [OF h(1)]] by fastforce
  show ?case
  proof (cases "P i s cr c")
    case False
    have "search_at T m (relist orig other ((kept @ [cr]) @ crs) s)"
      using Cons.prems by simp
    from Cons.IH [OF this, of "i + 1"] show ?thesis
      using False c by auto
  next
    case True
    then have ok: "locked s cr c \<longrightarrow> decisionLevel s = 0" "orig \<longrightarrow> decisionLevel s = 0 \<and> satisfied s c"
      using assms(2) by (auto simp: may_remove_def)
    obtain s1 where s1: "removeClause cr s = Inr s1" "clauses s1 = clauses s" "learnts s1 = learnts s" "same_trail s s1"
        "search_at T m (relist orig other (kept @ crs) s1)"
        "sat_models (relist orig other (kept @ crs) s1) = sat_models (relist orig other (kept @ cr # crs) s)"
      using remove_one [OF Cons.prems c ok] by blast
    from Cons.IH [OF s1(5), of "i + 1"] show ?thesis
      using True c s1(1-4,6) by (auto simp: same_trail_def)
  qed
qed

section \<open>The two reductions\<close>

lemma relist_self: "relist False (clauses s) (learnts s) s = s" "relist True (learnts s) (clauses s) s = s"
  by (simp_all add: relist_def relisted_def)

text \<open>What a reduction of the database keeps.\<close>

definition reduced_from :: "((nat \<Rightarrow> bool) \<Rightarrow> bool) \<Rightarrow> 'a sat_solver_scheme \<Rightarrow> 'a sat_solver_scheme \<Rightarrow> bool" where
  "reduced_from T s s' \<longleftrightarrow> search_at T (length (trail s')) s' \<and> sat_models s' = sat_models s \<and> same_trail s s'"

lemma reduceDB_ok:
  assumes "search_at T (length (trail s)) s" "mset (h_sort h (learnts s)) = mset (learnts s)"
  shows "\<exists>s'. reduceDB h s = Inr s' \<and> reduced_from T s s' \<and> clauses s' = clauses s"
proof -
  let ?ls = "h_sort h (learnts s)"
  let ?P = "\<lambda>i (s :: 'a sat_solver_scheme) cr c. 2 < length (lits c) \<and> \<not> locked s cr c \<and> (i < length ?ls div 2 \<or> h_inactive h cr)"
  note i = search_atD [OF assms(1)]
  define t where "t = s\<lparr>learnts := ?ls\<rparr>"
  have set: "set ?ls = set (learnts s)" "distinct ?ls = distinct (learnts s)"
    using mset_eq_setD [OF assms(2)] mset_eq_imp_distinct_iff [OF assms(2)] by simp_all
  have same: "attached t = attached s" "clause_of t = clause_of s" "level t = level s" "reason t = reason s" "W_of t = W_of s"
      "watcher_deleted t = watcher_deleted s" "Sat_Solver.nVars t = Sat_Solver.nVars s" "level0 t = level0 s"
    using set by (auto simp: fun_eq_iff t_def attached_def clause_of_def level_def reason_def W_of_def watcher_deleted_def
        Sat_Solver.nVars_def level0_def)
  then have more: "wlits t = wlits s" "live t = live s" "sat_models t = sat_models s"
    by (auto simp: fun_eq_iff wlits_def live_def sat_models_def t_def)
  have "sat_inv (length (trail s)) t"
    using i(1) by (simp add: sat_inv_def trail_inv_def db_inv_def watch_ok_def dirt_ok_def impl_ok_def reasons_ok_def same more)
      (simp add: t_def)
  then have "search_at T (length (trail s)) t"
    using i set by (simp add: search_at_def decided_def rooted_def no_fake_def clean_seen_def learnts_implied_def order_ok_def
        refs_distinct_def same more) (simp add: t_def)
  then have st: "search_at T (length (trail s)) (relist False (clauses s) ([] @ ?ls) t)"
    using relist_self(1) [of t] by (simp add: t_def)
  have "may_remove False ?P"
    by (simp add: may_remove_def)
  from remove_loop_ok [OF st this, of 0] obtain ks s' where
    k: "remove_loop ?P 0 ?ls t = Inr (ks, s')" "clauses s' = clauses s" "same_trail t s'"
      "search_at T (length (trail s)) (relist False (clauses s) ks s')"
      "sat_models (relist False (clauses s) ks s') = sat_models (relist False (clauses s) ?ls t)"
    by (auto simp: t_def)
  have r: "relist False (clauses s) ks s' = s'\<lparr>learnts := ks\<rparr>"
    using k(2) by (simp add: relist_def relisted_def)
  have m: "sat_models (s'\<lparr>learnts := ks\<rparr>) = sat_models s"
    using k(5) relist_self(1) [of t] more(3) unfolding r by (simp add: t_def)
  have tr: "same_trail s (s'\<lparr>learnts := ks\<rparr>)"
    using k(3) by (simp add: same_trail_def t_def Sat_Solver.nVars_def)
  then have "search_at T (length (trail (s'\<lparr>learnts := ks\<rparr>))) (s'\<lparr>learnts := ks\<rparr>)"
    using k(4) unfolding r same_trail_def by simp
  then have "reduced_from T s (s'\<lparr>learnts := ks\<rparr>)"
    using m tr by (simp add: reduced_from_def)
  moreover have "reduceDB h s = Inr (s'\<lparr>learnts := ks\<rparr>)"
    using k(1) by (simp add: reduceDB_def Let_def t_def)
  ultimately show ?thesis
    using k(2) by auto
qed

lemma var_open:
  assumes "trail_inv s" "v < Sat_Solver.nVars s"
  shows "lbool_eq (val_var s v) l_Undef \<longleftrightarrow> v \<notin> lit_var ` set (trail s)"
proof -
  have a: "assigns s ! v = (if mkLit v False \<in> set (trail s) then l_True else if mkLit v True \<in> set (trail s) then l_False else l_Undef)"
    using assms by (simp add: trail_inv_def)
  have "v \<in> lit_var ` set (trail s) \<longleftrightarrow> mkLit v False \<in> set (trail s) \<or> mkLit v True \<in> set (trail s)"
  proof
    assume "v \<in> lit_var ` set (trail s)"
    then obtain p where p: "p \<in> set (trail s)" "v = lit_var p"
      by (rule imageE) simp
    obtain w b where "p = mkLit w b"
      using trail_inv_ok [OF assms(1) p(1)] by (rule lit_ok_cases)
    then show "mkLit v False \<in> set (trail s) \<or> mkLit v True \<in> set (trail s)"
      using p by (cases b) simp_all
  qed (metis image_eqI lit_var_mkLit)
  then show ?thesis
    by (auto simp: val_var_def a lbool_eq_def l_True_def l_False_def l_Undef_def)
qed

lemma heap_search:
  assumes "search_at T m s" "order_ok (s\<lparr>order_heap := xs\<rparr>)"
  shows "search_at T m (s\<lparr>order_heap := xs\<rparr>)" "sat_models (s\<lparr>order_heap := xs\<rparr>) = sat_models s"
proof -
  let ?t = "s\<lparr>order_heap := xs\<rparr>"
  note i = search_atD [OF assms(1)]
  have c: "same_core s ?t" "sat_ok ?t = sat_ok s"
    by (simp_all add: same_core_def)
  note m = same_core_models [OF c] and f = same_core_fields [OF c(1)]
  show "sat_models ?t = sat_models s"
    by (rule m(1))
  have "level ?t = level s" "reason ?t = reason s"
    by (simp_all add: fun_eq_iff level_def reason_def)
  then show "search_at T m ?t"
    using i assms(2) by (simp add: search_at_def decided_def rooted_def no_fake_def clean_seen_def learnts_implied_def refs_distinct_def m f)
qed

lemma filter_heap_search:
  assumes "search_at T m s"
  defines "t \<equiv> s\<lparr>order_heap := filter (\<lambda>v. lbool_eq (val_var s v) l_Undef \<and> decision s ! v) (order_heap s)\<rparr>"
  shows "search_at T m t" "sat_models t = sat_models s"
proof -
  note i = search_atD [OF assms(1)]
  have "Sat_Solver.nVars t = Sat_Solver.nVars s"
    by (simp add: t_def Sat_Solver.nVars_def)
  then have "order_ok t"
    using i(9) var_open [OF sat_invD(1) [OF i(1)]] by (auto simp: order_ok_def) (auto simp: t_def)
  then show "search_at T m t" "sat_models t = sat_models s"
    unfolding t_def by (rule heap_search [OF assms(1)])+
qed

lemma removeSatisfied_ok:
  assumes "search_at T m s" "decisionLevel s = 0"
  shows "\<exists>ks s'. removeSatisfied (if orig then clauses s else learnts s) s = Inr (ks, s') \<and> same_trail s s' \<and>
    (let t = (if orig then s'\<lparr>clauses := ks\<rparr> else s'\<lparr>learnts := ks\<rparr>) in
     search_at T m t \<and> sat_models t = sat_models s \<and> same_trail s t)"
proof -
  let ?P = "\<lambda>i s (cr :: nat) c. decisionLevel s = 0 \<and> satisfied s c"
  let ?other = "if orig then learnts s else clauses s" and ?crs = "if orig then clauses s else learnts s"
  have self: "relist orig ?other ?crs s = s"
    by (cases orig) (simp_all add: relist_def relisted_def)
  have "may_remove orig ?P"
    by (simp add: may_remove_def)
  from remove_loop_ok [OF _ this, of T m ?other "[]" ?crs s 0] assms(1)
  obtain ks s' where k: "remove_loop ?P 0 ?crs s = Inr (ks, s')" "clauses s' = clauses s" "learnts s' = learnts s" "same_trail s s'"
      "search_at T m (relist orig ?other ks s')" "sat_models (relist orig ?other ks s') = sat_models s"
    unfolding append_Nil self by blast
  have "remove_loop (\<lambda>i s cr c. satisfied s c) n crs u = remove_loop ?P n crs u" if "decisionLevel u = 0"
    for n crs and u :: "'a sat_solver_scheme"
    using that
  proof (induction crs arbitrary: n u)
    case (Cons cr crs)
    have "decisionLevel u' = 0" if "removeClause cr u = Inr u'" for u'
      using that Cons.prems by (auto simp: removeClause_def detachClause_def decisionLevel_def Let_def require_def clause_at_def
          smudge_def split: option.splits if_splits)
    then show ?case
      using Cons by (cases "clause_at u cr"; cases "removeClause cr u") auto
  qed simp
  then have "removeSatisfied ?crs s = Inr (ks, s')"
    using k(1) assms(2) by (simp add: removeSatisfied_def)
  moreover have "relist orig ?other ks s' = (if orig then s'\<lparr>clauses := ks\<rparr> else s'\<lparr>learnts := ks\<rparr>)"
    using k(2,3) by (cases orig) (simp_all add: relist_def relisted_def)
  moreover have "same_trail s (if orig then s'\<lparr>clauses := ks\<rparr> else s'\<lparr>learnts := ks\<rparr>)"
    using k(4) by (auto simp: same_trail_def Sat_Solver.nVars_def)
  ultimately show ?thesis
    using k(4-6) by (auto simp: Let_def)
qed

lemma simplify_ok:
  assumes "search_at T (qhead s) s" "decisionLevel s = 0"
  shows "\<exists>b s'. simplify cfg h s = Inr (b, s') \<and>
    (b \<longrightarrow> search_at T (length (trail s')) s' \<and> qhead s' = length (trail s') \<and> same_models T s s' \<and> decisionLevel s' = 0 \<and>
       Sat_Solver.nVars s' = Sat_Solver.nVars s \<and> length (trail s) \<le> length (trail s')) \<and>
    (\<not> b \<longrightarrow> (\<forall>\<alpha>. T \<alpha> \<longrightarrow> \<not> sat_models s \<alpha>))"
proof -
  note i = search_atD [OF assms(1)]
  obtain r s1 where p: "propagate s = Inr (r, s1)" "prop_ext s s1" "qhead s1 = length (trail s1)" "same_models T s s1"
      "r = CRef_Undef \<and> search_at T (length (trail s1)) s1 \<or> conflict s1 r \<and> search_at T (qhead s) s1"
    by (rule propagate_search [OF assms(1)])
  note f = prop_ext_fields [OF p(2)]
  have dl: "decisionLevel s1 = 0" and nv: "Sat_Solver.nVars s1 = Sat_Solver.nVars s" and len: "length (trail s) \<le> length (trail s1)"
    using f(1,7,10) assms(2) by auto
  show ?thesis
  proof (cases "r = CRef_Undef")
    case False
    then have c: "conflict s1 r" "search_at T (qhead s) s1"
      using p(5) by blast+
    have "\<not> sat_models s \<alpha>" if "T \<alpha>" for \<alpha>
      using conflict_level0 [OF c(2,1) dl that] p(4) that by (simp add: same_models_def)
    then show ?thesis
      using False p(1) i(6) assms(2) by (auto simp: simplify_def)
  next
    case True
    then have s1: "search_at T (length (trail s1)) s1"
      using p(5) by (auto simp: conflict_def)
    show ?thesis
    proof (cases "h_simplified h")
      case True
      then show ?thesis
        using \<open>r = CRef_Undef\<close> p(1,3,4) s1 i(6) assms(2) dl nv len
        by (intro exI [of _ True] exI [of _ s1]) (simp add: simplify_def)
    next
      case False
      obtain ls s2 where k2: "removeSatisfied (learnts s1) s1 = Inr (ls, s2)" "search_at T (length (trail s1)) (s2\<lparr>learnts := ls\<rparr>)"
          "sat_models (s2\<lparr>learnts := ls\<rparr>) = sat_models s1" "same_trail s1 (s2\<lparr>learnts := ls\<rparr>)"
        using removeSatisfied_ok [OF s1 dl, of False] by (auto simp: Let_def)
      define s3 where "s3 = s2\<lparr>learnts := ls\<rparr>"
      have dl3: "decisionLevel s3 = 0"
        using k2(4) dl by (simp add: s3_def same_trail_def decisionLevel_def)
      obtain s4 where k4: "(if remove_satisfied cfg then rbind (removeSatisfied (clauses s3) s3) (\<lambda>(cs, s4). Inr (s4\<lparr>clauses := cs\<rparr>)) else Inr s3) = Inr s4"
          "search_at T (length (trail s1)) s4" "sat_models s4 = sat_models s1" "same_trail s1 s4"
      proof (cases "remove_satisfied cfg")
        case True
        obtain cs s4 where "removeSatisfied (clauses s3) s3 = Inr (cs, s4)" "search_at T (length (trail s1)) (s4\<lparr>clauses := cs\<rparr>)"
            "sat_models (s4\<lparr>clauses := cs\<rparr>) = sat_models s3" "same_trail s3 (s4\<lparr>clauses := cs\<rparr>)"
          using removeSatisfied_ok [OF k2(2) [folded s3_def] dl3, of True] by (auto simp: Let_def)
        then show thesis
          using that [of "s4\<lparr>clauses := cs\<rparr>"] True k2(3,4) by (simp add: s3_def same_trail_def)
      next
        case False
        then show thesis
          using that [of s3] k2(2-4) by (simp add: s3_def)
      qed
      let ?t = "s4\<lparr>order_heap := filter (\<lambda>v. lbool_eq (val_var s4 v) l_Undef \<and> decision s4 ! v) (order_heap s4)\<rparr>"
      note fh = filter_heap_search [OF k4(2)]
      have "simplify cfg h s = Inr (True, ?t)"
        using \<open>r = CRef_Undef\<close> p(1) i(6) assms(2) False k2(1) k4(1)
        unfolding simplify_def Let_def s3_def by (simp split del: if_split)
      moreover have "trail ?t = trail s1" "qhead ?t = qhead s1" "Sat_Solver.nVars ?t = Sat_Solver.nVars s" "decisionLevel ?t = 0"
        using k4(4) dl nv by (simp_all add: same_trail_def decisionLevel_def Sat_Solver.nVars_def)
      moreover have "same_models T s ?t"
        using p(4) fh(2) k4(3) by (simp add: same_models_def)
      ultimately show ?thesis
        using fh(1) p(3) len by (intro exI [of _ True] exI [of _ ?t]) simp
    qed
  qed
qed

end
