(* ===== verification/Sat_Theory.thy ===== *)
theory Sat_Theory
  imports Sat_Reduce
begin

text \<open>
  The calls of the theory: a conflict of the theory is analysed as a clause that is stored for the time of
  the analysis only, and the answer unsatisfiable is right.
\<close>

section \<open>The arena\<close>

text \<open>A larger arena, or one with other words marked as wasted.\<close>

definition extends_arena :: "clause_alloc \<Rightarrow> clause_alloc \<Rightarrow> bool" where
  "extends_arena a b \<longleftrightarrow> (\<forall>x c. al_mem a x = Some c \<longrightarrow> al_mem b x = Some c) \<and>
     (\<forall>x. al_mem b x \<noteq> None \<longrightarrow> x < al_size b) \<and> (\<forall>x c. al_mem a x = None \<longrightarrow> al_mem b x = Some c \<longrightarrow> c_mark c \<noteq> 1)"

lemma arena_search:
  assumes "search_at T m s" "extends_arena (ca s) a"
  defines "t \<equiv> s\<lparr>ca := a\<rparr>"
  shows "search_at T m t" "sat_models t = sat_models s" "models_at T t = models_at T s"
proof -
  note i = search_atD [OF assms(1)]
  note d = sat_invD [OF i(1)]
  have same: "attached t = attached s" "nVars t = nVars s" "level t = level s" "reason t = reason s" "W_of t = W_of s" "level0 t = level0 s"
      "trail t = trail s" "trail_lim t = trail_lim s" "qhead t = qhead s" "assigns t = assigns s" "occs t = occs s" "dirty t = dirty s"
      "dirties t = dirties s" "clauses t = clauses s" "learnts t = learnts s" "sat_ok t = sat_ok s" "seen t = seen s"
      "decision t = decision s" "order_heap t = order_heap s" "ca t = a" "vardata t = vardata s"
    by (auto simp: t_def fun_eq_iff attached_def nVars_def level_def reason_def W_of_def level0_def)
  have mem: "al_mem a x = al_mem (ca s) x" if "x \<in> attached s" for x
    using assms(2) db_invD(2) [OF d(2) that] by (auto simp: extends_arena_def)
  have cl: "clause_of t x = clause_of s x" "wlits t x = wlits s x" if "x \<in> attached s" for x
    using mem [OF that] by (simp_all add: clause_of_def wlits_def same(20))
  have "watcher_deleted t w = watcher_deleted s w" for w
    using assms(2) by (cases "al_mem (ca s) (w_cref w)"; cases "al_mem a (w_cref w)")
      (auto simp: watcher_deleted_def same(20) extends_arena_def)
  then have live: "live t = live s"
    by (simp add: fun_eq_iff live_def same(5))
  have del: "watcher_deleted t = watcher_deleted s"
    using \<open>\<And>w. watcher_deleted t w = watcher_deleted s w\<close> by blast
  have att: "x \<in> attached s" if "x \<in> set (clauses s) \<or> x \<in> set (learnts s)" for x
    using that by (auto simp: attached_def)
  have "sat_inv m t"
  proof -
    have "trail_inv t"
      using d(1) by (simp add: trail_inv_def same)
    moreover have "db_inv t"
      using d(2) mem assms(2) unfolding db_inv_def same by (simp add: extends_arena_def)
    moreover have "watch_ok t (live s)"
      unfolding watch_ok_def same
    proof (intro conjI allI impI ballI)
      fix p assume p: "lit_ok (nVars s) p"
      show "distinct (map w_cref (live s p))"
        by (rule watch_okD(1) [OF d(4) p])
      fix w assume "w \<in> set (live s p)"
      note w = bspec [OF watch_okD(2) [OF d(4) p] this]
      then show "w_cref w \<in> attached s" "w_blocker w \<in> set (clause_of t (w_cref w))" "lit_not p \<in> wlits t (w_cref w)"
        using cl by simp_all
    next
      fix x q assume x: "x \<in> attached s" "q \<in> wlits t x"
      then show "x \<in> w_cref ` set (live s (lit_not q))"
        using watch_okD(3) [OF d(4) x(1)] cl(2) [OF x(1)] by simp
    qed
    moreover have "dirt_ok t"
      using d(5) by (simp add: dirt_ok_def same del)
    moreover have "impl_ok t m UNIV"
      using d(6) cl by (simp add: impl_ok_def same)
    moreover have "reasons_ok t"
      using d(7) cl(1) by (auto simp: reasons_ok_def same)
    ultimately show ?thesis
      using d(3,8) by (simp add: sat_inv_def live same)
  qed
  moreover show m: "sat_models t = sat_models s"
    using cl(1) att by (auto simp: fun_eq_iff sat_models_def same)
  moreover have "learnts_implied T t"
    using i(7) cl(1) att by (simp add: learnts_implied_def m same)
  ultimately show "search_at T m t"
    using i by (simp add: search_at_def decided_def rooted_def no_fake_def clean_seen_def order_ok_def refs_distinct_def same)
  show "models_at T t = models_at T s"
    using cl(1) by (simp add: fun_eq_iff models_at_def db_sat_def same)
qed

lemma alloc_extends:
  assumes "db_inv s"
  shows "extends_arena (ca s) (snd (ca_alloc ls b (ca s)))"
  using assms by (fastforce simp: extends_arena_def ca_alloc_def Let_def db_inv_def Clause_def clauseWord32Size_def split: if_splits)

lemma free_extends:
  assumes "db_inv s"
  shows "extends_arena (ca s) (ca_free cr (ca s))"
  using assms by (auto simp: extends_arena_def ca_free_def db_inv_def split: option.splits)

section \<open>The conflict of the theory\<close>

lemma foldl_max:
  fixes f :: "lit \<Rightarrow> int"
  shows "(\<forall>q \<in> set qs. f q \<le> foldl (\<lambda>m q. if m < f q then f q else m) a qs) \<and> a \<le> foldl (\<lambda>m q. if m < f q then f q else m) a qs \<and>
    foldl (\<lambda>m q. if m < f q then f q else m) a qs \<in> insert a (f ` set qs)"
proof (induction qs arbitrary: a)
  case (Cons q qs)
  show ?case
    using Cons.IH [of "f q"] Cons.IH [of a] by (cases "a < f q") auto
qed simp

lemma getConflict_ok:
  assumes "ex \<noteq> []"
  obtains lev where "getConflict ex s = (map lit_not (rev ex), int lev)" "\<forall>q \<in> set ex. level s (lit_var q) \<le> lev"
    "\<exists>q \<in> set ex. level s (lit_var q) = lev"
proof -
  define f where "f = (\<lambda>q. int (level s (lit_var q)))"
  define m where "m = foldl (\<lambda>m q. if m < f q then f q else m) (-1) (rev ex)"
  have fm: "\<forall>q \<in> set ex. f q \<le> m" "m = -1 \<or> m \<in> f ` set ex"
    using foldl_max [of "rev ex" f "-1"] by (simp_all add: m_def)
  obtain q where "q \<in> set ex"
    using assms by (cases ex) auto
  then have "f q \<le> m" "0 \<le> f q"
    using fm(1) by (simp_all add: f_def)
  then have m: "0 \<le> m" "m \<in> f ` set ex"
    using fm(2) by auto
  from m(2) obtain r where "r \<in> set ex" "m = f r"
    by (rule imageE) simp
  then have "\<exists>q \<in> set ex. level s (lit_var q) = nat m"
    by (auto simp: f_def)
  moreover have "\<forall>q \<in> set ex. level s (lit_var q) \<le> nat m"
    using fm(1) m(1) by (simp add: f_def le_nat_iff)
  moreover have "getConflict ex s = (map lit_not (rev ex), m)"
    using assms unfolding getConflict_def m_def f_def by simp
  ultimately show thesis
    using that [of "nat m"] m(1) by simp
qed

text \<open>The theory \<open>T\<close> excludes the literals of the explanation together.\<close>

definition refuted :: "((nat \<Rightarrow> bool) \<Rightarrow> bool) \<Rightarrow> lit list \<Rightarrow> bool" where
  "refuted T ex \<longleftrightarrow> (\<forall>\<alpha>. T \<alpha> \<longrightarrow> (\<exists>q \<in> set ex. \<not> lsat \<alpha> q))"

lemma refuted_level0:
  assumes "trail_inv s" "refuted T ex" "set ex \<subseteq> set (trail s)" "\<forall>q \<in> set ex. level s (lit_var q) = 0" "T \<alpha>"
  shows "\<not> sat_models s \<alpha>"
proof
  assume "sat_models s \<alpha>"
  then have "lsat \<alpha> q" if "q \<in> set ex" for q
    using that assms(3,4) level0_prefix(2) [OF assms(1)] by (auto simp: sat_models_def)
  then show False
    using assms(2,5) by (auto simp: refuted_def)
qed

text \<open>The state in which the analysis runs: backtracked, with the clause in the arena.\<close>

lemma theory_conflicting:
  assumes s: "search_at T m s" and ex: "refuted T ex" "set ex \<subseteq> set (trail s)"
    and lev: "\<forall>q \<in> set ex. level s (lit_var q) \<le> decisionLevel s" "\<exists>q \<in> set ex. level s (lit_var q) = decisionLevel s"
  defines "t \<equiv> s\<lparr>ca := snd (ca_alloc (map lit_not (rev ex)) False (ca s))\<rparr>"
  shows "conflicting T t (CRef (al_size (ca s)))" "search_at T m t" "models_at T t = models_at T s"
proof -
  have db: "db_inv s"
    by (rule sat_invD(2) [OF search_atD(1) [OF s]])
  show "search_at T m t" "models_at T t = models_at T s"
    unfolding t_def by (rule arena_search [OF s alloc_extends [OF db]])+
  have same: "trail t = trail s" "level t = level s" "decisionLevel t = decisionLevel s"
    by (auto simp: t_def fun_eq_iff level_def decisionLevel_def)
  define c where "c = Clause (map lit_not (rev ex)) (extra_clause_field (ca s)) False"
  have "clause_at t (al_size (ca s)) = Inr c" "lits c = map lit_not (rev ex)"
    by (simp_all add: t_def clause_at_def ca_alloc_def Let_def c_def Clause_def)
  moreover have "set (map lit_not (rev ex)) \<subseteq> false_lits t"
    using ex(2) by (auto simp: false_lits_def same)
  moreover have "\<exists>q \<in> set (map lit_not (rev ex)). level t (lit_var q) = decisionLevel t"
    using lev(2) by (auto simp: same)
  moreover have "csat \<alpha> (map lit_not (rev ex))" if "models_at T t \<alpha>" for \<alpha>
    using that ex(1) by (auto simp: models_at_def refuted_def csat_def)
  ultimately show "conflicting T t (CRef (al_size (ca s)))"
    unfolding conflicting_def by (intro exI [of _ "al_size (ca s)"] exI [of _ c]) simp
qed

definition theory_result :: "((nat \<Rightarrow> bool) \<Rightarrow> bool) \<Rightarrow> 'a sat_solver_scheme \<Rightarrow> tprop \<times> 'a sat_solver_scheme \<Rightarrow> bool" where
  "theory_result T s r \<longleftrightarrow> (case r of (p, s') \<Rightarrow>
     p = TProp_Unsat \<and> (\<forall>\<alpha>. T \<alpha> \<longrightarrow> \<not> sat_models s \<alpha>) \<or> p = TProp_Propagate \<and> learnt_from T s s')"

lemma handleUnsat_above:
  assumes s: "search_at T m s" "0 < decisionLevel s" and ex: "refuted T ex" "set ex \<subseteq> set (trail s)" "ex \<noteq> []"
    and lev: "\<forall>q \<in> set ex. level s (lit_var q) \<le> decisionLevel s" "\<exists>q \<in> set ex. level s (lit_var q) = decisionLevel s"
    and cfg: "ccmin_mode cfg \<noteq> 1" "sat_minimize_conflicts cfg \<le> 1"
  shows "\<exists>s'. (let (cr, a) = ca_alloc (map lit_not (rev ex)) False (ca s) in
      rbind (analyze cfg R (CRef cr) (s\<lparr>ca := a\<rparr>)) (\<lambda>(out, blev, s3).
        rbind (learn_clause True out blev (s3\<lparr>ca := ca_free cr (ca s3)\<rparr>)) (\<lambda>s5. Inr (TProp_Propagate, s5)))) =
      Inr (TProp_Propagate, s') \<and> learnt_from T s s'"
proof -
  let ?cr = "al_size (ca s)" and ?t = "s\<lparr>ca := snd (ca_alloc (map lit_not (rev ex)) False (ca s))\<rparr>"
  note t = theory_conflicting [OF s(1) ex(1,2) lev]
  note i = search_atD [OF t(2)]
  have dl: "0 < decisionLevel ?t"
    using s(2) by (simp add: decisionLevel_def)
  obtain out blev where a: "analyze cfg R (CRef ?cr) ?t = Inr (out, blev, ?t)" "asserting ?t out blev"
      "\<forall>\<alpha>. models_at T ?t \<alpha> \<longrightarrow> csat \<alpha> out"
    using analyze_ok [OF t(1) dl i(8,2,3,5) cfg] by blast
  define u where "u = ?t\<lparr>ca := ca_free ?cr (ca ?t)\<rparr>"
  note fr = arena_search [OF t(2) free_extends [OF sat_invD(2) [OF i(1)], of ?cr], folded u_def]
  have eqs: "level u = level ?t" "decisionLevel u = decisionLevel ?t" "false_lits u = false_lits ?t"
    by (simp_all add: u_def fun_eq_iff false_lits_def level_def decisionLevel_def)
  have "asserting u out blev"
    using a(2) unfolding asserting_def eqs .
  moreover have "\<forall>\<alpha>. models_at T u \<alpha> \<longrightarrow> csat \<alpha> out"
    using a(3) by (simp only: fr(3))
  ultimately obtain s' where s': "learn_clause True out blev u = Inr s'" "learnt_from T u s'"
    using learn_clause_ok [OF fr(1), of out blev True] by auto
  have "sat_models u = sat_models s"
    using fr(2) arena_search(2) [OF s(1) alloc_extends [OF sat_invD(2) [OF search_atD(1) [OF s(1)]]]] by simp
  moreover have "clauses u = clauses s" "nVars u = nVars s" "decisionLevel u = decisionLevel s"
    by (simp_all add: u_def nVars_def decisionLevel_def)
  ultimately have "learnt_from T s s'"
    using s'(2) by (simp add: learnt_from_def same_models_def)
  moreover have "fst (ca_alloc (map lit_not (rev ex)) False (ca s)) = ?cr"
    by (simp add: ca_alloc_def Let_def)
  ultimately show ?thesis
    using a(1) s'(1) by (simp add: u_def case_prod_beta)
qed

lemma handleUnsat_ok:
  assumes s: "search_at T (length (trail s)) s" and ex: "refuted T ex" "set ex \<subseteq> set (trail s)"
    and cfg: "ccmin_mode cfg \<noteq> 1" "sat_minimize_conflicts cfg \<le> 1" "sat_learn_up_to_size cfg \<le> 0"
  shows "\<exists>r. handleUnsat cfg R ex s = Inr r \<and> theory_result T s r"
proof (cases "decisionLevel s = 0")
  case True
  note d = sat_invD [OF search_atD(1) [OF s]]
  have "level s (lit_var q) = 0" if "q \<in> set ex" for q
    using level_le [OF d(1), of q] that ex(2) True by auto
  then have "\<not> sat_models s \<alpha>" if "T \<alpha>" for \<alpha>
    using refuted_level0 [OF d(1) ex] that by blast
  then show ?thesis
    using True by (simp add: handleUnsat_def theory_result_def)
next
  case False
  note d = sat_invD [OF search_atD(1) [OF s]]
  show ?thesis
  proof (cases "ex = []")
    case True
    then have "\<not> T \<alpha>" for \<alpha>
      using ex(1) by (auto simp: refuted_def)
    moreover have "decisionLevel (cancelUntil 0 s) = 0"
      using cancelUntil_fields(15) [of 0 s] False by simp
    ultimately show ?thesis
      using True False by (simp add: handleUnsat_def theory_result_def getConflict_def)
  next
    case ne: False
    obtain lev where lev: "getConflict ex s = (map lit_not (rev ex), int lev)" "\<forall>q \<in> set ex. level s (lit_var q) \<le> lev"
        "\<exists>q \<in> set ex. level s (lit_var q) = lev"
      by (rule getConflict_ok [OF ne])
    have le: "lev \<le> decisionLevel s"
      using lev(3) level_le [OF d(1)] ex(2) by auto
    let ?s = "cancelUntil lev s"
    have c: "\<exists>m. search_at T m ?s" "sat_models ?s = sat_models s" "decisionLevel ?s = lev" "set ex \<subseteq> set (trail ?s)"
        "level ?s = level s" "clauses ?s = clauses s" "nVars ?s = nVars s"
    proof -
      have "(\<exists>m. search_at T m ?s) \<and> sat_models ?s = sat_models s \<and> decisionLevel ?s = lev \<and> set ex \<subseteq> set (trail ?s) \<and>
          level ?s = level s \<and> clauses ?s = clauses s \<and> nVars ?s = nVars s"
      proof (cases "lev < decisionLevel s")
        case True
        note f = cancelUntil_fields [OF True]
        have "q \<in> set (trail ?s)" if q: "q \<in> set ex" for q
        proof -
          obtain j where "j < length (trail s)" "trail s ! j = q"
            using q ex(2) by (metis in_set_conv_nth subsetD)
          moreover from this have "j < trail_lim s ! lev"
            using lim_level [OF d(1) True, of j] lev(2) q by simp
          ultimately have "trail ?s ! j = q" "j < length (trail ?s)"
            by (simp_all add: f)
          then show ?thesis
            using nth_mem by blast
        qed
        then show ?thesis
          using cancelUntil_search [OF s True] cancelUntil_same(4) [OF True] f(1,5,15) by blast
      next
        case False
        then have "?s = s" "lev = decisionLevel s"
          using le by (simp_all add: cancelUntil_def)
        then show ?thesis
          using s ex(2) by auto
      qed
      then show "\<exists>m. search_at T m ?s" "sat_models ?s = sat_models s" "decisionLevel ?s = lev" "set ex \<subseteq> set (trail ?s)"
          "level ?s = level s" "clauses ?s = clauses s" "nVars ?s = nVars s"
        by blast+
    qed
    show ?thesis
    proof (cases "lev = 0")
      case True
      have "\<not> sat_models s \<alpha>" if "T \<alpha>" for \<alpha>
        using refuted_level0 [OF d(1) ex _ that] lev(2) True by simp
      then show ?thesis
        using True False lev(1) c(3) by (simp add: handleUnsat_def theory_result_def)
    next
      case pos: False
      obtain m where m: "search_at T m ?s"
        using c(1) by blast
      have "0 < decisionLevel ?s" "\<forall>q \<in> set ex. level ?s (lit_var q) \<le> decisionLevel ?s"
          "\<exists>q \<in> set ex. level ?s (lit_var q) = decisionLevel ?s"
        using pos lev(2,3) by (simp_all add: c(3,5))
      from handleUnsat_above [OF m this(1) ex(1) c(4) ne this(2,3), of "sat_config.truncate cfg" R] cfg(1,2)
      obtain s' where s': "(let (cr, a) = ca_alloc (map lit_not (rev ex)) False (ca ?s) in
          rbind (analyze (sat_config.truncate cfg) R (CRef cr) (?s\<lparr>ca := a\<rparr>)) (\<lambda>(out, blev, s3).
            rbind (learn_clause True out blev (s3\<lparr>ca := ca_free cr (ca s3)\<rparr>)) (\<lambda>s5. Inr (TProp_Propagate, s5)))) =
          Inr (TProp_Propagate, s')" "learnt_from T ?s s'"
        by (auto simp: sat_config.truncate_def)
      have temp: "sat_learn_up_to_size cfg < int (length (map lit_not (rev ex)))"
        using cfg(3) ne by (cases ex) auto
      have "handleUnsat cfg R ex s = Inr (TProp_Propagate, s')"
        using s'(1) False lev(1) le c(3) pos ne temp by (simp add: handleUnsat_def Let_def case_prod_beta)
      moreover have "learnt_from T s s'"
        using s'(2) le c(2,3,6,7) by (simp add: learnt_from_def same_models_def)
      ultimately show ?thesis
        by (simp add: theory_result_def)
    qed
  qed
qed

end
