(* ===== verification/Sat_Rounds.thy ===== *)
theory Sat_Rounds
  imports Sat_Theory
begin

text \<open>
  The rounds of the search: each keeps the invariant and the models, answers only what is right, and comes
  closer to the bound on the conflicts, so that the search returns. The theory is one that checks and
  explains, without deductions and splits, and its lemmas are not stored, as in the default configuration.
\<close>

section \<open>What is asked of the theory and the configuration\<close>

definition cfg_ok :: "search_config \<Rightarrow> bool" where
  "cfg_ok cfg \<longleftrightarrow> ccmin_mode cfg \<noteq> 1 \<and> sat_minimize_conflicts cfg \<le> 1 \<and> sat_learn_up_to_size cfg \<le> 0 \<and> assumptions cfg = []"

definition consistent :: "theory_answer \<Rightarrow> bool" where
  "consistent ans \<longleftrightarrow> ta_assert ans \<and> ta_check ans \<noteq> TRes_UNSAT"

text \<open>
  An inconsistent trail comes with an explanation that the theory refutes; a trail of all variables that is
  found consistent by the final check satisfies the theory. This is a theory that is only asked for consistency:
  the answers of a round with literals deduced by the theory or with split lemmas, whose handling
  \<open>handleSat\<close> models, are outside the theorems on the search.
\<close>

definition sound_answer :: "((nat \<Rightarrow> bool) \<Rightarrow> bool) \<Rightarrow> lit list \<Rightarrow> theory_answer \<Rightarrow> bool" where
  "sound_answer T t ans \<longleftrightarrow> (\<not> consistent ans \<longrightarrow> refuted T (ta_explanation ans) \<and> set (ta_explanation ans) \<subseteq> set t) \<and>
     ta_check ans \<noteq> TRes_UNDEF \<and> ta_deductions ans = [] \<and> ta_splits ans = []"

definition sound_theory :: "((nat \<Rightarrow> bool) \<Rightarrow> bool) \<Rightarrow> nat \<Rightarrow> (bool \<Rightarrow> lit list \<Rightarrow> theory_answer) \<Rightarrow> bool" where
  "sound_theory T n th \<longleftrightarrow> (\<forall>final t. sound_answer T t (th final t)) \<and>
     (\<forall>t. (\<forall>v < n. v \<in> lit_var ` set t) \<longrightarrow> consistent (th True t) \<longrightarrow> (\<forall>\<alpha>. (\<forall>q \<in> set t. lsat \<alpha> q) \<longrightarrow> T \<alpha>))"

lemma checkTheory_ok:
  assumes "search_at T (length (trail s)) s" "sound_answer T (trail s) ans" "cfg_ok cfg"
  shows "\<exists>r k s'. checkTheory cfg nv R skip final ans forced s = Inr (r, forced, k, s') \<and>
    (theory_result T s (r, s') \<and> k = 1 \<or> r = TProp_Decide \<and> s' = s \<and> k = 0 \<and> (final \<longrightarrow> consistent ans))"
proof -
  consider (skip) "\<not> final" "skip" | (unsat) "final \<or> \<not> skip" "\<not> consistent ans" | (sat) "final \<or> \<not> skip" "consistent ans"
    by blast
  then show ?thesis
  proof cases
    case skip
    then show ?thesis
      by (simp add: checkTheory_def)
  next
    case unsat
    then have "refuted T (ta_explanation ans)" "set (ta_explanation ans) \<subseteq> set (trail s)"
      using assms(2) by (simp_all add: sound_answer_def)
    then obtain r where "handleUnsat cfg R (ta_explanation ans) s = Inr r" "theory_result T s r"
      using handleUnsat_ok [OF assms(1)] assms(3) unfolding cfg_ok_def by blast
    moreover have "(if ta_assert ans then ta_check ans else TRes_UNSAT) = TRes_UNSAT"
      using unsat(2) by (auto simp: consistent_def)
    ultimately show ?thesis
      using unsat(1) by (cases r) (simp add: checkTheory_def)
  next
    case sat
    have "handleSat cfg nv ans forced s = Inr (TProp_Decide, forced, s)"
      using assms(2) by (simp add: handleSat_def deduceTheory_def sound_answer_def)
    then show ?thesis
      using sat assms(2) by (cases "ta_check ans") (auto simp: checkTheory_def consistent_def sound_answer_def)
  qed
qed

section \<open>Decisions\<close>

lemma pick_loop_ok:
  "pick_loop h s next xs = (r, ys) \<Longrightarrow> set ys \<subseteq> set xs \<and> (\<forall>v \<in> set xs. v \<in> set ys \<or> r = Some v \<or> \<not> can_pick s (Some v)) \<and>
   (r = None \<longrightarrow> ys = []) \<and> (\<forall>v. r = Some v \<longrightarrow> can_pick s (Some v) \<and> (v \<in> set xs \<or> next = Some v))"
proof (induction h s "next" xs arbitrary: r ys rule: pick_loop.induct)
  case (1 h s nxt xs)
  show ?case
  proof (cases "can_pick s nxt \<or> xs = []")
    case True
    then show ?thesis
      using 1(2) by (auto simp: pick_loop.simps [of h s nxt xs] can_pick_def split: if_splits option.splits)
  next
    case False
    let ?i = "h_min h xs mod length xs"
    let ?zs = "take ?i xs @ drop (?i + 1) xs"
    have i: "?i < length xs"
      using False by simp
    have run: "pick_loop h s (Some (xs ! ?i)) ?zs = (r, ys)"
      using 1(2) False by (simp add: pick_loop.simps [of h s nxt xs] Let_def)
    have xs: "set xs = insert (xs ! ?i) (set ?zs)"
      by (subst id_take_nth_drop [OF i]) simp
    have IH: "set ys \<subseteq> set ?zs \<and> (\<forall>v \<in> set ?zs. v \<in> set ys \<or> r = Some v \<or> \<not> can_pick s (Some v)) \<and> (r = None \<longrightarrow> ys = []) \<and>
        (\<forall>v. r = Some v \<longrightarrow> can_pick s (Some v) \<and> (v \<in> set ?zs \<or> Some (xs ! ?i) = Some v))"
      by (rule 1(1) [OF _ _ refl run]) (use False in simp_all)
    moreover have "r = Some (xs ! ?i) \<or> \<not> can_pick s (Some (xs ! ?i))"
    proof (cases "can_pick s (Some (xs ! ?i))")
      case True
      then show ?thesis
        using run by (simp add: pick_loop.simps [of h s "Some (xs ! ?i)"])
    qed simp
    ultimately show ?thesis
      unfolding xs by auto
  qed
qed

text \<open>Either all variables are assigned, or an open variable is chosen and the heap keeps the other open ones.\<close>

lemma pickBranchLit_ok:
  assumes "search_at T m s" "pickBranchLit h lit_Undef s = (p, forced, s')"
  shows "forced = lit_Undef \<and> (p = lit_Undef \<and> s' = s\<lparr>order_heap := []\<rparr> \<and> (\<forall>v < nVars s. v \<in> lit_var ` set (trail s)) \<or>
    (\<exists>v b ys. p = mkLit v b \<and> v < nVars s \<and> v \<notin> lit_var ` set (trail s) \<and> s' = s\<lparr>order_heap := ys\<rparr> \<and>
      (\<forall>w \<in> set ys. w < nVars s) \<and> (\<forall>w < nVars s. w \<in> lit_var ` set (trail s) \<or> w = v \<or> w \<in> set ys)))"
proof -
  note i = search_atD [OF assms(1)]
  define xs where "xs = order_heap s"
  define next0 where "next0 = (case h_random h of Some i \<Rightarrow> if xs = [] then None else Some (xs ! (i mod length xs)) | None \<Rightarrow> None)"
  obtain r ys where p: "pick_loop h s next0 xs = (r, ys)"
    by (rule prod.exhaust)
  note l = pick_loop_ok [OF p]
  have n0: "v \<in> set xs" if "next0 = Some v" for v
    using that by (auto simp: next0_def split: option.splits if_splits)
  have xs: "v < nVars s" if "v \<in> set xs" for v
    using i(9) that by (simp add: order_ok_def xs_def)
  have dec: "decision s ! v" if "v < nVars s" for v
    using i(9) that by (simp add: order_ok_def)
  have open_var: "can_pick s (Some v) \<longleftrightarrow> v \<notin> lit_var ` set (trail s)" if "v < nVars s" for v
    using var_open [OF sat_invD(1) [OF i(1)] that] dec [OF that] by (simp add: can_pick_def)
  have rest: "w \<in> lit_var ` set (trail s) \<or> r = Some w \<or> w \<in> set ys" if w: "w < nVars s" for w
    using i(9) w l open_var [OF w] by (auto simp: order_ok_def xs_def)
  show ?thesis
  proof (cases r)
    case None
    then have "p = lit_Undef" "forced = lit_Undef" "s' = s\<lparr>order_heap := []\<rparr>" "ys = []"
      using assms(2) p l unfolding pickBranchLit_def Let_def xs_def [symmetric] next0_def [symmetric] by simp_all
    then show ?thesis
      using rest None by auto
  next
    case (Some v)
    have v: "v < nVars s" "v \<notin> lit_var ` set (trail s)"
      using l Some n0 xs open_var by blast+
    have e: "\<exists>b. p = mkLit v b" "forced = lit_Undef" "s' = s\<lparr>order_heap := ys\<rparr>"
      using assms(2) p Some unfolding pickBranchLit_def Let_def xs_def [symmetric] next0_def [symmetric] by auto
    then obtain b where b: "p = mkLit v b"
      by blast
    have "\<forall>w \<in> set ys. w < nVars s"
      using l xs by blast
    moreover have "\<forall>w < nVars s. w \<in> lit_var ` set (trail s) \<or> w = v \<or> w \<in> set ys"
      using rest Some by auto
    ultimately show ?thesis
      using e(2,3) b v by blast
  qed
qed

definition advanced :: "((nat \<Rightarrow> bool) \<Rightarrow> bool) \<Rightarrow> 'a sat_solver_scheme \<Rightarrow> 'a sat_solver_scheme \<Rightarrow> bool" where
  "advanced T s s' \<longleftrightarrow> search_at T (qhead s') s' \<and> same_models T s s' \<and> nVars s' = nVars s"

lemma decide_on_ok:
  assumes s: "search_at T (length (trail s)) s" "qhead s = length (trail s)" and v: "v < nVars s" "v \<notin> lit_var ` set (trail s)"
    and ys: "\<forall>w \<in> set ys. w < nVars s" "\<forall>w < nVars s. w \<in> lit_var ` set (trail s) \<or> w = v \<or> w \<in> set ys"
  shows "\<exists>s'. decide_on cfg (mkLit v b) (s\<lparr>order_heap := ys\<rparr>) = Inr s' \<and> advanced T s s' \<and> length (trail s') = Suc (length (trail s))"
proof -
  let ?p = "mkLit v b"
  have ok: "lit_ok (nVars s) ?p"
    using v(1) by (simp add: lit_ok_def) (simp add: mkLit_shape)
  have "?p \<notin> set (trail s)" "lit_not ?p \<notin> set (trail s)"
    using v(2) by (metis image_eqI lit_var_mkLit lit_var_not)+
  then have u: "is_undef s ?p"
    using values_iff(3) [OF sat_invD(1) [OF search_atD(1) [OF s(1)]] ok] by simp
  obtain s1 where s1: "uncheckedEnqueue ?p CRef_Undef (newDecisionLevel s) = Inr s1" "search_at T (qhead s1) s1" "same_models T s s1"
      "s1 = enqueued ?p CRef_Undef (newDecisionLevel s)"
    by (rule decide_search [OF s ok u])
  have f: "trail s1 = trail s @ [?p]" "nVars s1 = nVars s" "decision s1 = decision s" "qhead s1 = qhead s"
    by (simp_all add: s1(4) newDecisionLevel_fields) (simp add: enqueued_def newDecisionLevel_fields)
  let ?t = "s1\<lparr>order_heap := ys\<rparr>"
  have "uncheckedEnqueue ?p CRef_Undef (newDecisionLevel (s\<lparr>order_heap := ys\<rparr>)) = Inr ?t"
    using s1(1) by (auto simp: uncheckedEnqueue_def require_def is_undef_def val_lit_def newDecisionLevel_def decisionLevel_def split: if_splits)
  moreover have "is_undef (s\<lparr>order_heap := ys\<rparr>) ?p"
    using u by (simp add: is_undef_def val_lit_def)
  ultimately have run: "decide_on cfg ?p (s\<lparr>order_heap := ys\<rparr>) = Inr ?t"
    by (simp add: decide_on_def)
  have "nVars ?t = nVars s1"
    by (simp add: nVars_def)
  then have "order_ok ?t"
    using search_atD(9) [OF s1(2)] ys f by (auto simp: order_ok_def)
  note h = heap_search [OF s1(2) this]
  have "advanced T s ?t"
    using h s1(3) f(2,4) \<open>nVars ?t = nVars s1\<close> by (simp add: advanced_def same_models_def)
  then show ?thesis
    using run f(1) by (intro exI [of _ ?t]) simp
qed

section \<open>One round\<close>

definition all_assigned :: "'a sat_solver_scheme \<Rightarrow> bool" where
  "all_assigned s \<longleftrightarrow> trail_inv s \<and> assigns s = map (\<lambda>v. lbool_of (trail_model s v)) [0 ..< nVars s]"

lemma all_assignedI:
  assumes "trail_inv s" "\<forall>v < nVars s. v \<in> lit_var ` set (trail s)"
  shows "all_assigned s"
  unfolding all_assigned_def
proof (intro conjI assms(1) nth_equalityI)
  show "length (assigns s) = length (map (\<lambda>v. lbool_of (trail_model s v)) [0 ..< nVars s])"
    using assms(1) by (simp add: trail_inv_def)
  fix v
  assume "v < length (assigns s)"
  then have v: "v < nVars s"
    using assms(1) by (simp add: trail_inv_def)
  then have a: "assigns s ! v = (if mkLit v False \<in> set (trail s) then l_True else if mkLit v True \<in> set (trail s) then l_False else l_Undef)"
    using assms(1) by (simp add: trail_inv_def)
  have "\<not> lbool_eq (val_var s v) l_Undef"
    using var_open [OF assms(1) v] assms(2) v by simp
  then have "mkLit v False \<in> set (trail s) \<or> mkLit v True \<in> set (trail s)"
    using a by (auto simp: val_var_def lbool_eq_def split: if_splits)
  then show "assigns s ! v = map (\<lambda>v. lbool_of (trail_model s v)) [0 ..< nVars s] ! v"
    using a v by (auto simp: trail_model_def lbool_of_def l_True_def l_False_def)
qed

text \<open>
  What a round may end with: \<open>halt\<close> says that it may stop at any point, \<open>k\<close> is the number of
  conflicts, \<open>limit\<close> the bound on it.
\<close>

definition right_answer :: "((nat \<Rightarrow> bool) \<Rightarrow> bool) \<Rightarrow> bool \<Rightarrow> 'a sat_solver_scheme \<Rightarrow> lbool \<Rightarrow> 'a sat_solver_scheme \<Rightarrow> bool" where
  "right_answer T halt s b s' \<longleftrightarrow>
     b = l_True \<and> T (trail_model s') \<and> sat_models s (trail_model s') \<and> all_assigned s' \<and> nVars s' = nVars s \<or>
     b = l_False \<and> (\<forall>\<alpha>. T \<alpha> \<longrightarrow> \<not> sat_models s \<alpha>) \<or>
     b = l_Undef \<and> advanced T s s' \<and> (\<not> halt \<longrightarrow> qhead s' = length (trail s'))"

definition closer :: "int \<Rightarrow> int \<Rightarrow> 'a sat_solver_scheme \<Rightarrow> int \<Rightarrow> 'a sat_solver_scheme \<Rightarrow> bool" where
  "closer limit k s k' s' \<longleftrightarrow> k' = k + 1 \<and> (k < limit \<or> decisionLevel s' < decisionLevel s) \<or>
     k' = k \<and> k < limit \<and> length (trail s) < length (trail s')"

definition round_ok ::
  "((nat \<Rightarrow> bool) \<Rightarrow> bool) \<Rightarrow> bool \<Rightarrow> int \<Rightarrow> int \<Rightarrow> 'a sat_solver_scheme \<Rightarrow> round_end \<times> int \<times> lit \<times> 'a sat_solver_scheme \<Rightarrow> bool" where
  "round_ok T halt limit k s res \<longleftrightarrow> (case res of (e, k', forced, s') \<Rightarrow> forced = lit_Undef \<and>
     (case e of Round_Answer b c \<Rightarrow> right_answer T halt s b s' | Round_Next \<Rightarrow> advanced T s s' \<and> closer limit k s k' s'))"

lemma advanced_refl: "search_at T (qhead s) s \<Longrightarrow> advanced T s s"
  by (simp add: advanced_def same_models_def)

lemma learnt_advanced: "learnt_from T s s' \<Longrightarrow> advanced T s s'"
  by (simp add: learnt_from_def advanced_def)

lemma decide_round_ok:
  assumes s: "search_at T (length (trail s)) s" "qhead s = length (trail s)" and th: "sound_theory T (nVars s) th" and cfg: "cfg_ok cfg"
    and k: "k < limit"
  shows "\<exists>e k' s'. decide_round cfg nv R h (th True) lit_Undef s = Inr (e, k', lit_Undef, s') \<and>
    round_ok T halt limit k s (e, k + k', lit_Undef, s')"
proof -
  have as: "drop (decisionLevel s) (assumptions cfg) = []"
    using cfg by (simp add: cfg_ok_def)
  obtain p f1 s1 where p: "pickBranchLit (h False) lit_Undef s = (p, f1, s1)"
    by (metis prod_cases3)
  note pk = pickBranchLit_ok [OF s(1) p]
  show ?thesis
  proof (cases "p = lit_Undef")
    case False
    then obtain v b ys where v: "p = mkLit v b" "v < nVars s" "v \<notin> lit_var ` set (trail s)" "s1 = s\<lparr>order_heap := ys\<rparr>"
        "\<forall>w \<in> set ys. w < nVars s" "\<forall>w < nVars s. w \<in> lit_var ` set (trail s) \<or> w = v \<or> w \<in> set ys"
      using pk by blast
    obtain s' where s': "decide_on cfg p s1 = Inr s'" "advanced T s s'" "length (trail s') = Suc (length (trail s))"
      using decide_on_ok [OF s v(2,3,5,6)] v(1,4) by blast
    have "decide_round cfg nv R h (th True) lit_Undef s = Inr (Round_Next, 0, lit_Undef, s')"
      using p pk False s'(1) by (simp add: decide_round_def as)
    then show ?thesis
      using s'(2,3) k by (simp add: round_ok_def closer_def)
  next
    case True
    have neg: "mkLit v b \<noteq> lit_Undef" for v b
      by (simp add: mkLit_shape lit_Undef_def)
    then have e: "s1 = s\<lparr>order_heap := []\<rparr>" "\<forall>v < nVars s. v \<in> lit_var ` set (trail s)" "f1 = lit_Undef"
      using pk True by metis+
    have nv: "nVars s1 = nVars s" "trail s1 = trail s" "decision s1 = decision s"
      by (simp_all add: e(1) nVars_def)
    have "order_ok (s\<lparr>order_heap := []\<rparr>)"
      using e(2) search_atD(9) [OF s(1)] nv by (simp add: order_ok_def e(1) [symmetric]) (simp add: e(1))
    note h1 = heap_search [OF s(1) this, folded e(1)]
    have s1: "search_at T (length (trail s1)) s1"
      using h1(1) by (simp add: nv)
    have ans: "sound_answer T (trail s1) (th True (trail s1))"
      using th by (simp add: sound_theory_def)
    obtain r k' s2 where c: "checkTheory cfg nv R False True (th True (trail s1)) lit_Undef s1 = Inr (r, lit_Undef, k', s2)"
        "theory_result T s1 (r, s2) \<and> k' = 1 \<or> r = TProp_Decide \<and> s2 = s1 \<and> k' = 0 \<and> consistent (th True (trail s1))"
      using checkTheory_ok [OF s1 ans cfg] by blast
    have run: "decide_round cfg nv R h (th True) lit_Undef s = (case r of TProp_Propagate \<Rightarrow> Inr (Round_Next, k', lit_Undef, s2)
        | TProp_Unsat \<Rightarrow> Inr (Round_Answer l_False [], k', lit_Undef, s2)
        | TProp_Undef \<Rightarrow> Inl Assertion_Failed
        | TProp_Decide \<Rightarrow> (case pickBranchLit (h True) lit_Undef s2 of (next', forced3, s4) \<Rightarrow>
            if next' = lit_Undef then Inr (Round_Answer l_True [], k', forced3, s4)
            else rbind (decide_on cfg next' s4) (\<lambda>s5. Inr (Round_Next, k', forced3, s5))))"
      using p True c(1) by (simp add: decide_round_def as e(3))
    from c(2) show ?thesis
    proof
      assume "theory_result T s1 (r, s2) \<and> k' = 1"
      then have k': "k' = 1" and "r = TProp_Unsat \<and> (\<forall>\<alpha>. T \<alpha> \<longrightarrow> \<not> sat_models s1 \<alpha>) \<or> r = TProp_Propagate \<and> learnt_from T s1 s2"
        by (simp_all add: theory_result_def)
      from this(2) show ?thesis
      proof
        assume "r = TProp_Unsat \<and> (\<forall>\<alpha>. T \<alpha> \<longrightarrow> \<not> sat_models s1 \<alpha>)"
        then show ?thesis
          using run h1(2) by (simp add: round_ok_def right_answer_def)
      next
        assume l: "r = TProp_Propagate \<and> learnt_from T s1 s2"
        then have "advanced T s s2"
          using h1(2) nv(1) by (simp add: learnt_from_def advanced_def same_models_def)
        then show ?thesis
          using run l k k' by (simp add: round_ok_def closer_def)
      qed
    next
      assume d: "r = TProp_Decide \<and> s2 = s1 \<and> k' = 0 \<and> consistent (th True (trail s1))"
      obtain p' f' s3 where p': "pickBranchLit (h True) lit_Undef s1 = (p', f', s3)"
        by (metis prod_cases3)
      have e': "p' = lit_Undef" "f' = lit_Undef" "s3 = s1\<lparr>order_heap := []\<rparr>"
        using pickBranchLit_ok [OF s1 p'] e(2) nv by auto
      then have s3: "s3 = s1"
        by (simp add: e(1))
      have inv: "trail_inv s1"
        by (rule sat_invD(1) [OF search_atD(1) [OF s1]])
      have "\<not> is_undef s1 q" if q: "lit_ok (nVars s1) q" for q
      proof -
        have "lit_var q \<in> lit_var ` set (trail s1)"
          using e(2) q nv by (simp add: lit_ok_def)
        then show ?thesis
          using undef_var [OF inv q] values_iff(3) [OF inv q] by blast
      qed
      then have "\<forall>cr \<in> set (clauses s1). \<forall>q \<in> set (clause_of s1 cr). \<not> is_undef s1 q"
        using db_invD(1) [OF sat_invD(2) [OF search_atD(1) [OF s1]]] by (auto simp: good_clause_def attached_def)
      then have "sat_models s1 (trail_model s1)"
        by (rule complete_model [OF s1])
      moreover have "T (trail_model s1)"
        using th d e(2) nv trail_model_sat [OF inv] by (simp add: sound_theory_def)
      moreover have "all_assigned s1"
        using e(2) nv by (intro all_assignedI [OF inv]) simp
      ultimately have "right_answer T halt s l_True s1"
        using h1(2) nv(1) by (simp add: right_answer_def)
      then show ?thesis
        using run d p' e' s3 by (simp add: round_ok_def)
    qed
  qed
qed

text \<open>A round: propagation, then a conflict to learn from, the limit, or reductions, the theory and a decision.\<close>

lemma cancel_advanced:
  assumes "search_at T m s" "m = length (trail s)" "qhead s = length (trail s)"
  shows "advanced T s (cancelUntil 0 s) \<and> qhead (cancelUntil 0 s) = length (trail (cancelUntil 0 s))"
proof (cases "0 < decisionLevel s")
  case True
  have "trail_lim s ! 0 \<le> length (trail s)"
    using sat_invD(1) [OF search_atD(1) [OF assms(1)]] True by (simp add: trail_inv_def decisionLevel_def)
  then show ?thesis
    using cancelUntil_search [OF assms(1) True] cancelUntil_fields [OF True] by (simp add: advanced_def same_models_def)
next
  case False
  then have "cancelUntil 0 s = s"
    by (simp add: cancelUntil_def)
  then show ?thesis
    using assms by (simp add: advanced_def same_models_def)
qed

definition sound_heuristics :: "heuristics \<Rightarrow> bool" where
  "sound_heuristics h \<longleftrightarrow> (\<forall>xs. mset (h_sort h xs) = mset xs)"

lemma reduce_round:
  assumes "search_at T (length (trail s)) s" "qhead s = length (trail s)" "sound_heuristics h"
  shows "\<exists>b s'. rbind (if decisionLevel s = 0 then simplify cfg h s else Inr (True, s)) (\<lambda>(okay, s2).
      if \<not> okay then Inr (False, s2)
      else rbind (if 0 \<le> nofl \<and> nofl \<le> int (length (learnts s2)) - int (length (trail s2)) then reduceDB h s2 else Inr s2) (\<lambda>s3.
        Inr (True, s3))) = Inr (b, s') \<and>
    (\<not> b \<longrightarrow> (\<forall>\<alpha>. T \<alpha> \<longrightarrow> \<not> sat_models s \<alpha>)) \<and>
    (b \<longrightarrow> advanced T s s' \<and> search_at T (length (trail s')) s' \<and> qhead s' = length (trail s') \<and>
       length (trail s) \<le> length (trail s') \<and> decisionLevel s' = decisionLevel s)"
proof -
  obtain b s2 where b: "(if decisionLevel s = 0 then simplify cfg h s else Inr (True, s)) = Inr (b, s2)"
      "\<not> b \<longrightarrow> (\<forall>\<alpha>. T \<alpha> \<longrightarrow> \<not> sat_models s \<alpha>)"
      "b \<longrightarrow> search_at T (length (trail s2)) s2 \<and> qhead s2 = length (trail s2) \<and> same_models T s s2 \<and>
        decisionLevel s2 = decisionLevel s \<and> nVars s2 = nVars s \<and> length (trail s) \<le> length (trail s2)"
  proof (cases "decisionLevel s = 0")
    case True
    have "search_at T (qhead s) s"
      using assms(1,2) by simp
    from simplify_ok [OF this True, of cfg h] show thesis
      using that True by auto
  next
    case False
    then show thesis
      using that [of True s] assms by (simp add: same_models_def)
  qed
  show ?thesis
  proof (cases b)
    case False
    then show ?thesis
      using b(1,2) by (intro exI [of _ False] exI [of _ s2]) simp
  next
    case True
    then have s2: "search_at T (length (trail s2)) s2" "qhead s2 = length (trail s2)" "same_models T s s2"
        "decisionLevel s2 = decisionLevel s" "nVars s2 = nVars s" "length (trail s) \<le> length (trail s2)"
      using b(3) by blast+
    obtain s3 where s3: "(if 0 \<le> nofl \<and> nofl \<le> int (length (learnts s2)) - int (length (trail s2)) then reduceDB h s2 else Inr s2) = Inr s3"
        "reduced_from T s2 s3"
    proof (cases "0 \<le> nofl \<and> nofl \<le> int (length (learnts s2)) - int (length (trail s2))")
      case True
      have "mset (h_sort h (learnts s2)) = mset (learnts s2)"
        using assms(3) by (simp add: sound_heuristics_def)
      from reduceDB_ok [OF s2(1) this] obtain s3 where "reduceDB h s2 = Inr s3" "reduced_from T s2 s3"
        by blast
      then show thesis
        using that True by simp
    next
      case False
      then show thesis
        using that [of s2] s2(1) unfolding if_not_P [OF False] by (simp add: reduced_from_def same_trail_def)
    qed
    have "search_at T (length (trail s3)) s3" "same_models T s s3" "trail s3 = trail s2" "qhead s3 = qhead s2" "nVars s3 = nVars s2"
        "decisionLevel s3 = decisionLevel s2"
      using s3(2) s2(3) unfolding reduced_from_def same_models_def same_trail_def decisionLevel_def by metis+
    then show ?thesis
      using b(1) True s2 by (intro exI [of _ True] exI [of _ s3]) (simp add: s3(1) advanced_def)
  qed
qed

lemma rbind_continue:
  assumes "rbind X (\<lambda>(okay, s2). if \<not> okay then Inr (False, s2) else rbind (Y s2) (\<lambda>s3. Inr (True, s3))) = Inr (b, s3)"
  shows "rbind X (\<lambda>(okay, s2). if \<not> okay then F s2 else rbind (Y s2) G) = (if b then G s3 else F s3)"
proof (cases X)
  case (Inr r)
  obtain okay s2 where "r = (okay, s2)"
    by (rule prod.exhaust)
  then show ?thesis
    using assms Inr by (cases okay; cases "Y s2") auto
qed (use assms in simp)

lemma search_round_ok:
  assumes s: "search_at T (qhead s) s" and th: "sound_theory T (nVars s) th" and cfg: "cfg_ok cfg"
    and h: "sound_heuristics (h False)" and limit: "0 \<le> nofc"
  shows "\<exists>res. search_round cfg nv R h th nofc nofl k lit_Undef s = Inr res \<and> round_ok T (\<not> h_continue (h False)) nofc k s res"
proof (cases "h_continue (h False)")
  case False
  then show ?thesis
    using s by (simp add: search_round_def round_ok_def right_answer_def advanced_def same_models_def)
next
  case True
  obtain r s1 where p: "propagate s = Inr (r, s1)" "prop_ext s s1" "qhead s1 = length (trail s1)" "same_models T s s1"
      "r = CRef_Undef \<and> search_at T (length (trail s1)) s1 \<or> conflict s1 r \<and> search_at T (qhead s) s1"
    by (rule propagate_search [OF s])
  note f = prop_ext_fields [OF p(2)]
  have len: "length (trail s) \<le> length (trail s1)"
    using f(10) by auto
  show ?thesis
  proof (cases "r = CRef_Undef")
    case False
    then have c: "conflict s1 r" "search_at T (qhead s) s1"
      using p(5) by blast+
    show ?thesis
    proof (cases "decisionLevel s1 = 0")
      case True
      have "\<not> sat_models s \<alpha>" if "T \<alpha>" for \<alpha>
        using conflict_level0 [OF c(2,1) True that] p(4) that by (simp add: same_models_def)
      then show ?thesis
        using \<open>h_continue (h False)\<close> p(1) False True by (simp add: search_round_def round_ok_def right_answer_def)
    next
      case dl: False
      have "ccmin_mode (sat_config.truncate cfg) \<noteq> 1" "sat_minimize_conflicts (sat_config.truncate cfg) \<le> 1"
        using cfg by (simp_all add: cfg_ok_def sat_config.truncate_def)
      then obtain s2 where s2: "learn_conflict (sat_config.truncate cfg) R r s1 = Inr s2" "learnt_from T s1 s2"
        using learn_conflict_ok [OF c(2,1)] dl by blast
      have "advanced T s s2" "decisionLevel s2 < decisionLevel s"
        using s2(2) p(4) f(1,7) by (simp_all add: learnt_from_def advanced_def same_models_def)
      then show ?thesis
        using True p(1) False dl s2(1) by (simp add: search_round_def round_ok_def closer_def)
    qed
  next
    case no_confl: True
    then have s1: "search_at T (length (trail s1)) s1"
      using p(5) by (auto simp: conflict_def)
    show ?thesis
    proof (cases "(0 \<le> nofc \<and> nofc \<le> k) \<or> \<not> h_budget (h False)")
      case stop: True
      have c: "advanced T s1 (cancelUntil 0 s1)" "qhead (cancelUntil 0 s1) = length (trail (cancelUntil 0 s1))"
        using cancel_advanced [OF s1 refl p(3)] by blast+
      then have "advanced T s (cancelUntil 0 s1)"
        using p(4) f(1) unfolding advanced_def same_models_def by metis
      moreover have "search_round cfg nv R h th nofc nofl k lit_Undef s = Inr (Round_Answer l_Undef [], k, lit_Undef, cancelUntil 0 s1)"
        unfolding search_round_def using True p(1) no_confl stop by simp
      ultimately show ?thesis
        using c(2) by (simp add: round_ok_def right_answer_def)
    next
      case go: False
      then have k: "k < nofc"
        using limit by simp
      obtain b s3 where red: "rbind (if decisionLevel s1 = 0 then simplify cfg (h False) s1 else Inr (True, s1)) (\<lambda>(okay, s2).
          if \<not> okay then Inr (False, s2)
          else rbind (if 0 \<le> nofl \<and> nofl \<le> int (length (learnts s2)) - int (length (trail s2)) then reduceDB (h False) s2 else Inr s2) (\<lambda>s3.
            Inr (True, s3))) = Inr (b, s3)"
          "\<not> b \<longrightarrow> (\<forall>\<alpha>. T \<alpha> \<longrightarrow> \<not> sat_models s1 \<alpha>)"
          "b \<longrightarrow> advanced T s1 s3 \<and> search_at T (length (trail s3)) s3 \<and> qhead s3 = length (trail s3) \<and>
            length (trail s1) \<le> length (trail s3) \<and> decisionLevel s3 = decisionLevel s1"
        using reduce_round [OF s1 p(3) h] by blast
      let ?rest = "\<lambda>s3. rbind (checkTheory cfg nv R (h_skip (h False)) False (th False (trail s3)) lit_Undef s3) (\<lambda>(r, forced1, k', s4). case r of
                TProp_Unsat \<Rightarrow> Inr (Round_Answer l_False [], k + k', forced1, s4)
              | TProp_Propagate \<Rightarrow> Inr (Round_Next, k + k', forced1, s4)
              | TProp_Undef \<Rightarrow> Inl Assertion_Failed
              | TProp_Decide \<Rightarrow> rbind (decide_round cfg nv R h (th True) forced1 s4) (\<lambda>(e, k'', forced2, s5).
                  Inr (e, k + k' + k'', forced2, s5)))"
      have run: "search_round cfg nv R h th nofc nofl k lit_Undef s =
          (if b then ?rest s3 else Inr (Round_Answer l_False [], k, lit_Undef, s3))"
      proof -
        have "search_round cfg nv R h th nofc nofl k lit_Undef s = rbind (if decisionLevel s1 = 0 then simplify cfg (h False) s1 else Inr (True, s1)) (\<lambda>(okay, s2).
          if \<not> okay then Inr (Round_Answer l_False [], k, lit_Undef, s2)
          else rbind (if 0 \<le> nofl \<and> nofl \<le> int (length (learnts s2)) - int (length (trail s2)) then reduceDB (h False) s2 else Inr s2) ?rest)"
          unfolding search_round_def p(1) no_confl using True by (simp only: rbind_Inr prod.case simp_thms if_True if_False if_not_P [OF go])
        then show ?thesis
          using rbind_continue [OF red(1)] by (rule trans)
      qed
      show ?thesis
      proof (cases b)
        case False
        then show ?thesis
          using run red(2) p(4) by (simp add: round_ok_def right_answer_def same_models_def)
      next
        case True
        then have s3: "advanced T s1 s3" "search_at T (length (trail s3)) s3" "qhead s3 = length (trail s3)"
            "length (trail s1) \<le> length (trail s3)" "decisionLevel s3 = decisionLevel s1"
          using red(3) by blast+
        have adv: "same_models T s s3" "nVars s3 = nVars s"
          using s3(1) p(4) f(1) by (simp_all add: advanced_def same_models_def)
        have ans: "sound_answer T (trail s3) (th False (trail s3))"
          using th by (simp add: sound_theory_def)
        obtain t k' s4 where c: "checkTheory cfg nv R (h_skip (h False)) False (th False (trail s3)) lit_Undef s3 = Inr (t, lit_Undef, k', s4)"
            "theory_result T s3 (t, s4) \<and> k' = 1 \<or> t = TProp_Decide \<and> s4 = s3 \<and> k' = 0"
          using checkTheory_ok [OF s3(2) ans cfg] by blast
        from c(2) show ?thesis
        proof
          assume "theory_result T s3 (t, s4) \<and> k' = 1"
          then have k': "k' = 1" and "t = TProp_Unsat \<and> (\<forall>\<alpha>. T \<alpha> \<longrightarrow> \<not> sat_models s3 \<alpha>) \<or> t = TProp_Propagate \<and> learnt_from T s3 s4"
            by (simp_all add: theory_result_def)
          from this(2) show ?thesis
          proof
            assume "t = TProp_Unsat \<and> (\<forall>\<alpha>. T \<alpha> \<longrightarrow> \<not> sat_models s3 \<alpha>)"
            then show ?thesis
              using run True c(1) adv(1) by (simp add: round_ok_def right_answer_def same_models_def)
          next
            assume l: "t = TProp_Propagate \<and> learnt_from T s3 s4"
            then have "advanced T s s4"
              using adv by (simp add: learnt_from_def advanced_def same_models_def)
            then show ?thesis
              using run True c(1) l k k' by (simp add: round_ok_def closer_def)
          qed
        next
          assume d: "t = TProp_Decide \<and> s4 = s3 \<and> k' = 0"
          have "sound_theory T (nVars s3) th"
            using th adv(2) by simp
          then obtain e k'' s5 where dr: "decide_round cfg nv R h (th True) lit_Undef s3 = Inr (e, k'', lit_Undef, s5)"
              "round_ok T (\<not> h_continue (h False)) nofc k s3 (e, k + k'', lit_Undef, s5)"
            using decide_round_ok [OF s3(2,3) _ cfg k] by blast
          have "round_ok T (\<not> h_continue (h False)) nofc k s (e, k + k'', lit_Undef, s5)"
          proof (cases e)
            case (Round_Answer b c)
            then show ?thesis
              using dr(2) adv by (auto simp: round_ok_def right_answer_def advanced_def same_models_def)
          next
            case Round_Next
            have "decisionLevel s3 = decisionLevel s"
              using s3(5) f(7) by simp
            then show ?thesis
              using dr(2) adv Round_Next len s3(4) by (auto simp: round_ok_def closer_def advanced_def same_models_def)
          qed
          then show ?thesis
            using run True c(1) d dr(1) by simp
        qed
      qed
    qed
  qed
qed

section \<open>The search\<close>

lemma trail_bound:
  assumes "trail_inv s"
  shows "length (trail s) \<le> nVars s"
proof -
  have "lit_var ` set (trail s) \<subseteq> {..< nVars s}"
    using trail_inv_ok [OF assms] by (auto simp: lit_ok_def)
  then have "card (lit_var ` set (trail s)) \<le> nVars s"
    using card_mono [of "{..< nVars s}"] by simp
  moreover have "card (lit_var ` set (trail s)) = length (trail s)"
    using assms distinct_card [of "map lit_var (trail s)"] by (simp add: trail_inv_def)
  ultimately show ?thesis
    by simp
qed

definition search_result :: "((nat \<Rightarrow> bool) \<Rightarrow> bool) \<Rightarrow> bool \<Rightarrow> 'a sat_solver_scheme \<Rightarrow> lbool \<times> lit list \<times> lit \<times> 'a sat_solver_scheme \<Rightarrow> bool" where
  "search_result T halt s r \<longleftrightarrow> (case r of (b, c, forced, s') \<Rightarrow> forced = lit_Undef \<and> right_answer T halt s b s')"

lemma right_answer_advanced: "advanced T s s1 \<Longrightarrow> right_answer T h s1 b s' \<Longrightarrow> (h \<Longrightarrow> halt) \<Longrightarrow> right_answer T halt s b s'"
  by (auto simp: right_answer_def advanced_def same_models_def)

lemma search_loop_ok:
  assumes "search_at T (qhead s) s" "\<forall>i. sound_theory T (nVars s) (th i)" "cfg_ok cfg" "\<forall>i. sound_heuristics (hs i False)" "0 \<le> nofc"
  shows "\<exists>r. search_loop cfg nv R hs th nofc nofl n k lit_Undef s = Some (Inr r) \<and> search_result T (\<exists>i. \<not> h_continue (hs i False)) s r"
  using assms(1,2)
proof (induction "(nat (nofc - k), if k < nofc then nVars s - length (trail s) else decisionLevel s)" arbitrary: n k s
    rule: wf_induct_rule [OF wf_lex_prod [OF wf_less_than wf_less_than]])
  case (1 k s n)
  obtain res where r: "search_round cfg nv R (hs n) (th n) nofc nofl k lit_Undef s = Inr res" "round_ok T (\<not> h_continue (hs n False)) nofc k s res"
    using search_round_ok [OF 1(2) _ assms(3) _ assms(5)] 1(3) assms(4) by blast
  obtain e k' f s' where res: "res = (e, k', f, s')"
    by (metis prod_cases4)
  show ?case
  proof (cases e)
    case (Round_Answer b c)
    then have "f = lit_Undef" "right_answer T (\<not> h_continue (hs n False)) s b s'"
      using r(2) res by (simp_all add: round_ok_def)
    moreover from this(2) have "right_answer T (\<exists>i. \<not> h_continue (hs i False)) s b s'"
      by (rule right_answer_advanced [OF advanced_refl [OF 1(2)]]) blast
    ultimately show ?thesis
      using r(1) res Round_Answer by (subst search_loop.simps) (simp add: search_result_def)
  next
    case Round_Next
    then have f: "f = lit_Undef" "advanced T s s'" "closer nofc k s k' s'"
      using r(2) res by (simp_all add: round_ok_def)
    have nv: "nVars s' = nVars s" and s': "search_at T (qhead s') s'"
      using f(2) by (simp_all add: advanced_def)
    have bound: "length (trail s') \<le> nVars s"
      using trail_bound [OF sat_invD(1) [OF search_atD(1) [OF s']]] nv by simp
    have less: "((nat (nofc - k'), if k' < nofc then nVars s' - length (trail s') else decisionLevel s'),
        (nat (nofc - k), if k < nofc then nVars s - length (trail s) else decisionLevel s)) \<in> less_than <*lex*> less_than"
      using f(3) bound by (auto simp: closer_def nv)
    have "\<exists>r. search_loop cfg nv R hs th nofc nofl (n + 1) k' lit_Undef s' = Some (Inr r) \<and> search_result T (\<exists>i. \<not> h_continue (hs i False)) s' r"
      by (rule 1(1) [OF less s']) (use 1(3) nv in simp)
    then obtain r' where r': "search_loop cfg nv R hs th nofc nofl (n + 1) k' lit_Undef s' = Some (Inr r')" "search_result T (\<exists>i. \<not> h_continue (hs i False)) s' r'"
      by blast
    then have "search_result T (\<exists>i. \<not> h_continue (hs i False)) s r'"
      using right_answer_advanced [OF f(2)] by (auto simp: search_result_def)
    moreover have "search_loop cfg nv R hs th nofc nofl n k lit_Undef s = Some (Inr r')"
      using r(1) res Round_Next f(1) r'(1) by (subst search_loop.simps) simp
    ultimately show ?thesis
      by blast
  qed
qed

lemma search_ok:
  assumes s: "search_at T (length (trail s)) s" "qhead s = length (trail s)" and th: "\<forall>i. sound_theory T (nVars s) (th i)"
    and cfg: "cfg_ok cfg" "\<forall>i. sound_heuristics (hs i False)" "0 \<le> nofc"
  shows "\<exists>r. search cfg nv R hs th nofc nofl lit_Undef s = Inr r \<and> search_result T (\<exists>i. \<not> h_continue (hs i False)) s r"
proof -
  have ans: "sound_answer T (trail s) (th 0 False (trail s))"
    using th by (simp add: sound_theory_def)
  obtain t k s1 where c: "checkTheory cfg nv R (h_skip (hs 0 False)) False (th 0 False (trail s)) lit_Undef s = Inr (t, lit_Undef, k, s1)"
      "theory_result T s (t, s1) \<and> k = 1 \<or> t = TProp_Decide \<and> s1 = s \<and> k = 0"
    using checkTheory_ok [OF s(1) ans cfg(1)] by blast
  have ok: "sat_ok s"
    by (rule search_atD(6) [OF s(1)])
  show ?thesis
  proof (cases "t = TProp_Unsat")
    case True
    then show ?thesis
      using c ok by (auto simp: search_def search_result_def right_answer_def theory_result_def)
  next
    case False
    then have a: "advanced T s s1" and u: "t \<noteq> TProp_Undef"
      using c(2) s learnt_advanced by (auto simp: theory_result_def advanced_def same_models_def)
    then have s1: "search_at T (qhead s1) s1" "\<forall>i. sound_theory T (nVars s1) (th i)"
      using th by (simp_all add: advanced_def)
    obtain r where r: "search_loop cfg nv R hs th nofc nofl 1 k lit_Undef s1 = Some (Inr r)" "search_result T (\<exists>i. \<not> h_continue (hs i False)) s1 r"
      using search_loop_ok [where th = th and hs = hs and T = T and s = s1, OF s1 cfg] by blast
    then have "search_result T (\<exists>i. \<not> h_continue (hs i False)) s r"
      using right_answer_advanced [OF a] by (auto simp: search_result_def)
    then show ?thesis
      using r(1) c(1) False ok u by (simp add: search_def)
  qed
qed

end
