(* ===== verification/Sat_Ready.thy ===== *)
theory Sat_Ready
  imports Sat_Rounds Sat_Vars
begin

text \<open>
  The solver before a search: the state that the constructor, \<open>newVar\<close> and
  \<open>addOriginalClause_\<close> build satisfies the invariant of the search, as soon as one literal is known.
\<close>

definition orderly :: "'a sat_solver_scheme \<Rightarrow> bool" where
  "orderly s \<longleftrightarrow> clean_seen s \<and> order_ok s \<and> refs_distinct s \<and> no_fake s"

text \<open>The clauses that are listed can be read, also after a contradiction.\<close>

definition listed :: "'a sat_solver_scheme \<Rightarrow> bool" where
  "listed s \<longleftrightarrow> (\<forall>cr \<in> set (clauses s). \<exists>c. clause_at s cr = Inr c \<and> (\<forall>l \<in> set (lits c). lit_ok (nVars s) l))"

lemma db_inv_listed: "db_inv s \<Longrightarrow> listed s"
  unfolding listed_def by (metis attached_def db_invD(1,3) good_clause_def Un_iff)

definition ready :: "'a sat_solver_scheme \<Rightarrow> bool" where
  "ready s \<longleftrightarrow> idle s \<and> (sat_ok s \<longrightarrow> orderly s) \<and> listed s"

lemma ready_search:
  assumes "ready s" "sat_ok s" "trail s \<noteq> []"
  shows "search_at T (length (trail s)) s" "qhead s = length (trail s)" "trail_lim s = []"
proof -
  note i = idle_sat_inv [OF _ assms(2)]
  have idle: "idle s"
    using assms(1) by (simp add: ready_def)
  show q: "qhead s = length (trail s)" and l: "trail_lim s = []"
    using i [OF idle] by (simp_all add: decisionLevel_def)
  have inv: "sat_inv (length (trail s)) s"
    using i(1) [OF idle] q by simp
  have "level s (lit_var p) = 0" if "p \<in> set (trail s)" for p
    using level_le [OF sat_invD(1) [OF inv] that] l by (simp add: decisionLevel_def)
  then have "decided s"
    by (simp add: decided_def)
  moreover have "rooted s"
    using l assms(3) by (simp add: rooted_def level0_def)
  moreover have "learnts_implied T s"
    using i(5) [OF idle] by (simp add: learnts_implied_def)
  ultimately show "search_at T (length (trail s)) s"
    using inv assms(1,2) by (simp add: search_at_def ready_def orderly_def)
qed

lemma ctor_ready: "ready (CoreSMTSolver_ctor e ph th)"
  using ctor_idle [of e ph th]
  by (simp add: ready_def orderly_def listed_def) (simp add: CoreSMTSolver_ctor_def clean_seen_def order_ok_def refs_distinct_def no_fake_def nVars_def)

lemma insertVarOrder_heap:
  "seen (insertVarOrder x s) = seen s" "decision (insertVarOrder x s) = decision s"
  "set (order_heap (insertVarOrder x s)) = (if decision s ! x then insert x (set (order_heap s)) else set (order_heap s))"
  by (auto simp: insertVarOrder_def)

lemma newVar_fields:
  assumes "length (decision s) = nVars s"
  shows "seen (snd (newVar sg True s)) = seen s @ [False]" "decision (snd (newVar sg True s)) = decision s @ [True]"
    "set (order_heap (snd (newVar sg True s))) = insert (nVars s) (set (order_heap s))"
  using assms by (simp_all add: newVar_def Let_def setDecisionVar_def watches_init_def insertVarOrder_heap list_update_append nth_append)

lemma newVar_ready:
  assumes "ready s"
  shows "ready (snd (newVar sg True s))"
proof -
  let ?t = "snd (newVar sg True s)"
  have i: "idle s"
    using assms by (simp add: ready_def)
  note t = newVar_idle [OF i, of sg True]
  have g: "grown s ?t"
    using i by (intro newVar_grown) (simp add: idle_def)
  have "orderly ?t" if ok: "sat_ok ?t"
  proof -
    have o: "orderly s" "sat_ok s"
      using g ok assms by (simp_all add: grown_def ready_def)
    have inv: "trail_inv s"
      using idle_sat_inv(1) [OF i o(2)] by (rule sat_invD)
    have len: "length (decision s) = nVars s"
      using o(1) by (simp add: orderly_def order_ok_def)
    note f = newVar_fields [OF len, of sg]
    have "reason ?t (lit_var p) = reason s (lit_var p)" if "p \<in> set (trail s)" for p
      using trail_inv_ok [OF inv that] g by (simp add: reason_def grown_def nth_append lit_ok_def nVars_def)
    moreover have "trail ?t = trail s" "clauses ?t = clauses s" "learnts ?t = learnts s"
      using g by (simp_all add: grown_def)
    ultimately have "refs_distinct ?t" "no_fake ?t"
      using o(1) by (simp_all add: orderly_def refs_distinct_def no_fake_def)
    moreover have "clean_seen ?t"
      using o(1) by (simp add: orderly_def clean_seen_def t(2) f replicate_append_same)
    moreover have "order_ok ?t"
      unfolding order_ok_def t(2) f
    proof (intro conjI allI impI)
      show "length (decision s @ [True]) = Suc (nVars s)"
        using len by simp
      show "\<forall>v \<in> insert (nVars s) (set (order_heap s)). v < Suc (nVars s)"
        using o(1) by (auto simp: orderly_def order_ok_def)
      fix v assume v: "v < Suc (nVars s)"
      show "(decision s @ [True]) ! v"
        using o(1) v len by (cases "v = nVars s") (auto simp: orderly_def order_ok_def nth_append)
      show "v \<in> lit_var ` set (trail ?t) \<or> v \<in> insert (nVars s) (set (order_heap s))"
        using o(1) v g by (cases "v = nVars s") (auto simp: orderly_def order_ok_def grown_def)
    qed
    ultimately show ?thesis
      by (simp add: orderly_def)
  qed
  moreover have "listed ?t"
    using assms g t(2) by (fastforce simp: ready_def listed_def grown_def clause_at_def lit_ok_def)
  ultimately show ?thesis
    using t(1) by (simp add: ready_def)
qed

section \<open>Clauses\<close>

lemma attached_orderly:
  assumes "idle s" "sat_ok s" "orderly s" "cr = al_size (ca s)"
  shows "orderly ((attached_state cr ps False s)\<lparr>undo_stack := us\<rparr>)"
proof -
  have db: "db_inv s"
    using idle_sat_inv(1) [OF assms(1,2)] by (rule sat_invD)
  have fresh: "cr \<notin> set (clauses s @ learnts s)"
    using db assms(4) by (fastforce simp: db_inv_def attached_def)
  have f: "nVars ((attached_state cr ps False s)\<lparr>undo_stack := us\<rparr>) = nVars s"
      "reason ((attached_state cr ps False s)\<lparr>undo_stack := us\<rparr>) = reason s"
      "seen (attached_state cr ps False s) = seen s" "decision (attached_state cr ps False s) = decision s"
      "order_heap (attached_state cr ps False s) = order_heap s" "clauses (attached_state cr ps False s) = clauses s @ [cr]"
      "learnts (attached_state cr ps False s) = learnts s"
    by (simp_all add: attached_state_def push_watch_def nVars_def reason_def fun_eq_iff)
  show ?thesis
    using assms(3) fresh by (auto simp: orderly_def clean_seen_def order_ok_def refs_distinct_def no_fake_def f)
qed

lemma add_long_run:
  assumes "sat_ok s" "decisionLevel s = 0" "simplify_clause s (sort c) lit_Undef = Some ps" "2 \<le> length ps"
  shows "addOriginalClause_core c s = Inr (True, (CRef_Undef, CRef (al_size (ca s))),
    (attached_state (al_size (ca s)) ps False s)\<lparr>undo_stack := undo_stack s @ [NEWCLAUSE (al_size (ca s))]\<rparr>)"
proof -
  have alloc: "ca_alloc ps False (ca s) = (al_size (ca s), snd (ca_alloc ps False (ca s)))"
    by (simp add: ca_alloc_def Let_def)
  show ?thesis
    using assms attach_run(1) [of "al_size (ca s)" s, OF refl assms(4)]
    by (auto simp: addOriginalClause_core_def vec_sort_ok) (subst alloc, simp)
qed

text \<open>What a call for a clause does, by the clause that is left of it.\<close>

lemma add_cases:
  assumes i: "idle s" and ok: "sat_ok s" and c: "\<forall>l \<in> set c. lit_ok (nVars s) l"
    and run: "addOriginalClause_core c s = Inr (b, refs, t)"
  obtains (known) "simplify_clause s (sort c) lit_Undef = None" "t = s"
    | (refused) "t = s\<lparr>sat_ok := False\<rparr>"
    | (unit) q confl u where "is_undef s q" "lit_ok (nVars s) q" "rbind (uncheckedEnqueue q CRef_Undef s) propagate = Inr (confl, u)"
        "t = u\<lparr>sat_ok := (confl = CRef_Undef)\<rparr>" "q \<in> set c"
    | (stored) ps where "2 \<le> length ps" "distinct ps" "set ps \<subseteq> set c"
        "t = (attached_state (al_size (ca s)) ps False s)\<lparr>undo_stack := undo_stack s @ [NEWCLAUSE (al_size (ca s))]\<rparr>"
proof -
  note inv = idle_sat_inv [OF i ok]
  note d = sat_invD [OF inv(1)]
  note r = run [unfolded addOriginalClause_core_def vec_sort_ok]
  show thesis
  proof (cases "simplify_clause s (sort c) lit_Undef")
    case None
    then show ?thesis
      using known r ok inv(2) by simp
  next
    case (Some ps)
    note p = simplified(2) [OF d(1) c Some]
    consider "ps = []" | q where "ps = [q]" | "2 \<le> length ps"
      by (cases ps rule: remdups_adj.cases) auto
    then show ?thesis
    proof cases
      case 1
      then show ?thesis
        using refused r ok inv(2) Some by auto
    next
      case 2
      have q: "is_undef s q" "lit_ok (nVars s) q" "q \<in> set c"
        using p 2 c by auto
      obtain confl u where "rbind (uncheckedEnqueue q CRef_Undef s) propagate = Inr (confl, u)" "t = u\<lparr>sat_ok := (confl = CRef_Undef)\<rparr>"
        using r ok inv(2) Some 2 q(1) by (auto simp: rbind_eq_Inr_iff Let_def)
      then show ?thesis
        using unit q by blast
    next
      case 3
      then show ?thesis
        using stored [OF 3] p add_long_run [OF ok inv(2) Some 3] run by simp
    qed
  qed
qed

lemma unit_run:
  assumes "idle s" "sat_ok s" "is_undef s q" "lit_ok (nVars s) q" "rbind (uncheckedEnqueue q CRef_Undef s) propagate = Inr (confl, u)"
  shows "propagate (enqueued q CRef_Undef s) = Inr (confl, u)" "prop_ext (enqueued q CRef_Undef s) u" "db_inv u"
    "q \<notin> set (trail s)" "lit_not q \<notin> set (trail s)"
proof -
  note inv = idle_sat_inv [OF assms(1,2)]
  note d = sat_invD [OF inv(1)]
  show u: "q \<notin> set (trail s)" "lit_not q \<notin> set (trail s)"
    using values_iff(3) [OF d(1) assms(4)] assms(3) by simp_all
  let ?e = "enqueued q CRef_Undef s"
  show run: "propagate ?e = Inr (confl, u)"
    using uncheckedEnqueue_ok [OF d(1) assms(4) u] assms(5) by simp
  have "sat_inv (qhead ?e) ?e"
    using enqueued_sat_inv [OF inv(1) assms(4) u] inv(4) by simp
  then obtain r t where p: "propagate ?e = Inr (r, t)" "prop_ext ?e t"
      "r = CRef_Undef \<and> sat_inv (length (trail t)) t \<or> conflict t r \<and> sat_inv (qhead ?e) t"
    by (rule propagate_ok)
  then show "prop_ext ?e u" "db_inv u"
    using run sat_invD(2) by auto
qed

lemma unit_orderly:
  assumes "idle s" "sat_ok s" "orderly s" "is_undef s q" "lit_ok (nVars s) q"
    and "rbind (uncheckedEnqueue q CRef_Undef s) propagate = Inr (confl, t)"
  shows "orderly (t\<lparr>sat_ok := b\<rparr>)" "listed (t\<lparr>sat_ok := b\<rparr>)" "trail t \<noteq> []"
proof -
  note i = idle_sat_inv [OF assms(1,2)]
  note d = sat_invD [OF i(1)] and u = unit_run [OF assms(1,2,4,5,6)]
  let ?e = "enqueued q CRef_Undef s"
  note f = prop_ext_fields [OF u(2)]
  obtain new where new: "trail t = trail ?e @ new" "\<forall>r \<in> set new. \<exists>cr. reason t (lit_var r) = CRef cr"
      "\<forall>r \<in> set (trail ?e). reason t (lit_var r) = reason ?e (lit_var r)" "seen t = seen ?e"
    by (rule prop_ext_new [OF u(2)])
  show "trail t \<noteq> []"
    using new(1) by simp
  show "listed (t\<lparr>sat_ok := b\<rparr>)"
    using db_inv_listed [OF u(3)] by (simp add: listed_def clause_at_def nVars_def)
  have h: "decision t = decision s" "order_heap t = order_heap s"
    using prop_ext_order [OF u(2)] by (simp_all add: enqueued_def)
  have "no_fake ?e"
    using assms(3) enqueued_reason [OF assms(5)] enqueued_old [OF d(1) assms(5) u(4,5)] by (fastforce simp: no_fake_def orderly_def)
  then have "no_fake t"
    using new by (fastforce simp: no_fake_def)
  moreover have "seen ?e = seen s"
    by (simp add: enqueued_def)
  moreover have "order_ok t"
    using assms(3) new(1) by (auto simp: orderly_def order_ok_def f(1) h)
  moreover have "nVars (t\<lparr>sat_ok := b\<rparr>) = nVars t" "reason (t\<lparr>sat_ok := b\<rparr>) = reason t"
    by (simp_all add: nVars_def reason_def fun_eq_iff)
  ultimately show "orderly (t\<lparr>sat_ok := b\<rparr>)"
    using assms(3) new(1,4) f(1,3,4)
    by (simp add: orderly_def clean_seen_def refs_distinct_def no_fake_def order_ok_def)
qed

text \<open>A literal is known from then on if one was before, or if the clause is a single literal.\<close>

lemma addOriginalClause_ready:
  assumes s: "ready s" and c: "\<forall>l \<in> set c. lit_ok (nVars s) l"
  shows "\<exists>refs t. addOriginalClause_core c s = Inr (sat_ok t, refs, t) \<and> ready t \<and> nVars t = nVars s \<and>
    (\<forall>\<alpha>. sat_models t \<alpha> \<longleftrightarrow> sat_models s \<alpha> \<and> csat \<alpha> c) \<and>
    (sat_ok t \<longrightarrow> sat_ok s \<and> (trail s \<noteq> [] \<or> length c = 1 \<longrightarrow> trail t \<noteq> []))"
proof -
  have i: "idle s" and l: "listed s"
    using s by (simp_all add: ready_def)
  obtain refs t where t: "addOriginalClause_core c s = Inr (sat_ok t, refs, t)" "idle t" "nVars t = nVars s"
      "\<forall>\<alpha>. sat_models t \<alpha> \<longleftrightarrow> sat_models s \<alpha> \<and> csat \<alpha> c"
    using addOriginalClause_ok [OF i c] unfolding clause_added_def by blast
  have rest: "(sat_ok t \<longrightarrow> orderly t) \<and> listed t \<and> (sat_ok t \<longrightarrow> sat_ok s \<and> (trail s \<noteq> [] \<or> length c = 1 \<longrightarrow> trail t \<noteq> []))"
  proof (cases "sat_ok s")
    case False
    then show ?thesis
      using t(1) l i by (auto simp: addOriginalClause_core_def idle_def)
  next
    case ok: True
    have o: "orderly s"
      using s ok by (simp add: ready_def)
    from i ok c t(1) show ?thesis
    proof (cases rule: add_cases)
      case known
      have "trail s \<noteq> []" if "length c = 1"
      proof -
        obtain q where q: "c = [q]"
          using \<open>length c = 1\<close> by (cases c) auto
        have "is_true s q"
          using known(1) q c lit_ok_not [of "nVars s" q] by (auto simp: lit_ok_def lit_Undef_def split: if_splits)
        then show ?thesis
          using values_iff(1) [OF sat_invD(1) [OF idle_sat_inv(1) [OF i ok]]] c q by fastforce
      qed
      then show ?thesis
        using known(2) o l ok by auto
    next
      case refused
      then show ?thesis
        using l by (simp add: listed_def clause_at_def nVars_def)
    next
      case (unit q confl u)
      then show ?thesis
        using unit_orderly [OF i ok o unit(1-3)] ok by simp
    next
      case (stored ps)
      have "length ps \<le> length c" if "length c = 1"
        using card_mono [OF _ stored(3)] distinct_card [OF stored(2)] card_length [of c] by simp
      moreover have "listed t" if "db_inv t"
        using that by (rule db_inv_listed)
      moreover have "sat_ok t"
        using stored(4) ok by simp
      then have "db_inv t"
        using idle_sat_inv(1) [OF t(2)] sat_invD(2) by blast
      ultimately show ?thesis
        using attached_orderly [OF i ok o refl] stored(1,4) ok by auto
    qed
  qed
  show ?thesis
    using t rest by (intro exI [of _ refs] exI [of _ t]) (simp add: ready_def)
qed

end
