(* ===== verification/Cnf_Solver.thy ===== *)
theory Cnf_Solver
  imports Cnf_Props Sat_Props Sat_Ready
begin

text \<open>
  The conversion and the SAT solver together: the clauses that the conversion produces are given to
  \<open>SimpSMTSolver\<close> one after the other. The solver takes every one of them without failing an
  assertion, its models are the assignments that satisfy them, and a refusal means that there are none.
\<close>

section \<open>A run of the solver over a list of clauses\<close>

text \<open>
  The calls of the solver, each with the mapper as it is then. The conversion goes on after a clause that
  is refused, and so does \<open>feed\<close>; \<open>offer\<close> stops there.
\<close>

fun feed :: "(cnf \<times> lit list) list \<Rightarrow> simp_solver \<Rightarrow> simp_solver result" where
  "feed [] s = Inr s"
| "feed ((T, c) # cs) s = rbind (addOriginalSMTClause T c s) (\<lambda>(b, s1). feed cs s1)"

fun offer :: "(cnf \<times> lit list) list \<Rightarrow> simp_solver \<Rightarrow> simp_solver result" where
  "offer [] s = Inr s"
| "offer ((T, c) # cs) s = (case addOriginalSMTClause T c s of Inl e \<Rightarrow> Inl e
     | Inr (b, s1) \<Rightarrow> if b then offer cs s1 else Inr s1)"

text \<open>
  The answer for the last of a list of clauses. After a refusal every answer is one, unless the check for
  implied clauses finds the clause to follow from the contradiction.
\<close>

definition solver_accepts :: "cnf \<Rightarrow> bool \<Rightarrow> bool \<Rightarrow> int \<Rightarrow> (nat \<Rightarrow> bool) \<Rightarrow> lit list list \<Rightarrow> bool" where
  "solver_accepts T simp rcheck ph th cs =
     (case offer (map (Pair T) cs) (SimpSMTSolver_ctor simp rcheck ph th) of Inl _ \<Rightarrow> True | Inr s \<Rightarrow> sat_ok s)"

definition answers_known :: "(cnf \<times> lit list) list \<Rightarrow> bool" where
  "answers_known ps \<longleftrightarrow> (\<forall>(T, c) \<in> set ps. \<forall>l \<in> set c. knows T l)"

lemma offer_knows:
  "offer ((T, c) # ps) s = Inr s' \<Longrightarrow> \<forall>l \<in> set c. knows T l"
  by (auto simp: addOriginalSMTClause_def rbind_def dest: declare_lits_knows split: sum.splits)

text \<open>A run that returns: the clauses cut the models down, and a refusal leaves none.\<close>

lemma offer_models:
  assumes "offer ps s = Inr s'" "idle s" "sat_ok s"
  shows "idle s' \<and> (sat_ok s' \<longrightarrow> (\<forall>\<alpha>. sat_models s' \<alpha> \<longleftrightarrow> sat_models s \<alpha> \<and> sat \<alpha> (map snd ps))) \<and>
    (\<not> sat_ok s' \<longrightarrow> (\<forall>\<alpha>. \<not> (sat_models s \<alpha> \<and> sat \<alpha> (map snd ps))))"
  using assms
proof (induction ps arbitrary: s)
  case Nil
  then show ?case
    by (simp add: sat_def)
next
  case (Cons p ps)
  obtain T c where p: "p = (T, c)"
    by (rule prod.exhaust)
  note prems = Cons.prems [unfolded p]
  obtain s1 where s1: "addOriginalSMTClause T c s = Inr (sat_ok s1, s1)" "idle s1"
      "\<And>\<alpha>. sat_models s1 \<alpha> \<longleftrightarrow> sat_models s \<alpha> \<and> csat \<alpha> c"
    using addOriginalSMTClause_ok [OF prems(2) offer_knows [OF prems(1)]] prems(3)
    by (auto simp: smt_added_def)
  have step: "sat_models s \<alpha> \<and> sat \<alpha> (map snd (p # ps)) \<longleftrightarrow> sat_models s1 \<alpha> \<and> sat \<alpha> (map snd ps)" for \<alpha>
    using s1(3) by (auto simp: sat_def p)
  show ?case
  proof (cases "sat_ok s1")
    case True
    then have "offer ps s1 = Inr s'"
      using prems(1) s1(1) by simp
    then show ?thesis
      using Cons.IH [OF _ s1(2) True] unfolding step by blast
  next
    case False
    then have "s' = s1"
      using prems(1) s1(1) by simp
    moreover have "\<not> sat_models s1 \<alpha>" for \<alpha>
      using False by (simp add: sat_models_def)
    ultimately show ?thesis
      using s1(2) False unfolding step by blast
  qed
qed

lemma offer_total:
  "idle s \<Longrightarrow> sat_ok s \<Longrightarrow> answers_known ps \<Longrightarrow> \<exists>s'. offer ps s = Inr s'"
proof (induction ps arbitrary: s)
  case (Cons p ps)
  obtain T c where p: "p = (T, c)"
    by (rule prod.exhaust)
  have k: "\<forall>l \<in> set c. knows T l" "answers_known ps"
    using Cons.prems(3) by (simp_all add: answers_known_def p)
  then obtain s1 where s1: "addOriginalSMTClause T c s = Inr (sat_ok s1, s1)" "idle s1"
    using addOriginalSMTClause_ok [OF Cons.prems(1), of c T] Cons.prems(2) by (auto simp: smt_added_def)
  then show ?case
    using Cons.IH [OF s1(2) _ k(2)] by (cases "sat_ok s1") (simp_all add: p)
qed simp

section \<open>Going on after a refusal\<close>

lemma addOriginalClause_more:
  assumes "idle s" "\<forall>l \<in> set c. lit_ok (Sat_Solver.nVars s) l" "addOriginalClause_core c s = Inr (b, refs, t)"
  shows "sat_solver.more t = sat_solver.more s"
proof (cases "sat_ok s")
  case False
  then show ?thesis
    using assms(1,3) by (simp add: addOriginalClause_core_def idle_def)
next
  case ok: True
  from assms(1) ok assms(2,3) show ?thesis
  proof (cases rule: add_cases)
    case (unit q confl u)
    have "prop_ext (enqueued q CRef_Undef s) u"
      by (rule unit_run [OF assms(1) ok unit(1-3)])
    then show ?thesis
      using unit(4) by (simp add: prop_ext_def prop_rel_def frame_of_def enqueued_def)
  next
    case (stored ps)
    then show ?thesis
      by (simp add: attached_state_def push_watch_def)
  qed simp_all
qed

lemma touch_lits_more: "touch_lits T cr ls s = Inr s' \<Longrightarrow> use_rcheck s' = use_rcheck s"
  by (induction ls arbitrary: s) (auto simp: Let_def split: option.splits if_splits)

lemma more_rcheck: "sat_solver.more t = sat_solver.more s \<Longrightarrow> use_rcheck t = use_rcheck s" for s t :: simp_solver
  by (cases s; cases t) simp

text \<open>Without the check for implied clauses the flag for it stays off.\<close>

lemma addOriginalSMTClause_rcheck:
  assumes "idle s" "\<forall>l \<in> set c. knows T l" "\<not> use_rcheck s" "addOriginalSMTClause T c s = Inr (b, t)"
  shows "\<not> use_rcheck t"
proof -
  obtain s1 where s1: "declare_lits T c s = Inr s1" "idle s1" "\<forall>l \<in> set c. lit_ok (Sat_Solver.nVars s1) l"
    using declare_lits_ok [OF assms(1,2)] by blast
  have r: "\<not> use_rcheck s1"
    using declare_lits_flags [OF s1(1)] assms(3) by (simp add: keeps_flags_def)
  obtain b' refs s2 where s2: "addOriginalClause_core c s1 = Inr (b', refs, s2)"
    using assms(4) s1(1) r by (auto simp: addOriginalSMTClause_def rbind_eq_Inr_iff)
  have r2: "\<not> use_rcheck s2"
    using more_rcheck [OF addOriginalClause_more [OF s1(2,3) s2]] r by simp
  then show ?thesis
    using assms(4) s1(1) r s2
    by (auto simp: addOriginalSMTClause_def rbind_eq_Inr_iff Let_def dest!: touch_lits_more split: if_splits)
qed

text \<open>
  With the check, the solver must not have refused a clause before the last one: \<open>implied\<close> propagates,
  and nothing is known of the queue after a conflict.
\<close>

lemma feed_goes_on:
  assumes "idle s" "answers_known ps" "\<not> use_rcheck s \<or> (ps \<noteq> [] \<longrightarrow> sat_ok s \<and> (\<forall>s'. offer (butlast ps) s = Inr s' \<longrightarrow> sat_ok s'))"
  shows "\<exists>s'. feed ps s = Inr s' \<and> idle s' \<and> (\<forall>\<alpha>. sat_models s' \<alpha> \<longleftrightarrow> sat_models s \<alpha> \<and> sat \<alpha> (map snd ps))"
  using assms
proof (induction ps arbitrary: s)
  case Nil
  then show ?case
    by (simp add: sat_def)
next
  case (Cons p ps)
  obtain T c where p: "p = (T, c)"
    by (rule prod.exhaust)
  have k: "\<forall>l \<in> set c. knows T l" "answers_known ps"
    using Cons.prems(2) by (simp_all add: answers_known_def p)
  obtain s1 where s1: "addOriginalSMTClause T c s = Inr (sat_ok s1, s1)" "idle s1"
      "\<And>\<alpha>. sat_models s1 \<alpha> \<longleftrightarrow> sat_models s \<alpha> \<and> csat \<alpha> c"
    using addOriginalSMTClause_ok [OF Cons.prems(1) k(1)] Cons.prems(3) by (auto simp: smt_added_def)
  have go: "\<not> use_rcheck s1 \<or> (ps \<noteq> [] \<longrightarrow> sat_ok s1 \<and> (\<forall>s'. offer (butlast ps) s1 = Inr s' \<longrightarrow> sat_ok s'))"
  proof (cases "use_rcheck s")
    case False
    then show ?thesis
      using addOriginalSMTClause_rcheck [OF Cons.prems(1) k(1) _ s1(1)] by simp
  next
    case True
    show ?thesis
    proof (intro disjI2 impI)
      assume ne: "ps \<noteq> []"
      then have o: "offer (butlast (p # ps)) s = (if sat_ok s1 then offer (butlast ps) s1 else Inr s1)"
        by (simp add: p s1(1))
      have a: "\<forall>s'. offer (butlast (p # ps)) s = Inr s' \<longrightarrow> sat_ok s'"
        using Cons.prems(3) True by blast
      then have "sat_ok s1"
        using o by (cases "sat_ok s1") auto
      then show "sat_ok s1 \<and> (\<forall>s'. offer (butlast ps) s1 = Inr s' \<longrightarrow> sat_ok s')"
        using o a by simp
    qed
  qed
  obtain s' where "feed ps s1 = Inr s'" "idle s'" "\<forall>\<alpha>. sat_models s' \<alpha> \<longleftrightarrow> sat_models s1 \<alpha> \<and> sat \<alpha> (map snd ps)"
    using Cons.IH [OF s1(2) k(2) go] by blast
  then show ?case
    using s1(1,3) by (auto simp: p sat_def)
qed

text \<open>Without the check every answer after a refusal is a refusal, so \<open>offer\<close> stops at the last one.\<close>

lemma refused_again:
  assumes "idle s" "\<forall>l \<in> set c. knows T l" "\<not> use_rcheck s" "\<not> sat_ok s"
  shows "\<exists>t. addOriginalSMTClause T c s = Inr (False, t) \<and> \<not> sat_ok t"
proof -
  obtain s1 where s1: "declare_lits T c s = Inr s1" "idle s1"
    using declare_lits_ok [OF assms(1,2)] by blast
  have "\<not> use_rcheck s1" "\<not> sat_ok s1"
    using declare_lits_flags [OF s1(1)] assms(3,4) by (simp_all add: keeps_flags_def)
  then show ?thesis
    using s1 by (simp add: addOriginalSMTClause_def addOriginalClause_core_def idle_def Let_def)
qed

lemma feed_refused:
  "idle s \<Longrightarrow> answers_known ps \<Longrightarrow> \<not> use_rcheck s \<Longrightarrow> \<not> sat_ok s \<Longrightarrow> \<exists>t. feed ps s = Inr t \<and> \<not> sat_ok t"
proof (induction ps arbitrary: s)
  case (Cons p ps)
  obtain T c where p: "p = (T, c)"
    by (rule prod.exhaust)
  have k: "\<forall>l \<in> set c. knows T l" "answers_known ps"
    using Cons.prems(2) by (simp_all add: answers_known_def p)
  obtain t where t: "addOriginalSMTClause T c s = Inr (False, t)" "\<not> sat_ok t"
    using refused_again [OF Cons.prems(1) k(1) Cons.prems(3,4)] by blast
  moreover have "idle t"
    using addOriginalSMTClause_ok [OF Cons.prems(1) k(1)] Cons.prems(3) t(1) by (auto simp: smt_added_def)
  moreover have "\<not> use_rcheck t"
    using addOriginalSMTClause_rcheck [OF Cons.prems(1) k(1) Cons.prems(3) t(1)] .
  ultimately show ?case
    using Cons.IH [OF _ k(2)] by (simp add: p)
qed simp

lemma feed_offer:
  "idle s \<Longrightarrow> answers_known ps \<Longrightarrow> \<not> use_rcheck s \<Longrightarrow>
   \<exists>t u. feed ps s = Inr t \<and> offer ps s = Inr u \<and> sat_ok t = sat_ok u"
proof (induction ps arbitrary: s)
  case (Cons p ps)
  obtain T c where p: "p = (T, c)"
    by (rule prod.exhaust)
  have k: "\<forall>l \<in> set c. knows T l" "answers_known ps"
    using Cons.prems(2) by (simp_all add: answers_known_def p)
  obtain s1 where s1: "addOriginalSMTClause T c s = Inr (sat_ok s1, s1)" "idle s1"
    using addOriginalSMTClause_ok [OF Cons.prems(1) k(1)] Cons.prems(3) by (auto simp: smt_added_def)
  have r: "\<not> use_rcheck s1"
    using addOriginalSMTClause_rcheck [OF Cons.prems(1) k(1) Cons.prems(3) s1(1)] .
  show ?case
  proof (cases "sat_ok s1")
    case True
    then show ?thesis
      using Cons.IH [OF s1(2) k(2) r] s1(1) by (simp add: p)
  next
    case False
    then show ?thesis
      using feed_refused [OF s1(2) k(2) r] s1(1) by (auto simp: p)
  qed
qed simp

section \<open>What the mapper knows\<close>

lemma cinv_knows:
  assumes "cinv S" "lit_ok (var_cnt S) l"
  shows "knows S l"
proof -
  let ?L = "cn_logic S"
  note inv = cinv_linv [OF assms(1)]
  have v: "0 \<le> l" "lit_var l < var_cnt S"
    using assms(2) by (simp_all add: lit_ok_def)
  have m: "map_ok S"
    using assms(1) by (simp add: cinv_def)
  then obtain t where t: "varToTerm S ! lit_var l = Some t" "bterm ?L t" "getVar_of ?L t = Some (lit_var l)"
    using v(2) unfolding map_ok_def by blast
  have "shape_ok ?L (getSymRef ?L t) (targs ?L t)"
    by (rule term_parts(2) [OF inv]) (use t(2) in \<open>simp add: bterm_def\<close>)
  moreover have "sym_EQ ?L \<in> equalities ?L"
    using linv_parts(1) [OF inv] by (simp add: syms_ok_def)
  ultimately have "length (targs ?L t) = 2" if "getSymRef ?L t = sym_EQ ?L"
    using that by (simp add: shape_ok_def)
  then have "isTheoryTerm ?L t = Inr (getSymRef ?L t \<noteq> sym_EQ ?L \<and>
      (hasSortBool ?L t \<and> appearsInUF ?L t \<or> isTheorySymbol ?L (getSymRef ?L t)))"
    by (auto simp: isTheoryTerm_def Let_def)
  then show ?thesis
    using m v t(1,3) by (simp add: knows_def map_ok_def)
qed

lemma sent_known: "cinv S \<Longrightarrow> \<forall>c \<in> set (sent S). \<forall>l \<in> set c. knows S l"
  using cinv_knows by (auto simp: cinv_def clauses_ok_def)

section \<open>Interface\<close>

text \<open>
  What the conversion relies on when the solver answers: \<open>accept\<close> is the answer for the last of a list
  of clauses, \<open>okay\<close> the state of the solver after them; neither is false when the clauses have a
  satisfying assignment.
\<close>

locale clause_sink =
  fixes accept :: "lit list list \<Rightarrow> bool" and okay :: "lit list list \<Rightarrow> bool"
  assumes refusal_sound: "\<not> accept cs \<Longrightarrow> \<not> sat \<sigma> cs"
    and not_okay_sound: "\<not> okay cs \<Longrightarrow> \<not> sat \<sigma> cs"
begin

lemma refused_unsat: "refused accept S \<Longrightarrow> \<not> sat \<sigma> (sent S)"
  using refusal_sound by (auto simp: refused_def)

lemma formula_unsat:
  assumes "linv L" and "\<forall>t < nterms L. getVar_of L t = None" and "propFormulasAppearingInUF L = []"
    and "no_distinct L" and "bterm L f"
    and "initialize accept (Cnfizer_ctor L) = Inr S" and "cnfizeAndGiveToSolver accept okay f 0 S = Inr (l_False, S')"
    and "good_int L I"
  shows "\<not> truth L f I"
proof
  assume tr: "truth L f I"
  obtain T where "initialize accept (Cnfizer_ctor L) = Inr T" "cinv T" "consts_fixed T" "same_terms L (cn_logic T)"
      "frame_ready 0 T" "\<forall>\<tau>. lawful L \<tau> \<longrightarrow> sat (assignment_of T \<tau>) (sent T)"
    using initial_state [OF assms(1-3)] by metis
  then have S: "cinv S" "same_terms L (cn_logic S)" "frame_ready 0 S" "\<forall>\<tau>. lawful L \<tau> \<longrightarrow> sat (assignment_of S \<tau>) (sent S)"
    using assms(6) by simp_all
  note st = S(2)
  let ?\<alpha> = "\<lambda>t. truth L t I"
  have c: "?\<alpha> (term_TRUE L)" "\<not> ?\<alpha> (term_FALSE L)"
    using denotes_TRUE [OF assms(1)] denotes_FALSE [OF assms(1)] assms(8) by (auto simp: denotes_def)
  have nd: "no_distinct (cn_logic S)" and f: "bterm (cn_logic S) f"
    using assms(4,5) same_terms_no_distinct [OF st] same_terms_bterm [OF st] by simp_all
  have "bval (cn_logic S) ?\<alpha> = bval L ?\<alpha>"
    by (rule ext) (rule same_terms_bval [OF st])
  then have old: "sat (assignment_of S (bval (cn_logic S) ?\<alpha>)) (sent S)"
    using S(4) bval_lawful(1) [OF assms(1) c] by simp
  have "bval (cn_logic S) ?\<alpha> f"
    using bval_eval [OF assms(1,4,8,5)] tr by (simp add: same_terms_bval [OF st])
  then have "sat (assignment_of S' (bval (cn_logic S') ?\<alpha>)) (sent S')"
    using cnfize_extends [OF S(1) nd f S(3) assms(7), of ?\<alpha>] c old by (simp add: same_terms_frame [OF st])
  moreover have "\<not> okay (sent S) \<or> refused accept S'"
    using cnfize_result [OF S(1) nd f S(3), of accept okay] assms(7) by auto
  ultimately show False
    using old not_okay_sound refused_unsat by blast
qed

end

lemma solver_accepts_sound:
  assumes "\<not> solver_accepts T simp rcheck ph th cs"
  shows "\<not> sat \<sigma> cs"
proof -
  obtain s where "offer (map (Pair T) cs) (SimpSMTSolver_ctor simp rcheck ph th) = Inr s" "\<not> sat_ok s"
    using assms by (auto simp: solver_accepts_def split: sum.splits)
  then have "\<not> sat \<sigma> (map snd (map (Pair T) cs))"
    using offer_models simp_ctor_idle by blast
  then show ?thesis
    by (simp add: comp_def)
qed

interpretation simp_sink: clause_sink "solver_accepts T simp rcheck ph th" "solver_accepts T simp rcheck ph th" for T simp rcheck ph th
  by unfold_locales (rule solver_accepts_sound, assumption)+

section \<open>Unit clauses\<close>

text \<open>On clauses of at most one literal the answers are also complete: an accepted run has a model.\<close>

lemma trail_model:
  assumes "idle s" "sat_ok s" "clauses s = []"
  shows "sat_models s (\<lambda>v. mkLit v False \<in> set (trail s))"
proof -
  note i = idle_sat_inv [OF assms(1,2)]
  note t = sat_invD(1) [OF i(1)]
  have "lsat (\<lambda>v. mkLit v False \<in> set (trail s)) q" if q: "q \<in> set (trail s)" for q
  proof -
    obtain v b where v: "q = mkLit v b"
      using trail_inv_ok [OF t q] by (rule lit_ok_cases)
    show ?thesis
      using q trail_not [OF t q] by (cases b) (simp_all add: v)
  qed
  moreover have "level0 s = trail s"
    using i(2) by (simp add: level0_def decisionLevel_def)
  ultimately show ?thesis
    using assms by (simp add: sat_models_def)
qed

lemma units_stored:
  assumes "offer (map (Pair T) cs) s = Inr s'" "idle s" "sat_ok s" "clauses s = []" "\<forall>c \<in> set cs. length c \<le> 1" "sat_ok s'"
  shows "clauses s' = []"
  using assms
proof (induction cs arbitrary: s)
  case (Cons c cs)
  have run: "offer ((T, c) # map (Pair T) cs) s = Inr s'"
    using Cons.prems(1) by simp
  obtain s1 where s1: "addOriginalSMTClause T c s = Inr (sat_ok s1, s1)" "idle s1"
      "clauses s1 = [] \<or> (\<exists>cr. clauses s1 = [cr] \<and> set (clause_of s1 cr) \<subseteq> set c)"
    using addOriginalSMTClause_ok [OF Cons.prems(2) offer_knows [OF run]] Cons.prems(3,4)
    by (auto simp: smt_added_def)
  have ok: "sat_ok s1"
    using run Cons.prems(6) s1(1) by (cases "sat_ok s1") simp_all
  have "clauses s1 = []"
  proof (rule ccontr)
    assume "clauses s1 \<noteq> []"
    then obtain cr where "clauses s1 = [cr]" and sub: "set (clause_of s1 cr) \<subseteq> set c"
      using s1(3) by blast
    then have cr: "cr \<in> attached s1"
      by (simp add: attached_def)
    have g: "good_clause (Sat_Solver.nVars s1) (clause_of s1 cr)"
      using db_invD(1) [OF sat_invD(2) [OF idle_sat_inv(1) [OF s1(2) ok]] cr] .
    have "card (set (clause_of s1 cr)) = length (clause_of s1 cr)"
      using g by (simp add: good_clause_def distinct_card)
    moreover have "card (set (clause_of s1 cr)) \<le> card (set c)" "card (set c) \<le> length c"
      using sub by (simp_all add: card_mono card_length)
    ultimately show False
      using g Cons.prems(5) by (simp add: good_clause_def)
  qed
  then show ?case
    using Cons.IH [OF _ s1(2) ok] run Cons.prems(5,6) s1(1) ok by simp
qed simp

lemma units_refused:
  assumes "\<forall>c \<in> set cs. length c \<le> 1 \<and> (\<forall>l \<in> set c. knows T l)" "\<And>\<sigma>. \<not> sat \<sigma> cs"
  shows "\<not> solver_accepts T simp rcheck ph th cs"
proof
  let ?s = "SimpSMTSolver_ctor simp rcheck ph th"
  assume a: "solver_accepts T simp rcheck ph th cs"
  have "answers_known (map (Pair T) cs)"
    using assms(1) by (auto simp: answers_known_def)
  then obtain s' where s': "offer (map (Pair T) cs) ?s = Inr s'"
    using offer_total [OF simp_ctor_idle(1,3)] by blast
  then have ok: "sat_ok s'"
    using a by (simp add: solver_accepts_def)
  have m: "idle s'" "\<forall>\<alpha>. sat_models s' \<alpha> \<longrightarrow> sat \<alpha> cs"
    using offer_models [OF s' simp_ctor_idle(1,3)] ok by (simp_all add: comp_def)
  have "clauses s' = []"
    by (rule units_stored [OF s' simp_ctor_idle(1,3,4) _ ok]) (use assms(1) in blast)
  then show False
    using trail_model [of s'] m ok assms(2) by blast
qed

section \<open>Properties\<close>

text \<open>
  C23. The solver takes what the conversion produces. Give it clauses one after the other, each with the
  mapper as it is then, which satisfies its invariant and has the variables of the clause, and go on after
  a clause that is refused, as the conversion does: \<open>SimpSMTSolver\<close> fails no assertion and comes
  to rest in a state that satisfies its invariant; its models are exactly the assignments that satisfy the
  clauses, so that a refusal means that there are none. With the check for implied clauses switched on this is
  stated for runs that refuse no clause before the last.
\<close>

theorem solver_takes_clauses:
  assumes "\<forall>(T, c) \<in> set ps. cinv T \<and> (\<forall>l \<in> set c. lit_ok (var_cnt T) l)"
    and "rcheck \<longrightarrow> (\<forall>s. offer (butlast ps) (SimpSMTSolver_ctor simp rcheck ph th) = Inr s \<longrightarrow> sat_ok s)"
  shows "\<exists>s. feed ps (SimpSMTSolver_ctor simp rcheck ph th) = Inr s \<and> idle s \<and>
    (\<forall>\<alpha>. sat_models s \<alpha> \<longleftrightarrow> sat \<alpha> (map snd ps)) \<and>
    (\<not> sat_ok s \<longrightarrow> (\<forall>\<alpha>. \<not> sat \<alpha> (map snd ps)))"
proof -
  let ?s = "SimpSMTSolver_ctor simp rcheck ph th"
  have k: "answers_known ps"
    using assms(1) cinv_knows by (fastforce simp: answers_known_def)
  have "use_rcheck ?s = rcheck"
    by (simp add: SimpSMTSolver_ctor_def sat_solver.defs)
  then have go: "\<not> use_rcheck ?s \<or> (ps \<noteq> [] \<longrightarrow> sat_ok ?s \<and> (\<forall>s'. offer (butlast ps) ?s = Inr s' \<longrightarrow> sat_ok s'))"
    using assms(2) simp_ctor_idle(3) by (cases rcheck) auto
  obtain s where s: "feed ps ?s = Inr s" "idle s" "\<forall>\<alpha>. sat_models s \<alpha> \<longleftrightarrow> sat_models ?s \<alpha> \<and> sat \<alpha> (map snd ps)"
    using feed_goes_on [OF simp_ctor_idle(1) k go] by blast
  then show ?thesis
    using simp_ctor_idle(2) by (intro exI [of _ s]) (auto simp: sat_models_def)
qed

theorem solver_takes_clauses_witness:
  "\<exists>s. feed (map (Pair (cnf_start (start 0))) (sent (cnf_start (start 0)))) (SimpSMTSolver_ctor True False 0 (\<lambda>_. False)) = Inr s \<and>
    idle s \<and> (\<forall>\<alpha>. sat_models s \<alpha> \<longleftrightarrow> sat \<alpha> (sent (cnf_start (start 0))))"
proof -
  have "\<forall>(T, c) \<in> set (map (Pair (cnf_start (start 0))) (sent (cnf_start (start 0)))). cinv T \<and> (\<forall>l \<in> set c. lit_ok (var_cnt T) l)"
    using cnf_start_0(3) by (auto simp: cinv_def clauses_ok_def)
  from solver_takes_clauses [OF this, where rcheck = False and simp = True and ph = 0 and th = "\<lambda>_. False"] show ?thesis
    by (auto simp: comp_def)
qed

text \<open>
  C22. Take a logic without an application of \<open>distinct\<close> to Booleans, in which no term has a
  variable yet and no formula is an argument of an uninterpreted function. When the conversion, with
  \<open>SimpSMTSolver\<close> as its solver, returns \<open>l_False\<close> for the first formula, in the bottom frame, then the
  formula is false in every interpretation that respects the sorts and keeps the constants apart. With
  Boolean \<open>distinct\<close> this does not hold: see \<open>cnfizeDistinct\<close>.
\<close>

theorem cnfize_unsat:
  assumes "linv L" and "\<forall>t < nterms L. getVar_of L t = None" and "propFormulasAppearingInUF L = []"
    and "no_distinct L" and "bterm L f"
    and "initialize (solver_accepts T simp rcheck ph th) (Cnfizer_ctor L) = Inr S"
    and "cnfizeAndGiveToSolver (solver_accepts T simp rcheck ph th) (solver_accepts T simp rcheck ph th) f 0 S = Inr (l_False, S')"
    and "good_int L I"
  shows "\<not> truth L f I"
  using assms by (rule simp_sink.formula_unsat)

text \<open>A run on the constant false.\<close>

lemma false_refused:
  assumes S: "cinv S" "frames_ok S" "length (frame_terms S) = 1" "okay (sent S)"
    and w: "getVar_of (cn_logic S) (term_FALSE (cn_logic S)) = Some w" and no: "\<not> A (sent S @ [[mkLit w False]])"
  shows "\<exists>S'. cnfizeAndGiveToSolver A okay (term_FALSE (cn_logic S)) 0 S = Inr (l_False, S')"
proof -
  let ?L = "cn_logic S" and ?f = "term_FALSE (cn_logic S)"
  note inv = cinv_linv [OF S(1)]
  define S1 where "S1 = S\<lparr>frame_term := term_TRUE ?L\<rparr>"
  have set: "setFrameTerm 0 S = Inr S1"
    using S(2,3) by (simp add: setFrameTerm_def S1_def frames_ok_def Let_def)
  note c = consts_bterm [OF inv]
  have lit: "litp ?L ?f"
    using linv_parts(3) [OF inv] term_parts(2) [OF inv, of ?f] syms_okD(14) [OF linv_parts(1) [OF inv]] c(2,4)
    by (simp add: litp_def terms_ok_def shape_ok_def bterm_def)
  have na: "\<not> isAnd ?L ?f"
    using litp_leaf(1) [OF inv c(2) lit, of "sym_AND ?L"] by (simp add: isAnd_def)
  have top: "retrieveTopLevelFormulae ?L ?f = Some [?f]"
    unfolding retrieveTopLevelFormulae_def using na
    by (subst topLevel_loop.simps) (simp, subst topLevel_loop.simps, simp)
  have g: "getOrCreateLit S1 ?f = Inr (mkLit w False, S1)"
    using getTerm_linv [OF inv c(2)] c(4) w by (simp add: getOrCreateLit_def S1_def)
  have "\<exists>S2. giveToSolver_loop A [?f] S1 = Some (Inr (False, S2))"
    using g isLit_linv [OF inv c(2)] lit no
    by (subst giveToSolver_loop.simps) (simp add: S1_def addClause_def)
  moreover have "checkCnf ?L ?f = Some True"
    using isLit_linv [OF inv c(2)] lit by (simp add: checkCnf_def checkConj_def)
  ultimately obtain S2 where "top_loop A [?f] True S1 = Inr (False, S2)"
    by (auto simp: cnfize_top_def giveToSolver_def S1_def)
  then show ?thesis
    using set top S(4) by (simp add: cnfizeAndGiveToSolver_def S1_def)
qed

text \<open>The answers of the solver do not matter to \<open>initialize\<close>.\<close>

lemma addClause_answers:
  "rbind (addClause A c S) (\<lambda>r. k (snd r)) = rbind (addClause B c S) (\<lambda>r. k (snd r))"
  by (cases "if frame_term S \<noteq> term_TRUE (cn_logic S)
    then rbind (getOrCreateLit S (frame_term S)) (\<lambda>(l, S1). Inr (c @ [l], setFrozen (lit_var l) S1)) else Inr (c, S)")
    (simp_all add: addClause_def case_prod_beta)

lemma initialize_answers: "initialize A S = initialize B S"
  unfolding initialize_def case_prod_beta addClause_answers [of A _ _ _ B]
  by (subst addClause_answers [of A _ _ "\<lambda>S. rbind (getOrCreateLit S (term_FALSE (cn_logic S))) (k S)" B for k]) (rule refl)

theorem cnfize_unsat_witness: "\<not> truth (start 0) 1 (default_interp (start 0))"
proof -
  let ?T = "cnf_start (start 0)"
  let ?A = "solver_accepts ?T False False 0 (\<lambda>_. False)"
  have S: "initialize ?A (Cnfizer_ctor (start 0)) = Inr ?T"
    using cnf_start_0(1) initialize_answers by metis
  obtain w where w: "getVar_of (cn_logic ?T) (term_FALSE (cn_logic ?T)) = Some w" "[mkLit w True] \<in> set (sent ?T)"
    using cnf_start_0(2) by (auto simp: consts_fixed_def)
  have model: "\<exists>\<sigma>. sat \<sigma> (sent ?T)"
    using cnf_start_0(6) valuation_0(1) by blast
  then have "?A (sent ?T)"
    using solver_accepts_sound by blast
  moreover have "\<not> ?A (sent ?T @ [[mkLit w False]])"
  proof (rule units_refused)
    have "w < var_cnt ?T"
      using cnf_start_0(3) w(2) by (auto simp: cinv_def clauses_ok_def dest!: bspec [of _ _ "[mkLit w True]"])
    then show "\<forall>c \<in> set (sent ?T @ [[mkLit w False]]). length c \<le> 1 \<and> (\<forall>l \<in> set c. knows ?T l)"
      using sent_known [OF cnf_start_0(3)] cnf_start_0(7) cinv_knows [OF cnf_start_0(3)] by simp
    show "\<not> sat \<sigma> (sent ?T @ [[mkLit w False]])" for \<sigma>
    proof
      assume "sat \<sigma> (sent ?T @ [[mkLit w False]])"
      then have "csat \<sigma> [mkLit w True]" "csat \<sigma> [mkLit w False]"
        using w(2) by (simp_all add: sat_def)
      then show False
        by (simp add: csat_def)
    qed
  qed
  moreover have "frames_ok ?T" "length (frame_terms ?T) = 1"
    using cnf_start_0(5,8) by (simp_all add: frame_ready_def)
  ultimately obtain S' where "cnfizeAndGiveToSolver ?A ?A 1 0 ?T = Inr (l_False, S')"
    using false_refused [OF cnf_start_0(3), of ?A w ?A] w(1) constants_0(2) by auto
  moreover have "good_int (start 0) (default_interp (start 0))"
    by (rule good_default [OF start_linv]) (auto simp: isConstant_sym_def less_2_cases_iff)
  ultimately show ?thesis
    using cnfize_unsat [OF start_linv start_no_distinct(2,3,1) start_bterm(2) S, of S'] by simp
qed

end
