(* ===== verification/Sat_Solve.thy ===== *)
theory Sat_Solve
  imports Sat_Ready
begin

text \<open>
  The entry point \<open>solve_\<close> of \<open>src/src/smtsolvers/CoreSMTSolver.C\<close>: the variables that the theory
  is told about, the restarts with their limits, and the model. Splitting of the search space, limits on
  resources and the printing of the problem are left out. The flags that stop the search are an argument,
  their value before each restart; so are the product with the real number \<open>restart_inc\<close>, rounded to an
  integer, and the limit on learnt clauses in each restart.
\<close>

record solve_config = search_config +
  use_luby :: bool
  restart_first :: int
  dump_only :: bool

record luby_state =
  luby_i :: nat
  luby_k :: nat
  luby_previous :: "nat list"

definition luby_init :: luby_state where
  "luby_init = \<lparr>luby_i = 0, luby_k = 1, luby_previous = []\<rparr>"

section \<open>Limits on the conflicts\<close>

text \<open>
  The products and the counter are unsigned words of 32 bits. The shift of the integer 1 is only defined
  for up to 30 places; beyond, the model stops as for a failed assertion.
\<close>

definition shifted :: "nat \<Rightarrow> nat result" where
  "shifted k = require (k < 31) (Inr (2 ^ k))"

definition read_luby :: "nat list \<Rightarrow> nat \<Rightarrow> nat result" where
  "read_luby xs i = (if i < length xs then Inr (xs ! i) else Inl Uninitialised_Read)"

definition restartNextLimit :: "solve_config \<Rightarrow> (int \<Rightarrow> int) \<Rightarrow> int \<Rightarrow> luby_state \<Rightarrow> (int \<times> luby_state) result" where
  "restartNextLimit cfg inc nof_conflicts r =
     (if use_luby cfg then
        let i = (luby_i r + 1) mod 2 ^ 32 in
        rbind (shifted (luby_k r)) (\<lambda>top.
        rbind (if i = top - 1 then Inr (2 ^ (luby_k r - 1), luby_k r + 1)
               else rbind (shifted (luby_k r - 1)) (\<lambda>half. rbind (read_luby (luby_previous r) (i - half)) (\<lambda>x.
                      Inr (x, luby_k r))))
          (\<lambda>(x, k). Inr (s32 ((int x * restart_first cfg) mod 2 ^ 32),
             \<lparr>luby_i = i, luby_k = k, luby_previous = luby_previous r @ [x]\<rparr>)))
      else Inr (inc nof_conflicts, r))"

section \<open>Variables for the theory\<close>

text \<open>\<open>known\<close> and \<open>atom\<close> are the answers of the term mapper and of the logic for the term of a variable.\<close>

fun declare_vars :: "(nat \<Rightarrow> bool) \<Rightarrow> (nat \<Rightarrow> bool) \<Rightarrow> lit list \<Rightarrow> bool list \<Rightarrow> nat list \<Rightarrow> (bool list \<times> nat list) result" where
  "declare_vars known atom [] sn ds = Inr (sn, ds)"
| "declare_vars known atom (l # ls) sn ds = (let v = lit_var l in
     if \<not> sn ! v then require (known v) (declare_vars known atom ls (sn[v := True]) (if atom v then ds @ [v] else ds))
     else declare_vars known atom ls sn ds)"

fun declare_clauses ::
  "(nat \<Rightarrow> bool) \<Rightarrow> (nat \<Rightarrow> bool) \<Rightarrow> 'a sat_solver_scheme \<Rightarrow> nat list \<Rightarrow> bool list \<Rightarrow> nat list \<Rightarrow> (bool list \<times> nat list) result" where
  "declare_clauses known atom s [] sn ds = Inr (sn, ds)"
| "declare_clauses known atom s (cr # crs) sn ds = rbind (clause_at s cr) (\<lambda>c.
     rbind (declare_vars known atom (lits c) sn ds) (\<lambda>(sn1, ds1). declare_clauses known atom s crs sn1 ds1))"

text \<open>The variables that are declared, in order, and the state.\<close>

definition declareVarsToTheories ::
  "(nat \<Rightarrow> bool) \<Rightarrow> (nat \<Rightarrow> bool) \<Rightarrow> 'a sat_solver_scheme \<Rightarrow> (nat list \<times> 'a sat_solver_scheme) result" where
  "declareVarsToTheories known atom s =
     rbind (declare_vars (\<lambda>_. True) atom (trail s) (map (\<lambda>_. False) (var_seen s)) []) (\<lambda>(sn, ds).
     rbind (declare_clauses known atom s (clauses s) sn ds) (\<lambda>(sn1, ds1). Inr (ds1, s\<lparr>var_seen := sn1\<rparr>)))"

section \<open>Restarts\<close>

text \<open>\<open>k\<close> counts the restarts; the result has the last of these numbers.\<close>

partial_function (option) restart_loop ::
  "solve_config \<Rightarrow> (bool \<Rightarrow> bool \<Rightarrow> 'a sat_solver_scheme \<Rightarrow> nat \<times> 'a sat_solver_scheme) \<Rightarrow> (lit \<Rightarrow> lit list) \<Rightarrow> (int \<Rightarrow> int) \<Rightarrow>
    (nat \<Rightarrow> int) \<Rightarrow> (nat \<Rightarrow> nat \<Rightarrow> bool \<Rightarrow> heuristics) \<Rightarrow> (nat \<Rightarrow> nat \<Rightarrow> bool \<Rightarrow> lit list \<Rightarrow> theory_answer) \<Rightarrow> (nat \<Rightarrow> bool) \<Rightarrow>
    nat \<Rightarrow> int \<Rightarrow> lbool \<Rightarrow> lit list \<Rightarrow> lit \<Rightarrow> luby_state \<Rightarrow> 'a sat_solver_scheme \<Rightarrow>
    (nat \<times> lbool \<times> lit list \<times> luby_state \<times> 'a sat_solver_scheme) result option" where
  "restart_loop cfg nv R inc nofl hs th stop k nofc status cfl forced r s =
     (if \<not> lbool_eq status l_Undef \<or> stop k then Some (Inr (k, status, cfl, r, s))
      else case search (search_config.truncate cfg) nv R (hs k) (th k) nofc (nofl k) forced s of
          Inl e \<Rightarrow> Some (Inl e)
        | Inr (b, c, forced1, s1) \<Rightarrow> (case restartNextLimit cfg inc nofc r of
              Inl e \<Rightarrow> Some (Inl e)
            | Inr (nofc1, r1) \<Rightarrow> restart_loop cfg nv R inc nofl hs th stop (k + 1) nofc1 b c forced1 r1 s1))"

text \<open>The answer, the failed assumptions, the model, and the states.\<close>

definition solve_core ::
  "solve_config \<Rightarrow> (bool \<Rightarrow> bool \<Rightarrow> 'a sat_solver_scheme \<Rightarrow> nat \<times> 'a sat_solver_scheme) \<Rightarrow> (lit \<Rightarrow> lit list) \<Rightarrow> (int \<Rightarrow> int) \<Rightarrow>
    (nat \<Rightarrow> int) \<Rightarrow> (nat \<Rightarrow> nat \<Rightarrow> bool \<Rightarrow> heuristics) \<Rightarrow> (nat \<Rightarrow> nat \<Rightarrow> bool \<Rightarrow> lit list \<Rightarrow> theory_answer) \<Rightarrow> (nat \<Rightarrow> bool) \<Rightarrow>
    (nat \<Rightarrow> bool) \<Rightarrow> (nat \<Rightarrow> bool) \<Rightarrow> lit \<Rightarrow> luby_state \<Rightarrow> 'a sat_solver_scheme \<Rightarrow>
    (lbool \<times> lit list \<times> lbool list \<times> luby_state \<times> 'a sat_solver_scheme) result" where
  "solve_core cfg nv R inc nofl hs th stop known atom forced r s =
     rbind (declareVarsToTheories known atom s) (\<lambda>(ds, s1).
     if dump_only cfg then Inr (l_Undef, [], [], r, s1)
     else if \<not> sat_ok s1 then Inr (l_False, [], [], r, s1)
     else rbind (runs (restart_loop cfg nv R inc nofl hs th stop 0 (restart_first cfg) l_Undef [] forced r s1))
       (\<lambda>(k, status, cfl, r1, s2).
          if lbool_eq status l_True then Inr (status, cfl, map (val_var s2) [0 ..< nVars s2], r1, s2)
          else require (stop k \<or> lbool_eq status l_False) (Inr (status, cfl, [], r1, s2))))"

end
