(* ===== verification/Sat_Restarts.thy ===== *)
theory Sat_Restarts
  imports Sat_Solve
begin

text \<open>
  The limits of the restarts are the Luby sequence, and \<open>solve_\<close> answers what is right for the
  clauses and the theory.
\<close>

section \<open>The Luby sequence\<close>

text \<open>The finite subsequences 1, 1 1 2, 1 1 2 1 1 2 4, and so on.\<close>

fun luby_block :: "nat \<Rightarrow> nat list" where
  "luby_block 0 = []"
| "luby_block (Suc k) = luby_block k @ luby_block k @ [2 ^ k]"

lemma length_luby_block: "Suc (length (luby_block k)) = 2 ^ k"
  by (induction k) simp_all

lemma luby_block_bound: "i < length (luby_block k) \<Longrightarrow> luby_block k ! i \<le> Suc i"
proof (induction k arbitrary: i)
  case (Suc k)
  let ?n = "length (luby_block k)"
  have n: "(2::nat) ^ k = Suc ?n"
    by (simp add: length_luby_block)
  consider "i < ?n" | j where "i = ?n + j" "j < ?n" | "i = ?n + ?n"
  proof -
    have "i < ?n \<or> (\<exists>j. i = ?n + j \<and> j < ?n) \<or> i = ?n + ?n"
      using Suc.prems by simp presburger
    then show thesis
      using that by blast
  qed
  then show ?case
  proof cases
    case 1
    then show ?thesis
      using Suc.IH by (simp add: nth_append)
  next
    case 2
    then show ?thesis
      using Suc.IH [of j] by (simp add: nth_append)
  next
    case 3
    then show ?thesis
      using n by (simp add: nth_append)
  qed
qed simp

lemma luby_block_take: "k \<le> m \<Longrightarrow> n < 2 ^ k \<Longrightarrow> take n (luby_block m) = take n (luby_block k)"
proof (induction m)
  case (Suc m)
  show ?case
  proof (cases "k = Suc m")
    case False
    have "(2::nat) ^ k \<le> 2 ^ m"
      using Suc.prems(1) False by (intro power_increasing) simp_all
    then have "n \<le> length (luby_block m)"
      using Suc.prems(2) length_luby_block [of m] by linarith
    then show ?thesis
      using Suc False by simp
  qed simp
qed simp

text \<open>The state after \<open>n\<close> calls.\<close>

definition luby_at :: "nat \<Rightarrow> luby_state \<Rightarrow> bool" where
  "luby_at n r \<longleftrightarrow> luby_i r = n \<and> 1 \<le> luby_k r \<and> 2 ^ (luby_k r - 1) \<le> n + 1 \<and> n + 1 < 2 ^ luby_k r \<and>
     luby_previous r = take n (luby_block (luby_k r))"

lemma luby_at_init: "luby_at 0 luby_init"
  by (simp add: luby_at_def luby_init_def)

lemma luby_step:
  assumes "luby_at n r" "use_luby cfg" "n + 1 < 2 ^ 30"
  defines "x \<equiv> luby_block (luby_k r) ! n"
  shows "\<exists>r'. restartNextLimit cfg inc nofc r = Inr (s32 ((int x * restart_first cfg) mod 2 ^ 32), r') \<and> luby_at (n + 1) r' \<and>
    luby_previous r' = luby_previous r @ [x]" "x \<le> n + 1"
proof -
  note l = assms(1) [unfolded luby_at_def]
  obtain k where k: "luby_k r = Suc k"
    using l by (cases "luby_k r") auto
  have len: "Suc (length (luby_block k)) = 2 ^ k" "length (luby_block (Suc k)) = 2 * 2 ^ k - 1"
    using length_luby_block [of k] by simp_all
  have pos: "0 < (2::nat) ^ k"
    by simp
  have "(2::nat) ^ k < 2 ^ 30"
    using l k assms(3) by simp
  then have k30: "k < 30"
    by (rule power_less_imp_less_exp [rotated]) simp
  have n: "n < length (luby_block (Suc k))" "2 ^ k \<le> n + 1" "n + 1 < 2 * 2 ^ k"
    using l k len by auto
  show "x \<le> n + 1"
    using luby_block_bound [of n "Suc k"] n(1) by (simp add: x_def k)
  have i: "(luby_i r + 1) mod 2 ^ 32 = n + 1"
    using l assms(3) by simp
  have prev: "luby_previous r = take n (luby_block (Suc k))"
    using l k by simp
  have next_prev: "take n (luby_block (Suc k)) @ [x] = take (n + 1) (luby_block (Suc k))"
    using take_Suc_conv_app_nth [OF n(1)] by (simp only: x_def k Suc_eq_plus1)
  show "\<exists>r'. restartNextLimit cfg inc nofc r = Inr (s32 ((int x * restart_first cfg) mod 2 ^ 32), r') \<and> luby_at (n + 1) r' \<and>
    luby_previous r' = luby_previous r @ [x]"
  proof (cases "n + 1 = 2 * 2 ^ k - 1")
    case True
    then have "n = length (luby_block k) + length (luby_block k)"
      using len by simp
    then have x: "x = 2 ^ k"
      by (simp add: x_def k nth_append)
    let ?r = "\<lparr>luby_i = n + 1, luby_k = Suc (Suc k), luby_previous = luby_previous r @ [x]\<rparr>"
    have "restartNextLimit cfg inc nofc r = Inr (s32 ((int x * restart_first cfg) mod 2 ^ 32), ?r)"
      unfolding restartNextLimit_def Let_def i using assms(2) k k30 True x by (simp add: shifted_def)
    moreover have "take (n + 1) (luby_block (Suc (Suc k))) = take (n + 1) (luby_block (Suc k))"
      using n(3) by (intro luby_block_take) simp_all
    then have "luby_at (n + 1) ?r"
      using n True next_prev pos unfolding luby_at_def prev by simp
    ultimately show ?thesis
      by (intro exI [of _ ?r]) simp
  next
    case False
    define j where "j = n + 1 - 2 ^ k"
    have j: "n = length (luby_block k) + j" "j < length (luby_block k)" "j < n"
      using n False len(1) by (auto simp: j_def)
    have x: "x = luby_block k ! j"
      using j by (simp add: x_def k nth_append)
    have "length (luby_previous r) = n"
      using n(1) prev by simp
    moreover have "luby_previous r ! j = x"
      using j x unfolding prev by (simp add: nth_append)
    ultimately have rd: "read_luby (luby_previous r) j = Inr x"
      using j(3) by (simp add: read_luby_def)
    let ?r = "\<lparr>luby_i = n + 1, luby_k = Suc k, luby_previous = luby_previous r @ [x]\<rparr>"
    have "restartNextLimit cfg inc nofc r = Inr (s32 ((int x * restart_first cfg) mod 2 ^ 32), ?r)"
      unfolding restartNextLimit_def Let_def i using assms(2) k k30 False rd by (simp add: shifted_def j_def)
    moreover have "luby_at (n + 1) ?r"
      using n False next_prev unfolding luby_at_def prev by simp
    ultimately show ?thesis
      by (intro exI [of _ ?r]) simp
  qed
qed

text \<open>The limits of a number of restarts.\<close>

fun next_limits :: "solve_config \<Rightarrow> (int \<Rightarrow> int) \<Rightarrow> nat \<Rightarrow> int \<Rightarrow> luby_state \<Rightarrow> int list result" where
  "next_limits cfg inc 0 nofc r = Inr []"
| "next_limits cfg inc (Suc n) nofc r = rbind (restartNextLimit cfg inc nofc r) (\<lambda>(x, r1).
     rbind (next_limits cfg inc n x r1) (\<lambda>xs. Inr (x # xs)))"

lemma limit_in_range:
  assumes "x \<le> n" "0 \<le> f" "int n * f < 2 ^ 31"
  shows "s32 ((int x * f) mod 2 ^ 32) = int x * f"
proof -
  have "int x * f \<le> int n * f"
    using assms(1,2) by (simp add: mult_right_mono)
  then have "int x * f < 2 ^ 31" "0 \<le> int x * f"
    using assms(2,3) by simp_all
  then show ?thesis
    by (simp add: s32_id in_s32_def)
qed

lemma next_limits_ok:
  assumes "luby_at n r" "use_luby cfg" "n + m < 2 ^ k" "k \<le> 30" "0 \<le> restart_first cfg" "int (n + m) * restart_first cfg < 2 ^ 31"
  shows "next_limits cfg inc m nofc r = Inr (map (\<lambda>x. int x * restart_first cfg) (drop n (take (n + m) (luby_block k))))"
  using assms(1,3,6)
proof (induction m arbitrary: n nofc r)
  case (Suc m)
  define x where "x = luby_block (luby_k r) ! n"
  have "(2::nat) ^ k \<le> 2 ^ 30"
    using assms(4) by (intro power_increasing) simp_all
  then have small: "n + 1 < 2 ^ 30"
    using Suc.prems(2) by linarith
  obtain r' where r': "restartNextLimit cfg inc nofc r = Inr (s32 ((int x * restart_first cfg) mod 2 ^ 32), r')" "luby_at (n + 1) r'" "x \<le> n + 1"
    using luby_step [OF Suc.prems(1) assms(2) small, folded x_def] by blast
  have lim: "s32 ((int x * restart_first cfg) mod 2 ^ 32) = int x * restart_first cfg"
    using r'(3) assms(5) Suc.prems(3) by (intro limit_in_range [of x "n + Suc m"]) simp_all
  have IH: "next_limits cfg inc m (int x * restart_first cfg) r' =
      Inr (map (\<lambda>x. int x * restart_first cfg) (drop (n + 1) (take (n + 1 + m) (luby_block k))))"
    using Suc.prems by (intro Suc.IH [OF r'(2)]) simp_all
  have len: "n + Suc m \<le> length (luby_block k)"
    using length_luby_block [of k] Suc.prems(2) by linarith
  have "x = luby_block k ! n"
  proof -
    have lk: "n + 1 < 2 ^ luby_k r"
      using Suc.prems(1) by (simp add: luby_at_def)
    have "take (n + 1) (luby_block (luby_k r)) = take (n + 1) (luby_block k)"
    proof (cases "luby_k r \<le> k")
      case True
      then show ?thesis
        using luby_block_take [OF True lk] by simp
    next
      case False
      then show ?thesis
        using Suc.prems(2) by (intro luby_block_take) simp_all
    qed
    then have "take (n + 1) (luby_block (luby_k r)) ! n = take (n + 1) (luby_block k) ! n"
      by simp
    then show ?thesis
      by (simp add: x_def)
  qed
  then have "drop n (take (n + Suc m) (luby_block k)) = x # drop (n + 1) (take (n + 1 + m) (luby_block k))"
    using len by (simp add: Cons_nth_drop_Suc [symmetric])
  then show ?case
    using r'(1) IH lim by simp
qed simp

section \<open>Restarts\<close>

text \<open>The limits stay in range up to restart \<open>m\<close>.\<close>

definition limits_ok :: "solve_config \<Rightarrow> (int \<Rightarrow> int) \<Rightarrow> nat \<Rightarrow> bool" where
  "limits_ok cfg inc m \<longleftrightarrow> 0 \<le> restart_first cfg \<and>
     (if use_luby cfg then m < 2 ^ 30 \<and> int m * restart_first cfg < 2 ^ 31 else (\<forall>x. 0 \<le> x \<longrightarrow> 0 \<le> inc x))"

lemma next_limit:
  assumes "limits_ok cfg inc m" "k < m" "use_luby cfg \<longrightarrow> luby_at k r" "0 \<le> nofc"
  shows "\<exists>x r'. restartNextLimit cfg inc nofc r = Inr (x, r') \<and> 0 \<le> x \<and> (use_luby cfg \<longrightarrow> luby_at (k + 1) r')"
proof (cases "use_luby cfg")
  case True
  have "k + 1 < 2 ^ 30"
    using assms(1,2) True by (simp add: limits_ok_def)
  then obtain r' where r': "restartNextLimit cfg inc nofc r =
        Inr (s32 ((int (luby_block (luby_k r) ! k) * restart_first cfg) mod 2 ^ 32), r')" "luby_at (k + 1) r'"
      "luby_block (luby_k r) ! k \<le> k + 1"
    using luby_step [of k r cfg] assms(3) True by blast
  have "luby_block (luby_k r) ! k \<le> m"
    using r'(3) assms(2) by simp
  then have "s32 ((int (luby_block (luby_k r) ! k) * restart_first cfg) mod 2 ^ 32) = int (luby_block (luby_k r) ! k) * restart_first cfg"
    using assms(1) True by (intro limit_in_range [of _ m]) (simp_all add: limits_ok_def)
  then show ?thesis
    using r'(1,2) assms(1) by (simp add: limits_ok_def)
next
  case False
  then show ?thesis
    using assms(1,4) by (simp add: restartNextLimit_def limits_ok_def)
qed

text \<open>What \<open>solve_\<close> promises: at most it is stopped.\<close>

definition solved ::
  "((nat \<Rightarrow> bool) \<Rightarrow> bool) \<Rightarrow> (nat \<Rightarrow> bool) \<Rightarrow> 'a sat_solver_scheme \<Rightarrow> nat \<times> lbool \<times> lit list \<times> luby_state \<times> 'a sat_solver_scheme \<Rightarrow> bool" where
  "solved T stop s res \<longleftrightarrow> (case res of (k, b, c, r, s') \<Rightarrow>
     right_answer T True s b s' \<and> (b = l_Undef \<longrightarrow> stop k))"

lemma restart_loop_ok:
  assumes "search_at T (length (trail s)) s" "qhead s = length (trail s)"
    and th: "\<forall>j i. sound_theory T (nVars s) (th j i)" and cfg: "cfg_ok (search_config.truncate cfg)" "\<forall>j i. sound_heuristics (hs j i False)"
    and stop: "stop m" "\<forall>j. (\<exists>i. \<not> h_continue (hs j i False)) \<longrightarrow> stop (j + 1)" and lim: "limits_ok cfg inc m"
    and "k \<le> m" "use_luby cfg \<longrightarrow> luby_at k r" "0 \<le> nofc"
  shows "\<exists>res. restart_loop cfg nv R inc nofl hs th stop k nofc l_Undef c lit_Undef r s = Some (Inr res) \<and> solved T stop s res"
  using assms(1,2,3,9-11)
proof (induction "m - k" arbitrary: k nofc r s c)
  case 0
  then have "stop k"
    using stop(1) by simp
  then show ?case
    using 0 by (subst restart_loop.simps) (simp add: solved_def right_answer_def advanced_def same_models_def)
next
  case (Suc d)
  show ?case
  proof (cases "stop k")
    case True
    then show ?thesis
      using Suc by (subst restart_loop.simps) (simp add: solved_def right_answer_def advanced_def same_models_def)
  next
    case False
    have km: "k < m"
      using Suc.hyps(2) by simp
    let ?halt = "\<exists>i. \<not> h_continue (hs k i False)"
    have "\<forall>i. sound_theory T (nVars s) (th k i)" "\<forall>i. sound_heuristics (hs k i False)"
      using Suc.prems(3) cfg(2) by blast+
    from search_ok [where nv = nv and R = R and nofl = "nofl k" and T = T and s = s and th = "th k" and hs = "hs k", OF Suc.prems(1,2) this(1) cfg(1) this(2) Suc.prems(6)]
    obtain b c1 f s1 where se: "search (search_config.truncate cfg) nv R (hs k) (th k) nofc (nofl k) lit_Undef s = Inr (b, c1, f, s1)"
        "f = lit_Undef" "right_answer T ?halt s b s1"
      by (auto simp: search_result_def)
    obtain x r1 where x: "restartNextLimit cfg inc nofc r = Inr (x, r1)" "0 \<le> x" "use_luby cfg \<longrightarrow> luby_at (k + 1) r1"
      using next_limit [OF lim km Suc.prems(5,6)] by blast
    have run: "restart_loop cfg nv R inc nofl hs th stop k nofc l_Undef c lit_Undef r s =
        restart_loop cfg nv R inc nofl hs th stop (k + 1) x b c1 lit_Undef r1 s1"
      using False se(1,2) x(1) by (subst restart_loop.simps) simp
    have any: "right_answer T True s b s1"
      using right_answer_advanced [OF advanced_refl se(3)] Suc.prems(1,2) by simp
    show ?thesis
    proof (cases "b = l_Undef \<and> \<not> stop (k + 1)")
      case True
      then have "\<not> ?halt"
        using stop(2) by blast
      then have s1: "advanced T s s1" "qhead s1 = length (trail s1)"
        using se(3) True by (auto simp: right_answer_def)
      then have s1': "search_at T (length (trail s1)) s1" "\<forall>j i. sound_theory T (nVars s1) (th j i)"
        using Suc.prems(3) by (simp_all add: advanced_def)
      have "d = m - (k + 1)" "k + 1 \<le> m"
        using Suc.hyps(2) by simp_all
      then obtain res where res: "restart_loop cfg nv R inc nofl hs th stop (k + 1) x l_Undef c1 lit_Undef r1 s1 = Some (Inr res)"
          "solved T stop s1 res"
        using Suc.hyps(1) [OF _ s1'(1) s1(2) s1'(2) _ x(3,2)] by blast
      have "solved T stop s res"
        using res(2) right_answer_advanced [OF s1(1)] by (auto simp: solved_def)
      then show ?thesis
        using run res(1) True by simp
    next
      case False
      then have "restart_loop cfg nv R inc nofl hs th stop (k + 1) x b c1 lit_Undef r1 s1 = Some (Inr (k + 1, b, c1, r1, s1))"
        using se(3) by (subst restart_loop.simps) (auto simp: right_answer_def)
      then show ?thesis
        using run any False by (auto simp: solved_def)
    qed
  qed
qed

section \<open>The answer of solve\<close>

lemma declare_vars_ok:
  "(\<forall>l \<in> set ls. known (lit_var l)) \<Longrightarrow> \<exists>sn' ds'. declare_vars known atom ls sn ds = Inr (sn', ds')"
  by (induction ls arbitrary: sn ds) (auto simp: Let_def)

lemma declare_clauses_ok:
  "(\<forall>cr \<in> set crs. \<exists>c. clause_at s cr = Inr c \<and> (\<forall>l \<in> set (lits c). known (lit_var l))) \<Longrightarrow>
   \<exists>sn' ds'. declare_clauses known atom s crs sn ds = Inr (sn', ds')"
proof (induction crs arbitrary: sn ds)
  case (Cons cr crs)
  then obtain c where c: "clause_at s cr = Inr c" "\<forall>l \<in> set (lits c). known (lit_var l)"
    by auto
  obtain sn1 ds1 where "declare_vars known atom (lits c) sn ds = Inr (sn1, ds1)"
    using declare_vars_ok [OF c(2)] by blast
  then show ?case
    using Cons c(1) by simp
qed simp

lemma declared_vars_ok:
  assumes "listed s" "\<forall>v < nVars s. known v"
  obtains ds sn where "declareVarsToTheories known atom s = Inr (ds, s\<lparr>var_seen := sn\<rparr>)"
proof -
  obtain sn ds where 1: "declare_vars (\<lambda>_. True) atom (trail s) (map (\<lambda>_. False) (var_seen s)) [] = Inr (sn, ds)"
    using declare_vars_ok [of "trail s" "\<lambda>_. True"] by blast
  have "\<forall>cr \<in> set (clauses s). \<exists>c. clause_at s cr = Inr c \<and> (\<forall>l \<in> set (lits c). known (lit_var l))"
    using assms by (fastforce simp: listed_def lit_ok_def)
  from declare_clauses_ok [OF this] obtain sn1 ds1 where "declare_clauses known atom s (clauses s) sn ds = Inr (sn1, ds1)"
    by blast
  then show thesis
    using that 1 by (simp add: declareVarsToTheories_def)
qed

lemma var_seen_ready:
  assumes "ready s"
  shows "ready (s\<lparr>var_seen := sn\<rparr>)" "sat_models (s\<lparr>var_seen := sn\<rparr>) = sat_models s"
proof -
  let ?t = "s\<lparr>var_seen := sn\<rparr>"
  have c: "same_core s ?t" "sat_ok ?t = sat_ok s"
    by (simp_all add: same_core_def)
  show "sat_models ?t = sat_models s"
    by (rule same_core_models(1) [OF c])
  have "reason ?t = reason s" "nVars ?t = nVars s" "clause_at ?t = clause_at s"
    by (simp_all add: fun_eq_iff reason_def nVars_def clause_at_def)
  then show "ready ?t"
    using assms same_core_idle [OF c]
    by (simp add: ready_def orderly_def listed_def clean_seen_def order_ok_def refs_distinct_def no_fake_def)
qed

text \<open>The value of a variable in the model that is returned.\<close>

definition model_value :: "lbool list \<Rightarrow> nat \<Rightarrow> bool" where
  "model_value m v \<longleftrightarrow> v < length m \<and> m ! v = l_True"

lemma returned_model:
  assumes "all_assigned s"
  shows "model_value (map (val_var s) [0 ..< nVars s]) = trail_model s" "l_Undef \<notin> set (map (val_var s) [0 ..< nVars s])"
proof -
  have v: "val_var s v = lbool_of (trail_model s v)" if "v < nVars s" for v
    using assms(1) that by (simp add: all_assigned_def val_var_def)
  then show "l_Undef \<notin> set (map (val_var s) [0 ..< nVars s])"
    by (auto simp: lbool_of_def l_Undef_def split: if_splits)
  have "\<not> trail_model s v" if "\<not> v < nVars s" for v
    using assms that trail_inv_ok [of s "mkLit v False"] by (auto simp: trail_model_def lit_ok_def all_assigned_def)
  then have "model_value (map (val_var s) [0 ..< nVars s]) v = trail_model s v" for v
    using v by (cases "v < nVars s") (simp_all add: model_value_def lbool_of_def l_True_def)
  then show "model_value (map (val_var s) [0 ..< nVars s]) = trail_model s"
    by (rule ext)
qed

text \<open>
  The answer of \<open>solve_\<close>: a model that satisfies the clauses and the theory, or there is none, or it
  was stopped.
\<close>

definition right_result :: "((nat \<Rightarrow> bool) \<Rightarrow> bool) \<Rightarrow> ((nat \<Rightarrow> bool) \<Rightarrow> bool) \<Rightarrow> bool \<Rightarrow> nat \<Rightarrow> lbool \<Rightarrow> lbool list \<Rightarrow> bool" where
  "right_result T M stopped n b m \<longleftrightarrow>
     b = l_True \<and> length m = n \<and> l_Undef \<notin> set m \<and> T (model_value m) \<and> M (model_value m) \<or>
     b = l_False \<and> m = [] \<and> (\<forall>\<alpha>. T \<alpha> \<longrightarrow> \<not> M \<alpha>) \<or>
     b = l_Undef \<and> m = [] \<and> stopped"

lemma solve_core_ok:
  assumes s: "ready s" "sat_ok s \<longrightarrow> trail s \<noteq> []" "\<forall>v < nVars s. known v" "\<not> dump_only cfg" "use_luby cfg \<longrightarrow> luby_at 0 r"
    and th: "\<forall>j i. sound_theory T (nVars s) (th j i)" and cfg: "cfg_ok (search_config.truncate cfg)" "\<forall>j i. sound_heuristics (hs j i False)"
    and stop: "stop m" "\<forall>j. (\<exists>i. \<not> h_continue (hs j i False)) \<longrightarrow> stop (j + 1)" and lim: "limits_ok cfg inc m"
  shows "\<exists>b c md r' s'. solve_core cfg nv R inc nofl hs th stop known atom lit_Undef r s = Inr (b, c, md, r', s') \<and>
    right_result T (sat_models s) (\<exists>k. stop k) (nVars s) b md"
proof -
  have "listed s"
    using s(1) by (simp add: ready_def)
  then obtain ds sn where d: "declareVarsToTheories known atom s = Inr (ds, s\<lparr>var_seen := sn\<rparr>)"
    using s(3) by (rule declared_vars_ok)
  let ?s = "s\<lparr>var_seen := sn\<rparr>"
  note v = var_seen_ready [OF s(1), of sn]
  have nv: "nVars ?s = nVars s"
    by (simp add: nVars_def)
  show ?thesis
  proof (cases "sat_ok s")
    case False
    then show ?thesis
      using d s(4) by (simp add: solve_core_def right_result_def sat_models_def)
  next
    case True
    then have ok: "sat_ok ?s" "trail ?s \<noteq> []"
      using s(2) by simp_all
    have th': "\<forall>j i. sound_theory T (nVars ?s) (th j i)"
      using th nv by simp
    have first: "0 \<le> restart_first cfg"
      using lim by (simp add: limits_ok_def)
    obtain k b c r' s' where l: "restart_loop cfg nv R inc nofl hs th stop 0 (restart_first cfg) l_Undef [] lit_Undef r ?s =
          Some (Inr (k, b, c, r', s'))" "solved T stop ?s (k, b, c, r', s')"
      using restart_loop_ok [where nv = nv and R = R and nofl = nofl and c = "[]" and T = T and s = ?s and th = th and hs = hs and stop = stop and k = 0 and m = m, OF ready_search(1,2) [OF v(1) ok] th' cfg stop lim
          le0 s(5) first] by auto
    from l(2) have a: "right_answer T True ?s b s'" "b = l_Undef \<longrightarrow> stop k"
      by (simp_all add: solved_def)
    from a(1) consider "b = l_True" "T (trail_model s')" "sat_models s (trail_model s')" "all_assigned s'" "nVars s' = nVars s"
      | "b = l_False" "\<forall>\<alpha>. T \<alpha> \<longrightarrow> \<not> sat_models s \<alpha>" | "b = l_Undef"
      unfolding right_answer_def v(2) nv by blast
    then show ?thesis
    proof cases
      case 1
      note m = returned_model [OF 1(4)]
      have "right_result T (sat_models s) (\<exists>k. stop k) (nVars s) l_True (map (val_var s') [0 ..< nVars s'])"
        using 1 m by (simp add: right_result_def)
      then show ?thesis
        using d s(4) ok(1) l(1) 1(1) by (simp add: solve_core_def)
    next
      case 2
      then show ?thesis
        using d s(4) ok(1) l(1) by (simp add: solve_core_def right_result_def)
    next
      case 3
      then show ?thesis
        using d s(4) ok(1) l(1) a(2) by (auto simp: solve_core_def right_result_def)
    qed
  qed
qed

end
