(* ===== verification/Sat_Search_Props.thy ===== *)
theory Sat_Search_Props
  imports Sat_Restarts Sat_Props
begin

text \<open>
  The properties of the search: what is learnt from a conflict, the reduction of the clauses, conflicts of
  the theory, the limits of the restarts, and the answer, from the constructor and the clauses on.
\<close>

section \<open>A solver with clauses\<close>

fun load_clauses :: "lit list list \<Rightarrow> 'a sat_solver_scheme \<Rightarrow> 'a sat_solver_scheme result" where
  "load_clauses [] s = Inr s"
| "load_clauses (c # cs) s = rbind (addOriginalClause_core c s) (\<lambda>(b, refs, s1). load_clauses cs s1)"

definition new_solver :: "nat \<Rightarrow> sat_solver" where
  "new_solver n = ((\<lambda>s. snd (newVar True True s)) ^^ n) (CoreSMTSolver_ctor True 0 (\<lambda>_. False))"

lemma new_solver_ready: "ready (new_solver n)" "Sat_Solver.nVars (new_solver n) = n" "sat_models (new_solver n) \<alpha>" "trail (new_solver n) = []" "attached (new_solver n) = {}"
proof -
  have "ready (new_solver n) \<and> Sat_Solver.nVars (new_solver n) = n \<and> sat_models (new_solver n) \<alpha> \<and> trail (new_solver n) = [] \<and>
      attached (new_solver n) = {}"
  proof (induction n)
    case 0
    show ?case
      using ctor_ready ctor_idle by (simp add: new_solver_def) (simp add: CoreSMTSolver_ctor_def Sat_Solver.nVars_def attached_def)
  next
    case (Suc n)
    have i: "idle (new_solver n)"
      using Suc by (simp add: ready_def)
    then have "grown (new_solver n) (snd (newVar True True (new_solver n)))"
      by (intro newVar_grown) (simp add: idle_def)
    then have "trail (snd (newVar True True (new_solver n))) = []" "attached (snd (newVar True True (new_solver n))) = {}"
      using Suc by (simp_all add: grown_def attached_def)
    moreover have "new_solver (Suc n) = snd (newVar True True (new_solver n))"
      by (simp add: new_solver_def)
    ultimately show ?case
      using Suc newVar_ready [of "new_solver n" True] newVar_idle [OF i, of True True] by simp
  qed
  then show "ready (new_solver n)" "Sat_Solver.nVars (new_solver n) = n" "sat_models (new_solver n) \<alpha>" "trail (new_solver n) = []" "attached (new_solver n) = {}"
    by blast+
qed

lemma load_clauses_ready:
  assumes "ready s" "\<forall>c \<in> set cs. \<forall>l \<in> set c. lit_ok (Sat_Solver.nVars s) l"
  shows "\<exists>t. load_clauses cs s = Inr t \<and> ready t \<and> Sat_Solver.nVars t = Sat_Solver.nVars s \<and>
    (\<forall>\<alpha>. sat_models t \<alpha> \<longleftrightarrow> sat_models s \<alpha> \<and> sat \<alpha> cs) \<and>
    (sat_ok t \<longrightarrow> sat_ok s \<and> (trail s \<noteq> [] \<or> (\<exists>c \<in> set cs. length c = 1) \<longrightarrow> trail t \<noteq> []))"
  using assms
proof (induction cs arbitrary: s)
  case (Cons c cs)
  obtain refs t where t: "addOriginalClause_core c s = Inr (sat_ok t, refs, t)" "ready t" "Sat_Solver.nVars t = Sat_Solver.nVars s"
      "\<forall>\<alpha>. sat_models t \<alpha> \<longleftrightarrow> sat_models s \<alpha> \<and> csat \<alpha> c"
      "sat_ok t \<longrightarrow> sat_ok s \<and> (trail s \<noteq> [] \<or> length c = 1 \<longrightarrow> trail t \<noteq> [])"
    using addOriginalClause_ready [OF Cons.prems(1), of c] Cons.prems(2) by auto
  obtain u where u: "load_clauses cs t = Inr u" "ready u" "Sat_Solver.nVars u = Sat_Solver.nVars t"
      "\<forall>\<alpha>. sat_models u \<alpha> \<longleftrightarrow> sat_models t \<alpha> \<and> sat \<alpha> cs"
      "sat_ok u \<longrightarrow> sat_ok t \<and> (trail t \<noteq> [] \<or> (\<exists>c \<in> set cs. length c = 1) \<longrightarrow> trail u \<noteq> [])"
    using Cons.IH [OF t(2)] Cons.prems(2) t(3) by auto
  have "load_clauses (c # cs) s = Inr u"
    using t(1) u(1) by simp
  moreover have "sat_models u \<alpha> \<longleftrightarrow> sat_models s \<alpha> \<and> sat \<alpha> (c # cs)" for \<alpha>
    using t(4) u(4) by (auto simp: sat_def)
  ultimately show ?case
    using u(2,3,5) t(3,5) by auto
qed (simp add: sat_def)

section \<open>A state with a conflict, for the witnesses\<close>

text \<open>One known literal, and two clauses that leave nothing for the second variable once the first is false.\<close>

definition clash :: sat_solver where
  "clash = (case load_clauses [[mkLit 0 False], [mkLit 1 False, mkLit 2 False], [mkLit 1 False, mkLit 2 True]] (new_solver 3) of
     Inl _ \<Rightarrow> new_solver 3 | Inr s \<Rightarrow> s)"

lemma lit_ok_undef:
  assumes "lit_ok n l"
  shows "l \<noteq> lit_Undef" "l \<noteq> lit_not lit_Undef"
  using assms lit_ok_not [of n lit_Undef] by (auto simp: lit_ok_def lit_Undef_def)

lemma first_unit:
  assumes "ready s" "sat_ok s" "attached s = {}" "trail s = []" "lit_ok (Sat_Solver.nVars s) q"
    and run: "addOriginalClause_core [q] s = Inr (sat_ok t, refs, t)" "sat_ok t"
  shows "trail t = [q]" "attached t = {}"
proof -
  have i: "idle s"
    using assms(1) by (simp add: ready_def)
  note inv = idle_sat_inv [OF i assms(2)]
  have q: "\<forall>l \<in> set [q]. lit_ok (Sat_Solver.nVars s) l"
    using assms(5) by simp
  have none: "\<not> is_true s q" "\<not> is_false s q" "q \<noteq> lit_Undef" "q \<noteq> lit_not lit_Undef"
    using values_iff(1,2) [OF sat_invD(1) [OF inv(1)] assms(5)] assms(4) lit_ok_undef [OF assms(5)]
    by auto
  from i assms(2) q run(1) have "trail t = [q] \<and> attached t = {}"
  proof (cases rule: add_cases)
    case known
    then show ?thesis
      using none by simp
  next
    case refused
    then show ?thesis
      using run(2) by simp
  next
    case (unit p confl u)
    note r = unit_run [OF i assms(2) unit(1-3)]
    obtain new where new: "trail u = trail (enqueued p CRef_Undef s) @ new" "\<forall>r \<in> set new. \<exists>cr. reason u (lit_var r) = CRef cr"
      by (rule prop_ext_new [OF r(2)])
    note f = prop_ext_fields [OF r(2)]
    have t: "sat_inv (length (trail t)) t"
      using idle_sat_inv(1,4) [OF _ run(2)] addOriginalClause_ready [OF assms(1) q] run(1) by (auto simp: ready_def)
    have att: "attached u = {}" "attached t = attached u" "trail t = trail u" "reason t = reason u"
      using f(6) assms(3) by (simp_all add: unit(4) fun_eq_iff attached_def reason_def)
    have "\<not> (\<exists>cr. reason u (lit_var r) = CRef cr)" if "r \<in> set (trail u)" for r
      using sat_invD(7) [OF t] that att unfolding reasons_ok_def by (metis empty_iff in_set_conv_nth)
    then have "new = []"
      using new by (cases new) auto
    moreover have "p = q"
      using unit(5) by simp
    ultimately show ?thesis
      using new(1) att assms(4) by simp
  next
    case (stored ps)
    then show ?thesis
      using card_mono [OF _ stored(3)] distinct_card [OF stored(2)] by simp
  qed
  then show "trail t = [q]" "attached t = {}"
    by blast+
qed

text \<open>A clause of open variables is stored as it is.\<close>

lemma store_clause:
  assumes "ready s" "sat_ok s" and c: "\<forall>l \<in> set c. lit_ok (Sat_Solver.nVars s) l \<and> lit_var l \<notin> lit_var ` set (trail s)"
    and len: "2 \<le> length c" and dist: "distinct (map lit_var c)" and run: "addOriginalClause_core c s = Inr (b, refs, t)"
  shows "b \<and> sat_ok t \<and> trail t = trail s \<and> attached t = insert (al_size (ca s)) (attached s) \<and>
    clause_of t = (clause_of s)(al_size (ca s) := sort c)"
proof -
  have i: "idle s"
    using assms(1) by (simp add: ready_def)
  note inv = idle_sat_inv [OF i assms(2)]
  note d = sat_invD [OF inv(1)]
  have u: "is_undef s l" if "l \<in> set c" for l
    using values_iff(3) [OF d(1), of l] c that by (metis image_eqI lit_var_not)
  have keep: "simplify_clause s ls p = Some ls"
    if "set ls \<subseteq> set c" "distinct (map lit_var ls)" "p = lit_Undef \<or> p \<in> set c \<and> lit_var p \<notin> lit_var ` set ls" for ls p
    using that
  proof (induction ls arbitrary: p)
    case (Cons l ls)
    have l: "l \<in> set c" "lit_ok (Sat_Solver.nVars s) l"
      using Cons.prems(1) c by auto
    have "\<not> is_true s l" "\<not> is_false s l"
      using u [OF l(1)] values_iff [OF d(1) l(2)] by blast+
    moreover have "l \<noteq> p" "l \<noteq> lit_not p"
      using Cons.prems(3) lit_ok_undef [OF l(2)] by auto
    moreover have "simplify_clause s ls l = Some ls"
      using Cons.prems by (intro Cons.IH) auto
    ultimately show ?case
      by simp
  qed simp
  have m: "mset (map lit_var (sort c)) = mset (map lit_var c)"
    by simp
  then have "distinct (map lit_var (sort c))"
    using dist mset_eq_imp_distinct_iff by blast
  then have "simplify_clause s (sort c) lit_Undef = Some (sort c)"
    by (intro keep) simp_all
  then have "Inr (b, refs, t) = Inr (True, (CRef_Undef, CRef (al_size (ca s))),
      (attached_state (al_size (ca s)) (sort c) False s)\<lparr>undo_stack := undo_stack s @ [NEWCLAUSE (al_size (ca s))]\<rparr>)"
    using add_long_run [OF assms(2) inv(2), of c "sort c"] len run by simp
  then show ?thesis
    using attached_state_clauses [of "al_size (ca s)" s "sort c" False] assms(2)
    by (auto simp: attached_def clause_of_def fun_eq_iff)
qed

lemma clash_ready: "ready clash" "sat_ok clash" "Sat_Solver.nVars clash = 3" "trail clash = [mkLit 0 False]"
  "\<exists>x y. x \<in> attached clash \<and> set (clause_of clash x) = {mkLit 1 False, mkLit 2 False} \<and>
    y \<in> attached clash \<and> set (clause_of clash y) = {mkLit 1 False, mkLit 2 True}"
proof -
  let ?u = "[mkLit 0 False]" and ?a = "[mkLit 1 False, mkLit 2 False]" and ?b = "[mkLit 1 False, mkLit 2 True]"
  note n = new_solver_ready [of 3]
  have ok: "lit_ok 3 (mkLit v b)" if "v < 3" for v b
    using that by (simp add: lit_ok_def) (simp add: mkLit_shape)
  have ok0: "sat_ok (new_solver 3)"
    using n(3) by (simp add: sat_models_def)
  obtain r1 s1 where 1: "addOriginalClause_core ?u (new_solver 3) = Inr (sat_ok s1, r1, s1)" "ready s1" "Sat_Solver.nVars s1 = 3"
      "\<forall>\<alpha>. sat_models s1 \<alpha> \<longleftrightarrow> csat \<alpha> ?u"
    using addOriginalClause_ready [OF n(1), of ?u] n(2,3) ok by auto
  have "sat_models s1 (\<lambda>_. True)"
    using 1(4) by (simp add: csat_def)
  then have o1: "sat_ok s1"
    by (simp add: sat_models_def)
  have t1: "trail s1 = ?u" "attached s1 = {}"
    using first_unit [OF n(1) ok0 n(5,4) _ 1(1) o1] n(2) ok by simp_all
  obtain r2 s2 where 2: "addOriginalClause_core ?a s1 = Inr (sat_ok s2, r2, s2)" "ready s2" "Sat_Solver.nVars s2 = 3"
    using addOriginalClause_ready [OF 1(2), of ?a] 1(3) ok by auto
  have l2: "sat_ok s2 \<and> trail s2 = ?u \<and> attached s2 = {al_size (ca s1)} \<and> clause_of s2 (al_size (ca s1)) = sort ?a"
    using store_clause [OF 1(2) o1 _ _ _ 2(1)] t1 ok 1(3) by simp
  obtain r3 s3 where 3: "addOriginalClause_core ?b s2 = Inr (sat_ok s3, r3, s3)" "ready s3" "Sat_Solver.nVars s3 = 3"
    using addOriginalClause_ready [OF 2(2), of ?b] 2(3) ok by auto
  have l3: "sat_ok s3 \<and> trail s3 = ?u \<and> attached s3 = insert (al_size (ca s2)) (attached s2) \<and>
      clause_of s3 = (clause_of s2)(al_size (ca s2) := sort ?b)"
    using store_clause [OF 2(2) _ _ _ _ 3(1)] l2 ok 2(3) by simp
  have "al_size (ca s1) \<noteq> al_size (ca s2)"
  proof -
    have "db_inv s2"
      using idle_sat_inv(1) [of s2] 2(2) l2 sat_invD(2) by (auto simp: ready_def)
    then show ?thesis
      using l2 unfolding db_inv_def by fastforce
  qed
  then have x: "al_size (ca s1) \<in> attached s3" "set (clause_of s3 (al_size (ca s1))) = set ?a"
      and y: "al_size (ca s2) \<in> attached s3" "set (clause_of s3 (al_size (ca s2))) = set ?b"
    using l2 l3 by (simp_all only: fun_upd_apply if_False if_True set_sort insert_iff simp_thms)
  have e: "clash = s3"
    using 1(1) 2(1) 3(1) by (simp add: clash_def)
  show "ready clash" "sat_ok clash" "Sat_Solver.nVars clash = 3" "trail clash = [mkLit 0 False]"
    using l3 3(2,3) by (simp_all add: e)
  show "\<exists>x y. x \<in> attached clash \<and> set (clause_of clash x) = {mkLit 1 False, mkLit 2 False} \<and>
      y \<in> attached clash \<and> set (clause_of clash y) = {mkLit 1 False, mkLit 2 True}"
    unfolding e by (intro exI conjI) (use x y in \<open>simp_all only: list.set\<close>)
qed

text \<open>The second variable is decided to be false, and the propagation finds the conflict.\<close>

lemma clash_conflict:
  "\<exists>r m s. search_at (\<lambda>_. True) m s \<and> conflict s r \<and> 0 < decisionLevel (s :: sat_solver)"
proof -
  note c = clash_ready
  have t: "trail clash \<noteq> []"
    by (simp add: c(4))
  have s: "search_at (\<lambda>_. True) (length (trail clash)) clash" "qhead clash = length (trail clash)" "trail_lim clash = []"
    using ready_search [OF c(1,2) t] by blast+
  let ?p = "mkLit 1 True"
  have ok: "lit_ok (Sat_Solver.nVars clash) ?p"
    by (simp add: c(3) lit_ok_def) (simp add: mkLit_shape)
  have "?p \<notin> set (trail clash)" "lit_not ?p \<notin> set (trail clash)"
    by (simp_all add: c(4))
  then have "is_undef clash ?p"
    using values_iff(3) [OF sat_invD(1) [OF search_atD(1) [OF s(1)]] ok] c(4) by simp
  then obtain s1 where s1: "search_at (\<lambda>_. True) (qhead s1) s1" "s1 = enqueued ?p CRef_Undef (newDecisionLevel clash)"
    using decide_search [OF s(1,2) ok] by auto
  obtain r s2 where p: "prop_ext s1 s2" "qhead s2 = length (trail s2)"
      "r = CRef_Undef \<and> search_at (\<lambda>_. True) (length (trail s2)) s2 \<or> conflict s2 r \<and> search_at (\<lambda>_. True) (qhead s1) s2"
    by (rule propagate_search [OF s1(1)])
  note f = prop_ext_fields [OF p(1)]
  have d: "decisionLevel s2 = 1"
    unfolding f(7) using s(3) by (simp add: s1(2)) (simp add: newDecisionLevel_def decisionLevel_def)
  from p(3) show ?thesis
  proof
    assume r: "r = CRef_Undef \<and> search_at (\<lambda>_. True) (length (trail s2)) s2"
    obtain x y where xy: "x \<in> attached clash" "set (clause_of clash x) = {mkLit 1 False, mkLit 2 False}"
        "y \<in> attached clash" "set (clause_of clash y) = {mkLit 1 False, mkLit 2 True}"
      using c(5) by blast
    have same: "attached s1 = attached clash" "clause_of s1 = clause_of clash"
      by (simp_all add: s1(2) attached_def newDecisionLevel_def enqueued_def clause_of_def fun_eq_iff)
    then have set2: "set (clause_of s2 z) = set (clause_of clash z)" for z
      using f(8) by simp
    have inv: "sat_inv (length (trail s2)) s2"
      using r search_atD(1) by blast
    have "settled s2 x" "settled s2 y"
      using all_settled [OF inv] xy(1,3) f(6) same by simp_all
    moreover have "?p \<in> set (trail s2)"
      using f(10) by (auto simp: s1(2))
    then have "mkLit 1 False \<notin> set (trail s2)"
      using trail_not [OF sat_invD(1) [OF inv], of ?p] by simp
    moreover have "Sat_Solver.nVars s2 = 3"
      unfolding f(1) s1(2) using c(3) newDecisionLevel_fields [of clash] by simp
    then have "lit_ok (Sat_Solver.nVars s2) (mkLit 1 False)"
      by (simp add: lit_ok_def) (simp add: mkLit_shape)
    then have "\<not> is_undef s2 (mkLit 1 False)"
      using values_iff(3) [OF sat_invD(1) [OF inv]] \<open>?p \<in> set (trail s2)\<close> by simp
    ultimately show ?thesis
      using xy(2,4) set2 trail_not [OF sat_invD(1) [OF inv]] by (fastforce simp: settled_def)
  next
    assume r: "conflict s2 r \<and> search_at (\<lambda>_. True) (qhead s1) s2"
    show ?thesis
      using r d by (intro exI [of _ r] exI [of _ "qhead s1"] exI [of _ s2]) simp
  qed
qed

section \<open>The answer of the solver\<close>

text \<open>
  C1. A new solver is given clauses, at least one of which is a single literal. It takes them without failing
  an assertion, and a run of \<open>solve_\<close> that is asked to stop before restart \<open>m\<close> at the latest returns and
  fails no assertion. If it answers true, it gives a value for each variable, and these values satisfy the
  clauses and the theory; if it answers false, no assignment satisfies both; it gives no answer only if
  it was asked to stop.

  The conditions. One clause is a single literal, as in every run after \<open>initialize\<close> of the converter: with
  no literal at level 0 \<open>analyze\<close> fails its assertion (\<open>CoreSMTSolver.C\<close>, line 955). There are no assumptions.
  \<open>ccmin_mode\<close> is not 1, \<open>sat_minimize_conflicts\<close> is at most 1 and \<open>sat_learn_up_to_size\<close> is not positive.
  The theory answers with explanations that it refutes and that are on the trail, and finds no full
  assignment consistent that is not; it neither deduces literals nor splits. The order of the learnt clauses
  is a permutation; all other choices of the heuristics are free. Every variable is known to the theory
  handler, \<open>dump_only\<close> is off, and the limits up to restart \<open>m\<close> are in the range of \<open>int\<close>. The request
  to stop bounds the restarts; that each single search ends needs no such request.
\<close>

theorem solve_correct:
  assumes cs: "\<forall>c \<in> set cs. \<forall>l \<in> set c. lit_ok n l" "\<exists>c \<in> set cs. length c = 1"
    and "\<forall>v < n. known v" "\<not> dump_only cfg"
    and "\<forall>j i. sound_theory T n (th j i)" and "cfg_ok (search_config.truncate cfg)" "\<forall>j i. sound_heuristics (hs j i False)"
    and "stop m" "\<forall>j. (\<exists>i. \<not> h_continue (hs j i False)) \<longrightarrow> stop (j + 1)" and "limits_ok cfg inc m"
  shows "\<exists>s b c md r s'. load_clauses cs (new_solver n) = Inr s \<and>
    solve_core cfg nv R inc nofl hs th stop known atom lit_Undef luby_init s = Inr (b, c, md, r, s') \<and>
    (b = l_True \<and> length md = n \<and> l_Undef \<notin> set md \<and> T (model_value md) \<and> sat (model_value md) cs \<or>
     b = l_False \<and> (\<forall>\<alpha>. T \<alpha> \<longrightarrow> \<not> sat \<alpha> cs) \<or>
     b = l_Undef \<and> (\<exists>k. stop k))"
proof -
  note new = new_solver_ready [of n]
  obtain s where s: "load_clauses cs (new_solver n) = Inr s" "ready s" "Sat_Solver.nVars s = n" "\<forall>\<alpha>. sat_models s \<alpha> \<longleftrightarrow> sat \<alpha> cs"
      "sat_ok s \<longrightarrow> trail s \<noteq> []"
    using load_clauses_ready [OF new(1), of cs] cs new(2,3) by auto
  have "\<forall>v < Sat_Solver.nVars s. known v" "\<forall>j i. sound_theory T (Sat_Solver.nVars s) (th j i)" "use_luby cfg \<longrightarrow> luby_at 0 luby_init"
    using assms(3,5) s(3) luby_at_init by simp_all
  from solve_core_ok [where nv = nv and R = R and nofl = nofl and atom = atom and T = T and th = th and hs = hs and stop = stop and m = m,
      OF s(2,5) this(1) assms(4) this(3,2) assms(6-10)]
  obtain b c md r s' where "solve_core cfg nv R inc nofl hs th stop known atom lit_Undef luby_init s = Inr (b, c, md, r, s')"
      "right_result T (sat_models s) (\<exists>k. stop k) (Sat_Solver.nVars s) b md"
    by blast
  moreover have "right_result T (\<lambda>\<alpha>. sat \<alpha> cs) (\<exists>k. stop k) n b md"
    using calculation(2) s(3,4) by (simp add: right_result_def)
  ultimately show ?thesis
    using s(1) unfolding right_result_def by blast
qed

text \<open>The configuration and the arguments of the witnesses: propositional logic, and an order that is never changed.\<close>

definition plain_config :: solve_config where
  "plain_config = \<lparr>ccmin_mode = 2, sat_minimize_conflicts = 0, sat_learn_up_to_size = 0, sat_temporary_learn = True, is_incremental = False,
     sat_theory_propagation = 1, remove_satisfied = True, assumptions = [], dtc_logic = False,
     use_luby = True, restart_first = 100, dump_only = False\<rparr>"

definition no_theory :: theory_answer where
  "no_theory = \<lparr>ta_assert = True, ta_check = TRes_SAT, ta_explanation = [], ta_deductions = [], ta_splits = []\<rparr>"

definition plain :: heuristics where
  "plain = \<lparr>h_continue = True, h_budget = True, h_simplified = False, h_sort = id, h_inactive = (\<lambda>_. False), h_skip = False,
     h_random = None, h_min = (\<lambda>_. 0), h_sign = (\<lambda>_. None)\<rparr>"

lemma plain_ok: "sound_theory (\<lambda>_. True) n (\<lambda>_ _. no_theory)" "cfg_ok (search_config.truncate plain_config)" "sound_heuristics plain"
  by (simp_all add: sound_theory_def sound_answer_def consistent_def no_theory_def cfg_ok_def plain_config_def search_config.defs
      sound_heuristics_def plain_def)

theorem solve_correct_witness:
  "\<exists>s b c md r s'. load_clauses [[mkLit 0 False], [mkLit 1 True, mkLit 0 True]] (new_solver 2) = Inr s \<and>
    solve_core plain_config newVar (\<lambda>_. []) id (\<lambda>_. 1) (\<lambda>_ _ _. plain) (\<lambda>_ _ _ _. no_theory) (\<lambda>k. k = 9) (\<lambda>_. True) (\<lambda>_. False) lit_Undef
      luby_init s = Inr (b, c, md, r, s')"
proof -
  have "lit_ok 2 (mkLit 0 b)" "lit_ok 2 (mkLit 1 b)" for b
    by (simp_all add: lit_ok_def) (simp_all add: mkLit_shape)
  moreover have "h_continue plain" "limits_ok plain_config id 9" "\<not> dump_only plain_config"
    by (simp_all add: plain_def limits_ok_def plain_config_def)
  ultimately show ?thesis
    using solve_correct [where cs = "[[mkLit 0 False], [mkLit 1 True, mkLit 0 True]]" and n = 2 and known = "\<lambda>_. True" and cfg = plain_config
        and T = "\<lambda>_. True" and th = "\<lambda>_ _ _ _. no_theory" and hs = "\<lambda>_ _ _. plain" and stop = "\<lambda>k. k = 9" and m = 9 and inc = id
        and nv = newVar and R = "\<lambda>_. []" and nofl = "\<lambda>_. 1" and atom = "\<lambda>_. False"] plain_ok
    by auto
qed

section \<open>The search\<close>

text \<open>
  C2. A search between two restarts returns and fails no assertion. If it answers true, its trail is a model
  of the clauses and of the theory; if it answers false, there is none; and otherwise it leaves a state from which
  the next search can start, with the same models.

  The conditions. It starts from a state of the search with all literals propagated: the invariant of the
  solver holds, a literal is known at level 0, and no literal of the trail was deduced by the theory. There are
  no assumptions, so that the answer false is about the clauses alone. \<open>ccmin_mode\<close> is not 1,
  \<open>sat_minimize_conflicts\<close> is at most 1 and \<open>sat_learn_up_to_size\<close> is not positive. The theory explains
  its conflicts by literals of the trail that it refutes, finds no full assignment consistent that is not, and
  neither deduces literals nor splits. The heuristics permute the learnt clauses and are free otherwise.
\<close>

theorem search_correct:
  assumes "search_at T (length (trail s)) s" "qhead s = length (trail s)" "\<forall>i. sound_theory T (Sat_Solver.nVars s) (th i)"
    and "cfg_ok cfg" "\<forall>i. sound_heuristics (hs i False)" "0 \<le> nofc"
  shows "\<exists>b c s'. search cfg nv R hs th nofc nofl lit_Undef s = Inr (b, c, lit_Undef, s') \<and>
    (b = l_True \<and> T (trail_model s') \<and> sat_models s (trail_model s') \<or>
     b = l_False \<and> (\<forall>\<alpha>. T \<alpha> \<longrightarrow> \<not> sat_models s \<alpha>) \<or>
     b = l_Undef \<and> search_at T (qhead s') s' \<and> (\<forall>\<alpha>. T \<alpha> \<longrightarrow> sat_models s' \<alpha> = sat_models s \<alpha>))"
proof -
  obtain b c f s' where "search cfg nv R hs th nofc nofl lit_Undef s = Inr (b, c, f, s')" "f = lit_Undef"
      "right_answer T (\<exists>i. \<not> h_continue (hs i False)) s b s'"
    using search_ok [where nv = nv and R = R and nofl = nofl and T = T and s = s and th = th and hs = hs, OF assms]
    by (auto simp: search_result_def)
  then show ?thesis
    unfolding right_answer_def advanced_def same_models_def by blast
qed

lemma clash_search: "search_at T (length (trail clash)) clash" "qhead clash = length (trail clash)" "trail_lim clash = []"
  using ready_search [OF clash_ready(1,2)] clash_ready(4) by simp_all

theorem search_correct_witness:
  "\<exists>b c s'. search (search_config.truncate plain_config) newVar (\<lambda>_. []) (\<lambda>_ _. plain) (\<lambda>_ _ _. no_theory) 100 1 lit_Undef clash =
     Inr (b, c, lit_Undef, s')"
  using search_correct [where T = "\<lambda>_. True" and s = clash and th = "\<lambda>_ _ _. no_theory" and hs = "\<lambda>_ _. plain" and nv = newVar
      and R = "\<lambda>_. []" and nofl = 1 and nofc = 100 and cfg = "search_config.truncate plain_config"] clash_search plain_ok by auto

text \<open>
  C3. Let a literal be known at level 0, let no literal of the trail be deduced by the theory (for such
  a literal \<open>analyze\<close> fetches the reason, which changes the trail), and let \<open>ccmin_mode\<close> be other than 1 and
  \<open>sat_minimize_conflicts\<close> 0 or 1 (the documented setting 2 is excluded, since it fails an assertion). Then
  the analysis of a conflict above level 0 fails no assertion and leaves the state as it was, the marks of the
  variables included. The clause follows from the clauses, the known literals and the theory, all of its
  literals are false, its first literal is the only one of the decision level, and the level that is returned is the
  highest of the others, so that after backtracking to it the first literal can be propagated.
\<close>

theorem analyze_correct:
  assumes "search_at T m s" "conflict s confl" "0 < decisionLevel s" "ccmin_mode cfg \<noteq> 1" "sat_minimize_conflicts cfg \<le> 1"
  shows "\<exists>out lev. analyze cfg R confl s = Inr (out, lev, s) \<and>
    (\<forall>\<alpha>. models_at T s \<alpha> \<longrightarrow> csat \<alpha> out) \<and> out \<noteq> [] \<and> distinct (map lit_var out) \<and> (\<forall>q \<in> set out. lit_not q \<in> set (trail s)) \<and>
    level s (lit_var (hd out)) = decisionLevel s \<and> lev < decisionLevel s \<and>
    (\<forall>q \<in> set (tl out). 0 < level s (lit_var q) \<and> level s (lit_var q) \<le> lev) \<and>
    (if length out = 1 then lev = 0 else level s (lit_var (out ! 1)) = lev)"
proof -
  note i = search_atD [OF assms(1)]
  show ?thesis
    using analyze_ok [OF conflict_conflicting [OF i(1) assms(2,3)] assms(3) i(8,2,3,5) assms(4,5)]
    unfolding asserting_def false_lits_def by blast
qed

definition plain_sat :: sat_config where
  "plain_sat = \<lparr>ccmin_mode = 2, sat_minimize_conflicts = 0, sat_learn_up_to_size = 0, sat_temporary_learn = True, is_incremental = False\<rparr>"

theorem analyze_correct_witness:
  "\<exists>s confl out lev. conflict s confl \<and> analyze plain_sat (\<lambda>_. []) confl (s :: sat_solver) = Inr (out, lev, s)"
proof -
  obtain r m s where s: "search_at (\<lambda>_. True) m s" "conflict s r" "0 < decisionLevel (s :: sat_solver)"
    using clash_conflict by blast
  show ?thesis
    using analyze_correct [OF s, of plain_sat "\<lambda>_. []"] s(2) by (auto simp: plain_sat_def)
qed

text \<open>
  C27. Learning from a conflict backtracks, stores the clause and enqueues its first literal. It fails no
  assertion, keeps the invariant and the models, never touches the original clauses, and goes to a lower level
  with a literal to propagate.
\<close>

theorem learn_conflict_correct:
  assumes "search_at T m s" "conflict s confl" "0 < decisionLevel s" "ccmin_mode cfg \<noteq> 1" "sat_minimize_conflicts cfg \<le> 1"
  shows "\<exists>s'. learn_conflict cfg R confl s = Inr s' \<and> search_at T (qhead s') s' \<and> (\<forall>\<alpha>. T \<alpha> \<longrightarrow> sat_models s' \<alpha> = sat_models s \<alpha>) \<and>
    clauses s' = clauses s \<and> decisionLevel s' < decisionLevel s \<and> qhead s' < length (trail s')"
  using learn_conflict_ok [OF assms] unfolding learnt_from_def same_models_def by blast

theorem learn_conflict_correct_witness:
  "\<exists>s confl s'. conflict s confl \<and> learn_conflict plain_sat (\<lambda>_. []) confl (s :: sat_solver) = Inr s' \<and> decisionLevel s' < decisionLevel s"
proof -
  obtain r m s where s: "search_at (\<lambda>_. True) m s" "conflict s r" "0 < decisionLevel (s :: sat_solver)"
    using clash_conflict by blast
  show ?thesis
    using learn_conflict_correct [OF s, of plain_sat "\<lambda>_. []"] s(2) by (auto simp: plain_sat_def)
qed

text \<open>
  C29. Reducing the database of clauses removes learnt clauses only, in whatever order the activities
  put them; the models, the trail and the invariant stay, so that no reason of a literal is lost.
\<close>

theorem reduceDB_correct:
  assumes "search_at T (length (trail s)) s" "mset (h_sort h (learnts s)) = mset (learnts s)"
  shows "\<exists>s'. reduceDB h s = Inr s' \<and> search_at T (length (trail s')) s' \<and> sat_models s' = sat_models s \<and>
    clauses s' = clauses s \<and> trail s' = trail s \<and> trail_lim s' = trail_lim s \<and> assigns s' = assigns s"
  using reduceDB_ok [OF assms] unfolding reduced_from_def same_trail_def by blast

theorem reduceDB_correct_witness:
  "\<exists>s'. reduceDB plain clash = Inr s' \<and> sat_models s' = sat_models clash"
  using reduceDB_correct [OF clash_search(1), of plain] by (auto simp: plain_def)

text \<open>
  C30. Simplification at level 0 propagates and removes satisfied clauses. It answers false only when no
  assignment that the theory allows satisfies the clauses, and otherwise keeps the models and the invariant.
\<close>

theorem simplify_correct:
  assumes "search_at T (qhead s) s" "decisionLevel s = 0"
  shows "\<exists>b s'. simplify cfg h s = Inr (b, s') \<and>
    (b \<longrightarrow> search_at T (length (trail s')) s' \<and> qhead s' = length (trail s') \<and> (\<forall>\<alpha>. T \<alpha> \<longrightarrow> sat_models s' \<alpha> = sat_models s \<alpha>)) \<and>
    (\<not> b \<longrightarrow> (\<forall>\<alpha>. T \<alpha> \<longrightarrow> \<not> sat_models s \<alpha>))"
  using simplify_ok [OF assms] unfolding same_models_def by blast

theorem simplify_correct_witness:
  "\<exists>b s'. simplify (search_config.truncate plain_config) plain clash = Inr (b, s')"
proof -
  have "search_at (\<lambda>_. True) (qhead clash) clash" "decisionLevel clash = 0"
    using clash_search by (simp_all add: decisionLevel_def)
  then show ?thesis
    using simplify_correct by blast
qed

text \<open>
  C28. A conflict of the theory, whose explanation consists of literals of the trail that the theory refutes,
  is answered by unsatisfiability only when there is no model; otherwise a clause is learnt, on a lower level
  and without changing the models.
\<close>

theorem handleUnsat_correct:
  assumes "search_at T (length (trail s)) s" "\<forall>\<alpha>. T \<alpha> \<longrightarrow> (\<exists>q \<in> set ex. \<not> lsat \<alpha> q)" "set ex \<subseteq> set (trail s)"
    and "ccmin_mode cfg \<noteq> 1" "sat_minimize_conflicts cfg \<le> 1" "sat_learn_up_to_size cfg \<le> 0"
  shows "\<exists>p s'. handleUnsat cfg R ex s = Inr (p, s') \<and>
    (p = TProp_Unsat \<and> (\<forall>\<alpha>. T \<alpha> \<longrightarrow> \<not> sat_models s \<alpha>) \<or>
     p = TProp_Propagate \<and> search_at T (qhead s') s' \<and> (\<forall>\<alpha>. T \<alpha> \<longrightarrow> sat_models s' \<alpha> = sat_models s \<alpha>) \<and>
       decisionLevel s' < decisionLevel s \<and> qhead s' < length (trail s'))"
proof -
  have "refuted T ex"
    using assms(2) by (simp add: refuted_def)
  then obtain p s' where "handleUnsat cfg R ex s = Inr (p, s')" "theory_result T s (p, s')"
    using handleUnsat_ok [OF assms(1) _ assms(3-6)] by (metis surj_pair)
  then show ?thesis
    unfolding theory_result_def learnt_from_def same_models_def by auto
qed

theorem handleUnsat_correct_witness:
  "\<exists>p s'. handleUnsat (search_config.truncate plain_config) (\<lambda>_. []) [mkLit 0 False] clash = Inr (p, s')"
  using handleUnsat_correct [OF clash_search(1), of "\<lambda>\<alpha>. \<not> \<alpha> 0" "[mkLit 0 False]" "search_config.truncate plain_config" "\<lambda>_. []"]
    clash_ready(4) by (auto simp: plain_config_def search_config.defs)

section \<open>Restarts and construction\<close>

text \<open>
  C31. The limits that successive restarts get, which the code computes from the limits so far, are the Luby
  sequence 1 1 2 1 1 2 4 ... times the first limit, as long as the products fit into 31 bits.
\<close>

theorem restart_limits_luby:
  assumes "use_luby cfg" "n < 2 ^ k" "k \<le> 30" "0 \<le> restart_first cfg" "int n * restart_first cfg < 2 ^ 31"
  shows "next_limits cfg inc n nofc luby_init = Inr (map (\<lambda>x. int x * restart_first cfg) (take n (luby_block k)))"
  using next_limits_ok [OF luby_at_init assms(1), of n k inc nofc] assms by simp

theorem restart_limits_luby_witness:
  "next_limits plain_config id 7 100 luby_init = Inr [100, 100, 200, 100, 100, 200, 400]"
  using restart_limits_luby [of plain_config 7 3 id 100] by (simp add: plain_config_def numeral_3_eq_3)

text \<open>
  C32. The state that the constructor, \<open>newVar\<close> and \<open>addOriginalClause_\<close> build is well formed: the
  vectors have their lengths, the marks are cleared, every variable is in the heap or assigned, no clause is listed
  twice and all can be read. Unless a contradiction was found, and when some clause is a single literal, it is a
  state at level 0 with nothing left to propagate that satisfies the invariant the search starts from, for every
  theory. Without such a clause no literal need be known, and the invariant asks for one.
\<close>

theorem built_well_formed:
  assumes "\<forall>c \<in> set cs. \<forall>l \<in> set c. lit_ok n l"
  shows "\<exists>s. load_clauses cs (new_solver n) = Inr s \<and> ready s \<and> Sat_Solver.nVars s = n \<and>
    (sat_ok s \<longrightarrow> sat_inv (length (trail s)) s \<and> seen s = replicate n False \<and> distinct (clauses s @ learnts s) \<and>
      (\<forall>v < n. decision s ! v \<and> (v \<in> lit_var ` set (trail s) \<or> v \<in> set (order_heap s)))) \<and>
    (sat_ok s \<and> (\<exists>c \<in> set cs. length c = 1) \<longrightarrow>
      (\<forall>T. search_at T (length (trail s)) s) \<and> qhead s = length (trail s) \<and> trail_lim s = [])"
proof -
  note new = new_solver_ready [of n]
  obtain s where s: "load_clauses cs (new_solver n) = Inr s" "ready s" "Sat_Solver.nVars s = n"
      "sat_ok s \<longrightarrow> (\<exists>c \<in> set cs. length c = 1) \<longrightarrow> trail s \<noteq> []"
    using load_clauses_ready [OF new(1), of cs] assms new(2) by auto
  have "sat_inv (length (trail s)) s" if "sat_ok s"
    using idle_sat_inv(1,4) [OF _ that] s(2) by (simp add: ready_def)
  moreover have "(\<forall>T. search_at T (length (trail s)) s) \<and> qhead s = length (trail s) \<and> trail_lim s = []"
    if "sat_ok s" "\<exists>c \<in> set cs. length c = 1"
  proof -
    have "trail s \<noteq> []"
      using s(4) that by blast
    from ready_search [OF s(2) that(1) this] show ?thesis
      by simp
  qed
  ultimately show ?thesis
    using s(1-3) by (intro exI [of _ s]) (auto simp: ready_def orderly_def clean_seen_def refs_distinct_def order_ok_def)
qed

theorem built_well_formed_witness:
  "\<exists>s. load_clauses [[mkLit 0 False], [mkLit 1 True, mkLit 0 True]] (new_solver 2) = Inr s \<and> ready s \<and>
    (sat_ok s \<longrightarrow> (\<forall>T. search_at T (length (trail s)) s))"
proof -
  have "lit_ok 2 (mkLit 0 b)" "lit_ok 2 (mkLit 1 b)" for b
    by (simp_all add: lit_ok_def) (simp_all add: mkLit_shape)
  then show ?thesis
    using built_well_formed [of "[[mkLit 0 False], [mkLit 1 True, mkLit 0 True]]" 2] by auto
qed

section \<open>Failed assumptions\<close>

lemma mark_keeps: "sn ! v \<Longrightarrow> foldl (\<lambda>sn q. if P q then sn[lit_var q := True] else sn) sn ls ! v"
proof (induction ls arbitrary: sn)
  case (Cons q ls)
  have "sn[lit_var q := True] ! v"
    using Cons.prems by (cases "lit_var q = v"; cases "v < length sn") (simp_all add: list_update_beyond)
  then show ?case
    using Cons by simp
qed simp

lemma final_loop_marks:
  "final_loop R is out s = Inr (out', s') \<Longrightarrow> distinct (map (\<lambda>i. lit_var (trail s ! i)) is) \<Longrightarrow>
   (\<exists>new. out' = out @ new \<and> (\<forall>q \<in> set new. seen s' ! lit_var q)) \<and>
   (\<forall>v. seen s ! v \<longrightarrow> v \<notin> (\<lambda>i. lit_var (trail s ! i)) ` set is \<longrightarrow> seen s' ! v)"
proof (induction "is" arbitrary: out s)
  case (Cons i "is")
  let ?x = "lit_var (trail s ! i)"
  define mark where "mark = (\<lambda>ls sn. foldl (\<lambda>sn q. if 0 < level s (lit_var q) then sn[lit_var q := True] else sn) sn ls)"
  have keep: "((mark ls (seen s))[?x := False]) ! v" if "seen s ! v" "v \<noteq> ?x" for v ls
    using that mark_keeps unfolding mark_def by simp
  have step: ?case if run: "final_loop R is out (s\<lparr>seen := (mark ls (seen s))[?x := False]\<rparr>) = Inr (out', s')" for ls
    using Cons.IH [OF run] Cons.prems(2) keep by fastforce
  show ?case
  proof (cases "seen s ! ?x")
    case False
    then have "final_loop R is out s = Inr (out', s')"
      using Cons.prems(1) by (simp add: Let_def)
    then show ?thesis
      using Cons.IH Cons.prems(2) by fastforce
  next
    case True
    show ?thesis
    proof (cases "reason s ?x")
      case CRef_Undef
      then have run: "final_loop R is (out @ [lit_not (trail s ! i)]) s = Inr (out', s')"
        using Cons.prems(1) True by (auto simp: Let_def split: if_splits)
      obtain new where new: "out' = (out @ [lit_not (trail s ! i)]) @ new" "\<forall>q \<in> set new. seen s' ! lit_var q"
          and old: "\<forall>v. seen s ! v \<longrightarrow> v \<notin> (\<lambda>i. lit_var (trail s ! i)) ` set is \<longrightarrow> seen s' ! v"
        using Cons.IH [OF run] Cons.prems(2) by auto
      have "seen s' ! ?x"
        using old True Cons.prems(2) by auto
      then show ?thesis
        using new old by (intro conjI exI [of _ "lit_not (trail s ! i) # new"]) auto
    next
      case CRef_Fake
      then show ?thesis
        using Cons.prems(1) True step [of "tl (R (trail s ! i))"] by (auto simp: Let_def mark_def split: if_splits)
    next
      case (CRef cr)
      then show ?thesis
        using Cons.prems(1) True step by (auto simp: Let_def mark_def split: sum.splits)
    qed
  qed
qed auto

text \<open>
  C33. The analysis of a failed assumption leaves marks behind: every assumption that it reports, apart from
  the variable of the failed one, is still marked as seen afterwards. The analysis of the next conflict takes a
  marked variable for one that it has met and leaves it out of the clause.
\<close>

theorem analyzeFinal_leaves_marks:
  assumes "trail_inv s" "analyzeFinal R p s = Inr (out, s')"
  shows "\<forall>q \<in> set out. lit_var q = lit_var p \<or> seen s' ! lit_var q"
proof (cases "decisionLevel s = 0")
  case False
  let ?s = "s\<lparr>seen := (seen s)[lit_var p := True]\<rparr>" and ?is = "rev [hd (trail_lim s) ..< length (trail s)]"
  obtain s1 where l: "final_loop R ?is [p] ?s = Inr (out, s1)" "s' = s1\<lparr>seen := (seen s1)[lit_var p := False]\<rparr>"
    using assms(2) False by (auto simp: analyzeFinal_def rbind_eq_Inr_iff)
  have "distinct (map (\<lambda>i. lit_var (trail s ! i)) [0 ..< length (trail s)])"
  proof -
    have "map (\<lambda>i. lit_var (trail s ! i)) [0 ..< length (trail s)] = map lit_var (trail s)"
      by (rule nth_equalityI) simp_all
    then show ?thesis
      using assms(1) by (simp add: trail_inv_def)
  qed
  then have "distinct (map (\<lambda>i. lit_var (trail ?s ! i)) ?is)"
    by (auto simp: distinct_map intro: inj_on_subset)
  then obtain new where "out = [p] @ new" "\<forall>q \<in> set new. seen s1 ! lit_var q"
    using final_loop_marks [OF l(1)] by auto
  then show ?thesis
    using nth_list_update_neq [of "lit_var p" _ "seen s1" False] by (fastforce simp: l(2))
qed (use assms(2) in \<open>auto simp: analyzeFinal_def\<close>)

text \<open>One assumption, from which the clause of both variables has propagated the other literal.\<close>

definition assumed_state :: sat_solver where
  "assumed_state = (CoreSMTSolver_ctor True 0 (\<lambda>_. False))\<lparr>
     ca := \<lparr>al_mem = [0 \<mapsto> Clause [mkLit 1 False, mkLit 0 False] True False], al_size = 6, al_wasted = 0, extra_clause_field = True\<rparr>,
     vardata := [(CRef_Undef, 1), (CRef 0, 1)], assigns := [l_False, l_True], trail := [mkLit 0 True, mkLit 1 False], trail_lim := [0],
     seen := [False, False]\<rparr>"

lemma assumed_state_inv: "trail_inv assumed_state"
proof -
  have v: "(\<forall>v < 2. P v) \<longleftrightarrow> P 0 \<and> P (1 :: nat)" for P
    by (auto simp: less_2_cases_iff)
  have "Sat_Solver.nVars assumed_state = 2" "trail assumed_state = [mkLit 0 True, mkLit 1 False]" "assigns assumed_state = [l_False, l_True]" "trail_lim assumed_state = [0]"
      "level assumed_state 0 = 1" "level assumed_state 1 = 1" "qhead assumed_state = 0"
    by (simp_all add: assumed_state_def Sat_Solver.nVars_def CoreSMTSolver_ctor_def level_def)
  then show ?thesis
    unfolding trail_inv_def by (simp add: v lit_ok_def less_Suc_eq) (simp add: mkLit_shape)
qed

lemma assumed_state_run:
  "analyzeFinal R (mkLit 1 False) assumed_state = Inr ([mkLit 1 False, mkLit 0 False], assumed_state\<lparr>seen := [True, False]\<rparr>)"
  by (simp add: analyzeFinal_def assumed_state_def CoreSMTSolver_ctor_def decisionLevel_def Let_def reason_def level_def clause_at_def Clause_def)

theorem analyzeFinal_leaves_marks_witness:
  "\<exists>out s'. analyzeFinal (\<lambda>_. []) (mkLit 1 False) assumed_state = Inr (out, s') \<and> \<not> seen assumed_state ! 0 \<and> seen s' ! 0"
proof -
  have "\<not> seen assumed_state ! 0"
    by (simp add: assumed_state_def)
  moreover have "seen (assumed_state\<lparr>seen := [True, False]\<rparr>) ! lit_var (mkLit 0 False)"
    using analyzeFinal_leaves_marks [OF assumed_state_inv assumed_state_run [of "\<lambda>_. []"]] by (metis lit_var_mkLit list.set_intros zero_neq_one)
  ultimately show ?thesis
    using assumed_state_run by auto
qed

end
