(* ===== verification/Spec2Isabelle.thy ===== *)
theory Spec2Isabelle
  imports Fast_Rational_Props Delta_Rational Cnf_Solver Sat_Search_Props
begin

text \<open>
  A verification library for the OpenSMT solver (\<open>src/src\<close>). The program reads SMT-LIB
  commands, builds hash-consed terms in a \<open>Logic\<close>, turns the Boolean structure of the
  assertions into clauses (\<open>cnfizers\<close>), and hands those to a CDCL solver (\<open>smtsolvers\<close>)
  that consults theory solvers, which compute with exact rationals (\<open>common\<close>,
  \<open>tsolvers/lasolver\<close>). The library follows the data from the numbers and the terms to the
  clauses.

  \<^bold>\<open>Numbers.\<close> \<open>Opensmt_Prelude\<close> holds the failures of C++ as values (\<open>c_error\<close>,
  \<open>rbind\<close>, \<open>require\<close>) and the machine integers (\<open>s32\<close>, \<open>u32\<close>,
  \<open>s64\<close>, \<open>u64\<close>: integers with the wrap-around written out). \<open>Gmp\<close> states the
  documented laws of the GMP functions as the locale \<open>gmp_iface\<close>; they are the only third-party code
  the numbers use. \<open>Fast_Rational\<close> and \<open>Fast_Rational_Arith\<close> are
  \<open>common/FastRational.h\<close> and \<open>.C\<close>: a record with the state bits, the word part
  (numerator in 32 signed bits, denominator in 32 unsigned bits) and the GMP part, and one definition per
  operator with its word path, its overflow tests and its GMP path. \<open>Fast_Rational_Inv\<close>,
  \<open>_Correct\<close>, \<open>_Exact\<close> and \<open>_Query\<close> prove that every operator keeps the
  well-formedness of the record and computes the exact rational, and where it does not: \<open>operator-\<close>
  wraps around for some operands, \<open>operator%\<close> depends on the representation and traps on
  \<open>INT_MIN % -1\<close>, and \<open>get_den\<close> reads a GMP number that is not there or is out of date.
  \<open>Fast_Rational_Props\<close> states the properties. \<open>Delta_Rational\<close> is
  \<open>lasolver/Delta.h\<close>: rationals with an infinitesimal part and two infinities. Its arithmetic calls
  the operators of \<open>Fast_Rational_Arith\<close>, so that its \<open>operator-\<close> is exact only where
  theirs is; its comparisons are over the exact values, which the comparisons of \<open>FastRational\<close>
  decide, and are related to the order of the concrete values.

  \<^bold>\<open>Terms.\<close> \<open>Symbols\<close> is the symbol store (\<open>symbols/SymStore\<close>; the size of a
  symbol has the 23 bits of its header, and the theorems are for fewer than 2^23 sorts),
  \<open>Terms\<close> the term store with its three canonical maps (\<open>pterms/PtStore\<close>).
  \<open>Logic_Core\<close>, \<open>Logic_Init\<close>, \<open>Logic_Insert\<close>,
  \<open>Logic_Connectives\<close>, \<open>Logic_Or\<close>, \<open>Logic_Eq\<close> and \<open>Logic_Ite\<close> are
  \<open>logics/Logic.C\<close>: the state is one record, \<open>insertTermHash\<close> is hash consing, and each
  \<open>mk\<close> function is its definition with the simplifications the code makes. \<open>Logic_Inv\<close>
  is the invariant of tables and terms, \<open>Logic_Start\<close> the constructor, \<open>Logic_Props\<close>
  the properties: terms are unique, references stay valid, and every connective denotes what its name says
  under every interpretation of the symbols.

  \<^bold>\<open>Clauses.\<close> \<open>Solver_Types\<close> has the literals and lifted booleans of
  \<open>minisat/core/SolverTypes.h\<close>, \<open>Term_Mapper\<close> the table of terms and variables,
  \<open>Cnfizer\<close> and \<open>Tseitin\<close> the conversion itself (\<open>cnfizers/Cnfizer.C\<close>,
  \<open>Tseitin.C\<close>): recognition of formulas that are clauses already, the frames of the incremental
  interface, and one definition per connective. \<open>Cnf_Terms\<close> to \<open>Cnf_Frames\<close> prove what
  a run emits: \<open>Cnf_Leaves\<close> that the loops over subterms end, \<open>Cnf_Inv\<close> the invariant
  of the term map and the notion of an assignment that agrees with a valuation of the terms,
  \<open>Cnf_Define\<close> the clauses of one connective, \<open>Cnf_Correct\<close> and \<open>Cnf_Main\<close>
  whole formulas; \<open>Cnf_Props\<close> states that a run is sound and complete for every Boolean formula
  of a logic without \<open>distinct\<close> of Booleans, which the code translates wrongly.

  \<^bold>\<open>The SAT solver.\<close> \<open>Vec_Sort\<close> is the sort of \<open>minisat/mtl/Sort.h\<close>.
  \<open>Sat_Solver\<close> is the clause database, the trail and unit propagation: \<open>Clause\<close>,
  \<open>ClauseAllocator\<close> and \<open>OccLists\<close> of \<open>SolverTypes.h\<close> and the class
  \<open>CoreSMTSolver\<close>, one record for its state and one definition for each method;
  \<open>Simp_Solver\<close> extends the record to \<open>SimpSMTSolver\<close> with its entry point for clauses.
  \<open>Sat_Inv\<close> (the trail), \<open>Sat_Watch\<close> (the watch lists), \<open>Sat_Pass\<close> and
  \<open>Sat_Propagate\<close> (one watch list, the queue) and \<open>Sat_State\<close> (whole calls) build the
  invariant \<open>sat_inv m s\<close>: two watched literals, a reason that implies its literal, and that no
  watched literal became false among the first \<open>m\<close> of the trail without a true literal on the same or a lower level.
  \<open>Sat_Add\<close>, \<open>Sat_Vars\<close> and \<open>Simp_Add\<close> define the models of a state and prove that
  new clauses cut them down and new variables leave them; \<open>Sat_Subsume\<close> is the subsumption test,
  \<open>Sat_Props\<close> states the properties. \<open>Cnf_Solver\<close> puts the conversion and the solver
  together: the locale \<open>clause_sink\<close> is what the conversion relies on, its interpretation is the solver.

  \<^bold>\<open>The search.\<close> \<open>Sat_Analyze\<close> is conflict analysis: \<open>analyze\<close> with
  \<open>litRedundant\<close>, the reasons of theory deductions, \<open>analyzeFinal\<close>, and the learning of a clause.
  \<open>Sat_Loop\<close> is \<open>search\<close> with \<open>simplify\<close>, \<open>reduceDB\<close>,
  \<open>pickBranchLit\<close>, and \<open>smtsolvers/Theory.C\<close>: \<open>checkTheory\<close> and what it does with the
  answers of the theory. \<open>Sat_Solve\<close> is \<open>solve_\<close> with the restarts and their limits.
  \<open>Sat_Redundant\<close> and \<open>Sat_Learn\<close> prove that the learnt clause follows and is asserting;
  \<open>Sat_Search\<close> is the invariant of the search, \<open>search_at T m s\<close>: the invariant of propagation,
  that only the first literal of a level is a decision, that the marks are cleared, that learnt clauses hold in all
  models that the theory \<open>T\<close> allows, and that each variable is assigned or in the heap; propagation,
  decisions, backtracking and learning keep it. \<open>Sat_Reduce\<close> proves the same for the removal of
  clauses, \<open>Sat_Theory\<close> for conflicts of the theory, \<open>Sat_Rounds\<close> for whole rounds, with the
  measure that makes the search end: the conflicts up to their bound, then the open variables.
  \<open>Sat_Ready\<close> shows that the constructor and new clauses build a state to start from,
  \<open>Sat_Restarts\<close> that the limits are the Luby sequence and that \<open>solve_\<close> is right;
  \<open>Sat_Search_Props\<close> states the properties. They are about runs with a literal known at level 0 (the
  converter gives the solver the constants as unit clauses), with \<open>ccmin_mode\<close> other than 1,
  \<open>sat_minimize_conflicts\<close> 0 or 1 and the default \<open>sat_learn_up_to_size\<close> of 0.

  \<^bold>\<open>Parameters.\<close> What steers the search without being part of its logic is an argument: the
  record \<open>heuristics\<close> of each round has the order by activity, the random choices, and the answers of
  clocks and budgets. The theory handler is an argument as well, the record \<open>theory_answer\<close> of each
  round for the trail at hand. The correctness of \<open>search\<close> and \<open>solve_\<close> is for theories that check
  and explain (\<open>sound_theory\<close>), without deductions, splits, stored lemmas and assumptions, which the
  definitions have and no theorem covers. The answers of the SAT solver to a new clause are an argument of the
  conversion (\<open>A\<close>, a predicate on the list of all clauses given so far), which \<open>Cnf_Solver\<close>
  instantiates with \<open>SimpSMTSolver\<close>.

  \<^bold>\<open>Loops.\<close> Loops over work lists of terms are \<open>partial_function (option)\<close>, so not
  ending is the value \<open>None\<close>, as are the sort, the queue of propagation, conflict analysis, the search and the
  restarts. The loops of terms are proved to end by the size of the terms on the list, which is
  finite because the arguments of a term are older than the term. All other loops are structural.

  \<^bold>\<open>Not modelled.\<close> The proof-producing build (\<open>PRODUCE_PROOF\<close>) and interpolation,
  printing and statistics, the activities, the splitting of the search space for parallel solving, the lookahead
  solver, the elimination of variables in \<open>SimpSMTSolver\<close>, \<open>popBacktrackPoint\<close>, the garbage collection of the arena, the theory solvers, the bit blaster, the parser (generated), the
  configuration tables, the front ends and the third-party library bliss.
\<close>

end
